(* ===== verification/OylPrelude.thy ===== *)
theory OylPrelude
  imports Main "HOL-Library.Word" "HOL-Library.Code_Target_Nat"
begin

text \<open>
  Shared vocabulary of the development of oyl (a YAML parser and emitter in C): the byte
  type and the names of the characters the sources compare with, C strings, the string view
  \<open>oyl_str\<close>, the allocation oracle, status codes, and the generic lemmas on lists and bytes
  that the component theories use.

  Conventions. A C buffer with its length is a \<open>byte list\<close>; \<open>buf[i]\<close> is \<open>xs ! i\<close> and is only
  written under a guard \<open>i < length xs\<close>. A \<open>size_t\<close> position in a buffer is a \<open>nat\<close>: it never
  exceeds the buffer's length, so it cannot wrap; where the code does arithmetic that can
  wrap (the arena, the masks, the signatures) the type is \<open>64 word\<close> or \<open>32 word\<close>. A C \<open>int\<close>
  that holds a column or an indentation is an \<open>int\<close>: columns are bounded by the input length,
  and inputs are taken to be shorter than \<open>2 ^ 31\<close> bytes, as the casts in the code assume.
\<close>

unbundle bit_operations_syntax

section \<open>Collections of lemmas\<close>

named_theorems char_class \<open>the byte predicates in terms of the bytes they accept\<close>
named_theorems scan_frame \<open>what the operations of the scanner leave unchanged\<close>
named_theorems scan_pos \<open>how the operations of the scanner move the cursor\<close>
named_theorems emit_simps \<open>the effect of the emitter's output operations\<close>

section \<open>Bytes\<close>

type_synonym byte = "8 word"

abbreviation NUL :: byte where "NUL \<equiv> 0x00"
abbreviation BEL :: byte where "BEL \<equiv> 0x07"
abbreviation BS :: byte where "BS \<equiv> 0x08"
abbreviation TAB :: byte where "TAB \<equiv> 0x09"
abbreviation LF :: byte where "LF \<equiv> 0x0A"
abbreviation VT :: byte where "VT \<equiv> 0x0B"
abbreviation FF :: byte where "FF \<equiv> 0x0C"
abbreviation CR :: byte where "CR \<equiv> 0x0D"
abbreviation ESC :: byte where "ESC \<equiv> 0x1B"
abbreviation SP :: byte where "SP \<equiv> 0x20"
abbreviation BANG :: byte where "BANG \<equiv> 0x21"
abbreviation DQUOTE :: byte where "DQUOTE \<equiv> 0x22"
abbreviation HASH :: byte where "HASH \<equiv> 0x23"
abbreviation PERCENT :: byte where "PERCENT \<equiv> 0x25"
abbreviation AMP :: byte where "AMP \<equiv> 0x26"
abbreviation SQUOTE :: byte where "SQUOTE \<equiv> 0x27"
abbreviation STAR :: byte where "STAR \<equiv> 0x2A"
abbreviation PLUS :: byte where "PLUS \<equiv> 0x2B"
abbreviation COMMA :: byte where "COMMA \<equiv> 0x2C"
abbreviation DASH :: byte where "DASH \<equiv> 0x2D"
abbreviation DOT :: byte where "DOT \<equiv> 0x2E"
abbreviation SLASH :: byte where "SLASH \<equiv> 0x2F"
abbreviation DIGIT_0 :: byte where "DIGIT_0 \<equiv> 0x30"
abbreviation DIGIT_1 :: byte where "DIGIT_1 \<equiv> 0x31"
abbreviation DIGIT_7 :: byte where "DIGIT_7 \<equiv> 0x37"
abbreviation DIGIT_9 :: byte where "DIGIT_9 \<equiv> 0x39"
abbreviation COLON :: byte where "COLON \<equiv> 0x3A"
abbreviation LT :: byte where "LT \<equiv> 0x3C"
abbreviation GT :: byte where "GT \<equiv> 0x3E"
abbreviation QMARK :: byte where "QMARK \<equiv> 0x3F"
abbreviation UC_A :: byte where "UC_A \<equiv> 0x41"
abbreviation UC_E :: byte where "UC_E \<equiv> 0x45"
abbreviation UC_F :: byte where "UC_F \<equiv> 0x46"
abbreviation UC_N :: byte where "UC_N \<equiv> 0x4E"
abbreviation UC_U :: byte where "UC_U \<equiv> 0x55"
abbreviation UC_Z :: byte where "UC_Z \<equiv> 0x5A"
abbreviation LBRACK :: byte where "LBRACK \<equiv> 0x5B"
abbreviation BSLASH :: byte where "BSLASH \<equiv> 0x5C"
abbreviation RBRACK :: byte where "RBRACK \<equiv> 0x5D"
abbreviation UNDERSCORE :: byte where "UNDERSCORE \<equiv> 0x5F"
abbreviation LC_A :: byte where "LC_A \<equiv> 0x61"
abbreviation LC_B :: byte where "LC_B \<equiv> 0x62"
abbreviation LC_E :: byte where "LC_E \<equiv> 0x65"
abbreviation LC_F :: byte where "LC_F \<equiv> 0x66"
abbreviation LC_N :: byte where "LC_N \<equiv> 0x6E"
abbreviation LC_O :: byte where "LC_O \<equiv> 0x6F"
abbreviation LC_R :: byte where "LC_R \<equiv> 0x72"
abbreviation LC_T :: byte where "LC_T \<equiv> 0x74"
abbreviation LC_U :: byte where "LC_U \<equiv> 0x75"
abbreviation LC_V :: byte where "LC_V \<equiv> 0x76"
abbreviation LC_X :: byte where "LC_X \<equiv> 0x78"
abbreviation LC_Z :: byte where "LC_Z \<equiv> 0x7A"
abbreviation LBRACE :: byte where "LBRACE \<equiv> 0x7B"
abbreviation PIPE :: byte where "PIPE \<equiv> 0x7C"
abbreviation RBRACE :: byte where "RBRACE \<equiv> 0x7D"
abbreviation TILDE :: byte where "TILDE \<equiv> 0x7E"
abbreviation DEL :: byte where "DEL \<equiv> 0x7F"

text \<open>The bytes of a string literal, without the terminating NUL.\<close>

definition bytes_of :: "string \<Rightarrow> byte list" where
  "bytes_of = map of_char"

text \<open>
  A predicate of a byte and its entry in a table, checked along the whole table from byte \<open>c\<close> on.
\<close>

fun table_ok :: "(byte \<Rightarrow> byte \<Rightarrow> bool) \<Rightarrow> byte \<Rightarrow> byte list \<Rightarrow> bool" where
  "table_ok P c [] = True"
| "table_ok P c (t # ts) = (P c t \<and> table_ok P (c + 1) ts)"

section \<open>String views and the largest size\<close>

text \<open>
  \<open>oyl_str\<close>: \<open>None\<close> is the null view (data NULL, length 0); \<open>Some xs\<close> a view of the bytes
  \<open>xs\<close>. Whether the bytes lie in the input or in the arena is not observable by the code
  modelled here. \<open>SIZE_MAX\<close> is the largest 64-bit \<open>size_t\<close>, used as "no position".
\<close>

type_synonym oyl_str = "byte list option"

definition str_bytes :: "oyl_str \<Rightarrow> byte list" where
  "str_bytes v = (case v of None \<Rightarrow> [] | Some xs \<Rightarrow> xs)"

definition SIZE_MAX :: nat where
  "SIZE_MAX = 2 ^ 64 - 1"

text \<open>The status codes of the library.\<close>

datatype oyl_status =
    OYL_OK
  | OYL_ERR_MEMORY
  | OYL_ERR_INPUT
  | OYL_ERR_SCAN
  | OYL_ERR_PARSE
  | OYL_ERR_EMIT
  | OYL_ERR_LIMIT

text \<open>
  The allocation oracle: the outcomes of the coming allocations, in order (\<open>False\<close> for a
  NULL result); when the list is used up, allocations succeed. Every theorem holds for every
  oracle, so for an allocator that fails at any point.
\<close>

type_synonym mem = "bool list"

fun mem_take :: "mem \<Rightarrow> bool \<times> mem" where
  "mem_take [] = (True, [])"
| "mem_take (b # m) = (b, m)"

text \<open>
  The loop "for i = 0; i < len; i++: if stop(buf[i]) return i; return len" of many of the
  routines, on the buffer as a list.
\<close>

fun scan_until :: "(byte \<Rightarrow> bool) \<Rightarrow> byte list \<Rightarrow> nat" where
  "scan_until stop [] = 0"
| "scan_until stop (c # cs) = (if stop c then 0 else Suc (scan_until stop cs))"

text \<open>A part of a buffer: \<open>n\<close> bytes from offset \<open>i\<close>.\<close>

definition sub_buf :: "byte list \<Rightarrow> nat \<Rightarrow> nat \<Rightarrow> byte list" where
  "sub_buf xs i n = take n (drop i xs)"

section \<open>Generic lemmas\<close>

lemma table_ok_nth: "table_ok P c tab \<Longrightarrow> n < length tab \<Longrightarrow> P (c + word_of_nat n) (tab ! n)"
proof (induction tab arbitrary: c n)
  case Nil
  then show ?case by simp
next
  case (Cons t ts)
  then show ?case
    by (cases n) (force simp: add.assoc)+
qed

text \<open>What holds along a table of 256 entries holds of each byte and its entry.\<close>

lemma byte_tableI:
  assumes "table_ok P 0 tab" and "length tab = 256"
  shows "P c (tab ! unat c)"
proof -
  have "unat c < 256" using unsigned_less [of c, where 'a = nat] by simp
  then show ?thesis using table_ok_nth [OF assms(1), of "unat c"] assms(2) by simp
qed

lemma scan_until_le [simp]: "scan_until stop xs \<le> length xs"
  by (induction xs) auto

lemma scan_until_before: "i < scan_until stop xs \<Longrightarrow> \<not> stop (xs ! i)"
  by (induction xs arbitrary: i) (auto simp: nth_Cons split: nat.splits if_splits)

lemma scan_until_at: "scan_until stop xs < length xs \<Longrightarrow> stop (xs ! scan_until stop xs)"
  by (induction xs) auto

lemma scan_until_takeWhile: "scan_until stop xs = length (takeWhile (\<lambda>c. \<not> stop c) xs)"
  by (induction xs) auto

lemma scan_until_append:
  "(\<And>c. c \<in> set xs \<Longrightarrow> \<not> stop c) \<Longrightarrow> scan_until stop (xs @ ys) = length xs + scan_until stop ys"
  by (induction xs) auto

lemma scan_until_append_if:
  "scan_until stop (xs @ ys) =
     (if scan_until stop xs < length xs then scan_until stop xs
      else length xs + scan_until stop ys)"
  by (induction xs) auto

text \<open>The characterisation of the loop's result by what it returns.\<close>

lemma scan_until_eqI:
  assumes "n \<le> length xs" and "\<And>i. i < n \<Longrightarrow> \<not> stop (xs ! i)"
    and "n < length xs \<Longrightarrow> stop (xs ! n)"
  shows "scan_until stop xs = n"
  using assms
proof (induction xs arbitrary: n)
  case Nil
  then show ?case by simp
next
  case (Cons c cs)
  show ?case
  proof (cases n)
    case 0
    with Cons.prems show ?thesis by simp
  next
    case (Suc m)
    have "\<not> stop c" using Cons.prems(2) [of 0] Suc by simp
    moreover have "scan_until stop cs = m"
    proof (rule Cons.IH)
      show "m \<le> length cs" using Cons.prems(1) Suc by simp
      show "\<And>i. i < m \<Longrightarrow> \<not> stop (cs ! i)" using Cons.prems(2) Suc by force
      show "m < length cs \<Longrightarrow> stop (cs ! m)" using Cons.prems(3) Suc by simp
    qed
    ultimately show ?thesis using Suc by simp
  qed
qed

lemma str_bytes_simps [simp]:
  "str_bytes None = []"
  "str_bytes (Some xs) = xs"
  by (simp_all add: str_bytes_def)

lemma length_sub_buf [simp]: "length (sub_buf xs i n) = min n (length xs - i)"
  by (simp add: sub_buf_def)

lemma sub_buf_0 [simp]: "sub_buf xs i 0 = []"
  by (simp add: sub_buf_def)

lemma sub_buf_append: "sub_buf (xs @ ys @ zs) (length xs) (length ys) = ys"
  by (simp add: sub_buf_def)

end
