(* ===== verification/OylArena.thy ===== *)
theory OylArena
  imports OylPrelude
begin

text \<open>
  \<open>src/src/oyl_arena.c\<close>: the bump allocator. Addresses and sizes are 64-bit words, with the
  wrap-around of \<open>size_t\<close> and \<open>uintptr_t\<close>. A block is its address, capacity and used part; the
  data follow the 24-byte header. The chain of blocks from \<open>a->blocks\<close> on is a list; \<open>a->head\<close> is
  the address of the block allocations come from.

  \<open>malloc\<close> is an argument of the operations that call it: the answer to the call they make, as a
  function of the size asked for. What is assumed of it is that a block it returns does not reach
  past the end of the address space (\<open>malloc_ok\<close>), as the C standard promises of any object.
\<close>

section \<open>State\<close>

type_synonym csize = "64 word"

record oyl_block =
  blk_addr :: csize
  blk_cap :: csize
  blk_used :: csize

record oyl_arena =
  ar_head :: csize
  ar_blocks :: "oyl_block list"
  ar_default_cap :: csize

abbreviation SIZE_T_MAX :: csize where "SIZE_T_MAX \<equiv> - 1"

definition sizeof_block :: csize where
  "sizeof_block = 24"

definition BLOCK_DATA :: "oyl_block \<Rightarrow> csize" where
  "BLOCK_DATA b = blk_addr b + sizeof_block"

section \<open>Operations\<close>

definition block_new :: "(csize \<Rightarrow> csize option) \<Rightarrow> csize \<Rightarrow> oyl_block option" where
  "block_new malloc cap =
    (if cap > SIZE_T_MAX - sizeof_block then None
     else case malloc (sizeof_block + cap) of
            None \<Rightarrow> None
          | Some p \<Rightarrow> Some \<lparr>blk_addr = p, blk_cap = cap, blk_used = 0\<rparr>)"

text \<open>\<open>struct_ok\<close> is the outcome of the allocation of the arena structure itself.\<close>

definition oyl_arena_new :: "bool \<Rightarrow> (csize \<Rightarrow> csize option) \<Rightarrow> csize \<Rightarrow> oyl_arena option" where
  "oyl_arena_new struct_ok malloc initial_cap =
    (let initial_cap = (if initial_cap < 4096 then 4096 else initial_cap)
     in if \<not> struct_ok then None
        else case block_new malloc initial_cap of
               None \<Rightarrow> None
             | Some b \<Rightarrow> Some \<lparr>ar_head = blk_addr b, ar_blocks = [b], ar_default_cap = initial_cap\<rparr>)"

definition aligned_offset :: "oyl_block \<Rightarrow> csize \<Rightarrow> csize \<Rightarrow> csize" where
  "aligned_offset b from align =
    (let addr = BLOCK_DATA b + from
     in from + ((align - (addr AND (align - 1))) AND (align - 1)))"

text \<open>Reading and writing the block that \<open>a->head\<close> points to.\<close>

fun find_block :: "csize \<Rightarrow> oyl_block list \<Rightarrow> oyl_block option" where
  "find_block p [] = None"
| "find_block p (b # bs) = (if blk_addr b = p then Some b else find_block p bs)"

fun set_used :: "csize \<Rightarrow> csize \<Rightarrow> oyl_block list \<Rightarrow> oyl_block list" where
  "set_used p u [] = []"
| "set_used p u (b # bs) =
    (if blk_addr b = p then b\<lparr>blk_used := u\<rparr> # bs else b # set_used p u bs)"

definition new_block_cap :: "oyl_arena \<Rightarrow> oyl_block \<Rightarrow> csize \<Rightarrow> csize \<Rightarrow> csize" where
  "new_block_cap a b sz align =
    (let cap = ar_default_cap a;
         cap = (if cap < sz + align then sz + align else cap)
     in if blk_cap b \<le> SIZE_T_MAX div 2 \<and> cap < blk_cap b * 2 then blk_cap b * 2 else cap)"

text \<open>
  The result is the pointer (or \<open>None\<close> for NULL) and the arena afterwards. A head that is in no
  block would be a dangling pointer; the invariant below excludes it.
\<close>

definition oyl_arena_alloc ::
    "(csize \<Rightarrow> csize option) \<Rightarrow> oyl_arena \<Rightarrow> csize \<Rightarrow> csize \<Rightarrow> csize option \<times> oyl_arena" where
  "oyl_arena_alloc malloc a sz align =
    (let align = (if align = 0 then 1 else align)
     in if align AND (align - 1) \<noteq> 0 then (None, a)
        else if sz > SIZE_T_MAX - align then (None, a)
        else case find_block (ar_head a) (ar_blocks a) of
          None \<Rightarrow> (None, a)
        | Some b \<Rightarrow>
           (let aligned = aligned_offset b (blk_used b) align
            in if aligned > blk_cap b \<or> sz > blk_cap b - aligned then
                 (case block_new malloc (new_block_cap a b sz align) of
                    None \<Rightarrow> (None, a)
                  | Some nb \<Rightarrow>
                      (let aligned = aligned_offset nb 0 align
                       in (Some (BLOCK_DATA nb + aligned),
                           a\<lparr>ar_blocks := nb\<lparr>blk_used := aligned + sz\<rparr> # ar_blocks a,
                             ar_head := blk_addr nb\<rparr>)))
               else (Some (BLOCK_DATA b + aligned),
                     a\<lparr>ar_blocks := set_used (ar_head a) (aligned + sz) (ar_blocks a)\<rparr>)))"

text \<open>\<open>oyl_arena_dup\<close>: the address of the copy; what is written there is \<open>src\<close> and a NUL.\<close>

definition oyl_arena_dup ::
    "(csize \<Rightarrow> csize option) \<Rightarrow> oyl_arena \<Rightarrow> csize \<Rightarrow> csize option \<times> oyl_arena" where
  "oyl_arena_dup malloc a len =
    (if len = SIZE_T_MAX then (None, a) else oyl_arena_alloc malloc a (len + 1) 1)"

text \<open>The last block of the largest capacity: the one \<open>oyl_arena_reset\<close> keeps.\<close>

fun largest_block :: "oyl_block option \<Rightarrow> csize \<Rightarrow> oyl_block list \<Rightarrow> oyl_block option" where
  "largest_block keep max_cap [] = keep"
| "largest_block keep max_cap (cur # bs) =
    (if blk_cap cur \<ge> max_cap then largest_block (Some cur) (blk_cap cur) bs
     else largest_block keep max_cap bs)"

definition oyl_arena_reset :: "oyl_arena \<Rightarrow> oyl_arena" where
  "oyl_arena_reset a =
    (case largest_block None 0 (ar_blocks a) of
       None \<Rightarrow> a
     | Some keep \<Rightarrow> a\<lparr>ar_blocks := [keep\<lparr>blk_used := 0\<rparr>], ar_head := blk_addr keep\<rparr>)"

text \<open>The blocks \<open>oyl_arena_free\<close> gives back.\<close>

definition oyl_arena_free :: "oyl_arena \<Rightarrow> csize list" where
  "oyl_arena_free a = map blk_addr (ar_blocks a)"

section \<open>Invariant\<close>

text \<open>A block lies inside the address space, and its used part inside the block.\<close>

definition block_ok :: "oyl_block \<Rightarrow> bool" where
  "block_ok b \<longleftrightarrow> unat (blk_addr b) + 24 + unat (blk_cap b) < 2 ^ 64 \<and> blk_used b \<le> blk_cap b"

definition extent :: "oyl_block \<Rightarrow> nat set" where
  "extent b = {unat (blk_addr b) ..< unat (blk_addr b) + 24 + unat (blk_cap b)}"

definition arena_ok :: "oyl_arena \<Rightarrow> bool" where
  "arena_ok a \<longleftrightarrow> ar_blocks a \<noteq> [] \<and> ar_head a = blk_addr (hd (ar_blocks a)) \<and>
     (\<forall>b \<in> set (ar_blocks a). block_ok b) \<and>
     sorted_wrt (\<lambda>b c. extent b \<inter> extent c = {}) (ar_blocks a)"

text \<open>What \<open>malloc\<close> promises: its blocks fit in the address space and overlap no live block.\<close>

definition malloc_ok :: "(csize \<Rightarrow> csize option) \<Rightarrow> bool" where
  "malloc_ok malloc \<longleftrightarrow> (\<forall>n p. malloc n = Some p \<longrightarrow> unat p + unat n < 2 ^ 64)"

definition malloc_fresh :: "(csize \<Rightarrow> csize option) \<Rightarrow> oyl_arena \<Rightarrow> bool" where
  "malloc_fresh malloc a \<longleftrightarrow> (\<forall>n p. malloc n = Some p \<longrightarrow>
     (\<forall>b \<in> set (ar_blocks a). {unat p ..< unat p + unat n} \<inter> extent b = {}))"

text \<open>The addresses in use in a block: the first \<open>blk_used\<close> bytes of its data.\<close>

definition used_range :: "oyl_block \<Rightarrow> nat set" where
  "used_range b = {unat (BLOCK_DATA b) ..< unat (BLOCK_DATA b) + unat (blk_used b)}"

section \<open>Powers of two and alignment\<close>

text \<open>\<open>align & (align - 1)\<close> is zero exactly for the powers of two (and zero).\<close>

lemma and_pred_eq_0_nat: "(n :: nat) AND (n - 1) = 0 \<Longrightarrow> n \<noteq> 0 \<Longrightarrow> \<exists>k. n = 2 ^ k"
proof (induction n rule: less_induct)
  case (less n)
  show ?case
  proof (cases "even n")
    case True
    then obtain m where n: "n = 2 * m" by blast
    with less.prems have m: "m \<noteq> 0" by simp
    have "n - 1 = 2 * (m - 1) + 1" using m n by simp
    then have "n AND (n - 1) = 2 * (m AND (m - 1))"
      using n by (simp add: and_rec [of "2 * m"])
    with less.prems have "m AND (m - 1) = 0" by simp
    with less.IH [of m] m n obtain k where "m = 2 ^ k" by auto
    with n show ?thesis by (metis power_Suc)
  next
    case False
    then obtain m where n: "n = 2 * m + 1" using oddE by blast
    then have "n AND (n - 1) = 2 * m"
      by (simp add: and_rec [of "Suc (2 * m)"])
    with less.prems n show ?thesis by (metis add_0 mult_0_right power_0)
  qed
qed

lemma unat_pow2:
  assumes "k < 64"
  shows "unat (2 ^ k :: csize) = 2 ^ k"
proof -
  have "(2 :: nat) ^ k < 2 ^ 64" using assms by (rule power_strict_increasing) simp
  moreover have "(2 ^ k :: csize) = word_of_nat (2 ^ k)" by simp
  ultimately show ?thesis
    using assms by (simp only: unsigned_of_nat take_bit_nat_eq_self_iff len_bit0)
      (simp add: take_bit_nat_eq_self)
qed

lemma pow2_align:
  fixes align :: csize
  assumes "align AND (align - 1) = 0" and "align \<noteq> 0"
  obtains k where "k < 64" and "align = 2 ^ k"
proof -
  have "unat (align - 1) = unat align - 1"
    using assms(2) by (simp add: unat_minus_one)
  then have "unat align AND (unat align - 1) = 0"
    using assms(1) by (metis unsigned_and_eq unsigned_0)
  moreover have "unat align \<noteq> 0" using assms(2) by (simp add: unat_eq_0)
  ultimately obtain k where k: "unat align = 2 ^ k" using and_pred_eq_0_nat by blast
  moreover have "unat align < 2 ^ 64" using unsigned_less [of align, where 'a = nat] by simp
  ultimately have "k < 64" by (metis nat_power_less_imp_less zero_less_numeral)
  moreover from this have "align = 2 ^ k"
    by (metis k unat_pow2 unsigned_word_eqI)
  ultimately show thesis by (rule that)
qed

text \<open>The padding is the distance to the next multiple of the alignment.\<close>

lemma unat_padding:
  fixes addr :: csize
  assumes "k < 64"
  shows "unat ((2 ^ k - (addr AND (2 ^ k - 1))) AND (2 ^ k - 1)) = (2 ^ k - unat addr mod 2 ^ k) mod 2 ^ k"
proof -
  have mod: "unat (x AND (2 ^ k - 1)) = unat x mod 2 ^ k" for x :: csize
    by (metis mask_eq_exp_minus_1 take_bit_eq_mask take_bit_eq_mod unsigned_take_bit_eq)
  have pow: "unat (2 ^ k :: csize) = 2 ^ k" using assms by (rule unat_pow2)
  have "addr AND (2 ^ k - 1) \<le> 2 ^ k"
    unfolding word_le_nat_alt mod pow by (simp add: less_imp_le)
  then have "unat (2 ^ k - (addr AND (2 ^ k - 1))) = 2 ^ k - unat addr mod 2 ^ k"
    by (simp add: unat_sub mod pow)
  then show ?thesis by (simp add: mod)
qed

lemma round_up:
  fixes x m :: nat
  assumes "0 < m"
  shows "m dvd x + (m - x mod m) mod m" and "(m - x mod m) mod m < m"
    and "x \<le> q * m \<Longrightarrow> x + (m - x mod m) mod m \<le> q * m"
proof -
  let ?p = "(m - x mod m) mod m"
  show lt: "?p < m" using assms by simp
  have eq: "x + ?p = (if x mod m = 0 then x else (x div m + 1) * m)"
    using assms by (auto simp: algebra_simps mod_less minus_mod_eq_mult_div [symmetric])
  then show "m dvd x + ?p" by auto
  show "x + ?p \<le> q * m" if "x \<le> q * m"
  proof (cases "x mod m = 0")
    case True
    with that eq show ?thesis by simp
  next
    case False
    then have "x \<noteq> q * m" by auto
    with that have "x < q * m" by simp
    then have "x div m < q" by (simp add: less_mult_imp_div_less)
    then have "(x div m + 1) * m \<le> q * m" by (simp only: mult_le_mono1)
    with False eq show ?thesis by simp
  qed
qed

text \<open>
  The aligned offset of a block: at least \<open>from\<close>, less than \<open>align\<close> more, and its address is a
  multiple of \<open>align\<close>, provided it lies within the block (which the caller checks).
\<close>

lemma aligned_offset_spec:
  assumes "block_ok b" and "from \<le> blk_cap b" and "k < 64"
  shows "unat (aligned_offset b from (2 ^ k)) = unat from + (2 ^ k - (unat (BLOCK_DATA b) + unat from) mod 2 ^ k) mod 2 ^ k"
    and "2 ^ k dvd unat (BLOCK_DATA b) + unat (aligned_offset b from (2 ^ k))"
proof -
  let ?x = "unat (BLOCK_DATA b) + unat from"
  let ?p = "(2 ^ k - ?x mod 2 ^ k) mod 2 ^ k :: nat"
  have data: "unat (BLOCK_DATA b) = unat (blk_addr b) + 24"
    using assms(1) by (simp add: BLOCK_DATA_def sizeof_block_def block_ok_def unat_word_ariths)
  have x: "?x < 2 ^ 64"
    using assms(1,2) data by (simp add: block_ok_def word_le_nat_alt)
  then have addr: "unat (BLOCK_DATA b + from) = ?x" by (simp add: unat_word_ariths)
  have "(2 :: nat) ^ 64 = 2 ^ (64 - k) * 2 ^ k"
    using assms(3) by (simp add: power_add [symmetric])
  then have "?x + ?p \<le> 2 ^ 64"
    using round_up(3) [of "2 ^ k" ?x "2 ^ (64 - k)"] x by simp
  then have "unat from + ?p < 2 ^ 64" using data by simp
  then show eq: "unat (aligned_offset b from (2 ^ k)) = unat from + ?p"
    using unat_padding [OF assms(3), of "BLOCK_DATA b + from"] addr
    by (simp add: aligned_offset_def Let_def unat_word_ariths)
  show "2 ^ k dvd unat (BLOCK_DATA b) + unat (aligned_offset b from (2 ^ k))"
    unfolding eq using round_up(1) [of "2 ^ k" ?x] by (simp add: add.assoc)
qed

lemma aligned_offset_ge:
  assumes "block_ok b" and "from \<le> blk_cap b" and "k < 64"
  shows "from \<le> aligned_offset b from (2 ^ k)"
  using aligned_offset_spec(1) [OF assms] by (simp add: word_le_nat_alt)

section \<open>Allocation\<close>

lemma find_block_head:
  "arena_ok a \<Longrightarrow> find_block (ar_head a) (ar_blocks a) = Some (hd (ar_blocks a))"
  by (cases "ar_blocks a") (auto simp: arena_ok_def)

lemma set_used_head:
  "arena_ok a \<Longrightarrow> set_used (ar_head a) u (ar_blocks a) =
     (hd (ar_blocks a))\<lparr>blk_used := u\<rparr> # tl (ar_blocks a)"
  by (cases "ar_blocks a") (auto simp: arena_ok_def)

lemma block_new_ok:
  assumes "block_new malloc cap = Some b" and "malloc_ok malloc"
  shows "blk_cap b = cap \<and> blk_used b = 0 \<and> block_ok b \<and>
    (\<exists>p n. malloc n = Some p \<and> extent b = {unat p ..< unat p + unat n})"
proof -
  from assms(1) obtain p where cap: "cap \<le> SIZE_T_MAX - sizeof_block"
    and m: "malloc (sizeof_block + cap) = Some p"
    and b: "b = \<lparr>blk_addr = p, blk_cap = cap, blk_used = 0\<rparr>"
    by (auto simp: block_new_def not_less split: if_splits option.splits)
  have "unat (SIZE_T_MAX - sizeof_block) = 2 ^ 64 - 25"
    by (simp add: sizeof_block_def)
  with cap have "24 + unat cap < 2 ^ 64" by (simp add: word_le_nat_alt)
  then have n: "unat (sizeof_block + cap) = 24 + unat cap"
    by (simp add: sizeof_block_def unat_word_ariths)
  with m assms(2) have "unat p + 24 + unat cap < 2 ^ 64"
    unfolding malloc_ok_def by fastforce
  moreover have "extent b = {unat p ..< unat p + unat (sizeof_block + cap)}"
    using b n by (simp add: extent_def add.assoc)
  ultimately show ?thesis using b m by (auto simp: block_ok_def)
qed

text \<open>The new block has room for the request and its padding.\<close>

lemma new_block_cap_ge:
  assumes "\<not> sz > SIZE_T_MAX - align"
  shows "unat sz + unat align \<le> unat (new_block_cap a b sz align)"
proof -
  have "unat (SIZE_T_MAX - align) = 2 ^ 64 - 1 - unat align" by (subst unat_sub) (simp_all add: unsigned_minus_1_eq_mask mask_eq_exp_minus_1)
  then have "unat sz + unat align < 2 ^ 64"
    using assms unsigned_less [of align, where 'a = nat]
    by (simp add: word_le_nat_alt not_less)
  then have eq: "unat (sz + align) = unat sz + unat align" by (simp add: unat_word_ariths)
  have "sz + align \<le> new_block_cap a b sz align"
    by (auto simp: new_block_cap_def Let_def)
  then show ?thesis using eq by (simp add: word_le_nat_alt)
qed

text \<open>Bumping a block: the new range is inside it and above what was in use.\<close>

lemma bump_block:
  assumes "block_ok b" and "blk_used b \<le> aligned" and "aligned \<le> blk_cap b" and "sz \<le> blk_cap b - aligned"
  defines "b' \<equiv> b\<lparr>blk_used := aligned + sz\<rparr>" and "p \<equiv> BLOCK_DATA b + aligned"
  shows "unat p = unat (BLOCK_DATA b) + unat aligned" and "block_ok b'" and "extent b' = extent b"
    and "{unat p ..< unat p + unat sz} \<subseteq> used_range b'" and "used_range b \<subseteq> used_range b'"
    and "used_range b \<inter> {unat p ..< unat p + unat sz} = {}"
    and "{unat p ..< unat p + unat sz} \<subseteq> extent b"
proof -
  have data: "unat (BLOCK_DATA b) = unat (blk_addr b) + 24"
    using assms(1) by (simp add: BLOCK_DATA_def sizeof_block_def block_ok_def unat_word_ariths)
  have room: "unat aligned + unat sz \<le> unat (blk_cap b)"
    using assms(3,4) by (simp add: word_le_nat_alt unat_sub)
  have cap: "unat (blk_addr b) + 24 + unat (blk_cap b) < 2 ^ 64"
    using assms(1) by (simp add: block_ok_def)
  from room cap have sum: "unat (aligned + sz) = unat aligned + unat sz"
    by (simp add: unat_word_ariths)
  from room cap data show p: "unat p = unat (BLOCK_DATA b) + unat aligned"
    by (simp add: p_def unat_word_ariths)
  show "block_ok b'" using cap room sum by (simp add: b'_def block_ok_def word_le_nat_alt)
  show "extent b' = extent b" by (simp add: b'_def extent_def)
  have data': "BLOCK_DATA b' = BLOCK_DATA b" by (simp add: b'_def BLOCK_DATA_def)
  show "{unat p ..< unat p + unat sz} \<subseteq> used_range b'"
    using p sum data' by (auto simp: used_range_def b'_def)
  show "used_range b \<subseteq> used_range b'" "used_range b \<inter> {unat p ..< unat p + unat sz} = {}"
    using p sum data' assms(2) by (auto simp: used_range_def b'_def word_le_nat_alt)
  show "{unat p ..< unat p + unat sz} \<subseteq> extent b"
    using p data room by (auto simp: extent_def)
qed

lemma used_in_extent: "block_ok b \<Longrightarrow> used_range b \<subseteq> extent b"
proof -
  assume ok: "block_ok b"
  then have "unat (BLOCK_DATA b) = unat (blk_addr b) + 24"
    by (simp add: BLOCK_DATA_def sizeof_block_def block_ok_def unat_word_ariths)
  with ok show ?thesis by (auto simp: used_range_def extent_def block_ok_def word_le_nat_alt)
qed

text \<open>What a successful allocation promises about the range \<open>[p, p + sz)\<close> it hands out.\<close>

definition alloc_post :: "oyl_arena \<Rightarrow> csize \<Rightarrow> csize \<Rightarrow> csize \<Rightarrow> oyl_arena \<Rightarrow> bool" where
  "alloc_post a sz align p a' \<longleftrightarrow>
     arena_ok a' \<and> unat (if align = 0 then 1 else align) dvd unat p \<and>
     (\<exists>b \<in> set (ar_blocks a'). {unat p ..< unat p + unat sz} \<subseteq> used_range b) \<and>
     (\<forall>b \<in> set (ar_blocks a). used_range b \<inter> {unat p ..< unat p + unat sz} = {}) \<and>
     (\<forall>b \<in> set (ar_blocks a). \<exists>b' \<in> set (ar_blocks a'). used_range b \<subseteq> used_range b')"

text \<open>The two ways an allocation succeeds: in the head block, or in a new one.\<close>

lemma alloc_cases:
  assumes "arena_ok a" and "oyl_arena_alloc malloc a sz align = (Some p, a')"
  obtains (head) k b aligned where "k < 64" "(if align = 0 then 1 else align) = 2 ^ k"
      "b = hd (ar_blocks a)" "aligned = aligned_offset b (blk_used b) (2 ^ k)"
      "aligned \<le> blk_cap b" "sz \<le> blk_cap b - aligned" "p = BLOCK_DATA b + aligned"
      "a' = a\<lparr>ar_blocks := b\<lparr>blk_used := aligned + sz\<rparr> # tl (ar_blocks a)\<rparr>"
    | (new) k b nb aligned where "k < 64" "(if align = 0 then 1 else align) = 2 ^ k"
      "\<not> sz > SIZE_T_MAX - 2 ^ k"
      "block_new malloc (new_block_cap a b sz (2 ^ k)) = Some nb"
      "aligned = aligned_offset nb 0 (2 ^ k)" "p = BLOCK_DATA nb + aligned"
      "a' = a\<lparr>ar_blocks := nb\<lparr>blk_used := aligned + sz\<rparr> # ar_blocks a, ar_head := blk_addr nb\<rparr>"
proof -
  define al where "al = (if align = 0 then 1 else align)"
  have "al \<noteq> 0" by (simp add: al_def)
  have pow: "al AND (al - 1) = 0" and fits: "\<not> sz > SIZE_T_MAX - al"
    using assms(2) by (auto simp: oyl_arena_alloc_def al_def [symmetric] Let_def split: if_splits)
  obtain k where k: "k < 64" "al = 2 ^ k" using pow2_align [OF pow \<open>al \<noteq> 0\<close>] by blast
  have eq: "oyl_arena_alloc malloc a sz align =
    (let b = hd (ar_blocks a); aligned = aligned_offset b (blk_used b) al
     in if aligned > blk_cap b \<or> sz > blk_cap b - aligned then
          (case block_new malloc (new_block_cap a b sz al) of
             None \<Rightarrow> (None, a)
           | Some nb \<Rightarrow>
               (let aligned = aligned_offset nb 0 al
                in (Some (BLOCK_DATA nb + aligned),
                    a\<lparr>ar_blocks := nb\<lparr>blk_used := aligned + sz\<rparr> # ar_blocks a, ar_head := blk_addr nb\<rparr>)))
        else (Some (BLOCK_DATA b + aligned),
              a\<lparr>ar_blocks := b\<lparr>blk_used := aligned + sz\<rparr> # tl (ar_blocks a)\<rparr>))"
    using pow fits unfolding oyl_arena_alloc_def al_def [symmetric] Let_def
    by (simp add: find_block_head [OF assms(1)] set_used_head [OF assms(1)])
  note eq = eq [unfolded k(2)]
  define b where "b = hd (ar_blocks a)"
  define aligned where "aligned = aligned_offset b (blk_used b) (2 ^ k)"
  show thesis
  proof (cases "aligned > blk_cap b \<or> sz > blk_cap b - aligned")
    case True
    then obtain nb where "block_new malloc (new_block_cap a b sz (2 ^ k)) = Some nb"
      and "p = BLOCK_DATA nb + aligned_offset nb 0 (2 ^ k)"
      and "a' = a\<lparr>ar_blocks := nb\<lparr>blk_used := aligned_offset nb 0 (2 ^ k) + sz\<rparr> # ar_blocks a,
         ar_head := blk_addr nb\<rparr>"
      using assms(2) unfolding eq b_def [symmetric] aligned_def [symmetric] Let_def
      by (auto split: option.splits)
    with k fits show thesis by (intro new) (simp_all add: al_def)
  next
    case False
    with assms(2) k show thesis
      unfolding eq b_def [symmetric] aligned_def [symmetric] Let_def
      by (intro head [OF _ _ b_def aligned_def]) (auto simp: al_def not_less)
  qed
qed

lemma used_range_Nil: "blk_used b = 0 \<Longrightarrow> used_range b = {}"
  by (simp add: used_range_def)

section \<open>Properties\<close>

text \<open>
  C20: a successful allocation, from any well-formed arena and whatever the requested size and
  alignment, returns an address that is a multiple of the alignment, with the whole range inside
  the used part of a block and disjoint from every range handed out before; nothing in use is
  given up, and the arena stays well-formed. None of the size computations wraps around.
\<close>

theorem alloc_correct:
  assumes "arena_ok a" and "malloc_ok malloc" and "malloc_fresh malloc a"
    and "oyl_arena_alloc malloc a sz align = (Some p, a')"
  shows "alloc_post a sz align p a'"
  using assms(1,4)
proof (cases rule: alloc_cases)
  case (head k b aligned)
  obtain bs where bs: "ar_blocks a = b # bs" and b: "block_ok b" "ar_head a = blk_addr b"
    and disj: "sorted_wrt (\<lambda>b c. extent b \<inter> extent c = {}) (b # bs)"
    and oks: "\<forall>c \<in> set bs. block_ok c"
    using assms(1) head(3) by (cases "ar_blocks a") (auto simp: arena_ok_def)
  have used: "blk_used b \<le> blk_cap b" using b by (simp add: block_ok_def)
  have ge: "blk_used b \<le> aligned" unfolding head(4) by (rule aligned_offset_ge [OF b(1) used head(1)])
  note bump = bump_block [OF b(1) ge head(5,6), folded head(7)]
  have "2 ^ k dvd unat p"
    using aligned_offset_spec(2) [OF b(1) used head(1)] bump(1) head(4) by simp
  moreover have "used_range c \<inter> {unat p ..< unat p + unat sz} = {}" if "c \<in> set (b # bs)" for c
    using that bump(6,7) disj used_in_extent oks by fastforce
  moreover have "arena_ok a'"
    using bump(2,3) disj oks b bs head(8) by (auto simp: arena_ok_def)
  ultimately show ?thesis
    using head(1,2,8) bump(4,5) bs by (auto simp: alloc_post_def unat_pow2)
next
  case (new k b nb aligned)
  from block_new_ok [OF new(4) assms(2)] have nb: "blk_cap nb = new_block_cap a b sz (2 ^ k)"
    "blk_used nb = 0" "block_ok nb" by auto
  from block_new_ok [OF new(4) assms(2)] assms(3)
  have fresh: "\<forall>c \<in> set (ar_blocks a). extent nb \<inter> extent c = {}"
    unfolding malloc_fresh_def by (metis (no_types, lifting))
  have "unat sz + 2 ^ k \<le> unat (blk_cap nb)"
    using new_block_cap_ge [OF new(3), of a b] nb(1) new(1) by (simp add: unat_pow2)
  moreover have "unat aligned < 2 ^ k"
    using aligned_offset_spec(1) [OF nb(3) _ new(1), of 0] new(5) by simp
  ultimately have al: "aligned \<le> blk_cap nb" and room: "sz \<le> blk_cap nb - aligned"
    by (auto simp: word_le_nat_alt unat_sub)
  have ge: "blk_used nb \<le> aligned" using nb(2) by simp
  note bump = bump_block [OF nb(3) ge al room, folded new(6)]
  have "2 ^ k dvd unat p"
    using aligned_offset_spec(2) [OF nb(3) _ new(1), of 0] bump(1) new(5) by simp
  moreover have "used_range c \<inter> {unat p ..< unat p + unat sz} = {}" if "c \<in> set (ar_blocks a)" for c
    using that bump(7) fresh used_in_extent assms(1) unfolding arena_ok_def by blast
  moreover have "arena_ok a'"
    using bump(2,3) fresh assms(1) new(7) by (auto simp: arena_ok_def)
  ultimately show ?thesis
    using new(1,2,7) bump(4) by (auto simp: alloc_post_def unat_pow2)
qed


lemma largest_block_max:
  assumes "keep = None \<longrightarrow> m = 0" and "pred_option (\<lambda>k. blk_cap k = m) keep"
  shows "(largest_block keep m bs = None \<longleftrightarrow> keep = None \<and> bs = []) \<and>
   (\<forall>b. largest_block keep m bs = Some b \<longrightarrow>
     (b \<in> set bs \<or> keep = Some b) \<and> m \<le> blk_cap b \<and> (\<forall>c \<in> set bs. blk_cap c \<le> blk_cap b))"
  using assms
proof (induction keep m bs rule: largest_block.induct)
  case (1 keep m)
  then show ?case by auto
next
  case (2 keep m cur bs)
  show ?case
  proof (cases "m \<le> blk_cap cur")
    case True
    note IH = "2.IH"(1) [OF True, simplified]
    then obtain b where b: "largest_block (Some cur) (blk_cap cur) bs = Some b"
      "b \<in> set bs \<or> cur = b" "blk_cap cur \<le> blk_cap b" "\<forall>c \<in> set bs. blk_cap c \<le> blk_cap b"
      by auto
    moreover have "m \<le> blk_cap b" using True b(3) by (rule order_trans)
    ultimately show ?thesis using True by auto
  next
    case False
    then have "keep \<noteq> None" using "2.prems"(1) by auto
    with "2.IH"(2) [OF False "2.prems"] obtain b where b: "largest_block keep m bs = Some b"
      "b \<in> set bs \<or> keep = Some b" "m \<le> blk_cap b" "\<forall>c \<in> set bs. blk_cap c \<le> blk_cap b"
      by auto
    moreover have "blk_cap cur \<le> blk_cap b" using False b(3) by simp
    ultimately show ?thesis using False by auto
  qed
qed

text \<open>
  C22: resetting an arena leaves one empty block, one of the largest it had, and allocations come
  from it.
\<close>

theorem reset_keeps_largest:
  assumes "arena_ok a"
  shows "\<exists>b \<in> set (ar_blocks a). ar_blocks (oyl_arena_reset a) = [b\<lparr>blk_used := 0\<rparr>] \<and>
    (\<forall>c \<in> set (ar_blocks a). blk_cap c \<le> blk_cap b) \<and> arena_ok (oyl_arena_reset a)"
proof -
  have "ar_blocks a \<noteq> []" using assms by (simp add: arena_ok_def)
  then obtain b where b: "largest_block None 0 (ar_blocks a) = Some b"
    using largest_block_max [of None 0 "ar_blocks a"] by (cases "largest_block None 0 (ar_blocks a)") auto
  then have "b \<in> set (ar_blocks a)" "\<forall>c \<in> set (ar_blocks a). blk_cap c \<le> blk_cap b"
    using largest_block_max [of None 0 "ar_blocks a"] by auto
  moreover from this(1) assms have "block_ok b" by (simp add: arena_ok_def)
  ultimately show ?thesis
    using b by (auto simp: oyl_arena_reset_def arena_ok_def block_ok_def intro!: bexI [of _ b])
qed

section \<open>A concrete arena\<close>

text \<open>An arena with one block of 4096 bytes at \<open>0x1000\<close>, and an allocator that has one more.\<close>

definition example_arena :: oyl_arena where
  "example_arena = \<lparr>ar_head = 0x1000, ar_blocks = [\<lparr>blk_addr = 0x1000, blk_cap = 4096, blk_used = 5\<rparr>],
     ar_default_cap = 4096\<rparr>"

definition example_malloc :: "csize \<Rightarrow> csize option" where
  "example_malloc n = (if n \<le> 0x10000 then Some 0x100000 else None)"

lemma example_arena_ok: "arena_ok example_arena"
  by (simp add: arena_ok_def example_arena_def block_ok_def)

lemma example_malloc_ok: "malloc_ok example_malloc" "malloc_fresh example_malloc example_arena"
  by (auto simp: malloc_ok_def malloc_fresh_def example_malloc_def example_arena_def extent_def
      word_le_nat_alt split: if_splits)

lemma example_alloc:
  "oyl_arena_alloc example_malloc example_arena 100 8 =
     (Some 0x1020, example_arena\<lparr>ar_blocks := [\<lparr>blk_addr = 0x1000, blk_cap = 4096, blk_used = 108\<rparr>]\<rparr>)"
  by (simp add: oyl_arena_alloc_def example_arena_def aligned_offset_def BLOCK_DATA_def sizeof_block_def Let_def)

theorem alloc_correct_witness:
  "alloc_post example_arena 100 8 0x1020
     (example_arena\<lparr>ar_blocks := [\<lparr>blk_addr = 0x1000, blk_cap = 4096, blk_used = 108\<rparr>]\<rparr>)"
  by (rule alloc_correct [OF example_arena_ok example_malloc_ok example_alloc])

lemma example_alloc_failure: "oyl_arena_alloc example_malloc example_arena 100 3 = (None, example_arena)"
  by (simp add: oyl_arena_alloc_def Let_def)


theorem reset_keeps_largest_witness:
  "\<exists>b \<in> set (ar_blocks example_arena). ar_blocks (oyl_arena_reset example_arena) = [b\<lparr>blk_used := 0\<rparr>]"
  using reset_keeps_largest [OF example_arena_ok] by blast

end
