(* ===== verification/OylChars.thy ===== *)
theory OylChars
  imports OylPrelude
begin

text \<open>
  \<open>src/src/oyl_chars.h\<close>: the character classes of YAML as bits of a 256-entry table, and the
  classification functions. The lemmas \<open>char_class\<close> give each function the set of bytes it
  accepts, by evaluating the table.
\<close>

section \<open>Class bits and table\<close>

definition YC_SPACE :: byte where "YC_SPACE = 0x01"
definition YC_BREAK :: byte where "YC_BREAK = 0x02"
definition YC_WHITE :: byte where "YC_WHITE = 0x03"
definition YC_INDICATOR :: byte where "YC_INDICATOR = 0x04"
definition YC_DIGIT :: byte where "YC_DIGIT = 0x08"
definition YC_ALPHA :: byte where "YC_ALPHA = 0x10"
definition YC_HEX :: byte where "YC_HEX = 0x20"
definition YC_PRINTABLE :: byte where "YC_PRINTABLE = 0x40"
definition YC_INDICATOR2 :: byte where "YC_INDICATOR2 = 0x80"

definition oyl_char_table :: "byte list" where
  "oyl_char_table =
    [0x00, 0x00, 0x00, 0x00, 0x00, 0x00, 0x00, 0x00, 0x00, 0x41, 0x02, 0x00, 0x00, 0x02, 0x00, 0x00,
     0x00, 0x00, 0x00, 0x00, 0x00, 0x00, 0x00, 0x00, 0x00, 0x00, 0x00, 0x00, 0x00, 0x00, 0x00, 0x00,
     0x41, 0xC0, 0xC0, 0xC0, 0x40, 0xC0, 0xC0, 0xC0, 0x40, 0x40, 0xC0, 0x40, 0xC4, 0xC0, 0x40, 0x40,
     0x68, 0x68, 0x68, 0x68, 0x68, 0x68, 0x68, 0x68, 0x68, 0x68, 0xC0, 0x40, 0x40, 0x40, 0xC0, 0xC0,
     0xC0, 0x70, 0x70, 0x70, 0x70, 0x70, 0x70, 0x50, 0x50, 0x50, 0x50, 0x50, 0x50, 0x50, 0x50, 0x50,
     0x50, 0x50, 0x50, 0x50, 0x50, 0x50, 0x50, 0x50, 0x50, 0x50, 0x50, 0xC4, 0x40, 0xC4, 0x40, 0x50,
     0xC0, 0x70, 0x70, 0x70, 0x70, 0x70, 0x70, 0x50, 0x50, 0x50, 0x50, 0x50, 0x50, 0x50, 0x50, 0x50,
     0x50, 0x50, 0x50, 0x50, 0x50, 0x50, 0x50, 0x50, 0x50, 0x50, 0x50, 0xC4, 0xC0, 0xC4, 0x40, 0x00,
     0, 0, 0, 0, 0, 0, 0, 0, 0, 0, 0, 0, 0, 0, 0, 0,
     0, 0, 0, 0, 0, 0, 0, 0, 0, 0, 0, 0, 0, 0, 0, 0,
     0, 0, 0, 0, 0, 0, 0, 0, 0, 0, 0, 0, 0, 0, 0, 0,
     0, 0, 0, 0, 0, 0, 0, 0, 0, 0, 0, 0, 0, 0, 0, 0,
     0, 0, 0, 0, 0, 0, 0, 0, 0, 0, 0, 0, 0, 0, 0, 0,
     0, 0, 0, 0, 0, 0, 0, 0, 0, 0, 0, 0, 0, 0, 0, 0,
     0, 0, 0, 0, 0, 0, 0, 0, 0, 0, 0, 0, 0, 0, 0, 0,
     0, 0, 0, 0, 0, 0, 0, 0, 0, 0, 0, 0, 0, 0, 0, 0]"

section \<open>Classification functions\<close>

definition oyl_is_space :: "byte \<Rightarrow> bool" where
  "oyl_is_space c \<longleftrightarrow> (oyl_char_table ! unat c) AND YC_SPACE \<noteq> 0"
definition oyl_is_break :: "byte \<Rightarrow> bool" where
  "oyl_is_break c \<longleftrightarrow> (oyl_char_table ! unat c) AND YC_BREAK \<noteq> 0"
definition oyl_is_white :: "byte \<Rightarrow> bool" where
  "oyl_is_white c \<longleftrightarrow> (oyl_char_table ! unat c) AND YC_WHITE \<noteq> 0"
definition oyl_is_flow :: "byte \<Rightarrow> bool" where
  "oyl_is_flow c \<longleftrightarrow> (oyl_char_table ! unat c) AND YC_INDICATOR \<noteq> 0"
definition oyl_is_digit :: "byte \<Rightarrow> bool" where
  "oyl_is_digit c \<longleftrightarrow> (oyl_char_table ! unat c) AND YC_DIGIT \<noteq> 0"
definition oyl_is_alpha :: "byte \<Rightarrow> bool" where
  "oyl_is_alpha c \<longleftrightarrow> (oyl_char_table ! unat c) AND YC_ALPHA \<noteq> 0"
definition oyl_is_hex :: "byte \<Rightarrow> bool" where
  "oyl_is_hex c \<longleftrightarrow> (oyl_char_table ! unat c) AND YC_HEX \<noteq> 0"
definition oyl_is_printable :: "byte \<Rightarrow> bool" where
  "oyl_is_printable c \<longleftrightarrow> (oyl_char_table ! unat c) AND YC_PRINTABLE \<noteq> 0"
definition oyl_is_indicator :: "byte \<Rightarrow> bool" where
  "oyl_is_indicator c \<longleftrightarrow> (oyl_char_table ! unat c) AND YC_INDICATOR2 \<noteq> 0"

definition oyl_is_blank :: "byte \<Rightarrow> bool" where
  "oyl_is_blank c \<longleftrightarrow> c = SP \<or> c = TAB"
definition oyl_is_blank_or_break :: "byte \<Rightarrow> bool" where
  "oyl_is_blank_or_break c \<longleftrightarrow> (oyl_char_table ! unat c) AND YC_WHITE \<noteq> 0"
definition oyl_is_alnum :: "byte \<Rightarrow> bool" where
  "oyl_is_alnum c \<longleftrightarrow> (oyl_char_table ! unat c) AND (YC_DIGIT OR YC_ALPHA) \<noteq> 0"
definition oyl_is_flow_scalar_end :: "byte \<Rightarrow> bool" where
  "oyl_is_flow_scalar_end c \<longleftrightarrow>
     (oyl_char_table ! unat c) AND (YC_INDICATOR OR YC_WHITE) \<noteq> 0 \<or> c = COLON"

text \<open>The ranges of bytes the SSE4.2 scan for the end of a plain scalar stops at.\<close>

definition oyl_simd_struct_ranges :: "byte list" where
  "oyl_simd_struct_ranges =
    [NUL, SP, HASH, HASH, COMMA, COMMA, COLON, COLON, LBRACK, RBRACK, LBRACE, RBRACE, DEL, DEL, 0, 0]"

definition OYL_SIMD_STRUCT_RANGES_LEN :: nat where
  "OYL_SIMD_STRUCT_RANGES_LEN = 14"

section \<open>The classes as sets of bytes\<close>

text \<open>One evaluation of the table decides all the classes.\<close>

definition table_row :: "byte \<Rightarrow> byte \<Rightarrow> bool" where
  "table_row c t \<longleftrightarrow>
     (bit t 0 \<longleftrightarrow> c = SP \<or> c = TAB) \<and>
     (bit t 1 \<longleftrightarrow> c = LF \<or> c = CR) \<and>
     (bit t 2 \<longleftrightarrow>
        c = COMMA \<or> c = LBRACK \<or> c = RBRACK \<or> c = LBRACE \<or> c = RBRACE) \<and>
     (bit t 3 \<longleftrightarrow> DIGIT_0 \<le> c \<and> c \<le> DIGIT_9) \<and>
     (bit t 4 \<longleftrightarrow>
        (UC_A \<le> c \<and> c \<le> UC_Z) \<or> (LC_A \<le> c \<and> c \<le> LC_Z) \<or> c = UNDERSCORE) \<and>
     (bit t 5 \<longleftrightarrow>
        (DIGIT_0 \<le> c \<and> c \<le> DIGIT_9) \<or> (UC_A \<le> c \<and> c \<le> UC_F) \<or> (LC_A \<le> c \<and> c \<le> LC_F)) \<and>
     (bit t 6 \<longleftrightarrow> c = TAB \<or> (SP \<le> c \<and> c \<le> TILDE)) \<and>
     (bit t 7 \<longleftrightarrow>
        c = BANG \<or> c = DQUOTE \<or> c = HASH \<or> c = PERCENT \<or> c = AMP \<or> c = SQUOTE \<or> c = STAR \<or>
        c = COMMA \<or> c = DASH \<or> c = COLON \<or> c = GT \<or> c = QMARK \<or> c = 0x40 \<or> c = LBRACK \<or>
        c = RBRACK \<or> c = 0x60 \<or> c = LBRACE \<or> c = PIPE \<or> c = RBRACE)"

lemma one_le_byte [simp]: "numeral w \<le> (1 :: byte) \<longleftrightarrow> (numeral w :: byte) = 0 \<or> (numeral w :: byte) = 1"
  by unat_arith

lemma table_row_all: "table_row c (oyl_char_table ! unat c)"
  by (rule byte_tableI) (simp_all add: oyl_char_table_def table_row_def)

lemmas table_rows = table_row_all [unfolded table_row_def]

lemma class_bits:
  "t AND YC_SPACE \<noteq> 0 \<longleftrightarrow> bit t 0"
  "t AND YC_BREAK \<noteq> 0 \<longleftrightarrow> bit t 1"
  "t AND YC_WHITE \<noteq> 0 \<longleftrightarrow> bit t 0 \<or> bit t 1"
  "t AND YC_INDICATOR \<noteq> 0 \<longleftrightarrow> bit t 2"
  "t AND YC_DIGIT \<noteq> 0 \<longleftrightarrow> bit t 3"
  "t AND YC_ALPHA \<noteq> 0 \<longleftrightarrow> bit t 4"
  "t AND YC_HEX \<noteq> 0 \<longleftrightarrow> bit t 5"
  "t AND YC_PRINTABLE \<noteq> 0 \<longleftrightarrow> bit t 6"
  "t AND YC_INDICATOR2 \<noteq> 0 \<longleftrightarrow> bit t 7"
proof -
  have one: "t AND 2 ^ k \<noteq> 0 \<longleftrightarrow> bit t k" for k
    by (simp add: and_exp_eq_0_iff_not_bit)
  have "(0x03 :: byte) = 0x01 OR 0x02" by simp
  then have "t AND 0x03 = (t AND 0x01) OR (t AND 0x02)"
    by (metis bit.conj_disj_distrib)
  then show "t AND YC_WHITE \<noteq> 0 \<longleftrightarrow> bit t 0 \<or> bit t 1"
    using one [of 0] one [of 1] by (simp add: YC_WHITE_def or_eq_0_iff)
qed (use and_exp_eq_0_iff_not_bit [of t 0] and_exp_eq_0_iff_not_bit [of t 1]
       and_exp_eq_0_iff_not_bit [of t 2] and_exp_eq_0_iff_not_bit [of t 3]
       and_exp_eq_0_iff_not_bit [of t 4] and_exp_eq_0_iff_not_bit [of t 5]
       and_exp_eq_0_iff_not_bit [of t 6] and_exp_eq_0_iff_not_bit [of t 7] in
     \<open>simp_all add: YC_SPACE_def YC_BREAK_def YC_INDICATOR_def YC_DIGIT_def YC_ALPHA_def YC_HEX_def
        YC_PRINTABLE_def YC_INDICATOR2_def\<close>)

lemma oyl_is_space_iff [char_class]: "oyl_is_space c \<longleftrightarrow> c = SP \<or> c = TAB"
  using table_rows [of c] by (auto simp: oyl_is_space_def class_bits)

lemma oyl_is_break_iff [char_class]: "oyl_is_break c \<longleftrightarrow> c = LF \<or> c = CR"
  using table_rows [of c] by (auto simp: oyl_is_break_def class_bits)

lemma oyl_is_white_iff [char_class]:
  "oyl_is_white c \<longleftrightarrow> c = SP \<or> c = TAB \<or> c = LF \<or> c = CR"
  using table_rows [of c] by (auto simp: oyl_is_white_def class_bits)

lemma oyl_is_blank_or_break_iff [char_class]:
  "oyl_is_blank_or_break c \<longleftrightarrow> c = SP \<or> c = TAB \<or> c = LF \<or> c = CR"
  using table_rows [of c] by (auto simp: oyl_is_blank_or_break_def class_bits)

lemma oyl_is_flow_iff [char_class]:
  "oyl_is_flow c \<longleftrightarrow> c = COMMA \<or> c = LBRACK \<or> c = RBRACK \<or> c = LBRACE \<or> c = RBRACE"
  using table_rows [of c] by (auto simp: oyl_is_flow_def class_bits)

lemma oyl_is_digit_iff [char_class]: "oyl_is_digit c \<longleftrightarrow> DIGIT_0 \<le> c \<and> c \<le> DIGIT_9"
  using table_rows [of c] by (auto simp: oyl_is_digit_def class_bits)

lemma oyl_is_alpha_iff [char_class]:
  "oyl_is_alpha c \<longleftrightarrow> (UC_A \<le> c \<and> c \<le> UC_Z) \<or> (LC_A \<le> c \<and> c \<le> LC_Z) \<or> c = UNDERSCORE"
  using table_rows [of c] by (auto simp: oyl_is_alpha_def class_bits)

lemma oyl_is_hex_iff [char_class]:
  "oyl_is_hex c \<longleftrightarrow> (DIGIT_0 \<le> c \<and> c \<le> DIGIT_9) \<or> (UC_A \<le> c \<and> c \<le> UC_F) \<or> (LC_A \<le> c \<and> c \<le> LC_F)"
  using table_rows [of c] by (auto simp: oyl_is_hex_def class_bits)

lemma oyl_is_printable_iff [char_class]:
  "oyl_is_printable c \<longleftrightarrow> c = TAB \<or> (SP \<le> c \<and> c \<le> TILDE)"
  using table_rows [of c] by (auto simp: oyl_is_printable_def class_bits)

lemma oyl_is_indicator_iff [char_class]:
  "oyl_is_indicator c \<longleftrightarrow>
     c = BANG \<or> c = DQUOTE \<or> c = HASH \<or> c = PERCENT \<or> c = AMP \<or> c = SQUOTE \<or> c = STAR \<or>
     c = COMMA \<or> c = DASH \<or> c = COLON \<or> c = GT \<or> c = QMARK \<or> c = 0x40 \<or> c = LBRACK \<or>
     c = RBRACK \<or> c = 0x60 \<or> c = LBRACE \<or> c = PIPE \<or> c = RBRACE"
  using table_rows [of c] by (auto simp: oyl_is_indicator_def class_bits)

lemma oyl_is_blank_iff [char_class]: "oyl_is_blank c \<longleftrightarrow> c = SP \<or> c = TAB"
  by (simp add: oyl_is_blank_def)

lemma oyl_is_alnum_iff [char_class]: "oyl_is_alnum c \<longleftrightarrow> oyl_is_digit c \<or> oyl_is_alpha c"
  by (simp add: oyl_is_alnum_def oyl_is_digit_def oyl_is_alpha_def bit.conj_disj_distrib or_eq_0_iff)

lemma oyl_is_flow_scalar_end_iff [char_class]:
  "oyl_is_flow_scalar_end c \<longleftrightarrow> oyl_is_flow c \<or> oyl_is_white c \<or> c = COLON"
  by (simp add: oyl_is_flow_scalar_end_def oyl_is_flow_def oyl_is_white_def bit.conj_disj_distrib or_eq_0_iff) blast

lemma blank_not_break: "oyl_is_blank c \<Longrightarrow> \<not> oyl_is_break c"
  by (auto simp: char_class)

lemma length_oyl_char_table: "length oyl_char_table = 256"
  by (simp add: oyl_char_table_def)


text \<open>For evaluation, the sets of bytes rather than the table.\<close>

declare oyl_is_space_iff [code] oyl_is_break_iff [code] oyl_is_white_iff [code] oyl_is_flow_iff [code]
  oyl_is_digit_iff [code] oyl_is_alpha_iff [code] oyl_is_hex_iff [code] oyl_is_printable_iff [code]
  oyl_is_indicator_iff [code] oyl_is_blank_or_break_iff [code] oyl_is_alnum_iff [code]
  oyl_is_flow_scalar_end_iff [code]

end
