(* ===== verification/OylSimd.thy ===== *)
theory OylSimd
  imports OylChars
begin

text \<open>
  \<open>src/src/oyl_simd.c\<close> and \<open>src/src/oyl_simd.h\<close>: the primitives that look for the next
  interesting byte of a buffer, each with a portable loop and an SSE implementation. A buffer
  \<open>buf[0..len)\<close> is a \<open>byte list\<close>; a 128-bit register is the list of its 16 bytes. The run-time
  dispatch of \<open>oyl_simd_init\<close> is the argument \<open>sse42\<close>: whether the CPU reports SSE4.2.

  Two locales state what the callers of a primitive rely on: \<open>fast_scan\<close> (it never runs past a
  stop byte; it may stop early) and \<open>exact_scan\<close> (it stops exactly at the first stop byte). All
  implementations are interpreted in them. They show that the dispatch cannot be observed, with
  one exception: the SSE4.2 scan for the end of a plain scalar may stop early, at a backslash or
  a pipe, and is a \<open>fast_scan\<close> only.
\<close>

section \<open>The intrinsics used\<close>

text \<open>\<open>_mm_set1_epi8\<close>, \<open>_mm_cmpeq_epi8\<close>, \<open>_mm_or_si128\<close> and \<open>_mm_movemask_epi8\<close>, per byte.\<close>

definition mm_set1_epi8 :: "byte \<Rightarrow> byte list" where
  "mm_set1_epi8 c = replicate 16 c"

definition mm_cmpeq_epi8 :: "byte list \<Rightarrow> byte list \<Rightarrow> byte list" where
  "mm_cmpeq_epi8 v w = map2 (\<lambda>a b. if a = b then 0xFF else 0x00) v w"

definition mm_or_si128 :: "byte list \<Rightarrow> byte list \<Rightarrow> byte list" where
  "mm_or_si128 v w = map2 (\<lambda>a b. a OR b) v w"

definition mm_movemask_epi8 :: "byte list \<Rightarrow> 32 word" where
  "mm_movemask_epi8 v = horner_sum of_bool 2 (map (\<lambda>b. bit b 7) v)"

text \<open>\<open>__builtin_ctz\<close>: the position of the lowest set bit (of a non-zero argument).\<close>

definition builtin_ctz :: "'a::len word \<Rightarrow> nat" where
  "builtin_ctz w = length (takeWhile (\<lambda>k. \<not> bit w k) [0..<LENGTH('a)])"

text \<open>
  \<open>_mm_cmpestri\<close> in the mode \<open>OYL_PCMP_MODE\<close> (unsigned bytes, range comparison, least
  significant match): the first of the \<open>lb\<close> bytes of \<open>b\<close> that lies in one of the ranges given
  by the first \<open>la\<close> bytes of \<open>a\<close>, as pairs of a lowest and a highest byte; 16 if there is none.
\<close>

fun in_ranges :: "byte list \<Rightarrow> byte \<Rightarrow> bool" where
  "in_ranges (lo # hi # rs) c \<longleftrightarrow> lo \<le> c \<and> c \<le> hi \<or> in_ranges rs c"
| "in_ranges _ c \<longleftrightarrow> False"

definition mm_cmpestri :: "byte list \<Rightarrow> nat \<Rightarrow> byte list \<Rightarrow> nat \<Rightarrow> nat" where
  "mm_cmpestri a la b lb =
    (let i = scan_until (in_ranges (take la a)) (take lb b) in if i < lb then i else 16)"

section \<open>Scalar implementations\<close>

definition plain_stop :: "byte \<Rightarrow> bool" where
  "plain_stop c \<longleftrightarrow> c \<le> SP \<or> c = HASH \<or> c = COLON \<or> c = COMMA \<or> c = LBRACK \<or> c = RBRACK \<or>
     c = LBRACE \<or> c = RBRACE \<or> c = DEL"

definition scan_plain_scalar_scalar :: "byte list \<Rightarrow> nat" where
  "scan_plain_scalar_scalar buf = scan_until plain_stop buf"

definition skip_blanks_scalar :: "byte list \<Rightarrow> nat" where
  "skip_blanks_scalar buf = scan_until (\<lambda>c. c \<noteq> SP \<and> c \<noteq> TAB) buf"

definition scan_to_break_scalar :: "byte list \<Rightarrow> nat" where
  "scan_to_break_scalar buf = scan_until (\<lambda>c. c = LF \<or> c = CR) buf"

section \<open>SSE implementations\<close>

text \<open>
  The loops over the 16-byte chunks of the buffer, each followed by the byte loop for the rest;
  \<open>i\<close> is the offset the loop has reached.
\<close>

function scan_plain_scalar_sse42_from :: "byte list \<Rightarrow> nat \<Rightarrow> nat" where
  "scan_plain_scalar_sse42_from buf i =
    (if i + 16 \<le> length buf then
       let chunk = sub_buf buf i 16;
           chunk_len = (if length buf - i < 16 then length buf - i else 16);
           idx = mm_cmpestri oyl_simd_struct_ranges OYL_SIMD_STRUCT_RANGES_LEN chunk chunk_len
       in if idx < 16 then i + idx else scan_plain_scalar_sse42_from buf (i + 16)
     else i + scan_until plain_stop (drop i buf))"
  by pat_completeness auto
termination
  by (relation "measure (\<lambda>(buf, i). length buf - i)") auto

definition scan_plain_scalar_sse42 :: "byte list \<Rightarrow> nat" where
  "scan_plain_scalar_sse42 buf = scan_plain_scalar_sse42_from buf 0"

function skip_blanks_sse42_from :: "byte list \<Rightarrow> nat \<Rightarrow> nat" where
  "skip_blanks_sse42_from buf i =
    (if i + 16 \<le> length buf then
       let chunk = sub_buf buf i 16;
           eq_sp = mm_cmpeq_epi8 chunk (mm_set1_epi8 SP);
           eq_tb = mm_cmpeq_epi8 chunk (mm_set1_epi8 TAB);
           is_blank = mm_or_si128 eq_sp eq_tb;
           mask = mm_movemask_epi8 is_blank
       in if mask \<noteq> 0xFFFF then i + builtin_ctz (NOT mask) else skip_blanks_sse42_from buf (i + 16)
     else i + scan_until (\<lambda>c. c \<noteq> SP \<and> c \<noteq> TAB) (drop i buf))"
  by pat_completeness auto
termination
  by (relation "measure (\<lambda>(buf, i). length buf - i)") auto

definition skip_blanks_sse42 :: "byte list \<Rightarrow> nat" where
  "skip_blanks_sse42 buf = skip_blanks_sse42_from buf 0"

function scan_to_break_sse42_from :: "byte list \<Rightarrow> nat \<Rightarrow> nat" where
  "scan_to_break_sse42_from buf i =
    (if i + 16 \<le> length buf then
       let chunk = sub_buf buf i 16;
           eq_nl = mm_cmpeq_epi8 chunk (mm_set1_epi8 LF);
           eq_cr = mm_cmpeq_epi8 chunk (mm_set1_epi8 CR);
           mask = mm_movemask_epi8 (mm_or_si128 eq_nl eq_cr)
       in if mask \<noteq> 0 then i + builtin_ctz mask else scan_to_break_sse42_from buf (i + 16)
     else i + scan_until (\<lambda>c. c = LF \<or> c = CR) (drop i buf))"
  by pat_completeness auto
termination
  by (relation "measure (\<lambda>(buf, i). length buf - i)") auto

definition scan_to_break_sse42 :: "byte list \<Rightarrow> nat" where
  "scan_to_break_sse42 buf = scan_to_break_sse42_from buf 0"

text \<open>\<open>oyl_find_any4\<close>, with SSE2 (part of x86-64) and without.\<close>

function oyl_find_any4_sse2_from ::
    "byte list \<Rightarrow> byte \<Rightarrow> byte \<Rightarrow> byte \<Rightarrow> byte \<Rightarrow> nat \<Rightarrow> nat" where
  "oyl_find_any4_sse2_from buf a b c d i =
    (if i + 16 \<le> length buf then
       let v = sub_buf buf i 16;
           m = mm_or_si128 (mm_or_si128 (mm_cmpeq_epi8 v (mm_set1_epi8 a)) (mm_cmpeq_epi8 v (mm_set1_epi8 b)))
                           (mm_or_si128 (mm_cmpeq_epi8 v (mm_set1_epi8 c)) (mm_cmpeq_epi8 v (mm_set1_epi8 d)));
           mask = mm_movemask_epi8 m
       in if mask \<noteq> 0 then i + builtin_ctz mask else oyl_find_any4_sse2_from buf a b c d (i + 16)
     else i + scan_until (\<lambda>x. x = a \<or> x = b \<or> x = c \<or> x = d) (drop i buf))"
  by pat_completeness auto
termination
  by (relation "measure (\<lambda>(buf, a, b, c, d, i). length buf - i)") auto

definition oyl_find_any4 :: "byte list \<Rightarrow> byte \<Rightarrow> byte \<Rightarrow> byte \<Rightarrow> byte \<Rightarrow> nat" where
  "oyl_find_any4 buf a b c d = oyl_find_any4_sse2_from buf a b c d 0"

definition oyl_find_any4_portable :: "byte list \<Rightarrow> byte \<Rightarrow> byte \<Rightarrow> byte \<Rightarrow> byte \<Rightarrow> nat" where
  "oyl_find_any4_portable buf a b c d = scan_until (\<lambda>x. x = a \<or> x = b \<or> x = c \<or> x = d) buf"

text \<open>The short version tries 8 bytes one by one first.\<close>

definition oyl_find_any4_short :: "byte list \<Rightarrow> byte \<Rightarrow> byte \<Rightarrow> byte \<Rightarrow> byte \<Rightarrow> nat" where
  "oyl_find_any4_short buf a b c d =
    (let i = scan_until (\<lambda>x. x = a \<or> x = b \<or> x = c \<or> x = d) (take 8 buf)
     in if i < length (take 8 buf) then i
        else i + oyl_find_any4 (drop i buf) a b c d)"

text \<open>The mask of the bytes the flow-key lookahead stops at: bit \<open>k\<close> for byte \<open>k\<close> of 64.\<close>

definition oyl_flow_mask16 :: "byte list \<Rightarrow> 64 word" where
  "oyl_flow_mask16 v =
    (let lower = mm_or_si128 v (mm_set1_epi8 0x20);
         m = mm_or_si128 (mm_cmpeq_epi8 lower (mm_set1_epi8 LBRACE)) (mm_cmpeq_epi8 lower (mm_set1_epi8 RBRACE));
         m = mm_or_si128 m (mm_cmpeq_epi8 v (mm_set1_epi8 DQUOTE));
         m = mm_or_si128 m (mm_cmpeq_epi8 v (mm_set1_epi8 SQUOTE));
         m = mm_or_si128 m (mm_cmpeq_epi8 v (mm_set1_epi8 HASH));
         m = mm_or_si128 m (mm_cmpeq_epi8 v (mm_set1_epi8 LT));
         m = mm_or_si128 m (mm_cmpeq_epi8 v (mm_set1_epi8 LF));
         m = mm_or_si128 m (mm_cmpeq_epi8 v (mm_set1_epi8 CR))
     in ucast (mm_movemask_epi8 m AND 0xFFFF))"

definition oyl_flow_mask64 :: "byte list \<Rightarrow> 64 word" where
  "oyl_flow_mask64 p =
    oyl_flow_mask16 (sub_buf p 0 16) OR push_bit 16 (oyl_flow_mask16 (sub_buf p 16 16)) OR
    push_bit 32 (oyl_flow_mask16 (sub_buf p 32 16)) OR push_bit 48 (oyl_flow_mask16 (sub_buf p 48 16))"

definition flow_stop :: "byte \<Rightarrow> bool" where
  "flow_stop c \<longleftrightarrow> c = SQUOTE \<or> c = DQUOTE \<or> c = HASH \<or> c = LBRACK \<or> c = RBRACK \<or>
     c = LBRACE \<or> c = RBRACE \<or> c = LT \<or> c = LF \<or> c = CR"

definition oyl_flow_mask64_portable :: "byte list \<Rightarrow> 64 word" where
  "oyl_flow_mask64_portable p =
    fold (\<lambda>k m. if flow_stop (p ! k) then m OR push_bit k 1 else m) [0..<64] 0"

section \<open>Dispatch\<close>

definition oyl_scan_plain_scalar :: "bool \<Rightarrow> byte list \<Rightarrow> nat" where
  "oyl_scan_plain_scalar sse42 = (if sse42 then scan_plain_scalar_sse42 else scan_plain_scalar_scalar)"

definition oyl_skip_blanks :: "bool \<Rightarrow> byte list \<Rightarrow> nat" where
  "oyl_skip_blanks sse42 = (if sse42 then skip_blanks_sse42 else skip_blanks_scalar)"

definition oyl_scan_to_break :: "bool \<Rightarrow> byte list \<Rightarrow> nat" where
  "oyl_scan_to_break sse42 = (if sse42 then scan_to_break_sse42 else scan_to_break_scalar)"

section \<open>Interfaces: what the callers of a scan rely on\<close>

locale fast_scan =
  fixes scan :: "byte list \<Rightarrow> nat" and stop :: "byte \<Rightarrow> bool"
  assumes scan_le: "scan xs \<le> length xs"
    and scan_before: "i < scan xs \<Longrightarrow> \<not> stop (xs ! i)"
begin

lemma skipped_ordinary: "c \<in> set (take (scan xs) xs) \<Longrightarrow> \<not> stop c"
  using scan_before scan_le by (auto simp: in_set_conv_nth)

lemma scan_le_first: "scan xs \<le> scan_until stop xs"
proof (rule ccontr)
  assume "\<not> scan xs \<le> scan_until stop xs"
  then have less: "scan_until stop xs < scan xs" by simp
  then have "stop (xs ! scan_until stop xs)"
    using scan_until_at [of stop xs] scan_le [of xs] by simp
  with scan_before [OF less] show False by simp
qed

end

locale exact_scan = fast_scan +
  assumes scan_at: "scan xs < length xs \<Longrightarrow> stop (xs ! scan xs)"
begin

lemma scan_exact: "scan xs = scan_until stop xs"
  by (rule scan_until_eqI [symmetric]) (auto simp: scan_le scan_before scan_at)

lemma scan_append:
  assumes "\<And>c. c \<in> set xs \<Longrightarrow> \<not> stop c" and "ys = [] \<or> stop (hd ys)"
  shows "scan (xs @ ys) = length xs"
  using assms scan_until_append [of xs stop ys] by (cases ys) (auto simp: scan_exact)

end

section \<open>The masks\<close>

lemma bit_movemask:
  "length v \<le> 16 \<Longrightarrow> bit (mm_movemask_epi8 v) k \<longleftrightarrow> k < length v \<and> bit (v ! k) 7"
  by (auto simp: mm_movemask_epi8_def bit_horner_sum_bit_word_iff)

lemma bit_cmpeq:
  "k < length v \<Longrightarrow> k < 16 \<Longrightarrow> bit (mm_cmpeq_epi8 v (mm_set1_epi8 c) ! k) 7 \<longleftrightarrow> v ! k = c"
  by (simp add: mm_cmpeq_epi8_def mm_set1_epi8_def)

lemma length_cmpeq [simp]: "length (mm_cmpeq_epi8 v w) = min (length v) (length w)"
  by (simp add: mm_cmpeq_epi8_def)

lemma length_set1 [simp]: "length (mm_set1_epi8 c) = 16"
  by (simp add: mm_set1_epi8_def)

lemma length_or [simp]: "length (mm_or_si128 v w) = min (length v) (length w)"
  by (simp add: mm_or_si128_def)

lemma bit_mm_or:
  "k < length v \<Longrightarrow> k < length w \<Longrightarrow>
   bit (mm_or_si128 v w ! k) 7 \<longleftrightarrow> bit (v ! k) 7 \<or> bit (w ! k) 7"
  by (simp add: mm_or_si128_def bit_simps)

lemmas mask_bits = bit_movemask bit_cmpeq bit_mm_or

lemma ctz_eqI:
  fixes w :: "'a::len word"
  assumes "bit w n" and "\<And>i. i < n \<Longrightarrow> \<not> bit w i"
  shows "builtin_ctz w = n"
proof -
  have n: "n < LENGTH('a)" using assms(1) by (simp add: bit_imp_le_length)
  then have "[0..<LENGTH('a)] = [0..<n] @ n # [Suc n..<LENGTH('a)]"
    using upt_add_eq_append [of 0 n "LENGTH('a) - n"] by (simp add: upt_conv_Cons)
  moreover have "takeWhile (\<lambda>k. \<not> bit w k) ([0..<n] @ n # [Suc n..<LENGTH('a)]) = [0..<n]"
    by (subst takeWhile_append2) (use assms in auto)
  ultimately have "takeWhile (\<lambda>k. \<not> bit w k) [0..<LENGTH('a)] = [0..<n]" by simp
  then show ?thesis by (simp add: builtin_ctz_def)
qed

text \<open>
  A mask whose bit \<open>k\<close> says whether byte \<open>k\<close> of a chunk is a stop: it is zero when there is none,
  and its lowest set bit is the first stop.
\<close>

lemma mask_first_stop:
  assumes "length v = 16" and bits: "\<And>k. k < 16 \<Longrightarrow> bit msk k \<longleftrightarrow> stop (v ! k)"
    and high: "\<And>k. 16 \<le> k \<Longrightarrow> \<not> bit msk k"
  shows "(msk = (0 :: 32 word) \<longleftrightarrow> scan_until stop v = 16) \<and>
    (msk \<noteq> 0 \<longrightarrow> builtin_ctz msk = scan_until stop v)"
proof -
  let ?n = "scan_until stop v"
  have none: "?n = 16 \<Longrightarrow> msk = 0"
    using scan_until_before [of _ stop v] bits high
    by (metis bit_0_eq bot_apply bot_bool_def bit_word_eqI linorder_not_less)
  have some: "bit msk ?n \<and> builtin_ctz msk = ?n" if "?n < 16"
  proof
    show "bit msk ?n" using that bits scan_until_at [of stop v] assms(1) by simp
    then show "builtin_ctz msk = ?n"
      by (rule ctz_eqI) (use that bits scan_until_before [of _ stop v] in auto)
  qed
  have "?n \<le> 16" using scan_until_le [of stop v] assms(1) by simp
  then show ?thesis using none some by (cases "?n = 16") auto
qed

text \<open>The first stop of a buffer, found in a chunk at offset \<open>i\<close> or after it.\<close>

lemma scan_until_chunk:
  assumes "i + 16 \<le> length buf"
  shows "scan_until stop (drop i buf) =
    (let n = scan_until stop (sub_buf buf i 16)
     in if n < 16 then n else 16 + scan_until stop (drop (i + 16) buf))"
proof -
  have split: "drop i buf = sub_buf buf i 16 @ drop (i + 16) buf"
    using append_take_drop_id [of 16 "drop i buf"] by (simp add: sub_buf_def add.commute)
  have "length (sub_buf buf i 16) = 16" using assms by simp
  then show ?thesis
    unfolding split Let_def by (simp add: scan_until_append_if)
qed

section \<open>The implementations find the first stop\<close>

declare scan_plain_scalar_sse42_from.simps [simp del]
declare skip_blanks_sse42_from.simps [simp del]
declare scan_to_break_sse42_from.simps [simp del]
declare oyl_find_any4_sse2_from.simps [simp del]

lemma scan_to_break_mask:
  assumes "length v = 16"
  defines "m \<equiv> mm_movemask_epi8 (mm_or_si128 (mm_cmpeq_epi8 v (mm_set1_epi8 LF)) (mm_cmpeq_epi8 v (mm_set1_epi8 CR)))"
  shows "m = 0 \<longleftrightarrow> scan_until (\<lambda>c. c = LF \<or> c = CR) v = 16"
    and "m \<noteq> 0 \<Longrightarrow> builtin_ctz m = scan_until (\<lambda>c. c = LF \<or> c = CR) v"
proof -
  have bits: "bit m k \<longleftrightarrow> k < 16 \<and> (v ! k = LF \<or> v ! k = CR)" for k
    using assms by (cases "k < 16") (auto simp: mask_bits)
  show "m = 0 \<longleftrightarrow> scan_until (\<lambda>c. c = LF \<or> c = CR) v = 16"
    and "m \<noteq> 0 \<Longrightarrow> builtin_ctz m = scan_until (\<lambda>c. c = LF \<or> c = CR) v"
    using mask_first_stop [OF assms(1), of m "\<lambda>c. c = LF \<or> c = CR"] by (auto simp: bits)
qed

lemma scan_to_break_sse42_from_eq:
  "i \<le> length buf \<Longrightarrow>
   scan_to_break_sse42_from buf i = i + scan_until (\<lambda>c. c = LF \<or> c = CR) (drop i buf)"
proof (induction buf i rule: scan_to_break_sse42_from.induct)
  case (1 buf i)
  have len: "i + 16 \<le> length buf \<Longrightarrow> length (sub_buf buf i 16) = 16" by simp
  show ?case
    using 1 scan_to_break_mask [OF len] scan_until_le [of "\<lambda>c. c = LF \<or> c = CR" "sub_buf buf i 16"]
    by (auto simp: scan_to_break_sse42_from.simps [of buf i] scan_until_chunk Let_def)
qed

lemma bit_FFFF: "bit (0xFFFF :: 32 word) k \<longleftrightarrow> k < 16"
proof -
  have "(mask 16 :: 32 word) = 0xFFFF" by (simp add: mask_eq_exp_minus_1)
  moreover have "bit (mask 16 :: 32 word) k \<longleftrightarrow> k < 16"
    unfolding bit_mask_iff by auto
  ultimately show ?thesis by simp
qed

lemma skip_blanks_mask:
  assumes "length v = 16"
  defines "m \<equiv> mm_movemask_epi8 (mm_or_si128 (mm_cmpeq_epi8 v (mm_set1_epi8 SP)) (mm_cmpeq_epi8 v (mm_set1_epi8 TAB)))"
    and "n \<equiv> scan_until (\<lambda>c. c \<noteq> SP \<and> c \<noteq> TAB) v"
  shows "m = 0xFFFF \<longleftrightarrow> n = 16" and "m \<noteq> 0xFFFF \<Longrightarrow> builtin_ctz (NOT m) = n"
proof -
  let ?stop = "\<lambda>c. c \<noteq> SP \<and> c \<noteq> TAB"
  have bits: "bit m k \<longleftrightarrow> k < 16 \<and> \<not> ?stop (v ! k)" for k
    using assms by (cases "k < 16") (auto simp: mask_bits)
  have le: "n \<le> 16" using scan_until_le [of ?stop v] assms by simp
  have before: "i < n \<Longrightarrow> \<not> ?stop (v ! i)" for i unfolding n_def by (rule scan_until_before)
  have at: "n < 16 \<Longrightarrow> ?stop (v ! n)" using scan_until_at [of ?stop v] assms by simp
  show eq: "m = 0xFFFF \<longleftrightarrow> n = 16"
  proof
    assume "m = 0xFFFF"
    then have "bit m n \<longleftrightarrow> n < 16" using bit_FFFF by metis
    then have "n < 16 \<Longrightarrow> \<not> ?stop (v ! n)" using bits [of n] by blast
    then show "n = 16" using at le by linarith
  next
    assume "n = 16"
    show "m = 0xFFFF"
    proof (rule bit_word_eqI)
      fix k
      show "bit m k = bit (0xFFFF :: 32 word) k"
        unfolding bit_FFFF using bits [of k] before [of k] \<open>n = 16\<close> by blast
    qed
  qed
  show "builtin_ctz (NOT m) = n" if "m \<noteq> 0xFFFF"
  proof (rule ctz_eqI)
    have "n < 16" using eq le that by linarith
    then show "bit (NOT m) n" using bits [of n] at by (simp add: bit_not_iff)
    show "i < n \<Longrightarrow> \<not> bit (NOT m) i" for i
      using bits [of i] before [of i] le by (simp add: bit_not_iff)
  qed
qed

lemma skip_blanks_sse42_from_eq:
  "i \<le> length buf \<Longrightarrow>
   skip_blanks_sse42_from buf i = i + scan_until (\<lambda>c. c \<noteq> SP \<and> c \<noteq> TAB) (drop i buf)"
proof (induction buf i rule: skip_blanks_sse42_from.induct)
  case (1 buf i)
  have len: "i + 16 \<le> length buf \<Longrightarrow> length (sub_buf buf i 16) = 16" by simp
  show ?case
    using 1 skip_blanks_mask [OF len] scan_until_le [of "\<lambda>c. c \<noteq> SP \<and> c \<noteq> TAB" "sub_buf buf i 16"]
    by (auto simp: skip_blanks_sse42_from.simps [of buf i] scan_until_chunk Let_def)
qed

lemma find_any4_mask:
  fixes a b c d :: byte
  assumes "length v = 16"
  defines "m \<equiv> mm_movemask_epi8 (mm_or_si128
      (mm_or_si128 (mm_cmpeq_epi8 v (mm_set1_epi8 a)) (mm_cmpeq_epi8 v (mm_set1_epi8 b)))
      (mm_or_si128 (mm_cmpeq_epi8 v (mm_set1_epi8 c)) (mm_cmpeq_epi8 v (mm_set1_epi8 d))))"
    and "stop \<equiv> \<lambda>x. x = a \<or> x = b \<or> x = c \<or> x = d"
  shows "m = 0 \<longleftrightarrow> scan_until stop v = 16" and "m \<noteq> 0 \<Longrightarrow> builtin_ctz m = scan_until stop v"
proof -
  have bits: "bit m k \<longleftrightarrow> k < 16 \<and> stop (v ! k)" for k
    using assms by (cases "k < 16") (auto simp: mask_bits)
  show "m = 0 \<longleftrightarrow> scan_until stop v = 16" and "m \<noteq> 0 \<Longrightarrow> builtin_ctz m = scan_until stop v"
    using mask_first_stop [OF assms(1), of m stop] by (auto simp: bits)
qed

lemma oyl_find_any4_sse2_from_eq:
  "i \<le> length buf \<Longrightarrow>
   oyl_find_any4_sse2_from buf a b c d i = i + scan_until (\<lambda>x. x = a \<or> x = b \<or> x = c \<or> x = d) (drop i buf)"
proof (induction buf a b c d i rule: oyl_find_any4_sse2_from.induct)
  case (1 buf a b c d i)
  let ?stop = "\<lambda>x. x = a \<or> x = b \<or> x = c \<or> x = d"
  have len: "i + 16 \<le> length buf \<Longrightarrow> length (sub_buf buf i 16) = 16" by simp
  show ?case
    using 1 find_any4_mask [OF len, of a b c d] scan_until_le [of ?stop "sub_buf buf i 16"]
    by (auto simp: oyl_find_any4_sse2_from.simps [of buf a b c d i] scan_until_chunk Let_def)
qed

lemma oyl_find_any4_eq: "oyl_find_any4 buf a b c d = scan_until (\<lambda>x. x = a \<or> x = b \<or> x = c \<or> x = d) buf"
  by (simp add: oyl_find_any4_def oyl_find_any4_sse2_from_eq)

lemma scan_until_take_drop:
  "scan_until stop xs =
     (if scan_until stop (take n xs) < length (take n xs) then scan_until stop (take n xs)
      else scan_until stop (take n xs) + scan_until stop (drop (scan_until stop (take n xs)) xs))"
proof (induction xs arbitrary: n)
  case Nil
  then show ?case by simp
next
  case (Cons c cs)
  show ?case using Cons.IH [of "n - 1"] by (cases n) auto
qed

lemma oyl_find_any4_short_eq:
  "oyl_find_any4_short buf a b c d = scan_until (\<lambda>x. x = a \<or> x = b \<or> x = c \<or> x = d) buf"
  using scan_until_take_drop [of "\<lambda>x. x = a \<or> x = b \<or> x = c \<or> x = d" buf 8]
  by (simp add: oyl_find_any4_short_def oyl_find_any4_eq Let_def)

text \<open>
  The ranges contain every stop byte of the portable loop (and the backslash and the pipe), so
  the SSE4.2 scan never passes one.
\<close>

lemma in_struct_ranges:
  "in_ranges (take OYL_SIMD_STRUCT_RANGES_LEN oyl_simd_struct_ranges) c \<longleftrightarrow>
     plain_stop c \<or> c = BSLASH \<or> c = PIPE"
proof -
  have "LBRACK \<le> c \<and> c \<le> RBRACK \<longleftrightarrow> c = LBRACK \<or> c = BSLASH \<or> c = RBRACK" by unat_arith
  moreover have "LBRACE \<le> c \<and> c \<le> RBRACE \<longleftrightarrow> c = LBRACE \<or> c = PIPE \<or> c = RBRACE" by unat_arith
  ultimately show ?thesis
    by (auto simp: OYL_SIMD_STRUCT_RANGES_LEN_def oyl_simd_struct_ranges_def plain_stop_def)
qed

lemma scan_plain_scalar_sse42_from_fast:
  "i \<le> length buf \<Longrightarrow>
   i \<le> scan_plain_scalar_sse42_from buf i \<and> scan_plain_scalar_sse42_from buf i \<le> length buf \<and>
   (\<forall>k. i \<le> k \<longrightarrow> k < scan_plain_scalar_sse42_from buf i \<longrightarrow> \<not> plain_stop (buf ! k))"
proof (induction buf i rule: scan_plain_scalar_sse42_from.induct)
  case (1 buf i)
  show ?case
  proof (cases "i + 16 \<le> length buf")
    case False
    have "\<not> plain_stop (buf ! k)" if "i \<le> k" "k < i + scan_until plain_stop (drop i buf)" for k
      using scan_until_before [of "k - i" plain_stop "drop i buf"] that "1.prems" by simp
    then show ?thesis
      using False "1.prems" scan_until_le [of plain_stop "drop i buf"]
      by (auto simp: scan_plain_scalar_sse42_from.simps [of buf i])
  next
    case True
    let ?stop = "in_ranges (take OYL_SIMD_STRUCT_RANGES_LEN oyl_simd_struct_ranges)"
    let ?n = "scan_until ?stop (sub_buf buf i 16)"
    have full: "\<not> length buf - i < 16" using True by simp
    have idx: "mm_cmpestri oyl_simd_struct_ranges OYL_SIMD_STRUCT_RANGES_LEN (sub_buf buf i 16) 16 = ?n"
      using scan_until_le [of ?stop "sub_buf buf i 16"] True
      by (auto simp: mm_cmpestri_def Let_def sub_buf_def)
    have step: "scan_plain_scalar_sse42_from buf i =
        (if ?n < 16 then i + ?n else scan_plain_scalar_sse42_from buf (i + 16))"
      using True idx full by (simp only: scan_plain_scalar_sse42_from.simps [of buf i] Let_def if_True if_False)
    have le: "?n \<le> 16" using scan_until_le [of ?stop "sub_buf buf i 16"] True by simp
    have ordinary: "\<not> plain_stop (buf ! k)" if "i \<le> k" "k < i + ?n" for k
    proof -
      have "\<not> ?stop (sub_buf buf i 16 ! (k - i))"
        by (rule scan_until_before) (use that in auto)
      then show ?thesis using that le True by (auto simp: sub_buf_def in_struct_ranges)
    qed
    show ?thesis
    proof (cases "?n < 16")
      case True
      with step have "scan_plain_scalar_sse42_from buf i = i + ?n" by simp
      with True \<open>i + 16 \<le> length buf\<close> ordinary show ?thesis by simp
    next
      case False
      with le have n: "?n = 16" by simp
      have "i + 16 \<le> scan_plain_scalar_sse42_from buf (i + 16) \<and>
        scan_plain_scalar_sse42_from buf (i + 16) \<le> length buf \<and>
        (\<forall>k. i + 16 \<le> k \<longrightarrow> k < scan_plain_scalar_sse42_from buf (i + 16) \<longrightarrow> \<not> plain_stop (buf ! k))"
        by (rule "1.IH" [OF True refl refl refl]) (simp_all only: full if_False idx n, use True in auto)
      moreover have "scan_plain_scalar_sse42_from buf i = scan_plain_scalar_sse42_from buf (i + 16)"
        using step n by simp
      ultimately show ?thesis
        using ordinary n by (metis add_leD1 linorder_not_le)
    qed
  qed
qed

section \<open>Interpretations\<close>

interpretation plain_portable: exact_scan scan_plain_scalar_scalar plain_stop
  by unfold_locales
    (auto simp: scan_plain_scalar_scalar_def dest: scan_until_before scan_until_at)

interpretation plain_sse42: fast_scan scan_plain_scalar_sse42 plain_stop
  using scan_plain_scalar_sse42_from_fast [of 0]
  by unfold_locales (auto simp: scan_plain_scalar_sse42_def)

interpretation plain: fast_scan "oyl_scan_plain_scalar sse42" plain_stop for sse42
  by unfold_locales
    (auto simp: oyl_scan_plain_scalar_def plain_portable.scan_le plain_sse42.scan_le
       dest: plain_portable.scan_before plain_sse42.scan_before split: if_splits)

lemma oyl_skip_blanks_eq: "oyl_skip_blanks sse42 xs = scan_until (\<lambda>c. c \<noteq> SP \<and> c \<noteq> TAB) xs"
  by (cases sse42)
    (simp_all add: oyl_skip_blanks_def skip_blanks_scalar_def skip_blanks_sse42_def skip_blanks_sse42_from_eq)

lemma oyl_scan_to_break_eq: "oyl_scan_to_break sse42 xs = scan_until (\<lambda>c. c = LF \<or> c = CR) xs"
  by (cases sse42)
    (simp_all add: oyl_scan_to_break_def scan_to_break_scalar_def scan_to_break_sse42_def
       scan_to_break_sse42_from_eq)

interpretation blanks: exact_scan "oyl_skip_blanks sse42" "\<lambda>c. c \<noteq> SP \<and> c \<noteq> TAB" for sse42
  using scan_until_before [of _ "\<lambda>c. c \<noteq> SP \<and> c \<noteq> TAB"] scan_until_at [of "\<lambda>c. c \<noteq> SP \<and> c \<noteq> TAB"]
  by unfold_locales (auto simp: oyl_skip_blanks_eq)

interpretation breaks: exact_scan "oyl_scan_to_break sse42" "\<lambda>c. c = LF \<or> c = CR" for sse42
  using scan_until_before [of _ "\<lambda>c. c = LF \<or> c = CR"] scan_until_at [of "\<lambda>c. c = LF \<or> c = CR"]
  by unfold_locales (auto simp: oyl_scan_to_break_eq)

interpretation any4: exact_scan "\<lambda>buf. oyl_find_any4 buf a b c d" "\<lambda>x. x = a \<or> x = b \<or> x = c \<or> x = d"
  for a b c d
  using scan_until_before [of _ "\<lambda>x. x = a \<or> x = b \<or> x = c \<or> x = d"]
    scan_until_at [of "\<lambda>x. x = a \<or> x = b \<or> x = c \<or> x = d"]
  by unfold_locales (auto simp: oyl_find_any4_eq)

interpretation any4_short: exact_scan "\<lambda>buf. oyl_find_any4_short buf a b c d"
    "\<lambda>x. x = a \<or> x = b \<or> x = c \<or> x = d"
  for a b c d
  using scan_until_before [of _ "\<lambda>x. x = a \<or> x = b \<or> x = c \<or> x = d"]
    scan_until_at [of "\<lambda>x. x = a \<or> x = b \<or> x = c \<or> x = d"]
  by unfold_locales (auto simp: oyl_find_any4_short_eq)

section \<open>The mask of the flow-key lookahead\<close>

lemma lower_brackets:
  "c OR 0x20 = LBRACE \<longleftrightarrow> c = LBRACK \<or> c = LBRACE"
  "c OR 0x20 = RBRACE \<longleftrightarrow> c = RBRACK \<or> c = RBRACE"
  for c :: byte
proof -
  have "(c OR 0x20 = LBRACE \<longleftrightarrow> c = LBRACK \<or> c = LBRACE) \<and>
     (c OR 0x20 = RBRACE \<longleftrightarrow> c = RBRACK \<or> c = RBRACE)"
    by (rule byte_tableI [where tab = oyl_char_table and
          P = "\<lambda>c _. (c OR 0x20 = LBRACE \<longleftrightarrow> c = LBRACK \<or> c = LBRACE) \<and>
            (c OR 0x20 = RBRACE \<longleftrightarrow> c = RBRACK \<or> c = RBRACE)"])
      (simp_all add: oyl_char_table_def)
  then show "c OR 0x20 = LBRACE \<longleftrightarrow> c = LBRACK \<or> c = LBRACE"
    and "c OR 0x20 = RBRACE \<longleftrightarrow> c = RBRACK \<or> c = RBRACE" by simp_all
qed

lemma bit_flow_mask16:
  assumes "length v = 16"
  shows "bit (oyl_flow_mask16 v) k \<longleftrightarrow> k < 16 \<and> flow_stop (v ! k)"
proof (cases "k < 16")
  case True
  have "mm_or_si128 v (mm_set1_epi8 0x20) ! k = v ! k OR 0x20"
    using True assms by (simp add: mm_or_si128_def mm_set1_epi8_def)
  then show ?thesis
    unfolding oyl_flow_mask16_def Let_def bit_ucast_iff bit_and_iff bit_FFFF
    using True assms by (auto simp: mask_bits lower_brackets flow_stop_def)
next
  case False
  then show ?thesis
    unfolding oyl_flow_mask16_def Let_def bit_ucast_iff bit_and_iff bit_FFFF by simp
qed

lemma bit_flow_mask_at:
  assumes "length p = 64" and "i \<le> 48"
  shows "bit (push_bit i (oyl_flow_mask16 (sub_buf p i 16))) k \<longleftrightarrow>
    i \<le> k \<and> k < i + 16 \<and> flow_stop (p ! k)"
proof (cases "i \<le> k \<and> k < i + 16")
  case True
  moreover have "sub_buf p i 16 ! (k - i) = p ! k"
    unfolding sub_buf_def by (subst nth_take) (use True assms in auto)
  moreover have "length (sub_buf p i 16) = 16" using assms by simp
  ultimately show ?thesis
    unfolding bit_push_bit_iff by (simp add: bit_flow_mask16) (use True assms in linarith)
next
  case False
  have "length (sub_buf p i 16) = 16" using assms by simp
  then show ?thesis
    unfolding bit_push_bit_iff by (simp add: bit_flow_mask16) (use False in linarith)
qed

lemma bit_flow_mask64:
  assumes "length p = 64"
  shows "bit (oyl_flow_mask64 p) k \<longleftrightarrow> k < 64 \<and> flow_stop (p ! k)"
proof -
  have "bit (oyl_flow_mask64 p) k \<longleftrightarrow> (k < 16 \<or> 16 \<le> k \<and> k < 32 \<or> 32 \<le> k \<and> k < 48 \<or> 48 \<le> k \<and> k < 64) \<and>
      flow_stop (p ! k)"
    unfolding oyl_flow_mask64_def bit_or_iff
    using bit_flow_mask_at [OF assms, of 0 k] bit_flow_mask_at [OF assms, of 16 k]
      bit_flow_mask_at [OF assms, of 32 k] bit_flow_mask_at [OF assms, of 48 k]
    by (simp only: push_bit_0_id id_apply) auto
  moreover have "(k < 16 \<or> 16 \<le> k \<and> k < 32 \<or> 32 \<le> k \<and> k < 48 \<or> 48 \<le> k \<and> k < 64) \<longleftrightarrow> k < 64"
    by linarith
  ultimately show ?thesis by blast
qed

lemma bit_single: "bit (m OR push_bit k 1) n \<longleftrightarrow> bit m n \<or> n = k \<and> n < 64" for m :: "64 word"
  unfolding bit_or_iff bit_push_bit_iff bit_1_iff by auto

lemma bit_fold_mask:
  "bit (fold (\<lambda>k m. if P k then m OR push_bit k 1 else m) ks (m :: 64 word)) n \<longleftrightarrow>
     bit m n \<or> (n < 64 \<and> n \<in> set ks \<and> P n)"
proof (induction ks arbitrary: m)
  case Nil
  then show ?case by simp
next
  case (Cons k ks)
  show ?case
    unfolding fold_simps comp_apply Cons.IH by (cases "P k") (auto simp only: bit_single if_True if_False set_simps)
qed

lemma bit_flow_mask64_portable:
  "bit (oyl_flow_mask64_portable p) k \<longleftrightarrow> k < 64 \<and> flow_stop (p ! k)"
  by (auto simp: oyl_flow_mask64_portable_def bit_fold_mask)

section \<open>Properties\<close>

text \<open>
  C23: the run-time choice of the SSE4.2 routines cannot be observed through the skipping of blanks
  and the search for a line break: both routines return the offset of the first byte that is not
  a blank, and of the first line break, on every buffer.
\<close>

theorem dispatch_unobservable:
  "oyl_skip_blanks sse42 buf = length (takeWhile (\<lambda>c. c = SP \<or> c = TAB) buf) \<and>
   oyl_scan_to_break sse42 buf = length (takeWhile (\<lambda>c. c \<noteq> LF \<and> c \<noteq> CR) buf)"
  by (simp add: blanks.scan_exact breaks.scan_exact scan_until_takeWhile)

text \<open>
  C24: the bytes skipped by the scan of a plain scalar, whichever implementation was chosen, are
  ordinary ones: none of them could end the scalar. On 16 bytes or more the SSE4.2 version may
  stop earlier than the portable one, never later.
\<close>

theorem plain_scan_safe:
  "oyl_scan_plain_scalar sse42 buf \<le> scan_plain_scalar_scalar buf \<and>
   list_all (\<lambda>c. \<not> plain_stop c) (take (oyl_scan_plain_scalar sse42 buf) buf)"
  using plain.scan_le_first [of sse42 buf] plain.skipped_ordinary
  by (auto simp: plain_portable.scan_exact list_all_iff)

text \<open>The two versions do differ: a backslash in a 16-byte chunk stops the SSE4.2 scan only.\<close>

lemma plain_scan_differs:
  "oyl_scan_plain_scalar True (replicate 16 BSLASH) = 0 \<and>
   oyl_scan_plain_scalar False (replicate 16 BSLASH) = 16"
  by code_simp

text \<open>
  C25: the SSE2 mask of the 64 bytes the flow-key lookahead looks at is the portable one: bit \<open>k\<close> is
  set exactly when byte \<open>k\<close> is one of the ten stop bytes.
\<close>

theorem flow_mask64_portable:
  assumes "length p = 64"
  shows "oyl_flow_mask64 p = oyl_flow_mask64_portable p"
  by (rule bit_eqI) (simp add: bit_flow_mask64 [OF assms] bit_flow_mask64_portable)


theorem flow_mask64_portable_witness:
  "oyl_flow_mask64 (replicate 64 LF) = oyl_flow_mask64_portable (replicate 64 LF)"
  by (rule flow_mask64_portable) simp

end
