(* ===== verification/OylSchema.thy ===== *)
theory OylSchema
  imports OylChars
begin

text \<open>
  \<open>src/src/oyl_schema.c\<close> (with the types of \<open>src/src/oyl_internal.h\<close> and \<open>src/include/oyl/oyl.h\<close>):
  resolving the tag of a scalar by the rules of a schema, the matchers for integers and floats,
  the preset schemas and the schema builder.

  The matchers walk an index over the text; here they walk the rest of the text, so \<open>s[i]\<close> is the
  head of the rest and \<open>i >= len\<close> is the empty rest. The locale \<open>tag_resolver\<close> is what a user of a
  schema (the parser) relies on.
\<close>

section \<open>Types\<close>

datatype oyl_scalar_style =
    OYL_SCALAR_PLAIN
  | OYL_SCALAR_SINGLE_QUOTED
  | OYL_SCALAR_DOUBLE_QUOTED
  | OYL_SCALAR_LITERAL
  | OYL_SCALAR_FOLDED

datatype oyl_match_type = OYL_MATCH_EXACT | OYL_MATCH_ICASE | OYL_MATCH_BUILTIN

record oyl_schema_rule =
  rule_match :: oyl_match_type
  rule_pattern :: "byte list"
  rule_tag :: oyl_str

record oyl_schema =
  sch_rules :: "oyl_schema_rule list"
  sch_default_plain_tag :: oyl_str
  sch_default_quoted_tag :: oyl_str
  sch_default_seq_tag :: oyl_str
  sch_default_map_tag :: oyl_str

definition TAG_NULL :: "byte list" where "TAG_NULL = bytes_of ''tag:yaml.org,2002:null''"
definition TAG_BOOL :: "byte list" where "TAG_BOOL = bytes_of ''tag:yaml.org,2002:bool''"
definition TAG_INT :: "byte list" where "TAG_INT = bytes_of ''tag:yaml.org,2002:int''"
definition TAG_FLOAT :: "byte list" where "TAG_FLOAT = bytes_of ''tag:yaml.org,2002:float''"
definition TAG_STR :: "byte list" where "TAG_STR = bytes_of ''tag:yaml.org,2002:str''"
definition TAG_SEQ :: "byte list" where "TAG_SEQ = bytes_of ''tag:yaml.org,2002:seq''"
definition TAG_MAP :: "byte list" where "TAG_MAP = bytes_of ''tag:yaml.org,2002:map''"
definition TAG_MERGE :: "byte list" where "TAG_MERGE = bytes_of ''tag:yaml.org,2002:merge''"

section \<open>The matchers\<close>

definition is_dec :: "byte \<Rightarrow> bool" where
  "is_dec c \<longleftrightarrow> DIGIT_0 \<le> c \<and> c \<le> DIGIT_9"

definition is_hexdig :: "byte \<Rightarrow> bool" where
  "is_hexdig c \<longleftrightarrow> (DIGIT_0 \<le> c \<and> c \<le> DIGIT_9) \<or> (LC_A \<le> c \<and> c \<le> LC_F) \<or> (UC_A \<le> c \<and> c \<le> UC_F)"

definition is_octdig :: "byte \<Rightarrow> bool" where
  "is_octdig c \<longleftrightarrow> DIGIT_0 \<le> c \<and> c \<le> DIGIT_7"

definition skip_sign :: "byte list \<Rightarrow> byte list" where
  "skip_sign s = (case s of c # r \<Rightarrow> if c = PLUS \<or> c = DASH then r else s | [] \<Rightarrow> [])"

text \<open>After the sign: hexadecimal, octal, decimal.\<close>

fun match_int_body :: "byte list \<Rightarrow> bool" where
  "match_int_body [] = False"
| "match_int_body [c] = is_dec c"
| "match_int_body (c # d # r) =
    (if c = DIGIT_0 \<and> d = LC_X then r \<noteq> [] \<and> list_all is_hexdig r
     else if c = DIGIT_0 \<and> d = LC_O then r \<noteq> [] \<and> list_all is_octdig r
     else is_dec c \<and> list_all is_dec (c # d # r))"

definition match_int :: "byte list \<Rightarrow> bool" where
  "match_int s = (if s = [] then False else match_int_body (skip_sign s))"

definition skip_digits :: "byte list \<Rightarrow> byte list" where
  "skip_digits s = dropWhile is_dec s"

text \<open>The exponent, at the end of the number: what is left, and whether it was there.\<close>

definition match_exponent :: "byte list \<Rightarrow> (byte list \<times> bool) option" where
  "match_exponent s =
    (case s of
       [] \<Rightarrow> Some (s, False)
     | e # r \<Rightarrow>
        if e = LC_E \<or> e = UC_E then
          (let r = skip_sign r
           in if r = [] \<or> \<not> is_dec (hd r) then None
              else Some (skip_digits (tl r), True))
        else Some (s, False))"

text \<open>The digits and the dot: what is left, and whether there was a dot.\<close>

definition match_mantissa :: "byte list \<Rightarrow> (byte list \<times> bool) option" where
  "match_mantissa s =
    (case s of
       [] \<Rightarrow> None
     | c # r \<Rightarrow>
        if c = DOT then
          (if r = [] \<or> \<not> is_dec (hd r) then None else Some (skip_digits (tl r), True))
        else if \<not> is_dec c then None
        else (let t = skip_digits s
              in case t of
                   [] \<Rightarrow> Some (t, False)
                 | d # u \<Rightarrow> if d = DOT then Some (skip_digits u, True) else Some (t, False)))"

definition match_float :: "byte list \<Rightarrow> bool" where
  "match_float s =
    (if s = [] then False
     else if s = bytes_of ''.nan'' then True
     else let r = skip_sign s
          in if r = [] then False
             else if r = bytes_of ''.inf'' then True
             else case match_mantissa r of
                    None \<Rightarrow> False
                  | Some (t, has_dot) \<Rightarrow>
                     (case match_exponent t of
                        None \<Rightarrow> False
                      | Some (u, has_exp) \<Rightarrow> u = [] \<and> (has_dot \<or> has_exp)))"

section \<open>Resolution\<close>

text \<open>\<open>tolower\<close> in the C locale.\<close>

definition to_lower :: "byte \<Rightarrow> byte" where
  "to_lower c = (if UC_A \<le> c \<and> c \<le> UC_Z then c + 32 else c)"

definition rule_matches :: "oyl_schema_rule \<Rightarrow> byte list \<Rightarrow> bool" where
  "rule_matches r val =
    (case rule_match r of
       OYL_MATCH_EXACT \<Rightarrow> val = rule_pattern r
     | OYL_MATCH_ICASE \<Rightarrow>
         length val = length (rule_pattern r) \<and>
         list_all2 (\<lambda>a b. to_lower a = to_lower b) val (rule_pattern r)
     | OYL_MATCH_BUILTIN \<Rightarrow>
         (rule_pattern r = bytes_of ''int'' \<and> match_int val) \<or>
         (rule_pattern r = bytes_of ''float'' \<and> match_float val))"

fun resolve_rules :: "oyl_schema_rule list \<Rightarrow> oyl_str \<Rightarrow> byte list \<Rightarrow> oyl_str" where
  "resolve_rules [] dflt val = dflt"
| "resolve_rules (r # rs) dflt val =
    (if rule_matches r val then rule_tag r else resolve_rules rs dflt val)"

definition oyl_schema_resolve :: "oyl_schema \<Rightarrow> oyl_str \<Rightarrow> oyl_scalar_style \<Rightarrow> oyl_str" where
  "oyl_schema_resolve schema value style =
    (if style \<noteq> OYL_SCALAR_PLAIN then sch_default_quoted_tag schema
     else resolve_rules (sch_rules schema) (sch_default_plain_tag schema) (str_bytes value))"

section \<open>Presets\<close>

definition schema_of :: "oyl_schema_rule list \<Rightarrow> oyl_schema" where
  "schema_of rules = \<lparr>sch_rules = rules, sch_default_plain_tag = Some TAG_STR,
     sch_default_quoted_tag = Some TAG_STR, sch_default_seq_tag = Some TAG_SEQ,
     sch_default_map_tag = Some TAG_MAP\<rparr>"

abbreviation exact_rule :: "string \<Rightarrow> byte list \<Rightarrow> oyl_schema_rule" where
  "exact_rule p t \<equiv> \<lparr>rule_match = OYL_MATCH_EXACT, rule_pattern = bytes_of p, rule_tag = Some t\<rparr>"

abbreviation builtin_rule :: "string \<Rightarrow> byte list \<Rightarrow> oyl_schema_rule" where
  "builtin_rule p t \<equiv> \<lparr>rule_match = OYL_MATCH_BUILTIN, rule_pattern = bytes_of p, rule_tag = Some t\<rparr>"

definition failsafe_schema :: oyl_schema where
  "failsafe_schema = schema_of []"

definition json_rules :: "oyl_schema_rule list" where
  "json_rules =
    [exact_rule ''null'' TAG_NULL,
     exact_rule ''true'' TAG_BOOL,
     exact_rule ''false'' TAG_BOOL,
     builtin_rule ''int'' TAG_INT,
     builtin_rule ''float'' TAG_FLOAT]"

definition json_schema :: oyl_schema where
  "json_schema = schema_of json_rules"

definition core_rules :: "oyl_schema_rule list" where
  "core_rules =
    [exact_rule ''null'' TAG_NULL,
     exact_rule ''Null'' TAG_NULL,
     exact_rule ''NULL'' TAG_NULL,
     exact_rule ''~'' TAG_NULL,
     exact_rule '''' TAG_NULL,
     exact_rule ''true'' TAG_BOOL,
     exact_rule ''True'' TAG_BOOL,
     exact_rule ''TRUE'' TAG_BOOL,
     exact_rule ''false'' TAG_BOOL,
     exact_rule ''False'' TAG_BOOL,
     exact_rule ''FALSE'' TAG_BOOL,
     builtin_rule ''int'' TAG_INT,
     builtin_rule ''float'' TAG_FLOAT]"

definition core_schema :: oyl_schema where
  "core_schema = schema_of core_rules"

section \<open>Builder\<close>

text \<open>
  The rules added so far, the capacity of the array they are in, and whether an allocation
  failed. \<open>bld_mem\<close> is the allocation oracle.
\<close>

record oyl_schema_builder =
  bld_rules :: "oyl_schema_rule list"
  bld_cap :: int
  bld_oom :: bool
  bld_mem :: mem

definition oyl_schema_builder_new :: "mem \<Rightarrow> oyl_schema_builder option" where
  "oyl_schema_builder_new m =
    (let (ok1, m) = mem_take m
     in if \<not> ok1 then None
        else let (ok2, m) = mem_take m
             in if \<not> ok2 then None
                else Some \<lparr>bld_rules = [], bld_cap = 16, bld_oom = False, bld_mem = m\<rparr>)"

text \<open>\<open>while (new_cap < need) new_cap *= 2\<close>, for a positive \<open>new_cap\<close>.\<close>

function grow_cap :: "int \<Rightarrow> int \<Rightarrow> int" where
  "grow_cap new_cap need = (if 0 < new_cap \<and> new_cap < need then grow_cap (new_cap * 2) need else new_cap)"
  by pat_completeness auto
termination
  by (relation "measure (\<lambda>(c, n). nat (n - c))") auto

declare grow_cap.simps [simp del]

definition builder_ensure :: "oyl_schema_builder \<Rightarrow> int \<Rightarrow> bool \<times> oyl_schema_builder" where
  "builder_ensure b need =
    (let len = int (length (bld_rules b))
     in if bld_oom b \<or> need < 0 then (False, b)
        else if len + need \<le> bld_cap b then (True, b)
        else let new_cap = grow_cap (bld_cap b * 2) (len + need);
                 (ok, m) = mem_take (bld_mem b)
             in if \<not> ok then (False, b\<lparr>bld_oom := True, bld_mem := m\<rparr>)
                else (True, b\<lparr>bld_cap := new_cap, bld_mem := m\<rparr>))"

definition oyl_schema_builder_add ::
    "oyl_schema_builder \<Rightarrow> oyl_match_type \<Rightarrow> byte list \<Rightarrow> oyl_str \<Rightarrow> oyl_schema_builder" where
  "oyl_schema_builder_add b match pattern tag =
    (let (ok, b) = builder_ensure b 1
     in if \<not> ok then b
        else b\<lparr>bld_rules := bld_rules b @
               [\<lparr>rule_match = match, rule_pattern = pattern, rule_tag = tag\<rparr>]\<rparr>)"

text \<open>The arrays of terms are lists, so their counts are not negative.\<close>

definition oyl_schema_builder_add_bools ::
    "oyl_schema_builder \<Rightarrow> byte list list \<Rightarrow> byte list list \<Rightarrow> oyl_schema_builder" where
  "oyl_schema_builder_add_bools b true_terms false_terms =
    (let (ok, b) = builder_ensure b (int (length true_terms) + int (length false_terms));
         rule = (\<lambda>t. \<lparr>rule_match = OYL_MATCH_EXACT, rule_pattern = t, rule_tag = Some TAG_BOOL\<rparr>)
     in if \<not> ok then b
        else b\<lparr>bld_rules := bld_rules b @ map rule true_terms @ map rule false_terms\<rparr>)"

definition oyl_schema_builder_add_nulls ::
    "oyl_schema_builder \<Rightarrow> byte list list \<Rightarrow> oyl_schema_builder" where
  "oyl_schema_builder_add_nulls b terms =
    (let (ok, b) = builder_ensure b (int (length terms));
         rule = (\<lambda>t. \<lparr>rule_match = OYL_MATCH_EXACT, rule_pattern = t, rule_tag = Some TAG_NULL\<rparr>)
     in if \<not> ok then b else b\<lparr>bld_rules := bld_rules b @ map rule terms\<rparr>)"

definition oyl_schema_builder_add_int :: "oyl_schema_builder \<Rightarrow> oyl_schema_builder" where
  "oyl_schema_builder_add_int b =
    oyl_schema_builder_add b OYL_MATCH_BUILTIN (bytes_of ''int'') (Some TAG_INT)"

definition oyl_schema_builder_add_float :: "oyl_schema_builder \<Rightarrow> oyl_schema_builder" where
  "oyl_schema_builder_add_float b =
    oyl_schema_builder_add b OYL_MATCH_BUILTIN (bytes_of ''float'') (Some TAG_FLOAT)"

text \<open>Copying the rules into the arena: a pattern and, where there is one, a tag per rule.\<close>

fun copy_rules :: "mem \<Rightarrow> oyl_schema_rule list \<Rightarrow> oyl_schema_rule list option \<times> mem" where
  "copy_rules m [] = (Some [], m)"
| "copy_rules m (r # rs) =
    (let (ok1, m) = mem_take m;
         (ok2, m) = (if rule_tag r \<noteq> None then mem_take m else (True, m))
     in if \<not> ok1 \<or> \<not> ok2 then (None, m)
        else let (cs, m) = copy_rules m rs
             in (case cs of None \<Rightarrow> None | Some cs \<Rightarrow> Some (r # cs), m))"

definition oyl_schema_builder_finish :: "oyl_schema_builder \<Rightarrow> oyl_schema option \<times> oyl_schema_builder" where
  "oyl_schema_builder_finish b =
    (if bld_oom b then (None, b)
     else let (ok1, m) = mem_take (bld_mem b);
              (ok2, m) = mem_take m
          in if \<not> ok1 \<or> \<not> ok2 then (None, b\<lparr>bld_mem := m\<rparr>)
             else let (cs, m) = copy_rules m (bld_rules b)
                  in (map_option schema_of cs, b\<lparr>bld_mem := m\<rparr>))"

section \<open>The language of the matchers\<close>

text \<open>The regular expressions that the matchers recognise, as predicates.\<close>

definition sign_part :: "byte list \<Rightarrow> bool" where
  "sign_part s \<longleftrightarrow> s = [] \<or> s = [PLUS] \<or> s = [DASH]"

definition digits1 :: "byte list \<Rightarrow> bool" where
  "digits1 s \<longleftrightarrow> s \<noteq> [] \<and> list_all is_dec s"

definition int_part :: "byte list \<Rightarrow> bool" where
  "int_part s \<longleftrightarrow> digits1 s \<or>
     (\<exists>h. s = DIGIT_0 # LC_X # h \<and> h \<noteq> [] \<and> list_all is_hexdig h) \<or>
     (\<exists>h. s = DIGIT_0 # LC_O # h \<and> h \<noteq> [] \<and> list_all is_octdig h)"

text \<open>A mantissa, with (\<open>True\<close>) and without a dot, and an exponent, present and absent.\<close>

definition mantissa_part :: "byte list \<Rightarrow> bool \<Rightarrow> bool" where
  "mantissa_part s has_dot \<longleftrightarrow>
     (if has_dot then (\<exists>d. s = DOT # d \<and> digits1 d) \<or> (\<exists>d f. s = d @ DOT # f \<and> digits1 d \<and> list_all is_dec f)
      else digits1 s)"

definition exponent_part :: "byte list \<Rightarrow> bool \<Rightarrow> bool" where
  "exponent_part s has_exp \<longleftrightarrow>
     (if has_exp then \<exists>e sg d. s = e # sg @ d \<and> (e = LC_E \<or> e = UC_E) \<and> sign_part sg \<and> digits1 d
      else s = [])"

definition float_text :: "byte list \<Rightarrow> bool" where
  "float_text s \<longleftrightarrow>
     (\<exists>m x has_dot has_exp. s = m @ x \<and> mantissa_part m has_dot \<and> exponent_part x has_exp \<and>
        (has_dot \<or> has_exp))"

lemma not_dec_simps [simp]:
  "\<not> is_dec DOT" "\<not> is_dec LC_E" "\<not> is_dec UC_E" "\<not> is_dec LC_X" "\<not> is_dec LC_O" "\<not> is_dec PLUS"
  "\<not> is_dec DASH" "is_dec DIGIT_0"
  by (simp_all add: is_dec_def)

lemma is_dec_neq: "is_dec c \<Longrightarrow> c \<noteq> PLUS \<and> c \<noteq> DASH \<and> c \<noteq> DOT \<and> c \<noteq> LC_E \<and> c \<noteq> UC_E"
  by auto

lemma skip_sign_simps [simp]:
  "skip_sign [] = []"
  "c \<noteq> PLUS \<Longrightarrow> c \<noteq> DASH \<Longrightarrow> skip_sign (c # r) = c # r"
  "skip_sign (PLUS # r) = r" "skip_sign (DASH # r) = r"
  by (simp_all add: skip_sign_def)

lemma skip_sign_split: "\<exists>sg. s = sg @ skip_sign s \<and> sign_part sg"
  by (cases s) (auto simp: skip_sign_def sign_part_def)

lemma skip_sign_append:
  "sign_part sg \<Longrightarrow> s \<noteq> [] \<Longrightarrow> hd s \<noteq> PLUS \<Longrightarrow> hd s \<noteq> DASH \<Longrightarrow> skip_sign (sg @ s) = s"
  by (cases s) (auto simp: sign_part_def)

lemma skip_digits_append:
  "list_all is_dec d \<Longrightarrow> (r = [] \<or> \<not> is_dec (hd r)) \<Longrightarrow> skip_digits (d @ r) = r"
  unfolding skip_digits_def
  by (induction d) (cases r, auto)

lemma skip_digits_split:
  "\<exists>d. s = d @ skip_digits s \<and> list_all is_dec d \<and> (skip_digits s = [] \<or> \<not> is_dec (hd (skip_digits s)))"
  unfolding skip_digits_def
  using hd_dropWhile [of is_dec s]
  by (intro exI [of _ "takeWhile is_dec s"])
    (auto simp: list_all_iff dropWhile_eq_Nil_conv dest: set_takeWhileD)

lemma match_int_body_iff: "match_int_body s \<longleftrightarrow> int_part s"
  by (cases s rule: match_int_body.cases)
    (auto simp: int_part_def digits1_def)

lemma int_part_hd: "int_part s \<Longrightarrow> s \<noteq> [] \<and> hd s \<noteq> PLUS \<and> hd s \<noteq> DASH"
  by (cases s) (auto simp: int_part_def digits1_def)

lemma match_mantissaD:
  "match_mantissa s = Some (t, b) \<Longrightarrow> \<exists>m. s = m @ t \<and> mantissa_part m b \<and> (t = [] \<or> \<not> is_dec (hd t))"
proof (cases s)
  case (Cons c r)
  assume m: "match_mantissa s = Some (t, b)"
  show ?thesis
  proof (cases "c = DOT")
    case True
    with m Cons have r: "r \<noteq> []" "is_dec (hd r)" "t = skip_digits (tl r)" "b"
      by (auto simp: match_mantissa_def split: if_splits)
    obtain d where "tl r = d @ skip_digits (tl r)" "list_all is_dec d"
      "skip_digits (tl r) = [] \<or> \<not> is_dec (hd (skip_digits (tl r)))"
      using skip_digits_split by blast
    moreover from this r have "s = (DOT # hd r # d) @ t" using Cons True by (cases r) auto
    ultimately show ?thesis using r
      by (intro exI [of _ "DOT # hd r # d"]) (auto simp: mantissa_part_def digits1_def)
  next
    case False
    obtain d where d: "s = d @ skip_digits s" "list_all is_dec d"
      "skip_digits s = [] \<or> \<not> is_dec (hd (skip_digits s))"
      using skip_digits_split by blast
    have c: "is_dec c" using m Cons False by (auto simp: match_mantissa_def split: if_splits)
    then have "digits1 d" using d Cons by (cases d) (auto simp: digits1_def)
    show ?thesis
    proof (cases "b")
      case False
      with m Cons \<open>c \<noteq> DOT\<close> c have "t = skip_digits s"
        by (auto simp: match_mantissa_def Let_def split: list.splits if_splits)
      with d \<open>digits1 d\<close> False show ?thesis by (auto simp: mantissa_part_def)
    next
      case True
      with m Cons \<open>c \<noteq> DOT\<close> c obtain u where u: "skip_digits s = DOT # u" "t = skip_digits u"
        by (auto simp: match_mantissa_def Let_def split: list.splits if_splits)
      obtain f where "u = f @ skip_digits u" "list_all is_dec f"
        "skip_digits u = [] \<or> \<not> is_dec (hd (skip_digits u))"
        using skip_digits_split by blast
      with u d \<open>digits1 d\<close> True show ?thesis
        by (intro exI [of _ "d @ DOT # f"]) (auto simp: mantissa_part_def)
    qed
  qed
qed (simp add: match_mantissa_def)

lemma match_mantissaI:
  assumes "mantissa_part m b" and "t = [] \<or> (\<not> is_dec (hd t) \<and> hd t \<noteq> DOT)"
  shows "match_mantissa (m @ t) = Some (t, b)"
proof -
  have skip: "list_all is_dec d \<Longrightarrow> skip_digits (d @ t) = t" for d
    using skip_digits_append [of d t] assms(2) by blast
  consider d where "b" "m = DOT # d" "digits1 d"
    | d f where "b" "m = d @ DOT # f" "digits1 d" "list_all is_dec f"
    | "\<not> b" "digits1 m"
    using assms(1) by (auto simp: mantissa_part_def split: if_splits)
  then show ?thesis
  proof cases
    case 1
    then show ?thesis using skip [of "tl d"] by (cases d) (auto simp: match_mantissa_def digits1_def)
  next
    case 2
    have "skip_digits (d @ DOT # f @ t) = DOT # f @ t"
      by (rule skip_digits_append) (use 2 in \<open>auto simp: digits1_def\<close>)
    moreover obtain c r where "d = c # r" "is_dec c" using 2 by (cases d) (auto simp: digits1_def)
    ultimately show ?thesis using 2 skip [of f] is_dec_neq [of c]
      by (auto simp: match_mantissa_def Let_def)
  next
    case 3
    then obtain c r where "m = c # r" "is_dec c" by (cases m) (auto simp: digits1_def)
    moreover have "skip_digits (m @ t) = t" using skip 3 by (auto simp: digits1_def)
    ultimately show ?thesis using assms(2) 3 is_dec_neq [of c]
      by (cases t) (auto simp: match_mantissa_def Let_def)
  qed
qed

lemma match_exponent_iff:
  "match_exponent s = Some ([], b) \<longleftrightarrow> exponent_part s b"
proof
  assume m: "match_exponent s = Some ([], b)"
  show "exponent_part s b"
  proof (cases s)
    case Nil
    with m show ?thesis by (simp add: match_exponent_def exponent_part_def)
  next
    case (Cons e r)
    with m have e: "e = LC_E \<or> e = UC_E" by (auto simp: match_exponent_def split: if_splits)
    with m Cons have r: "skip_sign r \<noteq> []" "is_dec (hd (skip_sign r))" "skip_digits (tl (skip_sign r)) = []" b
      by (auto simp: match_exponent_def Let_def split: if_splits)
    obtain sg where "r = sg @ skip_sign r" "sign_part sg" using skip_sign_split by blast
    moreover have "digits1 (skip_sign r)"
      using r skip_digits_split [of "tl (skip_sign r)"] by (cases "skip_sign r") (auto simp: digits1_def)
    ultimately show ?thesis using e r Cons by (auto simp: exponent_part_def)
  qed
next
  assume x: "exponent_part s b"
  show "match_exponent s = Some ([], b)"
  proof (cases b)
    case False
    with x show ?thesis by (simp add: exponent_part_def match_exponent_def)
  next
    case True
    with x obtain e sg d where s: "s = e # sg @ d" "e = LC_E \<or> e = UC_E" "sign_part sg" "digits1 d"
      by (auto simp: exponent_part_def)
    then obtain c r where d: "d = c # r" "is_dec c" "list_all is_dec r" by (cases d) (auto simp: digits1_def)
    have "skip_sign (sg @ d) = d" by (rule skip_sign_append) (use s d is_dec_neq [of c] in auto)
    moreover have "skip_digits r = []" using skip_digits_append [of r "[]"] d by simp
    ultimately show ?thesis using s d True by (auto simp: match_exponent_def Let_def)
  qed
qed

lemma exponent_hd: "exponent_part x b \<Longrightarrow> x = [] \<or> (\<not> is_dec (hd x) \<and> hd x \<noteq> DOT)"
  by (auto simp: exponent_part_def split: if_splits)

lemma float_text_iff:
  "(case match_mantissa r of None \<Rightarrow> False
    | Some (t, has_dot) \<Rightarrow> (case match_exponent t of None \<Rightarrow> False
        | Some (u, has_exp) \<Rightarrow> u = [] \<and> (has_dot \<or> has_exp))) \<longleftrightarrow> float_text r"
proof
  assume "float_text r"
  then obtain m x b e where r: "r = m @ x" "mantissa_part m b" "exponent_part x e" "b \<or> e"
    by (auto simp: float_text_def)
  then have "match_mantissa r = Some (x, b)" using match_mantissaI exponent_hd by blast
  moreover have "match_exponent x = Some ([], e)" using r match_exponent_iff by blast
  ultimately show "case match_mantissa r of None \<Rightarrow> False
    | Some (t, has_dot) \<Rightarrow> (case match_exponent t of None \<Rightarrow> False
        | Some (u, has_exp) \<Rightarrow> u = [] \<and> (has_dot \<or> has_exp))" using r by simp
next
  assume "case match_mantissa r of None \<Rightarrow> False
    | Some (t, has_dot) \<Rightarrow> (case match_exponent t of None \<Rightarrow> False
        | Some (u, has_exp) \<Rightarrow> u = [] \<and> (has_dot \<or> has_exp))"
  then obtain t b e where "match_mantissa r = Some (t, b)" "match_exponent t = Some ([], e)" "b \<or> e"
    by (auto split: option.splits prod.splits)
  then show "float_text r" using match_mantissaD match_exponent_iff unfolding float_text_def by metis
qed

lemma mantissa_hd: "mantissa_part m b \<Longrightarrow> m \<noteq> [] \<and> hd m \<noteq> PLUS \<and> hd m \<noteq> DASH"
  by (cases m) (auto simp: mantissa_part_def digits1_def append_eq_Cons_conv Cons_eq_append_conv split: if_splits)

lemma float_text_hd: "float_text s \<Longrightarrow> s \<noteq> [] \<and> hd s \<noteq> PLUS \<and> hd s \<noteq> DASH"
  using mantissa_hd by (auto simp: float_text_def hd_append)

text \<open>An integer is not the text of a float: it has no dot, and its exponent letters are digits.\<close>

lemma dec_prefix_unique:
  assumes "list_all is_dec d" and "d @ x = d' @ x'" and "list_all is_dec d'"
    and "x = [] \<or> \<not> is_dec (hd x)" and "x' = [] \<or> \<not> is_dec (hd x')"
  shows "x = x'"
  using skip_digits_append [OF assms(1,4)] skip_digits_append [OF assms(3,5)] assms(2) by simp

lemma mantissa_dec_prefix:
  assumes "mantissa_part m b" and "exponent_part x e" and "b \<or> e" and "hd m \<noteq> DOT"
  obtains d r where "m @ x = d @ r" "digits1 d" "r \<noteq> []" "hd r = DOT \<or> hd r = LC_E \<or> hd r = UC_E"
proof -
  consider d f where "b" "m = d @ DOT # f" "digits1 d" | "\<not> b" "digits1 m"
    using assms(1,4) by (auto simp: mantissa_part_def split: if_splits)
  then show thesis
  proof cases
    case 1
    then show thesis by (intro that [of d "DOT # f @ x"]) auto
  next
    case 2
    with assms(2,3) have "x \<noteq> [] \<and> (hd x = LC_E \<or> hd x = UC_E)"
      by (auto simp: exponent_part_def)
    with 2 show thesis by (intro that [of m x]) auto
  qed
qed

lemma int_not_float_text: "int_part s \<Longrightarrow> \<not> float_text s"
proof
  assume i: "int_part s" and "float_text s"
  then obtain m x b e where s: "s = m @ x" "mantissa_part m b" "exponent_part x e" "b \<or> e"
    by (auto simp: float_text_def)
  have m: "m \<noteq> []" using mantissa_hd [OF s(2)] by simp
  have "hd s \<noteq> DOT" using i by (cases s) (auto simp: int_part_def digits1_def)
  with s m have "hd m \<noteq> DOT" by simp
  then obtain d r where dr: "s = d @ r" "digits1 d" "r \<noteq> []" "hd r = DOT \<or> hd r = LC_E \<or> hd r = UC_E"
    using mantissa_dec_prefix [OF s(2-4)] s(1) by metis
  then have nd: "\<not> is_dec (hd r)" by auto
  have "s = d' @ r' \<Longrightarrow> list_all is_dec d' \<Longrightarrow> r' = [] \<or> \<not> is_dec (hd r') \<Longrightarrow> r' = r" for d' r'
    using dec_prefix_unique [of d' r' d r] dr nd by (auto simp: digits1_def)
  from this [of s "[]"] this [of "[DIGIT_0]" "tl s"] i dr(3,4) show False
    by (auto simp: int_part_def digits1_def)
qed

section \<open>The contract of a schema\<close>

locale tag_resolver =
  fixes resolve :: "oyl_str \<Rightarrow> oyl_scalar_style \<Rightarrow> oyl_str" and tags :: "oyl_str set"
  assumes quoted_str: "style \<noteq> OYL_SCALAR_PLAIN \<Longrightarrow> resolve v style = Some TAG_STR"
    and plain_tags: "resolve v OYL_SCALAR_PLAIN \<in> tags"
    and str_tag: "Some TAG_STR \<in> tags"
begin

lemma resolve_in_tags: "resolve v style \<in> tags"
  using quoted_str plain_tags str_tag by (cases "style = OYL_SCALAR_PLAIN") auto

lemma resolve_other_plain: "resolve v style \<noteq> Some TAG_STR \<Longrightarrow> style = OYL_SCALAR_PLAIN"
  using quoted_str by blast

end

lemma resolve_rules_in: "resolve_rules rs dflt v \<in> insert dflt (rule_tag ` set rs)"
  by (induction rs) auto

lemma resolve_rules_append:
  "resolve_rules (rs @ qs) dflt v = resolve_rules rs (resolve_rules qs dflt v) v"
  by (induction rs) auto

interpretation failsafe: tag_resolver "oyl_schema_resolve failsafe_schema" "{Some TAG_STR}"
  by unfold_locales (simp_all add: oyl_schema_resolve_def failsafe_schema_def schema_of_def)

interpretation json: tag_resolver "oyl_schema_resolve json_schema"
    "insert (Some TAG_STR) (rule_tag ` set json_rules)"
  using resolve_rules_in [of json_rules "Some TAG_STR"]
  by unfold_locales (auto simp: oyl_schema_resolve_def json_schema_def schema_of_def)

interpretation core: tag_resolver "oyl_schema_resolve core_schema"
    "insert (Some TAG_STR) (rule_tag ` set core_rules)"
  using resolve_rules_in [of core_rules "Some TAG_STR"]
  by unfold_locales (auto simp: oyl_schema_resolve_def core_schema_def schema_of_def)

section \<open>Properties\<close>


text \<open>
  C27: the float matcher accepts exactly \<open>.nan\<close>, an optionally signed \<open>.inf\<close>, and an optionally
  signed number with a dot or an exponent (or both): a plain integer is not a float.
\<close>

theorem match_float_language:
  "match_float s \<longleftrightarrow> s = bytes_of ''.nan'' \<or>
     (\<exists>sg t. s = sg @ t \<and> sign_part sg \<and> (t = bytes_of ''.inf'' \<or> float_text t))"
proof -
  have "\<not> float_text []" using float_text_hd by blast
  then have step: "match_float s \<longleftrightarrow> s = bytes_of ''.nan'' \<or>
      (skip_sign s = bytes_of ''.inf'' \<or> float_text (skip_sign s))"
    using float_text_iff [of "skip_sign s"]
    by (auto simp: match_float_def Let_def bytes_of_def)
  moreover have "(\<exists>sg t. s = sg @ t \<and> sign_part sg \<and> (t = bytes_of ''.inf'' \<or> float_text t)) \<longleftrightarrow>
      skip_sign s = bytes_of ''.inf'' \<or> float_text (skip_sign s)"
  proof
    assume "\<exists>sg t. s = sg @ t \<and> sign_part sg \<and> (t = bytes_of ''.inf'' \<or> float_text t)"
    then obtain sg t where st: "s = sg @ t" "sign_part sg" "t = bytes_of ''.inf'' \<or> float_text t" by blast
    then have "t \<noteq> [] \<and> hd t \<noteq> PLUS \<and> hd t \<noteq> DASH" using float_text_hd by (auto simp: bytes_of_def)
    with st have "skip_sign s = t" using skip_sign_append by blast
    with st show "skip_sign s = bytes_of ''.inf'' \<or> float_text (skip_sign s)" by simp
  qed (use skip_sign_split [of s] in blast)
  ultimately show ?thesis by blast
qed

text \<open>No text is both an integer and a float, so the order of the two rules cannot matter.\<close>

theorem int_float_disjoint: "\<not> (match_int s \<and> match_float s)"
proof
  assume "match_int s \<and> match_float s"
  then have i: "int_part (skip_sign s)" and f: "match_float s"
    by (auto simp: match_int_def match_int_body_iff split: if_splits)
  have "s \<noteq> bytes_of ''.nan''" "skip_sign s \<noteq> bytes_of ''.inf''"
    using i by (auto simp: bytes_of_def int_part_def digits1_def)
  with f have "float_text (skip_sign s)"
    using float_text_iff [of "skip_sign s"] by (auto simp: match_float_def Let_def split: if_splits)
  with int_not_float_text [OF i] show False by simp
qed

text \<open>
  The core schema extends the JSON schema: a scalar that the JSON schema resolves to anything
  but a string has the same tag in the core schema.
\<close>

theorem core_extends_json:
  assumes "oyl_schema_resolve json_schema v style \<noteq> Some TAG_STR"
  shows "oyl_schema_resolve core_schema v style = oyl_schema_resolve json_schema v style"
proof -
  have plain: "style = OYL_SCALAR_PLAIN" using assms by (rule json.resolve_other_plain)
  let ?x = "str_bytes v"
  have "\<not> match_int (bytes_of p) \<and> \<not> match_float (bytes_of p)"
    if "p \<in> {''Null'', ''NULL'', ''~'', '''', ''True'', ''TRUE'', ''False'', ''FALSE''}" for p
    using that by (auto simp: bytes_of_def match_int_def match_float_def match_mantissa_def is_dec_def)
  note no = this [of "''Null''", simplified] this [of "''NULL''", simplified] this [of "''~''", simplified]
    this [of "''''", simplified] this [of "''True''", simplified] this [of "''TRUE''", simplified]
    this [of "''False''", simplified] this [of "''FALSE''", simplified]
  show ?thesis
    using assms no unfolding plain
    by (auto simp: oyl_schema_resolve_def json_schema_def core_schema_def schema_of_def json_rules_def
        core_rules_def rule_matches_def bytes_of_def split: if_splits)
qed

theorem core_extends_json_witness:
  "oyl_schema_resolve core_schema (Some (bytes_of ''-12'')) OYL_SCALAR_PLAIN = Some TAG_INT"
proof -
  have "oyl_schema_resolve json_schema (Some (bytes_of ''-12'')) OYL_SCALAR_PLAIN = Some TAG_INT"
    by (simp add: oyl_schema_resolve_def json_schema_def schema_of_def json_rules_def rule_matches_def
        bytes_of_def match_int_def skip_sign_def is_dec_def)
  moreover have "Some TAG_INT \<noteq> Some TAG_STR" by (simp add: TAG_INT_def TAG_STR_def bytes_of_def)
  ultimately show ?thesis
    using core_extends_json [of "Some (bytes_of ''-12'')" OYL_SCALAR_PLAIN] by simp
qed

text \<open>
  The comment over \<open>match_int\<close> gives no sign to the hexadecimal and octal forms, and the header
  lists them for the core schema only; the code takes both in every schema with the built-in rule.
\<close>

lemma json_accepts_signed_hex:
  "oyl_schema_resolve json_schema (Some (bytes_of ''-0x1F'')) OYL_SCALAR_PLAIN = Some TAG_INT"
  by (simp add: oyl_schema_resolve_def json_schema_def schema_of_def json_rules_def rule_matches_def
      bytes_of_def match_int_def skip_sign_def is_hexdig_def)

section \<open>The builder\<close>

text \<open>The calls of a client of the builder, and the rules each is meant to add.\<close>

datatype builder_op =
    Add oyl_match_type "byte list" oyl_str
  | AddBools "byte list list" "byte list list"
  | AddNulls "byte list list"
  | AddInt
  | AddFloat

fun builder_step :: "oyl_schema_builder \<Rightarrow> builder_op \<Rightarrow> oyl_schema_builder" where
  "builder_step b (Add m p t) = oyl_schema_builder_add b m p t"
| "builder_step b (AddBools ts fs) = oyl_schema_builder_add_bools b ts fs"
| "builder_step b (AddNulls ts) = oyl_schema_builder_add_nulls b ts"
| "builder_step b AddInt = oyl_schema_builder_add_int b"
| "builder_step b AddFloat = oyl_schema_builder_add_float b"

fun op_rules :: "builder_op \<Rightarrow> oyl_schema_rule list" where
  "op_rules (Add m p t) = [\<lparr>rule_match = m, rule_pattern = p, rule_tag = t\<rparr>]"
| "op_rules (AddBools ts fs) =
    map (\<lambda>t. \<lparr>rule_match = OYL_MATCH_EXACT, rule_pattern = t, rule_tag = Some TAG_BOOL\<rparr>) (ts @ fs)"
| "op_rules (AddNulls ts) =
    map (\<lambda>t. \<lparr>rule_match = OYL_MATCH_EXACT, rule_pattern = t, rule_tag = Some TAG_NULL\<rparr>) ts"
| "op_rules AddInt = [builtin_rule ''int'' TAG_INT]"
| "op_rules AddFloat = [builtin_rule ''float'' TAG_FLOAT]"

text \<open>The rules fit in their array.\<close>

definition builder_ok :: "oyl_schema_builder \<Rightarrow> bool" where
  "builder_ok b \<longleftrightarrow> 0 < bld_cap b \<and> int (length (bld_rules b)) \<le> bld_cap b"

lemma grow_cap_ge: "0 < c \<Longrightarrow> need \<le> grow_cap c need \<and> c \<le> grow_cap c need"
proof (induction c need rule: grow_cap.induct)
  case (1 c need)
  then show ?case by (auto simp: grow_cap.simps [of c need])
qed

lemma builder_ensure_ok:
  assumes "builder_ok b" and "0 \<le> need" and "builder_ensure b need = (ok, b')"
  shows "builder_ok b' \<and> bld_rules b' = bld_rules b \<and> (bld_oom b \<longrightarrow> bld_oom b') \<and>
    (ok \<longrightarrow> int (length (bld_rules b)) + need \<le> bld_cap b' \<and> bld_oom b' = bld_oom b) \<and>
    (\<not> ok \<longrightarrow> bld_oom b')"
  using assms grow_cap_ge [of "bld_cap b * 2" "int (length (bld_rules b)) + need"]
  by (auto simp: builder_ensure_def builder_ok_def Let_def split: if_splits prod.splits)

text \<open>
  An operation either adds exactly its rules, within the array's capacity, or marks the builder
  as out of memory and adds nothing.
\<close>

lemma builder_step_ok:
  assumes "builder_ok b"
  shows "builder_ok (builder_step b op) \<and> (bld_oom b \<longrightarrow> bld_oom (builder_step b op)) \<and>
    (\<not> bld_oom (builder_step b op) \<longrightarrow> bld_rules (builder_step b op) = bld_rules b @ op_rules op)"
proof -
  define n where "n = int (length (op_rules op))"
  obtain ok b' where e: "builder_ensure b n = (ok, b')" by fastforce
  have "builder_step b op = (if \<not> ok then b' else b'\<lparr>bld_rules := bld_rules b' @ op_rules op\<rparr>)"
    using e unfolding n_def
    by (cases op)
      (simp_all add: oyl_schema_builder_add_def oyl_schema_builder_add_bools_def
         oyl_schema_builder_add_nulls_def oyl_schema_builder_add_int_def
         oyl_schema_builder_add_float_def Let_def)
  moreover have "0 \<le> n" by (simp add: n_def)
  note builder_ensure_ok [OF assms this e]
  ultimately show ?thesis by (auto simp: builder_ok_def n_def)
qed

lemma builder_run_ok:
  "builder_ok b \<Longrightarrow> builder_ok (foldl builder_step b ops) \<and>
   (bld_oom b \<longrightarrow> bld_oom (foldl builder_step b ops)) \<and>
   (\<not> bld_oom (foldl builder_step b ops) \<longrightarrow>
      bld_rules (foldl builder_step b ops) = bld_rules b @ concat (map op_rules ops))"
proof (induction ops arbitrary: b)
  case Nil
  then show ?case by simp
next
  case (Cons op ops)
  with builder_step_ok [OF Cons.prems, of op] show ?case by fastforce
qed

lemma copy_rules_same: "copy_rules m rs = (Some cs, m') \<Longrightarrow> cs = rs"
  by (induction rs arbitrary: m cs m') (auto simp: Let_def split: prod.splits if_splits option.splits)

lemma builder_new_ok:
  "oyl_schema_builder_new m = Some b \<Longrightarrow> builder_ok b \<and> bld_rules b = [] \<and> \<not> bld_oom b"
  by (auto simp: oyl_schema_builder_new_def builder_ok_def Let_def split: prod.splits if_splits)

text \<open>
  C28: whatever the sequence of calls to a schema builder, and whichever allocations fail, the rules
  never outgrow their array, and a schema that \<open>oyl_schema_builder_finish\<close> returns has exactly the
  rules asked for, in order: a failed addition never leads to a schema with rules missing.
\<close>

theorem builder_all_or_nothing:
  assumes "oyl_schema_builder_new m = Some b"
  shows "builder_ok (foldl builder_step b ops) \<and>
    (\<forall>sch b'. oyl_schema_builder_finish (foldl builder_step b ops) = (Some sch, b') \<longrightarrow>
       sch = schema_of (concat (map op_rules ops)))"
  using builder_run_ok [of b ops] builder_new_ok [OF assms] copy_rules_same
  by (auto simp: oyl_schema_builder_finish_def Let_def split: prod.splits if_splits)

theorem builder_all_or_nothing_witness:
  "builder_ok (foldl builder_step \<lparr>bld_rules = [], bld_cap = 16, bld_oom = False, bld_mem = [True, False]\<rparr>
     [AddNulls [bytes_of ''nil''], AddInt])"
  using builder_all_or_nothing
    [of "[True, True, True, False]" "\<lparr>bld_rules = [], bld_cap = 16, bld_oom = False, bld_mem = [True, False]\<rparr>"
        "[AddNulls [bytes_of ''nil''], AddInt]"]
  by (simp add: oyl_schema_builder_new_def)

end
