(* ===== verification/OylScanState.thy ===== *)
theory OylScanState
  imports OylSimd OylSchema
begin

text \<open>
  The state of the scanner and the helpers of \<open>src/src/oyl_scanner.c\<close>: the cursor, blanks and
  comments, the stack of flow brackets, the check of implicit keys, the stack of indentations.

  A scanner is the record \<open>oyl_scanner\<close>. The stacks are lists with the top first, next to the
  capacity of their array, which matters when growing it fails. \<open>sc_mem\<close> is the allocation
  oracle for the arena and for \<open>realloc\<close>; \<open>sc_sse42\<close> is the dispatch of the scan primitives,
  fixed at load time. An offset that may be \<open>SIZE_MAX\<close> ("none yet") is a \<open>nat\<close> like the others.

  \<open>moves s s'\<close> is what the token routines keep: the structure of the scanner (buffer, stacks,
  flags) is unchanged and the cursor has not moved back nor left the buffer.
\<close>

section \<open>Types\<close>

record oyl_mark =
  mk_offset :: nat
  mk_line :: nat
  mk_col :: nat

datatype oyl_token_type =
    OYL_TOK_NONE
  | OYL_TOK_STREAM_START
  | OYL_TOK_STREAM_END
  | OYL_TOK_DOC_START
  | OYL_TOK_DOC_END
  | OYL_TOK_BLOCK_SEQ_ENTRY
  | OYL_TOK_BLOCK_MAP_KEY
  | OYL_TOK_BLOCK_MAP_VALUE
  | OYL_TOK_FLOW_SEQ_START
  | OYL_TOK_FLOW_SEQ_END
  | OYL_TOK_FLOW_MAP_START
  | OYL_TOK_FLOW_MAP_END
  | OYL_TOK_FLOW_ENTRY
  | OYL_TOK_SCALAR
  | OYL_TOK_TAG
  | OYL_TOK_ANCHOR
  | OYL_TOK_ALIAS
  | OYL_TOK_DIRECTIVE

record oyl_token =
  tok_type :: oyl_token_type
  tok_value :: oyl_str
  tok_style :: oyl_scalar_style
  tok_start :: oyl_mark
  tok_end :: oyl_mark

record flow_entry =
  fe_open :: oyl_mark
  fe_is_map :: bool
  fe_props_col :: int

record oyl_scanner =
  sc_buf :: "byte list"
  sc_begin :: nat
  sc_pos :: nat
  sc_line :: nat
  sc_col :: nat
  sc_flow_level :: int
  sc_indent :: int
  sc_indents :: "int list"
  sc_indents_cap :: nat
  sc_stream_started :: bool
  sc_stream_ended :: bool
  sc_pending :: "oyl_token list"
  sc_last_token_col :: int
  sc_last_was_quoted :: bool
  sc_flows :: "flow_entry list"
  sc_flows_cap :: nat
  sc_node_line :: nat
  sc_node_end :: nat
  sc_explicit_key :: bool
  sc_explicit_depth :: nat
  sc_key_colon_line :: nat
  sc_node_start :: nat
  sc_node_col :: int
  sc_props_end :: nat
  sc_props_col :: int
  sc_indicator_end :: nat
  sc_error_msg :: string
  sc_error_mark :: oyl_mark
  sc_mem :: mem
  sc_sse42 :: bool

text \<open>A scan function returns a token or an error status, and the scanner afterwards.\<close>

type_synonym scan_result = "(oyl_status + oyl_token) \<times> oyl_scanner"

section \<open>Cursor\<close>

definition PEEK :: "oyl_scanner \<Rightarrow> byte" where
  "PEEK s = (if sc_pos s < length (sc_buf s) then sc_buf s ! sc_pos s else 0)"

definition PEEK_AT :: "oyl_scanner \<Rightarrow> nat \<Rightarrow> byte" where
  "PEEK_AT s n = (if sc_pos s + n < length (sc_buf s) then sc_buf s ! (sc_pos s + n) else 0)"

definition REMAINING :: "oyl_scanner \<Rightarrow> nat" where
  "REMAINING s = length (sc_buf s) - sc_pos s"

definition AT_END :: "oyl_scanner \<Rightarrow> bool" where
  "AT_END s \<longleftrightarrow> length (sc_buf s) \<le> sc_pos s"

text \<open>The rest of the input: \<open>BUF_AT(s)\<close> with \<open>REMAINING(s)\<close> bytes.\<close>

definition BUF_AT :: "oyl_scanner \<Rightarrow> byte list" where
  "BUF_AT s = drop (sc_pos s) (sc_buf s)"

definition mark :: "oyl_scanner \<Rightarrow> oyl_mark" where
  "mark s = \<lparr>mk_offset = sc_pos s, mk_line = sc_line s, mk_col = sc_col s\<rparr>"

definition scan_error :: "oyl_scanner \<Rightarrow> string \<Rightarrow> (oyl_status + 'a) \<times> oyl_scanner" where
  "scan_error s msg = (Inl OYL_ERR_SCAN, s\<lparr>sc_error_msg := msg, sc_error_mark := mark s\<rparr>)"

definition hex_digit :: "byte \<Rightarrow> byte" where
  "hex_digit c =
    (if DIGIT_0 \<le> c \<and> c \<le> DIGIT_9 then c - DIGIT_0
     else if LC_A \<le> c \<and> c \<le> LC_F then c - LC_A + 10
     else if UC_A \<le> c \<and> c \<le> UC_F then c - UC_A + 10
     else 0)"

text \<open>One step of the cursor over the byte at \<open>pos\<close>.\<close>

definition advance1 :: "oyl_scanner \<Rightarrow> oyl_scanner" where
  "advance1 s =
    (if sc_pos s < length (sc_buf s) then
       (if sc_buf s ! sc_pos s = LF
        then s\<lparr>sc_line := sc_line s + 1, sc_col := 1, sc_pos := sc_pos s + 1\<rparr>
        else s\<lparr>sc_col := sc_col s + 1, sc_pos := sc_pos s + 1\<rparr>)
     else s)"

fun advance :: "oyl_scanner \<Rightarrow> nat \<Rightarrow> oyl_scanner" where
  "advance s 0 = s"
| "advance s (Suc n) = advance (advance1 s) n"

definition advance_cols :: "oyl_scanner \<Rightarrow> nat \<Rightarrow> oyl_scanner" where
  "advance_cols s n = s\<lparr>sc_pos := sc_pos s + n, sc_col := sc_col s + n\<rparr>"

definition skip_break :: "oyl_scanner \<Rightarrow> oyl_scanner" where
  "skip_break s =
    (if length (sc_buf s) \<le> sc_pos s then s
     else
       let p = sc_pos s;
           p' = (if sc_buf s ! p = CR then
                   (if p + 1 < length (sc_buf s) \<and> sc_buf s ! (p + 1) = LF then p + 2 else p + 1)
                 else if sc_buf s ! p = LF then p + 1 else p)
       in s\<lparr>sc_pos := p', sc_line := sc_line s + 1, sc_col := 1\<rparr>)"

text \<open>The number of spaces that the bytes of a line up to \<open>pos\<close> start with.\<close>

definition spaces_from :: "byte list \<Rightarrow> nat \<Rightarrow> nat \<Rightarrow> nat" where
  "spaces_from buf line_start p = scan_until (\<lambda>c. c \<noteq> SP) (sub_buf buf line_start (p - line_start))"

definition continuation_indent_ok :: "oyl_scanner \<Rightarrow> byte \<Rightarrow> bool" where
  "continuation_indent_ok s closer =
    (if length (sc_buf s) \<le> sc_pos s \<or> sc_buf s ! sc_pos s = closer then True
     else
       let line_start = sc_pos s - (sc_col s - 1);
           n = spaces_from (sc_buf s) line_start (sc_pos s)
       in int n > sc_indent s)"

section \<open>What is kept while the cursor moves\<close>

definition same_struct :: "oyl_scanner \<Rightarrow> oyl_scanner \<Rightarrow> bool" where
  "same_struct s s' \<longleftrightarrow>
     sc_buf s' = sc_buf s \<and> sc_begin s' = sc_begin s \<and> sc_flow_level s' = sc_flow_level s \<and>
     sc_indent s' = sc_indent s \<and> sc_indents s' = sc_indents s \<and> sc_indents_cap s' = sc_indents_cap s \<and>
     sc_stream_started s' = sc_stream_started s \<and> sc_stream_ended s' = sc_stream_ended s \<and>
     sc_pending s' = sc_pending s \<and> sc_flows s' = sc_flows s \<and> sc_flows_cap s' = sc_flows_cap s \<and>
     sc_explicit_key s' = sc_explicit_key s \<and> sc_explicit_depth s' = sc_explicit_depth s \<and>
     sc_sse42 s' = sc_sse42 s"

text \<open>
  The cursor is inside the buffer, and the column leads back to an offset of the buffer (so that
  \<open>pos - (col - 1)\<close> does not wrap around).
\<close>

definition cursor_ok :: "oyl_scanner \<Rightarrow> bool" where
  "cursor_ok s \<longleftrightarrow> sc_pos s \<le> length (sc_buf s) \<and> sc_begin s \<le> sc_pos s \<and> 1 \<le> sc_col s \<and>
     sc_col s \<le> sc_pos s + 1 \<and> 1 \<le> sc_line s"

definition moves :: "oyl_scanner \<Rightarrow> oyl_scanner \<Rightarrow> bool" where
  "moves s s' \<longleftrightarrow> same_struct s s' \<and> sc_pos s \<le> sc_pos s' \<and> (cursor_ok s \<longrightarrow> cursor_ok s')"

lemma same_struct_refl [simp, intro]: "same_struct s s"
  by (simp add: same_struct_def)

lemma same_struct_trans: "same_struct s t \<Longrightarrow> same_struct t u \<Longrightarrow> same_struct s u"
  by (simp add: same_struct_def)

lemma moves_refl [simp, intro]: "moves s s"
  by (simp add: moves_def)

lemma moves_trans [trans]: "moves s t \<Longrightarrow> moves t u \<Longrightarrow> moves s u"
  using same_struct_trans by (auto simp: moves_def)

lemma moves_buf [scan_frame]: "moves s s' \<Longrightarrow> sc_buf s' = sc_buf s"
  by (simp add: moves_def same_struct_def)

lemma moves_pos: "moves s s' \<Longrightarrow> sc_pos s \<le> sc_pos s'"
  by (simp add: moves_def)

lemma moves_cursor: "moves s s' \<Longrightarrow> cursor_ok s \<Longrightarrow> cursor_ok s'"
  by (simp add: moves_def)

lemma moves_struct: "moves s s' \<Longrightarrow> same_struct s s'"
  by (simp add: moves_def)

lemma advance1_moves: "moves s (advance1 s)"
  by (auto simp: moves_def same_struct_def cursor_ok_def advance1_def)

lemma advance_moves [intro]: "moves s (advance s n)"
  by (induction s n rule: advance.induct) (auto intro: moves_trans advance1_moves)

lemma advance_cols_moves: "n \<le> REMAINING s \<Longrightarrow> moves s (advance_cols s n)"
  by (auto simp: moves_def same_struct_def cursor_ok_def advance_cols_def REMAINING_def)

lemma skip_break_moves [intro]: "moves s (skip_break s)"
  by (auto simp: moves_def same_struct_def cursor_ok_def skip_break_def Let_def)

lemma length_BUF_AT [simp]: "length (BUF_AT s) = REMAINING s"
  by (simp add: BUF_AT_def REMAINING_def)

lemma advance_pos: "sc_pos (advance s n) = sc_pos s + min n (REMAINING s)"
proof (induction s n rule: advance.induct)
  case (1 s)
  then show ?case by simp
next
  case (2 s n)
  then show ?case by (auto simp: advance1_def REMAINING_def)
qed

lemma advance_1: "advance s 1 = advance1 s" "advance s (Suc 0) = advance1 s"
  by simp_all

lemma advance1_pos: "\<not> AT_END s \<Longrightarrow> sc_pos (advance1 s) = sc_pos s + 1"
  by (auto simp: advance1_def AT_END_def)

lemma skip_break_pos:
  "oyl_is_break (PEEK s) \<Longrightarrow> sc_pos s < sc_pos (skip_break s) \<and> \<not> AT_END s"
  by (auto simp: skip_break_def PEEK_def AT_END_def char_class Let_def split: if_splits)

lemma PEEK_not_end: "PEEK s \<noteq> 0 \<Longrightarrow> \<not> AT_END s"
  by (simp add: PEEK_def AT_END_def split: if_splits)

lemma skip_blanks_le [simp]: "oyl_skip_blanks b (BUF_AT s) \<le> REMAINING s"
  using blanks.scan_le [of b "BUF_AT s"] by simp

lemma to_break_le [simp]: "oyl_scan_to_break b (BUF_AT s) \<le> REMAINING s"
  using breaks.scan_le [of b "BUF_AT s"] by simp

section \<open>Blanks and comments\<close>

text \<open>
  The loop of \<open>skip_blanks_and_comments\<close>; \<open>ls\<close> is \<open>line_start\<close>, \<open>None\<close> for \<open>SIZE_MAX\<close>. The first
  component is the error message, if any.
\<close>

definition skip_comment :: "oyl_scanner \<Rightarrow> oyl_scanner" where
  "skip_comment s =
    (if PEEK s = HASH then advance_cols s (oyl_scan_to_break (sc_sse42 s) (BUF_AT s)) else s)"

definition skip_blanks :: "oyl_scanner \<Rightarrow> oyl_scanner" where
  "skip_blanks s = advance_cols s (oyl_skip_blanks (sc_sse42 s) (BUF_AT s))"

lemma skip_blanks_moves: "moves s (skip_blanks s)"
  by (simp add: skip_blanks_def advance_cols_moves)

lemma skip_comment_moves: "moves s (skip_comment s)"
  by (simp add: skip_comment_def advance_cols_moves)

function skip_loop :: "oyl_scanner \<Rightarrow> nat option \<Rightarrow> string option \<times> oyl_scanner \<times> nat option" where
  "skip_loop s ls =
    (let s1 = skip_blanks s
     in if PEEK s1 = HASH \<and> sc_pos s1 > sc_begin s1 \<and>
           \<not> oyl_is_blank_or_break (sc_buf s1 ! (sc_pos s1 - 1))
        then (Some ''comment must be separated from other tokens by whitespace'', s1, ls)
        else let s2 = skip_comment s1
             in if oyl_is_break (PEEK s2)
                then skip_loop (skip_break s2) (Some (sc_pos (skip_break s2)))
                else (None, s2, ls))"
  by pat_completeness auto
termination
proof (relation "measure (\<lambda>(s, ls). REMAINING s)", goal_cases)
  case (2 s ls s1 s2)
  have m: "moves s s2" unfolding 2 by (rule moves_trans [OF skip_blanks_moves skip_comment_moves])
  from skip_break_pos [OF 2(4)] have "sc_pos s2 < sc_pos (skip_break s2)" "\<not> AT_END s2" by simp_all
  moreover have "sc_buf (skip_break s2) = sc_buf s2" using skip_break_moves moves_buf by blast
  ultimately show ?case
    using moves_pos [OF m] moves_buf [OF m] by (auto simp: REMAINING_def AT_END_def)
qed auto

declare skip_loop.simps [simp del]

definition skip_blanks_and_comments :: "oyl_scanner \<Rightarrow> string option \<times> oyl_scanner" where
  "skip_blanks_and_comments s =
    (let (err, s, ls) = skip_loop s (if sc_col s = 1 then Some (sc_pos s) else None)
     in case err of
          Some msg \<Rightarrow> (Some msg, s)
        | None \<Rightarrow>
           (case ls of
              None \<Rightarrow> (None, s)
            | Some line_start \<Rightarrow>
               if sc_flow_level s > 0 \<and> \<not> AT_END s \<and>
                  sc_buf s ! sc_pos s \<noteq> RBRACK \<and> sc_buf s ! sc_pos s \<noteq> RBRACE \<and>
                  \<not> continuation_indent_ok s 0
               then (Some ''flow collection content must be indented more than the enclosing block'', s)
               else if sc_flow_level s = 0 \<and> \<not> AT_END s then
                 (let spaces = spaces_from (sc_buf s) line_start (sc_pos s)
                  in if line_start + spaces < sc_pos s \<and> int spaces \<le> sc_indent s
                     then (Some ''tabs are not allowed as indentation'', s)
                     else (None, s))
               else (None, s)))"

lemma skip_loop_moves: "skip_loop s ls = (err, s', ls') \<Longrightarrow> moves s s'"
proof (induction s ls arbitrary: err s' ls' rule: skip_loop.induct)
  case (1 s ls)
  have m1: "moves s (skip_blanks s)" by (rule skip_blanks_moves)
  have m2: "moves s (skip_comment (skip_blanks s))" by (rule moves_trans [OF m1 skip_comment_moves])
  show ?case
    using 1(2) m1 m2 "1.IH" [OF refl _ refl] moves_trans [OF m2 skip_break_moves]
    by (auto simp: skip_loop.simps [of s ls] Let_def intro: moves_trans split: if_splits)
qed

lemma skip_blanks_and_comments_moves: "skip_blanks_and_comments s = (err, s') \<Longrightarrow> moves s s'"
  by (auto simp: skip_blanks_and_comments_def Let_def dest: skip_loop_moves
      split: prod.splits option.splits if_splits)


section \<open>Flow brackets and nodes\<close>

definition only_blanks_between :: "oyl_scanner \<Rightarrow> nat \<Rightarrow> nat \<Rightarrow> bool" where
  "only_blanks_between s from to =
    (if from = SIZE_MAX \<or> from > to then False
     else list_all (\<lambda>c. c = SP \<or> c = TAB) (sub_buf (sc_buf s) from (to - from)))"

definition flow_push :: "oyl_scanner \<Rightarrow> bool \<Rightarrow> bool \<times> oyl_scanner" where
  "flow_push s is_map =
    (let (ok, s) =
       (if sc_flows_cap s \<le> length (sc_flows s) then
          let nc = (if sc_flows_cap s \<noteq> 0 then sc_flows_cap s * 2 else 16);
              (ok, m) = mem_take (sc_mem s)
          in if \<not> ok then (False, s\<lparr>sc_mem := m\<rparr>)
             else (True, s\<lparr>sc_flows_cap := nc, sc_mem := m\<rparr>)
        else (True, s))
     in if \<not> ok then (False, s)
        else (True, s\<lparr>sc_flows :=
          \<lparr>fe_open = mark s, fe_is_map = is_map,
           fe_props_col = (if only_blanks_between s (sc_props_end s) (sc_pos s)
                           then sc_props_col s else - 1)\<rparr> # sc_flows s\<rparr>))"

definition flow_pop :: "oyl_scanner \<Rightarrow> oyl_mark \<times> oyl_scanner" where
  "flow_pop s =
    (case sc_flows s of
       [] \<Rightarrow> (mark s, s)
     | f # fs \<Rightarrow>
        (let s = (if sc_explicit_key s \<and> sc_explicit_depth s \<ge> length (sc_flows s)
                  then s\<lparr>sc_explicit_key := False\<rparr> else s);
             s = s\<lparr>sc_flows := fs\<rparr>;
             s = (if fe_props_col f \<ge> 0
                  then s\<lparr>sc_props_col := fe_props_col f, sc_props_end := mk_offset (fe_open f)\<rparr>
                  else s)
         in (fe_open f, s)))"

definition note_node :: "oyl_scanner \<Rightarrow> oyl_mark \<Rightarrow> nat \<Rightarrow> oyl_scanner" where
  "note_node s start e = s\<lparr>sc_node_line := mk_line start, sc_node_start := mk_offset start,
     sc_node_col := int (mk_col start) - 1, sc_node_end := e\<rparr>"

definition note_props :: "oyl_scanner \<Rightarrow> oyl_mark \<Rightarrow> nat \<Rightarrow> oyl_scanner" where
  "note_props s start e =
    (let s = (if \<not> only_blanks_between s (sc_props_end s) (mk_offset start)
              then s\<lparr>sc_props_col := int (mk_col start) - 1\<rparr> else s)
     in s\<lparr>sc_props_end := e\<rparr>)"

text \<open>The bytes from the indicator to \<open>at\<close> are blanks, and one of them is a tab.\<close>

definition tab_after_indicator :: "oyl_scanner \<Rightarrow> nat \<Rightarrow> bool" where
  "tab_after_indicator s at =
    (if sc_indicator_end s = SIZE_MAX \<or> sc_indicator_end s > at then False
     else let gap = sub_buf (sc_buf s) (sc_indicator_end s) (at - sc_indicator_end s)
          in if list_all (\<lambda>c. c = TAB \<or> c = SP) gap then TAB \<in> set gap else False)"

datatype colon_kind = COLON_IMPLICIT | COLON_EXPLICIT | COLON_BAD_KEY

text \<open>The loops "while k > lo and the byte before k satisfies p: k--".\<close>

fun back_while :: "(byte \<Rightarrow> bool) \<Rightarrow> byte list \<Rightarrow> nat \<Rightarrow> nat \<Rightarrow> nat" where
  "back_while p buf lo 0 = 0"
| "back_while p buf lo (Suc k) = (if lo < Suc k \<and> p (buf ! k) then back_while p buf lo k else Suc k)"

definition starts_its_line :: "oyl_scanner \<Rightarrow> bool" where
  "starts_its_line s =
    (let k = back_while (\<lambda>c. c = SP \<or> c = TAB) (sc_buf s) 0 (sc_pos s)
     in k = sc_begin s \<or> sc_buf s ! (k - 1) = LF \<or> sc_buf s ! (k - 1) = CR)"

definition classify_colon :: "oyl_scanner \<Rightarrow> colon_kind \<times> oyl_scanner" where
  "classify_colon s =
    (if sc_flows s = [] \<and> starts_its_line s then (COLON_EXPLICIT, s\<lparr>sc_explicit_key := False\<rparr>)
     else if sc_flows s \<noteq> [] \<and> sc_explicit_key s \<and> sc_explicit_depth s = length (sc_flows s)
     then (COLON_EXPLICIT, s\<lparr>sc_explicit_key := False\<rparr>)
     else if sc_node_end s > sc_pos s \<or> sc_node_line s \<ge> sc_line s then (COLON_IMPLICIT, s)
     else if sc_flows s \<noteq> [] \<and> fe_is_map (hd (sc_flows s)) then (COLON_IMPLICIT, s)
     else let in_seq = (sc_flows s \<noteq> []);
              j = back_while (\<lambda>c. c = SP \<or> c = TAB \<or> in_seq \<and> (c = LF \<or> c = CR))
                    (sc_buf s) (sc_node_end s) (sc_pos s)
          in (if j = sc_node_end s then COLON_BAD_KEY else COLON_IMPLICIT, s))"

section \<open>Indentation\<close>

definition indent_push :: "oyl_scanner \<Rightarrow> int \<Rightarrow> bool \<times> oyl_scanner" where
  "indent_push s col =
    (let (ok, s) =
       (if sc_indents_cap s \<le> length (sc_indents s) then
          let (ok, m) = mem_take (sc_mem s)
          in if \<not> ok then (False, s\<lparr>sc_mem := m\<rparr>)
             else (True, s\<lparr>sc_indents_cap := sc_indents_cap s * 2, sc_mem := m\<rparr>)
        else (True, s))
     in if \<not> ok then (False, s)
        else (True, s\<lparr>sc_indents := sc_indent s # sc_indents s, sc_indent := col\<rparr>))"

definition indent_pop :: "oyl_scanner \<Rightarrow> oyl_scanner" where
  "indent_pop s =
    (case sc_indents s of [] \<Rightarrow> s | d # ds \<Rightarrow> s\<lparr>sc_indent := d, sc_indents := ds\<rparr>)"

text \<open>
  \<open>while (indent > col) indent_pop\<close>. With an empty stack the pop does nothing, so the loop would
  not end: that is \<open>None\<close>, and the scanner's invariant excludes it.
\<close>

fun unroll_from :: "oyl_scanner \<Rightarrow> int \<Rightarrow> int list \<Rightarrow> oyl_scanner option" where
  "unroll_from s col [] = (if sc_indent s > col then None else Some s)"
| "unroll_from s col (d # ds) =
    (if sc_indent s > col then unroll_from (indent_pop s) col ds else Some s)"

definition maybe_unroll_indents :: "oyl_scanner \<Rightarrow> int \<Rightarrow> oyl_scanner option" where
  "maybe_unroll_indents s col = unroll_from s col (sc_indents s)"

section \<open>Tokens and document markers\<close>

definition tok_simple :: "oyl_token_type \<Rightarrow> oyl_mark \<Rightarrow> oyl_mark \<Rightarrow> oyl_token" where
  "tok_simple t start e = \<lparr>tok_type = t, tok_value = None, tok_style = OYL_SCALAR_PLAIN,
     tok_start = start, tok_end = e\<rparr>"

definition tok_scalar :: "byte list \<Rightarrow> oyl_scalar_style \<Rightarrow> oyl_mark \<Rightarrow> oyl_mark \<Rightarrow> oyl_token" where
  "tok_scalar v style start e = \<lparr>tok_type = OYL_TOK_SCALAR, tok_value = Some v, tok_style = style,
     tok_start = start, tok_end = e\<rparr>"

definition is_doc_indicator_at :: "byte list \<Rightarrow> nat \<Rightarrow> bool" where
  "is_doc_indicator_at buf p =
    (if p + 3 > length buf then False
     else let c = buf ! p
          in if c \<noteq> DASH \<and> c \<noteq> DOT then False
             else if buf ! (p + 1) \<noteq> c \<or> buf ! (p + 2) \<noteq> c then False
             else if p + 3 = length buf then True
             else oyl_is_blank_or_break (buf ! (p + 3)))"

definition at_doc_indicator :: "oyl_scanner \<Rightarrow> byte \<Rightarrow> bool" where
  "at_doc_indicator s ch =
    (if sc_col s \<noteq> 1 then False
     else if REMAINING s < 3 then False
     else sc_buf s ! sc_pos s = ch \<and> sc_buf s ! (sc_pos s + 1) = ch \<and> sc_buf s ! (sc_pos s + 2) = ch \<and>
          (REMAINING s = 3 \<or> oyl_is_blank_or_break (PEEK_AT s 3)))"

section \<open>Creating and copying a scanner\<close>

abbreviation no_mark :: oyl_mark where
  "no_mark \<equiv> \<lparr>mk_offset = 0, mk_line = 0, mk_col = 0\<rparr>"

definition oyl_scanner_new :: "mem \<Rightarrow> bool \<Rightarrow> byte list \<Rightarrow> oyl_scanner option" where
  "oyl_scanner_new m sse42 input =
    (let (ok1, m) = mem_take m
     in if \<not> ok1 then None
        else
          let start = (if length input \<ge> 3 \<and> input ! 0 = 0xEF \<and> input ! 1 = 0xBB \<and> input ! 2 = 0xBF
                       then 3 else 0);
              (ok2, m) = mem_take m
          in if \<not> ok2 then None
             else Some
               \<lparr>sc_buf = input, sc_begin = start, sc_pos = start, sc_line = 1, sc_col = 1,
                sc_flow_level = 0, sc_indent = - 1, sc_indents = [], sc_indents_cap = 16,
                sc_stream_started = False, sc_stream_ended = False, sc_pending = [],
                sc_last_token_col = 0, sc_last_was_quoted = False, sc_flows = [], sc_flows_cap = 0,
                sc_node_line = 0, sc_node_end = SIZE_MAX, sc_explicit_key = False,
                sc_explicit_depth = 0, sc_key_colon_line = 0, sc_node_start = 0, sc_node_col = 0,
                sc_props_end = SIZE_MAX, sc_props_col = 0, sc_indicator_end = SIZE_MAX,
                sc_error_msg = '''', sc_error_mark = no_mark, sc_mem = m, sc_sse42 = sse42\<rparr>)"

text \<open>
  The copy keeps the destination's arrays, so their capacities, and its arena; the arena of both
  is the same one, so the oracle goes on.
\<close>

definition oyl_scanner_copy :: "oyl_scanner \<Rightarrow> oyl_scanner \<Rightarrow> bool \<times> oyl_scanner" where
  "oyl_scanner_copy dst src =
    (let (ok, dst) =
       (if sc_indents_cap dst < length (sc_indents src) then
          let (ok, m) = mem_take (sc_mem dst)
          in if \<not> ok then (False, dst\<lparr>sc_mem := m\<rparr>)
             else (True, dst\<lparr>sc_indents_cap := sc_indents_cap src, sc_mem := m\<rparr>)
        else (True, dst))
     in if \<not> ok then (False, dst)
        else let (ok, dst) =
          (if sc_flows_cap dst < length (sc_flows src) then
             let (ok, m) = mem_take (sc_mem dst)
             in if \<not> ok then (False, dst\<lparr>sc_mem := m\<rparr>)
                else (True, dst\<lparr>sc_flows_cap := sc_flows_cap src, sc_mem := m\<rparr>)
           else (True, dst))
        in if \<not> ok then (False, dst)
           else (True, src\<lparr>sc_indents_cap := sc_indents_cap dst, sc_flows_cap := sc_flows_cap dst,
                          sc_mem := sc_mem dst\<rparr>))"

definition oyl_scanner_error :: "oyl_scanner option \<Rightarrow> string option" where
  "oyl_scanner_error s =
    (case s of None \<Rightarrow> None
     | Some s \<Rightarrow> if sc_error_msg s = '''' then None else Some (sc_error_msg s))"

definition oyl_scanner_error_mark :: "oyl_scanner option \<Rightarrow> oyl_mark" where
  "oyl_scanner_error_mark s = (case s of None \<Rightarrow> no_mark | Some s \<Rightarrow> sc_error_mark s)"


section \<open>Line breaks inside a flow scalar\<close>

text \<open>
  Specification of the loops over the breaks of a multi-line flow scalar (there is one for plain
  and one for quoted scalars): skip the blanks exactly, byte by byte, and count the breaks.
\<close>

definition skip_white :: "oyl_scanner \<Rightarrow> oyl_scanner" where
  "skip_white s = advance_cols s (scan_until (\<lambda>c. c \<noteq> SP \<and> c \<noteq> TAB) (BUF_AT s))"

lemma skip_blanks_exact: "skip_blanks s = skip_white s"
  by (simp add: skip_blanks_def skip_white_def oyl_skip_blanks_eq)

lemma skip_white_moves: "moves s (skip_white s)"
  using skip_blanks_moves [of s] by (simp add: skip_blanks_exact)

lemma REMAINING_less: "moves s s' \<Longrightarrow> sc_pos s < sc_pos s' \<Longrightarrow> \<not> AT_END s \<Longrightarrow> REMAINING s' < REMAINING s"
  using moves_buf [of s s'] by (auto simp: REMAINING_def AT_END_def)

lemma break_blanks_less:
  assumes "oyl_is_break (PEEK s)"
  shows "moves s (skip_white (skip_break s))" and "sc_pos s < sc_pos (skip_white (skip_break s))"
    and "REMAINING (skip_white (skip_break s)) < REMAINING s"
proof -
  show m: "moves s (skip_white (skip_break s))"
    using skip_break_moves skip_white_moves moves_trans by blast
  show p: "sc_pos s < sc_pos (skip_white (skip_break s))"
    using skip_break_pos [OF assms] moves_pos [OF skip_white_moves, of "skip_break s"] by simp
  show "REMAINING (skip_white (skip_break s)) < REMAINING s"
    by (rule REMAINING_less [OF m p]) (use skip_break_pos [OF assms] in simp)
qed

function spec_breaks :: "oyl_scanner \<Rightarrow> nat \<Rightarrow> oyl_scanner \<times> nat" where
  "spec_breaks s n =
    (if oyl_is_break (PEEK s) then spec_breaks (skip_white (skip_break s)) (n + 1) else (s, n))"
  by pat_completeness auto
termination
  by (relation "measure (\<lambda>(s, n). REMAINING s)") (auto intro: break_blanks_less(3))

declare spec_breaks.simps [simp del]

text \<open>One break is a space, more are one break less.\<close>

definition folded :: "nat \<Rightarrow> byte list" where
  "folded n = (if n = 1 then [SP] else replicate (n - 1) LF)"

lemma spec_breaks_moves: "spec_breaks s n = (s', k) \<Longrightarrow> moves s s' \<and> n \<le> k"
proof (induction s n arbitrary: s' k rule: spec_breaks.induct)
  case (1 s n)
  show ?case
    using 1 break_blanks_less(1) [of s] moves_trans
    by (cases "oyl_is_break (PEEK s)") (fastforce simp: spec_breaks.simps [of s])+
qed

lemma spec_breaks_pos:
  assumes "spec_breaks s n = (s', k)" and "oyl_is_break (PEEK s)"
  shows "sc_pos s < sc_pos s'" and "n < k"
proof -
  have "spec_breaks (skip_white (skip_break s)) (n + 1) = (s', k)"
    using assms by (simp add: spec_breaks.simps [of s])
  from spec_breaks_moves [OF this] break_blanks_less(2) [OF assms(2)]
  show "sc_pos s < sc_pos s'" "n < k" using moves_pos by fastforce+
qed

lemma break_not_end: "oyl_is_break (PEEK s) \<Longrightarrow> \<not> AT_END s"
  using PEEK_not_end by (auto simp: char_class)

text \<open>Every loop that skips a break and then the blanks is this one.\<close>

lemma breaks_eqI:
  assumes "\<And>s n. f s n = (if \<not> AT_END s \<and> oyl_is_break (PEEK s)
      then f (g (skip_break s)) (n + 1) else (s, n))" and "\<And>s. g s = skip_white s"
  shows "f s n = spec_breaks s n"
proof (induction s n rule: spec_breaks.induct)
  case (1 s n)
  then show ?case
    using break_not_end [of s] by (subst assms(1)) (auto simp: assms(2) spec_breaks.simps [of s])
qed

end
