(* ===== verification/OylScanPlain.thy ===== *)
theory OylScanPlain
  imports OylScanState
begin

text \<open>
  \<open>scan_plain_scalar\<close> of \<open>src/src/oyl_scanner.c\<close>. The value is a slice of the input as long as
  the scalar stays on one line (\<open>pb_in_buf\<close> is false, \<open>pb_single\<close> its length), and is copied to a
  growing buffer of the arena when it goes on to another line. \<open>pb_buf\<close> is the written part
  \<open>buf[0..out)\<close> of that buffer and \<open>pb_cap\<close> its capacity.

  The loop is a step function, which either goes on, ends the scalar, or fails, and its iteration,
  which ends because every step that goes on consumes input.
\<close>

section \<open>The output\<close>

record plain_buf =
  pb_in_buf :: bool
  pb_single :: nat
  pb_buf :: "byte list"
  pb_cap :: nat

text \<open>
  The operations return \<open>None\<close> when the arena has no memory. In slice mode only the length grows.
\<close>

definition grow_buf :: "oyl_scanner \<Rightarrow> plain_buf \<Rightarrow> nat \<Rightarrow> plain_buf option \<times> oyl_scanner" where
  "grow_buf s b n =
    (if length (pb_buf b) + n \<ge> pb_cap b then
       let (ok, m) = mem_take (sc_mem s); s = s\<lparr>sc_mem := m\<rparr>
       in if \<not> ok then (None, s)
          else (Some (b\<lparr>pb_cap := (length (pb_buf b) + n) * 2 + 64\<rparr>), s)
     else (Some b, s))"

definition APPEND_RUN :: "oyl_scanner \<Rightarrow> plain_buf \<Rightarrow> byte list \<Rightarrow> plain_buf option \<times> oyl_scanner" where
  "APPEND_RUN s b xs =
    (if pb_in_buf b then
       let (r, s) = grow_buf s b (length xs)
       in (map_option (\<lambda>b. b\<lparr>pb_buf := pb_buf b @ xs\<rparr>) r, s)
     else (Some (b\<lparr>pb_single := pb_single b + length xs\<rparr>), s))"

definition APPEND_CHAR :: "oyl_scanner \<Rightarrow> plain_buf \<Rightarrow> byte \<Rightarrow> plain_buf option \<times> oyl_scanner" where
  "APPEND_CHAR s b ch =
    (if pb_in_buf b then
       let (r, s) = grow_buf s b 1
       in (map_option (\<lambda>b. b\<lparr>pb_buf := pb_buf b @ [ch]\<rparr>) r, s)
     else (Some (b\<lparr>pb_single := pb_single b + 1\<rparr>), s))"

fun APPEND_CHARS :: "oyl_scanner \<Rightarrow> plain_buf \<Rightarrow> byte \<Rightarrow> nat \<Rightarrow> plain_buf option \<times> oyl_scanner" where
  "APPEND_CHARS s b ch 0 = (Some b, s)"
| "APPEND_CHARS s b ch (Suc n) =
    (case APPEND_CHAR s b ch of
       (None, s) \<Rightarrow> (None, s)
     | (Some b, s) \<Rightarrow> APPEND_CHARS s b ch n)"

text \<open>The slice starts at offset \<open>start\<close> of the input.\<close>

definition single_data :: "oyl_scanner \<Rightarrow> nat \<Rightarrow> plain_buf \<Rightarrow> byte list" where
  "single_data s start b = sub_buf (sc_buf s) start (pb_single b)"

definition cur_data :: "oyl_scanner \<Rightarrow> nat \<Rightarrow> plain_buf \<Rightarrow> byte list" where
  "cur_data s start b = (if pb_in_buf b then pb_buf b else single_data s start b)"

definition SWITCH_TO_BUF :: "oyl_scanner \<Rightarrow> nat \<Rightarrow> plain_buf \<Rightarrow> plain_buf option \<times> oyl_scanner" where
  "SWITCH_TO_BUF s start b =
    (if \<not> pb_in_buf b then
       let (ok, m) = mem_take (sc_mem s); s = s\<lparr>sc_mem := m\<rparr>
       in if \<not> ok then (None, s)
          else (Some (b\<lparr>pb_cap := pb_single b * 2 + 256, pb_buf := single_data s start b,
                        pb_in_buf := True\<rparr>), s)
     else (Some b, s))"

definition rtrim :: "byte list \<Rightarrow> byte list" where
  "rtrim xs = rev (dropWhile (\<lambda>c. c = SP \<or> c = TAB) (rev xs))"

definition TRIM_TRAILING :: "oyl_scanner \<Rightarrow> nat \<Rightarrow> plain_buf \<Rightarrow> plain_buf" where
  "TRIM_TRAILING s start b =
    (if pb_in_buf b then b\<lparr>pb_buf := rtrim (pb_buf b)\<rparr>
     else b\<lparr>pb_single := length (rtrim (single_data s start b))\<rparr>)"

section \<open>One step of the loop\<close>

datatype plain_result =
    PlainMore oyl_scanner plain_buf
  | PlainDone oyl_scanner plain_buf
  | PlainFail oyl_status oyl_scanner

text \<open>After an append: out of memory, or on with \<open>f\<close>.\<close>

definition appended ::
    "plain_buf option \<times> oyl_scanner \<Rightarrow> (plain_buf \<Rightarrow> oyl_scanner \<Rightarrow> plain_result) \<Rightarrow> plain_result" where
  "appended r f = (case r of (None, s) \<Rightarrow> PlainFail OYL_ERR_MEMORY s | (Some b, s) \<Rightarrow> f b s)"

definition plain_colon :: "oyl_scanner \<Rightarrow> plain_buf \<Rightarrow> plain_result" where
  "plain_colon s b =
    (let next = PEEK_AT s 1
     in if \<not> oyl_is_blank_or_break next \<and> next \<noteq> 0 \<and> \<not> (sc_flow_level s > 0 \<and> oyl_is_flow next)
        then appended (APPEND_CHAR s b COLON) (\<lambda>b s. PlainMore (advance s 1) b)
        else PlainDone s b)"

definition plain_hash :: "oyl_scanner \<Rightarrow> nat \<Rightarrow> plain_buf \<Rightarrow> plain_result" where
  "plain_hash s start b =
    (let cur = cur_data s start b
     in if cur \<noteq> [] \<and> (last cur = SP \<or> last cur = TAB) then PlainDone s (TRIM_TRAILING s start b)
        else if cur = [] then PlainDone s b
        else appended (APPEND_CHAR s b HASH) (\<lambda>b s. PlainMore (advance s 1) b))"

definition plain_blanks :: "oyl_scanner \<Rightarrow> plain_buf \<Rightarrow> plain_result" where
  "plain_blanks s b =
    (let blank_run = oyl_skip_blanks (sc_sse42 s) (BUF_AT s);
         blanks = take blank_run (BUF_AT s);
         s = advance_cols s blank_run
     in if AT_END s then PlainDone s b
        else if oyl_is_break (PEEK s) then PlainMore s b
        else appended (APPEND_RUN s b blanks) (\<lambda>b s. PlainMore s b))"

text \<open>The breaks, and the blanks after each, and how many breaks there were.\<close>

function plain_breaks :: "oyl_scanner \<Rightarrow> nat \<Rightarrow> oyl_scanner \<times> nat" where
  "plain_breaks s n =
    (if \<not> AT_END s \<and> oyl_is_break (PEEK s) then plain_breaks (skip_blanks (skip_break s)) (n + 1)
     else (s, n))"
  by pat_completeness auto
termination
proof (relation "measure (\<lambda>(s, n). REMAINING s)", goal_cases)
  case (2 s n)
  have m: "moves (skip_break s) (skip_blanks (skip_break s))" by (rule skip_blanks_moves)
  have "sc_buf (skip_break s) = sc_buf s" using skip_break_moves moves_buf by blast
  with moves_pos [OF m] moves_buf [OF m] skip_break_pos [of s] 2 show ?case
    by (auto simp: REMAINING_def AT_END_def)
qed auto

declare plain_breaks.simps [simp del]

text \<open>Does the line the cursor is at, after breaks and blanks, end the scalar?\<close>

definition blank_or_end :: "byte \<Rightarrow> bool" where
  "blank_or_end c \<longleftrightarrow> oyl_is_blank_or_break c \<or> c = 0"

definition plain_line_ends :: "oyl_scanner \<Rightarrow> bool" where
  "plain_line_ends s =
    (let next_indent = int (sc_col s) - 1;
         min_indent = (if sc_indent s + 1 < 0 then 0 else sc_indent s + 1);
         nc = PEEK s
     in next_indent < min_indent \<or>
        ((nc = DASH \<or> nc = QMARK) \<and> (sc_indent s < 0 \<or> next_indent \<le> sc_indent s) \<and>
          blank_or_end (PEEK_AT s 1)) \<or>
        (nc = COLON \<and> blank_or_end (PEEK_AT s 1)) \<or>
        nc = HASH \<or>
        ((nc = AMP \<or> nc = STAR) \<and> next_indent \<le> sc_indent s + (if sc_indent s < 0 then 1 else 0)) \<or>
        (sc_col s = 1 \<and> REMAINING s \<ge> 3 \<and>
          (nc = DASH \<and> PEEK_AT s 1 = DASH \<and> PEEK_AT s 2 = DASH \<or>
           nc = DOT \<and> PEEK_AT s 1 = DOT \<and> PEEK_AT s 2 = DOT) \<and>
          (REMAINING s = 3 \<or> oyl_is_blank_or_break (PEEK_AT s 3))))"

definition plain_break :: "oyl_scanner \<Rightarrow> nat \<Rightarrow> plain_buf \<Rightarrow> plain_result" where
  "plain_break s start b =
    (let (s', break_count) = plain_breaks s 0
     in if AT_END s' \<or> plain_line_ends s' then PlainDone s b
        else appended (SWITCH_TO_BUF s' start (TRIM_TRAILING s' start b))
          (\<lambda>b s'. appended
             (if break_count = 1 then APPEND_CHAR s' b SP else APPEND_CHARS s' b LF (break_count - 1))
             (\<lambda>b s'. PlainMore s' b)))"

definition plain_char :: "oyl_scanner \<Rightarrow> nat \<Rightarrow> plain_buf \<Rightarrow> plain_result" where
  "plain_char s start b =
    (let c = PEEK s
     in if c = COLON then plain_colon s b
        else if c = HASH then plain_hash s start b
        else if sc_flow_level s > 0 \<and> oyl_is_flow c then PlainDone s b
        else if oyl_is_blank c then plain_blanks s b
        else if oyl_is_break c then plain_break s start b
        else if c < 0x20 \<or> c = DEL then
          PlainFail OYL_ERR_SCAN (snd (scan_error s ''control character in plain scalar''
            :: (oyl_status + oyl_token) \<times> oyl_scanner))
        else appended (APPEND_CHAR s b c) (\<lambda>b s. PlainMore (advance s 1) b))"

definition plain_step :: "oyl_scanner \<Rightarrow> nat \<Rightarrow> plain_buf \<Rightarrow> plain_result" where
  "plain_step s start b =
    (let run = oyl_scan_plain_scalar (sc_sse42 s) (BUF_AT s)
     in appended (if run > 0 then APPEND_RUN s b (take run (BUF_AT s)) else (Some b, s))
          (\<lambda>b s. let s = advance_cols s run
                 in if AT_END s then PlainDone s b else plain_char s start b))"

section \<open>Every step moves the cursor\<close>

lemma mem_update_moves: "moves s (s\<lparr>sc_mem := m\<rparr>)"
  by (auto simp: moves_def same_struct_def cursor_ok_def)

lemma error_moves: "moves s (s\<lparr>sc_error_msg := e, sc_error_mark := k\<rparr>)"
  by (auto simp: moves_def same_struct_def cursor_ok_def)

definition mem_only :: "oyl_scanner \<Rightarrow> oyl_scanner \<Rightarrow> bool" where
  "mem_only s s' \<longleftrightarrow> s' = s\<lparr>sc_mem := sc_mem s'\<rparr>"

lemma mem_only_refl [simp]: "mem_only s s"
  by (simp add: mem_only_def)

lemma mem_only_update [simp]: "mem_only s (s\<lparr>sc_mem := m\<rparr>)"
  by (simp add: mem_only_def)

lemma mem_only_trans: "mem_only s t \<Longrightarrow> mem_only t u \<Longrightarrow> mem_only s u"
  by (metis mem_only_def oyl_scanner.surjective oyl_scanner.update_convs(29))

lemma mem_only_eqs:
  assumes "mem_only s s'"
  shows "moves s s'" "sc_pos s' = sc_pos s" "sc_buf s' = sc_buf s" "PEEK s' = PEEK s" "AT_END s' = AT_END s"
    "REMAINING s' = REMAINING s" "BUF_AT s' = BUF_AT s" "PEEK_AT s' n = PEEK_AT s n"
    "sc_flow_level s' = sc_flow_level s" "sc_sse42 s' = sc_sse42 s" "sc_col s' = sc_col s"
    "sc_line s' = sc_line s" "sc_indent s' = sc_indent s"
proof -
  obtain m where "s' = s\<lparr>sc_mem := m\<rparr>" using assms mem_only_def by blast
  then show "moves s s'" "sc_pos s' = sc_pos s" "sc_buf s' = sc_buf s" "PEEK s' = PEEK s" "AT_END s' = AT_END s"
    "REMAINING s' = REMAINING s" "BUF_AT s' = BUF_AT s" "PEEK_AT s' n = PEEK_AT s n"
    "sc_flow_level s' = sc_flow_level s" "sc_sse42 s' = sc_sse42 s" "sc_col s' = sc_col s"
    "sc_line s' = sc_line s" "sc_indent s' = sc_indent s"
    by (auto simp: mem_update_moves PEEK_def AT_END_def REMAINING_def BUF_AT_def PEEK_AT_def)
qed

lemma grow_buf_mem: "grow_buf s b n = (r, s') \<Longrightarrow> mem_only s s'"
  by (auto simp: grow_buf_def Let_def split: prod.splits if_splits)

lemma APPEND_RUN_mem: "APPEND_RUN s b xs = (r, s') \<Longrightarrow> mem_only s s'"
  by (auto simp: APPEND_RUN_def Let_def dest: grow_buf_mem split: prod.splits if_splits)

lemma APPEND_CHAR_mem: "APPEND_CHAR s b c = (r, s') \<Longrightarrow> mem_only s s'"
  by (auto simp: APPEND_CHAR_def Let_def dest: grow_buf_mem split: prod.splits if_splits)

lemma APPEND_CHARS_mem: "APPEND_CHARS s b c n = (r, s') \<Longrightarrow> mem_only s s'"
  by (induction s b c n rule: APPEND_CHARS.induct)
    (auto dest: APPEND_CHAR_mem intro: mem_only_trans split: prod.splits option.splits)

lemma SWITCH_TO_BUF_mem: "SWITCH_TO_BUF s start b = (r, s') \<Longrightarrow> mem_only s s'"
  by (auto simp: SWITCH_TO_BUF_def Let_def split: prod.splits if_splits)

text \<open>A result of a step from \<open>s\<close>: the cursor moved, and strictly so if the loop goes on.\<close>

fun plain_moves :: "oyl_scanner \<Rightarrow> plain_result \<Rightarrow> bool" where
  "plain_moves s (PlainMore s' b) \<longleftrightarrow> moves s s' \<and> sc_pos s < sc_pos s' \<and> \<not> AT_END s"
| "plain_moves s (PlainDone s' b) \<longleftrightarrow> moves s s'"
| "plain_moves s (PlainFail e s') \<longleftrightarrow> moves s s'"

lemma moves_not_end: "moves s t \<Longrightarrow> \<not> AT_END t \<Longrightarrow> \<not> AT_END s"
  using moves_pos [of s t] moves_buf [of s t] by (auto simp: AT_END_def)

lemma plain_moves_trans: "moves s t \<Longrightarrow> plain_moves t r \<Longrightarrow> plain_moves s r"
  using moves_trans moves_pos moves_not_end by (cases r) fastforce+

text \<open>An append from \<open>t\<close>, which \<open>s\<close> has moved to, followed by \<open>f\<close>.\<close>

lemma appended_moves:
  assumes "moves s t" and "\<And>r' s'. r = (r', s') \<Longrightarrow> mem_only t s'"
    and "\<And>b s'. r = (Some b, s') \<Longrightarrow> mem_only t s' \<Longrightarrow> plain_moves s (f b s')"
  shows "plain_moves s (appended r f)"
proof (cases r)
  case (Pair r' s')
  with assms(2) have "mem_only t s'" by simp
  moreover from this assms(1) have "moves s s'" using mem_only_eqs(1) moves_trans by blast
  ultimately show ?thesis using Pair assms(3) by (cases r') (auto simp: appended_def)
qed

lemma mem_advance_moves:
  assumes "mem_only s s'" and "\<not> AT_END s"
  shows "moves s (advance s' 1)" and "sc_pos s < sc_pos (advance s' 1)"
proof -
  show "moves s (advance s' 1)"
    using mem_only_eqs(1) [OF assms(1)] advance_moves moves_trans by blast
  show "sc_pos s < sc_pos (advance s' 1)"
    using assms(2) unfolding advance_pos by (simp add: mem_only_eqs [OF assms(1)] AT_END_def REMAINING_def)
qed

lemma plain_breaks_moves: "plain_breaks s n = (s', k) \<Longrightarrow> moves s s'"
proof (induction s n arbitrary: s' k rule: plain_breaks.induct)
  case (1 s n)
  show ?case
  proof (cases "\<not> AT_END s \<and> oyl_is_break (PEEK s)")
    case True
    with 1 have "moves (skip_blanks (skip_break s)) s'" by (simp add: plain_breaks.simps [of s])
    then show ?thesis using skip_break_moves skip_blanks_moves moves_trans by blast
  next
    case False
    with 1 show ?thesis by (auto simp: plain_breaks.simps [of s])
  qed
qed

lemma plain_breaks_pos:
  assumes "plain_breaks s n = (s', k)" and "oyl_is_break (PEEK s)"
  shows "sc_pos s < sc_pos s'"
proof -
  have "plain_breaks (skip_blanks (skip_break s)) (n + 1) = (s', k)"
    using assms skip_break_pos [of s] by (simp add: plain_breaks.simps [of s])
  then have "moves (skip_blanks (skip_break s)) s'" by (rule plain_breaks_moves)
  then have "moves (skip_break s) s'" using skip_blanks_moves moves_trans by blast
  then show ?thesis using moves_pos [of "skip_break s" s'] skip_break_pos [OF assms(2)] by simp
qed

lemma skip_blanks_pos:
  assumes "oyl_is_blank (PEEK s)"
  shows "0 < oyl_skip_blanks b (BUF_AT s)"
proof (rule ccontr)
  assume z: "\<not> 0 < oyl_skip_blanks b (BUF_AT s)"
  have "\<not> AT_END s" using assms PEEK_not_end by (auto simp: char_class)
  then have len: "0 < length (BUF_AT s)" and hd: "BUF_AT s ! 0 = PEEK s"
    by (simp_all add: AT_END_def REMAINING_def BUF_AT_def PEEK_def)
  from blanks.scan_at [of b "BUF_AT s"] z len hd assms show False by (auto simp: char_class)
qed

lemma plain_blanks_moves:
  assumes "oyl_is_blank (PEEK s)"
  shows "plain_moves s (plain_blanks s b)"
proof -
  let ?s = "advance_cols s (oyl_skip_blanks (sc_sse42 s) (BUF_AT s))"
  have m: "moves s ?s" by (simp add: advance_cols_moves)
  have p: "sc_pos s < sc_pos ?s" using skip_blanks_pos [OF assms] by (simp add: advance_cols_def)
  have e: "\<not> AT_END s" using assms PEEK_not_end by (auto simp: char_class)
  have "plain_moves s (appended (APPEND_RUN ?s b xs) (\<lambda>b s. PlainMore s b))" for xs
    using moves_trans [OF m mem_only_eqs(1)] p e
    by (intro appended_moves [OF m]) (auto dest: APPEND_RUN_mem simp: mem_only_eqs(2))
  with m p e show ?thesis by (simp add: plain_blanks_def Let_def)
qed

lemma plain_break_moves:
  assumes "oyl_is_break (PEEK s)"
  shows "plain_moves s (plain_break s start b)"
proof -
  obtain t k where t: "plain_breaks s 0 = (t, k)" by fastforce
  have m: "moves s t" using t by (rule plain_breaks_moves)
  have p: "sc_pos s < sc_pos t" using t assms by (rule plain_breaks_pos)
  have e: "\<not> AT_END s" using assms PEEK_not_end by (auto simp: char_class)
  let ?app = "\<lambda>b u. if k = 1 then APPEND_CHAR u b SP else APPEND_CHARS u b LF (k - 1)"
  have more: "plain_moves s (PlainMore v b')" if "mem_only t v" for v b'
    using that p e moves_trans [OF m mem_only_eqs(1)] by (auto simp: mem_only_eqs(2))
  have inner: "plain_moves s (appended (?app b' u) (\<lambda>b s'. PlainMore s' b))" if u: "mem_only t u" for b' u
  proof (rule appended_moves)
    show "moves s u" using m mem_only_eqs(1) [OF u] by (rule moves_trans)
    show "mem_only u v" if "?app b' u = (r', v)" for r' v
      using that by (auto dest: APPEND_CHAR_mem APPEND_CHARS_mem split: if_splits)
    show "plain_moves s (PlainMore v b'')" if "mem_only u v" for v b''
      using more mem_only_trans [OF u that] by blast
  qed
  have "plain_moves s (appended (SWITCH_TO_BUF t start b') (\<lambda>b u. appended (?app b u) (\<lambda>b s'. PlainMore s' b)))"
    for b'
    by (rule appended_moves [OF m SWITCH_TO_BUF_mem inner]) assumption+
  then show ?thesis by (simp add: plain_break_def t)
qed

lemma plain_char_moves:
  assumes "\<not> AT_END s"
  shows "plain_moves s (plain_char s start b)"
proof -
  have one: "plain_moves s (appended (APPEND_CHAR s b c) (\<lambda>b s. PlainMore (advance s 1) b))" for c
    using assms
    by (intro appended_moves [OF moves_refl])
      (auto simp only: plain_moves.simps not_False_eq_True intro: mem_advance_moves dest: APPEND_CHAR_mem)
  show ?thesis
    using one plain_blanks_moves plain_break_moves
    by (auto simp: plain_char_def plain_colon_def plain_hash_def Let_def scan_error_def error_moves)
qed

lemma plain_step_moves: "plain_moves s (plain_step s start b)"
proof -
  let ?n = "oyl_scan_plain_scalar (sc_sse42 s) (BUF_AT s)"
  have n: "?n \<le> REMAINING s" using plain.scan_le [of "sc_sse42 s" "BUF_AT s"] by simp
  have "plain_moves s (if AT_END (advance_cols s' ?n) then PlainDone (advance_cols s' ?n) b'
      else plain_char (advance_cols s' ?n) start b')" if "mem_only s s'" for s' b'
  proof -
    have "moves s' (advance_cols s' ?n)" using n that by (intro advance_cols_moves) (simp add: mem_only_eqs)
    then have m: "moves s (advance_cols s' ?n)" using that mem_only_eqs(1) moves_trans by blast
    with plain_char_moves plain_moves_trans show ?thesis by auto
  qed
  then show ?thesis
    unfolding plain_step_def Let_def
    by (intro appended_moves [OF moves_refl]) (auto dest: APPEND_RUN_mem split: if_splits)
qed

section \<open>The loop and the token\<close>

function plain_loop :: "oyl_scanner \<Rightarrow> nat \<Rightarrow> plain_buf \<Rightarrow> (oyl_status + plain_buf) \<times> oyl_scanner" where
  "plain_loop s start b =
    (case plain_step s start b of
       PlainMore s' b' \<Rightarrow> plain_loop s' start b'
     | PlainDone s' b' \<Rightarrow> (Inr b', s')
     | PlainFail e s' \<Rightarrow> (Inl e, s'))"
  by pat_completeness auto
termination
proof (relation "measure (\<lambda>(s, start, b). REMAINING s)", goal_cases)
  case (2 s start b s' b')
  have "sc_pos s < sc_pos s'" and "\<not> AT_END s" and m: "moves s s'"
    using plain_step_moves [of s start b] by (simp_all add: 2)
  with moves_buf [OF m] show ?case by (auto simp: REMAINING_def AT_END_def)
qed auto

declare plain_loop.simps [simp del]

definition scan_plain_scalar :: "oyl_scanner \<Rightarrow> scan_result" where
  "scan_plain_scalar s =
    (let start = mark s;
         b = \<lparr>pb_in_buf = False, pb_single = 0, pb_buf = [], pb_cap = 0\<rparr>
     in case plain_loop s (sc_pos s) b of
          (Inl e, s) \<Rightarrow> (Inl e, s)
        | (Inr b, s) \<Rightarrow>
            (let b = TRIM_TRAILING s (mk_offset start) b;
                 e = mark s;
                 s = s\<lparr>sc_last_token_col := int (mk_col start) - 1\<rparr>;
                 s = note_node s start (mk_offset e)
             in (Inr (tok_scalar (cur_data s (mk_offset start) b) OYL_SCALAR_PLAIN start e), s)))"


lemma plain_loop_moves: "plain_loop s start b = (r, s') \<Longrightarrow> moves s s'"
proof (induction s start b arbitrary: r s' rule: plain_loop.induct)
  case (1 s start b)
  show ?case
    using 1(2) plain_step_moves [of s start b] "1.IH" moves_trans
    by (cases "plain_step s start b") (auto simp: plain_loop.simps [of s])
qed

text \<open>Recording a token changes neither the cursor nor the structure.\<close>

lemma note_moves:
  "moves s (note_node s k e)" "moves s (note_props s k e)" "moves s (s\<lparr>sc_last_token_col := c\<rparr>)"
  "moves s (s\<lparr>sc_last_was_quoted := q\<rparr>)"
  by (auto simp: moves_def same_struct_def cursor_ok_def note_node_def note_props_def Let_def)

lemma scan_plain_scalar_moves: "scan_plain_scalar s = (r, s') \<Longrightarrow> moves s s'"
  by (auto simp: scan_plain_scalar_def Let_def dest!: plain_loop_moves split: prod.splits sum.splits
      intro: moves_trans [OF _ moves_trans [OF note_moves(3) note_moves(1)]])


section \<open>Specification: one byte at a time\<close>

text \<open>
  What the routine computes, without the fast scan, the slice and the buffer: the text so far is a
  list, every byte is looked at, the blanks and breaks are skipped exactly.
\<close>

lemma advance1_less: "\<not> AT_END s \<Longrightarrow> REMAINING (advance1 s) < REMAINING s"
  by (rule REMAINING_less [OF advance1_moves]) (simp_all add: advance1_pos)

lemma skip_white_pos: "oyl_is_blank (PEEK s) \<Longrightarrow> sc_pos s < sc_pos (skip_white s)"
  using skip_blanks_pos [of s "sc_sse42 s"]
  by (simp add: skip_white_def advance_cols_def oyl_skip_blanks_eq)

lemma spec_breaks_less:
  "spec_breaks s n = (t, k) \<Longrightarrow> oyl_is_break (PEEK s) \<Longrightarrow> REMAINING t < REMAINING s"
  using REMAINING_less spec_breaks_moves spec_breaks_pos(1) break_not_end by blast

function plain_spec_loop :: "oyl_scanner \<Rightarrow> byte list \<Rightarrow> (oyl_status + byte list) \<times> oyl_scanner" where
  "plain_spec_loop s acc =
    (if AT_END s then (Inr acc, s)
     else
       let c = PEEK s; next = PEEK_AT s 1
       in if c = COLON \<and> (blank_or_end next \<or> sc_flow_level s > 0 \<and> oyl_is_flow next) then (Inr acc, s)
          else if c = HASH \<and> (acc = [] \<or> last acc = SP \<or> last acc = TAB) then (Inr (rtrim acc), s)
          else if sc_flow_level s > 0 \<and> oyl_is_flow c then (Inr acc, s)
          else if oyl_is_blank c then
            let t = skip_white s
            in if AT_END t then (Inr acc, t)
               else plain_spec_loop t
                 (if oyl_is_break (PEEK t) then acc else acc @ take (sc_pos t - sc_pos s) (BUF_AT s))
          else if oyl_is_break c then
            let (t, n) = spec_breaks s 0
            in if AT_END t \<or> plain_line_ends t then (Inr acc, s)
               else plain_spec_loop t (rtrim acc @ folded n)
          else if c < 0x20 \<or> c = DEL then scan_error s ''control character in plain scalar''
          else plain_spec_loop (advance1 s) (acc @ [c]))"
  by pat_completeness auto
termination
proof (relation "measure (\<lambda>(s, acc). REMAINING s)", goal_cases)
  case (2 s acc c nxt t)
  then show ?case
    using REMAINING_less [OF skip_white_moves] skip_white_pos by simp
next
  case (3 s acc c nxt p t n)
  then show ?case using spec_breaks_less [of s 0 t n] by simp
next
  case (4 s acc c nxt)
  then show ?case using advance1_less by simp
qed simp

declare plain_spec_loop.simps [simp del]

definition plain_spec :: "oyl_scanner \<Rightarrow> scan_result" where
  "plain_spec s =
    (case plain_spec_loop s [] of
       (Inl e, t) \<Rightarrow> (Inl e, t)
     | (Inr acc, t) \<Rightarrow>
        (Inr (tok_scalar (rtrim acc) OYL_SCALAR_PLAIN (mark s) (mark t)),
         note_node (t\<lparr>sc_last_token_col := int (sc_col s) - 1\<rparr>) (mark s) (sc_pos t)))"


section \<open>Refinement\<close>

text \<open>The oracle is not looked at by what moves the cursor.\<close>

lemma mem_commute [simp]:
  "PEEK (s\<lparr>sc_mem := m\<rparr>) = PEEK s" "PEEK_AT (s\<lparr>sc_mem := m\<rparr>) n = PEEK_AT s n"
  "AT_END (s\<lparr>sc_mem := m\<rparr>) = AT_END s" "BUF_AT (s\<lparr>sc_mem := m\<rparr>) = BUF_AT s"
  "REMAINING (s\<lparr>sc_mem := m\<rparr>) = REMAINING s" "mark (s\<lparr>sc_mem := m\<rparr>) = mark s"
  "advance1 (s\<lparr>sc_mem := m\<rparr>) = (advance1 s)\<lparr>sc_mem := m\<rparr>"
  "advance_cols (s\<lparr>sc_mem := m\<rparr>) n = (advance_cols s n)\<lparr>sc_mem := m\<rparr>"
  "skip_break (s\<lparr>sc_mem := m\<rparr>) = (skip_break s)\<lparr>sc_mem := m\<rparr>"
  "skip_white (s\<lparr>sc_mem := m\<rparr>) = (skip_white s)\<lparr>sc_mem := m\<rparr>"
  by (simp_all add: PEEK_def PEEK_AT_def AT_END_def BUF_AT_def REMAINING_def mark_def advance1_def
      advance_cols_def skip_break_def skip_white_def Let_def)

lemma plain_line_ends_mem [simp]: "plain_line_ends (s\<lparr>sc_mem := m\<rparr>) = plain_line_ends s"
  unfolding plain_line_ends_def Let_def by simp

lemma spec_breaks_mem [simp]:
  "spec_breaks (s\<lparr>sc_mem := m\<rparr>) n = (let (t, k) = spec_breaks s n in (t\<lparr>sc_mem := m\<rparr>, k))"
proof (induction s n rule: spec_breaks.induct)
  case (1 s n)
  show ?case
  proof (cases "oyl_is_break (PEEK s)")
    case True
    have "spec_breaks (s\<lparr>sc_mem := m\<rparr>) n = spec_breaks ((skip_white (skip_break s))\<lparr>sc_mem := m\<rparr>) (n + 1)"
      using True by (subst spec_breaks.simps) simp
    moreover have "spec_breaks s n = spec_breaks (skip_white (skip_break s)) (n + 1)"
      using True by (subst spec_breaks.simps) simp
    ultimately show ?thesis using 1 [OF True] by simp
  next
    case False
    have "spec_breaks (s\<lparr>sc_mem := m\<rparr>) n = (s\<lparr>sc_mem := m\<rparr>, n)"
      using False by (subst spec_breaks.simps) simp
    moreover have "spec_breaks s n = (s, n)"
      using False by (subst spec_breaks.simps) simp
    ultimately show ?thesis by simp
  qed
qed

text \<open>\<open>plain_breaks\<close> is the exact loop.\<close>

lemma plain_breaks_exact: "plain_breaks s n = spec_breaks s n"
  by (rule breaks_eqI [where g = skip_blanks]) (simp_all add: plain_breaks.simps [of s n for s n] skip_blanks_exact)

lemma rtrim_prefix: "rtrim xs = take (length (rtrim xs)) xs"
proof -
  let ?p = "\<lambda>c. c = SP \<or> c = TAB"
  have "rev (takeWhile ?p (rev xs) @ dropWhile ?p (rev xs)) = xs"
    by (simp only: takeWhile_dropWhile_id rev_rev_ident)
  then have "rtrim xs @ rev (takeWhile ?p (rev xs)) = xs" by (simp only: rtrim_def rev_append)
  then have "take (length (rtrim xs)) xs = take (length (rtrim xs)) (rtrim xs @ rev (takeWhile ?p (rev xs)))"
    by simp
  then show ?thesis by simp
qed

lemma cur_data_TRIM: "cur_data s' start (TRIM_TRAILING s start b) = rtrim (cur_data s start b)"
  if "sc_buf s' = sc_buf s"
  using that rtrim_prefix [of "single_data s start b"]
  by (auto simp: cur_data_def TRIM_TRAILING_def single_data_def sub_buf_def min_def
      split: if_splits)

lemma cur_data_buf: "sc_buf s' = sc_buf s \<Longrightarrow> cur_data s' start b = cur_data s start b"
  by (simp add: cur_data_def single_data_def)


text \<open>
  The text is represented: it is in the buffer, or it is the slice, and the slice ends at \<open>p\<close>.
\<close>

definition rep :: "oyl_scanner \<Rightarrow> nat \<Rightarrow> plain_buf \<Rightarrow> nat \<Rightarrow> byte list \<Rightarrow> bool" where
  "rep s start b p acc \<longleftrightarrow> cur_data s start b = acc \<and>
     (\<not> pb_in_buf b \<longrightarrow> start + pb_single b = p \<and> p \<le> length (sc_buf s))"

lemma APPEND_RUN_rep:
  assumes "rep s start b p acc" and "xs = sub_buf (sc_buf s) p n" and "p + n \<le> length (sc_buf s)"
    and "APPEND_RUN s b xs = (Some b', s')"
  shows "rep s' start b' (p + n) (acc @ xs)"
proof -
  have "sc_buf s' = sc_buf s" using assms(4) APPEND_RUN_mem mem_only_eqs(3) by blast
  moreover have "length xs = n" using assms(2,3) by simp
  ultimately show ?thesis
    using assms
    by (auto simp: rep_def APPEND_RUN_def cur_data_def single_data_def sub_buf_def grow_buf_def Let_def take_add
        add.commute [of start] split: if_splits prod.splits)
qed

lemma APPEND_CHAR_RUN: "APPEND_CHAR s b c = APPEND_RUN s b [c]"
  by (simp add: APPEND_CHAR_def APPEND_RUN_def Let_def)

lemma APPEND_CHAR_rep:
  assumes "rep s start b (sc_pos s) acc" and "\<not> AT_END s" and "APPEND_CHAR s b (PEEK s) = (Some b', s')"
  shows "rep s' start b' (sc_pos s + 1) (acc @ [PEEK s])"
  using APPEND_RUN_rep [of s start b "sc_pos s" acc "[PEEK s]" 1 b' s'] assms
  by (auto simp: APPEND_CHAR_RUN sub_buf_def AT_END_def PEEK_def not_le take_Suc_conv_app_nth
      hd_drop_conv_nth take_Suc)

text \<open>In the buffer, an appended character is just that.\<close>

lemma APPEND_CHAR_buf:
  "APPEND_CHAR s b c = (Some b', s') \<Longrightarrow> pb_in_buf b \<Longrightarrow> pb_in_buf b' \<and> pb_buf b' = pb_buf b @ [c]"
  by (auto simp: APPEND_CHAR_def grow_buf_def Let_def split: prod.splits if_splits)

lemma APPEND_CHARS_buf:
  "APPEND_CHARS s b c n = (Some b', s') \<Longrightarrow> pb_in_buf b \<Longrightarrow>
     pb_in_buf b' \<and> pb_buf b' = pb_buf b @ replicate n c"
proof (induction s b c n rule: APPEND_CHARS.induct)
  case (2 s b ch n)
  then show ?case
    using APPEND_CHAR_buf [of s b ch]
    by (auto split: prod.splits option.splits)
qed simp

lemma SWITCH_TO_BUF_data:
  "SWITCH_TO_BUF s start b = (Some b', s') \<Longrightarrow> pb_in_buf b' \<and> pb_buf b' = cur_data s start b"
  by (auto simp: SWITCH_TO_BUF_def cur_data_def single_data_def Let_def split: prod.splits if_splits)


text \<open>
  The loop's invariant: the text is represented up to the cursor, or the cursor is at a break (it
  has skipped the blanks before it).
\<close>

definition loop_rep :: "oyl_scanner \<Rightarrow> nat \<Rightarrow> plain_buf \<Rightarrow> byte list \<Rightarrow> bool" where
  "loop_rep s start b acc \<longleftrightarrow> rep s start b (sc_pos s) acc \<or> cur_data s start b = acc \<and> oyl_is_break (PEEK s)"

text \<open>What a result of a step means for the specification, in the memory state \<open>m\<close> it started with.\<close>

fun simulates :: "mem \<Rightarrow> nat \<Rightarrow> (oyl_status + byte list) \<times> oyl_scanner \<Rightarrow> plain_result \<Rightarrow> bool" where
  "simulates m start spec (PlainMore s b) \<longleftrightarrow>
     (\<exists>acc. spec = plain_spec_loop (s\<lparr>sc_mem := m\<rparr>) acc \<and> loop_rep s start b acc)"
| "simulates m start spec (PlainDone s b) \<longleftrightarrow>
     (\<exists>acc. spec = (Inr acc, s\<lparr>sc_mem := m\<rparr>) \<and> cur_data s start b = acc)"
| "simulates m start spec (PlainFail e s) \<longleftrightarrow> e = OYL_ERR_MEMORY \<or> spec = (Inl e, s\<lparr>sc_mem := m\<rparr>)"

lemma simulates_appended:
  assumes "\<And>b s'. r = (Some b, s') \<Longrightarrow> simulates m start spec (f b s')"
  shows "simulates m start spec (appended r f)"
  using assms by (auto simp: appended_def split: prod.splits option.splits)

lemma mem_only_set: "mem_only s s' \<Longrightarrow> s'\<lparr>sc_mem := m\<rparr> = s\<lparr>sc_mem := m\<rparr>"
  by (metis mem_only_def oyl_scanner.update_convs(29) oyl_scanner.surjective)

text \<open>A byte that is simply taken.\<close>

lemma take_byte:
  assumes "\<not> AT_END s" and "rep s start b (sc_pos s) acc"
    and "spec = plain_spec_loop (advance1 (s\<lparr>sc_mem := m\<rparr>)) (acc @ [PEEK s])"
  shows "simulates m start spec (appended (APPEND_CHAR s b (PEEK s)) (\<lambda>b s. PlainMore (advance s 1) b))"
proof (rule simulates_appended)
  fix b' s'
  assume a: "APPEND_CHAR s b (PEEK s) = (Some b', s')"
  then have mo: "mem_only s s'" by (rule APPEND_CHAR_mem)
  have "rep s' start b' (sc_pos s + 1) (acc @ [PEEK s])" by (rule APPEND_CHAR_rep [OF assms(2,1) a])
  moreover have "sc_pos (advance1 s') = sc_pos s + 1" "sc_buf (advance1 s') = sc_buf s'"
    using assms(1) mem_only_eqs(2,5) [OF mo] moves_buf [OF advance1_moves] by (simp_all add: advance1_pos)
  ultimately have "loop_rep (advance1 s') start b' (acc @ [PEEK s])"
    using cur_data_buf [of "advance1 s'" s' start b'] by (simp add: loop_rep_def rep_def)
  moreover have "(advance1 s')\<lparr>sc_mem := m\<rparr> = advance1 (s\<lparr>sc_mem := m\<rparr>)"
    using mem_only_set [OF mo, of m] by (metis mem_commute(7))
  ultimately show "simulates m start spec (PlainMore (advance s' 1) b')"
    using assms(3) by (auto simp: advance_1)
qed

lemma blanks_sim:
  assumes "oyl_is_blank (PEEK s)" and "rep s start b (sc_pos s) acc"
    and "spec = (let t = skip_white (s\<lparr>sc_mem := m\<rparr>)
            in if AT_END t then (Inr acc, t)
               else plain_spec_loop t
                 (if oyl_is_break (PEEK t) then acc else acc @ take (sc_pos t - sc_pos s) (BUF_AT s)))"
  shows "simulates m start spec (plain_blanks s b)"
proof -
  define n where "n = oyl_skip_blanks (sc_sse42 s) (BUF_AT s)"
  let ?t = "advance_cols s n"
  have t: "skip_white s = ?t" by (simp add: skip_white_def n_def oyl_skip_blanks_eq)
  have pos: "sc_pos ?t = sc_pos s + n" and buf: "sc_buf ?t = sc_buf s" by (simp_all add: advance_cols_def)
  have n: "n \<le> REMAINING s" by (simp add: n_def)
  have at: "cur_data ?t start b = acc" using assms(2) buf by (simp add: rep_def cur_data_buf [OF buf])
  show ?thesis
  proof (cases "AT_END ?t \<or> oyl_is_break (PEEK ?t)")
    case True
    have "plain_blanks s b = (if AT_END ?t then PlainDone ?t b else PlainMore ?t b)"
      using True by (auto simp: plain_blanks_def Let_def n_def [symmetric])
    moreover have "spec = (if AT_END ?t then (Inr acc, ?t\<lparr>sc_mem := m\<rparr>)
        else plain_spec_loop (?t\<lparr>sc_mem := m\<rparr>) acc)"
      using True by (auto simp: assms(3) t Let_def)
    ultimately show ?thesis using True at by (auto simp: loop_rep_def)
  next
    case False
    have "simulates m start spec (appended (APPEND_RUN ?t b (take n (BUF_AT s))) (\<lambda>b s. PlainMore s b))"
    proof (rule simulates_appended)
      fix b' s'
      assume a: "APPEND_RUN ?t b (take n (BUF_AT s)) = (Some b', s')"
      then have mo: "mem_only ?t s'" by (rule APPEND_RUN_mem)
      have "rep ?t start b (sc_pos s) acc" using assms(2) buf by (simp add: rep_def cur_data_buf [OF buf])
      moreover have "\<not> AT_END s" using assms(1) PEEK_not_end by (auto simp: char_class)
      ultimately have "rep s' start b' (sc_pos s + n) (acc @ take n (BUF_AT s))"
        using APPEND_RUN_rep [OF _ _ _ a] n buf
        by (simp add: BUF_AT_def sub_buf_def REMAINING_def AT_END_def)
      then have "loop_rep s' start b' (acc @ take n (BUF_AT s))"
        by (simp add: loop_rep_def mem_only_eqs(2) [OF mo] pos)
      then show "simulates m start spec (PlainMore s' b')"
        using False mem_only_set [OF mo, of m] by (simp add: assms(3) t pos Let_def) blast
    qed
    with False show ?thesis by (simp add: plain_blanks_def Let_def n_def [symmetric])
  qed
qed


lemma break_sim:
  assumes "oyl_is_break (PEEK s)" and "cur_data s start b = acc"
    and "spec = (let (t, n) = spec_breaks (s\<lparr>sc_mem := m\<rparr>) 0
            in if AT_END t \<or> plain_line_ends t then (Inr acc, s\<lparr>sc_mem := m\<rparr>)
               else plain_spec_loop t (rtrim acc @ folded n))"
  shows "simulates m start spec (plain_break s start b)"
proof -
  obtain t n where t: "spec_breaks s 0 = (t, n)" by fastforce
  show ?thesis
  proof (cases "AT_END t \<or> plain_line_ends t")
    case True
    then show ?thesis using assms(2,3) t by (simp add: plain_break_def plain_breaks_exact)
  next
    case False
    have buf: "sc_buf t = sc_buf s" using spec_breaks_moves [OF t] moves_buf by blast
    have n: "0 < n" by (rule spec_breaks_pos(2) [OF t assms(1)])
    let ?app = "\<lambda>b u. if n = 1 then APPEND_CHAR u b SP else APPEND_CHARS u b LF (n - 1)"
    have "simulates m start spec (appended (?app b1 u) (\<lambda>b s'. PlainMore s' b))"
      if sw: "SWITCH_TO_BUF t start (TRIM_TRAILING t start b) = (Some b1, u)" for b1 u
    proof (rule simulates_appended)
      fix b2 v
      assume a: "?app b1 u = (Some b2, v)"
      have "pb_in_buf b1" and "pb_buf b1 = rtrim acc"
        using SWITCH_TO_BUF_data [OF sw] cur_data_TRIM [OF refl, of t start b] cur_data_buf [OF buf] assms(2)
        by simp_all
      with a have "pb_in_buf b2 \<and> pb_buf b2 = rtrim acc @ folded n"
        using APPEND_CHAR_buf [of u b1 SP b2 v] APPEND_CHARS_buf [of u b1 LF "n - 1" b2 v]
        by (auto simp: folded_def split: if_splits)
      then have "loop_rep v start b2 (rtrim acc @ folded n)"
        by (simp add: loop_rep_def rep_def cur_data_def)
      moreover have "mem_only t v"
        using mem_only_trans [OF SWITCH_TO_BUF_mem [OF sw]] a APPEND_CHAR_mem APPEND_CHARS_mem
        by (auto split: if_splits)
      ultimately show "simulates m start spec (PlainMore v b2)"
        using False mem_only_set [of t v m] by (auto simp: assms(3) t)
    qed
    then have "simulates m start spec (appended (SWITCH_TO_BUF t start (TRIM_TRAILING t start b))
        (\<lambda>b u. appended (?app b u) (\<lambda>b s'. PlainMore s' b)))"
      by (rule simulates_appended)
    with False show ?thesis by (simp add: plain_break_def plain_breaks_exact t)
  qed
qed

text \<open>One byte: the routine does what the specification does.\<close>

lemma char_sim:
  assumes "\<not> AT_END s" and "loop_rep s start b acc"
  shows "simulates m start (plain_spec_loop (s\<lparr>sc_mem := m\<rparr>) acc) (plain_char s start b)"
proof (cases "oyl_is_break (PEEK s)")
  case True
  have cur: "cur_data s start b = acc" using assms(2) by (auto simp: loop_rep_def rep_def)
  have c: "PEEK s \<noteq> COLON" "PEEK s \<noteq> HASH" "\<not> oyl_is_flow (PEEK s)" "\<not> oyl_is_blank (PEEK s)"
    using True by (auto simp: char_class)
  have "simulates m start (plain_spec_loop (s\<lparr>sc_mem := m\<rparr>) acc) (plain_break s start b)"
    by (rule break_sim [OF True cur], subst plain_spec_loop.simps)
      (use True c assms(1) in \<open>simp add: Let_def\<close>)
  then show ?thesis using True c by (simp add: plain_char_def Let_def)
next
  case False
  then have r: "rep s start b (sc_pos s) acc" and cur: "cur_data s start b = acc"
    using assms(2) by (auto simp: loop_rep_def rep_def)
  let ?s = "s\<lparr>sc_mem := m\<rparr>"
  consider "PEEK s = COLON" | "PEEK s = HASH" | "PEEK s \<noteq> COLON" "PEEK s \<noteq> HASH" by blast
  then show ?thesis
  proof cases
    case 1
    have "simulates m start (plain_spec_loop ?s acc) (plain_colon s b)"
      using take_byte [OF assms(1) r, of "plain_spec_loop ?s acc" m] 1 assms(1) cur
      by (auto simp: plain_colon_def plain_spec_loop.simps [of ?s] blank_or_end_def char_class Let_def)
    with 1 show ?thesis by (simp add: plain_char_def)
  next
    case 2
    have "simulates m start (plain_spec_loop ?s acc) (plain_hash s start b)"
      using take_byte [OF assms(1) r, of "plain_spec_loop ?s acc" m] 2 assms(1) cur
        cur_data_TRIM [OF refl, of s start b]
      by (auto simp: plain_hash_def plain_spec_loop.simps [of ?s] char_class rtrim_def Let_def)
    with 2 show ?thesis by (simp add: plain_char_def)
  next
    case 3
    consider "sc_flow_level s > 0 \<and> oyl_is_flow (PEEK s)"
      | "\<not> (sc_flow_level s > 0 \<and> oyl_is_flow (PEEK s))" "oyl_is_blank (PEEK s)"
      | "\<not> (sc_flow_level s > 0 \<and> oyl_is_flow (PEEK s))" "\<not> oyl_is_blank (PEEK s)" by blast
    then show ?thesis
    proof cases
      case 1
      then show ?thesis using 3 assms(1) cur by (simp add: plain_char_def plain_spec_loop.simps [of ?s] Let_def)
    next
      case b: 2
      have "simulates m start (plain_spec_loop ?s acc) (plain_blanks s b)"
        by (rule blanks_sim [OF b(2) r], subst plain_spec_loop.simps)
          (use 3 b assms(1) in \<open>auto simp: Let_def\<close>)
      with 3 b show ?thesis by (auto simp: plain_char_def Let_def)
    next
      case o: 3
      show ?thesis
      proof (cases "PEEK s < 0x20 \<or> PEEK s = DEL")
        case True
        then have "plain_char s start b = PlainFail OYL_ERR_SCAN
            (s\<lparr>sc_error_msg := ''control character in plain scalar'', sc_error_mark := mark s\<rparr>)"
          using 3 o False by (auto simp: plain_char_def scan_error_def Let_def)
        moreover have "plain_spec_loop ?s acc = scan_error ?s ''control character in plain scalar''"
          using 3 o False True assms(1) by (auto simp: plain_spec_loop.simps [of ?s] Let_def)
        ultimately show ?thesis by (simp add: scan_error_def)
      next
        case f: False
        have "plain_spec_loop ?s acc = plain_spec_loop (advance1 ?s) (acc @ [PEEK s])"
          using 3 o False f assms(1) by (subst plain_spec_loop.simps) (auto simp: Let_def)
        from take_byte [OF assms(1) r this] 3 o False f show ?thesis
          by (auto simp: plain_char_def Let_def)
      qed
    qed
  qed
qed


text \<open>A run of ordinary bytes is taken byte by byte by the specification.\<close>

lemma ordinary_byte:
  assumes "\<not> AT_END s" and "\<not> plain_stop (PEEK s)"
  shows "plain_spec_loop s acc = plain_spec_loop (advance_cols s 1) (acc @ [PEEK s])"
proof -
  have c: "PEEK s \<noteq> COLON" "PEEK s \<noteq> HASH" "\<not> oyl_is_flow (PEEK s)" "\<not> oyl_is_blank (PEEK s)"
    "\<not> oyl_is_break (PEEK s)" "\<not> (PEEK s < 0x20 \<or> PEEK s = DEL)" "PEEK s \<noteq> LF"
    using assms(2) by (auto simp: plain_stop_def char_class not_le)
  then have "advance1 s = advance_cols s 1"
    using assms(1) by (auto simp: advance1_def advance_cols_def AT_END_def PEEK_def)
  with c assms(1) show ?thesis
    by (subst plain_spec_loop.simps) (simp add: Let_def)
qed

lemma ordinary_run:
  "n \<le> REMAINING s \<Longrightarrow> list_all (\<lambda>c. \<not> plain_stop c) (take n (BUF_AT s)) \<Longrightarrow>
   plain_spec_loop s acc = plain_spec_loop (advance_cols s n) (acc @ take n (BUF_AT s))"
proof (induction n arbitrary: s acc)
  case 0
  then show ?case by (simp add: advance_cols_def)
next
  case (Suc n)
  have pos: "\<not> AT_END s" using Suc.prems(1) by (simp add: AT_END_def REMAINING_def)
  then have hd: "BUF_AT s = PEEK s # BUF_AT (advance_cols s 1)"
    by (simp add: BUF_AT_def PEEK_def advance_cols_def AT_END_def Cons_nth_drop_Suc)
  have "plain_spec_loop s acc = plain_spec_loop (advance_cols s 1) (acc @ [PEEK s])"
    using Suc.prems(2) hd by (intro ordinary_byte [OF pos]) simp
  also have "\<dots> = plain_spec_loop (advance_cols (advance_cols s 1) n)
      (acc @ [PEEK s] @ take n (BUF_AT (advance_cols s 1)))"
    using Suc.prems hd
    by (subst Suc.IH) (simp_all add: REMAINING_def advance_cols_def)
  finally show ?case using hd by (simp add: advance_cols_def)
qed

lemma step_sim:
  assumes "loop_rep s start b acc"
  shows "simulates m start (plain_spec_loop (s\<lparr>sc_mem := m\<rparr>) acc) (plain_step s start b)"
proof -
  define n where "n = oyl_scan_plain_scalar (sc_sse42 s) (BUF_AT s)"
  let ?s = "s\<lparr>sc_mem := m\<rparr>"
  have n: "n \<le> REMAINING s" using plain.scan_le [of "sc_sse42 s" "BUF_AT s"] by (simp add: n_def)
  have ord: "list_all (\<lambda>c. \<not> plain_stop c) (take n (BUF_AT s))"
    using plain.skipped_ordinary by (auto simp: list_all_iff n_def)
  have spec: "plain_spec_loop ?s acc = plain_spec_loop (advance_cols ?s n) (acc @ take n (BUF_AT s))"
    using ordinary_run [of n ?s acc] n ord by simp
  have go: "simulates m start (plain_spec_loop ?s acc)
      (if AT_END (advance_cols s' n) then PlainDone (advance_cols s' n) b'
       else plain_char (advance_cols s' n) start b')"
    if mo: "mem_only s s'" and r: "loop_rep (advance_cols s' n) start b' (acc @ take n (BUF_AT s))" for s' b'
  proof -
    have e: "advance_cols ?s n = (advance_cols s' n)\<lparr>sc_mem := m\<rparr>"
      using mem_only_set [OF mo, of m] by (metis mem_commute(8))
    show ?thesis
    proof (cases "AT_END (advance_cols s' n)")
      case True
      have "plain_spec_loop ?s acc = (Inr (acc @ take n (BUF_AT s)), (advance_cols s' n)\<lparr>sc_mem := m\<rparr>)"
        unfolding spec e by (subst plain_spec_loop.simps) (simp add: True)
      moreover have "cur_data (advance_cols s' n) start b' = acc @ take n (BUF_AT s)"
        using r by (auto simp: loop_rep_def rep_def)
      ultimately show ?thesis using True by simp
    next
      case False
      then show ?thesis using char_sim [OF False r, of m] by (simp only: spec e if_False)
    qed
  qed
  show ?thesis
  proof (cases "n = 0")
    case True
    then have z: "advance_cols s n = s" by (simp add: advance_cols_def)
    have "plain_step s start b = (if AT_END s then PlainDone s b else plain_char s start b)"
      using z True by (simp add: plain_step_def appended_def n_def [symmetric] Let_def)
    moreover have "simulates m start (plain_spec_loop ?s acc)
        (if AT_END s then PlainDone s b else plain_char s start b)"
      using go [of s b] assms True unfolding z by simp
    ultimately show ?thesis by (simp only:)
  next
    case False
    have "\<not> AT_END s" using False n by (simp add: AT_END_def REMAINING_def)
    then have "\<not> plain_stop (PEEK s)"
      using False ord by (cases n) (auto simp: BUF_AT_def PEEK_def AT_END_def take_Suc hd_drop_conv_nth not_le)
    then have r: "rep s start b (sc_pos s) acc"
      using assms by (auto simp: loop_rep_def plain_stop_def char_class)
    have "simulates m start (plain_spec_loop ?s acc) (appended (APPEND_RUN s b (take n (BUF_AT s)))
        (\<lambda>b s. if AT_END (advance_cols s n) then PlainDone (advance_cols s n) b
               else plain_char (advance_cols s n) start b))"
    proof (rule simulates_appended)
      fix b' s'
      assume a: "APPEND_RUN s b (take n (BUF_AT s)) = (Some b', s')"
      have mo: "mem_only s s'" using a by (rule APPEND_RUN_mem)
      have "rep s' start b' (sc_pos s + n) (acc @ take n (BUF_AT s))"
        using n \<open>\<not> AT_END s\<close> by (intro APPEND_RUN_rep [OF r _ _ a]) (auto simp: BUF_AT_def sub_buf_def REMAINING_def AT_END_def)
      then have "loop_rep (advance_cols s' n) start b' (acc @ take n (BUF_AT s))"
        using mem_only_eqs(2) [OF mo] cur_data_buf [of "advance_cols s' n" s' start b']
        by (simp add: loop_rep_def rep_def advance_cols_def)
      with mo show "simulates m start (plain_spec_loop ?s acc)
          (if AT_END (advance_cols s' n) then PlainDone (advance_cols s' n) b'
           else plain_char (advance_cols s' n) start b')" by (rule go)
    qed
    with False show ?thesis by (simp add: plain_step_def n_def [symmetric] Let_def)
  qed
qed

lemma loop_sim:
  assumes "loop_rep s start b acc" and "plain_loop s start b = (r, s')"
  shows "r = Inl OYL_ERR_MEMORY \<or>
    plain_spec_loop (s\<lparr>sc_mem := m\<rparr>) acc = (map_sum id (cur_data s' start) r, s'\<lparr>sc_mem := m\<rparr>)"
  using assms
proof (induction s start b arbitrary: acc r s' rule: plain_loop.induct)
  case (1 s start b)
  note sim = step_sim [OF "1.prems"(1), of m]
  show ?case
  proof (cases "plain_step s start b")
    case (PlainMore t b')
    with sim obtain acc' where "plain_spec_loop (s\<lparr>sc_mem := m\<rparr>) acc = plain_spec_loop (t\<lparr>sc_mem := m\<rparr>) acc'"
      and "loop_rep t start b' acc'" by auto
    with "1.IH" [OF PlainMore this(2)] "1.prems"(2) PlainMore show ?thesis
      by (simp add: plain_loop.simps [of s])
  qed (use sim "1.prems"(2) in \<open>auto simp: plain_loop.simps [of s]\<close>)
qed

lemma plain_refine:
  "fst (scan_plain_scalar s) = Inl OYL_ERR_MEMORY \<or>
   plain_spec s = map_prod id (\<lambda>t. t\<lparr>sc_mem := sc_mem s\<rparr>) (scan_plain_scalar s)"
proof -
  let ?b = "\<lparr>pb_in_buf = False, pb_single = 0, pb_buf = [], pb_cap = 0\<rparr>"
  obtain r t where rt: "plain_loop s (sc_pos s) ?b = (r, t)" by fastforce
  have buf: "sc_buf t = sc_buf s" using plain_loop_moves [OF rt] moves_buf by blast
  show ?thesis
  proof (cases "sc_pos s \<le> length (sc_buf s)")
    case True
    then have "loop_rep s (sc_pos s) ?b []"
      by (simp add: loop_rep_def rep_def cur_data_def single_data_def)
    note sim = loop_sim [OF this rt, of "sc_mem s"]
    show ?thesis
    proof (cases r)
      case (Inl e)
      with sim show ?thesis by (auto simp: scan_plain_scalar_def plain_spec_def rt mark_def Let_def)
    next
      case (Inr b)
      let ?t = "note_node (t\<lparr>sc_last_token_col := int (sc_col s) - 1\<rparr>) (mark s) (sc_pos t)"
      have "cur_data ?t (sc_pos s) (TRIM_TRAILING t (sc_pos s) b) = rtrim (cur_data t (sc_pos s) b)"
        by (rule cur_data_TRIM) (simp add: note_node_def)
      with sim Inr show ?thesis
        by (simp add: scan_plain_scalar_def plain_spec_def rt mark_def note_node_def Let_def)
    qed
  next
    case False
    then have "AT_END s" "REMAINING s = 0" "BUF_AT s = []" by (simp_all add: AT_END_def REMAINING_def BUF_AT_def)
    then show ?thesis
      using plain.scan_le [of "sc_sse42 s" "[]"]
      by (simp add: scan_plain_scalar_def plain_spec_def plain_loop.simps [of s] plain_step_def appended_def
          plain_spec_loop.simps [of s] TRIM_TRAILING_def single_data_def cur_data_def mark_def
          note_node_def advance_cols_def rtrim_def AT_END_def Let_def)
  qed
qed


section \<open>Properties\<close>

text \<open>
  C29: the plain scalar routine, with its fast scan, its zero-copy slice and its growing buffer,
  computes what the byte-by-byte specification does: the same token or error and the same scanner
  afterwards, unless an allocation fails. So the dispatch of the fast scan cannot be observed in
  the tokens, although the two scans stop at different bytes.
\<close>

theorem plain_scalar_refines:
  "fst (scan_plain_scalar s) = Inl OYL_ERR_MEMORY \<or>
   plain_spec s = map_prod id (\<lambda>t. t\<lparr>sc_mem := sc_mem s\<rparr>) (scan_plain_scalar s)"
  by (rule plain_refine)

text \<open>The written part of the buffer is shorter than the buffer: there is room for the final NUL.\<close>

definition buf_fits :: "plain_buf \<Rightarrow> bool" where
  "buf_fits b \<longleftrightarrow> (pb_in_buf b \<longrightarrow> length (pb_buf b) < pb_cap b)"

fun result_fits :: "plain_result \<Rightarrow> bool" where
  "result_fits (PlainMore s b) = buf_fits b"
| "result_fits (PlainDone s b) = buf_fits b"
| "result_fits (PlainFail e s) = True"

lemma append_fits:
  "APPEND_RUN s b xs = (Some b', s') \<Longrightarrow> buf_fits b \<Longrightarrow> buf_fits b'"
  by (auto simp: APPEND_RUN_def grow_buf_def buf_fits_def Let_def split: prod.splits if_splits)

lemma append_chars_fits:
  "APPEND_CHARS s b c n = (Some b', s') \<Longrightarrow> buf_fits b \<Longrightarrow> buf_fits b'"
proof (induction s b c n rule: APPEND_CHARS.induct)
  case (2 s b ch n)
  then show ?case using append_fits [of s b "[ch]"] by (auto simp: APPEND_CHAR_RUN split: prod.splits option.splits)
qed simp

lemma rtrim_length: "length (rtrim xs) \<le> length xs"
  using length_dropWhile_le [of _ "rev xs"] by (simp add: rtrim_def)

lemma trim_fits: "buf_fits b \<Longrightarrow> buf_fits (TRIM_TRAILING s start b)"
  using rtrim_length [of "pb_buf b"] by (auto simp: buf_fits_def TRIM_TRAILING_def)

lemma switch_fits: "SWITCH_TO_BUF s start b = (Some b', s') \<Longrightarrow> buf_fits b \<Longrightarrow> buf_fits b'"
  by (auto simp: SWITCH_TO_BUF_def buf_fits_def single_data_def Let_def split: prod.splits if_splits)

lemma appended_fits:
  "(\<And>b s'. r = (Some b, s') \<Longrightarrow> result_fits (f b s')) \<Longrightarrow> result_fits (appended r f)"
  by (auto simp: appended_def split: prod.splits option.splits)

lemma plain_char_fits:
  assumes "buf_fits b"
  shows "result_fits (plain_char s start b)"
proof -
  have one: "result_fits (appended (APPEND_CHAR s b c) (\<lambda>b s. PlainMore (advance s 1) b))" for c
    using append_fits assms by (intro appended_fits) (auto simp: APPEND_CHAR_RUN)
  have "result_fits (plain_blanks s b)"
    using append_fits assms by (auto simp: plain_blanks_def Let_def intro!: appended_fits)
  moreover have "result_fits (plain_break s start b)"
    using append_fits append_chars_fits switch_fits trim_fits assms
    by (auto simp: plain_break_def APPEND_CHAR_RUN intro!: appended_fits split: prod.splits if_splits)
  ultimately show ?thesis
    using one assms trim_fits by (auto simp: plain_char_def plain_colon_def plain_hash_def Let_def)
qed

lemma plain_step_fits:
  assumes "buf_fits b"
  shows "result_fits (plain_step s start b)"
  using assms plain_char_fits append_fits
  by (auto simp: plain_step_def Let_def intro!: appended_fits split: if_splits)

lemma plain_loop_fits: "plain_loop s start b = (Inr b', s') \<Longrightarrow> buf_fits b \<Longrightarrow> buf_fits b'"
proof (induction s start b rule: plain_loop.induct)
  case (1 s start b)
  then show ?case
    using plain_step_fits [of b s start] by (auto simp: plain_loop.simps [of s] split: plain_result.splits)
qed

text \<open>
  C30: in the loop of the plain scalar routine the arena buffer never overflows, whatever its growth
  steps were: what is written, and the NUL after it, is within its capacity.
\<close>

theorem plain_buffer_in_bounds:
  assumes "plain_loop s start b = (Inr b', s')" and "\<not> pb_in_buf b"
  shows "pb_in_buf b' \<longrightarrow> length (pb_buf (TRIM_TRAILING s' start b')) < pb_cap (TRIM_TRAILING s' start b')"
  using plain_loop_fits [OF assms(1)] trim_fits [of b' s' start] assms(2)
  by (auto simp: buf_fits_def TRIM_TRAILING_def split: if_splits)


text \<open>A scalar on two lines.\<close>

definition two_lines :: oyl_scanner where
  "two_lines = the (oyl_scanner_new [] False [0x61, 0x62, LF, SP, 0x63])"

theorem plain_buffer_in_bounds_witness:
  "\<exists>b' :: plain_buf. pb_buf b' = [0x61, 0x62, SP, 0x63] \<and> length (pb_buf b') < pb_cap b'"
proof -
  let ?b = "\<lparr>pb_in_buf = False, pb_single = 0, pb_buf = [], pb_cap = 0\<rparr>"
  let ?b' = "\<lparr>pb_in_buf = True, pb_single = 2, pb_buf = [0x61, 0x62, SP, 0x63], pb_cap = 260\<rparr>"
  have "fst (plain_loop two_lines 0 ?b) = Inr ?b'" by code_simp
  then obtain t where "plain_loop two_lines 0 ?b = (Inr ?b', t)" by (metis prod.collapse)
  from plain_buffer_in_bounds [OF this, simplified] show ?thesis
    by (intro exI [of _ ?b']) (simp add: TRIM_TRAILING_def rtrim_def)
qed

end
