(* ===== verification/OylScanQuoted.thy ===== *)
theory OylScanQuoted
  imports OylScanPlain
begin

text \<open>
  Quoted scalars, tags and anchors of \<open>src/src/oyl_scanner.c\<close>: \<open>scan_single_quoted\<close>,
  \<open>scan_double_quoted\<close>, \<open>scan_tag\<close> and \<open>scan_anchor_or_alias\<close>.

  The output buffers are byte lists. The buffer of a single-quoted scalar grows (\<open>SQ_ENSURE\<close>), the
  one of a double-quoted scalar has the size a first pass over the text computes
  (\<open>dq_max_len\<close>), which is proved to be enough.
\<close>

section \<open>Breaks in quoted scalars\<close>

text \<open>\<open>while (!AT_END(s) && oyl_is_blank(PEEK(s))) advance(s, 1)\<close>\<close>

function advance_blanks :: "oyl_scanner \<Rightarrow> oyl_scanner" where
  "advance_blanks s = (if \<not> AT_END s \<and> oyl_is_blank (PEEK s) then advance_blanks (advance s 1) else s)"
  by pat_completeness auto
termination
  by (relation "measure REMAINING") (use advance1_less in \<open>auto simp: advance_1\<close>)

declare advance_blanks.simps [simp del]

function quoted_breaks :: "oyl_scanner \<Rightarrow> nat \<Rightarrow> oyl_scanner \<times> nat" where
  "quoted_breaks s n =
    (if \<not> AT_END s \<and> oyl_is_break (PEEK s) then quoted_breaks (advance_blanks (skip_break s)) (n + 1)
     else (s, n))"
  by pat_completeness auto

lemma advance_blanks_exact: "advance_blanks s = skip_white s"
proof (induction s rule: advance_blanks.induct)
  case (1 s)
  show ?case
  proof (cases "\<not> AT_END s \<and> oyl_is_blank (PEEK s)")
    case True
    then have hd: "BUF_AT s = PEEK s # BUF_AT (advance_cols s 1)"
      by (simp add: BUF_AT_def PEEK_def advance_cols_def AT_END_def Cons_nth_drop_Suc)
    have a: "advance1 s = advance_cols s (Suc 0)"
      using True by (auto simp: advance1_def advance_cols_def AT_END_def PEEK_def char_class)
    have "advance_blanks s = skip_white (advance_cols s 1)"
      using True 1 by (subst advance_blanks.simps) (simp add: a)
    also have "\<dots> = skip_white s"
      using True hd by (auto simp: skip_white_def advance_cols_def char_class)
    finally show ?thesis .
  next
    case False
    have "scan_until (\<lambda>c. c \<noteq> SP \<and> c \<noteq> TAB) (BUF_AT s) = 0"
    proof (cases "AT_END s")
      case True
      then show ?thesis by (simp add: BUF_AT_def AT_END_def)
    next
      case f: False
      then have "BUF_AT s = PEEK s # BUF_AT (advance_cols s 1)"
        by (simp add: BUF_AT_def PEEK_def advance_cols_def AT_END_def Cons_nth_drop_Suc)
      then show ?thesis using False f by (simp add: char_class)
    qed
    then show ?thesis using False by (subst advance_blanks.simps) (auto simp: skip_white_def advance_cols_def)
  qed
qed

termination quoted_breaks
  by (relation "measure (\<lambda>(s, n). REMAINING s)") (use break_blanks_less(3) in \<open>auto simp: advance_blanks_exact\<close>)

declare quoted_breaks.simps [simp del]

lemma quoted_breaks_exact: "quoted_breaks s n = spec_breaks s n"
  by (rule breaks_eqI [where g = advance_blanks])
    (simp_all add: quoted_breaks.simps [of s n for s n] advance_blanks_exact)

text \<open>What follows a fold: no document indicator at the start of the line, and enough indentation.\<close>

definition fold_error :: "oyl_scanner \<Rightarrow> byte \<Rightarrow> string \<Rightarrow> string option" where
  "fold_error s closer msg =
    (if sc_col s = 1 \<and> is_doc_indicator_at (sc_buf s) (sc_pos s) then Some msg
     else if \<not> continuation_indent_ok s closer
     then Some ''continuation line of a quoted scalar must be indented''
     else None)"

section \<open>Single-quoted scalars\<close>

definition SQ_ENSURE :: "oyl_scanner \<Rightarrow> byte list \<Rightarrow> nat \<Rightarrow> nat \<Rightarrow> nat option \<times> oyl_scanner" where
  "SQ_ENSURE s out cap n =
    (if length out + n \<ge> cap then
       let (ok, m) = mem_take (sc_mem s); s = s\<lparr>sc_mem := m\<rparr>
       in if \<not> ok then (None, s) else (Some ((length out + n) * 2 + 64), s)
     else (Some cap, s))"

text \<open>The loop up to the closing quote: the output and its capacity.\<close>

function sq_loop ::
    "oyl_scanner \<Rightarrow> byte list \<Rightarrow> nat \<Rightarrow> (oyl_status + byte list \<times> nat) \<times> oyl_scanner" where
  "sq_loop s out cap =
    (if AT_END s then (Inr (out, cap), s)
     else if PEEK s = SQUOTE then
       (if sc_pos s + 1 < length (sc_buf s) \<and> sc_buf s ! (sc_pos s + 1) = SQUOTE then
          (case SQ_ENSURE s out cap 1 of
             (None, s') \<Rightarrow> (Inl OYL_ERR_MEMORY, s')
           | (Some cap, s') \<Rightarrow> sq_loop (advance s' 2) (out @ [SQUOTE]) cap)
        else (Inr (out, cap), s))
     else if oyl_is_break (PEEK s) then
       (let out = rtrim out; (t, break_count) = quoted_breaks s 0
        in case fold_error t SQUOTE ''document indicator in single-quoted scalar'' of
             Some msg \<Rightarrow> scan_error t msg
           | None \<Rightarrow>
              (case SQ_ENSURE t out cap break_count of
                 (None, s') \<Rightarrow> (Inl OYL_ERR_MEMORY, s')
               | (Some cap, s') \<Rightarrow> sq_loop s' (out @ folded break_count) cap))
     else
       (let n = oyl_find_any4 (BUF_AT s) SQUOTE LF CR SQUOTE
        in case SQ_ENSURE s out cap n of
             (None, s') \<Rightarrow> (Inl OYL_ERR_MEMORY, s')
           | (Some cap, s') \<Rightarrow> sq_loop (advance_cols s' n) (out @ take n (BUF_AT s)) cap))"
  by pat_completeness auto

lemma SQ_ENSURE_mem: "SQ_ENSURE s out cap n = (r, s') \<Longrightarrow> mem_only s s'"
  by (auto simp: SQ_ENSURE_def Let_def split: prod.splits if_splits)

lemma advance_less: "\<not> AT_END s \<Longrightarrow> 0 < n \<Longrightarrow> REMAINING (advance s n) < REMAINING s"
  by (rule REMAINING_less [OF advance_moves]) (simp_all add: advance_pos AT_END_def REMAINING_def)

lemma advance_cols_less: "\<not> AT_END s \<Longrightarrow> 0 < n \<Longrightarrow> n \<le> REMAINING s \<Longrightarrow> REMAINING (advance_cols s n) < REMAINING s"
  by (rule REMAINING_less [OF advance_cols_moves]) (simp_all add: advance_cols_def)

text \<open>A run up to the next of four bytes is not empty when the cursor is at none of them.\<close>

lemma BUF_AT_Cons: "\<not> AT_END s \<Longrightarrow> BUF_AT s = PEEK s # drop 1 (BUF_AT s)"
  by (simp add: BUF_AT_def PEEK_def AT_END_def Cons_nth_drop_Suc)

lemma find_any4_pos:
  assumes "\<not> AT_END s" and "PEEK s \<noteq> a" "PEEK s \<noteq> b" "PEEK s \<noteq> c" "PEEK s \<noteq> d"
  shows "0 < oyl_find_any4 (BUF_AT s) a b c d"
  unfolding oyl_find_any4_eq by (subst BUF_AT_Cons [OF assms(1)]) (simp add: assms)

lemma find_any4_le: "oyl_find_any4 (BUF_AT s) a b c d \<le> REMAINING s"
  using any4.scan_le [of "BUF_AT s" a b c d] by simp

termination sq_loop
proof (relation "measure (\<lambda>(s, out, cap). REMAINING s)", goal_cases)
  case (2 s out cap p s' cap')
  then have "mem_only s s'" using SQ_ENSURE_mem by metis
  then show ?case using 2 advance_less [of s' 2] by (simp add: mem_only_eqs)
next
  case (3 s out cap out' p t n p' s' cap')
  then have "mem_only t s'" using SQ_ENSURE_mem by metis
  moreover have "spec_breaks s 0 = (t, n)" using 3 by (simp add: quoted_breaks_exact)
  ultimately show ?case using 3 spec_breaks_less [of s 0 t n] by (simp add: mem_only_eqs)
next
  case (4 s out cap n p s' cap')
  then have "mem_only s s'" using SQ_ENSURE_mem by metis
  moreover have "0 < n" using 4 find_any4_pos [of s SQUOTE LF CR SQUOTE] by (auto simp: char_class)
  moreover have "n \<le> REMAINING s" using 4 find_any4_le by simp
  ultimately show ?case using 4 advance_cols_less [of s' n] by (simp add: mem_only_eqs)
qed simp

declare sq_loop.simps [simp del]

text \<open>The end of a quoted scalar: its token, and the node recorded as a possible key.\<close>

definition quoted_token ::
    "oyl_scanner \<Rightarrow> oyl_mark \<Rightarrow> byte list \<Rightarrow> oyl_scalar_style \<Rightarrow> scan_result" where
  "quoted_token s start v style =
    (let s = s\<lparr>sc_last_token_col := int (mk_col start) - 1, sc_last_was_quoted := True\<rparr>;
         s = note_node s start (sc_pos s)
     in (Inr (tok_scalar v style start (mark s)), s))"

definition scan_single_quoted :: "oyl_scanner \<Rightarrow> scan_result" where
  "scan_single_quoted s =
    (let start = mark s;
         s = advance s 1;
         j = sc_pos s + oyl_find_any4_short (BUF_AT s) SQUOTE LF CR SQUOTE
     in if j < length (sc_buf s) \<and> sc_buf s ! j = SQUOTE \<and>
           \<not> (j + 1 < length (sc_buf s) \<and> sc_buf s ! (j + 1) = SQUOTE) then
          let v = sub_buf (sc_buf s) (sc_pos s) (j - sc_pos s);
              s = s\<lparr>sc_col := sc_col s + (j + 1 - sc_pos s), sc_pos := j + 1\<rparr>
          in quoted_token s start v OYL_SCALAR_SINGLE_QUOTED
        else
          let (ok, m) = mem_take (sc_mem s); s = s\<lparr>sc_mem := m\<rparr>
          in if \<not> ok then (Inl OYL_ERR_MEMORY, s)
             else case sq_loop s [] 64 of
                    (Inl e, s) \<Rightarrow> (Inl e, s)
                  | (Inr (out, cap), s) \<Rightarrow>
                      if PEEK s \<noteq> SQUOTE then scan_error s ''unterminated single-quoted scalar''
                      else quoted_token (advance s 1) start out OYL_SCALAR_SINGLE_QUOTED)"


section \<open>Double-quoted scalars\<close>

text \<open>The first pass: an upper bound of the number of bytes of the value.\<close>

function dq_max_len :: "byte list \<Rightarrow> nat \<Rightarrow> nat" where
  "dq_max_len buf scan =
    (if scan < length buf then
       let n = oyl_find_any4 (drop scan buf) DQUOTE BSLASH DQUOTE DQUOTE; p = scan + n
       in if p \<ge> length buf \<or> buf ! p = DQUOTE then n
          else n + (if p + 1 < length buf \<and> (buf ! (p + 1) = UC_N \<or> buf ! (p + 1) = UNDERSCORE) then 1 else 0) +
               1 + dq_max_len buf (p + 2)
     else 0)"
  by pat_completeness auto
termination
  by (relation "measure (\<lambda>(buf, scan). length buf - scan)") auto

declare dq_max_len.simps [simp del]

text \<open>UTF-8 encoding of a code point.\<close>

definition utf8_encode :: "32 word \<Rightarrow> byte list" where
  "utf8_encode cp =
    (if cp \<le> 0x7F then [ucast cp]
     else if cp \<le> 0x7FF then [ucast (0xC0 OR drop_bit 6 cp), ucast (0x80 OR (cp AND 0x3F))]
     else if cp \<le> 0xFFFF then
       [ucast (0xE0 OR drop_bit 12 cp), ucast (0x80 OR (drop_bit 6 cp AND 0x3F)), ucast (0x80 OR (cp AND 0x3F))]
     else
       [ucast (0xF0 OR drop_bit 18 cp), ucast (0x80 OR (drop_bit 12 cp AND 0x3F)),
        ucast (0x80 OR (drop_bit 6 cp AND 0x3F)), ucast (0x80 OR (cp AND 0x3F))])"

text \<open>The \<open>ndigits\<close> digits from offset \<open>i\<close> after the cursor; \<open>None\<close> if one is not hexadecimal.\<close>

fun hex_digits :: "oyl_scanner \<Rightarrow> nat \<Rightarrow> nat \<Rightarrow> 32 word \<Rightarrow> 32 word option" where
  "hex_digits s i 0 cp = Some cp"
| "hex_digits s i (Suc k) cp =
    (let c = PEEK_AT s i
     in if \<not> oyl_is_hex c then None
        else hex_digits s (i + 1) k (push_bit 4 cp OR ucast (hex_digit c)))"

text \<open>The escapes that stand for fixed bytes.\<close>

definition simple_escape :: "byte \<Rightarrow> byte list option" where
  "simple_escape esc =
    (if esc = DIGIT_0 then Some [NUL]
     else if esc = LC_A then Some [BEL]
     else if esc = LC_B then Some [BS]
     else if esc = LC_T then Some [TAB]
     else if esc = TAB then Some [TAB]
     else if esc = LC_N then Some [LF]
     else if esc = LC_V then Some [VT]
     else if esc = LC_F then Some [FF]
     else if esc = LC_R then Some [CR]
     else if esc = LC_E then Some [ESC]
     else if esc = SP then Some [SP]
     else if esc = DQUOTE then Some [DQUOTE]
     else if esc = SLASH then Some [SLASH]
     else if esc = BSLASH then Some [BSLASH]
     else if esc = UC_N then Some [0xC2, 0x85]
     else if esc = UNDERSCORE then Some [0xC2, 0xA0]
     else None)"

text \<open>The cases \<open>x\<close>, \<open>u\<close> and \<open>U\<close>, and an escaped line break, of the \<open>switch\<close> on the escaped byte.\<close>

definition dq_hex_escape :: "oyl_scanner \<Rightarrow> (oyl_status + byte list) \<times> oyl_scanner" where
  "dq_hex_escape s =
    (if REMAINING s < 2 then scan_error s (''incomplete '' @ CHR 0x5C # ''x escape sequence'')
     else let hi = PEEK s; lo = PEEK_AT s 1
          in if \<not> oyl_is_hex hi \<or> \<not> oyl_is_hex lo
             then scan_error s (''invalid hex digit in '' @ CHR 0x5C # ''x escape'')
             else (Inr [push_bit 4 (hex_digit hi) OR hex_digit lo], advance s 2))"

definition dq_unicode_escape :: "oyl_scanner \<Rightarrow> nat \<Rightarrow> (oyl_status + byte list) \<times> oyl_scanner" where
  "dq_unicode_escape s ndigits =
    (if REMAINING s < ndigits then scan_error s ''incomplete unicode escape sequence''
     else case hex_digits s 0 ndigits 0 of
            None \<Rightarrow> scan_error s ''invalid hex digit in unicode escape''
          | Some cp \<Rightarrow>
             (let s = advance s ndigits
              in if cp > 0x10FFFF then scan_error s ''unicode codepoint exceeds U+10FFFF''
                 else if cp \<ge> 0xD800 \<and> cp \<le> 0xDFFF then scan_error s ''surrogate pair in unicode escape''
                 else (Inr (utf8_encode cp), s)))"

definition dq_break_escape :: "oyl_scanner \<Rightarrow> byte \<Rightarrow> (oyl_status + byte list) \<times> oyl_scanner" where
  "dq_break_escape s esc =
    (let s = (if esc = CR \<and> PEEK s = LF then advance s 1 else s);
         s = advance_blanks s
     in if \<not> AT_END s \<and> \<not> oyl_is_break (PEEK s) \<and> \<not> continuation_indent_ok s DQUOTE
        then scan_error s ''continuation line of a quoted scalar must be indented''
        else (Inr [], s))"

text \<open>
  The \<open>switch\<close> on the byte after a backslash, which the cursor has just passed: the bytes to
  append (none for an escaped line break).
\<close>

definition dq_escape :: "oyl_scanner \<Rightarrow> byte \<Rightarrow> (oyl_status + byte list) \<times> oyl_scanner" where
  "dq_escape s esc =
    (case simple_escape esc of
       Some bs \<Rightarrow> (Inr bs, s)
     | None \<Rightarrow>
        if esc = LC_X then dq_hex_escape s
        else if esc = LC_U \<or> esc = UC_U then dq_unicode_escape s (if esc = LC_U then 4 else 8)
        else if esc = LF \<or> esc = CR then dq_break_escape s esc
        else scan_error s ''invalid escape sequence'')"

text \<open>
  The main loop: \<open>out\<close> is the value so far, \<open>ce\<close> (\<open>content_end\<close>) how much of it is not trimmed by
  a line fold. A run ends before a quote, a backslash or a break.
\<close>

function dq_loop :: "oyl_scanner \<Rightarrow> byte list \<Rightarrow> nat \<Rightarrow> (oyl_status + byte list) \<times> oyl_scanner" where
  "dq_loop s out ce =
    (if AT_END s \<or> PEEK s = DQUOTE then (Inr out, s)
     else if PEEK s = BSLASH then
       (let s1 = advance s 1
        in if AT_END s1 then scan_error s1 ''incomplete escape at end of input''
           else case dq_escape (advance s1 1) (PEEK s1) of
                  (Inl e, s2) \<Rightarrow> (Inl e, s2)
                | (Inr bs, s2) \<Rightarrow> dq_loop s2 (out @ bs) (length (out @ bs)))
     else if oyl_is_break (PEEK s) then
       (let out = take ce out; (t, break_count) = quoted_breaks s 0
        in case fold_error t DQUOTE ''document indicator in double-quoted scalar'' of
             Some msg \<Rightarrow> scan_error t msg
           | None \<Rightarrow> dq_loop t (out @ folded break_count) ce)
     else
       (let n = oyl_find_any4 (BUF_AT s) DQUOTE BSLASH LF CR; run = take n (BUF_AT s);
            k = length (rtrim run)
        in dq_loop (advance_cols s n) (out @ run) (if k > 0 then length out + k else ce)))"
  by pat_completeness auto

lemma advance_blanks_moves: "moves s (advance_blanks s)"
  by (simp add: advance_blanks_exact skip_white_moves)

text \<open>Chains of moves, for \<open>auto\<close>.\<close>

lemma moves_step:
  "moves s t \<Longrightarrow> moves s (advance1 t)" "moves s t \<Longrightarrow> moves s (advance t n)"
  "moves s t \<Longrightarrow> moves s (advance_blanks t)"
  "moves s t \<Longrightarrow> moves s (t\<lparr>sc_error_msg := e, sc_error_mark := k\<rparr>)"
  "moves s t \<Longrightarrow> moves s (t\<lparr>sc_mem := m\<rparr>)"
  "moves s t \<Longrightarrow> moves s (note_node t mk p)" "moves s t \<Longrightarrow> moves s (note_props t mk p)"
  "moves s t \<Longrightarrow> moves s (t\<lparr>sc_last_token_col := c\<rparr>)" "moves s t \<Longrightarrow> moves s (t\<lparr>sc_last_was_quoted := q\<rparr>)"
  "moves s t \<Longrightarrow> moves s (t\<lparr>sc_last_token_col := c, sc_last_was_quoted := q\<rparr>)"
  by (erule moves_trans, rule advance1_moves advance_moves advance_blanks_moves error_moves mem_update_moves
      note_moves moves_trans [OF note_moves(3) note_moves(4)])+

lemma dq_hex_escape_moves: "dq_hex_escape s = (r, s') \<Longrightarrow> moves s s'"
  by (auto simp: dq_hex_escape_def scan_error_def Let_def intro!: moves_step split: if_splits)

lemma dq_unicode_escape_moves: "dq_unicode_escape s n = (r, s') \<Longrightarrow> moves s s'"
  by (auto simp: dq_unicode_escape_def scan_error_def Let_def intro!: moves_step split: option.splits if_splits)

lemma dq_break_escape_moves: "dq_break_escape s esc = (r, s') \<Longrightarrow> moves s s'"
  by (auto simp: dq_break_escape_def scan_error_def Let_def intro!: moves_step split: if_splits)

lemma dq_escape_moves: "dq_escape s esc = (r, s') \<Longrightarrow> moves s s'"
  using dq_hex_escape_moves dq_unicode_escape_moves dq_break_escape_moves
  by (auto simp: dq_escape_def scan_error_def error_moves split: option.splits if_splits)

termination dq_loop
proof (relation "measure (\<lambda>(s, out, ce). REMAINING s)", goal_cases)
  case (2 s out ce s1 r s2 bs)
  have "moves (advance s1 1) s2" using 2 dq_escape_moves by metis
  with 2 have m: "moves s s2" and p: "sc_pos s1 \<le> sc_pos s2"
    using moves_trans advance_moves moves_pos by blast+
  have "sc_pos s < sc_pos s1" using 2 by (simp add: advance1_pos)
  with p have "sc_pos s < sc_pos s2" by simp
  with m 2 show ?case by (simp add: REMAINING_less)
next
  case (3 s out ce out' p t n)
  then have "spec_breaks s 0 = (t, n)" by (simp add: quoted_breaks_exact)
  with 3 show ?case using spec_breaks_less [of s 0 t n] by simp
next
  case (4 s out ce n)
  have "0 < n" using 4 find_any4_pos [of s DQUOTE BSLASH LF CR] by (auto simp: char_class)
  moreover have "n \<le> REMAINING s" using 4 find_any4_le by simp
  ultimately show ?case using 4 advance_cols_less [of s n] by simp
qed simp

declare dq_loop.simps [simp del]

definition scan_double_quoted :: "oyl_scanner \<Rightarrow> scan_result" where
  "scan_double_quoted s =
    (let start = mark s;
         s = advance s 1;
         j = sc_pos s + oyl_find_any4_short (BUF_AT s) DQUOTE BSLASH LF CR
     in if j < length (sc_buf s) \<and> sc_buf s ! j = DQUOTE then
          let v = sub_buf (sc_buf s) (sc_pos s) (j - sc_pos s);
              s = s\<lparr>sc_col := sc_col s + (j + 1 - sc_pos s), sc_pos := j + 1\<rparr>
          in quoted_token s start v OYL_SCALAR_DOUBLE_QUOTED
        else
          let (ok, m) = mem_take (sc_mem s); s = s\<lparr>sc_mem := m\<rparr>
          in if \<not> ok then (Inl OYL_ERR_MEMORY, s)
             else case dq_loop s [] 0 of
                    (Inl e, s) \<Rightarrow> (Inl e, s)
                  | (Inr out, s) \<Rightarrow>
                      if PEEK s \<noteq> DQUOTE then scan_error s ''unterminated double-quoted scalar''
                      else quoted_token (advance s 1) start out OYL_SCALAR_DOUBLE_QUOTED)"


section \<open>Tags, anchors and aliases\<close>

text \<open>
  The loops over the characters of a verbatim tag, of a tag, and of an anchor name: up to a byte
  that ends it, with an error at a control character.
\<close>

function name_loop :: "(byte \<Rightarrow> bool) \<Rightarrow> string \<Rightarrow> oyl_scanner \<Rightarrow> string option \<times> oyl_scanner" where
  "name_loop stop msg s =
    (if AT_END s \<or> stop (PEEK s) then (None, s)
     else if PEEK s < 0x20 \<or> PEEK s = DEL then (Some msg, s)
     else name_loop stop msg (advance s 1))"
  by pat_completeness auto
termination
  by (relation "measure (\<lambda>(stop, msg, s). REMAINING s)") (use advance1_less in auto)

declare name_loop.simps [simp del]

definition tag_token :: "oyl_scanner \<Rightarrow> oyl_mark \<Rightarrow> scan_result" where
  "tag_token s start =
    (let len = sc_pos s - mk_offset start;
         s = s\<lparr>sc_last_token_col := int (mk_col start) - 1\<rparr>;
         s = note_props s start (sc_pos s)
     in (Inr \<lparr>tok_type = OYL_TOK_TAG, tok_value = Some (sub_buf (sc_buf s) (mk_offset start) len),
              tok_style = OYL_SCALAR_PLAIN, tok_start = start, tok_end = mark s\<rparr>, s))"

definition verbatim_stop :: "byte \<Rightarrow> bool" where
  "verbatim_stop c \<longleftrightarrow> c = GT \<or> oyl_is_blank_or_break c"

definition tag_stop :: "byte \<Rightarrow> bool" where
  "tag_stop c \<longleftrightarrow> oyl_is_blank_or_break c \<or> oyl_is_flow c"

definition anchor_stop :: "byte \<Rightarrow> bool" where
  "anchor_stop c \<longleftrightarrow> oyl_is_blank_or_break c \<or> c = 0 \<or>
     c = COMMA \<or> c = LBRACK \<or> c = RBRACK \<or> c = LBRACE \<or> c = RBRACE"

definition scan_tag :: "oyl_scanner \<Rightarrow> scan_result" where
  "scan_tag s =
    (let start = mark s;
         s = advance s 1
     in if PEEK s \<noteq> BANG \<and> PEEK s = LT then
          (let s = advance s 1; uri_start = sc_pos s
           in case name_loop verbatim_stop ''control character in tag'' s of
                (Some msg, s) \<Rightarrow> scan_error s msg
              | (None, s) \<Rightarrow>
                 if PEEK s \<noteq> GT \<or> sc_pos s = uri_start then scan_error s ''invalid verbatim tag''
                 else tag_token (advance s 1) start)
        else
          (let s = (if PEEK s = BANG then advance s 1 else s)
           in case name_loop tag_stop ''control character in tag'' s of
                (Some msg, s) \<Rightarrow> scan_error s msg
              | (None, s) \<Rightarrow> tag_token s start))"

definition scan_anchor_or_alias :: "oyl_scanner \<Rightarrow> scan_result" where
  "scan_anchor_or_alias s =
    (let start = mark s;
         is_anchor = (PEEK s = AMP);
         s = advance s 1;
         name_start = sc_pos s
     in case name_loop anchor_stop ''control character in anchor or alias name'' s of
          (Some msg, s) \<Rightarrow> scan_error s msg
        | (None, s) \<Rightarrow>
           (let name_len = sc_pos s - name_start
            in if name_len = 0 then scan_error s ''empty anchor or alias name''
               else
                 let s = s\<lparr>sc_last_token_col := int (mk_col start) - 1\<rparr>;
                     s = (if \<not> is_anchor then note_node s start (sc_pos s) else note_props s start (sc_pos s))
                 in (Inr \<lparr>tok_type = (if is_anchor then OYL_TOK_ANCHOR else OYL_TOK_ALIAS),
                          tok_value = Some (sub_buf (sc_buf s) name_start name_len),
                          tok_style = OYL_SCALAR_PLAIN, tok_start = start, tok_end = mark s\<rparr>, s)))"

section \<open>Every routine only moves the cursor\<close>

lemma name_loop_moves: "name_loop stop msg s = (r, s') \<Longrightarrow> moves s s'"
proof (induction stop msg s rule: name_loop.induct)
  case (1 stop msg s)
  show ?case
    using 1(2) "1.IH" moves_trans [OF advance1_moves, of s s']
    by (auto simp: name_loop.simps [of stop msg s] split: if_splits)
qed

lemma quoted_token_moves: "quoted_token s k v style = (r, s') \<Longrightarrow> moves s s'"
  by (auto simp: quoted_token_def Let_def intro!: moves_step)

lemma tag_token_moves: "tag_token s k = (r, s') \<Longrightarrow> moves s s'"
  by (auto simp: tag_token_def Let_def intro!: moves_step)

lemma moves_via:
  "name_loop stop msg t = (r, s') \<Longrightarrow> moves s t \<Longrightarrow> moves s s'"
  "quoted_token t k v style = (q, s') \<Longrightarrow> moves s t \<Longrightarrow> moves s s'"
  "tag_token t k = (q, s') \<Longrightarrow> moves s t \<Longrightarrow> moves s s'"
  using name_loop_moves quoted_token_moves tag_token_moves moves_trans by blast+

lemma tag_rest_moves:
  "moves s t \<Longrightarrow> (case name_loop p e t of (Some msg, u) \<Rightarrow> scan_error u msg
     | (None, u) \<Rightarrow> if c u then scan_error u msg' else tag_token (advance u n) k) = (r, s') \<Longrightarrow> moves s s'"
  by (auto simp: scan_error_def split: prod.splits option.splits if_splits
      dest!: moves_via(1) [where s = s] dest: moves_via(3) [OF _ moves_step(2)] intro: moves_step)

lemma scan_tag_after:
  assumes "scan_tag s = (r, s')"
  shows "moves (advance1 s) s'"
proof -
  let ?t = "advance1 s"
  show ?thesis
  proof (cases "PEEK ?t \<noteq> BANG \<and> PEEK ?t = LT")
    case True
    with assms show ?thesis
      using tag_rest_moves [OF advance1_moves [of ?t], where r = r and s' = s' and n = 1]
      by (simp add: scan_tag_def Let_def)
  next
    case False
    have m: "moves ?t (if PEEK ?t = BANG then advance ?t 1 else ?t)" by (simp add: advance1_moves)
    from False assms show ?thesis
      using tag_rest_moves [OF m, where c = "\<lambda>u. False" and n = 0 and r = r and s' = s', simplified if_False advance.simps(1)]
      by (simp only: scan_tag_def Let_def advance_1 if_False)
  qed
qed

lemma scan_tag_moves: "scan_tag s = (r, s') \<Longrightarrow> moves s s'"
  using advance1_moves scan_tag_after by (rule moves_trans)

lemma scan_anchor_or_alias_after:
  assumes "scan_anchor_or_alias s = (r, s')"
  shows "moves (advance1 s) s'"
proof -
  obtain e u where u: "name_loop anchor_stop ''control character in anchor or alias name'' (advance1 s) = (e, u)"
    by fastforce
  have m: "moves (advance1 s) u" using name_loop_moves [OF u] .
  show ?thesis
    using assms u moves_step [OF m] moves_step(6,7) [OF moves_step(8) [OF m]]
    by (auto simp: scan_anchor_or_alias_def scan_error_def Let_def split: option.splits if_splits)
qed

lemma scan_anchor_or_alias_moves: "scan_anchor_or_alias s = (r, s') \<Longrightarrow> moves s s'"
  using advance1_moves scan_anchor_or_alias_after by (rule moves_trans)

lemma sq_ensure_moves:
  assumes "SQ_ENSURE t out cap n = (q, u)" and "moves s t"
  shows "moves s u" and "moves s (advance u k)" and "k \<le> REMAINING t \<Longrightarrow> moves s (advance_cols u k)"
proof -
  show m: "moves s u" using SQ_ENSURE_mem [OF assms(1)] assms(2) mem_only_eqs(1) moves_trans by blast
  then show "moves s (advance u k)" by (rule moves_step)
  show "moves s (advance_cols u k)" if "k \<le> REMAINING t"
    using moves_trans [OF m advance_cols_moves] that mem_only_eqs(6) [OF SQ_ENSURE_mem [OF assms(1)]] by simp
qed

lemma sq_loop_moves: "sq_loop s out cap = (r, s') \<Longrightarrow> moves s s'"
proof (induction s out cap rule: sq_loop.induct)
  case (1 s out cap)
  note u = sq_loop.simps [of s out cap]
  consider "AT_END s" | "\<not> AT_END s" "PEEK s = SQUOTE" | "\<not> AT_END s" "PEEK s \<noteq> SQUOTE" "oyl_is_break (PEEK s)"
    | "\<not> AT_END s" "PEEK s \<noteq> SQUOTE" "\<not> oyl_is_break (PEEK s)" by blast
  then show ?case
  proof cases
    case 1
    with "1.prems" show ?thesis by (simp add: u)
  next
    case 2
    show ?thesis
    proof (cases "sc_pos s + 1 < length (sc_buf s) \<and> sc_buf s ! (sc_pos s + 1) = SQUOTE")
      case True
      obtain q t where e: "SQ_ENSURE s out cap 1 = (q, t)" by fastforce
      note m = sq_ensure_moves [OF e moves_refl]
      show ?thesis
      proof (cases q)
        case None
        with e True 2 "1.prems" m show ?thesis by (simp add: u)
      next
        case (Some c)
        have "sq_loop (advance t 2) (out @ [SQUOTE]) c = (r, s')" using "1.prems" 2 True e Some by (simp add: u)
        from "1.IH"(1) [OF 2 True e [symmetric] Some this] m(2) moves_trans show ?thesis by blast
      qed
    qed (use 2 "1.prems" u in auto)
  next
    case 3
    obtain t n where t: "quoted_breaks s 0 = (t, n)" by fastforce
    then have mt: "moves s t" using spec_breaks_moves by (simp add: quoted_breaks_exact)
    show ?thesis
    proof (cases "fold_error t SQUOTE ''document indicator in single-quoted scalar''")
      case (Some msg)
      with 3 t "1.prems" mt show ?thesis by (auto simp: u scan_error_def intro!: moves_step)
    next
      case None
      obtain q v where e: "SQ_ENSURE t (rtrim out) cap n = (q, v)" by fastforce
      note m = sq_ensure_moves [OF e mt]
      show ?thesis
      proof (cases q)
        case None': None
        with e None 3 t "1.prems" m show ?thesis by (simp add: u)
      next
        case (Some c)
        have "sq_loop v (rtrim out @ folded n) c = (r, s')" using "1.prems" 3 t None e Some by (simp add: u)
        from "1.IH"(2) [OF 3 refl t [symmetric] refl None e [symmetric] Some this] m(1) moves_trans
        show ?thesis by blast
      qed
    qed
  next
    case 4
    let ?n = "oyl_find_any4 (BUF_AT s) SQUOTE LF CR SQUOTE"
    obtain q t where e: "SQ_ENSURE s out cap ?n = (q, t)" by fastforce
    note m = sq_ensure_moves [OF e moves_refl]
    show ?thesis
    proof (cases q)
      case None
      with e 4 "1.prems" m show ?thesis by (simp add: u Let_def)
    next
      case (Some c)
      have "sq_loop (advance_cols t ?n) (out @ take ?n (BUF_AT s)) c = (r, s')"
        using "1.prems" 4 e Some by (simp add: u Let_def)
      from "1.IH"(3) [OF 4 refl e [symmetric] Some this] m(3) [OF find_any4_le] moves_trans
      show ?thesis by blast
    qed
  qed
qed

lemma dq_loop_moves: "dq_loop s out ce = (r, s') \<Longrightarrow> moves s s'"
proof (induction s out ce rule: dq_loop.induct)
  case (1 s out ce)
  note u = dq_loop.simps [of s out ce]
  consider "AT_END s \<or> PEEK s = DQUOTE" | "\<not> (AT_END s \<or> PEEK s = DQUOTE)" "PEEK s = BSLASH"
    | "\<not> (AT_END s \<or> PEEK s = DQUOTE)" "PEEK s \<noteq> BSLASH" "oyl_is_break (PEEK s)"
    | "\<not> (AT_END s \<or> PEEK s = DQUOTE)" "PEEK s \<noteq> BSLASH" "\<not> oyl_is_break (PEEK s)" by blast
  then show ?case
  proof cases
    case 1
    with "1.prems" show ?thesis by (auto simp: u)
  next
    case 2
    obtain q t where e: "dq_escape (advance (advance s 1) 1) (PEEK (advance s 1)) = (q, t)" by fastforce
    have m: "moves s t" using dq_escape_moves [OF e]
      by (rule moves_trans [OF moves_step(2) [OF moves_step(2) [OF moves_refl]]])
    show ?thesis
    proof (cases "AT_END (advance s 1)")
      case True
      with 2 "1.prems" show ?thesis by (auto simp: u Let_def scan_error_def intro!: moves_step)
    next
      case False
      show ?thesis
      proof (cases q)
        case (Inl x)
        with 2 False e "1.prems" m show ?thesis by (simp add: u Let_def)
      next
        case (Inr bs)
        have "dq_loop t (out @ bs) (length (out @ bs)) = (r, s')" using "1.prems" 2 False e Inr by (simp add: u Let_def)
        from "1.IH"(1) [OF 2 refl False e [symmetric] Inr this] m moves_trans show ?thesis by blast
      qed
    qed
  next
    case 3
    obtain t n where t: "quoted_breaks s 0 = (t, n)" by fastforce
    then have mt: "moves s t" using spec_breaks_moves by (simp add: quoted_breaks_exact)
    show ?thesis
    proof (cases "fold_error t DQUOTE ''document indicator in double-quoted scalar''")
      case (Some msg)
      with 3 t "1.prems" mt show ?thesis by (auto simp: u scan_error_def intro!: moves_step)
    next
      case None
      have "dq_loop t (take ce out @ folded n) ce = (r, s')" using "1.prems" 3 t None by (simp add: u)
      from "1.IH"(2) [OF 3 refl t [symmetric] refl None this] mt moves_trans show ?thesis by blast
    qed
  next
    case 4
    let ?n = "oyl_find_any4 (BUF_AT s) DQUOTE BSLASH LF CR"
    let ?k = "length (rtrim (take ?n (BUF_AT s)))"
    have "dq_loop (advance_cols s ?n) (out @ take ?n (BUF_AT s)) (if ?k > 0 then length out + ?k else ce) = (r, s')"
      using "1.prems" 4 by (simp add: u Let_def)
    from "1.IH"(3) [OF 4 refl refl refl this] advance_cols_moves [OF find_any4_le] moves_trans
    show ?thesis by blast
  qed
qed

text \<open>The fast path: to one past the closing quote.\<close>

lemma jump_moves:
  assumes "j < length (sc_buf s)" and "sc_pos s \<le> j"
  shows "moves s (s\<lparr>sc_col := sc_col s + (j + 1 - sc_pos s), sc_pos := j + 1\<rparr>)"
  using assms by (auto simp: moves_def same_struct_def cursor_ok_def)

lemma scan_single_quoted_after:
  assumes "scan_single_quoted s = (r, s')"
  shows "moves (advance1 s) s'"
proof -
  define t where "t = advance1 s"
  have mt: "moves (advance1 s) t" by (simp add: t_def)
  define j where "j = sc_pos t + oyl_find_any4_short (BUF_AT t) SQUOTE LF CR SQUOTE"
  obtain ok m where m: "mem_take (sc_mem t) = (ok, m)" by fastforce
  let ?u = "t\<lparr>sc_mem := m\<rparr>"
  have mu: "moves (advance1 s) ?u" using mt by (rule moves_step)
  show ?thesis
  proof (cases "j < length (sc_buf t) \<and> sc_buf t ! j = SQUOTE \<and>
      \<not> (j + 1 < length (sc_buf t) \<and> sc_buf t ! (j + 1) = SQUOTE)")
    case True
    have "moves t (t\<lparr>sc_col := sc_col t + (j + 1 - sc_pos t), sc_pos := j + 1\<rparr>)"
      using True by (intro jump_moves) (simp_all add: j_def)
    with assms True mt show ?thesis
      by (simp add: scan_single_quoted_def t_def [symmetric] j_def [symmetric] Let_def)
        (blast intro: quoted_token_moves moves_trans)
  next
    case False
    obtain q v where q: "sq_loop ?u [] 64 = (q, v)" by fastforce
    have mv: "moves (advance1 s) v" using mu sq_loop_moves [OF q] by (rule moves_trans)
    from False assms have *: "(if \<not> ok then (Inl OYL_ERR_MEMORY, ?u)
        else case q of
          Inl e \<Rightarrow> (Inl e, v)
        | Inr (out, cap) \<Rightarrow>
            if PEEK v \<noteq> SQUOTE then scan_error v ''unterminated single-quoted scalar''
            else quoted_token (advance v 1) (mark s) out OYL_SCALAR_SINGLE_QUOTED) = (r, s')"
      by (auto simp: scan_single_quoted_def t_def [symmetric] j_def [symmetric] m q Let_def split: sum.splits)
    show ?thesis
    proof (cases "ok \<and> \<not> isl q \<and> PEEK v = SQUOTE")
      case True
      with * obtain out where "quoted_token (advance1 v) (mark s) out OYL_SCALAR_SINGLE_QUOTED = (r, s')"
        by (cases q) auto
      from moves_via(2) [OF this moves_step(1) [OF mv]] show ?thesis .
    next
      case False
      with * mu mv moves_step(4) [OF mv] show ?thesis by (cases q) (auto simp: scan_error_def split: if_splits)
    qed
  qed
qed

lemma scan_single_quoted_moves: "scan_single_quoted s = (r, s') \<Longrightarrow> moves s s'"
  using advance1_moves scan_single_quoted_after by (rule moves_trans)


lemma scan_double_quoted_after:
  assumes "scan_double_quoted s = (r, s')"
  shows "moves (advance1 s) s'"
proof -
  define t where "t = advance1 s"
  have mt: "moves (advance1 s) t" by (simp add: t_def)
  define j where "j = sc_pos t + oyl_find_any4_short (BUF_AT t) DQUOTE BSLASH LF CR"
  obtain ok m where m: "mem_take (sc_mem t) = (ok, m)" by fastforce
  let ?u = "t\<lparr>sc_mem := m\<rparr>"
  have mu: "moves (advance1 s) ?u" using mt by (rule moves_step)
  show ?thesis
  proof (cases "j < length (sc_buf t) \<and> sc_buf t ! j = DQUOTE")
    case True
    have "moves t (t\<lparr>sc_col := sc_col t + (j + 1 - sc_pos t), sc_pos := j + 1\<rparr>)"
      using True by (intro jump_moves) (simp_all add: j_def)
    with assms True mt show ?thesis
      by (simp add: scan_double_quoted_def t_def [symmetric] j_def [symmetric] Let_def)
        (blast intro: quoted_token_moves moves_trans)
  next
    case False
    obtain q v where q: "dq_loop ?u [] 0 = (q, v)" by fastforce
    have mv: "moves (advance1 s) v" using mu dq_loop_moves [OF q] by (rule moves_trans)
    from False assms have *: "(if \<not> ok then (Inl OYL_ERR_MEMORY, ?u)
        else case q of
          Inl e \<Rightarrow> (Inl e, v)
        | Inr out \<Rightarrow>
            if PEEK v \<noteq> DQUOTE then scan_error v ''unterminated double-quoted scalar''
            else quoted_token (advance v 1) (mark s) out OYL_SCALAR_DOUBLE_QUOTED) = (r, s')"
      by (auto simp: scan_double_quoted_def t_def [symmetric] j_def [symmetric] m q Let_def split: sum.splits)
    show ?thesis
    proof (cases "ok \<and> \<not> isl q \<and> PEEK v = DQUOTE")
      case True
      with * obtain out where "quoted_token (advance1 v) (mark s) out OYL_SCALAR_DOUBLE_QUOTED = (r, s')"
        by (cases q) auto
      from moves_via(2) [OF this moves_step(1) [OF mv]] show ?thesis .
    next
      case False
      with * mu mv moves_step(4) [OF mv] show ?thesis by (cases q) (auto simp: scan_error_def split: if_splits)
    qed
  qed
qed

lemma scan_double_quoted_moves: "scan_double_quoted s = (r, s') \<Longrightarrow> moves s s'"
  using advance1_moves scan_double_quoted_after by (rule moves_trans)

end
