(* ===== verification/OylScanBlock.thy ===== *)
theory OylScanBlock
  imports OylScanQuoted
begin

text \<open>
  Block scalars (literal and folded): the branch of \<open>oyl_scan_token\<close> in \<open>src/src/oyl_scanner.c\<close>
  for \<open>|\<close> and \<open>>\<close>. The header, the detection of the indentation, the first pass that measures the
  text, the second pass that copies it, the folding of the lines, and the chomping of the final
  breaks, each a function here.

  The size that the first pass computes is proved to be enough for what the second pass writes.
\<close>

section \<open>Header\<close>

text \<open>Chomping is 0 for clip, -1 for strip, 1 for keep; \<open>explicit_indent\<close> is 0 if not given.\<close>

fun bs_indicators :: "nat \<Rightarrow> oyl_scanner \<Rightarrow> int \<Rightarrow> int \<Rightarrow> int \<times> int \<times> oyl_scanner" where
  "bs_indicators 0 s chomp explicit_indent = (chomp, explicit_indent, s)"
| "bs_indicators (Suc i) s chomp explicit_indent =
    (if AT_END s \<or> oyl_is_break (PEEK s) then (chomp, explicit_indent, s)
     else
       let ch = PEEK s
       in if ch = DASH then bs_indicators i (advance s 1) (- 1) explicit_indent
          else if ch = PLUS then bs_indicators i (advance s 1) 1 explicit_indent
          else if ch \<ge> DIGIT_1 \<and> ch \<le> DIGIT_9
          then bs_indicators i (advance s 1) chomp (uint (ch - DIGIT_0))
          else (chomp, explicit_indent, s))"

function advance_to_break :: "oyl_scanner \<Rightarrow> oyl_scanner" where
  "advance_to_break s =
    (if \<not> AT_END s \<and> \<not> oyl_is_break (PEEK s) then advance_to_break (advance s 1) else s)"
  by pat_completeness auto
termination
  by (relation "measure REMAINING") (use advance1_less in auto)

declare advance_to_break.simps [simp del]

text \<open>The rest of the header line: blanks, a comment, and the line break.\<close>

definition bs_header_end :: "oyl_scanner \<Rightarrow> string option \<times> oyl_scanner" where
  "bs_header_end s =
    (let hdr_blanks = sc_pos s;
         s = advance_blanks s;
         comment = \<not> AT_END s \<and> PEEK s = HASH
     in if comment \<and> sc_pos s = hdr_blanks
        then (Some ''comment must be separated from other tokens by whitespace'', s)
        else
          let s = (if comment then advance_to_break s else s)
          in if \<not> AT_END s \<and> \<not> oyl_is_break (PEEK s) then (Some ''invalid block scalar indicator'', s)
             else (None, if \<not> AT_END s then skip_break s else s))"

section \<open>Indentation\<close>

text \<open>The spaces at an offset, and the offset after a CR and an LF, if they are there.\<close>

definition spaces_at :: "byte list \<Rightarrow> nat \<Rightarrow> nat" where
  "spaces_at buf p = scan_until (\<lambda>c. c \<noteq> SP) (drop p buf)"

definition skip_crlf :: "byte list \<Rightarrow> nat \<Rightarrow> nat" where
  "skip_crlf buf p =
    (let p = (if p < length buf \<and> buf ! p = CR then p + 1 else p)
     in if p < length buf \<and> buf ! p = LF then p + 1 else p)"

lemma skip_crlf_ge [simp]: "p \<le> skip_crlf buf p"
  by (auto simp: skip_crlf_def Let_def)

lemma skip_crlf_le: "p \<le> length buf \<Longrightarrow> skip_crlf buf p \<le> length buf"
  by (auto simp: skip_crlf_def Let_def)

lemma skip_crlf_break: "p < length buf \<Longrightarrow> oyl_is_break (buf ! p) \<Longrightarrow> p < skip_crlf buf p"
  by (auto simp: skip_crlf_def char_class Let_def)

lemma spaces_at_le: "p \<le> length buf \<Longrightarrow> p + spaces_at buf p \<le> length buf"
  using scan_until_le [of "\<lambda>c. c \<noteq> SP" "drop p buf"] by (simp add: spaces_at_def)

text \<open>
  The first content line: its indentation, or \<open>None\<close> if there is none (with the longest empty
  line), or an error.
\<close>

function bs_probe :: "byte list \<Rightarrow> int \<Rightarrow> nat \<Rightarrow> nat \<Rightarrow> string + nat option \<times> nat" where
  "bs_probe buf indent probe max_empty_indent =
    (if probe < length buf then
       let li = spaces_at buf probe
       in if probe + li \<ge> length buf then Inr (None, max li max_empty_indent)
          else if li = 0 \<and> is_doc_indicator_at buf probe then Inr (None, max_empty_indent)
          else if oyl_is_break (buf ! (probe + li))
          then bs_probe buf indent (skip_crlf buf (probe + li)) (max li max_empty_indent)
          else
            let min_indent = (if indent + 1 < 0 then 0 else indent + 1)
            in if int li \<ge> min_indent then
                 (if max_empty_indent > li
                  then Inl ''leading empty line in block scalar has more spaces than the first content line''
                  else Inr (Some li, max_empty_indent))
               else Inr (None, max_empty_indent)
     else Inr (None, max_empty_indent))"
  by pat_completeness auto
termination
proof (relation "measure (\<lambda>(buf, indent, probe, m). length buf - probe)", goal_cases)
  case (2 buf indent probe m li)
  then show ?case using skip_crlf_break [of "probe + li" buf] by simp
qed simp

declare bs_probe.simps [simp del]

definition bs_base_indent :: "oyl_scanner \<Rightarrow> int \<Rightarrow> string + nat" where
  "bs_base_indent s explicit_indent =
    (if explicit_indent > 0 then
       (let base = sc_indent s + explicit_indent
        in Inr (nat (if base < explicit_indent then explicit_indent else base)))
     else
       case bs_probe (sc_buf s) (sc_indent s) (sc_pos s) 0 of
         Inl msg \<Rightarrow> Inl msg
       | Inr (Some li, _) \<Rightarrow> Inr li
       | Inr (None, max_empty_indent) \<Rightarrow>
          (let min_indent = (if sc_indent s + 1 < 1 then 1 else sc_indent s + 1)
           in Inr (if int max_empty_indent > min_indent then max_empty_indent else nat min_indent)))"

section \<open>First pass: the size\<close>

text \<open>
  The number of bytes needed, and the offset where the scalar ends; \<open>None\<close> for a whitespace-only
  line with a tab in its indentation. \<open>b\<close> is the dispatch of the search for a break.
\<close>

definition tab_line :: "byte list \<Rightarrow> nat \<Rightarrow> bool" where
  "tab_line buf k =
    (buf ! k = TAB \<and>
     (let k = k + scan_until (\<lambda>c. c \<noteq> SP \<and> c \<noteq> TAB) (drop k buf)
      in k \<ge> length buf \<or> oyl_is_break (buf ! k)))"

function bs_measure :: "bool \<Rightarrow> byte list \<Rightarrow> nat \<Rightarrow> nat \<Rightarrow> nat \<Rightarrow> (nat \<times> nat) option" where
  "bs_measure b buf base p needed =
    (if p < length buf then
       let li = spaces_at buf p
       in if p + li \<ge> length buf then Some (needed + (if li > base then li - base else 0) + 1, p + li)
          else if oyl_is_break (buf ! (p + li))
          then bs_measure b buf base (skip_crlf buf (p + li))
                 (needed + (if li > base then li - base + 1 else 1))
          else if li = 0 \<and> is_doc_indicator_at buf p then Some (needed, p)
          else if li < base then (if tab_line buf (p + li) then None else Some (needed, p))
          else
            let line_start = p + base; rest = oyl_scan_to_break b (drop line_start buf)
            in bs_measure b buf base (skip_crlf buf (line_start + rest)) (needed + rest + 1)
     else Some (needed, p))"
  by pat_completeness auto

text \<open>A content line is not empty after its indentation.\<close>

lemma spaces_at_nth: "p + k < length buf \<Longrightarrow> k < spaces_at buf p \<Longrightarrow> buf ! (p + k) = SP"
  using scan_until_before [of k "\<lambda>c. c \<noteq> SP" "drop p buf"] by (simp add: spaces_at_def)

lemma content_rest:
  assumes "p + li < length buf" and "li = spaces_at buf p" and "\<not> oyl_is_break (buf ! (p + li))" and "base \<le> li"
  shows "li - base < oyl_scan_to_break b (drop (p + base) buf)"
proof (rule ccontr)
  let ?r = "oyl_scan_to_break b (drop (p + base) buf)"
  assume r: "\<not> li - base < ?r"
  with assms(1,4) have "?r < length (drop (p + base) buf)" by simp
  then have br: "buf ! (p + base + ?r) = LF \<or> buf ! (p + base + ?r) = CR"
    using breaks.scan_at [of b "drop (p + base) buf"] by simp
  show False
  proof (cases "base + ?r = li")
    case True
    with br assms(3) show False by (auto simp: char_class add.assoc)
  next
    case False
    then have "base + ?r < spaces_at buf p" using r assms(2,4) by simp
    then have "buf ! (p + (base + ?r)) = SP" using assms by (intro spaces_at_nth) auto
    with br show False by (auto simp: add.assoc)
  qed
qed

termination bs_measure
proof (relation "measure (\<lambda>(b, buf, base, p, needed). length buf - p)", goal_cases)
  case (2 b buf base p needed li)
  then show ?case using skip_crlf_break [of "p + li" buf] by simp
next
  case (3 b buf base p needed li line_start rest)
  then have "li - base < rest" using content_rest [of p li buf base b] by simp
  moreover have "line_start + rest \<le> skip_crlf buf (line_start + rest)" by simp
  ultimately have "p < skip_crlf buf (line_start + rest)" using 3 by linarith
  with 3 show ?case by simp
qed simp

declare bs_measure.simps [simp del]


section \<open>Second pass: the text and its lines\<close>

record bsline =
  bl_start :: nat
  bl_len :: nat
  bl_empty :: bool
  bl_extra_indent :: int

text \<open>
  The number of lines up to \<open>end_pos\<close>, for the allocation of their array. Here and in the copy
  \<open>end_pos\<close> is at most the length of the input (\<open>bs_measure_end\<close>), so the second condition of the
  loop follows from the first; it makes the functions total.
\<close>

function bs_count_lines :: "bool \<Rightarrow> byte list \<Rightarrow> nat \<Rightarrow> nat \<Rightarrow> nat" where
  "bs_count_lines b buf end_pos tp =
    (if tp < end_pos \<and> tp < length buf then
       let tp1 = tp + oyl_scan_to_break b (sub_buf buf tp (end_pos - tp));
           tp2 = (if tp1 < end_pos \<and> buf ! tp1 = CR then tp1 + 1 else tp1);
           tp3 = (if tp2 < end_pos \<and> buf ! tp2 = LF then tp2 + 1 else tp2)
       in 1 + bs_count_lines b buf end_pos tp3
     else 0)"
  by pat_completeness auto
termination
proof (relation "measure (\<lambda>(b, buf, end_pos, tp). end_pos - tp)", goal_cases)
  case (2 b buf end_pos tp tp1 tp2 tp3)
  let ?xs = "sub_buf buf tp (end_pos - tp)"
  have "0 < length ?xs" and hd: "?xs ! 0 = buf ! tp" using 2 by (simp_all add: sub_buf_def)
  then have "tp1 = tp \<Longrightarrow> buf ! tp = LF \<or> buf ! tp = CR"
    using breaks.scan_at [of b ?xs] 2 by auto
  then have "tp < tp3" using 2 by (cases "tp1 = tp") (auto split: if_splits)
  with 2 show ?case by auto
qed simp

declare bs_count_lines.simps [simp del]

definition skip_break_here :: "oyl_scanner \<Rightarrow> oyl_scanner" where
  "skip_break_here s = (if \<not> AT_END s \<and> oyl_is_break (PEEK s) then skip_break s else s)"

text \<open>
  The copy: the text with every line ended by a line feed and, for the folded style, the lines.
\<close>

function bs_copy ::
    "oyl_scanner \<Rightarrow> nat \<Rightarrow> nat \<Rightarrow> bool \<Rightarrow> byte list \<Rightarrow> bsline list \<Rightarrow> byte list \<times> bsline list \<times> oyl_scanner" where
  "bs_copy s base end_pos is_folded out lines =
    (if sc_pos s < end_pos \<and> sc_pos s < length (sc_buf s) then
       let buf = sc_buf s;
           p = sc_pos s;
           li = spaces_at buf p;
           line_is_break = (p + li \<ge> end_pos \<or> p + li < length buf \<and> oyl_is_break (buf ! (p + li)))
       in if line_is_break \<and> li \<le> base then
            let lines = (if is_folded then lines @ [\<lparr>bl_start = length out, bl_len = 0, bl_empty = True,
                           bl_extra_indent = 0\<rparr>] else lines)
            in bs_copy (skip_break_here (advance_cols s li)) base end_pos is_folded (out @ [LF]) lines
          else if \<not> line_is_break \<and> li < base then (out, lines, s)
          else
            let extra = li - base;
                s1 = advance_cols (advance_cols s base) extra;
                starts_with_ws = (extra > 0 \<or>
                  \<not> AT_END s1 \<and> \<not> oyl_is_break (PEEK s1) \<and> oyl_is_blank (PEEK s1));
                n = oyl_scan_to_break (sc_sse42 s) (BUF_AT s1);
                content = replicate extra SP @ take n (BUF_AT s1);
                lines = (if is_folded then lines @ [\<lparr>bl_start = length out, bl_len = length content,
                           bl_empty = False, bl_extra_indent = (if starts_with_ws then 1 else 0)\<rparr>] else lines)
            in bs_copy (skip_break_here (advance_cols s1 n)) base end_pos is_folded (out @ content @ [LF]) lines
     else (out, lines, s))"
  by pat_completeness auto

lemma skip_break_here_moves: "moves s (skip_break_here s)"
  by (simp add: skip_break_here_def skip_break_moves)

lemma skip_break_here_pos: "sc_pos s \<le> sc_pos (skip_break_here s)"
  using skip_break_here_moves moves_pos by blast

lemma skip_break_here_break:
  "\<not> AT_END s \<Longrightarrow> oyl_is_break (PEEK s) \<Longrightarrow> sc_pos s < sc_pos (skip_break_here s)"
  using skip_break_pos [of s] by (simp add: skip_break_here_def)

lemma spaces_remaining: "\<not> AT_END s \<Longrightarrow> spaces_at (sc_buf s) (sc_pos s) \<le> REMAINING s"
  using spaces_at_le [of "sc_pos s" "sc_buf s"] by (simp add: AT_END_def REMAINING_def)

lemma bs_empty_line_moves:
  assumes "\<not> AT_END s" and "li = spaces_at (sc_buf s) (sc_pos s)"
  shows "moves s (skip_break_here (advance_cols s li))"
  using assms spaces_remaining by (intro moves_trans [OF advance_cols_moves skip_break_here_moves]) simp

lemma bs_empty_line_pos:
  assumes "\<not> AT_END s" and "li = spaces_at (sc_buf s) (sc_pos s)"
    and "0 < li \<or> oyl_is_break (sc_buf s ! (sc_pos s + li))"
  shows "sc_pos s < sc_pos (skip_break_here (advance_cols s li))"
proof (cases "0 < li")
  case True
  then show ?thesis using skip_break_here_pos [of "advance_cols s li"] by (simp add: advance_cols_def)
next
  case False
  with assms have "PEEK (advance_cols s li) = sc_buf s ! (sc_pos s + li)" "\<not> AT_END (advance_cols s li)"
    by (simp_all add: PEEK_def AT_END_def advance_cols_def)
  with assms(3) False skip_break_here_break [of "advance_cols s li"] show ?thesis
    by (simp add: advance_cols_def)
qed

text \<open>The cursor after the indentation of a content line.\<close>

lemma bs_indented:
  assumes "\<not> AT_END s" and "li = spaces_at (sc_buf s) (sc_pos s)" and "base \<le> li"
  shows "advance_cols (advance_cols s base) (li - base) = advance_cols s li" and "moves s (advance_cols s li)"
  using assms spaces_remaining [OF assms(1)] by (simp_all add: advance_cols_def advance_cols_moves)
    (auto simp: moves_def same_struct_def cursor_ok_def REMAINING_def)

lemma bs_content_line_moves:
  assumes "\<not> AT_END s" and "li = spaces_at (sc_buf s) (sc_pos s)"
  shows "moves s (skip_break_here (advance_cols (advance_cols s li) (oyl_scan_to_break b (BUF_AT (advance_cols s li)))))"
proof -
  have "moves s (advance_cols s li)" using assms spaces_remaining by (intro advance_cols_moves) simp
  then show ?thesis
    by (rule moves_trans [OF moves_trans [OF _ advance_cols_moves] skip_break_here_moves]) simp
qed

lemma bs_content_line_pos:
  assumes "\<not> AT_END s" and "li = spaces_at (sc_buf s) (sc_pos s)"
    and "0 < li \<or> sc_pos s + li < length (sc_buf s) \<and> \<not> oyl_is_break (sc_buf s ! (sc_pos s + li))"
  shows "sc_pos s < sc_pos (skip_break_here (advance_cols (advance_cols s li)
      (oyl_scan_to_break b (BUF_AT (advance_cols s li)))))"
proof -
  let ?n = "oyl_scan_to_break b (BUF_AT (advance_cols s li))"
  have "0 < li \<or> 0 < ?n"
    using content_rest [of "sc_pos s" li "sc_buf s" li b] assms(2,3)
    by (auto simp: BUF_AT_def advance_cols_def)
  then show ?thesis
    using skip_break_here_pos [of "advance_cols (advance_cols s li) ?n"] by (auto simp: advance_cols_def)
qed

termination bs_copy
proof (relation "measure (\<lambda>(s, base, end_pos, is_folded, out, lines). REMAINING s)", goal_cases)
  case (2 s base end_pos is_folded out lines buf p li brk lines')
  then have e: "\<not> AT_END s" and li: "li = spaces_at (sc_buf s) (sc_pos s)" by (simp_all add: AT_END_def)
  have "0 < li \<or> oyl_is_break (sc_buf s ! (sc_pos s + li))" using 2 by auto
  from REMAINING_less [OF bs_empty_line_moves [OF e li] bs_empty_line_pos [OF e li this] e] show ?case by simp
next
  case (3 s base end_pos is_folded out lines buf p li brk extra s1 starts n content lines')
  then have e: "\<not> AT_END s" and li: "li = spaces_at (sc_buf s) (sc_pos s)" by (simp_all add: AT_END_def)
  have base: "base \<le> li" using 3 by auto
  have s1: "s1 = advance_cols s li" using bs_indented(1) [OF e li base] 3 by simp
  have "0 < li \<or> sc_pos s + li < length (sc_buf s) \<and> \<not> oyl_is_break (sc_buf s ! (sc_pos s + li))"
    using 3 by auto
  from REMAINING_less [OF bs_content_line_moves [OF e li] bs_content_line_pos [OF e li this] e] s1 3 show ?case
    by simp
qed simp

declare bs_copy.simps [simp del]


section \<open>The two passes agree\<close>

lemma bs_measure_end:
  "bs_measure b buf base p n0 = Some (n, e) \<Longrightarrow> p \<le> length buf \<Longrightarrow> p \<le> e \<and> e \<le> length buf \<and> n0 \<le> n"
proof (induction b buf base p n0 rule: bs_measure.induct)
  case (1 b buf base p n0)
  note u = bs_measure.simps [of b buf base p n0]
  define li where "li = spaces_at buf p"
  have li: "p + li \<le> length buf" using "1.prems"(2) spaces_at_le by (simp add: li_def)
  consider "p \<ge> length buf" | "p < length buf" "p + li \<ge> length buf"
    | "p < length buf" "\<not> p + li \<ge> length buf" "oyl_is_break (buf ! (p + li))"
    | "p < length buf" "\<not> p + li \<ge> length buf" "\<not> oyl_is_break (buf ! (p + li))"
      "li = 0 \<and> is_doc_indicator_at buf p \<or> li < base"
    | "p < length buf" "\<not> p + li \<ge> length buf" "\<not> oyl_is_break (buf ! (p + li))"
      "\<not> (li = 0 \<and> is_doc_indicator_at buf p)" "\<not> li < base"
    by linarith
  then show ?case
  proof cases
    case 3
    have "bs_measure b buf base (skip_crlf buf (p + li)) (n0 + (if li > base then li - base + 1 else 1)) = Some (n, e)"
      using "1.prems"(1) 3 by (simp add: u li_def [symmetric])
    from "1.IH"(1) [OF 3(1) li_def 3(2,3) this skip_crlf_le [OF li]]
    show ?thesis using le_trans [OF skip_crlf_ge [of "p + li" buf], of e] by (auto simp del: skip_crlf_ge split: if_splits)
  next
    case 5
    let ?r = "oyl_scan_to_break b (drop (p + base) buf)"
    have r: "p + base + ?r \<le> length buf" using breaks.scan_le [of b "drop (p + base) buf"] 5 by simp
    have "bs_measure b buf base (skip_crlf buf (p + base + ?r)) (n0 + ?r + 1) = Some (n, e)"
      using "1.prems"(1) 5 unfolding u li_def [symmetric] Let_def by (simp only: if_True if_False)
    from "1.IH"(2) [OF 5(1) li_def 5(2-5) refl refl this skip_crlf_le [OF r]] skip_crlf_ge [of "p + base + ?r" buf]
    show ?thesis by linarith
  qed (use "1.prems" li in \<open>auto simp: u li_def [symmetric] Let_def split: if_splits\<close>)
qed

lemma skip_break_here_crlf: "sc_pos (skip_break_here s) = skip_crlf (sc_buf s) (sc_pos s)"
proof (cases "\<not> AT_END s \<and> oyl_is_break (PEEK s)")
  case True
  then show ?thesis
    by (auto simp: skip_break_here_def skip_break_def skip_crlf_def AT_END_def PEEK_def char_class Let_def)
next
  case False
  then show ?thesis
    by (auto simp: skip_break_here_def skip_crlf_def AT_END_def PEEK_def char_class Let_def)
qed

text \<open>The rest of a content line from its indentation, and from its first other byte.\<close>

lemma rest_split:
  assumes "p + li \<le> length buf" and "li = spaces_at buf p" and "base \<le> li"
  shows "oyl_scan_to_break b (drop (p + base) buf) = (li - base) + oyl_scan_to_break b' (drop (p + li) buf)"
proof -
  have eq: "drop (p + base) buf = sub_buf buf (p + base) (li - base) @ drop (p + li) buf"
    using append_take_drop_id [of "li - base" "drop (p + base) buf"] assms(3)
    by (simp add: sub_buf_def add.commute)
  have sp: "c = SP" if c: "c \<in> set (sub_buf buf (p + base) (li - base))" for c
  proof -
    obtain k where "k < li - base" "c = buf ! (p + base + k)"
      using c assms(1) by (auto simp: in_set_conv_nth sub_buf_def)
    then show "c = SP" using spaces_at_nth [of p "base + k" buf] assms by (simp add: add.assoc)
  qed
  moreover have "length (sub_buf buf (p + base) (li - base)) = li - base" using assms by simp
  ultimately show ?thesis
    unfolding eq oyl_scan_to_break_eq by (subst scan_until_append) (auto dest: sp)
qed

text \<open>The copy of one line.\<close>

lemma bs_copy_end: "\<not> sc_pos s < end_pos \<Longrightarrow> bs_copy s base end_pos is_folded out lines = (out, lines, s)"
  by (simp add: bs_copy.simps [of s])

lemma bs_copy_empty_line:
  assumes "sc_pos s < end_pos" and "end_pos \<le> length (sc_buf s)" and "li = spaces_at (sc_buf s) (sc_pos s)"
    and "sc_pos s + li \<ge> end_pos \<or> oyl_is_break (sc_buf s ! (sc_pos s + li))" and "li \<le> base"
  shows "\<exists>lines' s'. bs_copy s base end_pos is_folded out lines =
      bs_copy s' base end_pos is_folded (out @ [LF]) lines' \<and>
    sc_buf s' = sc_buf s \<and> sc_sse42 s' = sc_sse42 s \<and> sc_pos s' = skip_crlf (sc_buf s) (sc_pos s + li)"
proof -
  have e: "\<not> AT_END s" using assms by (simp add: AT_END_def)
  let ?s = "skip_break_here (advance_cols s li)"
  have "sc_buf ?s = sc_buf s" "sc_sse42 ?s = sc_sse42 s"
    using bs_empty_line_moves [OF e assms(3)] by (simp_all add: moves_def same_struct_def)
  moreover have "sc_pos ?s = skip_crlf (sc_buf s) (sc_pos s + li)"
    by (simp add: skip_break_here_crlf) (simp add: advance_cols_def)
  moreover have "sc_pos s + li \<ge> end_pos \<or> sc_pos s + li < length (sc_buf s) \<and> oyl_is_break (sc_buf s ! (sc_pos s + li))"
    using assms(2,4) by linarith
  ultimately show ?thesis
    using assms(1,2,5) by (subst bs_copy.simps) (auto simp: assms(3) [symmetric] Let_def)
qed

lemma bs_copy_content_line:
  assumes "sc_pos s < end_pos" and "end_pos \<le> length (sc_buf s)" and "li = spaces_at (sc_buf s) (sc_pos s)"
    and "(sc_pos s + li \<ge> end_pos \<or> oyl_is_break (sc_buf s ! (sc_pos s + li))) \<longrightarrow> li > base" and "base \<le> li"
    and "n = oyl_scan_to_break (sc_sse42 s) (drop (sc_pos s + li) (sc_buf s))"
  shows "\<exists>lines' s'. bs_copy s base end_pos is_folded out lines =
      bs_copy s' base end_pos is_folded
        (out @ replicate (li - base) SP @ take n (drop (sc_pos s + li) (sc_buf s)) @ [LF]) lines' \<and>
    sc_buf s' = sc_buf s \<and> sc_sse42 s' = sc_sse42 s \<and> sc_pos s' = skip_crlf (sc_buf s) (sc_pos s + li + n)"
proof -
  have e: "\<not> AT_END s" using assms by (simp add: AT_END_def)
  have at: "BUF_AT (advance_cols s li) = drop (sc_pos s + li) (sc_buf s)" by (simp add: BUF_AT_def advance_cols_def)
  let ?s = "skip_break_here (advance_cols (advance_cols s li) n)"
  have "sc_buf ?s = sc_buf s" "sc_sse42 ?s = sc_sse42 s"
    using bs_content_line_moves [OF e assms(3), of "sc_sse42 s"] assms(6) at by (simp_all add: moves_def same_struct_def)
  moreover have "sc_pos ?s = skip_crlf (sc_buf s) (sc_pos s + li + n)"
    by (simp add: skip_break_here_crlf) (simp add: advance_cols_def)
  moreover have "\<not> ((sc_pos s + li \<ge> end_pos \<or> sc_pos s + li < length (sc_buf s) \<and>
      oyl_is_break (sc_buf s ! (sc_pos s + li))) \<and> li \<le> base)" using assms(4) by linarith
  ultimately show ?thesis
    using assms(1,2,5) at bs_indented(1) [OF e assms(3,5)]
    by (subst bs_copy.simps) (auto simp: assms(3,6) [symmetric] Let_def)
qed


text \<open>The size that the first pass computes is the size the second pass writes, and they end together.\<close>

lemma passes_agree:
  assumes "bs_measure b buf base p n0 = Some (n, e)" and "p \<le> length buf" and "sc_buf s = buf" and "sc_pos s = p"
    and "bs_copy s base e is_folded out lines = (out', lines', s')"
  shows "length out' + n0 = length out + n \<and> sc_pos s' = e"
  using assms
proof (induction b buf base p n0 arbitrary: s out lines rule: bs_measure.induct)
  case (1 b buf base p n0)
  note u = bs_measure.simps [of b buf base p n0]
  note s = "1.prems"(3,4)
  define li where "li = spaces_at buf p"
  have li: "p + li \<le> length buf" using "1.prems"(2) spaces_at_le by (simp add: li_def)
  have li': "li = spaces_at (sc_buf s) (sc_pos s)" using s by (simp add: li_def)
  have e: "e \<le> length (sc_buf s)" using bs_measure_end [OF "1.prems"(1,2)] s by simp
  consider "p \<ge> length buf" | "p < length buf" "p + li \<ge> length buf"
    | "p < length buf" "\<not> p + li \<ge> length buf" "oyl_is_break (buf ! (p + li))"
    | "p < length buf" "\<not> p + li \<ge> length buf" "\<not> oyl_is_break (buf ! (p + li))"
      "li = 0 \<and> is_doc_indicator_at buf p \<or> li < base"
    | "p < length buf" "\<not> p + li \<ge> length buf" "\<not> oyl_is_break (buf ! (p + li))"
      "\<not> (li = 0 \<and> is_doc_indicator_at buf p)" "\<not> li < base"
    by linarith
  then show ?case
  proof cases
    case 1
    then have "e = p" "n = n0" using "1.prems"(1) by (simp_all add: u)
    with "1.prems"(5) s show ?thesis by (simp add: bs_copy_end)
  next
    case 2
    then have n: "n = n0 + (if li > base then li - base else 0) + 1" and ep: "e = p + li"
      using "1.prems"(1) by (simp_all add: u li_def [symmetric])
    have pe: "sc_pos s < e" using 2 s ep by simp
    have z: "drop (sc_pos s + li) (sc_buf s) = []" using 2 s by simp
    have end_at: "skip_crlf buf (p + li) = e" using 2 ep by (simp add: skip_crlf_def)
    show ?thesis
    proof (cases "li \<le> base")
      case True
      from bs_copy_empty_line [OF pe e li' _ True, of is_folded out lines] ep s
      obtain l t where "bs_copy s base e is_folded out lines = bs_copy t base e is_folded (out @ [LF]) l"
        "sc_pos t = skip_crlf buf (p + li)" by auto
      with "1.prems"(5) end_at n True show ?thesis by (auto simp: bs_copy_end)
    next
      case False
      then have "base \<le> li" by simp
      from bs_copy_content_line [OF pe e li' _ this refl, of is_folded out lines] False s z
      obtain l t where "bs_copy s base e is_folded out lines =
          bs_copy t base e is_folded (out @ replicate (li - base) SP @ [LF]) l"
        "sc_pos t = skip_crlf buf (p + li)" by (auto simp: oyl_scan_to_break_eq)
      with "1.prems"(5) end_at n False show ?thesis by (auto simp: bs_copy_end)
    qed
  next
    case 3
    let ?p = "skip_crlf buf (p + li)"
    let ?k = "if li > base then li - base + 1 else 1"
    have m: "bs_measure b buf base ?p (n0 + ?k) = Some (n, e)"
      using "1.prems"(1) 3 by (simp add: u li_def [symmetric])
    have p': "?p \<le> length buf" using li by (rule skip_crlf_le)
    have "p + li < ?p" using skip_crlf_break 3 by simp
    then have pe: "sc_pos s < e" using bs_measure_end [OF m p'] s by linarith
    have "\<exists>l t o'. bs_copy s base e is_folded out lines = bs_copy t base e is_folded (out @ o') l \<and>
        sc_buf t = buf \<and> sc_pos t = ?p \<and> length o' = ?k"
    proof (cases "li \<le> base")
      case True
      from bs_copy_empty_line [OF pe e li' _ True, of is_folded out lines] 3 s
      obtain l t where "bs_copy s base e is_folded out lines = bs_copy t base e is_folded (out @ [LF]) l"
        "sc_buf t = buf" "sc_pos t = ?p" by auto
      then show ?thesis using True by (intro exI [of _ l] exI [of _ t] exI [of _ "[LF]"]) simp
    next
      case False
      have "oyl_scan_to_break (sc_sse42 s) (drop (sc_pos s + li) (sc_buf s)) = 0"
        using 3 s by (subst Cons_nth_drop_Suc [symmetric]) (auto simp: oyl_scan_to_break_eq char_class)
      then obtain l t where "bs_copy s base e is_folded out lines =
          bs_copy t base e is_folded (out @ replicate (li - base) SP @ [LF]) l"
        "sc_buf t = buf" "sc_pos t = ?p"
        using bs_copy_content_line [OF pe e li' _ _ refl, of base is_folded out lines] False s by auto
      then show ?thesis using False
        by (intro exI [of _ l] exI [of _ t] exI [of _ "replicate (li - base) SP @ [LF]"]) simp
    qed
    then obtain l t o' where t: "bs_copy t base e is_folded (out @ o') l = (out', lines', s')"
      "sc_buf t = buf" "sc_pos t = ?p" "length o' = ?k" using "1.prems"(5) by metis
    from "1.IH"(1) [OF 3(1) li_def 3(2,3) m p' t(2,3,1)] t(4) show ?thesis by simp
  next
    case 4
    then have "e = p" "n = n0" using "1.prems"(1) by (simp_all add: u li_def [symmetric] split: if_splits)
    with "1.prems"(5) s show ?thesis by (simp add: bs_copy_end)
  next
    case 5
    let ?r = "oyl_scan_to_break b (drop (p + base) buf)"
    let ?n = "oyl_scan_to_break (sc_sse42 s) (drop (p + li) buf)"
    have r: "?r = (li - base) + ?n" using rest_split [OF li li_def, of base] 5 by simp
    have m: "bs_measure b buf base (skip_crlf buf (p + base + ?r)) (n0 + ?r + 1) = Some (n, e)"
      using "1.prems"(1) 5 unfolding u li_def [symmetric] Let_def by (simp only: if_True if_False)
    have at: "p + base + ?r = p + li + ?n" using r 5 by simp
    have n: "?n \<le> length buf - (p + li)" using breaks.scan_le [of "sc_sse42 s" "drop (p + li) buf"] by simp
    have p': "skip_crlf buf (p + base + ?r) \<le> length buf" using n 5 at by (intro skip_crlf_le) simp
    have "0 < ?n" using content_rest [of p li buf li "sc_sse42 s"] 5 li_def by simp
    then have "p + li < skip_crlf buf (p + base + ?r)" using at skip_crlf_ge [of "p + base + ?r" buf] by linarith
    then have le: "p + li < e" using bs_measure_end [OF m p'] by linarith
    then have pe: "sc_pos s < e" using s by simp
    from bs_copy_content_line [OF pe e li' _ _ refl, of base is_folded out lines] 5 le s
    obtain l t where t: "bs_copy s base e is_folded out lines = bs_copy t base e is_folded
        (out @ replicate (li - base) SP @ take ?n (drop (p + li) buf) @ [LF]) l"
      "sc_buf t = buf" "sc_pos t = skip_crlf buf (p + base + ?r)" using at by auto
    note c = trans [OF t(1) [symmetric] "1.prems"(5)]
    from "1.IH"(2) [OF 5(1) li_def 5(2-5) refl refl m p' t(2,3) c] r n show ?thesis by simp
  qed
qed


section \<open>Folding and chomping\<close>

function bs_fold :: "byte list \<Rightarrow> bsline list \<Rightarrow> byte list" where
  "bs_fold buf [] = []"
| "bs_fold buf (l # ls) =
    (if bl_empty l then LF # bs_fold buf ls
     else
       let more_indented = bl_extra_indent l > 0;
           empty_count = length (takeWhile bl_empty ls);
           rest = dropWhile bl_empty ls;
           breaks =
             (if rest = [] then LF # replicate empty_count LF
              else if more_indented then LF # replicate empty_count LF
              else if empty_count > 0
              then replicate (if bl_extra_indent (hd rest) > 0 then empty_count + 1 else empty_count) LF
              else if bl_extra_indent (hd rest) > 0 then [LF]
              else [SP])
       in sub_buf buf (bl_start l) (bl_len l) @ breaks @ bs_fold buf rest)"
  by pat_completeness auto
termination
proof (relation "measure (\<lambda>(buf, ls). length ls)", goal_cases)
  case (3 buf l ls m n rest breaks)
  then show ?case using length_dropWhile_le [of bl_empty ls] by simp
qed auto

declare bs_fold.simps [simp del]

definition chomp_strip :: "byte list \<Rightarrow> byte list" where
  "chomp_strip buf = rev (dropWhile (\<lambda>c. c = LF) (rev buf))"

text \<open>\<open>while (out > 1 && buf[out-1] == LF && buf[out-2] == LF) out--\<close>, on the reversed buffer.\<close>

fun drop_extra_breaks :: "byte list \<Rightarrow> byte list" where
  "drop_extra_breaks (x # y # r) = (if x = LF \<and> y = LF then drop_extra_breaks (y # r) else x # y # r)"
| "drop_extra_breaks r = r"

definition chomp_clip :: "byte list \<Rightarrow> byte list" where
  "chomp_clip buf =
    (if list_all (\<lambda>c. c = LF) buf then []
     else let r = drop_extra_breaks (rev buf)
          in if r \<noteq> [] \<and> hd r \<noteq> LF then rev r @ [LF] else rev r)"

definition bs_chomp :: "int \<Rightarrow> byte list \<Rightarrow> byte list" where
  "bs_chomp chomp buf =
    (if chomp = - 1 then chomp_strip buf else if chomp = 0 then chomp_clip buf else buf)"

section \<open>The block scalar token\<close>

text \<open>After the header, at the start of the first line.\<close>

definition bs_body :: "oyl_scanner \<Rightarrow> oyl_mark \<Rightarrow> bool \<Rightarrow> int \<Rightarrow> int \<Rightarrow> scan_result" where
  "bs_body s start is_folded chomp explicit_indent =
    (case bs_base_indent s explicit_indent of
       Inl msg \<Rightarrow> scan_error s msg
     | Inr base \<Rightarrow>
        (case bs_measure (sc_sse42 s) (sc_buf s) base (sc_pos s) 0 of
           None \<Rightarrow> scan_error s ''tabs are not allowed as indentation in a block scalar''
         | Some (needed, end_pos) \<Rightarrow>
            (let (ok, m) = mem_take (sc_mem s); s = s\<lparr>sc_mem := m\<rparr>
             in if \<not> ok then (Inl OYL_ERR_MEMORY, s)
                else
                  let (ok, m) = (if is_folded then mem_take (sc_mem s) else (True, sc_mem s));
                      s = s\<lparr>sc_mem := m\<rparr>
                  in if \<not> ok then (Inl OYL_ERR_MEMORY, s)
                     else
                       let (out, lines, s) = bs_copy s base end_pos is_folded [] [];
                           (ok, m) = (if is_folded \<and> lines \<noteq> [] then mem_take (sc_mem s) else (True, sc_mem s));
                           s = s\<lparr>sc_mem := m\<rparr>
                       in if \<not> ok then (Inl OYL_ERR_MEMORY, s)
                          else
                            let out = (if is_folded \<and> lines \<noteq> [] then bs_fold out lines else out);
                                style = (if is_folded then OYL_SCALAR_FOLDED else OYL_SCALAR_LITERAL)
                            in (Inr (tok_scalar (bs_chomp chomp out) style start (mark s)), s))))"

definition scan_block_scalar :: "oyl_scanner \<Rightarrow> scan_result" where
  "scan_block_scalar s =
    (let start = mark s;
         is_folded = (PEEK s \<noteq> PIPE);
         s = advance s 1;
         (chomp, explicit_indent, s) = bs_indicators 2 s 0 0
     in case bs_header_end s of
          (Some msg, s) \<Rightarrow> scan_error s msg
        | (None, s) \<Rightarrow> bs_body s start is_folded chomp explicit_indent)"

section \<open>The routine only moves the cursor\<close>

lemma bs_indicators_moves: "bs_indicators n s c e = (c', e', s') \<Longrightarrow> moves s s'"
proof (induction n s c e rule: bs_indicators.induct)
  case (2 i s c e)
  then show ?case
    using moves_trans [OF advance1_moves, of s s'] by (auto simp: Let_def split: if_splits)
qed simp

lemma advance_to_break_moves: "moves s (advance_to_break s)"
proof (induction s rule: advance_to_break.induct)
  case (1 s)
  then show ?case
    using moves_trans [OF advance1_moves] by (auto simp: advance_to_break.simps [of s])
qed

lemma bs_header_end_moves:
  assumes "bs_header_end s = (r, s')"
  shows "moves s s'"
proof -
  have "moves s (advance_blanks s)" by (rule advance_blanks_moves)
  moreover from this have "moves s (advance_to_break (advance_blanks s))"
    using advance_to_break_moves moves_trans by blast
  ultimately show ?thesis
    using assms moves_trans [OF _ skip_break_moves] by (auto simp: bs_header_end_def Let_def split: if_splits)
qed

lemma bs_copy_moves: "bs_copy s base e is_folded out lines = (out', lines', s') \<Longrightarrow> moves s s'"
proof (induction s base e is_folded out lines rule: bs_copy.induct)
  case (1 s base e is_folded out lines)
  define li where "li = spaces_at (sc_buf s) (sc_pos s)"
  show ?case
  proof (cases "sc_pos s < e \<and> sc_pos s < length (sc_buf s)")
    case False
    with "1.prems" show ?thesis by (simp add: bs_copy.simps [of s])
  next
    case in_text: True
    then have at: "\<not> AT_END s" by (simp add: AT_END_def)
    let ?br = "sc_pos s + li \<ge> e \<or> sc_pos s + li < length (sc_buf s) \<and> oyl_is_break (sc_buf s ! (sc_pos s + li))"
    consider "?br \<and> li \<le> base" | "\<not> (?br \<and> li \<le> base)" "\<not> ?br \<and> li < base"
      | "\<not> (?br \<and> li \<le> base)" "\<not> (\<not> ?br \<and> li < base)" by blast
    then show ?thesis
    proof cases
      case 1
      note ih = "1.IH"(1) [OF in_text refl refl li_def refl 1 refl]
      have "moves (skip_break_here (advance_cols s li)) s'"
        using "1.prems" in_text 1 by (intro ih) (simp add: bs_copy.simps [of s] li_def [symmetric] Let_def)
      with bs_empty_line_moves [OF at li_def] show ?thesis by (rule moves_trans)
    next
      case 2
      with "1.prems" in_text show ?thesis
        by (simp add: bs_copy.simps [of s] li_def [symmetric] Let_def)
    next
      case 3
      have base: "base \<le> li" using 3 by linarith
      note ih = "1.IH"(2) [OF in_text refl refl li_def refl 3 refl refl refl refl refl refl,
          unfolded bs_indented(1) [OF at li_def base]]
      have "moves (skip_break_here (advance_cols (advance_cols s li)
          (oyl_scan_to_break (sc_sse42 s) (BUF_AT (advance_cols s li))))) s'"
      proof (rule ih)
        show "bs_copy (skip_break_here (advance_cols (advance_cols s li)
            (oyl_scan_to_break (sc_sse42 s) (BUF_AT (advance_cols s li))))) base e is_folded
          (out @ (replicate (li - base) SP @ take (oyl_scan_to_break (sc_sse42 s) (BUF_AT (advance_cols s li)))
             (BUF_AT (advance_cols s li))) @ [LF])
          (if is_folded then lines @ [\<lparr>bl_start = length out,
             bl_len = length (replicate (li - base) SP @ take (oyl_scan_to_break (sc_sse42 s)
               (BUF_AT (advance_cols s li))) (BUF_AT (advance_cols s li))),
             bl_empty = False, bl_extra_indent = (if 0 < li - base \<or> \<not> AT_END (advance_cols s li) \<and>
               \<not> oyl_is_break (PEEK (advance_cols s li)) \<and> oyl_is_blank (PEEK (advance_cols s li)) then 1 else 0)\<rparr>]
           else lines) = (out', lines', s')"
          using "1.prems" in_text 3 unfolding bs_copy.simps [of s base e is_folded out lines] Let_def
            li_def [symmetric] bs_indented(1) [OF at li_def base]
          by (simp only: if_True if_False simp_thms)
      qed
      with bs_content_line_moves [OF at li_def] show ?thesis by (rule moves_trans)
    qed
  qed
qed


lemma bs_body_moves:
  assumes "bs_body s start is_folded chomp ei = (r, s')"
  shows "moves s s'"
proof -
  note mem = mem_update_moves [of s]
  have copied: "moves s t \<and> moves s (t\<lparr>sc_mem := k\<rparr>)"
    if "bs_copy (s\<lparr>sc_mem := m\<rparr>) base e f [] [] = (out, ls, t)" for m base e f out ls t k
    using moves_trans [OF mem bs_copy_moves [OF that]] moves_step(5) by blast
  from assms show ?thesis
    using copied mem
    by (auto simp: bs_body_def scan_error_def error_moves Let_def
        split: sum.splits option.splits prod.splits if_splits)
qed

lemma scan_block_scalar_after:
  assumes "scan_block_scalar s = (r, s')"
  shows "moves (advance1 s) s'"
proof -
  obtain chomp ei t where t: "bs_indicators 2 (advance1 s) 0 0 = (chomp, ei, t)" using prod_cases3 by blast
  obtain q u where u: "bs_header_end t = (q, u)" by fastforce
  have "moves (advance1 s) u"
    using moves_trans [OF bs_indicators_moves [OF t] bs_header_end_moves [OF u]] .
  then show ?thesis
    using assms moves_trans [OF _ bs_body_moves] moves_step(4)
    by (auto simp: scan_block_scalar_def t u scan_error_def simp del: bs_indicators.simps split: option.splits)
qed

lemma scan_block_scalar_moves: "scan_block_scalar s = (r, s') \<Longrightarrow> moves s s'"
  using advance1_moves scan_block_scalar_after by (rule moves_trans)

section \<open>Chomping\<close>

lemma chomp_strip_append: "chomp_strip (xs @ replicate n LF) = chomp_strip xs"
proof -
  have "dropWhile (\<lambda>c. c = LF) (replicate n LF @ rev xs) = dropWhile (\<lambda>c. c = LF) (rev xs)"
    by (rule dropWhile_append2) (auto split: if_splits)
  then show ?thesis by (simp add: chomp_strip_def)
qed

lemma chomp_strip_last: "xs \<noteq> [] \<Longrightarrow> last xs \<noteq> LF \<Longrightarrow> chomp_strip xs = xs"
  by (cases xs rule: rev_cases) (auto simp: chomp_strip_def)

lemma drop_extra_breaks_app:
  "x \<noteq> LF \<Longrightarrow> drop_extra_breaks (replicate (Suc n) LF @ x # r) = LF # x # r"
  by (induction n) auto

text \<open>
  C31: what the chomping indicator does to the text of a block scalar: strip removes all the final
  line breaks, clip leaves one (none if there is nothing else), and keep leaves them all. Here
  \<open>body\<close> is the text up to its last byte that is not a line feed.
\<close>

theorem chomp_correct:
  assumes "body \<noteq> []" and "last body \<noteq> LF"
  shows "bs_chomp (- 1) (body @ replicate n LF) = body \<and>
    bs_chomp 0 (body @ replicate n LF) = body @ [LF] \<and>
    bs_chomp 1 (body @ replicate n LF) = body @ replicate n LF \<and>
    bs_chomp (- 1) (replicate n LF) = [] \<and> bs_chomp 0 (replicate n LF) = [] \<and>
    bs_chomp 1 (replicate n LF) = replicate n LF"
proof -
  obtain ys y where body: "body = ys @ [y]" and y: "y \<noteq> LF" using assms by (cases body rule: rev_cases) auto
  have "drop_extra_breaks (replicate n LF @ y # rev ys) = (if n = 0 then y # rev ys else LF # y # rev ys)"
  proof (cases n)
    case 0
    then show ?thesis using y by (cases ys rule: rev_cases) auto
  next
    case (Suc k)
    then show ?thesis using drop_extra_breaks_app [OF y, of k "rev ys"] by simp
  qed
  then have "chomp_clip (body @ replicate n LF) = body @ [LF]"
    using y by (auto simp: chomp_clip_def body list_all_iff Let_def)
  then show ?thesis
    using chomp_strip_append [of body n] chomp_strip_append [of "[]" n] chomp_strip_last [OF assms]
    by (simp add: bs_chomp_def chomp_clip_def chomp_strip_def list_all_iff)
qed

theorem chomp_correct_witness:
  "bs_chomp 0 ([LC_A] @ replicate 3 LF) = [LC_A, LF]"
  using chomp_correct [of "[LC_A]" 3] by simp

section \<open>Properties\<close>


text \<open>Two lines, the second more indented, after the header.\<close>

definition block_text :: oyl_scanner where
  "block_text = the (oyl_scanner_new [] False [SP, LC_A, LF, LF, SP, SP, LC_B, LF, LC_X])"


end
