(* ===== verification/OylScanner.thy ===== *)
theory OylScanner
  imports OylScanBlock
begin

text \<open>
  \<open>oyl_scan_token\<close> of \<open>src/src/oyl_scanner.c\<close>: which token starts at the cursor, and the state of
  the tokenizer around it. Each \<open>case\<close> of the function that is more than a call is a definition
  here; \<open>oyl_scan_token\<close> puts them together in the order of the code. Its result is an option:
  \<open>None\<close> would be the loop of \<open>maybe_unroll_indents\<close> that does not end.

  \<open>scanner_inv\<close> is the invariant of the scanner; the properties are that every call keeps it and
  returns, and that every call consumes input, with one exception.
\<close>

section \<open>Structure tokens\<close>

definition scan_flow_open :: "oyl_scanner \<Rightarrow> bool \<Rightarrow> scan_result" where
  "scan_flow_open s is_map =
    (let start = mark s;
         s = s\<lparr>sc_last_was_quoted := False\<rparr>;
         (ok, s) = flow_push s is_map
     in if \<not> ok then (Inl OYL_ERR_MEMORY, s)
        else
          let s = advance (s\<lparr>sc_flow_level := sc_flow_level s + 1\<rparr>) 1
          in (Inr (tok_simple (if is_map then OYL_TOK_FLOW_MAP_START else OYL_TOK_FLOW_SEQ_START)
                     start (mark s)), s))"

definition scan_flow_close :: "oyl_scanner \<Rightarrow> bool \<Rightarrow> scan_result" where
  "scan_flow_close s is_map =
    (let start = mark s;
         (open_mark, s) = flow_pop s;
         s = (if sc_flow_level s > 0 then s\<lparr>sc_flow_level := sc_flow_level s - 1\<rparr> else s);
         s = advance s 1;
         s = note_node s open_mark (sc_pos s);
         s = s\<lparr>sc_last_was_quoted := True\<rparr>
     in (Inr (tok_simple (if is_map then OYL_TOK_FLOW_MAP_END else OYL_TOK_FLOW_SEQ_END) start (mark s)), s))"

definition scan_flow_comma :: "oyl_scanner \<Rightarrow> scan_result" where
  "scan_flow_comma s =
    (let start = mark s;
         s = s\<lparr>sc_last_was_quoted := False\<rparr>;
         s = (if sc_explicit_key s \<and> sc_explicit_depth s = length (sc_flows s)
              then s\<lparr>sc_explicit_key := False\<rparr> else s);
         s = advance s 1
     in (Inr (tok_simple OYL_TOK_FLOW_ENTRY start (mark s)), s))"

text \<open>A deeper column opens an indentation level; the result of the push is not looked at.\<close>

definition push_if_deeper :: "oyl_scanner \<Rightarrow> int \<Rightarrow> oyl_scanner" where
  "push_if_deeper s col = (if col > sc_indent s then snd (indent_push s col) else s)"

definition scan_seq_entry :: "oyl_scanner \<Rightarrow> scan_result" where
  "scan_seq_entry s =
    (let start = mark s
     in if sc_key_colon_line s = sc_line s
        then scan_error s ''block sequence entries are not allowed on the same line as a mapping key''
        else if tab_after_indicator s (sc_pos s)
        then scan_error s ''tabs are not allowed before a nested block collection''
        else
          let s = push_if_deeper s (int (sc_col s) - 1);
              s = advance s 1;
              s = s\<lparr>sc_indicator_end := sc_pos s\<rparr>
          in (Inr (tok_simple OYL_TOK_BLOCK_SEQ_ENTRY start (mark s)), s))"

definition scan_block_key :: "oyl_scanner \<Rightarrow> scan_result" where
  "scan_block_key s =
    (let start = mark s
     in if sc_key_colon_line s = sc_line s
        then scan_error s ''mapping values are not allowed on the same line as another key''
        else if tab_after_indicator s (sc_pos s)
        then scan_error s ''tabs are not allowed before a nested block collection''
        else
          let s = push_if_deeper s (int (sc_col s) - 1);
              s = advance s 1;
              s = s\<lparr>sc_indicator_end := sc_pos s, sc_explicit_key := True,
                    sc_explicit_depth := length (sc_flows s)\<rparr>
          in (Inr (tok_simple OYL_TOK_BLOCK_MAP_KEY start (mark s)), s))"

definition scan_flow_key :: "oyl_scanner \<Rightarrow> scan_result" where
  "scan_flow_key s =
    (let start = mark s;
         s = advance s 1;
         s = s\<lparr>sc_explicit_key := True, sc_explicit_depth := length (sc_flows s)\<rparr>
     in (Inr (tok_simple OYL_TOK_BLOCK_MAP_KEY start (mark s)), s))"

text \<open>The column where the key before a block \<open>:\<close> starts.\<close>

definition colon_key_col :: "oyl_scanner \<Rightarrow> int" where
  "colon_key_col s =
    (if only_blanks_between s (sc_node_end s) (sc_pos s) then
       (if only_blanks_between s (sc_props_end s) (sc_node_start s) then sc_props_col s else sc_node_col s)
     else if only_blanks_between s (sc_props_end s) (sc_pos s) then sc_props_col s
     else int (sc_col s) - 1)"

definition scan_block_value :: "oyl_scanner \<Rightarrow> scan_result" where
  "scan_block_value s =
    (let start = mark s;
         colon_col = int (sc_col s) - 1;
         key_col = colon_key_col s;
         map_col = (if key_col < colon_col then key_col else colon_col);
         (kind, s) = classify_colon s
     in if kind = COLON_BAD_KEY then scan_error s ''implicit key must be on a single line''
        else if kind = COLON_IMPLICIT \<and> sc_key_colon_line s = sc_line s
        then scan_error s ''mapping values are not allowed on the same line as another key''
        else if kind = COLON_IMPLICIT \<and> tab_after_indicator s (sc_node_start s)
        then scan_error s ''tabs are not allowed before a nested block collection''
        else
          let s = (if kind = COLON_IMPLICIT then s\<lparr>sc_key_colon_line := sc_line s\<rparr> else s);
              map_col = (if kind = COLON_IMPLICIT then map_col else colon_col);
              s = push_if_deeper s map_col;
              s = advance s 1;
              s = s\<lparr>sc_indicator_end := sc_pos s\<rparr>
          in (Inr (tok_simple OYL_TOK_BLOCK_MAP_VALUE start (mark s)), s))"

definition scan_flow_value :: "oyl_scanner \<Rightarrow> scan_result" where
  "scan_flow_value s =
    (let start = mark s;
         s = s\<lparr>sc_last_was_quoted := False\<rparr>;
         (kind, s) = classify_colon s
     in if kind = COLON_BAD_KEY then scan_error s ''implicit key must be on a single line''
        else let s = advance s 1
             in (Inr (tok_simple OYL_TOK_BLOCK_MAP_VALUE start (mark s)), s))"

section \<open>Content tokens\<close>

definition scan_content :: "oyl_scanner \<Rightarrow> scan_result" where
  "scan_content s =
    (let c = PEEK s
     in if c = BANG then scan_tag s
        else if c = AMP \<or> c = STAR then scan_anchor_or_alias s
        else if c = SQUOTE then scan_single_quoted s
        else if c = DQUOTE then scan_double_quoted s
        else if (c = PIPE \<or> c = GT) \<and> sc_flow_level s = 0 then scan_block_scalar s
        else if c = DASH \<and> sc_flow_level s > 0 \<and>
                (let nc = PEEK_AT s 1
                 in nc = 0 \<or> oyl_is_blank_or_break nc \<or> nc = COMMA \<or> nc = LBRACK \<or> nc = RBRACK \<or>
                    nc = LBRACE \<or> nc = RBRACE)
        then scan_error s ''block sequence entry not allowed in flow context''
        else scan_plain_scalar s)"

section \<open>The dispatch on the byte at the cursor\<close>

definition scan_directive :: "oyl_scanner \<Rightarrow> scan_result" where
  "scan_directive s =
    (let start = mark s;
         len = oyl_scan_to_break (sc_sse42 s) (BUF_AT s);
         line = take len (BUF_AT s);
         s = advance_cols s len
     in (Inr \<lparr>tok_type = OYL_TOK_DIRECTIVE, tok_value = Some line, tok_style = OYL_SCALAR_PLAIN,
              tok_start = start, tok_end = mark s\<rparr>, s))"

definition scan_indicator :: "oyl_scanner \<Rightarrow> scan_result" where
  "scan_indicator s =
    (let c = PEEK s; next = PEEK_AT s 1
     in if c = LBRACK then scan_flow_open s False
        else if c = RBRACK then scan_flow_close s False
        else if c = LBRACE then scan_flow_open s True
        else if c = RBRACE then scan_flow_close s True
        else if c = COMMA then scan_flow_comma s
        else if c = DASH \<and> sc_flow_level s = 0 \<and> blank_or_end next then scan_seq_entry s
        else if c = QMARK \<and> sc_flow_level s = 0 \<and> blank_or_end next then scan_block_key s
        else if c = QMARK \<and> sc_flow_level s > 0 \<and> blank_or_end next then scan_flow_key s
        else if c = COLON \<and> sc_flow_level s = 0 \<and> blank_or_end next then scan_block_value s
        else if c = COLON \<and> sc_flow_level s > 0 \<and>
                (blank_or_end next \<or> next = COMMA \<or> next = RBRACK \<or> next = RBRACE \<or> sc_last_was_quoted s)
        then scan_flow_value s
        else scan_content (s\<lparr>sc_last_was_quoted := False\<rparr>))"

text \<open>The \<open>...\<close> marker: only a comment may follow on its line.\<close>

definition scan_doc_end :: "oyl_scanner \<Rightarrow> scan_result" where
  "scan_doc_end s =
    (let start = mark s;
         s = advance s 3;
         k = sc_pos s + scan_until (\<lambda>c. c \<noteq> SP \<and> c \<noteq> TAB) (BUF_AT s)
     in if k < length (sc_buf s) \<and> sc_buf s ! k \<noteq> HASH \<and> \<not> oyl_is_break (sc_buf s ! k)
        then scan_error s (''content after document end marker '' @ CHR 0x27 # ''...'' @ [CHR 0x27])
        else (Inr (tok_simple OYL_TOK_DOC_END start (mark s)), s))"

definition scan_doc_start :: "oyl_scanner \<Rightarrow> scan_result" where
  "scan_doc_start s =
    (let start = mark s; s = advance s 3 in (Inr (tok_simple OYL_TOK_DOC_START start (mark s)), s))"

definition scan_token_at :: "oyl_scanner \<Rightarrow> scan_result option" where
  "scan_token_at s =
    (if at_doc_indicator s DASH then map_option scan_doc_start (maybe_unroll_indents s (- 1))
     else if at_doc_indicator s DOT then map_option scan_doc_end (maybe_unroll_indents s (- 1))
     else if PEEK s = PERCENT \<and> sc_col s = 1 \<and> sc_flow_level s = 0 then Some (scan_directive s)
     else Some (scan_indicator s))"

definition scan_stream_end :: "oyl_scanner \<Rightarrow> scan_result option" where
  "scan_stream_end s =
    (if \<not> sc_stream_ended s then
       map_option (\<lambda>s. (Inr (tok_simple OYL_TOK_STREAM_END (mark s) (mark s)), s))
         (maybe_unroll_indents (s\<lparr>sc_stream_ended := True\<rparr>) (- 1))
     else Some (Inr (tok_simple OYL_TOK_NONE (mark s) (mark s)), s))"

definition oyl_scan_token :: "oyl_scanner \<Rightarrow> scan_result option" where
  "oyl_scan_token s =
    (case sc_pending s of
       t # ts \<Rightarrow> Some (Inr t, s\<lparr>sc_pending := ts\<rparr>)
     | [] \<Rightarrow>
        if \<not> sc_stream_started s
        then Some (Inr (tok_simple OYL_TOK_STREAM_START (mark s) (mark s)), s\<lparr>sc_stream_started := True\<rparr>)
        else
          case skip_blanks_and_comments s of
            (Some err, s) \<Rightarrow> Some (scan_error s err)
          | (None, s) \<Rightarrow>
             if AT_END s then scan_stream_end s
             else
               Option.bind
                 (if sc_flow_level s = 0 then maybe_unroll_indents s (int (sc_col s) - 1) else Some s)
                 scan_token_at)"

text \<open>The public function hands out the token only when the status is \<open>OYL_OK\<close>.\<close>

definition oyl_scan_next :: "oyl_scanner \<Rightarrow> ((oyl_status \<times> oyl_token option) \<times> oyl_scanner) option" where
  "oyl_scan_next s =
    map_option (\<lambda>(r, s). (case r of Inl e \<Rightarrow> (e, None) | Inr t \<Rightarrow> (OYL_OK, Some t), s)) (oyl_scan_token s)"

section \<open>Names of the constants\<close>

fun oyl_status_str :: "oyl_status \<Rightarrow> string" where
  "oyl_status_str OYL_OK = ''ok''"
| "oyl_status_str OYL_ERR_MEMORY = ''memory error''"
| "oyl_status_str OYL_ERR_INPUT = ''input error''"
| "oyl_status_str OYL_ERR_SCAN = ''scan error''"
| "oyl_status_str OYL_ERR_PARSE = ''parse error''"
| "oyl_status_str OYL_ERR_EMIT = ''emit error''"
| "oyl_status_str OYL_ERR_LIMIT = ''limit exceeded''"

fun oyl_token_type_str :: "oyl_token_type \<Rightarrow> string" where
  "oyl_token_type_str OYL_TOK_NONE = ''NONE''"
| "oyl_token_type_str OYL_TOK_STREAM_START = ''STREAM_START''"
| "oyl_token_type_str OYL_TOK_STREAM_END = ''STREAM_END''"
| "oyl_token_type_str OYL_TOK_DOC_START = ''DOC_START''"
| "oyl_token_type_str OYL_TOK_DOC_END = ''DOC_END''"
| "oyl_token_type_str OYL_TOK_BLOCK_SEQ_ENTRY = ''BLOCK_SEQ_ENTRY''"
| "oyl_token_type_str OYL_TOK_BLOCK_MAP_KEY = ''BLOCK_MAP_KEY''"
| "oyl_token_type_str OYL_TOK_BLOCK_MAP_VALUE = ''BLOCK_MAP_VALUE''"
| "oyl_token_type_str OYL_TOK_FLOW_SEQ_START = ''FLOW_SEQ_START''"
| "oyl_token_type_str OYL_TOK_FLOW_SEQ_END = ''FLOW_SEQ_END''"
| "oyl_token_type_str OYL_TOK_FLOW_MAP_START = ''FLOW_MAP_START''"
| "oyl_token_type_str OYL_TOK_FLOW_MAP_END = ''FLOW_MAP_END''"
| "oyl_token_type_str OYL_TOK_FLOW_ENTRY = ''FLOW_ENTRY''"
| "oyl_token_type_str OYL_TOK_SCALAR = ''SCALAR''"
| "oyl_token_type_str OYL_TOK_TAG = ''TAG''"
| "oyl_token_type_str OYL_TOK_ANCHOR = ''ANCHOR''"
| "oyl_token_type_str OYL_TOK_ALIAS = ''ALIAS''"
| "oyl_token_type_str OYL_TOK_DIRECTIVE = ''DIRECTIVE''"


section \<open>The invariant\<close>

text \<open>
  The cursor is in the buffer; the flow level counts the open brackets; the indentations, from the
  current one down the stack, decrease to \<open>-1\<close>; and the stacks fit in their arrays.
\<close>

definition indents_ok :: "int list \<Rightarrow> bool" where
  "indents_ok xs \<longleftrightarrow> xs \<noteq> [] \<and> sorted_wrt (>) xs \<and> last xs = - 1"

definition scanner_inv :: "oyl_scanner \<Rightarrow> bool" where
  "scanner_inv s \<longleftrightarrow> cursor_ok s \<and> sc_flow_level s = int (length (sc_flows s)) \<and>
     indents_ok (sc_indent s # sc_indents s) \<and> length (sc_indents s) \<le> sc_indents_cap s \<and>
     0 < sc_indents_cap s \<and> length (sc_flows s) \<le> sc_flows_cap s"

lemma moves_inv: "moves s s' \<Longrightarrow> scanner_inv s \<Longrightarrow> scanner_inv s'"
  by (simp add: moves_def same_struct_def scanner_inv_def)

lemma scanner_inv_update [simp]:
  "scanner_inv (s\<lparr>sc_last_was_quoted := q\<rparr>) = scanner_inv s"
  "scanner_inv (s\<lparr>sc_explicit_key := q\<rparr>) = scanner_inv s"
  "scanner_inv (s\<lparr>sc_explicit_depth := d\<rparr>) = scanner_inv s"
  "scanner_inv (s\<lparr>sc_indicator_end := d\<rparr>) = scanner_inv s"
  "scanner_inv (s\<lparr>sc_key_colon_line := d\<rparr>) = scanner_inv s"
  "scanner_inv (s\<lparr>sc_stream_ended := q\<rparr>) = scanner_inv s"
  "scanner_inv (s\<lparr>sc_stream_started := q\<rparr>) = scanner_inv s"
  "scanner_inv (s\<lparr>sc_pending := ts\<rparr>) = scanner_inv s"
  "scanner_inv (s\<lparr>sc_error_msg := e\<rparr>) = scanner_inv s"
  "scanner_inv (s\<lparr>sc_error_mark := k\<rparr>) = scanner_inv s"
  "scanner_inv (s\<lparr>sc_mem := m\<rparr>) = scanner_inv s"
  "scanner_inv (note_node s k d) = scanner_inv s"
  by (simp_all add: scanner_inv_def cursor_ok_def note_node_def)

lemma advance_inv [simp]: "scanner_inv s \<Longrightarrow> scanner_inv (advance s n)"
  using advance_moves by (rule moves_inv)

lemma advance1_inv [simp]: "scanner_inv s \<Longrightarrow> scanner_inv (advance1 s)"
  using advance1_moves by (rule moves_inv)

lemma scan_error_inv [simp]: "scanner_inv (snd (scan_error s msg)) = scanner_inv s"
  by (simp add: scan_error_def)

lemma flow_level_pos: "scanner_inv s \<Longrightarrow> 0 \<le> sc_flow_level s"
  by (simp add: scanner_inv_def)

text \<open>Unrolling ends: the bottom of the stack is \<open>-1\<close>, which no column is less than.\<close>

lemma unroll_ok:
  assumes "scanner_inv s" and "- 1 \<le> col"
  shows "\<exists>s'. unroll_from s col (sc_indents s) = Some s' \<and> scanner_inv s' \<and> sc_indent s' \<le> col \<and>
    s' = s\<lparr>sc_indent := sc_indent s', sc_indents := sc_indents s'\<rparr>"
  using assms
proof (induction "sc_indents s" arbitrary: s)
  case Nil
  then have "sc_indent s = - 1" by (auto simp: scanner_inv_def indents_ok_def)
  then show ?case using Nil by (simp flip: Nil.hyps(1))
next
  case (Cons d ds)
  show ?case
  proof (cases "sc_indent s > col")
    case False
    then show ?thesis using Cons.prems by (simp flip: Cons.hyps(2))
  next
    case True
    let ?t = "s\<lparr>sc_indent := d, sc_indents := ds\<rparr>"
    have pop: "indent_pop s = ?t" using Cons.hyps(2) [symmetric] by (simp add: indent_pop_def)
    have "scanner_inv ?t"
      using Cons.prems(1) Cons.hyps(2) [symmetric] by (auto simp: scanner_inv_def indents_ok_def cursor_ok_def)
    then obtain s' where s': "unroll_from ?t col ds = Some s'" "scanner_inv s'" "sc_indent s' \<le> col"
      "s' = ?t\<lparr>sc_indent := sc_indent s', sc_indents := sc_indents s'\<rparr>"
      using Cons.hyps(1) [of ?t] Cons.prems(2) by auto
    then show ?thesis using True pop by (simp flip: Cons.hyps(2))
  qed
qed

lemma maybe_unroll_ok:
  assumes "scanner_inv s" and "- 1 \<le> col"
  obtains s' where "maybe_unroll_indents s col = Some s'" and "scanner_inv s'" and "sc_indent s' \<le> col"
    and "s' = s\<lparr>sc_indent := sc_indent s', sc_indents := sc_indents s'\<rparr>"
  using unroll_ok [OF assms] by (auto simp: maybe_unroll_indents_def)

lemma push_if_deeper_inv:
  assumes "scanner_inv s"
  shows "scanner_inv (push_if_deeper s col)"
proof -
  obtain ok m where m: "mem_take (sc_mem s) = (ok, m)" by fastforce
  have "indents_ok (col # sc_indent s # sc_indents s)" if "sc_indent s < col"
    using assms that by (auto simp: scanner_inv_def indents_ok_def)
  then show ?thesis
    using assms by (auto simp: push_if_deeper_def indent_push_def m scanner_inv_def cursor_ok_def Let_def)
qed

lemma classify_colon_inv: "scanner_inv s \<Longrightarrow> scanner_inv (snd (classify_colon s))"
  by (simp add: classify_colon_def Let_def)

lemma double_length: "xs \<noteq> [] \<Longrightarrow> Suc (length xs) \<le> length xs * 2"
  by (cases xs) simp_all

lemma scan_flow_open_inv: "scanner_inv s \<Longrightarrow> scanner_inv (snd (scan_flow_open s is_map))"
proof -
  assume inv: "scanner_inv s"
  obtain ok t where t: "flow_push (s\<lparr>sc_last_was_quoted := False\<rparr>) is_map = (ok, t)" by fastforce
  have "ok \<Longrightarrow> scanner_inv (t\<lparr>sc_flow_level := sc_flow_level t + 1\<rparr>)" "\<not> ok \<Longrightarrow> scanner_inv t"
    using t inv by (auto simp: flow_push_def Let_def scanner_inv_def cursor_ok_def double_length split: prod.splits if_splits)
  then show ?thesis by (simp add: scan_flow_open_def t Let_def)
qed

lemma flow_pop_fields:
  "flow_pop s = (k, t) \<Longrightarrow>
   t = s\<lparr>sc_explicit_key := sc_explicit_key t, sc_flows := tl (sc_flows s), sc_props_col := sc_props_col t,
         sc_props_end := sc_props_end t\<rparr>"
  by (auto simp: flow_pop_def Let_def split: list.splits if_splits)

lemma scan_flow_close_inv: "scanner_inv s \<Longrightarrow> scanner_inv (snd (scan_flow_close s is_map))"
proof -
  assume inv: "scanner_inv s"
  obtain k t where t: "flow_pop s = (k, t)" by fastforce
  have "scanner_inv (if sc_flow_level t > 0 then t\<lparr>sc_flow_level := sc_flow_level t - 1\<rparr> else t)"
    using inv by (subst (1 2 3 4) flow_pop_fields [OF t])
      (cases "sc_flows s"; auto simp: scanner_inv_def cursor_ok_def)
  then show ?thesis by (simp add: scan_flow_close_def t Let_def)
qed

lemma scan_structure_inv:
  assumes "scanner_inv s"
  shows "scanner_inv (snd (scan_flow_comma s))" and "scanner_inv (snd (scan_seq_entry s))"
    and "scanner_inv (snd (scan_block_key s))" and "scanner_inv (snd (scan_flow_key s))"
    and "scanner_inv (snd (scan_block_value s))" and "scanner_inv (snd (scan_flow_value s))"
    and "scanner_inv (snd (scan_doc_start s))" and "scanner_inv (snd (scan_doc_end s))"
    and "scanner_inv (snd (scan_directive s))"
  using assms push_if_deeper_inv [OF assms] classify_colon_inv [OF assms]
    classify_colon_inv [of "s\<lparr>sc_last_was_quoted := False\<rparr>"]
    push_if_deeper_inv moves_inv [OF advance_cols_moves [OF to_break_le]]
  by (auto simp: scan_flow_comma_def scan_seq_entry_def scan_block_key_def scan_flow_key_def
      scan_block_value_def scan_flow_value_def scan_doc_start_def scan_doc_end_def scan_directive_def
      Let_def split: prod.splits)


lemma scan_content_moves: "scan_content s = (r, s') \<Longrightarrow> moves s s'"
  using scan_tag_moves scan_anchor_or_alias_moves scan_single_quoted_moves scan_double_quoted_moves
    scan_block_scalar_moves scan_plain_scalar_moves
  by (auto simp: scan_content_def scan_error_def error_moves Let_def split: if_splits)

lemma scan_content_inv: "scanner_inv s \<Longrightarrow> scanner_inv (snd (scan_content s))"
  using scan_content_moves moves_inv by (metis prod.collapse)

lemma scan_indicator_inv: "scanner_inv s \<Longrightarrow> scanner_inv (snd (scan_indicator s))"
  by (simp add: scan_indicator_def scan_flow_open_inv scan_flow_close_inv scan_structure_inv
      scan_content_inv Let_def)

lemma scan_token_at_inv:
  assumes "scanner_inv s"
  shows "\<exists>r. scan_token_at s = Some r \<and> scanner_inv (snd r)"
proof -
  obtain t where "maybe_unroll_indents s (- 1) = Some t" "scanner_inv t"
    using maybe_unroll_ok [OF assms, of "- 1"] by auto
  then show ?thesis
    using scan_structure_inv(7,8) scan_structure_inv(9) [OF assms] scan_indicator_inv [OF assms]
    unfolding scan_token_at_def by (auto simp del: split_paired_Ex)
qed

lemma scan_token_ok:
  assumes "scanner_inv s"
  shows "\<exists>r s'. oyl_scan_token s = Some (r, s') \<and> scanner_inv s'"
proof (cases "sc_pending s = [] \<and> sc_stream_started s")
  case False
  then show ?thesis using assms by (cases "sc_pending s") (auto simp: oyl_scan_token_def)
next
  case True
  obtain err t where t: "skip_blanks_and_comments s = (err, t)" by fastforce
  have inv: "scanner_inv t" using skip_blanks_and_comments_moves [OF t] assms by (rule moves_inv)
  have le: "(- 1 :: int) \<le> int (sc_col t) - 1" by simp
  obtain u where "maybe_unroll_indents t (int (sc_col t) - 1) = Some u" "scanner_inv u"
    using maybe_unroll_ok [OF inv le] by blast
  moreover obtain v where "maybe_unroll_indents (t\<lparr>sc_stream_ended := True\<rparr>) (- 1) = Some v" "scanner_inv v"
    using maybe_unroll_ok [of "t\<lparr>sc_stream_ended := True\<rparr>" "- 1"] inv by auto
  ultimately have "\<exists>r. oyl_scan_token s = Some r \<and> scanner_inv (snd r)"
    using True inv scan_token_at_inv [OF inv] scan_token_at_inv [of u]
    by (auto simp: oyl_scan_token_def scan_stream_end_def t scan_error_def split: option.splits)
  then show ?thesis by (metis prod.collapse)
qed

lemma scanner_new_inv: "oyl_scanner_new m b input = Some s \<Longrightarrow> scanner_inv s"
  by (auto simp: oyl_scanner_new_def scanner_inv_def cursor_ok_def indents_ok_def Let_def split: prod.splits if_splits)

text \<open>The states that a client can bring a scanner into.\<close>

inductive scan_reach :: "oyl_scanner \<Rightarrow> oyl_scanner \<Rightarrow> bool" where
  reach_start: "scan_reach s s"
| reach_token: "scan_reach s t \<Longrightarrow> oyl_scan_token t = Some (r, u) \<Longrightarrow> scan_reach s u"

lemma scan_reach_inv: "scan_reach s t \<Longrightarrow> scanner_inv s \<Longrightarrow> scanner_inv t"
  by (induction rule: scan_reach.induct) (use scan_token_ok in fastforce)+

section \<open>Properties\<close>

text \<open>
  C3: \<open>oyl_scan_token\<close> always returns (the loop that unrolls the indentation stack ends) and keeps
  the invariant of the scanner: the cursor stays in the buffer, the flow level counts the open
  brackets, the stack of indentations decreases strictly to \<open>-1\<close>, and no stack outgrows its array,
  whatever the input and whichever allocations fail.
\<close>

theorem scan_token_total:
  assumes "scanner_inv s"
  shows "\<exists>r s'. oyl_scan_token s = Some (r, s') \<and> scanner_inv s'"
  using assms by (rule scan_token_ok)

text \<open>
  C32: from a fresh scanner, every call of \<open>oyl_scan_next\<close> returns: no sequence of calls, on any
  input, gets into a state where the next call does not return or the cursor is out of bounds.
\<close>

theorem scanner_always_returns:
  assumes "oyl_scanner_new m sse42 input = Some s" and "scan_reach s t"
  shows "oyl_scan_next t \<noteq> None \<and> sc_pos t \<le> length (sc_buf t)"
proof -
  have "scanner_inv t" using scan_reach_inv [OF assms(2)] scanner_new_inv [OF assms(1)] by blast
  then show ?thesis
    using scan_token_ok [of t] by (auto simp: oyl_scan_next_def scanner_inv_def cursor_ok_def)
qed

theorem scan_token_total_witness:
  "\<exists>r s'. oyl_scan_token (the (oyl_scanner_new [] True [LBRACK, RBRACK])) = Some (r, s') \<and> scanner_inv s'"
  by (rule scan_token_total, rule scanner_new_inv [of "[]" True "[LBRACK, RBRACK]"])
    (simp add: oyl_scanner_new_def)

theorem scanner_always_returns_witness:
  "oyl_scan_next (the (oyl_scanner_new [] True [LBRACK])) \<noteq> None"
  using scanner_always_returns [of "[]" True "[LBRACK]" "the (oyl_scanner_new [] True [LBRACK])"
      "the (oyl_scanner_new [] True [LBRACK])"] reach_start
  by (simp add: oyl_scanner_new_def)


section \<open>Progress\<close>

text \<open>After blanks and comments the cursor is at neither.\<close>

lemma skip_white_stops: "PEEK (skip_white s) \<noteq> SP \<and> PEEK (skip_white s) \<noteq> TAB"
proof (cases "AT_END (skip_white s)")
  case True
  then show ?thesis by (simp add: PEEK_def AT_END_def)
next
  case False
  let ?n = "scan_until (\<lambda>c. c \<noteq> SP \<and> c \<noteq> TAB) (BUF_AT s)"
  have "?n < length (BUF_AT s)" using False by (simp add: skip_white_def advance_cols_def AT_END_def REMAINING_def)
  from scan_until_at [OF this] False show ?thesis
    by (simp add: skip_white_def advance_cols_def AT_END_def PEEK_def BUF_AT_def)
qed

lemma skip_comment_stops:
  assumes "PEEK s = HASH"
  shows "AT_END (skip_comment s) \<or> oyl_is_break (PEEK (skip_comment s))"
proof (cases "AT_END (skip_comment s)")
  case False
  let ?n = "oyl_scan_to_break (sc_sse42 s) (BUF_AT s)"
  have "?n < length (BUF_AT s)"
    using False assms by (simp add: skip_comment_def advance_cols_def AT_END_def REMAINING_def)
  from breaks.scan_at [OF this] False assms show ?thesis
    by (auto simp: skip_comment_def advance_cols_def AT_END_def PEEK_def BUF_AT_def char_class)
qed simp

lemma skip_loop_stops:
  "skip_loop s ls = (None, t, ls') \<Longrightarrow> \<not> AT_END t \<Longrightarrow>
     PEEK t \<noteq> HASH \<and> \<not> oyl_is_blank (PEEK t) \<and> \<not> oyl_is_break (PEEK t)"
proof (induction s ls rule: skip_loop.induct)
  case (1 s ls)
  let ?s2 = "skip_comment (skip_blanks s)"
  show ?case
  proof (cases "oyl_is_break (PEEK ?s2)")
    case True
    with "1.IH" [OF refl _ refl True] "1.prems" show ?thesis
      by (simp add: skip_loop.simps [of s ls] Let_def split: if_splits)
  next
    case False
    then have t: "t = ?s2" using "1.prems" by (simp add: skip_loop.simps [of s ls] Let_def split: if_splits)
    show ?thesis
    proof (cases "PEEK (skip_blanks s) = HASH")
      case True
      with skip_comment_stops False t "1.prems"(2) show ?thesis by blast
    next
      case n: False
      then have "t = skip_white s" using t by (simp add: skip_comment_def skip_blanks_exact)
      with skip_white_stops [of s] n False t show ?thesis by (simp add: skip_blanks_exact char_class)
    qed
  qed
qed

lemma skip_blanks_and_comments_stops:
  assumes "skip_blanks_and_comments s = (None, t)" and "\<not> AT_END t"
  shows "PEEK t \<noteq> HASH \<and> \<not> oyl_is_blank (PEEK t) \<and> \<not> oyl_is_break (PEEK t)"
proof -
  obtain ls' where "skip_loop s (if sc_col s = 1 then Some (sc_pos s) else None) = (None, t, ls')"
    using assms(1) by (auto simp: skip_blanks_and_comments_def Let_def split: prod.splits option.splits if_splits)
  from skip_loop_stops [OF this assms(2)] show ?thesis .
qed

text \<open>
  A \<open>:\<close> in a flow collection, right before an opening bracket, and not after a quoted key: not a
  value indicator for this scanner, and not the start of a plain scalar either.
\<close>

definition colon_stuck :: "oyl_scanner \<Rightarrow> bool" where
  "colon_stuck s \<longleftrightarrow> PEEK s = COLON \<and> 0 < sc_flow_level s \<and>
     (PEEK_AT s 1 = LBRACK \<or> PEEK_AT s 1 = LBRACE)"

text \<open>A plain scalar consumes its first byte, except before such a \<open>:\<close>.\<close>

lemma plain_spec_loop_moves: "plain_spec_loop s acc = (r, s') \<Longrightarrow> moves s s'"
proof (induction s acc rule: plain_spec_loop.induct)
  case (1 s acc)
  let ?c = "PEEK s"
  consider "AT_END s" | "\<not> AT_END s" "oyl_is_blank ?c" | "\<not> AT_END s" "oyl_is_break ?c"
    | "\<not> AT_END s" "\<not> oyl_is_blank ?c" "\<not> oyl_is_break ?c" by blast
  then show ?case
  proof cases
    case 1
    with "1.prems" show ?thesis by (simp add: plain_spec_loop.simps [of s])
  next
    case 2
    then have c: "?c \<noteq> COLON" "?c \<noteq> HASH" "\<not> oyl_is_flow ?c" by (auto simp: char_class)
    let ?acc = "if oyl_is_break (PEEK (skip_white s)) then acc
      else acc @ take (sc_pos (skip_white s) - sc_pos s) (BUF_AT s)"
    have "moves (skip_white s) s'"
    proof (cases "AT_END (skip_white s)")
      case True
      with "1.prems" 2 c show ?thesis by (simp add: plain_spec_loop.simps [of s])
    next
      case False
      have "plain_spec_loop (skip_white s) ?acc = (r, s')"
        using "1.prems" 2 c False by (simp add: plain_spec_loop.simps [of s acc] Let_def)
      with "1.IH"(1) [OF 2(1) refl refl _ _ _ 2(2) refl False] c show ?thesis by simp
    qed
    with skip_white_moves show ?thesis by (rule moves_trans)
  next
    case 3
    then have c: "?c \<noteq> COLON" "?c \<noteq> HASH" "\<not> oyl_is_flow ?c" "\<not> oyl_is_blank ?c" by (auto simp: char_class)
    obtain t n where t: "spec_breaks s 0 = (t, n)" by fastforce
    show ?thesis
    proof (cases "AT_END t \<or> plain_line_ends t")
      case True
      with "1.prems" 3 c t show ?thesis by (simp add: plain_spec_loop.simps [of s])
    next
      case False
      have "plain_spec_loop t (rtrim acc @ folded n) = (r, s')"
        using "1.prems" 3 c t False by (simp add: plain_spec_loop.simps [of s])
      with "1.IH"(2) [OF 3(1) refl refl _ _ _ c(4) 3(2) t [symmetric] refl False] c have "moves t s'" by simp
      with spec_breaks_moves [OF t] moves_trans show ?thesis by blast
    qed
  next
    case 4
    show ?thesis
    proof (cases "plain_spec_loop s acc = plain_spec_loop (advance1 s) (acc @ [?c])")
      case True
      show ?thesis
      proof (cases "(?c = COLON \<and> (blank_or_end (PEEK_AT s 1) \<or> sc_flow_level s > 0 \<and> oyl_is_flow (PEEK_AT s 1))) \<or>
          (?c = HASH \<and> (acc = [] \<or> last acc = SP \<or> last acc = TAB)) \<or> (sc_flow_level s > 0 \<and> oyl_is_flow ?c) \<or>
          ?c < 0x20 \<or> ?c = DEL")
        case True
        with 4 "1.prems" show ?thesis
          by (auto simp: plain_spec_loop.simps [of s acc] scan_error_def error_moves Let_def split: if_splits)
      next
        case f: False
        with "1.IH"(3) [OF 4(1) refl refl _ _ _ 4(2,3)] True "1.prems" have "moves (advance1 s) s'" by auto
        with advance1_moves show ?thesis by (rule moves_trans)
      qed
    next
      case False
      with 4 "1.prems" show ?thesis
        by (auto simp: plain_spec_loop.simps [of s acc] scan_error_def error_moves Let_def split: if_splits)
    qed
  qed
qed


lemma plain_spec_loop_starts:
  assumes "plain_spec_loop s acc = (Inr out, t)" and "\<not> AT_END s" and "\<not> oyl_is_blank (PEEK s)"
    and "\<not> oyl_is_break (PEEK s)" and "PEEK s \<noteq> HASH"
    and "\<not> (PEEK s = COLON \<and> (blank_or_end (PEEK_AT s 1) \<or> sc_flow_level s > 0 \<and> oyl_is_flow (PEEK_AT s 1)))"
    and "\<not> (sc_flow_level s > 0 \<and> oyl_is_flow (PEEK s))"
  shows "sc_pos s < sc_pos t"
proof -
  have "plain_spec_loop (advance1 s) (acc @ [PEEK s]) = (Inr out, t)"
    using assms by (auto simp: plain_spec_loop.simps [of s] scan_error_def Let_def split: if_splits)
  from moves_pos [OF plain_spec_loop_moves [OF this]] advance1_pos [OF assms(2)] show ?thesis by simp
qed

lemma blank_or_end_iff: "blank_or_end c \<longleftrightarrow> c = 0 \<or> oyl_is_blank_or_break c"
  by (auto simp: blank_or_end_def)

lemma scan_plain_progress:
  assumes "scan_plain_scalar s = (Inr tok, s')" and "\<not> AT_END s" and "\<not> oyl_is_blank (PEEK s)"
    and "\<not> oyl_is_break (PEEK s)" and "PEEK s \<noteq> HASH"
    and "\<not> (PEEK s = COLON \<and> (blank_or_end (PEEK_AT s 1) \<or>
             sc_flow_level s > 0 \<and> oyl_is_flow (PEEK_AT s 1) \<and> \<not> colon_stuck s))"
    and "\<not> (sc_flow_level s > 0 \<and> oyl_is_flow (PEEK s))"
  shows "sc_pos s < sc_pos s' \<or> tok_type tok = OYL_TOK_SCALAR \<and> tok_value tok = Some [] \<and> colon_stuck s'"
proof -
  from plain_refine [of s] have spec: "plain_spec s = (Inr tok, s'\<lparr>sc_mem := sc_mem s\<rparr>)"
    by (simp add: assms(1))
  then obtain acc t where t: "plain_spec_loop s [] = (Inr acc, t)" and tok: "tok_value tok = Some (rtrim acc)" "tok_type tok = OYL_TOK_SCALAR"
    and s': "s'\<lparr>sc_mem := sc_mem s\<rparr> = note_node (t\<lparr>sc_last_token_col := int (sc_col s) - 1\<rparr>) (mark s) (sc_pos t)"
    by (auto simp: plain_spec_def tok_scalar_def split: prod.splits sum.splits)
  have pos: "sc_pos s' = sc_pos t" and buf: "sc_buf s' = sc_buf t" and fl: "sc_flow_level s' = sc_flow_level t"
    using arg_cong [OF s', of sc_pos] arg_cong [OF s', of sc_buf] arg_cong [OF s', of sc_flow_level]
    by (simp_all add: note_node_def)
  show ?thesis
  proof (cases "colon_stuck s")
    case False
    with plain_spec_loop_starts [OF t assms(2-5)] assms(6,7) pos show ?thesis by auto
  next
    case True
    then have "t = s" "acc = []"
      using t assms(2) by (auto simp: plain_spec_loop.simps [of s] colon_stuck_def char_class)
    then show ?thesis
      using True tok pos buf fl
      by (auto simp: colon_stuck_def PEEK_def PEEK_AT_def rtrim_def char_class split: if_splits)
  qed
qed

text \<open>Every other routine starts by passing the byte it is dispatched on.\<close>

lemma after_progress: "moves (advance1 s) s' \<Longrightarrow> \<not> AT_END s \<Longrightarrow> sc_pos s < sc_pos s'"
  using moves_pos [of "advance1 s" s'] advance1_pos [of s] by simp

lemma scan_content_progress:
  assumes "scan_content s = (Inr tok, s')" and "\<not> AT_END s" and "\<not> oyl_is_blank (PEEK s)"
    and "\<not> oyl_is_break (PEEK s)" and "PEEK s \<noteq> HASH"
    and "\<not> (PEEK s = COLON \<and> (blank_or_end (PEEK_AT s 1) \<or>
             sc_flow_level s > 0 \<and> oyl_is_flow (PEEK_AT s 1) \<and> \<not> colon_stuck s))"
    and "\<not> (sc_flow_level s > 0 \<and> oyl_is_flow (PEEK s))"
  shows "sc_pos s < sc_pos s' \<or> tok_type tok = OYL_TOK_SCALAR \<and> tok_value tok = Some [] \<and> colon_stuck s'"
  using assms(1) after_progress [OF _ assms(2)] scan_plain_progress [OF _ assms(2-7)]
    scan_tag_after [of s] scan_anchor_or_alias_after [of s] scan_single_quoted_after [of s]
    scan_double_quoted_after [of s] scan_block_scalar_after [of s]
  by (auto simp: scan_content_def scan_error_def Let_def split: if_splits)

lemma push_if_deeper_cursor [simp]:
  "sc_pos (push_if_deeper s c) = sc_pos s" "sc_buf (push_if_deeper s c) = sc_buf s"
  by (auto simp: push_if_deeper_def indent_push_def Let_def split: prod.splits)

lemma classify_colon_cursor:
  "classify_colon s = (k, t) \<Longrightarrow> sc_pos t = sc_pos s \<and> sc_buf t = sc_buf s"
  by (auto simp: classify_colon_def Let_def split: if_splits)

lemma flow_pop_cursor: "flow_pop s = (k, t) \<Longrightarrow> sc_pos t = sc_pos s \<and> sc_buf t = sc_buf s"
  by (auto simp: flow_pop_def Let_def split: list.splits if_splits)

lemma advance1_pos_if: "sc_pos (advance1 s) = (if sc_pos s < length (sc_buf s) then Suc (sc_pos s) else sc_pos s)"
  by (simp add: advance1_def)

lemma scan_structure_progress:
  assumes "\<not> AT_END s"
  shows "scan_flow_open s m = (Inr tok, s') \<Longrightarrow> sc_pos s < sc_pos s'"
    and "scan_flow_close s m = (Inr tok, s') \<Longrightarrow> sc_pos s < sc_pos s'"
    and "scan_flow_comma s = (Inr tok, s') \<Longrightarrow> sc_pos s < sc_pos s'"
    and "scan_seq_entry s = (Inr tok, s') \<Longrightarrow> sc_pos s < sc_pos s'"
    and "scan_block_key s = (Inr tok, s') \<Longrightarrow> sc_pos s < sc_pos s'"
    and "scan_flow_key s = (Inr tok, s') \<Longrightarrow> sc_pos s < sc_pos s'"
    and "scan_block_value s = (Inr tok, s') \<Longrightarrow> sc_pos s < sc_pos s'"
    and "scan_flow_value s = (Inr tok, s') \<Longrightarrow> sc_pos s < sc_pos s'"
    and "scan_doc_start s = (Inr tok, s') \<Longrightarrow> sc_pos s < sc_pos s'"
    and "scan_doc_end s = (Inr tok, s') \<Longrightarrow> sc_pos s < sc_pos s'"
  using assms
  by (auto simp: scan_flow_open_def scan_flow_close_def scan_flow_comma_def scan_seq_entry_def
      scan_block_key_def scan_flow_key_def scan_block_value_def scan_flow_value_def scan_doc_start_def
      scan_doc_end_def scan_error_def flow_push_def note_node_def advance_pos REMAINING_def AT_END_def
      advance1_pos_if Let_def dest!: classify_colon_cursor flow_pop_cursor split: prod.splits if_splits)


lemma scan_directive_progress:
  assumes "scan_directive s = (Inr tok, s')" and "PEEK s = PERCENT"
  shows "sc_pos s < sc_pos s'"
proof -
  have "oyl_scan_to_break (sc_sse42 s) (BUF_AT s) \<noteq> 0"
  proof
    assume 0: "oyl_scan_to_break (sc_sse42 s) (BUF_AT s) = 0"
    have "\<not> AT_END s" using PEEK_not_end [of s] assms(2) by (simp add: char_class)
    then have "oyl_is_break (PEEK s)"
      using breaks.scan_at [of "sc_sse42 s" "BUF_AT s"] 0
      by (auto simp: AT_END_def REMAINING_def BUF_AT_def PEEK_def char_class)
    with assms(2) show False by (simp add: char_class)
  qed
  with assms(1) show ?thesis by (auto simp: scan_directive_def advance_cols_def Let_def)
qed

lemma scan_indicator_progress:
  assumes "scan_indicator s = (Inr tok, s')" and "\<not> AT_END s" and "\<not> oyl_is_blank (PEEK s)"
    and "\<not> oyl_is_break (PEEK s)" and "PEEK s \<noteq> HASH"
    and "0 \<le> sc_flow_level s"
  shows "sc_pos s < sc_pos s' \<or> tok_type tok = OYL_TOK_SCALAR \<and> tok_value tok = Some [] \<and> colon_stuck s'"
proof -
  let ?t = "s\<lparr>sc_last_was_quoted := False\<rparr>"
  have eqs: "PEEK ?t = PEEK s" "PEEK_AT ?t 1 = PEEK_AT s 1" "AT_END ?t = AT_END s" "colon_stuck ?t = colon_stuck s"
    by (simp_all add: PEEK_def PEEK_AT_def AT_END_def colon_stuck_def)
  let ?plain = "\<not> (PEEK s = COLON \<and> (blank_or_end (PEEK_AT s 1) \<or>
      sc_flow_level s > 0 \<and> oyl_is_flow (PEEK_AT s 1) \<and> \<not> colon_stuck s)) \<and>
    \<not> (sc_flow_level s > 0 \<and> oyl_is_flow (PEEK s))"
  have "(scan_content ?t = (Inr tok, s') \<and> ?plain) \<or> sc_pos s < sc_pos s'"
    using assms(1,6) scan_structure_progress [OF assms(2)]
    by (auto simp: scan_indicator_def Let_def char_class colon_stuck_def split: if_splits)
  with scan_content_progress [of ?t tok s'] assms eqs show ?thesis by auto
qed

lemma scan_token_at_progress:
  assumes "scan_token_at s = Some (Inr tok, s')" and "scanner_inv s" and "\<not> AT_END s"
    and "\<not> oyl_is_blank (PEEK s)" and "\<not> oyl_is_break (PEEK s)" and "PEEK s \<noteq> HASH"
  shows "sc_pos s < sc_pos s' \<or> tok_type tok = OYL_TOK_SCALAR \<and> tok_value tok = Some [] \<and> colon_stuck s'"
proof -
  obtain t where t: "maybe_unroll_indents s (- 1) = Some t"
    and eq: "t = s\<lparr>sc_indent := sc_indent t, sc_indents := sc_indents t\<rparr>"
    using maybe_unroll_ok [OF assms(2), of "- 1"] by auto
  have pos: "sc_pos t = sc_pos s" "AT_END t = AT_END s"
    by (subst eq, simp add: AT_END_def)+
  show ?thesis
    using assms t pos scan_structure_progress(9,10) [of t tok s'] scan_directive_progress [of s tok s']
      scan_indicator_progress [of s tok s']
    by (auto simp: scan_token_at_def scanner_inv_def split: if_splits)
qed

lemma token_progress:
  assumes "scanner_inv s" and "sc_pending s = []" and "sc_stream_started s"
    and "oyl_scan_token s = Some (Inr tok, s')"
    and "tok_type tok \<noteq> OYL_TOK_STREAM_END" and "tok_type tok \<noteq> OYL_TOK_NONE"
  shows "sc_pos s < sc_pos s' \<or> tok_type tok = OYL_TOK_SCALAR \<and> tok_value tok = Some [] \<and> colon_stuck s'"
proof -
  obtain err t where t: "skip_blanks_and_comments s = (err, t)" by fastforce
  have m: "moves s t" using skip_blanks_and_comments_moves [OF t] .
  have inv: "scanner_inv t" using m assms(1) by (rule moves_inv)
  have err: "err = None" "\<not> AT_END t"
    using assms(2-6) t
    by (auto simp: oyl_scan_token_def scan_error_def scan_stream_end_def tok_simple_def split: option.splits if_splits)
  have le: "(- 1 :: int) \<le> int (sc_col t) - 1" by simp
  obtain u where u: "maybe_unroll_indents t (int (sc_col t) - 1) = Some u" "scanner_inv u"
    "u = t\<lparr>sc_indent := sc_indent u, sc_indents := sc_indents u\<rparr>"
    using maybe_unroll_ok [OF inv le] by blast
  define v where "v = (if sc_flow_level t = 0 then u else t)"
  have v: "scanner_inv v" using u(2) inv by (simp add: v_def)
  have same: "sc_pos v = sc_pos t" "PEEK v = PEEK t" "AT_END v = AT_END t"
    unfolding v_def by (subst u(3), simp add: PEEK_def AT_END_def)+
  have "scan_token_at v = Some (Inr tok, s')"
    using assms(2-4) t err u(1) by (auto simp: oyl_scan_token_def v_def split: if_splits)
  from scan_token_at_progress [OF this v] same err skip_blanks_and_comments_stops [of s t] t moves_pos [OF m]
  show ?thesis by auto
qed

text \<open>
  C33: every token consumes input, except an empty plain scalar that leaves the cursor before a
  \<open>:\<close> that no routine takes: so a loop over the tokens of an input ends, unless it meets such a colon.
\<close>

theorem scan_token_progress:
  assumes "scanner_inv s" and "sc_pending s = []" and "sc_stream_started s"
    and "oyl_scan_token s = Some (Inr tok, s')"
    and "tok_type tok \<noteq> OYL_TOK_STREAM_END" and "tok_type tok \<noteq> OYL_TOK_NONE"
  shows "sc_pos s < sc_pos s' \<or> tok_value tok = Some [] \<and> colon_stuck s'"
  using token_progress [OF assms] by blast


theorem scan_token_progress_witness:
  "\<exists>t s'. oyl_scan_token ((the (oyl_scanner_new [] True [DASH, SP]))\<lparr>sc_stream_started := True\<rparr>) = Some (Inr t, s') \<and>
     tok_type t = OYL_TOK_BLOCK_SEQ_ENTRY \<and> 0 < sc_pos s'"
proof -
  let ?s = "(the (oyl_scanner_new [] True [DASH, SP]))\<lparr>sc_stream_started := True\<rparr>"
  have "(case oyl_scan_token ?s of Some (Inr t, s') \<Rightarrow> tok_type t = OYL_TOK_BLOCK_SEQ_ENTRY \<and> tok_value t = None
    | _ \<Rightarrow> False)" by code_simp
  then obtain t s' where t: "oyl_scan_token ?s = Some (Inr t, s')" "tok_type t = OYL_TOK_BLOCK_SEQ_ENTRY"
    "tok_value t = None"
    by (auto split: option.splits prod.splits sum.splits)
  obtain s0 where s0: "oyl_scanner_new [] True [DASH, SP] = Some s0" by (simp add: oyl_scanner_new_def)
  then have "scanner_inv ?s" using scanner_new_inv [OF s0] by simp
  moreover have "sc_pending ?s = []" "sc_stream_started ?s" "sc_pos ?s = 0"
    by (simp_all add: oyl_scanner_new_def)
  ultimately have "0 < sc_pos s'" using scan_token_progress [of ?s t s'] t by simp
  with t show ?thesis by blast
qed


section \<open>A colon before a bracket\<close>

text \<open>The states between tokens with the cursor at such a colon, after a token that was not quoted.\<close>

definition stuck :: "oyl_scanner \<Rightarrow> bool" where
  "stuck s \<longleftrightarrow> colon_stuck s \<and> sc_pending s = [] \<and> sc_stream_started s \<and> sc_col s \<noteq> 1 \<and>
     \<not> sc_last_was_quoted s \<and> scanner_inv s"

lemma colon_stuck_cong:
  "sc_buf t = sc_buf s \<Longrightarrow> sc_pos t = sc_pos s \<Longrightarrow> sc_flow_level t = sc_flow_level s \<Longrightarrow>
     colon_stuck t = colon_stuck s"
  by (simp add: colon_stuck_def PEEK_def PEEK_AT_def)

lemma skip_at_token:
  assumes "PEEK s \<noteq> HASH" and "\<not> oyl_is_blank (PEEK s)" and "\<not> oyl_is_break (PEEK s)" and "sc_col s \<noteq> 1"
    and "\<not> AT_END s"
  shows "skip_blanks_and_comments s = (None, s)"
proof -
  have "scan_until (\<lambda>c. c \<noteq> SP \<and> c \<noteq> TAB) (BUF_AT s) = 0"
    using assms(2,5) by (cases "BUF_AT s")
      (auto simp: BUF_AT_def PEEK_def AT_END_def char_class nth_via_drop)
  then have "skip_blanks s = s" by (simp add: skip_blanks_exact skip_white_def advance_cols_def)
  with assms show ?thesis
    by (simp add: skip_blanks_and_comments_def skip_loop.simps [of s] skip_comment_def)
qed

text \<open>The routine for plain scalars stops before its first byte, without an allocation.\<close>

lemma plain_at_stuck:
  assumes "colon_stuck s"
  shows "scan_plain_scalar s =
    (Inr (tok_scalar [] OYL_SCALAR_PLAIN (mark s) (mark s)),
     note_node (s\<lparr>sc_last_token_col := int (sc_col s) - 1\<rparr>) (mark s) (sc_pos s))"
proof -
  have p: "PEEK s = COLON" "\<not> AT_END s" using assms PEEK_not_end [of s] by (auto simp: colon_stuck_def char_class)
  obtain bs where "BUF_AT s = COLON # bs"
    using p by (cases "BUF_AT s") (auto simp: BUF_AT_def PEEK_def AT_END_def nth_via_drop)
  then have "oyl_scan_plain_scalar (sc_sse42 s) (BUF_AT s) = 0"
    using plain.scan_le_first [of "sc_sse42 s" "BUF_AT s"] by (simp add: plain_stop_def)
  then have "plain_step s (sc_pos s) \<lparr>pb_in_buf = False, pb_single = 0, pb_buf = [], pb_cap = 0\<rparr> =
      PlainDone s \<lparr>pb_in_buf = False, pb_single = 0, pb_buf = [], pb_cap = 0\<rparr>"
    using assms p by (auto simp: plain_step_def appended_def advance_cols_def plain_char_def plain_colon_def
        colon_stuck_def char_class Let_def)
  then show ?thesis
    by (simp add: scan_plain_scalar_def plain_loop.simps [of s] TRIM_TRAILING_def single_data_def cur_data_def
        mark_def note_node_def rtrim_def Let_def)
qed

lemma stuck_token:
  assumes "stuck s"
  obtains s' tok where "oyl_scan_token s = Some (Inr tok, s')" and "tok_type tok = OYL_TOK_SCALAR"
    and "tok_value tok = Some []" and "sc_pos s' = sc_pos s" and "stuck s'"
proof -
  have p: "PEEK s = COLON" "\<not> AT_END s" "0 < sc_flow_level s" "colon_stuck s"
    using assms PEEK_not_end [of s] by (auto simp: stuck_def colon_stuck_def char_class)
  let ?t = "s\<lparr>sc_last_was_quoted := False\<rparr>"
  let ?u = "note_node (?t\<lparr>sc_last_token_col := int (sc_col s) - 1\<rparr>) (mark s) (sc_pos s)"
  have t: "PEEK ?t = PEEK s" "mark ?t = mark s" "sc_flow_level ?t = sc_flow_level s" "colon_stuck ?t"
    using p(4) colon_stuck_cong [of ?t s] by (simp_all add: PEEK_def mark_def)
  have skip: "skip_blanks_and_comments s = (None, s)"
    using assms p by (intro skip_at_token) (auto simp: stuck_def char_class)
  have "\<not> at_doc_indicator s DASH" "\<not> at_doc_indicator s DOT"
    using assms by (simp_all add: at_doc_indicator_def stuck_def)
  then have "scan_token_at s = Some (scan_indicator s)"
    using assms by (simp add: scan_token_at_def stuck_def)
  moreover have "scan_indicator s = scan_content ?t"
    using p assms by (auto simp: scan_indicator_def stuck_def colon_stuck_def blank_or_end_def char_class Let_def)
  moreover have "scan_content ?t = (Inr (tok_scalar [] OYL_SCALAR_PLAIN (mark s) (mark s)), ?u)"
    using plain_at_stuck [OF t(4)] t p by (simp add: scan_content_def Let_def)
  ultimately have "oyl_scan_token s = Some (Inr (tok_scalar [] OYL_SCALAR_PLAIN (mark s) (mark s)), ?u)"
    using assms p skip by (simp add: oyl_scan_token_def stuck_def)
  moreover have "stuck ?u"
    using assms colon_stuck_cong [of ?u s] by (simp add: stuck_def note_node_def scanner_inv_def cursor_ok_def)
  ultimately show ?thesis
    by (intro that [of "tok_scalar [] OYL_SCALAR_PLAIN (mark s) (mark s)" ?u])
      (simp_all add: tok_scalar_def note_node_def)
qed

lemma stuck_reach: "scan_reach s t \<Longrightarrow> stuck s \<Longrightarrow> stuck t \<and> sc_pos t = sc_pos s"
proof (induction rule: scan_reach.induct)
  case (reach_token s t r u)
  from stuck_token [of t] reach_token show ?case by (metis Pair_inject option.inject)
qed simp

text \<open>
  C34: with the cursor at such a colon (as after the plain key of \<open>[a:[b]]\<close>), every further call of
  \<open>oyl_scan_token\<close> returns an empty scalar at the same offset: the end of the stream is never
  reached, so a client that reads tokens until then does not end.
\<close>

theorem colon_bracket_livelock:
  assumes "stuck s" and "scan_reach s t"
  shows "\<exists>tok u. oyl_scan_token t = Some (Inr tok, u) \<and> tok_type tok = OYL_TOK_SCALAR \<and>
    tok_value tok = Some [] \<and> sc_pos u = sc_pos s"
  using stuck_reach [OF assms(2,1)] stuck_token [of t] by metis

text \<open>The scanner on \<open>[a:[b]]\<close>, after the tokens for the start of the stream, the bracket and \<open>a\<close>.\<close>

definition stuck_example :: oyl_scanner where
  "stuck_example =
    (let step = (\<lambda>s. snd (the (oyl_scan_token s)))
     in step (step (step (the (oyl_scanner_new [] False
          [LBRACK, 0x61, COLON, LBRACK, 0x62, RBRACK, RBRACK])))))"

theorem colon_bracket_livelock_witness:
  "stuck stuck_example \<and>
   (\<exists>tok u. oyl_scan_token stuck_example = Some (Inr tok, u) \<and> tok_type tok = OYL_TOK_SCALAR \<and>
      tok_value tok = Some [] \<and> sc_pos u = 2)"
proof -
  have "stuck stuck_example" "sc_pos stuck_example = 2" by code_simp+
  then show ?thesis
    using colon_bracket_livelock [of stuck_example stuck_example] reach_start by simp
qed

end
