(* ===== verification/OylEvent.thy ===== *)
theory OylEvent
  imports OylScanState
begin

text \<open>
  Events, which the parser produces and the emitter consumes (\<open>oyl_event\<close> of
  \<open>src/include/oyl/oyl.h\<close>), and the trees they describe: \<open>node_events\<close> is the sequence of events
  of a node.
\<close>

section \<open>Events\<close>

datatype oyl_event_type =
    OYL_EVT_NONE
  | OYL_EVT_STREAM_START
  | OYL_EVT_STREAM_END
  | OYL_EVT_DOC_START
  | OYL_EVT_DOC_END
  | OYL_EVT_MAPPING_START
  | OYL_EVT_MAPPING_END
  | OYL_EVT_SEQUENCE_START
  | OYL_EVT_SEQUENCE_END
  | OYL_EVT_SCALAR
  | OYL_EVT_ALIAS

record oyl_event =
  evt_type :: oyl_event_type
  evt_value :: oyl_str
  evt_anchor :: oyl_str
  evt_tag :: oyl_str
  evt_scalar_style :: oyl_scalar_style
  evt_implicit :: bool
  evt_flow :: bool
  evt_start :: oyl_mark
  evt_end :: oyl_mark

fun oyl_event_type_str :: "oyl_event_type \<Rightarrow> string" where
  "oyl_event_type_str OYL_EVT_NONE = ''NONE''"
| "oyl_event_type_str OYL_EVT_STREAM_START = ''STREAM_START''"
| "oyl_event_type_str OYL_EVT_STREAM_END = ''STREAM_END''"
| "oyl_event_type_str OYL_EVT_DOC_START = ''DOC_START''"
| "oyl_event_type_str OYL_EVT_DOC_END = ''DOC_END''"
| "oyl_event_type_str OYL_EVT_MAPPING_START = ''MAPPING_START''"
| "oyl_event_type_str OYL_EVT_MAPPING_END = ''MAPPING_END''"
| "oyl_event_type_str OYL_EVT_SEQUENCE_START = ''SEQUENCE_START''"
| "oyl_event_type_str OYL_EVT_SEQUENCE_END = ''SEQUENCE_END''"
| "oyl_event_type_str OYL_EVT_SCALAR = ''SCALAR''"
| "oyl_event_type_str OYL_EVT_ALIAS = ''ALIAS''"

text \<open>An event of which only the type is set.\<close>

definition plain_event :: "oyl_event_type \<Rightarrow> oyl_event" where
  "plain_event t = \<lparr>evt_type = t, evt_value = None, evt_anchor = None, evt_tag = None,
     evt_scalar_style = OYL_SCALAR_PLAIN, evt_implicit = False, evt_flow = False,
     evt_start = no_mark, evt_end = no_mark\<rparr>"

definition has_props :: "oyl_event \<Rightarrow> bool" where
  "has_props evt \<longleftrightarrow> str_bytes (evt_anchor evt) \<noteq> [] \<or> str_bytes (evt_tag evt) \<noteq> []"

section \<open>Trees\<close>

datatype oyl_node =
    NScalar oyl_event
  | NAlias oyl_event
  | NSeq oyl_event "oyl_node list" oyl_event
  | NMap oyl_event "(oyl_node \<times> oyl_node) list" oyl_event

text \<open>The events of a node have the types its shape says.\<close>

fun node_ok :: "oyl_node \<Rightarrow> bool" where
  "node_ok (NScalar e) = (evt_type e = OYL_EVT_SCALAR)"
| "node_ok (NAlias e) = (evt_type e = OYL_EVT_ALIAS)"
| "node_ok (NSeq e ns e') = (evt_type e = OYL_EVT_SEQUENCE_START \<and> list_all node_ok ns \<and>
     evt_type e' = OYL_EVT_SEQUENCE_END)"
| "node_ok (NMap e kvs e') = (evt_type e = OYL_EVT_MAPPING_START \<and>
     list_all (\<lambda>(k, v). node_ok k \<and> node_ok v) kvs \<and> evt_type e' = OYL_EVT_MAPPING_END)"

fun node_events :: "oyl_node \<Rightarrow> oyl_event list" where
  "node_events (NScalar e) = [e]"
| "node_events (NAlias e) = [e]"
| "node_events (NSeq e ns e') = e # concat (map node_events ns) @ [e']"
| "node_events (NMap e kvs e') = e # concat (map (\<lambda>(k, v). node_events k @ node_events v) kvs) @ [e']"

lemma node_events_Cons: "\<exists>e es. node_events n = e # es"
  by (cases n) auto

end
