(* ===== verification/OylEmitter.thy ===== *)
theory OylEmitter
  imports OylEvent
begin

text \<open>
  The emitter of \<open>src/src/oyl_emitter.c\<close>: events to YAML text.

  The state is the record \<open>oyl_emitter\<close>. Its buffer is the list of the bytes written
  (\<open>buf[0 .. len)\<close>) next to the capacity of the array; the stack of contexts is a list with the
  top first, next to its capacity; \<open>em_mem\<close> is the allocation oracle for \<open>realloc\<close>. An operation
  takes the emitter and returns a status and the emitter afterwards; \<open>st_then\<close> is the idiom
  "if (st != OYL_OK) return st;".
\<close>

section \<open>State\<close>

datatype emit_ctx_type = EMIT_CTX_BLOCK_MAP | EMIT_CTX_BLOCK_SEQ | EMIT_CTX_FLOW_MAP | EMIT_CTX_FLOW_SEQ

record emit_ctx =
  ctx_type :: emit_ctx_type
  ctx_indent :: int
  ctx_count :: nat
  ctx_expect_key :: bool
  ctx_complex_key :: bool

datatype oyl_emit_style = OYL_EMIT_BLOCK | OYL_EMIT_FLOW | OYL_EMIT_MINIMAL

record emit_opts =
  opt_style :: oyl_emit_style
  opt_indent :: int

record oyl_emitter =
  em_opts :: emit_opts
  em_buf :: "byte list"
  em_cap :: nat
  em_column :: int
  em_stack :: "emit_ctx list"
  em_stack_cap :: nat
  em_doc_open :: bool
  em_first_doc :: bool
  em_wrote_block_key :: bool
  em_after_seq_dash :: bool
  em_key_was_alias :: bool
  em_wrote_props :: bool
  em_mem :: mem

type_synonym emit_op = "oyl_emitter \<Rightarrow> oyl_status \<times> oyl_emitter"

definition st_then :: "oyl_status \<times> oyl_emitter \<Rightarrow> emit_op \<Rightarrow> oyl_status \<times> oyl_emitter" where
  "st_then r k = (if fst r = OYL_OK then k (snd r) else r)"

section \<open>Output buffer\<close>

definition EMIT_INIT_CAP :: nat where
  "EMIT_INIT_CAP = 4096"

definition buf_ensure :: "oyl_emitter \<Rightarrow> nat \<Rightarrow> oyl_status \<times> oyl_emitter" where
  "buf_ensure e need =
    (if length (em_buf e) + need \<le> em_cap e then (OYL_OK, e)
     else
       let new_cap = em_cap e * 2;
           new_cap = (if new_cap < length (em_buf e) + need then length (em_buf e) + need else new_cap);
           (ok, m) = mem_take (em_mem e)
       in if \<not> ok then (OYL_ERR_MEMORY, e\<lparr>em_mem := m\<rparr>)
          else (OYL_OK, e\<lparr>em_cap := new_cap, em_mem := m\<rparr>))"

definition buf_put :: "oyl_emitter \<Rightarrow> byte \<Rightarrow> oyl_status \<times> oyl_emitter" where
  "buf_put e c =
    st_then (buf_ensure e 1)
      (\<lambda>e. (OYL_OK, e\<lparr>em_buf := em_buf e @ [c], em_column := (if c = LF then 0 else em_column e + 1)\<rparr>))"

text \<open>After a line break the column counts the bytes behind the last one.\<close>

definition buf_puts :: "oyl_emitter \<Rightarrow> byte list \<Rightarrow> oyl_status \<times> oyl_emitter" where
  "buf_puts e s =
    st_then (buf_ensure e (length s))
      (\<lambda>e. (OYL_OK, e\<lparr>em_buf := em_buf e @ s,
         em_column := (if LF \<in> set s then int (length (takeWhile (\<lambda>c. c \<noteq> LF) (rev s)))
                       else em_column e + int (length s))\<rparr>))"

definition buf_indent :: "oyl_emitter \<Rightarrow> int \<Rightarrow> oyl_status \<times> oyl_emitter" where
  "buf_indent e spaces =
    (if spaces \<le> 0 then (OYL_OK, e)
     else st_then (buf_ensure e (nat spaces))
       (\<lambda>e. (OYL_OK, e\<lparr>em_buf := em_buf e @ replicate (nat spaces) SP, em_column := em_column e + spaces\<rparr>)))"

text \<open>\<open>e->len > 0 && e->buf[e->len - 1] == c\<close>, and dropping the last byte if it is a space.\<close>

definition buf_ends :: "oyl_emitter \<Rightarrow> byte \<Rightarrow> bool" where
  "buf_ends e c \<longleftrightarrow> em_buf e \<noteq> [] \<and> last (em_buf e) = c"

definition drop_space :: "oyl_emitter \<Rightarrow> oyl_emitter" where
  "drop_space e = (if buf_ends e SP then e\<lparr>em_buf := butlast (em_buf e)\<rparr> else e)"

text \<open>A line break, unless the buffer is empty or at the start of a line.\<close>

definition fresh_line :: "oyl_emitter \<Rightarrow> oyl_status \<times> oyl_emitter" where
  "fresh_line e = (if em_buf e \<noteq> [] \<and> last (em_buf e) \<noteq> LF then buf_put e LF else (OYL_OK, e))"

section \<open>Context stack\<close>

definition push_ctx :: "oyl_emitter \<Rightarrow> emit_ctx_type \<Rightarrow> int \<Rightarrow> oyl_status \<times> oyl_emitter" where
  "push_ctx e t indent =
    st_then
      (if em_stack_cap e \<le> length (em_stack e) then
         let new_cap = em_stack_cap e * 2;
             new_cap = (if new_cap < 8 then 8 else new_cap);
             (ok, m) = mem_take (em_mem e)
         in if \<not> ok then (OYL_ERR_MEMORY, e\<lparr>em_mem := m\<rparr>)
            else (OYL_OK, e\<lparr>em_stack_cap := new_cap, em_mem := m\<rparr>)
       else (OYL_OK, e))
      (\<lambda>e. (OYL_OK, e\<lparr>em_stack :=
         \<lparr>ctx_type = t, ctx_indent = indent, ctx_count = 0,
          ctx_expect_key = (t = EMIT_CTX_BLOCK_MAP \<or> t = EMIT_CTX_FLOW_MAP), ctx_complex_key = False\<rparr>
         # em_stack e\<rparr>))"

definition top_ctx :: "oyl_emitter \<Rightarrow> emit_ctx option" where
  "top_ctx e = (case em_stack e of [] \<Rightarrow> None | c # cs \<Rightarrow> Some c)"

definition pop_ctx :: "oyl_emitter \<Rightarrow> oyl_emitter" where
  "pop_ctx e = e\<lparr>em_stack := tl (em_stack e)\<rparr>"

text \<open>Writing through the pointer \<open>top_ctx\<close> returned.\<close>

definition set_top :: "oyl_emitter \<Rightarrow> (emit_ctx \<Rightarrow> emit_ctx) \<Rightarrow> oyl_emitter" where
  "set_top e f = (case em_stack e of [] \<Rightarrow> e | c # cs \<Rightarrow> e\<lparr>em_stack := f c # cs\<rparr>)"

definition is_flow_ctx :: "emit_ctx \<Rightarrow> bool" where
  "is_flow_ctx c \<longleftrightarrow> ctx_type c = EMIT_CTX_FLOW_MAP \<or> ctx_type c = EMIT_CTX_FLOW_SEQ"

definition is_map_ctx :: "emit_ctx \<Rightarrow> bool" where
  "is_map_ctx c \<longleftrightarrow> ctx_type c = EMIT_CTX_BLOCK_MAP \<or> ctx_type c = EMIT_CTX_FLOW_MAP"

definition in_any_flow :: "oyl_emitter \<Rightarrow> bool" where
  "in_any_flow e = list_ex is_flow_ctx (em_stack e)"

section \<open>Separators\<close>

definition entry_sep :: "oyl_emitter \<Rightarrow> byte list" where
  "entry_sep e = (if opt_style (em_opts e) = OYL_EMIT_MINIMAL then [COMMA] else [COMMA, SP])"

definition kv_sep :: "byte list" where
  "kv_sep = [COLON, SP]"

section \<open>Does a scalar need quotes?\<close>

definition is_yaml_keyword :: "byte list \<Rightarrow> bool" where
  "is_yaml_keyword s \<longleftrightarrow> s \<in> set (map bytes_of
     [''null'', ''Null'', ''NULL'', ''~'', ''true'', ''True'', ''TRUE'', ''false'', ''False'', ''FALSE'',
      ''.inf'', ''+.inf'', ''-.inf'', ''.nan'', ''.Inf'', ''.NaN'', ''.Nan'', ''.INF'', ''.NAN''])"

text \<open>The loop over the bytes after the sign; \<open>prev\<close> is the byte before the current one, if any.\<close>

fun number_chars :: "bool \<Rightarrow> bool \<Rightarrow> byte option \<Rightarrow> byte list \<Rightarrow> bool" where
  "number_chars has_dot has_e prev [] = True"
| "number_chars has_dot has_e prev (c # cs) =
    (if DIGIT_0 \<le> c \<and> c \<le> DIGIT_9 then number_chars has_dot has_e (Some c) cs
     else if c = DOT \<and> \<not> has_dot then number_chars True has_e (Some c) cs
     else if (c = LC_E \<or> c = UC_E) \<and> \<not> has_e then number_chars has_dot True (Some c) cs
     else if (c = PLUS \<or> c = DASH) \<and> (prev = Some LC_E \<or> prev = Some UC_E)
     then number_chars has_dot has_e (Some c) cs
     else False)"

definition looks_like_number :: "byte list \<Rightarrow> bool" where
  "looks_like_number s =
    (if s = [] then False
     else
       let signed = (hd s = PLUS \<or> hd s = DASH); t = (if signed then tl s else s)
       in if signed \<and> t = [] then False
          else if 1 < length t \<and> t ! 0 = DIGIT_0 \<and> (t ! 1 = LC_X \<or> t ! 1 = LC_O) then True
          else number_chars False False (if signed then Some (hd s) else None) t)"

definition has_break :: "byte list \<Rightarrow> bool" where
  "has_break s = list_ex oyl_is_break s"

definition needs_escape :: "byte list \<Rightarrow> bool" where
  "needs_escape s = list_ex (\<lambda>c. c < 0x20 \<and> c \<noteq> TAB \<or> c = DEL) s"

text \<open>The loop of \<open>needs_quoting\<close> over the text.\<close>

fun quoting_chars :: "bool \<Rightarrow> byte list \<Rightarrow> bool" where
  "quoting_chars flow_ctx [] = False"
| "quoting_chars flow_ctx (c # cs) =
    (if c = COLON \<and> (cs = [] \<or> hd cs = SP \<or> hd cs = TAB) then True
     else if (c = SP \<or> c = TAB) \<and> cs \<noteq> [] \<and> hd cs = HASH then True
     else if oyl_is_break c then True
     else if flow_ctx \<and> oyl_is_flow c then True
     else if (c = SP \<or> c = TAB) \<and> cs = [] then True
     else quoting_chars flow_ctx cs)"

text \<open>An indicator at the start that is not the start of a plain scalar.\<close>

definition bad_start :: "byte list \<Rightarrow> bool \<Rightarrow> bool" where
  "bad_start s flow_ctx =
    (let first = hd s
     in oyl_is_indicator first \<and>
        (if \<not> (first = DASH \<or> first = QMARK \<or> first = COLON) then True
         else if length s < 2 then True
         else let next = s ! 1
              in if oyl_is_blank_or_break next then True
                 else flow_ctx \<and> oyl_is_flow next))"

definition needs_quoting :: "byte list \<Rightarrow> bool \<Rightarrow> bool" where
  "needs_quoting s flow_ctx =
    (if s = [] then True
     else if bad_start s flow_ctx then True
     else if hd s = SP \<or> hd s = TAB then True
     else if 3 \<le> length s \<and> s ! 0 = 0xEF \<and> s ! 1 = 0xBB \<and> s ! 2 = 0xBF then True
     else if 3 \<le> length s \<and> (take 3 s = [DASH, DASH, DASH] \<or> take 3 s = [DOT, DOT, DOT]) then True
     else quoting_chars flow_ctx s)"

definition literal_ok :: "byte list \<Rightarrow> bool" where
  "literal_ok s =
    (if list_ex (\<lambda>c. c < 0x20 \<and> c \<noteq> LF \<and> c \<noteq> TAB \<or> c = DEL) s then False
     else let t = dropWhile (\<lambda>c. c = LF) s in \<not> (t \<noteq> [] \<and> hd t = SP))"

definition is_str_tag :: "oyl_str \<Rightarrow> bool" where
  "is_str_tag tag \<longleftrightarrow> str_bytes tag = TAG_STR"

definition choose_style ::
    "oyl_scalar_style \<Rightarrow> byte list \<Rightarrow> bool \<Rightarrow> bool \<Rightarrow> oyl_str \<Rightarrow> oyl_scalar_style" where
  "choose_style requested val flow_ctx is_key tag =
    (let block_ok = \<not> flow_ctx \<and> \<not> is_key \<and> literal_ok val
     in if requested = OYL_SCALAR_LITERAL \<or> requested = OYL_SCALAR_FOLDED
        then (if block_ok then OYL_SCALAR_LITERAL else OYL_SCALAR_DOUBLE_QUOTED)
        else if requested = OYL_SCALAR_SINGLE_QUOTED
        then (if has_break val then OYL_SCALAR_DOUBLE_QUOTED else requested)
        else if requested = OYL_SCALAR_DOUBLE_QUOTED then requested
        else if val = [] \<and> \<not> is_str_tag tag then OYL_SCALAR_PLAIN
        else if needs_escape val then OYL_SCALAR_DOUBLE_QUOTED
        else if \<not> needs_quoting val flow_ctx
        then (if is_str_tag tag \<and> (is_yaml_keyword val \<or> looks_like_number val)
              then OYL_SCALAR_DOUBLE_QUOTED else OYL_SCALAR_PLAIN)
        else if needs_escape val then OYL_SCALAR_DOUBLE_QUOTED
        else if block_ok \<and> has_break val then OYL_SCALAR_LITERAL
        else OYL_SCALAR_DOUBLE_QUOTED)"

section \<open>Scalars\<close>

definition emit_plain :: "oyl_emitter \<Rightarrow> byte list \<Rightarrow> oyl_status \<times> oyl_emitter" where
  "emit_plain e s = buf_puts e s"

text \<open>The loop "for each byte: st = ...; if (st != OYL_OK) return st;".\<close>

fun emit_each :: "(oyl_emitter \<Rightarrow> byte \<Rightarrow> oyl_status \<times> oyl_emitter) \<Rightarrow> byte list \<Rightarrow> emit_op" where
  "emit_each f [] e = (OYL_OK, e)"
| "emit_each f (c # cs) e = st_then (f e c) (emit_each f cs)"

definition sq_byte :: "oyl_emitter \<Rightarrow> byte \<Rightarrow> oyl_status \<times> oyl_emitter" where
  "sq_byte e c = (if c = SQUOTE then buf_puts e [SQUOTE, SQUOTE] else buf_put e c)"

definition emit_single_quoted :: "oyl_emitter \<Rightarrow> byte list \<Rightarrow> oyl_status \<times> oyl_emitter" where
  "emit_single_quoted e s =
    st_then (buf_put e SQUOTE) (\<lambda>e. st_then (emit_each sq_byte s e) (\<lambda>e. buf_put e SQUOTE))"

text \<open>\<open>%02X\<close>\<close>

definition hex_upper :: "byte \<Rightarrow> byte" where
  "hex_upper n = (if n < 10 then DIGIT_0 + n else UC_A + (n - 10))"

definition hex_02X :: "byte \<Rightarrow> byte list" where
  "hex_02X c = [hex_upper (drop_bit 4 c), hex_upper (c AND 0x0F)]"

definition dq_byte :: "oyl_emitter \<Rightarrow> byte \<Rightarrow> oyl_status \<times> oyl_emitter" where
  "dq_byte e c =
    (if c = BSLASH then buf_puts e [BSLASH, BSLASH]
     else if c = DQUOTE then buf_puts e [BSLASH, DQUOTE]
     else if c = LF then buf_puts e [BSLASH, LC_N]
     else if c = CR then buf_puts e [BSLASH, LC_R]
     else if c = TAB then buf_puts e [BSLASH, LC_T]
     else if c = NUL then buf_puts e [BSLASH, DIGIT_0]
     else if c = BEL then buf_puts e [BSLASH, LC_A]
     else if c = BS then buf_puts e [BSLASH, LC_B]
     else if c < 0x20 \<or> c = DEL then buf_puts e (BSLASH # LC_X # hex_02X c)
     else buf_put e c)"

definition emit_double_quoted :: "oyl_emitter \<Rightarrow> byte list \<Rightarrow> oyl_status \<times> oyl_emitter" where
  "emit_double_quoted e s =
    st_then (buf_put e DQUOTE) (\<lambda>e. st_then (emit_each dq_byte s e) (\<lambda>e. buf_put e DQUOTE))"

text \<open>The body lines of a literal block scalar, each ending in a line break.\<close>

function literal_lines :: "int \<Rightarrow> byte list \<Rightarrow> emit_op" where
  "literal_lines indent body e =
    (if body = [] then (OYL_OK, e)
     else
       let line = takeWhile (\<lambda>c. c \<noteq> LF) body
       in st_then
            (if line \<noteq> [] then st_then (buf_indent e indent) (\<lambda>e. buf_puts e line) else (OYL_OK, e))
            (\<lambda>e. st_then (buf_put e LF) (literal_lines indent (drop (length line + 1) body))))"
  by pat_completeness auto
termination
  by (relation "measure (\<lambda>(indent, body, e). length body)") auto

declare literal_lines.simps [simp del]

definition trailing_breaks :: "byte list \<Rightarrow> nat" where
  "trailing_breaks s = length (takeWhile (\<lambda>c. c = LF) (rev s))"

definition literal_header :: "nat \<Rightarrow> nat \<Rightarrow> byte list" where
  "literal_header body trail =
    (if body = 0 then (if trail \<noteq> 0 then [PIPE, PLUS, LF] else [PIPE, DASH, LF])
     else if trail = 0 then [PIPE, DASH, LF] else if trail = 1 then [PIPE, LF] else [PIPE, PLUS, LF])"

definition emit_block_scalar :: "oyl_emitter \<Rightarrow> byte list \<Rightarrow> int \<Rightarrow> oyl_status \<times> oyl_emitter" where
  "emit_block_scalar e s indent =
    (let trail = trailing_breaks s; body = length s - trail
     in st_then (buf_puts e (literal_header body trail))
          (\<lambda>e. st_then (literal_lines indent (take body s) e)
            (emit_each buf_put (replicate (if body \<noteq> 0 then trail - 1 else trail) LF))))"

definition emit_scalar :: "oyl_emitter \<Rightarrow> oyl_event \<Rightarrow> oyl_status \<times> oyl_emitter" where
  "emit_scalar e evt =
    (let val = str_bytes (evt_value evt);
         flow_ctx = (in_any_flow e \<or> opt_style (em_opts e) \<noteq> OYL_EMIT_BLOCK);
         ctx = top_ctx e;
         is_key = (case ctx of None \<Rightarrow> False | Some c \<Rightarrow> is_map_ctx c \<and> ctx_expect_key c);
         indent = (case ctx of None \<Rightarrow> opt_indent (em_opts e) | Some c \<Rightarrow> ctx_indent c + opt_indent (em_opts e))
     in case choose_style (evt_scalar_style evt) val flow_ctx is_key (evt_tag evt) of
          OYL_SCALAR_PLAIN \<Rightarrow>
            (if val = [] then
               (if (case ctx of None \<Rightarrow> False | Some c \<Rightarrow> ctx_type c = EMIT_CTX_FLOW_SEQ) \<and> \<not> em_wrote_props e
                then buf_put e TILDE
                else if \<not> em_wrote_props e \<and> \<not> is_key then (OYL_OK, drop_space e)
                else (OYL_OK, e))
             else emit_plain e val)
        | OYL_SCALAR_SINGLE_QUOTED \<Rightarrow> emit_single_quoted e val
        | OYL_SCALAR_DOUBLE_QUOTED \<Rightarrow> emit_double_quoted e val
        | OYL_SCALAR_LITERAL \<Rightarrow> emit_block_scalar e val indent
        | OYL_SCALAR_FOLDED \<Rightarrow> emit_block_scalar e val indent)"

section \<open>Anchors and tags\<close>

definition emit_anchor :: "oyl_emitter \<Rightarrow> oyl_str \<Rightarrow> oyl_status \<times> oyl_emitter" where
  "emit_anchor e anchor =
    (let s = str_bytes anchor
     in if s = [] then (OYL_OK, e)
        else st_then (buf_put e AMP) (\<lambda>e. st_then (buf_puts e s) (\<lambda>e. buf_put e SP)))"

text \<open>The bytes \<open>strchr\<close> looks for: \<open>-#;/?:@&=+$,_.!~*'()[]\<close>.\<close>

definition uri_punctuation :: "byte list" where
  "uri_punctuation =
    [0x2D, 0x23, 0x3B, 0x2F, 0x3F, 0x3A, 0x40, 0x26, 0x3D, 0x2B, 0x24, 0x2C, 0x5F, 0x2E, 0x21, 0x7E,
     0x2A, 0x27, 0x28, 0x29, 0x5B, 0x5D]"

definition is_uri_char :: "byte \<Rightarrow> bool" where
  "is_uri_char c \<longleftrightarrow> LC_A \<le> c \<and> c \<le> LC_Z \<or> UC_A \<le> c \<and> c \<le> UC_Z \<or> DIGIT_0 \<le> c \<and> c \<le> DIGIT_9 \<or>
     c \<noteq> 0 \<and> c \<in> set uri_punctuation"

definition is_tag_char :: "byte \<Rightarrow> bool" where
  "is_tag_char c \<longleftrightarrow> is_uri_char c \<and> c \<noteq> BANG \<and> \<not> oyl_is_flow c"

definition all_tag_chars :: "byte list \<Rightarrow> bool" where
  "all_tag_chars s = list_all is_tag_char s"

definition yaml_prefix :: "byte list" where
  "yaml_prefix = bytes_of ''tag:yaml.org,2002:''"

definition verbatim_byte :: "oyl_emitter \<Rightarrow> byte \<Rightarrow> oyl_status \<times> oyl_emitter" where
  "verbatim_byte e c = (if is_uri_char c then buf_put e c else buf_puts e (PERCENT # hex_02X c))"

definition emit_tag :: "oyl_emitter \<Rightarrow> oyl_str \<Rightarrow> oyl_status \<times> oyl_emitter" where
  "emit_tag e tag =
    (let s = str_bytes tag; plen = length yaml_prefix
     in if s = [] then (OYL_OK, e)
        else st_then
          (if plen < length s \<and> take plen s = yaml_prefix \<and> all_tag_chars (drop plen s)
           then st_then (buf_puts e [BANG, BANG]) (\<lambda>e. buf_puts e (drop plen s))
           else if hd s = BANG \<and> all_tag_chars (tl s) then buf_puts e s
           else st_then (buf_puts e [BANG, LT]) (\<lambda>e. st_then (emit_each verbatim_byte s e) (\<lambda>e. buf_put e GT)))
          (\<lambda>e. buf_put e SP))"

definition emit_props :: "oyl_emitter \<Rightarrow> oyl_event \<Rightarrow> oyl_status \<times> oyl_emitter" where
  "emit_props e evt =
    st_then (emit_anchor (e\<lparr>em_wrote_props := has_props evt\<rparr>) (evt_anchor evt))
      (\<lambda>e. emit_tag e (evt_tag evt))"

definition emit_block_collection_props :: "oyl_emitter \<Rightarrow> oyl_event \<Rightarrow> bool \<Rightarrow> oyl_status \<times> oyl_emitter" where
  "emit_block_collection_props e evt after_key =
    (if \<not> has_props evt then (OYL_OK, e)
     else st_then (if after_key then buf_put e SP else (OYL_OK, e))
       (\<lambda>e. st_then (emit_props e evt) (\<lambda>e. (OYL_OK, drop_space e))))"

definition emit_complex_key_open :: "oyl_emitter \<Rightarrow> oyl_event \<Rightarrow> oyl_status \<times> oyl_emitter" where
  "emit_complex_key_open e evt =
    st_then (buf_put e QMARK)
      (\<lambda>e. st_then (emit_block_collection_props e evt True)
        (\<lambda>e. (OYL_OK, (set_top e (ctx_complex_key_update (\<lambda>_. True)))\<lparr>em_after_seq_dash := False\<rparr>)))"

section \<open>Before and after a node\<close>

text \<open>The key of a block mapping: a new line with its indentation, unless it follows a dash.\<close>

definition pre_block_key :: "oyl_emitter \<Rightarrow> int \<Rightarrow> oyl_status \<times> oyl_emitter" where
  "pre_block_key e indent =
    (if em_after_seq_dash e then (OYL_OK, e)
     else if em_buf e \<noteq> [] \<and> last (em_buf e) \<noteq> LF then st_then (buf_put e LF) (\<lambda>e. buf_indent e indent)
     else if em_buf e \<noteq> [] then buf_indent e indent
     else (OYL_OK, e))"

text \<open>A space before the colon, after an alias.\<close>

definition alias_space :: "oyl_emitter \<Rightarrow> oyl_status \<times> oyl_emitter" where
  "alias_space e =
    (if em_key_was_alias e
     then st_then (buf_put e SP) (\<lambda>e. (OYL_OK, e\<lparr>em_key_was_alias := False\<rparr>))
     else (OYL_OK, e))"

definition pre_block_value :: "oyl_emitter \<Rightarrow> emit_ctx \<Rightarrow> bool \<Rightarrow> oyl_status \<times> oyl_emitter" where
  "pre_block_value e ctx is_collection =
    st_then
      (if ctx_complex_key ctx then
         st_then (fresh_line e)
           (\<lambda>e. st_then (buf_indent e (ctx_indent ctx))
             (\<lambda>e. (OYL_OK, set_top e (ctx_complex_key_update (\<lambda>_. False)))))
       else (OYL_OK, e))
      (\<lambda>e. st_then (alias_space e)
        (\<lambda>e. st_then (if is_collection then buf_puts e [COLON] else buf_puts e [COLON, SP])
          (\<lambda>e. (OYL_OK, e\<lparr>em_wrote_block_key := False\<rparr>))))"

definition emit_pre_node :: "oyl_emitter \<Rightarrow> bool \<Rightarrow> oyl_status \<times> oyl_emitter" where
  "emit_pre_node e is_collection =
    (case top_ctx e of
       None \<Rightarrow> fresh_line e
     | Some ctx \<Rightarrow>
        (case ctx_type ctx of
           EMIT_CTX_BLOCK_MAP \<Rightarrow>
             (if ctx_expect_key ctx then pre_block_key e (ctx_indent ctx)
              else pre_block_value e ctx is_collection)
         | EMIT_CTX_BLOCK_SEQ \<Rightarrow>
             st_then (fresh_line e)
               (\<lambda>e. st_then (buf_indent e (ctx_indent ctx))
                 (\<lambda>e. st_then (buf_puts e [DASH, SP])
                   (\<lambda>e. (OYL_OK, e\<lparr>em_after_seq_dash := True\<rparr>))))
         | EMIT_CTX_FLOW_MAP \<Rightarrow>
             (if ctx_expect_key ctx
              then (if ctx_count ctx > 0 then buf_puts e (entry_sep e) else (OYL_OK, e))
              else st_then (alias_space e) (\<lambda>e. buf_puts e kv_sep))
         | EMIT_CTX_FLOW_SEQ \<Rightarrow>
             (if ctx_count ctx > 0 then buf_puts e (entry_sep e) else (OYL_OK, e))))"

definition advance_ctx :: "oyl_emitter \<Rightarrow> oyl_emitter" where
  "advance_ctx e =
    (case top_ctx e of
       None \<Rightarrow> e
     | Some ctx \<Rightarrow>
        (let e =
          (if is_map_ctx ctx then
             (if ctx_expect_key ctx
              then (set_top e (ctx_expect_key_update (\<lambda>_. False)))
                     \<lparr>em_wrote_block_key := (ctx_type ctx = EMIT_CTX_BLOCK_MAP)\<rparr>
              else (set_top e (ctx_expect_key_update (\<lambda>_. True) \<circ> ctx_count_update Suc))
                     \<lparr>em_wrote_block_key := False\<rparr>)
           else set_top e (ctx_count_update Suc))
         in e\<lparr>em_after_seq_dash := False\<rparr>))"

section \<open>Events\<close>

text \<open>
  The end of the two start events: the parent's context advances, below the new one, and the flag
  for a compact mapping is kept.
\<close>

definition advance_parent :: "oyl_emitter \<Rightarrow> oyl_emitter" where
  "advance_parent e =
    (case em_stack e of
       [] \<Rightarrow> e
     | c # cs \<Rightarrow>
        (let e' = advance_ctx (e\<lparr>em_stack := cs\<rparr>)
         in e'\<lparr>em_stack := c # em_stack e', em_after_seq_dash := em_after_seq_dash e\<rparr>))"

definition top_is :: "oyl_emitter \<Rightarrow> emit_ctx_type \<Rightarrow> bool" where
  "top_is e t = (case top_ctx e of None \<Rightarrow> False | Some c \<Rightarrow> ctx_type c = t)"

definition top_expects_key :: "oyl_emitter \<Rightarrow> bool" where
  "top_expects_key e = (case top_ctx e of None \<Rightarrow> False | Some c \<Rightarrow> ctx_expect_key c)"

definition top_indent :: "oyl_emitter \<Rightarrow> int" where
  "top_indent e = (case top_ctx e of None \<Rightarrow> 0 | Some c \<Rightarrow> ctx_indent c)"

definition emit_mapping_start :: "oyl_emitter \<Rightarrow> oyl_event \<Rightarrow> oyl_status \<times> oyl_emitter" where
  "emit_mapping_start e evt =
    (let use_flow = (opt_style (em_opts e) \<noteq> OYL_EMIT_BLOCK \<or> evt_flow evt \<or> in_any_flow e);
         in_map = top_is e EMIT_CTX_BLOCK_MAP; expects = top_expects_key e;
         map_value = (\<not> use_flow \<and> in_map \<and> \<not> expects)
     in st_then (emit_pre_node e (\<not> use_flow))
       (\<lambda>e. st_then
         (if \<not> use_flow \<and> in_map \<and> expects then emit_complex_key_open e evt
          else if use_flow then emit_props e evt
          else st_then (emit_block_collection_props e evt map_value)
            (\<lambda>e. (OYL_OK, if em_after_seq_dash e \<and> has_props evt then e\<lparr>em_after_seq_dash := False\<rparr> else e)))
         (\<lambda>e. st_then
           (if use_flow then st_then (buf_put e LBRACE) (\<lambda>e. push_ctx e EMIT_CTX_FLOW_MAP 0)
            else push_ctx e EMIT_CTX_BLOCK_MAP
              (if top_is e EMIT_CTX_BLOCK_SEQ then top_indent e + 2
               else if top_is e EMIT_CTX_BLOCK_MAP then top_indent e + opt_indent (em_opts e)
               else 0))
           (\<lambda>e. (OYL_OK, advance_parent e)))))"

definition emit_sequence_start :: "oyl_emitter \<Rightarrow> oyl_event \<Rightarrow> oyl_status \<times> oyl_emitter" where
  "emit_sequence_start e evt =
    (let use_flow = (opt_style (em_opts e) \<noteq> OYL_EMIT_BLOCK \<or> evt_flow evt \<or> in_any_flow e);
         in_map = top_is e EMIT_CTX_BLOCK_MAP; expects = top_expects_key e;
         map_value = (\<not> use_flow \<and> in_map \<and> \<not> expects)
     in st_then (emit_pre_node e (\<not> use_flow))
       (\<lambda>e. st_then
         (if \<not> use_flow \<and> in_map \<and> expects then emit_complex_key_open e evt
          else if use_flow then emit_props e evt
          else emit_block_collection_props e evt map_value)
         (\<lambda>e. st_then
           (if use_flow then st_then (buf_put e LBRACK) (\<lambda>e. push_ctx e EMIT_CTX_FLOW_SEQ 0)
            else push_ctx e EMIT_CTX_BLOCK_SEQ
              (if top_is e EMIT_CTX_BLOCK_MAP then top_indent e + opt_indent (em_opts e)
               else if top_is e EMIT_CTX_BLOCK_SEQ then top_indent e + opt_indent (em_opts e)
               else 0))
           (\<lambda>e. (OYL_OK, advance_parent e)))))"

text \<open>The two end events differ in the brackets.\<close>

definition emit_collection_end ::
    "oyl_emitter \<Rightarrow> emit_ctx_type \<Rightarrow> byte \<Rightarrow> byte list \<Rightarrow> oyl_status \<times> oyl_emitter" where
  "emit_collection_end e flow_type closer brackets =
    (case top_ctx e of
       None \<Rightarrow> (OYL_ERR_EMIT, e)
     | Some ctx \<Rightarrow>
        st_then
          (if ctx_type ctx = flow_type then buf_put e closer
           else if ctx_count ctx = 0 then
             st_then (if em_buf e \<noteq> [] \<and> last (em_buf e) \<noteq> SP \<and> last (em_buf e) \<noteq> LF
                      then buf_put e SP else (OYL_OK, e))
               (\<lambda>e. buf_puts e brackets)
           else (OYL_OK, e))
          (\<lambda>e. (OYL_OK, (pop_ctx e)\<lparr>em_after_seq_dash := False\<rparr>)))"

definition emit_document_start :: "oyl_emitter \<Rightarrow> oyl_event \<Rightarrow> oyl_status \<times> oyl_emitter" where
  "emit_document_start e evt =
    st_then
      (if \<not> evt_implicit evt
       then st_then (if \<not> em_first_doc e then fresh_line e else (OYL_OK, e)) (\<lambda>e. buf_puts e [DASH, DASH, DASH])
       else (OYL_OK, e))
      (\<lambda>e. (OYL_OK, e\<lparr>em_doc_open := True, em_first_doc := False\<rparr>))"

definition emit_document_end :: "oyl_emitter \<Rightarrow> oyl_event \<Rightarrow> oyl_status \<times> oyl_emitter" where
  "emit_document_end e evt =
    st_then
      (if \<not> evt_implicit evt then st_then (fresh_line e) (\<lambda>e. buf_puts e [DOT, DOT, DOT, LF]) else (OYL_OK, e))
      (\<lambda>e. (OYL_OK, e\<lparr>em_doc_open := False\<rparr>))"

definition emit_scalar_event :: "oyl_emitter \<Rightarrow> oyl_event \<Rightarrow> oyl_status \<times> oyl_emitter" where
  "emit_scalar_event e evt =
    st_then (emit_pre_node e False)
      (\<lambda>e. st_then (emit_props e evt)
        (\<lambda>e. st_then (emit_scalar e evt) (\<lambda>e. (OYL_OK, advance_ctx e))))"

definition emit_alias_event :: "oyl_emitter \<Rightarrow> oyl_event \<Rightarrow> oyl_status \<times> oyl_emitter" where
  "emit_alias_event e evt =
    st_then (emit_pre_node e False)
      (\<lambda>e. st_then
        (buf_put (e\<lparr>em_key_was_alias :=
           (case top_ctx e of None \<Rightarrow> False | Some c \<Rightarrow> is_map_ctx c \<and> ctx_expect_key c)\<rparr>) STAR)
        (\<lambda>e. st_then (buf_puts e (str_bytes (evt_value evt))) (\<lambda>e. (OYL_OK, advance_ctx e))))"

definition oyl_emit :: "oyl_emitter \<Rightarrow> oyl_event \<Rightarrow> oyl_status \<times> oyl_emitter" where
  "oyl_emit e evt =
    (case evt_type evt of
       OYL_EVT_STREAM_START \<Rightarrow> (OYL_OK, e\<lparr>em_first_doc := True\<rparr>)
     | OYL_EVT_STREAM_END \<Rightarrow> fresh_line e
     | OYL_EVT_DOC_START \<Rightarrow> emit_document_start e evt
     | OYL_EVT_DOC_END \<Rightarrow> emit_document_end e evt
     | OYL_EVT_MAPPING_START \<Rightarrow> emit_mapping_start e evt
     | OYL_EVT_MAPPING_END \<Rightarrow> emit_collection_end e EMIT_CTX_FLOW_MAP RBRACE [LBRACE, RBRACE]
     | OYL_EVT_SEQUENCE_START \<Rightarrow> emit_sequence_start e evt
     | OYL_EVT_SEQUENCE_END \<Rightarrow> emit_collection_end e EMIT_CTX_FLOW_SEQ RBRACK [LBRACK, RBRACK]
     | OYL_EVT_SCALAR \<Rightarrow> emit_scalar_event e evt
     | OYL_EVT_ALIAS \<Rightarrow> emit_alias_event e evt
     | OYL_EVT_NONE \<Rightarrow> (OYL_ERR_EMIT, e))"

section \<open>Creation, options and output\<close>

definition oyl_emitter_new :: "mem \<Rightarrow> oyl_emitter option" where
  "oyl_emitter_new m =
    (let (ok1, m) = mem_take m
     in if \<not> ok1 then None
        else let (ok2, m) = mem_take m
        in if \<not> ok2 then None
           else let (ok3, m) = mem_take m
           in if \<not> ok3 then None
              else Some
                \<lparr>em_opts = \<lparr>opt_style = OYL_EMIT_BLOCK, opt_indent = 2\<rparr>, em_buf = [],
                 em_cap = EMIT_INIT_CAP, em_column = 0, em_stack = [], em_stack_cap = 8,
                 em_doc_open = False, em_first_doc = True, em_wrote_block_key = False,
                 em_after_seq_dash = False, em_key_was_alias = False, em_wrote_props = False,
                 em_mem = m\<rparr>)"

text \<open>The style argument of the model has only the three values the code accepts.\<close>

definition oyl_emitter_set_style :: "oyl_emitter \<Rightarrow> oyl_emit_style \<Rightarrow> oyl_emitter" where
  "oyl_emitter_set_style e style = e\<lparr>em_opts := (em_opts e)\<lparr>opt_style := style\<rparr>\<rparr>"

definition oyl_emitter_set_indent :: "oyl_emitter \<Rightarrow> int \<Rightarrow> oyl_emitter" where
  "oyl_emitter_set_indent e indent =
    (let indent = (if indent < 1 then 1 else indent);
         indent = (if indent > 10 then 10 else indent)
     in e\<lparr>em_opts := (em_opts e)\<lparr>opt_indent := indent\<rparr>\<rparr>)"

text \<open>The copy in the arena is one allocation.\<close>

definition oyl_emitter_output :: "oyl_emitter option \<Rightarrow> mem \<Rightarrow> oyl_str" where
  "oyl_emitter_output e m =
    (case e of
       None \<Rightarrow> None
     | Some e \<Rightarrow> if em_buf e = [] then None
                 else if fst (mem_take m) then Some (em_buf e) else None)"

section \<open>One function per event\<close>

definition oyl_emit_stream_start :: "oyl_emitter \<Rightarrow> oyl_status \<times> oyl_emitter" where
  "oyl_emit_stream_start e = oyl_emit e (plain_event OYL_EVT_STREAM_START)"
definition oyl_emit_stream_end :: "oyl_emitter \<Rightarrow> oyl_status \<times> oyl_emitter" where
  "oyl_emit_stream_end e = oyl_emit e (plain_event OYL_EVT_STREAM_END)"
definition oyl_emit_document_start :: "oyl_emitter \<Rightarrow> bool \<Rightarrow> oyl_status \<times> oyl_emitter" where
  "oyl_emit_document_start e implicit =
    oyl_emit e ((plain_event OYL_EVT_DOC_START)\<lparr>evt_implicit := implicit\<rparr>)"
definition oyl_emit_document_end :: "oyl_emitter \<Rightarrow> bool \<Rightarrow> oyl_status \<times> oyl_emitter" where
  "oyl_emit_document_end e implicit =
    oyl_emit e ((plain_event OYL_EVT_DOC_END)\<lparr>evt_implicit := implicit\<rparr>)"
definition oyl_emit_scalar ::
    "oyl_emitter \<Rightarrow> oyl_str \<Rightarrow> oyl_scalar_style \<Rightarrow> oyl_str \<Rightarrow> oyl_str \<Rightarrow> oyl_status \<times> oyl_emitter" where
  "oyl_emit_scalar e value style anchor tag =
    oyl_emit e ((plain_event OYL_EVT_SCALAR)
      \<lparr>evt_value := value, evt_scalar_style := style, evt_anchor := anchor, evt_tag := tag\<rparr>)"
definition oyl_emit_alias :: "oyl_emitter \<Rightarrow> oyl_str \<Rightarrow> oyl_status \<times> oyl_emitter" where
  "oyl_emit_alias e name = oyl_emit e ((plain_event OYL_EVT_ALIAS)\<lparr>evt_value := name\<rparr>)"
definition oyl_emit_mapping_start ::
    "oyl_emitter \<Rightarrow> oyl_str \<Rightarrow> oyl_str \<Rightarrow> bool \<Rightarrow> oyl_status \<times> oyl_emitter" where
  "oyl_emit_mapping_start e anchor tag flow =
    oyl_emit e ((plain_event OYL_EVT_MAPPING_START)\<lparr>evt_anchor := anchor, evt_tag := tag, evt_flow := flow\<rparr>)"
definition oyl_emit_mapping_end :: "oyl_emitter \<Rightarrow> oyl_status \<times> oyl_emitter" where
  "oyl_emit_mapping_end e = oyl_emit e (plain_event OYL_EVT_MAPPING_END)"
definition oyl_emit_sequence_start ::
    "oyl_emitter \<Rightarrow> oyl_str \<Rightarrow> oyl_str \<Rightarrow> bool \<Rightarrow> oyl_status \<times> oyl_emitter" where
  "oyl_emit_sequence_start e anchor tag flow =
    oyl_emit e ((plain_event OYL_EVT_SEQUENCE_START)\<lparr>evt_anchor := anchor, evt_tag := tag, evt_flow := flow\<rparr>)"
definition oyl_emit_sequence_end :: "oyl_emitter \<Rightarrow> oyl_status \<times> oyl_emitter" where
  "oyl_emit_sequence_end e = oyl_emit e (plain_event OYL_EVT_SEQUENCE_END)"

text \<open>A sequence of events, until one fails.\<close>

fun emit_all :: "oyl_event list \<Rightarrow> emit_op" where
  "emit_all [] e = (OYL_OK, e)"
| "emit_all (ev # evs) e = st_then (oyl_emit e ev) (emit_all evs)"

end
