(* ===== verification/OylEmitOps.thy ===== *)
theory OylEmitOps
  imports OylEmitter
begin

text \<open>
  How the operations of the emitter change its state: what they append when no allocation fails,
  as a text per operation.
\<close>

section \<open>No allocation fails\<close>

definition no_fail :: "oyl_emitter \<Rightarrow> bool" where
  "no_fail e \<longleftrightarrow> list_all id (em_mem e)"

text \<open>The emitter after \<open>s\<close> has been written.\<close>

definition app :: "oyl_emitter \<Rightarrow> byte list \<Rightarrow> oyl_emitter" where
  "app e s = snd (buf_puts e s)"

lemma mem_take_ok: "list_all id m \<Longrightarrow> mem_take m = (True, tl m) \<and> list_all id (tl m)"
  by (cases m) auto

lemma st_then_ok [simp]: "st_then (OYL_OK, e) k = k e"
  by (simp add: st_then_def)

lemma app_fields [simp]:
  "em_opts (app e s) = em_opts e" "em_stack (app e s) = em_stack e" "em_stack_cap (app e s) = em_stack_cap e"
  "em_doc_open (app e s) = em_doc_open e" "em_first_doc (app e s) = em_first_doc e"
  "em_wrote_block_key (app e s) = em_wrote_block_key e" "em_after_seq_dash (app e s) = em_after_seq_dash e"
  "em_key_was_alias (app e s) = em_key_was_alias e" "em_wrote_props (app e s) = em_wrote_props e"
  by (simp_all add: app_def buf_puts_def buf_ensure_def st_then_def Let_def split: prod.splits)

lemma app_ok:
  assumes "no_fail e"
  shows "em_buf (app e s) = em_buf e @ s" and "no_fail (app e s)" and "buf_puts e s = (OYL_OK, app e s)"
  using assms mem_take_ok [of "em_mem e"]
  by (auto simp: app_def buf_puts_def buf_ensure_def no_fail_def st_then_def Let_def)

lemmas app_ok_simps [simp] = app_ok(1,2)

lemma buf_put_puts: "buf_put e c = buf_puts e [c]"
  by (cases "c = LF") (simp_all add: buf_put_def buf_puts_def)

lemma no_fail_update [simp]:
  "no_fail (e\<lparr>em_stack := st\<rparr>) = no_fail e" "no_fail (e\<lparr>em_after_seq_dash := b\<rparr>) = no_fail e"
  "no_fail (e\<lparr>em_key_was_alias := b\<rparr>) = no_fail e" "no_fail (e\<lparr>em_wrote_block_key := b\<rparr>) = no_fail e"
  "no_fail (e\<lparr>em_wrote_props := b\<rparr>) = no_fail e" "no_fail (e\<lparr>em_buf := xs\<rparr>) = no_fail e"
  "no_fail (e\<lparr>em_doc_open := b\<rparr>) = no_fail e" "no_fail (e\<lparr>em_first_doc := b\<rparr>) = no_fail e"
  by (simp_all add: no_fail_def)

text \<open>What each operation writes.\<close>

lemma buf_puts_ok [emit_simps]: "no_fail e \<Longrightarrow> buf_puts e s = (OYL_OK, app e s)"
  by (rule app_ok(3))

lemma buf_put_ok [emit_simps]: "no_fail e \<Longrightarrow> buf_put e c = (OYL_OK, app e [c])"
  by (simp add: buf_put_puts buf_puts_ok)

definition spaces :: "int \<Rightarrow> byte list" where
  "spaces n = replicate (nat n) SP"

text \<open>Indenting by nothing does not touch the buffer.\<close>

definition ind :: "oyl_emitter \<Rightarrow> int \<Rightarrow> oyl_emitter" where
  "ind e n = (if n \<le> 0 then e else app e (spaces n))"

lemma ind_fields [simp]:
  "em_opts (ind e n) = em_opts e" "em_stack (ind e n) = em_stack e" "em_stack_cap (ind e n) = em_stack_cap e"
  "em_doc_open (ind e n) = em_doc_open e" "em_first_doc (ind e n) = em_first_doc e"
  "em_wrote_block_key (ind e n) = em_wrote_block_key e" "em_after_seq_dash (ind e n) = em_after_seq_dash e"
  "em_key_was_alias (ind e n) = em_key_was_alias e" "em_wrote_props (ind e n) = em_wrote_props e"
  by (simp_all add: ind_def)

lemma ind_ok [simp]: "no_fail e \<Longrightarrow> no_fail (ind e n)" "no_fail e \<Longrightarrow> em_buf (ind e n) = em_buf e @ spaces n"
  by (simp_all add: ind_def spaces_def)

lemma LF_not_spaces: "LF \<notin> set (spaces n)"
  by (simp add: spaces_def)

lemma buf_indent_ok [emit_simps]: "no_fail e \<Longrightarrow> buf_indent e n = (OYL_OK, ind e n)"
proof -
  assume "no_fail e"
  have "buf_indent e n = (if n \<le> 0 then (OYL_OK, e) else buf_puts e (spaces n))"
    using LF_not_spaces [of n] by (simp add: buf_indent_def buf_puts_def spaces_def)
  with \<open>no_fail e\<close> show ?thesis by (simp add: ind_def buf_puts_ok)
qed

text \<open>\<open>fresh\<close>: a line break, unless the text is empty or ends with one.\<close>

definition fresh :: "byte list \<Rightarrow> byte list" where
  "fresh out = (if out \<noteq> [] \<and> last out \<noteq> LF then out @ [LF] else out)"

definition fresh_em :: "oyl_emitter \<Rightarrow> oyl_emitter" where
  "fresh_em e = (if em_buf e \<noteq> [] \<and> last (em_buf e) \<noteq> LF then app e [LF] else e)"

lemma fresh_em_fields [simp]:
  "em_opts (fresh_em e) = em_opts e" "em_stack (fresh_em e) = em_stack e"
  "em_doc_open (fresh_em e) = em_doc_open e" "em_first_doc (fresh_em e) = em_first_doc e"
  "em_wrote_block_key (fresh_em e) = em_wrote_block_key e" "em_after_seq_dash (fresh_em e) = em_after_seq_dash e"
  "em_key_was_alias (fresh_em e) = em_key_was_alias e" "em_wrote_props (fresh_em e) = em_wrote_props e"
  by (simp_all add: fresh_em_def)

lemma fresh_em_ok [simp]:
  "no_fail e \<Longrightarrow> no_fail (fresh_em e)" "no_fail e \<Longrightarrow> em_buf (fresh_em e) = fresh (em_buf e)"
  by (simp_all add: fresh_em_def fresh_def)

lemma fresh_line_ok [emit_simps]: "no_fail e \<Longrightarrow> fresh_line e = (OYL_OK, fresh_em e)"
  by (simp add: fresh_line_def fresh_em_def buf_put_ok)

text \<open>\<open>undo_space\<close>: one space less at the end.\<close>

definition undo_space :: "byte list \<Rightarrow> byte list" where
  "undo_space out = (if out \<noteq> [] \<and> last out = SP then butlast out else out)"

lemma drop_space_fields [simp]:
  "em_opts (drop_space e) = em_opts e" "em_stack (drop_space e) = em_stack e"
  "em_doc_open (drop_space e) = em_doc_open e" "em_first_doc (drop_space e) = em_first_doc e"
  "em_wrote_block_key (drop_space e) = em_wrote_block_key e"
  "em_after_seq_dash (drop_space e) = em_after_seq_dash e" "em_key_was_alias (drop_space e) = em_key_was_alias e"
  "em_wrote_props (drop_space e) = em_wrote_props e" "no_fail (drop_space e) = no_fail e"
  "em_buf (drop_space e) = undo_space (em_buf e)"
  by (simp_all add: drop_space_def buf_ends_def undo_space_def)

section \<open>Scalars and properties, as texts\<close>

text \<open>\<open>writes e r s\<close>: without failures, the operation appended \<open>s\<close> and changed nothing else.\<close>

definition same_state :: "oyl_emitter \<Rightarrow> oyl_emitter \<Rightarrow> bool" where
  "same_state e e' \<longleftrightarrow> em_opts e' = em_opts e \<and> em_stack e' = em_stack e \<and> em_doc_open e' = em_doc_open e \<and>
     em_first_doc e' = em_first_doc e \<and> em_wrote_block_key e' = em_wrote_block_key e \<and>
     em_after_seq_dash e' = em_after_seq_dash e \<and> em_key_was_alias e' = em_key_was_alias e \<and>
     em_wrote_props e' = em_wrote_props e"

definition writes :: "oyl_emitter \<Rightarrow> oyl_status \<times> oyl_emitter \<Rightarrow> byte list \<Rightarrow> bool" where
  "writes e r s \<longleftrightarrow> (no_fail e \<longrightarrow> fst r = OYL_OK \<and> no_fail (snd r) \<and> em_buf (snd r) = em_buf e @ s \<and>
     same_state e (snd r))"

lemma same_state_refl [simp]: "same_state e e"
  by (simp add: same_state_def)

lemma same_state_trans: "same_state e f \<Longrightarrow> same_state f g \<Longrightarrow> same_state e g"
  by (simp add: same_state_def)

lemma writes_nothing [intro]: "writes e (OYL_OK, e) []"
  by (simp add: writes_def)

lemma writes_puts [intro]: "writes e (buf_puts e s) s" "writes e (buf_put e c) [c]"
  by (simp_all add: writes_def buf_puts_ok buf_put_ok same_state_def)

lemma writes_indent: "writes e (buf_indent e n) (spaces n)"
  by (simp add: writes_def buf_indent_ok same_state_def)

lemma writes_then:
  assumes "writes e r s" and "\<And>f. writes f (k f) t"
  shows "writes e (st_then r k) (s @ t)"
  using assms(1) assms(2) [of "snd r"] same_state_trans [of e "snd r"]
  by (auto simp: writes_def st_then_def)

lemma writes_if:
  "(b \<Longrightarrow> writes e r s) \<Longrightarrow> (\<not> b \<Longrightarrow> writes e q t) \<Longrightarrow> writes e (if b then r else q) (if b then s else t)"
  by simp

lemma writes_each:
  assumes "\<And>f c. writes f (op f c) (text c)"
  shows "writes e (emit_each op cs e) (concat (map text cs))"
proof (induction cs arbitrary: e)
  case (Cons c cs)
  then show ?case using assms by (auto intro: writes_then)
qed auto

definition sq_text :: "byte \<Rightarrow> byte list" where
  "sq_text c = (if c = SQUOTE then [SQUOTE, SQUOTE] else [c])"

definition single_quoted_text :: "byte list \<Rightarrow> byte list" where
  "single_quoted_text s = SQUOTE # concat (map sq_text s) @ [SQUOTE]"

lemma writes_single_quoted: "writes e (emit_single_quoted e s) (single_quoted_text s)"
proof -
  have "writes f (sq_byte f c) (sq_text c)" for f c
    by (simp add: sq_byte_def sq_text_def writes_puts)
  then have "writes f (st_then (emit_each sq_byte s f) (\<lambda>e. buf_put e SQUOTE)) (concat (map sq_text s) @ [SQUOTE])" for f
    using writes_each by (blast intro: writes_then)
  then show ?thesis
    using writes_then [OF writes_puts(2)] by (fastforce simp: emit_single_quoted_def single_quoted_text_def)
qed

definition dq_text :: "byte \<Rightarrow> byte list" where
  "dq_text c =
    (if c = BSLASH then [BSLASH, BSLASH] else if c = DQUOTE then [BSLASH, DQUOTE]
     else if c = LF then [BSLASH, LC_N] else if c = CR then [BSLASH, LC_R] else if c = TAB then [BSLASH, LC_T]
     else if c = NUL then [BSLASH, DIGIT_0] else if c = BEL then [BSLASH, LC_A] else if c = BS then [BSLASH, LC_B]
     else if c < 0x20 \<or> c = DEL then BSLASH # LC_X # hex_02X c else [c])"

definition double_quoted_text :: "byte list \<Rightarrow> byte list" where
  "double_quoted_text s = DQUOTE # concat (map dq_text s) @ [DQUOTE]"

lemma writes_double_quoted: "writes e (emit_double_quoted e s) (double_quoted_text s)"
proof -
  have "writes f (dq_byte f c) (dq_text c)" for f c
    by (simp add: dq_byte_def dq_text_def writes_puts)
  then have "writes f (st_then (emit_each dq_byte s f) (\<lambda>e. buf_put e DQUOTE)) (concat (map dq_text s) @ [DQUOTE])" for f
    using writes_each by (blast intro: writes_then)
  then show ?thesis
    using writes_then [OF writes_puts(2)] by (fastforce simp: emit_double_quoted_def double_quoted_text_def)
qed

text \<open>The lines of a literal block scalar.\<close>

function literal_body :: "int \<Rightarrow> byte list \<Rightarrow> byte list" where
  "literal_body indent body =
    (if body = [] then []
     else let line = takeWhile (\<lambda>c. c \<noteq> LF) body
          in (if line \<noteq> [] then spaces indent @ line else []) @ LF #
             literal_body indent (drop (length line + 1) body))"
  by pat_completeness auto
termination
  by (relation "measure (\<lambda>(indent, body). length body)") auto

declare literal_body.simps [simp del]

definition literal_text :: "int \<Rightarrow> byte list \<Rightarrow> byte list" where
  "literal_text indent s =
    (let trail = trailing_breaks s; body = length s - trail
     in literal_header body trail @ literal_body indent (take body s) @
        replicate (if body \<noteq> 0 then trail - 1 else trail) LF)"

lemma writes_literal_lines: "writes e (literal_lines indent body e) (literal_body indent body)"
proof (induction indent body arbitrary: e rule: literal_body.induct)
  case (1 indent body)
  show ?case
  proof (cases "body = []")
    case True
    then show ?thesis by (simp add: literal_lines.simps literal_body.simps writes_nothing)
  next
    case False
    let ?line = "takeWhile (\<lambda>c. c \<noteq> LF) body"
    have line: "writes f (if ?line \<noteq> [] then st_then (buf_indent f indent) (\<lambda>e. buf_puts e ?line) else (OYL_OK, f))
        (if ?line \<noteq> [] then spaces indent @ ?line else [])" for f
      using writes_then [OF writes_indent writes_puts(1)] by auto
    have "writes f (st_then (buf_put f LF) (literal_lines indent (drop (length ?line + 1) body)))
        ([LF] @ literal_body indent (drop (length ?line + 1) body))" for f
      using writes_then [OF writes_puts(2) "1.IH" [OF False refl]] .
    from writes_then [OF line this] False show ?thesis
      by (simp add: literal_lines.simps [of indent body] literal_body.simps [of indent body] Let_def)
  qed
qed

lemma concat_singles: "concat (map (\<lambda>c. [c]) cs) = cs"
  by (induction cs) auto

lemma writes_literal: "writes e (emit_block_scalar e s indent) (literal_text indent s)"
proof -
  have breaks: "writes f (emit_each buf_put cs f) cs" for f cs
    using writes_each [of buf_put "\<lambda>c. [c]" f cs] writes_puts(2) by (simp add: concat_singles)
  show ?thesis
    unfolding emit_block_scalar_def literal_text_def Let_def
    by (intro writes_then writes_puts writes_literal_lines breaks)
qed

definition anchor_text :: "oyl_str \<Rightarrow> byte list" where
  "anchor_text a = (if str_bytes a = [] then [] else AMP # str_bytes a @ [SP])"

definition verbatim_text :: "byte \<Rightarrow> byte list" where
  "verbatim_text c = (if is_uri_char c then [c] else PERCENT # hex_02X c)"

definition tag_handle :: "byte list \<Rightarrow> byte list" where
  "tag_handle s =
    (let plen = length yaml_prefix
     in if plen < length s \<and> take plen s = yaml_prefix \<and> all_tag_chars (drop plen s)
        then [BANG, BANG] @ drop plen s
        else if hd s = BANG \<and> all_tag_chars (tl s) then s
        else [BANG, LT] @ concat (map verbatim_text s) @ [GT])"

definition tag_text :: "oyl_str \<Rightarrow> byte list" where
  "tag_text t = (if str_bytes t = [] then [] else tag_handle (str_bytes t) @ [SP])"

lemma writes_anchor: "writes e (emit_anchor e a) (anchor_text a)"
  using writes_then [OF writes_puts(2) writes_then [OF writes_puts(1) writes_puts(2)]]
  by (auto simp: emit_anchor_def anchor_text_def Let_def)

lemma writes_tag: "writes e (emit_tag e t) (tag_text t)"
proof -
  let ?s = "str_bytes t"
  have "writes f (verbatim_byte f c) (verbatim_text c)" for f c
    by (simp add: verbatim_byte_def verbatim_text_def writes_puts)
  then have v: "writes f (emit_each verbatim_byte ?s f) (concat (map verbatim_text ?s))" for f
    by (rule writes_each)
  show ?thesis
  proof (cases "?s = []")
    case False
    have "writes e (emit_tag e t) (tag_handle ?s @ [SP])"
      using False unfolding emit_tag_def tag_handle_def Let_def
      by (simp only: if_False) (intro writes_then writes_if writes_puts v)
    with False show ?thesis by (simp add: tag_text_def)
  qed (simp add: emit_tag_def tag_text_def writes_nothing)
qed

definition props_text :: "oyl_event \<Rightarrow> byte list" where
  "props_text evt = anchor_text (evt_anchor evt) @ tag_text (evt_tag evt)"

lemma writes_props:
  "writes (e\<lparr>em_wrote_props := has_props evt\<rparr>) (emit_props e evt) (props_text evt)"
  unfolding emit_props_def props_text_def by (intro writes_then writes_anchor writes_tag)

lemma props_text_none: "\<not> has_props evt \<Longrightarrow> props_text evt = []"
  by (simp add: has_props_def props_text_def anchor_text_def tag_text_def)

lemma props_text_last: "has_props evt \<Longrightarrow> props_text evt \<noteq> [] \<and> last (props_text evt) = SP"
  by (auto simp: has_props_def props_text_def anchor_text_def tag_text_def)

end
