(* ===== verification/OylPrinter.thy ===== *)
theory OylPrinter
  imports OylEmitOps
begin

text \<open>
  What the emitter's output is, without its event stack: a recursive pretty-printer over the tree
  of a node. \<open>place\<close> says where a node stands; \<open>render\<close> takes the text so far and returns it with
  the node added. The theorem of this theory is that the events of a node, fed to the emitter one
  by one, give the text of \<open>render\<close>.
\<close>

section \<open>The printer\<close>

text \<open>
  The root of a document; an item of a block sequence; a key of a block mapping (on the line of a
  dash or not); its value (after a key in the explicit form or not, an alias or not); and the three
  places of the flow collections, where the flag says whether an entry precedes (for a value:
  whether the key is an alias).
\<close>

datatype place =
    AtRoot
  | AtItem int
  | AtKey int bool
  | AtValue int bool bool
  | InSeq bool
  | InKey bool
  | InValue bool

fun in_flow :: "place \<Rightarrow> bool" where
  "in_flow (InSeq b) = True"
| "in_flow (InKey b) = True"
| "in_flow (InValue b) = True"
| "in_flow p = False"

fun is_key_place :: "place \<Rightarrow> bool" where
  "is_key_place (AtKey i b) = True"
| "is_key_place (InKey b) = True"
| "is_key_place p = False"

fun place_indent :: "place \<Rightarrow> int" where
  "place_indent (AtItem i) = i"
| "place_indent (AtKey i b) = i"
| "place_indent (AtValue i b c) = i"
| "place_indent p = 0"

definition sep_text :: "oyl_emit_style \<Rightarrow> byte list" where
  "sep_text st = (if st = OYL_EMIT_MINIMAL then [COMMA] else [COMMA, SP])"

text \<open>What stands before a node.\<close>

fun lead :: "oyl_emit_style \<Rightarrow> place \<Rightarrow> bool \<Rightarrow> byte list \<Rightarrow> byte list" where
  "lead st AtRoot coll out = fresh out"
| "lead st (AtItem i) coll out = fresh out @ spaces i @ [DASH, SP]"
| "lead st (AtKey i dash) coll out = (if dash \<or> out = [] then out else fresh out @ spaces i)"
| "lead st (AtValue i cx al) coll out =
    (if cx then fresh out @ spaces i else out) @ (if al then [SP] else []) @ (if coll then [COLON] else [COLON, SP])"
| "lead st (InSeq seen) coll out = out @ (if seen then sep_text st else [])"
| "lead st (InKey seen) coll out = out @ (if seen then sep_text st else [])"
| "lead st (InValue al) coll out = out @ (if al then [SP] else []) @ [COLON, SP]"

definition use_flow :: "oyl_emit_style \<Rightarrow> place \<Rightarrow> oyl_event \<Rightarrow> bool" where
  "use_flow st p e \<longleftrightarrow> st \<noteq> OYL_EMIT_BLOCK \<or> evt_flow e \<or> in_flow p"

definition is_alias :: "oyl_node \<Rightarrow> bool" where
  "is_alias n = (case n of NAlias e \<Rightarrow> True | _ \<Rightarrow> False)"

definition block_coll :: "oyl_emit_style \<Rightarrow> place \<Rightarrow> oyl_node \<Rightarrow> bool" where
  "block_coll st p n = (case n of NSeq e ns e' \<Rightarrow> \<not> use_flow st p e | NMap e kvs e' \<Rightarrow> \<not> use_flow st p e | _ \<Rightarrow> False)"

text \<open>The text of a scalar in the style \<open>choose_style\<close> picks.\<close>

definition scalar_at :: "oyl_emit_style \<Rightarrow> int \<Rightarrow> place \<Rightarrow> byte list \<Rightarrow> oyl_event \<Rightarrow> byte list" where
  "scalar_at st ofs p out e =
    (let val = str_bytes (evt_value e); out = lead st p False out @ props_text e
     in case choose_style (evt_scalar_style e) val (in_flow p \<or> st \<noteq> OYL_EMIT_BLOCK) (is_key_place p) (evt_tag e) of
          OYL_SCALAR_PLAIN \<Rightarrow>
            (if val \<noteq> [] then out @ val
             else if has_props e \<or> is_key_place p then out
             else case p of InSeq b \<Rightarrow> out @ [TILDE] | _ \<Rightarrow> undo_space out)
        | OYL_SCALAR_SINGLE_QUOTED \<Rightarrow> out @ single_quoted_text val
        | OYL_SCALAR_DOUBLE_QUOTED \<Rightarrow> out @ double_quoted_text val
        | _ \<Rightarrow> out @ literal_text (place_indent p + ofs) val)"

text \<open>The line that introduces a block collection.\<close>

definition block_open :: "oyl_emit_style \<Rightarrow> place \<Rightarrow> byte list \<Rightarrow> oyl_event \<Rightarrow> byte list" where
  "block_open st p out e =
    lead st p True out @
    (case p of AtKey i b \<Rightarrow> [QMARK] | _ \<Rightarrow> []) @
    (if has_props e
     then (case p of AtKey i b \<Rightarrow> [SP] | AtValue i b c \<Rightarrow> [SP] | _ \<Rightarrow> []) @ butlast (props_text e) else [])"

fun seq_indent :: "int \<Rightarrow> place \<Rightarrow> int" where
  "seq_indent ofs AtRoot = 0"
| "seq_indent ofs p = place_indent p + ofs"

fun map_indent :: "int \<Rightarrow> place \<Rightarrow> int" where
  "map_indent ofs AtRoot = 0"
| "map_indent ofs (AtItem i) = i + 2"
| "map_indent ofs p = place_indent p + ofs"

text \<open>The first key of a mapping without properties shares the line of the dash.\<close>

definition shares_dash :: "place \<Rightarrow> oyl_event \<Rightarrow> bool" where
  "shares_dash p e = (case p of AtItem i \<Rightarrow> \<not> has_props e | _ \<Rightarrow> False)"

definition empty_coll :: "byte list \<Rightarrow> byte list \<Rightarrow> byte list" where
  "empty_coll out brackets = out @ (if out \<noteq> [] \<and> last out \<noteq> SP \<and> last out \<noteq> LF then [SP] else []) @ brackets"

fun next_item :: "place \<Rightarrow> place" where
  "next_item (InSeq b) = InSeq True"
| "next_item p = p"

fun next_key :: "place \<Rightarrow> place" where
  "next_key (InKey b) = InKey True"
| "next_key (AtKey i b) = AtKey i False"
| "next_key p = p"

fun value_place :: "oyl_emit_style \<Rightarrow> place \<Rightarrow> oyl_node \<Rightarrow> place" where
  "value_place st (AtKey i b) k = AtValue i (block_coll st (AtKey i b) k) (is_alias k)"
| "value_place st p k = InValue (is_alias k)"

function render :: "oyl_emit_style \<Rightarrow> int \<Rightarrow> place \<Rightarrow> byte list \<Rightarrow> oyl_node \<Rightarrow> byte list"
and render_items :: "oyl_emit_style \<Rightarrow> int \<Rightarrow> place \<Rightarrow> byte list \<Rightarrow> oyl_node list \<Rightarrow> byte list"
and render_pairs :: "oyl_emit_style \<Rightarrow> int \<Rightarrow> place \<Rightarrow> byte list \<Rightarrow> (oyl_node \<times> oyl_node) list \<Rightarrow> byte list"
where
  "render st ofs p out (NScalar e) = scalar_at st ofs p out e"
| "render st ofs p out (NAlias e) = lead st p False out @ STAR # str_bytes (evt_value e)"
| "render st ofs p out (NSeq e ns e') =
    (if use_flow st p e
     then render_items st ofs (InSeq False) (lead st p False out @ props_text e @ [LBRACK]) ns @ [RBRACK]
     else if ns = [] then empty_coll (block_open st p out e) [LBRACK, RBRACK]
     else render_items st ofs (AtItem (seq_indent ofs p)) (block_open st p out e) ns)"
| "render st ofs p out (NMap e kvs e') =
    (if use_flow st p e
     then render_pairs st ofs (InKey False) (lead st p False out @ props_text e @ [LBRACE]) kvs @ [RBRACE]
     else if kvs = [] then empty_coll (block_open st p out e) [LBRACE, RBRACE]
     else render_pairs st ofs (AtKey (map_indent ofs p) (shares_dash p e)) (block_open st p out e) kvs)"
| "render_items st ofs p out [] = out"
| "render_items st ofs p out (n # ns) = render_items st ofs (next_item p) (render st ofs p out n) ns"
| "render_pairs st ofs p out [] = out"
| "render_pairs st ofs p out ((k, v) # kvs) =
    render_pairs st ofs (next_key p) (render st ofs (value_place st p k) (render st ofs p out k) v) kvs"
  by pat_completeness auto
termination
  by (relation "measure (\<lambda>x. case x of
        Inl (st, ofs, p, out, n) \<Rightarrow> size n
      | Inr (Inl (st, ofs, p, out, ns)) \<Rightarrow> size_list size ns
      | Inr (Inr (st, ofs, p, out, kvs)) \<Rightarrow> size_list (size_prod size size) kvs)") auto

section \<open>Where the emitter is\<close>

text \<open>The emitter's stack and flags are those of a node at the place.\<close>

fun placed :: "oyl_emitter \<Rightarrow> place \<Rightarrow> bool" where
  "placed e AtRoot \<longleftrightarrow> em_stack e = [] \<and> \<not> em_after_seq_dash e \<and> \<not> em_key_was_alias e"
| "placed e (AtItem i) \<longleftrightarrow> \<not> in_any_flow e \<and> \<not> em_key_was_alias e \<and>
    (\<exists>c cs. em_stack e = c # cs \<and> ctx_type c = EMIT_CTX_BLOCK_SEQ \<and> ctx_indent c = i)"
| "placed e (AtKey i dash) \<longleftrightarrow> \<not> in_any_flow e \<and> \<not> em_key_was_alias e \<and> em_after_seq_dash e = dash \<and>
    (\<exists>c cs. em_stack e = c # cs \<and> ctx_type c = EMIT_CTX_BLOCK_MAP \<and> ctx_indent c = i \<and> ctx_expect_key c \<and>
       \<not> ctx_complex_key c)"
| "placed e (AtValue i cx al) \<longleftrightarrow> \<not> in_any_flow e \<and> em_key_was_alias e = al \<and> \<not> em_after_seq_dash e \<and>
    (\<exists>c cs. em_stack e = c # cs \<and> ctx_type c = EMIT_CTX_BLOCK_MAP \<and> ctx_indent c = i \<and> \<not> ctx_expect_key c \<and>
       ctx_complex_key c = cx)"
| "placed e (InSeq seen) \<longleftrightarrow> \<not> em_key_was_alias e \<and>
    (\<exists>c cs. em_stack e = c # cs \<and> ctx_type c = EMIT_CTX_FLOW_SEQ \<and> (ctx_count c > 0) = seen \<and> ctx_indent c = 0)"
| "placed e (InKey seen) \<longleftrightarrow> \<not> em_key_was_alias e \<and>
    (\<exists>c cs. em_stack e = c # cs \<and> ctx_type c = EMIT_CTX_FLOW_MAP \<and> ctx_expect_key c \<and> (ctx_count c > 0) = seen \<and>
       ctx_indent c = 0)"
| "placed e (InValue al) \<longleftrightarrow> em_key_was_alias e = al \<and>
    (\<exists>c cs. em_stack e = c # cs \<and> ctx_type c = EMIT_CTX_FLOW_MAP \<and> \<not> ctx_expect_key c \<and> ctx_indent c = 0)"

lemma placed_flow: "placed e p \<Longrightarrow> in_any_flow e = in_flow p"
  by (cases p) (auto simp: in_any_flow_def is_flow_ctx_def)

text \<open>The context of the parent, before and after a node.\<close>

definition stepped :: "bool \<Rightarrow> emit_ctx list \<Rightarrow> emit_ctx list \<Rightarrow> bool" where
  "stepped cx old new \<longleftrightarrow>
    (case old of
       [] \<Rightarrow> new = []
     | c # cs \<Rightarrow> new \<noteq> [] \<and> tl new = cs \<and>
         ctx_type (hd new) = ctx_type c \<and> ctx_indent (hd new) = ctx_indent c \<and>
         (if is_map_ctx c
          then ctx_expect_key (hd new) = (\<not> ctx_expect_key c) \<and>
               ctx_count (hd new) = (if ctx_expect_key c then ctx_count c else Suc (ctx_count c))
          else ctx_count (hd new) = Suc (ctx_count c)) \<and>
         (ctx_type c = EMIT_CTX_BLOCK_MAP \<longrightarrow> ctx_complex_key (hd new) = (ctx_expect_key c \<and> cx)))"

text \<open>What a node at \<open>p\<close> leaves: its text, and the flags.\<close>

definition emitted :: "oyl_emit_style \<Rightarrow> int \<Rightarrow> place \<Rightarrow> oyl_node \<Rightarrow> oyl_emitter \<Rightarrow> oyl_status \<times> oyl_emitter \<Rightarrow> bool" where
  "emitted st ofs p n e r \<longleftrightarrow> fst r = OYL_OK \<and> no_fail (snd r) \<and> em_opts (snd r) = em_opts e \<and>
     em_buf (snd r) = render st ofs p (em_buf e) n \<and> stepped (block_coll st p n) (em_stack e) (em_stack (snd r)) \<and>
     \<not> em_after_seq_dash (snd r) \<and> em_key_was_alias (snd r) = (is_key_place p \<and> is_alias n)"

definition ready :: "oyl_emit_style \<Rightarrow> int \<Rightarrow> place \<Rightarrow> oyl_emitter \<Rightarrow> bool" where
  "ready st ofs p e \<longleftrightarrow> no_fail e \<and> opt_style (em_opts e) = st \<and> opt_indent (em_opts e) = ofs \<and> placed e p"

section \<open>Before a node\<close>

text \<open>The parent's context while the node is written.\<close>

definition lead_done :: "oyl_emit_style \<Rightarrow> place \<Rightarrow> bool \<Rightarrow> oyl_emitter \<Rightarrow> oyl_emitter \<Rightarrow> bool" where
  "lead_done st p coll e f \<longleftrightarrow> no_fail f \<and> em_opts f = em_opts e \<and> em_buf f = lead st p coll (em_buf e) \<and>
     em_stack f = (case p of AtValue i cx al \<Rightarrow> em_stack (set_top e (ctx_complex_key_update (\<lambda>_. False))) | _ \<Rightarrow> em_stack e) \<and>
     em_after_seq_dash f = (case p of AtItem i \<Rightarrow> True | _ \<Rightarrow> em_after_seq_dash e) \<and> \<not> em_key_was_alias f"

lemma ctx_complex_same [simp]: "\<not> ctx_complex_key c \<Longrightarrow> c\<lparr>ctx_complex_key := False\<rparr> = c"
  by (cases c) auto

lemma pre_node_ok:
  assumes "ready st ofs p e"
  shows "\<exists>f. emit_pre_node e coll = (OYL_OK, f) \<and> lead_done st p coll e f"
  using assms
  by (cases p) (auto simp: ready_def emit_pre_node_def top_ctx_def lead_done_def emit_simps pre_block_key_def
      pre_block_value_def alias_space_def set_top_def entry_sep_def sep_text_def kv_sep_def fresh_def fresh_em_def)

section \<open>Leaves\<close>

lemma no_fail_em [simp]: "no_fail (e\<lparr>em_opts := opts\<rparr>) = no_fail e"
  by (simp add: no_fail_def)

text \<open>After the lead, the properties.\<close>

lemma props_ok:
  assumes "no_fail f"
  shows "\<exists>g. emit_props f evt = (OYL_OK, g) \<and> no_fail g \<and> em_buf g = em_buf f @ props_text evt \<and>
    same_state (f\<lparr>em_wrote_props := has_props evt\<rparr>) g"
  using writes_props [where e = f and evt = evt] assms by (cases "emit_props f evt") (simp add: writes_def)

lemma emit_props_then:
  assumes "writes f r s" and "no_fail f"
  shows "\<exists>g. r = (OYL_OK, g) \<and> no_fail g \<and> em_buf g = em_buf f @ s \<and> same_state f g"
  using assms by (cases r) (simp add: writes_def)

text \<open>The parent's context moves on when a leaf is done.\<close>

definition step_ctx :: "emit_ctx \<Rightarrow> emit_ctx" where
  "step_ctx c =
    (if is_map_ctx c then
       (if ctx_expect_key c then c\<lparr>ctx_expect_key := False\<rparr>
        else c\<lparr>ctx_expect_key := True, ctx_count := Suc (ctx_count c)\<rparr>)
     else c\<lparr>ctx_count := Suc (ctx_count c)\<rparr>)"

lemma advance_ctx_Nil: "em_stack e = [] \<Longrightarrow> advance_ctx e = e"
  by (simp add: advance_ctx_def top_ctx_def)

lemma advance_ctx_Cons:
  assumes "em_stack e = c # cs"
  shows "em_stack (advance_ctx e) = step_ctx c # cs" and "\<not> em_after_seq_dash (advance_ctx e)"
  using assms by (simp_all add: advance_ctx_def top_ctx_def set_top_def step_ctx_def)

lemma advance_ctx_alias [simp]: "em_key_was_alias (advance_ctx e) = em_key_was_alias e"
  by (simp add: advance_ctx_def set_top_def Let_def split: option.splits list.splits)

lemma step_ctx_stepped:
  "(ctx_type c = EMIT_CTX_BLOCK_MAP \<Longrightarrow> ctx_complex_key c = (ctx_expect_key c \<and> cx)) \<Longrightarrow>
     stepped cx (c\<lparr>ctx_complex_key := b\<rparr> # cs) (step_ctx c # cs)"
  by (auto simp: stepped_def step_ctx_def is_map_ctx_def)

lemma ctx_complex_id: "c\<lparr>ctx_complex_key := ctx_complex_key c\<rparr> = c"
  by simp

lemma ctx_complex_twice [simp]: "c\<lparr>ctx_complex_key := a\<rparr>\<lparr>ctx_complex_key := b\<rparr> = c\<lparr>ctx_complex_key := b\<rparr>"
  by simp

lemma advance_stepped:
  assumes "placed e p" and "lead_done st p False e f" and "em_stack g = em_stack f"
    and "em_after_seq_dash g = em_after_seq_dash f"
  shows "stepped False (em_stack e) (em_stack (advance_ctx g))" and "\<not> em_after_seq_dash (advance_ctx g)"
proof -
  have *: "stepped False (em_stack e) (em_stack (advance_ctx g)) \<and> \<not> em_after_seq_dash (advance_ctx g)"
  proof (cases "em_stack e")
    case Nil
    then have "p = AtRoot" using assms(1) by (cases p) auto
    with Nil assms show ?thesis by (simp add: lead_done_def advance_ctx_Nil stepped_def)
  next
    case (Cons c cs)
    define d where "d = hd (em_stack g)"
    have "em_stack g = d # cs \<and> c = d\<lparr>ctx_complex_key := ctx_complex_key c\<rparr> \<and>
        (ctx_type d = EMIT_CTX_BLOCK_MAP \<longrightarrow> \<not> ctx_complex_key d)"
      using assms(1-3) Cons by (cases p) (auto simp: lead_done_def set_top_def d_def)
    then have d: "em_stack g = d # cs" "c = d\<lparr>ctx_complex_key := ctx_complex_key c\<rparr>"
      "ctx_type d = EMIT_CTX_BLOCK_MAP \<Longrightarrow> \<not> ctx_complex_key d" by blast+
    have "stepped False (d\<lparr>ctx_complex_key := ctx_complex_key c\<rparr> # cs) (step_ctx d # cs)"
      using d(3) by (intro step_ctx_stepped) simp
    with advance_ctx_Cons [OF d(1)] Cons d(2) show ?thesis by simp
  qed
  then show "stepped False (em_stack e) (em_stack (advance_ctx g))" "\<not> em_after_seq_dash (advance_ctx g)" by simp_all
qed

lemma advance_ctx_fields [simp]:
  "em_buf (advance_ctx e) = em_buf e" "em_opts (advance_ctx e) = em_opts e" "no_fail (advance_ctx e) = no_fail e"
  by (auto simp: advance_ctx_def set_top_def Let_def split: option.splits list.splits)

lemma scalar_emitted:
  assumes "ready st ofs p e" and "evt_type evt = OYL_EVT_SCALAR"
  shows "emitted st ofs p (NScalar evt) e (oyl_emit e evt)"
proof -
  obtain f where f: "emit_pre_node e False = (OYL_OK, f)" and lead: "lead_done st p False e f"
    using pre_node_ok [OF assms(1)] by blast
  have nf: "no_fail f" and buf: "em_buf f = lead st p False (em_buf e)"
    using lead by (simp_all add: lead_done_def)
  obtain g where g: "emit_props f evt = (OYL_OK, g)" "no_fail g" "em_buf g = em_buf f @ props_text evt"
    and same: "same_state (f\<lparr>em_wrote_props := has_props evt\<rparr>) g"
    using props_ok [OF nf] by blast
  have pl: "placed e p" and opts: "opt_style (em_opts e) = st" "opt_indent (em_opts e) = ofs"
    using assms(1) by (simp_all add: ready_def)
  have wp: "em_wrote_props g = has_props evt" and gopts: "em_opts g = em_opts e"
    using same lead by (simp_all add: same_state_def lead_done_def)
  have stack: "em_stack g = em_stack f" using same by (simp add: same_state_def)
  have flow: "in_any_flow g = in_flow p"
    using lead pl placed_flow [OF pl] stack
    by (cases p) (auto simp: lead_done_def in_any_flow_def set_top_def is_flow_ctx_def)
  have key: "(case top_ctx g of None \<Rightarrow> False | Some c \<Rightarrow> is_map_ctx c \<and> ctx_expect_key c) = is_key_place p"
    and fseq: "(case top_ctx g of None \<Rightarrow> False | Some c \<Rightarrow> ctx_type c = EMIT_CTX_FLOW_SEQ) =
      (case p of InSeq b \<Rightarrow> True | _ \<Rightarrow> False)"
    and indent: "(case top_ctx g of None \<Rightarrow> opt_indent (em_opts g) | Some c \<Rightarrow> ctx_indent c + opt_indent (em_opts g)) =
      place_indent p + ofs"
    using lead pl stack gopts opts
    by (cases p; auto simp: lead_done_def top_ctx_def set_top_def is_map_ctx_def)+
  have "\<exists>h. emit_scalar g evt = (OYL_OK, h) \<and> no_fail h \<and> em_buf h = scalar_at st ofs p (em_buf e) evt \<and>
      same_state g h"
  proof (cases "choose_style (evt_scalar_style evt) (str_bytes (evt_value evt)) (in_flow p \<or> st \<noteq> OYL_EMIT_BLOCK)
      (is_key_place p) (evt_tag evt)")
    case OYL_SCALAR_PLAIN
    have "(in_flow p \<and> (\<exists>b. p = InSeq b)) \<or> (\<forall>b. p \<noteq> InSeq b)" by (cases p) auto
    then show ?thesis
      using OYL_SCALAR_PLAIN g(2)
      by (cases p) (auto simp: emit_scalar_def scalar_at_def Let_def key fseq flow wp gopts opts g(3) buf emit_simps
          emit_plain_def same_state_def)
  next
    case OYL_SCALAR_SINGLE_QUOTED
    with emit_props_then [OF writes_single_quoted g(2)] show ?thesis
      by (simp add: emit_scalar_def scalar_at_def Let_def key flow gopts opts g(3) buf)
  next
    case OYL_SCALAR_DOUBLE_QUOTED
    with emit_props_then [OF writes_double_quoted g(2)] show ?thesis
      by (simp add: emit_scalar_def scalar_at_def Let_def key flow gopts opts g(3) buf)
  next
    case OYL_SCALAR_LITERAL
    with emit_props_then [OF writes_literal g(2)] show ?thesis
      using indent by (simp add: emit_scalar_def scalar_at_def Let_def key flow gopts opts g(3) buf)
  next
    case OYL_SCALAR_FOLDED
    with emit_props_then [OF writes_literal g(2)] show ?thesis
      using indent by (simp add: emit_scalar_def scalar_at_def Let_def key flow gopts opts g(3) buf)
  qed
  then obtain h where h: "emit_scalar g evt = (OYL_OK, h)" "no_fail h" "em_buf h = scalar_at st ofs p (em_buf e) evt"
    "same_state g h" by blast
  have "em_stack h = em_stack f" "em_after_seq_dash h = em_after_seq_dash f"
    using same h(4) by (simp_all add: same_state_def)
  note adv = advance_stepped [OF pl lead this]
  have "em_key_was_alias h = False" "em_opts h = em_opts e"
    using lead same h(4) by (simp_all add: lead_done_def same_state_def)
  then show ?thesis
    using f g(1) h adv by (simp add: emitted_def oyl_emit_def assms(2) emit_scalar_event_def block_coll_def is_alias_def)
qed

lemma alias_emitted:
  assumes "ready st ofs p e" and "evt_type evt = OYL_EVT_ALIAS"
  shows "emitted st ofs p (NAlias evt) e (oyl_emit e evt)"
proof -
  obtain f where f: "emit_pre_node e False = (OYL_OK, f)" and lead: "lead_done st p False e f"
    using pre_node_ok [OF assms(1)] by blast
  have pl: "placed e p" using assms(1) by (simp add: ready_def)
  have key: "(case top_ctx f of None \<Rightarrow> False | Some c \<Rightarrow> is_map_ctx c \<and> ctx_expect_key c) = is_key_place p"
    using lead pl by (cases p; auto simp: lead_done_def top_ctx_def set_top_def is_map_ctx_def)
  let ?f = "f\<lparr>em_key_was_alias := is_key_place p\<rparr>"
  have nf: "no_fail ?f" using lead by (simp add: lead_done_def)
  define g where "g = app (app ?f [STAR]) (str_bytes (evt_value evt))"
  have emit: "oyl_emit e evt = (OYL_OK, advance_ctx g)"
    using nf f by (simp add: oyl_emit_def assms(2) emit_alias_event_def key emit_simps g_def)
  have g: "no_fail g" "em_buf g = lead st p False (em_buf e) @ STAR # str_bytes (evt_value evt)"
    "em_opts g = em_opts e" "em_key_was_alias g = is_key_place p"
    using nf lead by (simp_all add: g_def lead_done_def)
  have "em_stack g = em_stack f" "em_after_seq_dash g = em_after_seq_dash f" by (simp_all add: g_def)
  note adv = advance_stepped [OF pl lead this]
  with g show ?thesis by (simp add: emitted_def emit block_coll_def is_alias_def)
qed

section \<open>Collections\<close>

definition psh :: "oyl_emitter \<Rightarrow> emit_ctx_type \<Rightarrow> int \<Rightarrow> oyl_emitter" where
  "psh e t i = snd (push_ctx e t i)"

definition new_ctx :: "emit_ctx_type \<Rightarrow> int \<Rightarrow> emit_ctx" where
  "new_ctx t i = \<lparr>ctx_type = t, ctx_indent = i, ctx_count = 0,
     ctx_expect_key = (t = EMIT_CTX_BLOCK_MAP \<or> t = EMIT_CTX_FLOW_MAP), ctx_complex_key = False\<rparr>"

lemma push_ctx_ok [emit_simps]: "no_fail e \<Longrightarrow> push_ctx e t i = (OYL_OK, psh e t i)"
  using mem_take_ok [of "em_mem e"] by (simp add: psh_def push_ctx_def no_fail_def Let_def)

lemma psh_fields:
  assumes "no_fail e"
  shows "em_stack (psh e t i) = new_ctx t i # em_stack e" and "no_fail (psh e t i)"
    and "em_buf (psh e t i) = em_buf e" and "em_opts (psh e t i) = em_opts e"
    and "em_after_seq_dash (psh e t i) = em_after_seq_dash e" and "em_key_was_alias (psh e t i) = em_key_was_alias e"
  using mem_take_ok [of "em_mem e"] assms by (auto simp: psh_def push_ctx_def new_ctx_def no_fail_def Let_def)

lemma advance_parent_fields:
  assumes "em_stack e = c # cs"
  shows "em_stack (advance_parent e) = c # em_stack (advance_ctx (e\<lparr>em_stack := cs\<rparr>))"
    and "em_after_seq_dash (advance_parent e) = em_after_seq_dash e"
    and "em_buf (advance_parent e) = em_buf e" and "em_opts (advance_parent e) = em_opts e"
    and "no_fail (advance_parent e) = no_fail e" and "em_key_was_alias (advance_parent e) = em_key_was_alias e"
  using assms by (simp_all add: advance_parent_def Let_def)

text \<open>The parent's context while its collection is being opened.\<close>

definition during :: "bool \<Rightarrow> emit_ctx list \<Rightarrow> emit_ctx list \<Rightarrow> bool" where
  "during cx old mid \<longleftrightarrow>
    (case old of
       [] \<Rightarrow> mid = []
     | c # cs \<Rightarrow> mid \<noteq> [] \<and> tl mid = cs \<and> c = (hd mid)\<lparr>ctx_complex_key := ctx_complex_key c\<rparr> \<and>
         (ctx_type c = EMIT_CTX_BLOCK_MAP \<longrightarrow> ctx_complex_key (hd mid) = (ctx_expect_key c \<and> cx)))"

lemma during_stepped:
  assumes "during cx old mid"
  shows "stepped cx old (em_stack (advance_ctx (e\<lparr>em_stack := mid\<rparr>)))"
proof (cases old)
  case Nil
  with assms show ?thesis by (simp add: during_def stepped_def advance_ctx_Nil)
next
  case (Cons c cs)
  then obtain d where d: "mid = d # cs" "c = d\<lparr>ctx_complex_key := ctx_complex_key c\<rparr>"
    "ctx_type c = EMIT_CTX_BLOCK_MAP \<longrightarrow> ctx_complex_key d = (ctx_expect_key c \<and> cx)"
    using assms by (cases mid) (auto simp: during_def)
  have "ctx_type d = ctx_type c" "ctx_expect_key d = ctx_expect_key c" by (subst d(2), simp)+
  then have "stepped cx (d\<lparr>ctx_complex_key := ctx_complex_key c\<rparr> # cs) (step_ctx d # cs)"
    using d(3) by (intro step_ctx_stepped) simp
  with advance_ctx_Cons(1) [of "e\<lparr>em_stack := mid\<rparr>" d cs] d Cons show ?thesis by simp
qed

lemma stepped_flow: "stepped cx old new \<Longrightarrow> list_ex is_flow_ctx new = list_ex is_flow_ctx old"
  by (cases old; cases new) (auto simp: stepped_def is_flow_ctx_def)

lemma during_lead:
  assumes "placed e p" and "lead_done st p coll e f" and "em_stack g = em_stack f"
  shows "\<not> (cx \<and> is_key_place p) \<Longrightarrow> during cx (em_stack e) (em_stack g)"
    and "p = AtKey i b \<Longrightarrow> during True (em_stack e) (em_stack (set_top g (ctx_complex_key_update (\<lambda>_. True))))"
  using assms by (cases p; auto simp: lead_done_def set_top_def during_def)+

text \<open>The properties of a block collection, on the line that introduces it.\<close>

lemma block_props_ok:
  assumes "no_fail f"
  shows "\<exists>g. emit_block_collection_props f evt after = (OYL_OK, g) \<and> no_fail g \<and> em_opts g = em_opts f \<and>
    em_stack g = em_stack f \<and> em_after_seq_dash g = em_after_seq_dash f \<and> em_key_was_alias g = em_key_was_alias f \<and>
    em_buf g = em_buf f @ (if has_props evt then (if after then [SP] else []) @ butlast (props_text evt) else [])"
proof (cases "has_props evt")
  case True
  let ?f = "if after then app f [SP] else f"
  have nf: "no_fail ?f" "em_buf ?f = em_buf f @ (if after then [SP] else [])" using assms by simp_all
  obtain g where g: "emit_props ?f evt = (OYL_OK, g)" "no_fail g" "em_buf g = em_buf ?f @ props_text evt"
    "same_state (?f\<lparr>em_wrote_props := has_props evt\<rparr>) g" using props_ok [OF nf(1)] by blast
  have "em_buf (drop_space g) = em_buf ?f @ butlast (props_text evt)"
    using props_text_last [OF True] g(3) by (simp add: undo_space_def butlast_append)
  moreover have "emit_block_collection_props f evt after = (OYL_OK, drop_space g)"
    using True g(1) assms by (auto simp: emit_block_collection_props_def emit_simps)
  ultimately show ?thesis using g(2,4) nf(2) True by (simp add: same_state_def split: if_splits)
qed (simp add: emit_block_collection_props_def assms)

text \<open>
  A collection is opened: the text, the contexts, the flags. \<open>t\<close> is the type of the new context,
  \<open>i\<close> its indentation.
\<close>

definition opened ::
    "oyl_emit_style \<Rightarrow> place \<Rightarrow> oyl_event \<Rightarrow> oyl_emitter \<Rightarrow> oyl_emitter \<Rightarrow> emit_ctx_type \<Rightarrow> int \<Rightarrow> byte \<Rightarrow> bool" where
  "opened st p evt e g t i bracket \<longleftrightarrow> no_fail g \<and> em_opts g = em_opts e \<and>
     em_buf g = (if use_flow st p evt then lead st p False (em_buf e) @ props_text evt @ [bracket]
                 else block_open st p (em_buf e) evt) \<and>
     (\<exists>cs. em_stack g = new_ctx t i # cs \<and> stepped (\<not> use_flow st p evt) (em_stack e) cs) \<and>
     \<not> em_key_was_alias g"

lemma top_place:
  assumes "placed e p" and "lead_done st p coll e f" and "em_stack g = em_stack f"
  shows "top_is g t = (case p of AtRoot \<Rightarrow> False | AtItem i \<Rightarrow> t = EMIT_CTX_BLOCK_SEQ
      | AtKey i b \<Rightarrow> t = EMIT_CTX_BLOCK_MAP | AtValue i b c \<Rightarrow> t = EMIT_CTX_BLOCK_MAP
      | InSeq b \<Rightarrow> t = EMIT_CTX_FLOW_SEQ | _ \<Rightarrow> t = EMIT_CTX_FLOW_MAP)"
    and "top_indent g = place_indent p"
    and "top_is e EMIT_CTX_BLOCK_MAP = (\<exists>i b c. p = AtKey i b \<or> p = AtValue i b c)"
    and "top_expects_key e = is_key_place p \<or> p = AtRoot \<or> (\<exists>i. p = AtItem i) \<or> (\<exists>b. p = InSeq b)"
  using assms
  by (cases p; auto simp: top_is_def top_indent_def top_expects_key_def top_ctx_def lead_done_def set_top_def)+

text \<open>Between the lead and the bracket or the new context.\<close>

definition props_stage :: "bool \<Rightarrow> bool \<Rightarrow> bool \<Rightarrow> oyl_emitter \<Rightarrow> oyl_event \<Rightarrow> oyl_status \<times> oyl_emitter" where
  "props_stage flow in_map expects f evt =
    (if \<not> flow \<and> in_map \<and> expects then emit_complex_key_open f evt
     else if flow then emit_props f evt
     else emit_block_collection_props f evt (\<not> flow \<and> in_map \<and> \<not> expects))"

definition stage_done :: "oyl_emit_style \<Rightarrow> place \<Rightarrow> oyl_event \<Rightarrow> oyl_emitter \<Rightarrow> oyl_emitter \<Rightarrow> bool" where
  "stage_done st p evt e g \<longleftrightarrow> no_fail g \<and> em_opts g = em_opts e \<and> \<not> em_key_was_alias g \<and>
     em_buf g = (if use_flow st p evt then lead st p False (em_buf e) @ props_text evt
                 else block_open st p (em_buf e) evt) \<and>
     during (\<not> use_flow st p evt) (em_stack e) (em_stack g) \<and> top_indent g = place_indent p \<and>
     (\<forall>t. top_is g t = (case p of AtRoot \<Rightarrow> False | AtItem i \<Rightarrow> t = EMIT_CTX_BLOCK_SEQ
       | AtKey i b \<Rightarrow> t = EMIT_CTX_BLOCK_MAP | AtValue i b c \<Rightarrow> t = EMIT_CTX_BLOCK_MAP
       | InSeq b \<Rightarrow> t = EMIT_CTX_FLOW_SEQ | _ \<Rightarrow> t = EMIT_CTX_FLOW_MAP))"

lemma use_flow_eq:
  "ready st ofs p e \<Longrightarrow> (opt_style (em_opts e) \<noteq> OYL_EMIT_BLOCK \<or> evt_flow evt \<or> in_any_flow e) = use_flow st p evt"
  using placed_flow [of e p] by (auto simp: ready_def use_flow_def)

lemma props_stage_ok:
  assumes "ready st ofs p e"
  shows "\<exists>f g. emit_pre_node e (\<not> use_flow st p evt) = (OYL_OK, f) \<and>
    props_stage (use_flow st p evt) (top_is e EMIT_CTX_BLOCK_MAP) (top_expects_key e) f evt = (OYL_OK, g) \<and>
    stage_done st p evt e g \<and>
    (\<not> use_flow st p evt \<longrightarrow> em_after_seq_dash g = (case p of AtItem i \<Rightarrow> True | _ \<Rightarrow> False))"
proof -
  let ?flow = "use_flow st p evt"
  have pl: "placed e p" using assms by (simp add: ready_def)
  obtain f where f: "emit_pre_node e (\<not> ?flow) = (OYL_OK, f)" and lead: "lead_done st p (\<not> ?flow) e f"
    using pre_node_ok [OF assms] by blast
  have nf: "no_fail f" and fo: "em_opts f = em_opts e" "\<not> em_key_was_alias f"
    "em_buf f = lead st p (\<not> ?flow) (em_buf e)"
    using lead by (simp_all add: lead_done_def)
  have dash: "em_after_seq_dash f = (case p of AtItem i \<Rightarrow> True | AtKey i b \<Rightarrow> em_after_seq_dash f | _ \<Rightarrow> False)"
    if "\<not> ?flow" using lead pl that by (cases p) (auto simp: lead_done_def use_flow_def)
  consider "?flow" | i b where "\<not> ?flow" "p = AtKey i b" | "\<not> ?flow" "\<not> (\<exists>i b. p = AtKey i b)" by blast
  then show ?thesis
  proof cases
    case 1
    obtain g where g: "emit_props f evt = (OYL_OK, g)" "no_fail g" "em_buf g = em_buf f @ props_text evt"
      and same: "same_state (f\<lparr>em_wrote_props := has_props evt\<rparr>) g" using props_ok [OF nf] by blast
    have stack: "em_stack g = em_stack f" using same by (simp add: same_state_def)
    have "stage_done st p evt e g"
      using 1 g same fo during_lead(1) [OF pl lead stack, of False] top_place(1,2) [OF pl lead stack]
      by (simp add: stage_done_def same_state_def)
    with f g(1) 1 show ?thesis by (auto simp: props_stage_def)
  next
    case 2
    have nf': "no_fail (app f [QMARK])" using nf by simp
    obtain g where g: "emit_block_collection_props (app f [QMARK]) evt True = (OYL_OK, g)" "no_fail g"
      "em_opts g = em_opts f" "em_stack g = em_stack f" "em_key_was_alias g = em_key_was_alias f"
      "em_buf g = em_buf f @ [QMARK] @ (if has_props evt then SP # butlast (props_text evt) else [])"
      using block_props_ok [OF nf', of evt True] nf by auto
    let ?h = "set_top g (ctx_complex_key_update (\<lambda>_. True))"
    let ?g = "?h\<lparr>em_after_seq_dash := False\<rparr>"
    have h: "em_buf ?h = em_buf g" "em_opts ?h = em_opts g" "no_fail ?h = no_fail g"
      "em_key_was_alias ?h = em_key_was_alias g"
      by (auto simp: set_top_def split: list.splits)
    have tops: "top_is ?g t = top_is g t" "top_indent ?g = top_indent g" for t
      by (auto simp: top_is_def top_indent_def top_ctx_def set_top_def split: list.splits)
    have "props_stage ?flow (top_is e EMIT_CTX_BLOCK_MAP) (top_expects_key e) f evt = (OYL_OK, ?g)"
      using 2 top_place(3,4) [OF pl lead g(4)] g(1) nf
      by (simp add: props_stage_def emit_complex_key_open_def emit_simps)
    moreover have "stage_done st p evt e ?g"
      using 2 g h fo during_lead(2) [OF pl lead g(4) 2(2)] top_place(1,2) [OF pl lead g(4)] tops
      by (simp add: stage_done_def block_open_def)
    ultimately show ?thesis using f 2(2) by (intro exI [of _ f] exI [of _ ?g]) simp
  next
    case 3
    let ?after = "top_is e EMIT_CTX_BLOCK_MAP \<and> \<not> top_expects_key e"
    have after: "?after = (case p of AtValue i b c \<Rightarrow> True | _ \<Rightarrow> False)"
      and expects: "\<not> (top_is e EMIT_CTX_BLOCK_MAP \<and> top_expects_key e)"
      using 3 pl by (cases p; auto simp: top_is_def top_expects_key_def top_ctx_def use_flow_def)+
    obtain g where g: "emit_block_collection_props f evt ?after = (OYL_OK, g)" "no_fail g"
      "em_opts g = em_opts f" "em_stack g = em_stack f" "em_key_was_alias g = em_key_was_alias f"
      "em_after_seq_dash g = em_after_seq_dash f"
      "em_buf g = em_buf f @ (if has_props evt then (if ?after then [SP] else []) @ butlast (props_text evt) else [])"
      using block_props_ok [OF nf] by blast
    have "\<not> is_key_place p" using 3 by (cases p) (auto simp: use_flow_def)
    then have "stage_done st p evt e g"
      using 3 g fo during_lead(1) [OF pl lead g(4), of True] top_place(1,2) [OF pl lead g(4)] after
      by (cases p) (auto simp: stage_done_def block_open_def)
    moreover have "props_stage ?flow (top_is e EMIT_CTX_BLOCK_MAP) (top_expects_key e) f evt = (OYL_OK, g)"
      using 3 g(1) expects by (auto simp: props_stage_def)
    moreover have "em_after_seq_dash g = (case p of AtItem i \<Rightarrow> True | _ \<Rightarrow> False)"
      using dash [OF 3(1)] 3(2) g(6) by (cases p) auto
    ultimately show ?thesis using f by blast
  qed
qed

text \<open>The last stage: the bracket of a flow collection, the new context, the parent's step.\<close>

lemma open_stage_ok:
  assumes "stage_done st p evt e g"
  shows "\<exists>h. st_then (if use_flow st p evt then st_then (buf_put g bracket) (\<lambda>e. push_ctx e t i)
        else push_ctx g t' i') (\<lambda>e. (OYL_OK, advance_parent e)) = (OYL_OK, h) \<and>
    opened st p evt e h (if use_flow st p evt then t else t') (if use_flow st p evt then i else i') bracket \<and>
    em_after_seq_dash h = em_after_seq_dash g"
proof -
  let ?flow = "use_flow st p evt"
  let ?t = "if ?flow then t else t'" and ?i = "if ?flow then i else i'"
  let ?g = "if ?flow then app g [bracket] else g"
  let ?h = "psh ?g ?t ?i"
  have nf: "no_fail ?g" "em_stack ?g = em_stack g" "em_opts ?g = em_opts e" "\<not> em_key_was_alias ?g"
    "em_after_seq_dash ?g = em_after_seq_dash g"
    using assms by (simp_all add: stage_done_def)
  note psh = psh_fields [OF nf(1), of ?t ?i]
  note adv = advance_parent_fields [OF psh(1)]
  have "stepped (\<not> ?flow) (em_stack e) (em_stack (advance_ctx (?h\<lparr>em_stack := em_stack ?g\<rparr>)))"
    using assms nf(2) by (intro during_stepped) (simp add: stage_done_def)
  moreover have "em_buf ?g = (if ?flow then lead st p False (em_buf e) @ props_text evt @ [bracket]
      else block_open st p (em_buf e) evt)"
    using assms by (simp add: stage_done_def)
  ultimately have "opened st p evt e (advance_parent ?h) ?t ?i bracket"
    using nf psh adv by (simp add: opened_def)
  moreover have "st_then (if ?flow then st_then (buf_put g bracket) (\<lambda>e. push_ctx e t i) else push_ctx g t' i')
      (\<lambda>e. (OYL_OK, advance_parent e)) = (OYL_OK, advance_parent ?h)"
    using assms by (simp add: stage_done_def emit_simps)
  ultimately show ?thesis using adv(2) psh(5) nf(5) by auto
qed

lemma sequence_opened:
  assumes "ready st ofs p e" and "evt_type evt = OYL_EVT_SEQUENCE_START"
  shows "\<exists>h. oyl_emit e evt = (OYL_OK, h) \<and>
    opened st p evt e h (if use_flow st p evt then EMIT_CTX_FLOW_SEQ else EMIT_CTX_BLOCK_SEQ)
      (if use_flow st p evt then 0 else seq_indent ofs p) LBRACK"
proof -
  obtain f g where f: "emit_pre_node e (\<not> use_flow st p evt) = (OYL_OK, f)"
    and g: "props_stage (use_flow st p evt) (top_is e EMIT_CTX_BLOCK_MAP) (top_expects_key e) f evt = (OYL_OK, g)"
    and stg: "stage_done st p evt e g"
    using props_stage_ok [OF assms(1)] by blast
  have ofs: "opt_indent (em_opts g) = ofs" using stg assms(1) by (simp add: stage_done_def ready_def)
  have i: "(if top_is g EMIT_CTX_BLOCK_MAP then top_indent g + opt_indent (em_opts g)
      else if top_is g EMIT_CTX_BLOCK_SEQ then top_indent g + opt_indent (em_opts g) else 0) = seq_indent ofs p"
    if "\<not> use_flow st p evt" using stg that ofs by (cases p) (auto simp: stage_done_def use_flow_def)
  have "oyl_emit e evt = st_then (if use_flow st p evt then st_then (buf_put g LBRACK) (\<lambda>e. push_ctx e EMIT_CTX_FLOW_SEQ 0)
        else push_ctx g EMIT_CTX_BLOCK_SEQ (seq_indent ofs p)) (\<lambda>e. (OYL_OK, advance_parent e))"
    using f g i use_flow_eq [OF assms(1), of evt]
    by (simp add: oyl_emit_def assms(2) emit_sequence_start_def props_stage_def Let_def)
  with open_stage_ok [OF stg, of LBRACK EMIT_CTX_FLOW_SEQ 0 EMIT_CTX_BLOCK_SEQ "seq_indent ofs p"]
  show ?thesis by auto
qed

lemma mapping_opened:
  assumes "ready st ofs p e" and "evt_type evt = OYL_EVT_MAPPING_START"
  shows "\<exists>h. oyl_emit e evt = (OYL_OK, h) \<and>
    opened st p evt e h (if use_flow st p evt then EMIT_CTX_FLOW_MAP else EMIT_CTX_BLOCK_MAP)
      (if use_flow st p evt then 0 else map_indent ofs p) LBRACE \<and>
    (\<not> use_flow st p evt \<longrightarrow> em_after_seq_dash h = shares_dash p evt)"
proof -
  let ?flow = "use_flow st p evt"
  obtain f g where f: "emit_pre_node e (\<not> ?flow) = (OYL_OK, f)"
    and g: "props_stage ?flow (top_is e EMIT_CTX_BLOCK_MAP) (top_expects_key e) f evt = (OYL_OK, g)"
    and stg: "stage_done st p evt e g"
    and dash: "\<not> ?flow \<longrightarrow> em_after_seq_dash g = (case p of AtItem i \<Rightarrow> True | _ \<Rightarrow> False)"
    using props_stage_ok [OF assms(1)] by blast
  define g' where "g' = (if \<not> ?flow \<and> em_after_seq_dash g \<and> has_props evt then g\<lparr>em_after_seq_dash := False\<rparr> else g)"
  have tops: "top_is g' t = top_is g t" "top_indent g' = top_indent g" for t
    by (simp_all add: top_is_def top_indent_def top_ctx_def g'_def)
  have stg': "stage_done st p evt e g'"
    using stg tops by (auto simp: stage_done_def g'_def)
  have dash': "\<not> ?flow \<longrightarrow> em_after_seq_dash g' = shares_dash p evt"
    using dash by (cases p) (auto simp: g'_def shares_dash_def)
  have ofs: "opt_indent (em_opts g') = ofs" using stg' assms(1) by (simp add: stage_done_def ready_def)
  have i: "(if top_is g' EMIT_CTX_BLOCK_SEQ then top_indent g' + 2
      else if top_is g' EMIT_CTX_BLOCK_MAP then top_indent g' + opt_indent (em_opts g') else 0) = map_indent ofs p"
    if "\<not> ?flow" using stg' that ofs by (cases p) (auto simp: stage_done_def use_flow_def)
  have stage: "(if \<not> ?flow \<and> top_is e EMIT_CTX_BLOCK_MAP \<and> top_expects_key e then emit_complex_key_open f evt
      else if ?flow then emit_props f evt
      else st_then (emit_block_collection_props f evt (\<not> ?flow \<and> top_is e EMIT_CTX_BLOCK_MAP \<and> \<not> top_expects_key e))
        (\<lambda>e. (OYL_OK, if em_after_seq_dash e \<and> has_props evt then e\<lparr>em_after_seq_dash := False\<rparr> else e))) = (OYL_OK, g')"
  proof (cases "\<not> ?flow \<and> top_is e EMIT_CTX_BLOCK_MAP \<and> top_expects_key e")
    case True
    have "\<not> em_after_seq_dash g"
      using True dash assms(1) by (cases p) (auto simp: ready_def top_is_def top_ctx_def)
    with True g show ?thesis by (simp add: props_stage_def g'_def)
  next
    case False
    with g show ?thesis by (auto simp: props_stage_def g'_def)
  qed
  have "oyl_emit e evt = st_then (if ?flow then st_then (buf_put g' LBRACE) (\<lambda>e. push_ctx e EMIT_CTX_FLOW_MAP 0)
        else push_ctx g' EMIT_CTX_BLOCK_MAP (map_indent ofs p)) (\<lambda>e. (OYL_OK, advance_parent e))"
    unfolding oyl_emit_def assms(2) emit_mapping_start_def Let_def use_flow_eq [OF assms(1)]
    using i by (simp add: f stage [unfolded Let_def])
  with open_stage_ok [OF stg', of LBRACE EMIT_CTX_FLOW_MAP 0 EMIT_CTX_BLOCK_MAP "map_indent ofs p"] dash'
  show ?thesis by auto
qed

text \<open>The end of a collection.\<close>

lemma end_ok:
  assumes "no_fail e" and "em_stack e = c # cs"
  shows "\<exists>h. emit_collection_end e t closer brackets = (OYL_OK, h) \<and> no_fail h \<and> em_opts h = em_opts e \<and>
    em_stack h = cs \<and> \<not> em_after_seq_dash h \<and> em_key_was_alias h = em_key_was_alias e \<and>
    em_buf h = (if ctx_type c = t then em_buf e @ [closer]
                else if ctx_count c = 0 then empty_coll (em_buf e) brackets else em_buf e)"
  using assms
  by (auto simp: emit_collection_end_def top_ctx_def emit_simps pop_ctx_def empty_coll_def)

section \<open>From one node to the next\<close>

lemma emit_all_append: "emit_all (xs @ ys) e = st_then (emit_all xs e) (emit_all ys)"
  by (induction xs arbitrary: e) (auto simp: st_then_def)

lemma emitted_stack:
  assumes "emitted st ofs p n e (OYL_OK, h)" and "em_stack e = c # cs"
  obtains d where "em_stack h = d # cs" and "ctx_type d = ctx_type c" and "ctx_indent d = ctx_indent c"
    and "in_any_flow h = in_any_flow e"
    and "is_map_ctx c \<longrightarrow> ctx_expect_key d = (\<not> ctx_expect_key c)"
    and "ctx_count d = (if is_map_ctx c \<and> ctx_expect_key c then ctx_count c else Suc (ctx_count c))"
    and "ctx_type c = EMIT_CTX_BLOCK_MAP \<longrightarrow> ctx_complex_key d = (ctx_expect_key c \<and> block_coll st p n)"
proof -
  have st: "stepped (block_coll st p n) (c # cs) (em_stack h)" using assms by (simp add: emitted_def)
  have flow: "in_any_flow h = in_any_flow e"
    using stepped_flow [OF st] assms(2) by (simp add: in_any_flow_def)
  obtain d where "em_stack h = d # cs" using st by (cases "em_stack h") (auto simp: stepped_def)
  with st flow show ?thesis by (intro that [of d]) (auto simp: stepped_def split: if_splits)
qed

lemma next_ready_item:
  assumes "ready st ofs p e" and "emitted st ofs p n e (OYL_OK, h)" and "p = AtItem i \<or> p = InSeq b"
  shows "ready st ofs (next_item p) h"
proof -
  obtain c cs where c: "em_stack e = c # cs" using assms(1,3) by (auto simp: ready_def)
  from assms(2) c show ?thesis
    by (rule emitted_stack) (use assms c in \<open>auto simp: ready_def emitted_def is_map_ctx_def\<close>)
qed

lemma next_ready_value:
  assumes "ready st ofs p e" and "emitted st ofs p n e (OYL_OK, h)" and "p = AtKey i b \<or> p = InKey b"
  shows "ready st ofs (value_place st p n) h"
proof -
  obtain c cs where c: "em_stack e = c # cs" using assms(1,3) by (auto simp: ready_def)
  from assms(2) c show ?thesis
    by (rule emitted_stack) (use assms c in \<open>auto simp: ready_def emitted_def is_map_ctx_def\<close>)
qed

lemma next_ready_key:
  assumes "ready st ofs p e" and "emitted st ofs p n e (OYL_OK, h)" and "p = AtValue i b c \<or> p = InValue b"
  shows "ready st ofs (case p of AtValue i b c \<Rightarrow> AtKey i False | _ \<Rightarrow> InKey True) h"
proof -
  obtain c cs where c: "em_stack e = c # cs" using assms(1,3) by (auto simp: ready_def)
  from assms(2) c show ?thesis
    by (rule emitted_stack) (use assms c in \<open>auto simp: ready_def emitted_def is_map_ctx_def\<close>)
qed

section \<open>The refinement\<close>

text \<open>A node is emitted at every place where the emitter can be.\<close>

definition emits :: "oyl_emit_style \<Rightarrow> int \<Rightarrow> oyl_node \<Rightarrow> bool" where
  "emits st ofs n \<longleftrightarrow> (\<forall>p e. ready st ofs p e \<longrightarrow>
     (\<exists>h. emit_all (node_events n) e = (OYL_OK, h) \<and> emitted st ofs p n e (OYL_OK, h)))"

lemma emitsE:
  assumes "emits st ofs n" and "ready st ofs p e"
  obtains h where "emit_all (node_events n) e = (OYL_OK, h)" and "emitted st ofs p n e (OYL_OK, h)"
  using assms by (auto simp: emits_def)

text \<open>The children of a collection: the text, and the context of the collection with their number.\<close>

definition filled :: "emit_ctx \<Rightarrow> emit_ctx list \<Rightarrow> nat \<Rightarrow> byte list \<Rightarrow> oyl_emitter \<Rightarrow> oyl_emitter \<Rightarrow> bool" where
  "filled c cs k out e h \<longleftrightarrow> no_fail h \<and> em_opts h = em_opts e \<and> em_buf h = out \<and> \<not> em_key_was_alias h \<and>
     (\<exists>d. em_stack h = d # cs \<and> ctx_type d = ctx_type c \<and> ctx_count d = ctx_count c + k)"

lemma items_emitted:
  assumes "\<And>n. n \<in> set ns \<Longrightarrow> emits st ofs n"
    and "ready st ofs p e" and "p = AtItem i \<or> p = InSeq b" and "em_stack e = c # cs"
  shows "\<exists>h. emit_all (concat (map node_events ns)) e = (OYL_OK, h) \<and>
    filled c cs (length ns) (render_items st ofs p (em_buf e) ns) e h"
  using assms
proof (induction ns arbitrary: p e b c)
  case Nil
  then show ?case by (auto simp: filled_def ready_def)
next
  case (Cons n ns)
  have "emits st ofs n" using Cons.prems(1) by simp
  then obtain g where g: "emit_all (node_events n) e = (OYL_OK, g)" "emitted st ofs p n e (OYL_OK, g)"
    using Cons.prems(2) by (rule emitsE)
  have r: "ready st ofs (next_item p) g" using Cons.prems(2) g(2) Cons.prems(3) by (rule next_ready_item)
  from g(2) Cons.prems(4) obtain d where d: "em_stack g = d # cs" "ctx_type d = ctx_type c"
    "ctx_count d = (if is_map_ctx c \<and> ctx_expect_key c then ctx_count c else Suc (ctx_count c))"
    by (rule emitted_stack)
  have "ctx_count d = Suc (ctx_count c)"
    using d(3) Cons.prems(2-4) by (auto simp: ready_def is_map_ctx_def)
  moreover have "next_item p = AtItem i \<or> next_item p = InSeq True" using Cons.prems(3) by auto
  ultimately show ?case
    using Cons.IH [OF _ r _ d(1)] Cons.prems(1) g d(2)
    by (force simp: emit_all_append filled_def emitted_def)
qed

lemma pairs_emitted:
  assumes "\<And>k v. (k, v) \<in> set kvs \<Longrightarrow> emits st ofs k \<and> emits st ofs v"
    and "ready st ofs p e" and "p = AtKey i b \<or> p = InKey b" and "em_stack e = c # cs"
  shows "\<exists>h. emit_all (concat (map (\<lambda>(k, v). node_events k @ node_events v) kvs)) e = (OYL_OK, h) \<and>
    filled c cs (length kvs) (render_pairs st ofs p (em_buf e) kvs) e h"
  using assms
proof (induction kvs arbitrary: p e b c)
  case Nil
  then show ?case by (auto simp: filled_def ready_def)
next
  case (Cons kv kvs)
  obtain k v where kv: "kv = (k, v)" by fastforce
  have em: "emits st ofs k" "emits st ofs v" using Cons.prems(1) [of k v] kv by simp_all
  from em(1) Cons.prems(2) obtain f where f: "emit_all (node_events k) e = (OYL_OK, f)" "emitted st ofs p k e (OYL_OK, f)"
    by (rule emitsE)
  have rv: "ready st ofs (value_place st p k) f" using Cons.prems(2) f(2) Cons.prems(3) by (rule next_ready_value)
  from em(2) rv obtain g where g: "emit_all (node_events v) f = (OYL_OK, g)"
    "emitted st ofs (value_place st p k) v f (OYL_OK, g)" by (rule emitsE)
  have vp: "value_place st p k = AtValue i (block_coll st p k) (is_alias k) \<or> value_place st p k = InValue (is_alias k)"
    using Cons.prems(3) by auto
  have rk: "ready st ofs (next_key p) g"
    using next_ready_key [OF rv g(2), of i "block_coll st p k" "is_alias k"] next_ready_key [OF rv g(2), of i "is_alias k" "is_alias k"]
      Cons.prems(3) by auto
  from f(2) Cons.prems(4) obtain d where d: "em_stack f = d # cs" "ctx_type d = ctx_type c"
    "ctx_count d = (if is_map_ctx c \<and> ctx_expect_key c then ctx_count c else Suc (ctx_count c))"
    "is_map_ctx c \<longrightarrow> ctx_expect_key d = (\<not> ctx_expect_key c)"
    by (rule emitted_stack)
  from g(2) d(1) obtain d' where d': "em_stack g = d' # cs" "ctx_type d' = ctx_type d"
    "ctx_count d' = (if is_map_ctx d \<and> ctx_expect_key d then ctx_count d else Suc (ctx_count d))"
    by (rule emitted_stack)
  have "is_map_ctx c" "ctx_expect_key c" using Cons.prems(2-4) by (auto simp: ready_def is_map_ctx_def)
  then have "ctx_count d' = Suc (ctx_count c)" using d(3,4) d'(3) by simp
  moreover have "next_key p = AtKey i False \<or> next_key p = InKey False \<or> next_key p = InKey True" using Cons.prems(3) by auto
  ultimately have "\<exists>h. emit_all (concat (map (\<lambda>(k, v). node_events k @ node_events v) kvs)) g = (OYL_OK, h) \<and>
      filled d' cs (length kvs) (render_pairs st ofs (next_key p) (em_buf g) kvs) g h"
    using Cons.IH [OF _ rk _ d'(1), of False] Cons.IH [OF _ rk _ d'(1), of True] Cons.prems(1) by fastforce
  then show ?case
    using f g kv d(2) d'(2) \<open>ctx_count d' = Suc (ctx_count c)\<close>
    by (auto simp: emit_all_append filled_def emitted_def)
qed

text \<open>The place of the first child of a collection.\<close>

lemma opened_ready:
  assumes "ready st ofs p e" and "opened st p evt e h t i bracket"
  shows "use_flow st p evt \<Longrightarrow> i = 0 \<Longrightarrow> t = EMIT_CTX_FLOW_SEQ \<Longrightarrow> ready st ofs (InSeq False) h"
    and "use_flow st p evt \<Longrightarrow> i = 0 \<Longrightarrow> t = EMIT_CTX_FLOW_MAP \<Longrightarrow> ready st ofs (InKey False) h"
    and "\<not> use_flow st p evt \<Longrightarrow> t = EMIT_CTX_BLOCK_SEQ \<Longrightarrow> ready st ofs (AtItem i) h"
    and "\<not> use_flow st p evt \<Longrightarrow> t = EMIT_CTX_BLOCK_MAP \<Longrightarrow> em_after_seq_dash h = d \<Longrightarrow> ready st ofs (AtKey i d) h"
proof -
  obtain cs where cs: "em_stack h = new_ctx t i # cs" "stepped (\<not> use_flow st p evt) (em_stack e) cs"
    using assms(2) by (auto simp: opened_def)
  have "in_any_flow e = in_flow p" using assms(1) placed_flow by (auto simp: ready_def)
  then have flow: "list_ex is_flow_ctx cs = in_flow p" using stepped_flow [OF cs(2)] by (simp add: in_any_flow_def)
  have "use_flow st p evt \<or> \<not> in_flow p" by (simp add: use_flow_def)
  then show "use_flow st p evt \<Longrightarrow> i = 0 \<Longrightarrow> t = EMIT_CTX_FLOW_SEQ \<Longrightarrow> ready st ofs (InSeq False) h"
    and "use_flow st p evt \<Longrightarrow> i = 0 \<Longrightarrow> t = EMIT_CTX_FLOW_MAP \<Longrightarrow> ready st ofs (InKey False) h"
    and "\<not> use_flow st p evt \<Longrightarrow> t = EMIT_CTX_BLOCK_SEQ \<Longrightarrow> ready st ofs (AtItem i) h"
    and "\<not> use_flow st p evt \<Longrightarrow> t = EMIT_CTX_BLOCK_MAP \<Longrightarrow> em_after_seq_dash h = d \<Longrightarrow> ready st ofs (AtKey i d) h"
    using assms cs(1) flow by (auto simp: ready_def opened_def new_ctx_def in_any_flow_def is_flow_ctx_def)
qed

lemma sequence_emits:
  assumes "\<And>n. n \<in> set ns \<Longrightarrow> emits st ofs n"
    and "evt_type evt = OYL_EVT_SEQUENCE_START" and "evt_type evt' = OYL_EVT_SEQUENCE_END"
  shows "emits st ofs (NSeq evt ns evt')"
  unfolding emits_def
proof (intro allI impI)
  fix p e assume r: "ready st ofs p e"
  let ?flow = "use_flow st p evt"
  let ?t = "if ?flow then EMIT_CTX_FLOW_SEQ else EMIT_CTX_BLOCK_SEQ" and ?i = "if ?flow then 0 else seq_indent ofs p"
  let ?q = "if ?flow then InSeq False else AtItem (seq_indent ofs p)"
  obtain g where g: "oyl_emit e evt = (OYL_OK, g)" "opened st p evt e g ?t ?i LBRACK"
    using sequence_opened [OF r assms(2)] by blast
  then obtain cs where cs: "em_stack g = new_ctx ?t ?i # cs" "stepped (\<not> ?flow) (em_stack e) cs"
    by (auto simp: opened_def)
  have rq: "ready st ofs ?q g" using opened_ready(1,3) [OF r g(2)] by simp
  have q: "?q = AtItem (seq_indent ofs p) \<or> ?q = InSeq False" by simp
  obtain h where h: "emit_all (concat (map node_events ns)) g = (OYL_OK, h)"
    "filled (new_ctx ?t ?i) cs (length ns) (render_items st ofs ?q (em_buf g) ns) g h"
    using items_emitted [where ns = ns, OF assms(1) rq q cs(1)] by auto
  then obtain d where d: "em_stack h = d # cs" "ctx_type d = ?t" "ctx_count d = length ns"
    by (auto simp: filled_def new_ctx_def)
  have nf: "no_fail h" using h(2) by (simp add: filled_def)
  obtain k where k: "emit_collection_end h EMIT_CTX_FLOW_SEQ RBRACK [LBRACK, RBRACK] = (OYL_OK, k)" "no_fail k"
    "em_opts k = em_opts h" "em_stack k = cs" "\<not> em_after_seq_dash k" "em_key_was_alias k = em_key_was_alias h"
    "em_buf k = (if ctx_type d = EMIT_CTX_FLOW_SEQ then em_buf h @ [RBRACK]
      else if ctx_count d = 0 then empty_coll (em_buf h) [LBRACK, RBRACK] else em_buf h)"
    using end_ok [OF nf d(1), of EMIT_CTX_FLOW_SEQ RBRACK "[LBRACK, RBRACK]"] by blast
  have "em_buf k = render st ofs p (em_buf e) (NSeq evt ns evt')"
    using k(7) d g(2) h(2) by (auto simp: opened_def filled_def)
  moreover have "emit_all (node_events (NSeq evt ns evt')) e = (OYL_OK, k)"
    using g(1) h(1) k(1) by (simp add: emit_all_append oyl_emit_def [of h] assms(3))
  ultimately show "\<exists>h. emit_all (node_events (NSeq evt ns evt')) e = (OYL_OK, h) \<and>
      emitted st ofs p (NSeq evt ns evt') e (OYL_OK, h)"
    using k cs(2) g(2) h(2) by (auto simp: emitted_def block_coll_def is_alias_def opened_def filled_def)
qed

lemma mapping_emits:
  assumes "\<And>k v. (k, v) \<in> set kvs \<Longrightarrow> emits st ofs k \<and> emits st ofs v"
    and "evt_type evt = OYL_EVT_MAPPING_START" and "evt_type evt' = OYL_EVT_MAPPING_END"
  shows "emits st ofs (NMap evt kvs evt')"
  unfolding emits_def
proof (intro allI impI)
  fix p e assume r: "ready st ofs p e"
  let ?flow = "use_flow st p evt"
  let ?t = "if ?flow then EMIT_CTX_FLOW_MAP else EMIT_CTX_BLOCK_MAP" and ?i = "if ?flow then 0 else map_indent ofs p"
  let ?q = "if ?flow then InKey False else AtKey (map_indent ofs p) (shares_dash p evt)"
  obtain g where g: "oyl_emit e evt = (OYL_OK, g)" "opened st p evt e g ?t ?i LBRACE"
    and dash: "\<not> ?flow \<longrightarrow> em_after_seq_dash g = shares_dash p evt"
    using mapping_opened [OF r assms(2)] by blast
  then obtain cs where cs: "em_stack g = new_ctx ?t ?i # cs" "stepped (\<not> ?flow) (em_stack e) cs"
    by (auto simp: opened_def)
  have rq: "ready st ofs ?q g" using opened_ready(2,4) [OF r g(2)] dash by simp
  have q: "?q = AtKey (map_indent ofs p) (shares_dash p evt \<and> \<not> ?flow) \<or> ?q = InKey (shares_dash p evt \<and> \<not> ?flow)"
    by simp
  obtain h where h: "emit_all (concat (map (\<lambda>(k, v). node_events k @ node_events v) kvs)) g = (OYL_OK, h)"
    "filled (new_ctx ?t ?i) cs (length kvs) (render_pairs st ofs ?q (em_buf g) kvs) g h"
    using pairs_emitted [where kvs = kvs, OF assms(1) rq q cs(1)]
    by auto
  then obtain d where d: "em_stack h = d # cs" "ctx_type d = ?t" "ctx_count d = length kvs"
    by (auto simp: filled_def new_ctx_def)
  have nf: "no_fail h" using h(2) by (simp add: filled_def)
  obtain k where k: "emit_collection_end h EMIT_CTX_FLOW_MAP RBRACE [LBRACE, RBRACE] = (OYL_OK, k)" "no_fail k"
    "em_opts k = em_opts h" "em_stack k = cs" "\<not> em_after_seq_dash k" "em_key_was_alias k = em_key_was_alias h"
    "em_buf k = (if ctx_type d = EMIT_CTX_FLOW_MAP then em_buf h @ [RBRACE]
      else if ctx_count d = 0 then empty_coll (em_buf h) [LBRACE, RBRACE] else em_buf h)"
    using end_ok [OF nf d(1), of EMIT_CTX_FLOW_MAP RBRACE "[LBRACE, RBRACE]"] by blast
  have "em_buf k = render st ofs p (em_buf e) (NMap evt kvs evt')"
    using k(7) d g(2) h(2) by (auto simp: opened_def filled_def)
  moreover have "emit_all (node_events (NMap evt kvs evt')) e = (OYL_OK, k)"
    using g(1) h(1) k(1) by (simp add: emit_all_append oyl_emit_def [of h] assms(3))
  ultimately show "\<exists>h. emit_all (node_events (NMap evt kvs evt')) e = (OYL_OK, h) \<and>
      emitted st ofs p (NMap evt kvs evt') e (OYL_OK, h)"
    using k cs(2) g(2) h(2) by (auto simp: emitted_def block_coll_def is_alias_def opened_def filled_def)
qed

theorem node_emits: "node_ok n \<Longrightarrow> emits st ofs n"
proof (induction n rule: node_ok.induct)
  case (1 e)
  then show ?case using scalar_emitted by (fastforce simp: emits_def emitted_def st_then_def)
next
  case (2 e)
  then show ?case using alias_emitted by (fastforce simp: emits_def emitted_def st_then_def)
next
  case (3 e ns e')
  then show ?case by (intro sequence_emits) (auto simp: list_all_iff)
next
  case (4 e kvs e')
  then show ?case by (intro mapping_emits) (auto simp: list_all_iff)
qed

end
