(* ===== verification/OylEmitProps.thy ===== *)
theory OylEmitProps
  imports OylPrinter
begin

text \<open>
  The properties of the emitter: it prints what \<open>render\<close> says; it is memory safe whichever
  allocations fail; which statuses it returns; what \<open>choose_style\<close> guarantees.
\<close>

section \<open>A stream of documents\<close>

type_synonym oyl_doc = "oyl_event \<times> oyl_node \<times> oyl_event"

fun doc_ok :: "oyl_doc \<Rightarrow> bool" where
  "doc_ok (s, n, t) = (evt_type s = OYL_EVT_DOC_START \<and> node_ok n \<and> evt_type t = OYL_EVT_DOC_END)"

fun doc_events :: "oyl_doc \<Rightarrow> oyl_event list" where
  "doc_events (s, n, t) = s # node_events n @ [t]"

definition stream_events :: "oyl_doc list \<Rightarrow> oyl_event list" where
  "stream_events docs =
    plain_event OYL_EVT_STREAM_START # concat (map doc_events docs) @ [plain_event OYL_EVT_STREAM_END]"

text \<open>The text of a document after \<open>out\<close>, and of a stream.\<close>

fun doc_text :: "oyl_emit_style \<Rightarrow> int \<Rightarrow> byte list \<Rightarrow> oyl_doc \<Rightarrow> byte list" where
  "doc_text st ofs out (s, n, t) =
    (let out = (if evt_implicit s then out else fresh out @ [DASH, DASH, DASH]);
         out = render st ofs AtRoot out n
     in if evt_implicit t then out else fresh out @ [DOT, DOT, DOT, LF])"

definition stream_text :: "oyl_emit_style \<Rightarrow> int \<Rightarrow> oyl_doc list \<Rightarrow> byte list" where
  "stream_text st ofs docs = fresh (foldl (doc_text st ofs) [] docs)"

text \<open>Between two documents; before the first one the buffer is empty.\<close>

definition between :: "oyl_emit_style \<Rightarrow> int \<Rightarrow> oyl_emitter \<Rightarrow> bool" where
  "between st ofs e \<longleftrightarrow> ready st ofs AtRoot e \<and> (em_first_doc e \<longrightarrow> em_buf e = [])"

lemma emitted_root:
  assumes "ready st ofs AtRoot e" and "emitted st ofs AtRoot n e (OYL_OK, h)"
  shows "ready st ofs AtRoot h"
  using assms by (auto simp: ready_def emitted_def stepped_def)

section \<open>Memory safety\<close>

text \<open>What is written fits in the arrays.\<close>

definition emitter_inv :: "oyl_emitter \<Rightarrow> bool" where
  "emitter_inv e \<longleftrightarrow> length (em_buf e) \<le> em_cap e \<and> length (em_stack e) \<le> em_stack_cap e"

text \<open>
  What every step of an event keeps, whether or not an allocation fails: the invariant, the options,
  the types of the open contexts; and it does not report an invalid sequence.
\<close>

definition safe_op :: "oyl_emitter \<Rightarrow> oyl_status \<times> oyl_emitter \<Rightarrow> bool" where
  "safe_op e r \<longleftrightarrow> (fst r = OYL_OK \<or> fst r = OYL_ERR_MEMORY) \<and> (emitter_inv e \<longrightarrow> emitter_inv (snd r)) \<and>
     em_opts (snd r) = em_opts e \<and> em_first_doc (snd r) = em_first_doc e \<and>
     map ctx_type (em_stack (snd r)) = map ctx_type (em_stack e)"

lemma safe_ok [intro]: "safe_op e (OYL_OK, e)"
  by (simp add: safe_op_def)

lemma safe_then:
  assumes "safe_op e r" and "\<And>f. safe_op f (k f)"
  shows "safe_op e (st_then r k)"
  using assms(1) assms(2) [of "snd r"] by (auto simp: safe_op_def st_then_def)

text \<open>The last step may also change flags and contexts.\<close>

lemma safe_return:
  assumes "safe_op e r" and "\<And>f. safe_op f (OYL_OK, g f)"
  shows "safe_op e (st_then r (\<lambda>f. (OYL_OK, g f)))"
  using assms by (rule safe_then)

lemma safe_ensure: "safe_op e (buf_ensure e n)"
  by (auto simp: safe_op_def buf_ensure_def emitter_inv_def Let_def split: prod.splits)

lemma ensure_room: "fst (buf_ensure e n) = OYL_OK \<Longrightarrow> length (em_buf (snd (buf_ensure e n))) + n \<le> em_cap (snd (buf_ensure e n))"
  by (auto simp: buf_ensure_def Let_def split: prod.splits if_splits)

lemma safe_puts [intro]: "safe_op e (buf_puts e s)"
  using safe_ensure [of e "length s"] ensure_room [of e "length s"]
  by (auto simp: buf_puts_def st_then_def safe_op_def emitter_inv_def)

lemma safe_put [intro]: "safe_op e (buf_put e c)"
  by (simp add: buf_put_puts safe_puts)

lemma safe_indent [intro]: "safe_op e (buf_indent e n)"
proof -
  have "safe_op f (OYL_OK, f) \<and> buf_indent e n = (if n \<le> 0 then (OYL_OK, e) else buf_puts e (spaces n))" for f
    using LF_not_spaces [of n] by (auto simp: buf_indent_def buf_puts_def spaces_def)
  then show ?thesis by auto
qed

lemma safe_if [intro]: "(b \<Longrightarrow> safe_op e r) \<Longrightarrow> (\<not> b \<Longrightarrow> safe_op e q) \<Longrightarrow> safe_op e (if b then r else q)"
  by simp

lemma safe_each [intro]: "(\<And>f c. safe_op f (op f c)) \<Longrightarrow> safe_op e (emit_each op cs e)"
  by (induction cs arbitrary: e) (auto intro: safe_then)

lemma safe_update [intro]:
  "safe_op e (OYL_OK, e\<lparr>em_after_seq_dash := b\<rparr>)" "safe_op e (OYL_OK, e\<lparr>em_key_was_alias := b\<rparr>)"
  "safe_op e (OYL_OK, e\<lparr>em_wrote_block_key := b\<rparr>)" "safe_op e (OYL_OK, e\<lparr>em_doc_open := b\<rparr>)"
  "safe_op e (OYL_OK, drop_space e)" "(\<And>c. ctx_type (f c) = ctx_type c) \<Longrightarrow> safe_op e (OYL_OK, set_top e f)"
  by (auto simp: safe_op_def emitter_inv_def drop_space_def set_top_def split: list.splits)

lemma safe_before:
  "safe_op (e\<lparr>em_wrote_props := b\<rparr>) r \<Longrightarrow> safe_op e r" "safe_op (e\<lparr>em_key_was_alias := b\<rparr>) r \<Longrightarrow> safe_op e r"
  by (simp_all add: safe_op_def emitter_inv_def)

lemma safe_fresh [intro]: "safe_op e (fresh_line e)"
  by (auto simp: fresh_line_def)

lemma safe_single_quoted [intro]: "safe_op e (emit_single_quoted e s)"
  unfolding emit_single_quoted_def sq_byte_def by (intro safe_then safe_put safe_each safe_if safe_puts)

lemma safe_double_quoted [intro]: "safe_op e (emit_double_quoted e s)"
  unfolding emit_double_quoted_def dq_byte_def by (intro safe_then safe_put safe_each safe_if safe_puts)

lemma safe_literal_lines: "safe_op e (literal_lines indent body e)"
proof (induction indent body e rule: literal_lines.induct)
  case (1 indent body e)
  show ?case
  proof (cases "body = []")
    case True
    then show ?thesis by (auto simp: literal_lines.simps)
  next
    case False
    have "safe_op f (literal_lines indent (drop (length (takeWhile (\<lambda>c. c \<noteq> LF) body) + 1) body) f)" for f
      by (rule "1.IH" [OF False refl])
    with False show ?thesis
      by (subst literal_lines.simps) (auto simp: Let_def intro!: safe_then)
  qed
qed

lemma safe_literal [intro]: "safe_op e (emit_block_scalar e s indent)"
  unfolding emit_block_scalar_def Let_def by (intro safe_then safe_puts safe_literal_lines safe_each safe_put)

lemma safe_scalar [intro]: "safe_op e (emit_scalar e evt)"
  unfolding emit_scalar_def emit_plain_def Let_def
  by (cases "choose_style (evt_scalar_style evt) (str_bytes (evt_value evt))
      (in_any_flow e \<or> opt_style (em_opts e) \<noteq> OYL_EMIT_BLOCK)
      (case top_ctx e of None \<Rightarrow> False | Some c \<Rightarrow> is_map_ctx c \<and> ctx_expect_key c) (evt_tag evt)")
    (simp_all add: safe_ok safe_put safe_puts safe_update safe_single_quoted safe_double_quoted safe_literal)

lemma safe_props [intro]: "safe_op e (emit_props e evt)"
proof -
  have "safe_op f (emit_anchor f a)" for f a
    unfolding emit_anchor_def Let_def by (intro safe_if safe_ok safe_then safe_put safe_puts)
  moreover have "safe_op f (emit_tag f t)" for f t
    unfolding emit_tag_def verbatim_byte_def Let_def
    by (intro safe_if safe_ok safe_then safe_put safe_puts safe_each)
  ultimately show ?thesis
    unfolding emit_props_def by - (rule safe_before(1), rule safe_then)
qed

lemma safe_block_props [intro]: "safe_op e (emit_block_collection_props e evt b)"
  unfolding emit_block_collection_props_def
  by (intro safe_if safe_ok safe_then safe_put safe_props safe_update(5))

lemma safe_complex_key [intro]: "safe_op e (emit_complex_key_open e evt)"
proof -
  have "safe_op f (OYL_OK, (set_top f (ctx_complex_key_update (\<lambda>_. True)))\<lparr>em_after_seq_dash := False\<rparr>)" for f
    using safe_update(6) [of "ctx_complex_key_update (\<lambda>_. True)" f] by (simp add: safe_op_def emitter_inv_def)
  then show ?thesis
    unfolding emit_complex_key_open_def by (intro safe_then safe_put safe_block_props)
qed

lemma safe_pre_node [intro]: "safe_op e (emit_pre_node e b)"
proof -
  have asp: "safe_op f (alias_space f)" for f
    unfolding alias_space_def by (intro safe_if safe_ok safe_then safe_put safe_update)
  have key: "safe_op f (pre_block_key f i)" for f i
    unfolding pre_block_key_def by (intro safe_if safe_ok safe_then safe_put safe_indent)
  have "safe_op f (OYL_OK, set_top f (ctx_complex_key_update (\<lambda>_. False)))" for f
    by (rule safe_update(6)) simp
  then have "safe_op f (pre_block_value f c b)" for f c
    unfolding pre_block_value_def
    by (intro safe_if safe_ok safe_then safe_fresh safe_indent safe_puts asp safe_update(3))
  with asp key show ?thesis
    by (auto simp: emit_pre_node_def intro!: safe_then split: option.splits emit_ctx_type.splits)
qed

lemma safe_advance [intro]: "safe_op e (OYL_OK, advance_ctx e)"
  by (auto simp: safe_op_def emitter_inv_def advance_ctx_def top_ctx_def set_top_def Let_def split: list.splits)

text \<open>Opening a collection adds one context.\<close>

definition adds_ctx :: "emit_ctx_type set \<Rightarrow> oyl_emitter \<Rightarrow> oyl_status \<times> oyl_emitter \<Rightarrow> bool" where
  "adds_ctx ts e r \<longleftrightarrow> (fst r = OYL_OK \<or> fst r = OYL_ERR_MEMORY) \<and> (emitter_inv e \<longrightarrow> emitter_inv (snd r)) \<and>
     em_opts (snd r) = em_opts e \<and> em_first_doc (snd r) = em_first_doc e \<and>
     (if fst r = OYL_OK then \<exists>t \<in> ts. map ctx_type (em_stack (snd r)) = t # map ctx_type (em_stack e)
      else map ctx_type (em_stack (snd r)) = map ctx_type (em_stack e))"

lemma adds_ctx_after:
  assumes "safe_op e r" and "\<And>f. adds_ctx ts f (k f)"
  shows "adds_ctx ts e (st_then r k)"
  using assms(1) assms(2) [of "snd r"] by (auto simp: adds_ctx_def safe_op_def st_then_def)

lemma adds_ctx_push: "t \<in> ts \<Longrightarrow> adds_ctx ts e (push_ctx e t i)"
  by (auto simp: adds_ctx_def push_ctx_def st_then_def emitter_inv_def Let_def split: prod.splits)

lemma adds_ctx_parent:
  assumes "adds_ctx ts e r"
  shows "adds_ctx ts e (st_then r (\<lambda>f. (OYL_OK, advance_parent f)))"
proof (cases "fst r = OYL_OK")
  case True
  then obtain c cs where c: "em_stack (snd r) = c # cs" using assms by (auto simp: adds_ctx_def)
  have "safe_op (snd r) (OYL_OK, advance_parent (snd r))"
    using c safe_advance [of "(snd r)\<lparr>em_stack := cs\<rparr>"]
    by (cases cs) (auto simp: safe_op_def emitter_inv_def advance_parent_def advance_ctx_def top_ctx_def set_top_def Let_def)
  with True assms show ?thesis by (auto simp: st_then_def adds_ctx_def safe_op_def)
next
  case False
  with assms show ?thesis by (simp add: st_then_def)
qed

lemma adds_ctx_if: "(b \<Longrightarrow> adds_ctx ts e r) \<Longrightarrow> (\<not> b \<Longrightarrow> adds_ctx ts e q) \<Longrightarrow> adds_ctx ts e (if b then r else q)"
  by simp

lemma start_adds_ctx:
  "adds_ctx {EMIT_CTX_FLOW_MAP, EMIT_CTX_BLOCK_MAP} e (emit_mapping_start e evt)"
  "adds_ctx {EMIT_CTX_FLOW_SEQ, EMIT_CTX_BLOCK_SEQ} e (emit_sequence_start e evt)"
proof -
  have push: "adds_ctx {t, t'} f (if b then st_then (buf_put f c) (\<lambda>e. push_ctx e t 0) else push_ctx f t' i)"
    for t t' f b c i
    by (intro adds_ctx_if adds_ctx_after [OF safe_put] adds_ctx_push insertI1 insertI2)
  have reset: "safe_op f (OYL_OK, if b f then f\<lparr>em_after_seq_dash := False\<rparr> else f)" for f b
    by (simp add: safe_ok safe_update)
  show "adds_ctx {EMIT_CTX_FLOW_MAP, EMIT_CTX_BLOCK_MAP} e (emit_mapping_start e evt)"
    unfolding emit_mapping_start_def Let_def
    by (rule adds_ctx_after [OF safe_pre_node], rule adds_ctx_after,
        intro safe_if safe_complex_key safe_props safe_then safe_block_props reset)
      (rule adds_ctx_parent [OF push])
  show "adds_ctx {EMIT_CTX_FLOW_SEQ, EMIT_CTX_BLOCK_SEQ} e (emit_sequence_start e evt)"
    unfolding emit_sequence_start_def Let_def
    by (rule adds_ctx_after [OF safe_pre_node], rule adds_ctx_after,
        intro safe_if safe_complex_key safe_props safe_block_props)
      (rule adds_ctx_parent [OF push])
qed

lemma safe_document_end: "safe_op e (emit_document_end e evt)"
  unfolding emit_document_end_def by (intro safe_then safe_if safe_fresh safe_puts safe_ok safe_update)

text \<open>The start of a document is safe up to the flag for the first one.\<close>

lemma document_start_inv: "emitter_inv e \<Longrightarrow> emitter_inv (snd (emit_document_start e evt))"
  and document_start_status: "fst (emit_document_start e evt) \<noteq> OYL_ERR_EMIT"
proof -
  let ?r = "if \<not> evt_implicit evt
      then st_then (if \<not> em_first_doc e then fresh_line e else (OYL_OK, e)) (\<lambda>e. buf_puts e [DASH, DASH, DASH])
      else (OYL_OK, e)"
  have r: "safe_op e ?r" by (intro safe_then safe_if safe_fresh safe_puts safe_ok)
  show "emitter_inv (snd (emit_document_start e evt))" if "emitter_inv e"
    using r that unfolding emit_document_start_def safe_op_def by (simp add: st_then_def emitter_inv_def)
  show "fst (emit_document_start e evt) \<noteq> OYL_ERR_EMIT"
    using r unfolding emit_document_start_def safe_op_def by (auto simp: st_then_def)
qed

lemma safe_scalar_event: "safe_op e (emit_scalar_event e evt)"
  unfolding emit_scalar_event_def by (intro safe_then safe_pre_node safe_props safe_scalar safe_advance)

lemma safe_alias_event: "safe_op e (emit_alias_event e evt)"
  unfolding emit_alias_event_def
  by (intro safe_then safe_pre_node safe_puts safe_advance) (rule safe_before(2), rule safe_put)

text \<open>Closing a collection removes a context; with none open it is an error.\<close>

lemma collection_end:
  assumes "r = emit_collection_end e t closer brackets"
  shows "emitter_inv e \<Longrightarrow> emitter_inv (snd r)" and "fst r = OYL_ERR_EMIT \<longleftrightarrow> em_stack e = []"
    and "fst r = OYL_OK \<Longrightarrow> map ctx_type (em_stack (snd r)) = tl (map ctx_type (em_stack e))"
proof -
  show *: "emitter_inv e \<Longrightarrow> emitter_inv (snd r)" "fst r = OYL_ERR_EMIT \<longleftrightarrow> em_stack e = []"
    "fst r = OYL_OK \<Longrightarrow> map ctx_type (em_stack (snd r)) = tl (map ctx_type (em_stack e))"
  proof (atomize (full), cases "em_stack e")
    case Nil
    then show "(emitter_inv e \<longrightarrow> emitter_inv (snd r)) \<and> (fst r = OYL_ERR_EMIT) = (em_stack e = []) \<and>
        (fst r = OYL_OK \<longrightarrow> map ctx_type (em_stack (snd r)) = tl (map ctx_type (em_stack e)))"
      using assms by (simp add: emit_collection_end_def top_ctx_def)
  next
    case (Cons c cs)
    let ?q = "if ctx_type c = t then buf_put e closer
       else if ctx_count c = 0 then
         st_then (if em_buf e \<noteq> [] \<and> last (em_buf e) \<noteq> SP \<and> last (em_buf e) \<noteq> LF then buf_put e SP else (OYL_OK, e))
           (\<lambda>e. buf_puts e brackets)
       else (OYL_OK, e)"
    have q: "safe_op e ?q" by (intro safe_if safe_then safe_put safe_puts safe_ok)
    have r: "r = st_then ?q (\<lambda>e. (OYL_OK, (pop_ctx e)\<lparr>em_after_seq_dash := False\<rparr>))"
      using assms Cons by (simp add: emit_collection_end_def top_ctx_def)
    show "(emitter_inv e \<longrightarrow> emitter_inv (snd r)) \<and> (fst r = OYL_ERR_EMIT) = (em_stack e = []) \<and>
        (fst r = OYL_OK \<longrightarrow> map ctx_type (em_stack (snd r)) = tl (map ctx_type (em_stack e)))"
      using q Cons unfolding r safe_op_def
      by (auto simp: st_then_def pop_ctx_def emitter_inv_def map_tl)
  qed
qed

lemma adds_ctx_fields: "adds_ctx ts e r \<Longrightarrow> (emitter_inv e \<longrightarrow> emitter_inv (snd r)) \<and> fst r \<noteq> OYL_ERR_EMIT"
  by (auto simp: adds_ctx_def)

lemma safe_fields: "safe_op e r \<Longrightarrow> (emitter_inv e \<longrightarrow> emitter_inv (snd r)) \<and> fst r \<noteq> OYL_ERR_EMIT"
  by (auto simp: safe_op_def)

lemma emit_inv: "emitter_inv e \<Longrightarrow> emitter_inv (snd (oyl_emit e evt))"
  using safe_fields [OF safe_fresh, of e] safe_fields [OF safe_document_end, of e evt] document_start_inv [of e evt]
    safe_fields [OF safe_scalar_event, of e evt] safe_fields [OF safe_alias_event, of e evt]
    adds_ctx_fields [OF start_adds_ctx(1), of e evt] adds_ctx_fields [OF start_adds_ctx(2), of e evt]
    collection_end(1) [OF refl, of e]
  by (cases "evt_type evt") (auto simp: oyl_emit_def emitter_inv_def)

lemma emit_error_iff:
  "fst (oyl_emit e evt) = OYL_ERR_EMIT \<longleftrightarrow>
     evt_type evt = OYL_EVT_NONE \<or>
     (evt_type evt = OYL_EVT_MAPPING_END \<or> evt_type evt = OYL_EVT_SEQUENCE_END) \<and> em_stack e = []"
  using safe_fields [OF safe_fresh, of e] safe_fields [OF safe_document_end, of e evt] document_start_status [of e evt]
    safe_fields [OF safe_scalar_event, of e evt] safe_fields [OF safe_alias_event, of e evt]
    adds_ctx_fields [OF start_adds_ctx(1), of e evt] adds_ctx_fields [OF start_adds_ctx(2), of e evt]
    collection_end(2) [OF refl, of e]
  by (cases "evt_type evt") (auto simp: oyl_emit_def)

lemma emitter_new_inv: "oyl_emitter_new m = Some e \<Longrightarrow> emitter_inv e"
  by (auto simp: oyl_emitter_new_def emitter_inv_def Let_def split: prod.splits if_splits)

text \<open>The states a client can bring an emitter into: it may go on after an error, and set options at any time.\<close>

inductive emit_reach :: "oyl_emitter \<Rightarrow> oyl_emitter \<Rightarrow> bool" where
  reach_refl: "emit_reach e e"
| reach_emit: "emit_reach e f \<Longrightarrow> emit_reach e (snd (oyl_emit f evt))"
| reach_style: "emit_reach e f \<Longrightarrow> emit_reach e (oyl_emitter_set_style f st)"
| reach_indent: "emit_reach e f \<Longrightarrow> emit_reach e (oyl_emitter_set_indent f n)"

lemma emit_reach_inv: "emit_reach e f \<Longrightarrow> emitter_inv e \<Longrightarrow> emitter_inv f"
  by (induction rule: emit_reach.induct)
    (auto simp: emit_inv, auto simp: oyl_emitter_set_style_def oyl_emitter_set_indent_def emitter_inv_def Let_def)

section \<open>Properties\<close>

text \<open>
  C35: whatever events a client sends, in whatever order and with whatever options, and whichever
  allocations fail, the emitter never writes past its output buffer nor its stack of contexts.
\<close>

theorem emitter_in_bounds:
  assumes "oyl_emitter_new m = Some e" and "emit_reach e f"
  shows "length (em_buf f) \<le> em_cap f \<and> length (em_stack f) \<le> em_stack_cap f"
  using emit_reach_inv [OF assms(2) emitter_new_inv [OF assms(1)]] by (simp add: emitter_inv_def)

theorem emitter_in_bounds_witness:
  "length (em_buf (snd (oyl_emit (the (oyl_emitter_new [])) (plain_event OYL_EVT_ALIAS)))) \<le>
   em_cap (snd (oyl_emit (the (oyl_emitter_new [])) (plain_event OYL_EVT_ALIAS)))"
proof -
  obtain e where e: "oyl_emitter_new [] = Some e" by (simp add: oyl_emitter_new_def)
  from emitter_in_bounds [OF e reach_emit [OF reach_refl], of "plain_event OYL_EVT_ALIAS"]
  show ?thesis by (simp add: e)
qed

text \<open>
  C36: \<open>oyl_emit\<close> reports an invalid sequence of events exactly for an event without a type and for
  the end of a collection when none is open. In particular the end of a mapping closes an open
  sequence, and an odd number of nodes in a mapping passes, without an error.
\<close>

theorem emit_error_cases:
  "fst (oyl_emit e evt) = OYL_ERR_EMIT \<longleftrightarrow>
     evt_type evt = OYL_EVT_NONE \<or>
     (evt_type evt = OYL_EVT_MAPPING_END \<or> evt_type evt = OYL_EVT_SEQUENCE_END) \<and> em_stack e = []"
  by (rule emit_error_iff)

lemma emit_all_first_doc:
  "node_ok n \<Longrightarrow> em_first_doc (snd (emit_all (node_events n) e)) = em_first_doc e"
proof -
  have one: "em_first_doc (snd (oyl_emit e evt)) = em_first_doc e"
    if "evt_type evt \<noteq> OYL_EVT_STREAM_START" "evt_type evt \<noteq> OYL_EVT_DOC_START" for e evt
  proof -
    have fd: "safe_op e r \<Longrightarrow> em_first_doc (snd r) = em_first_doc e" "adds_ctx ts e r \<Longrightarrow> em_first_doc (snd r) = em_first_doc e"
      for r ts by (simp_all add: safe_op_def adds_ctx_def)
    have "em_first_doc (snd (emit_collection_end e t c b)) = em_first_doc e" for t c b
    proof (cases "top_ctx e")
      case (Some ctx)
      have "safe_op e (if ctx_type ctx = t then buf_put e c
         else if ctx_count ctx = 0 then
           st_then (if em_buf e \<noteq> [] \<and> last (em_buf e) \<noteq> SP \<and> last (em_buf e) \<noteq> LF then buf_put e SP else (OYL_OK, e))
             (\<lambda>e. buf_puts e b)
         else (OYL_OK, e))"
        by (intro safe_if safe_then safe_put safe_puts safe_ok)
      with Some show ?thesis by (simp add: emit_collection_end_def st_then_def pop_ctx_def safe_op_def)
    qed (simp add: emit_collection_end_def)
    with that fd(1) [OF safe_fresh] fd(1) [OF safe_document_end] fd(1) [OF safe_scalar_event]
      fd(1) [OF safe_alias_event] fd(2) [OF start_adds_ctx(1)] fd(2) [OF start_adds_ctx(2)]
    show ?thesis by (cases "evt_type evt") (auto simp: oyl_emit_def)
  qed
  have all: "em_first_doc (snd (emit_all evs e)) = em_first_doc e"
    if "\<And>evt. evt \<in> set evs \<Longrightarrow> evt_type evt \<noteq> OYL_EVT_STREAM_START \<and> evt_type evt \<noteq> OYL_EVT_DOC_START" for evs e
    using that by (induction evs arbitrary: e) (auto simp: st_then_def one)
  have "evt \<in> set (node_events n) \<Longrightarrow> evt_type evt \<noteq> OYL_EVT_STREAM_START \<and> evt_type evt \<noteq> OYL_EVT_DOC_START"
    if "node_ok n" for evt n
    using that
  proof (induction n rule: node_ok.induct)
    case (4 e kvs e')
    then show ?case by (fastforce simp: list_all_iff)
  qed (auto simp: list_all_iff)
  then show "node_ok n \<Longrightarrow> ?thesis" using all by blast
qed

lemma doc_emitted:
  assumes "between st ofs e" and "doc_ok d"
  shows "\<exists>h. emit_all (doc_events d) e = (OYL_OK, h) \<and> between st ofs h \<and> em_buf h = doc_text st ofs (em_buf e) d"
proof -
  obtain s n t where d: "d = (s, n, t)" using prod_cases3 by blast
  have ok: "evt_type s = OYL_EVT_DOC_START" "node_ok n" "evt_type t = OYL_EVT_DOC_END" using assms(2) d by simp_all
  have r: "ready st ofs AtRoot e" and nf: "no_fail e" and fd: "em_first_doc e \<longrightarrow> em_buf e = []"
    using assms(1) by (simp_all add: between_def ready_def)
  have lead: "\<exists>f. oyl_emit e s = (OYL_OK, f) \<and> ready st ofs AtRoot f \<and> \<not> em_first_doc f \<and>
      em_buf f = (if evt_implicit s then em_buf e else fresh (em_buf e) @ [DASH, DASH, DASH])"
    using r nf fd by (auto simp: oyl_emit_def ok emit_document_start_def emit_simps ready_def fresh_def)
  then obtain f where f: "oyl_emit e s = (OYL_OK, f)" "ready st ofs AtRoot f" "\<not> em_first_doc f"
    "em_buf f = (if evt_implicit s then em_buf e else fresh (em_buf e) @ [DASH, DASH, DASH])" by blast
  from node_emits [OF ok(2)] f(2) obtain g where g: "emit_all (node_events n) f = (OYL_OK, g)"
    "emitted st ofs AtRoot n f (OYL_OK, g)" by (rule emitsE)
  have rg: "ready st ofs AtRoot g" using f(2) g(2) by (rule emitted_root)
  have fg: "\<not> em_first_doc g" using emit_all_first_doc [OF ok(2), of f] f(3) g(1) by simp
  have "\<exists>h. oyl_emit g t = (OYL_OK, h) \<and> between st ofs h \<and>
      em_buf h = (if evt_implicit t then em_buf g else fresh (em_buf g) @ [DOT, DOT, DOT, LF])"
    using rg fg by (auto simp: oyl_emit_def ok emit_document_end_def emit_simps ready_def between_def)
  then show ?thesis
    using f g by (auto simp: d emit_all_append emitted_def Let_def)
qed

lemma docs_emitted:
  assumes "between st ofs e" and "list_all doc_ok docs"
  shows "\<exists>h. emit_all (concat (map doc_events docs)) e = (OYL_OK, h) \<and> between st ofs h \<and>
    em_buf h = foldl (doc_text st ofs) (em_buf e) docs"
  using assms
proof (induction docs arbitrary: e)
  case (Cons d docs)
  then obtain g where "emit_all (doc_events d) e = (OYL_OK, g)" "between st ofs g"
    "em_buf g = doc_text st ofs (em_buf e) d" using doc_emitted [of st ofs e d] by auto
  with Cons.IH [of g] Cons.prems show ?case by (auto simp: emit_all_append)
qed simp

lemma stream_emitted:
  assumes "oyl_emitter_new m = Some e" and "list_all id m" and "list_all doc_ok docs"
    and "f = oyl_emitter_set_indent (oyl_emitter_set_style e st) n"
  shows "\<exists>h. emit_all (stream_events docs) f = (OYL_OK, h) \<and> em_stack h = [] \<and>
    em_buf h = stream_text st (max 1 (min 10 n)) docs"
proof -
  have ofs: "opt_indent (em_opts f) = max 1 (min 10 n)"
    by (simp add: assms(4) oyl_emitter_set_indent_def Let_def)
  have nf: "no_fail e" using assms(1,2) mem_take_ok [of m] mem_take_ok [of "tl m"] mem_take_ok [of "tl (tl m)"]
    by (auto simp: oyl_emitter_new_def no_fail_def Let_def split: prod.splits if_splits)
  then have "between st (max 1 (min 10 n)) (f\<lparr>em_first_doc := True\<rparr>)"
    using assms(1) ofs
    by (auto simp: between_def ready_def assms(4) oyl_emitter_set_indent_def oyl_emitter_set_style_def
        oyl_emitter_new_def Let_def split: prod.splits if_splits)
  from docs_emitted [OF this assms(3)] obtain h where
    h: "emit_all (concat (map doc_events docs)) (f\<lparr>em_first_doc := True\<rparr>) = (OYL_OK, h)"
    "between st (max 1 (min 10 n)) h" "em_buf h = foldl (doc_text st (max 1 (min 10 n))) (em_buf f) docs" by auto
  have "em_buf f = []"
    using assms(1,4) by (auto simp: oyl_emitter_set_indent_def oyl_emitter_set_style_def oyl_emitter_new_def Let_def
        split: prod.splits if_splits)
  with h show ?thesis
    by (simp add: stream_events_def emit_all_append oyl_emit_def plain_event_def emit_simps between_def ready_def
        stream_text_def)
qed

text \<open>
  C2: the emitter prints the tree. Fed the events of a stream one by one (any documents, any nesting
  of mappings, sequences, scalars and aliases, with anchors and tags, in any of the three styles and
  any indentation), it accepts every event, closes every context it opened, and its output is the
  text of the recursive printer.
\<close>

theorem emitter_prints_tree:
  assumes "oyl_emitter_new m = Some e" and "list_all id m" and "list_all doc_ok docs"
    and "f = oyl_emitter_set_indent (oyl_emitter_set_style e st) n"
  shows "\<exists>h. emit_all (stream_events docs) f = (OYL_OK, h) \<and> em_stack h = [] \<and>
    em_buf h = stream_text st (max 1 (min 10 n)) docs"
  using assms by (rule stream_emitted)

text \<open>The mapping \<open>a: [b]\<close> in block style.\<close>

definition example_doc :: oyl_doc where
  "example_doc =
    (let scalar = (\<lambda>s. NScalar ((plain_event OYL_EVT_SCALAR)\<lparr>evt_value := Some s\<rparr>))
     in ((plain_event OYL_EVT_DOC_START)\<lparr>evt_implicit := True\<rparr>,
         NMap (plain_event OYL_EVT_MAPPING_START)
           [(scalar [0x61], NSeq ((plain_event OYL_EVT_SEQUENCE_START)\<lparr>evt_flow := True\<rparr>) [scalar [0x62]]
              (plain_event OYL_EVT_SEQUENCE_END))]
           (plain_event OYL_EVT_MAPPING_END),
         (plain_event OYL_EVT_DOC_END)\<lparr>evt_implicit := True\<rparr>))"

theorem emitter_prints_tree_witness:
  "\<exists>h. emit_all (stream_events [example_doc]) (the (oyl_emitter_new [])) = (OYL_OK, h) \<and>
     em_buf h = [0x61, COLON, SP, LBRACK, 0x62, RBRACK, LF]"
proof -
  obtain e where e: "oyl_emitter_new [] = Some e" by (simp add: oyl_emitter_new_def)
  have f: "e = oyl_emitter_set_indent (oyl_emitter_set_style e OYL_EMIT_BLOCK) 2"
    using e by (auto simp: oyl_emitter_new_def oyl_emitter_set_indent_def oyl_emitter_set_style_def)
  have "list_all doc_ok [example_doc]" by code_simp
  moreover have "stream_text OYL_EMIT_BLOCK 2 [example_doc] = [0x61, COLON, SP, LBRACK, 0x62, RBRACK, LF]" by code_simp
  ultimately show ?thesis
    using emitter_prints_tree [OF e _ _ f, of "[example_doc]"] by (auto simp: e)
qed

section \<open>Scalars tagged as strings\<close>

text \<open>Every text the schema's matchers take for a number also looks like one to the emitter.\<close>

lemma number_chars_digits:
  "list_all is_dec ds \<Longrightarrow> (\<And>q. number_chars d e q r) \<Longrightarrow> number_chars d e p (ds @ r)"
  by (induction ds arbitrary: p) (auto simp: is_dec_def)

lemma digits_then_rest: "\<exists>ds. s = ds @ skip_digits s \<and> list_all is_dec ds"
proof -
  have "list_all is_dec (takeWhile is_dec s)" by (auto simp: list_all_iff dest: set_takeWhileD)
  then show ?thesis by (metis skip_digits_def takeWhile_dropWhile_id)
qed

lemma number_chars_skip: "(\<And>q. number_chars d e q (skip_digits s)) \<Longrightarrow> number_chars d e p s"
proof -
  assume r: "\<And>q. number_chars d e q (skip_digits s)"
  obtain ds where "s = ds @ skip_digits s" "list_all is_dec ds" using digits_then_rest by blast
  then show ?thesis using number_chars_digits [of ds d e "skip_digits s" p] r by metis
qed

lemma number_chars_all: "list_all is_dec s \<Longrightarrow> number_chars d e p s"
  using number_chars_digits [of s d e "[]" p] by simp

lemma number_chars_exponent:
  assumes "match_exponent t = Some ([], b)"
  shows "number_chars d False p t"
proof (cases t)
  case (Cons c r)
  let ?r = "skip_sign r"
  have c: "c = LC_E \<or> c = UC_E" and r: "?r \<noteq> []" "is_dec (hd ?r)" "skip_digits (tl ?r) = []"
    using assms Cons by (auto simp: match_exponent_def Let_def split: if_splits)
  have digits: "number_chars d True q ?r" for q
    using r number_chars_skip [of d True "tl ?r"] by (cases ?r) (auto simp: is_dec_def)
  have "number_chars d True (Some c) r"
    using digits [of "Some (hd r)"] digits [of "Some c"] c by (cases r) (auto simp: skip_sign_def split: if_splits)
  with c Cons show ?thesis by auto
qed simp

lemma number_chars_float:
  assumes "match_mantissa s = Some (t, b)" and "match_exponent t = Some ([], c)"
  shows "number_chars False False p s"
proof -
  have ex: "number_chars d False q t" for d q using number_chars_exponent [OF assms(2)] .
  obtain x r where s: "s = x # r" using assms(1) by (cases s) (auto simp: match_mantissa_def)
  consider "x = DOT" "is_dec (hd r)" "r \<noteq> []" "t = skip_digits (tl r)"
    | "is_dec x" "t = skip_digits s"
    | u where "is_dec x" "skip_digits s = DOT # u" "t = skip_digits u"
    using assms(1) s by (auto simp: match_mantissa_def Let_def split: if_splits list.splits)
  then show ?thesis
  proof cases
    case 1
    then have "number_chars True False q r" for q
      using number_chars_skip [of True False "tl r"] ex by (cases r) (auto simp: is_dec_def)
    with 1 s show ?thesis by simp
  next
    case 2
    then show ?thesis using number_chars_skip [of False False s p] ex by simp
  next
    case 3
    then have "number_chars True False q u" for q using number_chars_skip [of True False u q] ex by simp
    then have "number_chars False False q (skip_digits s)" for q using 3(2) by simp
    then show ?thesis by (rule number_chars_skip)
  qed
qed

lemma looks_like_number_body:
  assumes "s \<noteq> []" and "skip_sign s \<noteq> []" and "\<And>p. number_chars False False p (skip_sign s)"
  shows "looks_like_number s"
  using assms by (cases s) (auto simp: looks_like_number_def skip_sign_def Let_def split: if_splits)

lemma int_looks_like_number: "match_int s \<Longrightarrow> looks_like_number s"
proof -
  assume m: "match_int s"
  then have ne: "s \<noteq> []" "skip_sign s \<noteq> []" and b: "match_int_body (skip_sign s)"
    by (auto simp: match_int_def split: if_splits)
  show ?thesis
  proof (cases "1 < length (skip_sign s) \<and> skip_sign s ! 0 = DIGIT_0 \<and> (skip_sign s ! 1 = LC_X \<or> skip_sign s ! 1 = LC_O)")
    case True
    with ne show ?thesis
      by (cases s) (auto simp: looks_like_number_def skip_sign_def Let_def split: if_splits)
  next
    case False
    with b have "list_all is_dec (skip_sign s)"
      by (cases "skip_sign s" rule: match_int_body.cases) (auto split: if_splits)
    with ne show ?thesis by (intro looks_like_number_body number_chars_all)
  qed
qed

lemma float_looks_like_number: "match_float s \<Longrightarrow> is_yaml_keyword s \<or> looks_like_number s"
proof -
  assume m: "match_float s"
  then consider "s = bytes_of ''.nan''" | "skip_sign s = bytes_of ''.inf''" "s \<noteq> []"
    | t u b where "s \<noteq> []" "skip_sign s \<noteq> []" "match_mantissa (skip_sign s) = Some (t, b)" "match_exponent t = Some ([], u)"
    by (auto simp: match_float_def Let_def split: if_splits option.splits prod.splits)
  then show ?thesis
  proof cases
    case 1
    then show ?thesis by (simp add: is_yaml_keyword_def)
  next
    case 2
    then have "s = bytes_of ''.inf'' \<or> s = PLUS # bytes_of ''.inf'' \<or> s = DASH # bytes_of ''.inf''"
      by (cases s) (auto simp: skip_sign_def split: if_splits)
    moreover have "PLUS # bytes_of ''.inf'' = bytes_of ''+.inf''" "DASH # bytes_of ''.inf'' = bytes_of ''-.inf''"
      by (simp_all add: bytes_of_def of_char_def)
    ultimately show ?thesis unfolding is_yaml_keyword_def by force
  next
    case 3
    then show ?thesis using number_chars_float looks_like_number_body by blast
  qed
qed

lemma str_stays_str:
  assumes "choose_style OYL_SCALAR_PLAIN v flow key (Some TAG_STR) = OYL_SCALAR_PLAIN"
  shows "oyl_schema_resolve core_schema (Some v) OYL_SCALAR_PLAIN = Some TAG_STR"
proof -
  have q: "\<not> needs_quoting v flow" "\<not> is_yaml_keyword v" "\<not> looks_like_number v"
    using assms by (auto simp: choose_style_def is_str_tag_def Let_def split: if_splits)
  have "v \<noteq> []" using q(1) by (auto simp: needs_quoting_def)
  moreover have "\<not> match_int v" "\<not> match_float v"
    using int_looks_like_number float_looks_like_number q by blast+
  ultimately show ?thesis
    using q(2)
    by (simp add: oyl_schema_resolve_def core_schema_def core_rules_def schema_of_def rule_matches_def
        is_yaml_keyword_def) (simp add: bytes_of_def)
qed

text \<open>
  C11: a plain scalar that carries the tag \<open>!!str\<close> is written plain only when the core schema, reading
  it back without the tag, still takes it for a string: the emitter's own recognition of keywords
  and numbers covers everything the schema recognises.
\<close>

theorem string_stays_string:
  assumes "choose_style OYL_SCALAR_PLAIN v flow key (Some TAG_STR) = OYL_SCALAR_PLAIN"
  shows "oyl_schema_resolve core_schema (Some v) OYL_SCALAR_PLAIN = Some TAG_STR"
  using assms by (rule str_stays_str)

theorem string_stays_string_witness:
  "oyl_schema_resolve core_schema (Some [0x31, 0x61]) OYL_SCALAR_PLAIN = Some TAG_STR"
proof -
  have "\<not> needs_escape [0x31, 0x61]" "\<not> needs_quoting [0x31, 0x61] False" "\<not> is_yaml_keyword [0x31, 0x61]"
    "\<not> looks_like_number [0x31, 0x61]"
    by code_simp+
  then have "choose_style OYL_SCALAR_PLAIN [0x31, 0x61] False False (Some TAG_STR) = OYL_SCALAR_PLAIN"
    by (simp add: choose_style_def)
  then show ?thesis by (rule string_stays_string)
qed

end
