(* ===== verification/OylRoundTrip.thy ===== *)
theory OylRoundTrip
  imports OylScanner OylEmitProps
begin

text \<open>
  The scanner reads back what the emitter writes: the text \<open>emit_double_quoted\<close>,
  \<open>emit_single_quoted\<close>, \<open>emit_plain\<close> or \<open>emit_tag\<close> appends, with anything after it, is scanned as
  one token with the same value.

  The first section reasons about the cursor by the bytes in front of it, \<open>BUF_AT\<close>: passing
  \<open>n\<close> bytes that are not line feeds is \<open>advance_cols s n\<close>, which drops them.
\<close>

section \<open>The bytes in front of the cursor\<close>

named_theorems ahead \<open>reading the bytes in front of the cursor\<close>

lemma BUF_AT_cols [ahead]: "BUF_AT (advance_cols s n) = drop n (BUF_AT s)"
  by (simp add: BUF_AT_def advance_cols_def add.commute)

lemma cols_cols [ahead]: "advance_cols (advance_cols s m) n = advance_cols s (m + n)"
  by (simp add: advance_cols_def add.assoc)

lemma cols_0 [ahead]: "advance_cols s 0 = s"
  by (simp add: advance_cols_def)

lemma BUF_AT_end: "AT_END s \<longleftrightarrow> BUF_AT s = []"
  by (simp add: AT_END_def BUF_AT_def)

lemma PEEK_ahead: "PEEK s = (case BUF_AT s of [] \<Rightarrow> 0 | c # cs \<Rightarrow> c)"
proof (cases "AT_END s")
  case False
  then show ?thesis using Cons_nth_drop_Suc [of "sc_pos s" "sc_buf s"]
    by (auto simp: PEEK_def BUF_AT_def AT_END_def split: list.splits)
qed (simp add: PEEK_def BUF_AT_def AT_END_def)

lemma PEEK_AT_ahead: "PEEK_AT s n = (if n < length (BUF_AT s) then BUF_AT s ! n else 0)"
  by (auto simp: PEEK_AT_def BUF_AT_def)

lemma ahead_Cons:
  assumes "BUF_AT s = c # cs"
  shows "PEEK s = c" "\<not> AT_END s" "BUF_AT (advance_cols s 1) = cs" "BUF_AT (advance_cols s (Suc 0)) = cs"
  using assms by (simp_all add: PEEK_ahead BUF_AT_end ahead)

lemma nth_ahead: "sc_pos s + n < length (sc_buf s) \<longleftrightarrow> n < length (BUF_AT s)"
  by (auto simp: BUF_AT_def)

lemma nth_BUF_AT: "n < length (BUF_AT s) \<Longrightarrow> sc_buf s ! (sc_pos s + n) = BUF_AT s ! n"
  by (simp add: BUF_AT_def)

lemma advance1_cols: "BUF_AT s = c # cs \<Longrightarrow> c \<noteq> LF \<Longrightarrow> advance1 s = advance_cols s 1"
  using ahead_Cons(1,2) [of s c cs] by (auto simp: advance1_def advance_cols_def PEEK_def AT_END_def)

lemma advance_cols_eq:
  "LF \<notin> set (take n (BUF_AT s)) \<Longrightarrow> n \<le> length (BUF_AT s) \<Longrightarrow> advance s n = advance_cols s n"
proof (induction n arbitrary: s)
  case (Suc n)
  then obtain c cs where b: "BUF_AT s = c # cs" by (cases "BUF_AT s") auto
  with Suc.prems have "advance1 s = advance_cols s 1" by (intro advance1_cols) auto
  moreover have "advance (advance_cols s 1) n = advance_cols (advance_cols s 1) n"
    using Suc.prems b by (intro Suc.IH) (auto simp: ahead)
  ultimately show ?case by (simp add: ahead)
qed (simp add: ahead)

lemma mem_ahead [ahead]:
  "BUF_AT (s\<lparr>sc_mem := m\<rparr>) = BUF_AT s"
  "advance_cols (s\<lparr>sc_mem := m\<rparr>) n = (advance_cols s n)\<lparr>sc_mem := m\<rparr>"
  by (simp_all add: BUF_AT_def advance_cols_def)

section \<open>Double-quoted scalars\<close>

text \<open>An escape the emitter writes is read as the byte it stands for.\<close>

lemma hex_02X_read:
  "oyl_is_hex (hex_upper (drop_bit 4 c)) \<and> oyl_is_hex (hex_upper (c AND 0x0F)) \<and>
   push_bit 4 (hex_digit (hex_upper (drop_bit 4 c))) OR hex_digit (hex_upper (c AND 0x0F)) = c"
proof -
  have nibble: "oyl_is_hex (hex_upper n) \<and> hex_digit (hex_upper n) = n" if n: "n < 16" for n :: byte
  proof (cases "n < 10")
    case True
    define x where "x = DIGIT_0 + n"
    have "unat n < 10" using True by (simp add: word_less_nat_alt)
    then have "unat x = 0x30 + unat n" unfolding x_def by (simp add: unat_word_ariths)
    with \<open>unat n < 10\<close> have "DIGIT_0 \<le> x" "x \<le> DIGIT_9" by (simp_all add: word_le_nat_alt)
    moreover have "n = x - DIGIT_0" by (simp add: x_def)
    ultimately show ?thesis using True by (simp add: hex_upper_def hex_digit_def oyl_is_hex_iff x_def [symmetric])
  next
    case False
    define x where "x = UC_A + (n - 10)"
    have k: "10 \<le> unat n" "unat n < 16" using False n by (simp_all add: word_less_nat_alt)
    then have "unat (n - 10) = unat n - 10" by (simp add: unat_sub word_le_nat_alt)
    with k have "unat x = 0x41 + (unat n - 10)" unfolding x_def by (simp add: unat_word_ariths)
    with k have "UC_A \<le> x" "x \<le> UC_F" "\<not> x \<le> DIGIT_9" "\<not> LC_A \<le> x" by (simp_all add: word_le_nat_alt)
    moreover have "x - UC_A + 10 = n" by (simp add: x_def)
    ultimately show ?thesis using False by (simp add: hex_upper_def hex_digit_def oyl_is_hex_iff x_def [symmetric])
  qed
  have h: "drop_bit 4 c < 16" by (simp add: drop_bit_eq_div word_less_nat_alt unat_div)
    (use unsigned_less [of c, where 'a = nat] in \<open>simp add: div_less_iff_less_mult\<close>)
  have l: "c AND 0x0F < 16"
    using word_and_le1 [of c "0x0F"] by (simp add: word_le_nat_alt word_less_nat_alt)
  have "push_bit 4 (drop_bit 4 c) OR (c AND mask 4) = c"
    by (rule bit_word_eqI) (auto simp: bit_simps)
  then have "push_bit 4 (drop_bit 4 c) OR (c AND 0x0F) = c" by (simp add: mask_eq_exp_minus_1)
  then show ?thesis using nibble [OF h] nibble [OF l] by simp
qed

lemma dq_text_escape:
  assumes "dq_text c \<noteq> [c]" and "BUF_AT s = dq_text c @ rest"
  shows "PEEK s = BSLASH \<and> \<not> AT_END s \<and> \<not> AT_END (advance s 1) \<and>
    dq_escape (advance (advance s 1) 1) (PEEK (advance s 1)) = (Inr [c], advance_cols s (length (dq_text c)))"
proof -
  obtain d ds where t: "dq_text c = BSLASH # d # ds"
    using assms(1) by (auto simp: dq_text_def split: if_splits)
  with assms(2) have b: "BUF_AT s = BSLASH # d # ds @ rest" by simp
  have d: "d \<noteq> LF" using t assms(1) by (auto simp: dq_text_def split: if_splits)
  have a1: "advance s 1 = advance_cols s 1" using advance1_cols [OF b] by (simp add: advance_1)
  have b1: "BUF_AT (advance_cols s 1) = d # ds @ rest" using b by (simp add: ahead)
  have a2: "advance (advance s 1) 1 = advance_cols s 2"
    using advance1_cols [OF b1 d] a1 by (simp only: advance_1 cols_cols one_add_one)
  have b2: "BUF_AT (advance_cols s 2) = ds @ rest" using b by (simp add: ahead)
  have p: "PEEK (advance s 1) = d" using ahead_Cons [OF b1] a1 by simp
  have "dq_escape (advance_cols s 2) d = (Inr [c], advance_cols s (length (dq_text c)))"
  proof (cases "d = LC_X")
    case True
    then have ds: "ds = hex_02X c"
      using t assms(1) by (auto simp: dq_text_def split: if_splits)
    then have b2': "BUF_AT (advance_cols s 2) = hex_upper (drop_bit 4 c) # hex_upper (c AND 0x0F) # rest"
      using b2 by (simp add: hex_02X_def)
    have nolf: "LF \<notin> set (hex_02X c)"
      using hex_02X_read [of c] by (auto simp: hex_02X_def char_class)
    have "advance (advance_cols s 2) 2 = advance_cols (advance_cols s 2) 2"
      using nolf b2' by (intro advance_cols_eq) (auto simp: hex_02X_def numeral_2_eq_2)
    moreover have "\<not> REMAINING (advance_cols s 2) < 2"
      using b2' length_BUF_AT [of "advance_cols s 2"] by simp
    moreover have "PEEK_AT (advance_cols s 2) 1 = hex_upper (c AND 0x0F)"
      using b2' by (simp add: PEEK_AT_ahead)
    ultimately have "dq_escape (advance_cols s 2) d = (Inr [c], advance_cols s 4)"
      using hex_02X_read [of c] ahead_Cons(1) [OF b2'] True
      by (simp add: dq_escape_def simple_escape_def dq_hex_escape_def ahead)
    moreover have "length (dq_text c) = 4" using t ds by (simp add: hex_02X_def)
    ultimately show ?thesis by simp
  next
    case False
    then have "simple_escape d = Some [c] \<and> ds = []"
      using t assms(1) by (auto simp: dq_text_def simple_escape_def split: if_splits)
    then show ?thesis using t by (simp add: dq_escape_def numeral_2_eq_2)
  qed
  then show ?thesis using a1 a2 p ahead_Cons [OF b] ahead_Cons(2) [OF b1] by simp
qed

text \<open>The loop up to the closing quote. A text of escapes starts with a run that needs none.\<close>

lemma concat_run:
  "concat (map f v) = takeWhile (\<lambda>c. f c = [c]) v @ concat (map f (dropWhile (\<lambda>c. f c = [c]) v))"
  by (induction v) auto

lemma dq_text_plain: "dq_text c = [c] \<Longrightarrow> c \<noteq> DQUOTE \<and> c \<noteq> BSLASH \<and> c \<noteq> LF \<and> c \<noteq> CR"
  by (auto simp: dq_text_def split: if_splits)

lemma dq_text_hd: "dq_text c \<noteq> [c] \<Longrightarrow> \<exists>t. dq_text c = BSLASH # t"
  by (auto simp: dq_text_def split: if_splits)

lemma dq_stop:
  "scan_until (\<lambda>x. x = DQUOTE \<or> x = BSLASH \<or> x = LF \<or> x = CR) (concat (map dq_text v) @ DQUOTE # rest) =
     length (takeWhile (\<lambda>c. dq_text c = [c]) v)"
proof -
  let ?P = "\<lambda>c. dq_text c = [c]"
  let ?w = "dropWhile ?P v" and ?stop = "\<lambda>x. x = DQUOTE \<or> x = BSLASH \<or> x = LF \<or> x = CR"
  have run: "\<not> ?stop x" if "x \<in> set (takeWhile ?P v)" for x
  proof -
    have "dq_text x = [x]" using that by (auto dest: set_takeWhileD)
    then show ?thesis using dq_text_plain by simp
  qed
  have "scan_until ?stop (concat (map dq_text ?w) @ DQUOTE # rest) = 0"
  proof (cases ?w)
    case (Cons d w')
    then have "dq_text d \<noteq> [d]" using hd_dropWhile [of ?P v] by simp
    then obtain t where "dq_text d = BSLASH # t" using dq_text_hd by blast
    then show ?thesis using Cons by simp
  next
    case Nil
    then show ?thesis by (simp only: Nil) simp
  qed
  then show ?thesis
    using scan_until_append [of "takeWhile ?P v" ?stop "concat (map dq_text ?w) @ DQUOTE # rest"] run
    by (subst concat_run) simp
qed

lemma dq_loop_reads:
  assumes "BUF_AT s = concat (map dq_text v) @ DQUOTE # rest"
  shows "dq_loop s out ce = (Inr (out @ v), advance_cols s (length (concat (map dq_text v))))"
  using assms
proof (induction "length v" arbitrary: v s out ce rule: less_induct)
  case less
  show ?case
  proof (cases v)
    case Nil
    with less.prems have "PEEK s = DQUOTE" by (simp add: PEEK_ahead)
    then show ?thesis using Nil by (simp add: dq_loop.simps [of s] ahead)
  next
    case (Cons c v')
    show ?thesis
    proof (cases "dq_text c = [c]")
      case False
      have b: "BUF_AT s = dq_text c @ concat (map dq_text v') @ DQUOTE # rest"
        using less.prems Cons by simp
      let ?t = "advance_cols s (length (dq_text c))"
      have "BUF_AT ?t = concat (map dq_text v') @ DQUOTE # rest" using b by (simp add: ahead)
      then have "dq_loop ?t (out @ [c]) (length (out @ [c])) =
          (Inr ((out @ [c]) @ v'), advance_cols ?t (length (concat (map dq_text v'))))"
        using Cons by (intro less.hyps) auto
      then show ?thesis
        using dq_text_escape [OF False b] Cons by (subst dq_loop.simps) (simp add: ahead Let_def)
    next
      case True
      let ?u = "takeWhile (\<lambda>c. dq_text c = [c]) v" and ?w = "dropWhile (\<lambda>c. dq_text c = [c]) v"
      have tv: "concat (map dq_text v) = ?u @ concat (map dq_text ?w)" by (rule concat_run)
      then have b: "BUF_AT s = ?u @ concat (map dq_text ?w) @ DQUOTE # rest" using less.prems by simp
      have n: "oyl_find_any4 (BUF_AT s) DQUOTE BSLASH LF CR = length ?u"
        unfolding oyl_find_any4_eq less.prems by (rule dq_stop)
      have c: "BUF_AT s = c # concat (map dq_text v') @ DQUOTE # rest"
        using less.prems Cons True by simp
      have cn: "c \<noteq> DQUOTE \<and> c \<noteq> BSLASH \<and> \<not> oyl_is_break c"
        using dq_text_plain [OF True] by (auto simp: char_class)
      let ?t = "advance_cols s (length ?u)" and ?k = "length (rtrim ?u)"
      have bt: "BUF_AT ?t = concat (map dq_text ?w) @ DQUOTE # rest" using b by (simp add: ahead)
      have "length v = length ?u + length ?w" by (metis length_append takeWhile_dropWhile_id)
      then have "length ?w < length v" using Cons True by simp
      from less.hyps [OF this bt] have
        "dq_loop ?t (out @ ?u) (if ?k > 0 then length out + ?k else ce) =
          (Inr ((out @ ?u) @ ?w), advance_cols ?t (length (concat (map dq_text ?w))))" .
      moreover have "take (length ?u) (BUF_AT s) = ?u" using b by simp
      ultimately show ?thesis
        using ahead_Cons(1,2) [OF c] cn n
        by (subst dq_loop.simps) (simp only: tv Let_def cols_cols, simp add: tv)
    qed
  qed
qed

lemma col_then_pos: "s\<lparr>sc_col := c, sc_pos := p\<rparr> = s\<lparr>sc_pos := p, sc_col := c\<rparr>"
  by simp

text \<open>
  \<open>reads s r w v style\<close>: scanning passed exactly the text \<open>w\<close> and returned a scalar token with the
  value \<open>v\<close>, whose marks are the two ends of the text.
\<close>

definition reads :: "oyl_scanner \<Rightarrow> scan_result \<Rightarrow> byte list \<Rightarrow> byte list \<Rightarrow> oyl_scalar_style \<Rightarrow> bool" where
  "reads s r w v style \<longleftrightarrow>
     (\<exists>s'. r = (Inr (tok_scalar v style (mark s) (mark s')), s') \<and> same_struct s s' \<and>
        sc_pos s' = sc_pos s + length w \<and> sc_line s' = sc_line s \<and> sc_col s' = sc_col s + length w)"

text \<open>The scan succeeded, or failed for lack of memory.\<close>

definition reads_or_memory ::
    "oyl_scanner \<Rightarrow> scan_result \<Rightarrow> byte list \<Rightarrow> byte list \<Rightarrow> oyl_scalar_style \<Rightarrow> bool" where
  "reads_or_memory s r w v style \<longleftrightarrow>
     reads s r w v style \<or> (False \<in> set (sc_mem s) \<and> fst r = Inl OYL_ERR_MEMORY)"

lemma mark_update [simp]: "mark (s\<lparr>sc_mem := m\<rparr>) = mark s"
  by (simp add: mark_def)

lemma mem_same: "(advance_cols s n)\<lparr>sc_mem := sc_mem s\<rparr> = advance_cols s n"
  by (simp add: advance_cols_def)

lemma quoted_token_reads:
  "reads s (quoted_token ((advance_cols s (length w))\<lparr>sc_mem := m\<rparr>) (mark s) v style) w v style"
  unfolding reads_def quoted_token_def note_node_def Let_def
  by (simp add: mark_def advance_cols_def same_struct_def)

lemma scan_double_quoted_reads:
  assumes "BUF_AT s = double_quoted_text v @ rest"
  shows "reads_or_memory s (scan_double_quoted s) (double_quoted_text v) v OYL_SCALAR_DOUBLE_QUOTED"
proof -
  let ?t = "concat (map dq_text v)" and ?s1 = "advance_cols s 1"
  have b: "BUF_AT s = DQUOTE # ?t @ DQUOTE # rest" using assms by (simp add: double_quoted_text_def)
  then have a: "advance1 s = ?s1" by (rule advance1_cols) simp
  have b1: "BUF_AT ?s1 = ?t @ DQUOTE # rest" using b by (simp add: ahead)
  let ?n = "oyl_find_any4_short (BUF_AT ?s1) DQUOTE BSLASH LF CR"
  let ?fin = "advance_cols s (length (double_quoted_text v))"
  have len: "length (double_quoted_text v) = Suc (Suc (length ?t))" by (simp add: double_quoted_text_def)
  show ?thesis
  proof (cases "sc_pos ?s1 + ?n < length (sc_buf ?s1) \<and> sc_buf ?s1 ! (sc_pos ?s1 + ?n) = DQUOTE")
    case True
    then have at: "BUF_AT ?s1 ! ?n = DQUOTE" by (simp add: BUF_AT_def)
    let ?P = "\<lambda>c. dq_text c = [c]"
    have n: "?n = length (takeWhile ?P v)"
      unfolding oyl_find_any4_short_eq b1 by (rule dq_stop)
    have dw: "dropWhile ?P v = []"
    proof (rule ccontr)
      assume "dropWhile ?P v \<noteq> []"
      then obtain d w where w: "dropWhile ?P v = d # w" by (cases "dropWhile ?P v") auto
      then have "dq_text d \<noteq> [d]" using hd_dropWhile [of ?P v] by simp
      then obtain t where "dq_text d = BSLASH # t" using dq_text_hd by blast
      with w have "?t = takeWhile ?P v @ BSLASH # t @ concat (map dq_text w)"
        using concat_run [of dq_text v] by simp
      with b1 n at show False by (simp add: nth_append)
    qed
    have tv: "takeWhile ?P v = v" using takeWhile_dropWhile_id [of ?P v] unfolding dw by simp
    have t: "?t = v" using concat_run [of dq_text v] unfolding dw tv by simp
    have v: "sub_buf (sc_buf ?s1) (sc_pos ?s1) (length v) = v"
      using b1 t by (simp add: sub_buf_def BUF_AT_def)
    have "scan_double_quoted s = quoted_token ?fin (mark s) v OYL_SCALAR_DOUBLE_QUOTED"
      using True n tv v by (simp add: scan_double_quoted_def a Let_def len t) (simp add: advance_cols_def col_then_pos)
    then show ?thesis using quoted_token_reads [of s "sc_mem s" "double_quoted_text v"] 
      by (simp add: reads_or_memory_def mem_same)
  next
    case False
    note slow = scan_double_quoted_def [of s, unfolded Let_def advance_1 a if_not_P [OF False]]
    show ?thesis
    proof (cases "fst (mem_take (sc_mem s))")
      case ok: True
      have m: "mem_take (sc_mem ?s1) = (True, snd (mem_take (sc_mem s)))"
        using ok by (simp add: advance_cols_def prod_eq_iff)
      let ?s2 = "?s1\<lparr>sc_mem := snd (mem_take (sc_mem s))\<rparr>"
      have "dq_loop ?s2 [] 0 = (Inr v, advance_cols ?s2 (length ?t))"
        using dq_loop_reads [of ?s2 v rest] b1 by (simp add: ahead)
      moreover have "BUF_AT (advance_cols ?s2 (length ?t)) = DQUOTE # rest"
        using b by (simp add: ahead)
      ultimately have "scan_double_quoted s =
          quoted_token (?fin\<lparr>sc_mem := snd (mem_take (sc_mem s))\<rparr>) (mark s) v OYL_SCALAR_DOUBLE_QUOTED"
        using m ahead_Cons(1) [of _ DQUOTE rest] advance1_cols [of _ DQUOTE rest]
        by (simp add: slow ahead len)
      then show ?thesis using quoted_token_reads by (simp add: reads_or_memory_def)
    next
      case failed: False
      then have m: "mem_take (sc_mem ?s1) = (False, snd (mem_take (sc_mem s)))" and "False \<in> set (sc_mem s)"
        by (cases "sc_mem s"; simp add: advance_cols_def prod_eq_iff)+
      then show ?thesis by (simp add: reads_or_memory_def slow)
    qed
  qed
qed

section \<open>Single-quoted scalars\<close>

text \<open>The loop up to the closing quote, for a value without line breaks.\<close>

lemma sq_ensure_cases:
  obtains (grown) cap' m where "SQ_ENSURE s out cap n = (Some cap', s\<lparr>sc_mem := m\<rparr>)" and "set m \<subseteq> set (sc_mem s)"
  | (failed) s' where "SQ_ENSURE s out cap n = (None, s')" and "False \<in> set (sc_mem s)"
proof (cases "length out + n \<ge> cap \<and> \<not> fst (mem_take (sc_mem s))")
  case True
  then have "False \<in> set (sc_mem s)" by (cases "sc_mem s") auto
  moreover have "\<exists>s'. SQ_ENSURE s out cap n = (None, s')"
    using True by (auto simp: SQ_ENSURE_def Let_def split: prod.splits)
  ultimately show ?thesis using failed by blast
next
  case False
  define m where "m = (if length out + n \<ge> cap then snd (mem_take (sc_mem s)) else sc_mem s)"
  have "set m \<subseteq> set (sc_mem s)" by (cases "sc_mem s") (auto simp: m_def)
  moreover have "\<exists>cap'. SQ_ENSURE s out cap n = (Some cap', s\<lparr>sc_mem := m\<rparr>)"
    using False by (auto simp: SQ_ENSURE_def Let_def m_def split: prod.splits)
  ultimately show ?thesis using grown by blast
qed

lemma sq_stop:
  assumes "\<not> has_break v"
  shows "scan_until (\<lambda>x. x = SQUOTE \<or> x = LF \<or> x = CR \<or> x = SQUOTE) (concat (map sq_text v) @ SQUOTE # rest) =
     length (takeWhile (\<lambda>c. sq_text c = [c]) v)"
  using assms by (induction v) (auto simp: sq_text_def has_break_def char_class)

text \<open>The loop passed the text, up to the closing quote, or an allocation failed.\<close>

definition sq_passes ::
    "oyl_scanner \<Rightarrow> (oyl_status + byte list \<times> nat) \<times> oyl_scanner \<Rightarrow> byte list \<Rightarrow> byte list \<Rightarrow> bool" where
  "sq_passes s r w v \<longleftrightarrow>
     (\<exists>cap m. r = (Inr (v, cap), (advance_cols s (length w))\<lparr>sc_mem := m\<rparr>)) \<or>
     False \<in> set (sc_mem s) \<and> fst r = Inl OYL_ERR_MEMORY"

lemma sq_passes_step:
  assumes "sq_passes ((advance_cols s n)\<lparr>sc_mem := m\<rparr>) r w v" and "set m \<subseteq> set (sc_mem s)"
    and "length u = n"
  shows "sq_passes s r (u @ w) v"
  using assms by (auto simp: sq_passes_def cols_cols)

lemma sq_loop_reads:
  assumes "BUF_AT s = concat (map sq_text v) @ SQUOTE # rest" and "\<not> has_break v"
    and "rest = [] \<or> hd rest \<noteq> SQUOTE"
  shows "sq_passes s (sq_loop s out cap) (concat (map sq_text v)) (out @ v)"
  using assms(1,2)
proof (induction "length v" arbitrary: v s out cap rule: less_induct)
  case less
  show ?case
  proof (cases v)
    case Nil
    with less.prems have b: "BUF_AT s = SQUOTE # rest" by simp
    then have "\<not> (Suc (sc_pos s) < length (sc_buf s) \<and> sc_buf s ! Suc (sc_pos s) = SQUOTE)"
      using assms(3) nth_ahead [of s 1] nth_BUF_AT [of 1 s] by (cases rest) auto
    then have "sq_loop s out cap = (Inr (out, cap), s)"
      using ahead_Cons(1,2) [OF b] by (auto simp: sq_loop.simps [of s])
    moreover have "s\<lparr>sc_mem := sc_mem s\<rparr> = s" by simp
    ultimately show ?thesis using Nil unfolding sq_passes_def by (metis append_Nil2 concat.simps(1) cols_0 list.map(1) list.size(3))
  next
    case (Cons c v')
    have br: "\<not> has_break v'" using less.prems(2) Cons by (simp add: has_break_def)
    show ?thesis
    proof (cases "c = SQUOTE")
      case True
      then have b: "BUF_AT s = SQUOTE # SQUOTE # concat (map sq_text v') @ SQUOTE # rest"
        using less.prems(1) Cons by (simp add: sq_text_def)
      have two: "sc_pos s + 1 < length (sc_buf s) \<and> sc_buf s ! (sc_pos s + 1) = SQUOTE"
      proof -
        have "drop (sc_pos s) (sc_buf s) ! 1 = SQUOTE" "1 < length (drop (sc_pos s) (sc_buf s))"
          using b by (simp_all add: BUF_AT_def)
        then show ?thesis by (auto simp: less_diff_conv)
      qed
      note step = sq_loop.simps [of s out cap]
      show ?thesis
      proof (cases rule: sq_ensure_cases [of s out cap 1])
        case (failed s')
        with two have "sq_loop s out cap = (Inl OYL_ERR_MEMORY, s')"
          using ahead_Cons(1,2) [OF b] by (subst step) simp
        with failed show ?thesis by (simp add: sq_passes_def)
      next
        case (grown cap' m)
        let ?t = "s\<lparr>sc_mem := m\<rparr>"
        have a: "advance ?t 2 = (advance_cols s (length [SQUOTE, SQUOTE]))\<lparr>sc_mem := m\<rparr>"
          using advance_cols_eq [of "Suc (Suc 0)" ?t] b by (simp add: ahead) (simp add: numeral_2_eq_2)
        have "BUF_AT (advance ?t 2) = concat (map sq_text v') @ SQUOTE # rest"
          using b by (simp add: a ahead)
        then have "sq_passes (advance ?t 2) (sq_loop (advance ?t 2) (out @ [SQUOTE]) cap')
            (concat (map sq_text v')) ((out @ [SQUOTE]) @ v')"
          using Cons br by (intro less.hyps) auto
        then have "sq_passes s (sq_loop (advance ?t 2) (out @ [SQUOTE]) cap')
            ([SQUOTE, SQUOTE] @ concat (map sq_text v')) ((out @ [SQUOTE]) @ v')"
          unfolding a using grown(2) by (rule sq_passes_step) (rule refl)
        moreover have "sq_loop s out cap = sq_loop (advance ?t 2) (out @ [SQUOTE]) cap'"
          using two grown ahead_Cons(1,2) [OF b] by (subst step) simp
        ultimately show ?thesis using Cons True by (simp add: sq_text_def)
      qed
    next
      case False
      let ?P = "\<lambda>c. sq_text c = [c]"
      let ?u = "takeWhile ?P v" and ?w = "dropWhile ?P v" and ?n = "length (takeWhile ?P v)"
      have tv: "concat (map sq_text v) = ?u @ concat (map sq_text ?w)" by (rule concat_run)
      then have b: "BUF_AT s = ?u @ concat (map sq_text ?w) @ SQUOTE # rest" using less.prems by simp
      have n: "oyl_find_any4 (BUF_AT s) SQUOTE LF CR SQUOTE = ?n"
        unfolding oyl_find_any4_eq less.prems(1) by (rule sq_stop) (rule less.prems(2))
      have c: "BUF_AT s = c # concat (map sq_text v') @ SQUOTE # rest"
        using less.prems(1) Cons False by (simp add: sq_text_def)
      have cn: "\<not> oyl_is_break c" using less.prems(2) Cons by (simp add: has_break_def)
      have u: "take ?n (BUF_AT s) = ?u" using b by simp
      have w: "length ?w < length v" "\<not> has_break ?w"
        using Cons False less.prems(2)
        by (auto simp: sq_text_def has_break_def list_ex_iff dest: set_dropWhileD)
          (metis length_dropWhile_le less_Suc_eq_le)
      show ?thesis
      proof (cases rule: sq_ensure_cases [of s out cap ?n])
        case (failed s')
        then have "sq_loop s out cap = (Inl OYL_ERR_MEMORY, s')"
          using ahead_Cons(1,2) [OF c] cn False n by (subst sq_loop.simps) simp
        with failed show ?thesis by (simp add: sq_passes_def)
      next
        case (grown cap' m)
        let ?t = "(advance_cols s ?n)\<lparr>sc_mem := m\<rparr>"
        have "BUF_AT ?t = concat (map sq_text ?w) @ SQUOTE # rest" using b by (simp add: ahead)
        then have "sq_passes ?t (sq_loop ?t (out @ ?u) cap') (concat (map sq_text ?w)) ((out @ ?u) @ ?w)"
          by (rule less.hyps [OF w(1) _ w(2)])
        then have "sq_passes s (sq_loop ?t (out @ ?u) cap') (?u @ concat (map sq_text ?w)) ((out @ ?u) @ ?w)"
          using grown by (intro sq_passes_step) auto
        moreover have "sq_loop s out cap = sq_loop ?t (out @ ?u) cap'"
          using grown ahead_Cons(1,2) [OF c] cn False n u by (subst sq_loop.simps) (simp add: mem_ahead)
        ultimately show ?thesis using tv by simp
      qed
    qed
  qed
qed


lemma scan_single_quoted_reads:
  assumes "BUF_AT s = single_quoted_text v @ rest" and "\<not> has_break v" and "rest = [] \<or> hd rest \<noteq> SQUOTE"
  shows "reads_or_memory s (scan_single_quoted s) (single_quoted_text v) v OYL_SCALAR_SINGLE_QUOTED"
proof -
  let ?t = "concat (map sq_text v)" and ?s1 = "advance_cols s 1"
  have b: "BUF_AT s = SQUOTE # ?t @ SQUOTE # rest" using assms by (simp add: single_quoted_text_def)
  then have a: "advance1 s = ?s1" by (rule advance1_cols) simp
  have b1: "BUF_AT ?s1 = ?t @ SQUOTE # rest" using b by (simp add: ahead)
  let ?P = "\<lambda>c. sq_text c = [c]"
  let ?n = "oyl_find_any4_short (BUF_AT ?s1) SQUOTE LF CR SQUOTE"
  let ?fin = "advance_cols s (length (single_quoted_text v))"
  have len: "length (single_quoted_text v) = Suc (Suc (length ?t))" by (simp add: single_quoted_text_def)
  have n: "?n = length (takeWhile ?P v)"
    unfolding oyl_find_any4_short_eq b1 using assms(2) by (rule sq_stop)
  let ?j = "sc_pos ?s1 + ?n"
  show ?thesis
  proof (cases "?j < length (sc_buf ?s1) \<and> sc_buf ?s1 ! ?j = SQUOTE \<and>
      \<not> (?j + 1 < length (sc_buf ?s1) \<and> sc_buf ?s1 ! (?j + 1) = SQUOTE)")
    case True
    have dw: "dropWhile ?P v = []"
    proof (rule ccontr)
      assume "dropWhile ?P v \<noteq> []"
      then obtain d w where w: "dropWhile ?P v = d # w" by (cases "dropWhile ?P v") auto
      then have "sq_text d \<noteq> [d]" using hd_dropWhile [of ?P v] by simp
      then have "sq_text d = [SQUOTE, SQUOTE]" by (simp add: sq_text_def split: if_splits)
      with w have "?t = takeWhile ?P v @ SQUOTE # SQUOTE # concat (map sq_text w)"
        using concat_run [of sq_text v] by simp
      with b1 n have "BUF_AT ?s1 ! (?n + 1) = SQUOTE" "?n + 1 < length (BUF_AT ?s1)"
        by (simp_all add: nth_append)
      then show False
        using True nth_BUF_AT [of "?n + 1" ?s1] nth_ahead [of ?s1 "?n + 1"] by (simp add: add.assoc)
    qed
    have tv: "takeWhile ?P v = v" using takeWhile_dropWhile_id [of ?P v] unfolding dw by simp
    have t: "?t = v" using concat_run [of sq_text v] unfolding dw tv by simp
    have v: "sub_buf (sc_buf ?s1) (sc_pos ?s1) (length v) = v"
      using b1 t by (simp add: sub_buf_def BUF_AT_def)
    have "scan_single_quoted s = quoted_token ?fin (mark s) v OYL_SCALAR_SINGLE_QUOTED"
      using True n tv v by (simp add: scan_single_quoted_def a Let_def len t) (simp add: advance_cols_def col_then_pos)
    then show ?thesis using quoted_token_reads [of s "sc_mem s" "single_quoted_text v"]
      by (simp add: reads_or_memory_def mem_same)
  next
    case False
    note slow = scan_single_quoted_def [of s, unfolded Let_def advance_1 a if_not_P [OF False]]
    have mem: "set (snd (mem_take (sc_mem s))) \<subseteq> set (sc_mem s)" by (cases "sc_mem s") auto
    show ?thesis
    proof (cases "fst (mem_take (sc_mem s))")
      case ok: True
      have m: "mem_take (sc_mem ?s1) = (True, snd (mem_take (sc_mem s)))"
        using ok by (simp add: advance_cols_def prod_eq_iff)
      let ?s2 = "?s1\<lparr>sc_mem := snd (mem_take (sc_mem s))\<rparr>"
      have "sq_passes ?s2 (sq_loop ?s2 [] 64) ?t ([] @ v)"
        using b1 by (intro sq_loop_reads [OF _ assms(2,3)]) (simp add: ahead)
      then have "sq_passes s (sq_loop ?s2 [] 64) ([SQUOTE] @ ?t) v"
        using mem by (intro sq_passes_step [where n = 1]) auto
      then consider (ok) cap m' where "sq_loop ?s2 [] 64 = (Inr (v, cap), (advance_cols s (Suc (length ?t)))\<lparr>sc_mem := m'\<rparr>)"
        | (err) s' where "sq_loop ?s2 [] 64 = (Inl OYL_ERR_MEMORY, s')" "False \<in> set (sc_mem s)"
        unfolding sq_passes_def by (auto simp: prod_eq_iff) 
      then show ?thesis
      proof cases
        case (ok cap m')
        moreover have "BUF_AT (advance_cols s (Suc (length ?t))) = SQUOTE # rest"
          using b by (simp add: ahead)
        ultimately have "scan_single_quoted s =
            quoted_token (?fin\<lparr>sc_mem := m'\<rparr>) (mark s) v OYL_SCALAR_SINGLE_QUOTED"
          using m ahead_Cons(1) [of _ SQUOTE rest] advance1_cols [of _ SQUOTE rest]
          by (simp add: slow ahead len)
        then show ?thesis using quoted_token_reads by (simp add: reads_or_memory_def)
      next
        case (err s')
        then show ?thesis using m by (simp add: reads_or_memory_def slow)
      qed
    next
      case failed: False
      then have m: "mem_take (sc_mem ?s1) = (False, snd (mem_take (sc_mem s)))" and "False \<in> set (sc_mem s)"
        by (cases "sc_mem s"; simp add: advance_cols_def prod_eq_iff)+
      then show ?thesis by (simp add: reads_or_memory_def slow)
    qed
  qed
qed


section \<open>Plain scalars\<close>

text \<open>
  Where a scalar may end: at the end of the input, at a colon that is a value indicator, at a flow
  character in a flow collection, at a line break after which the scalar does not go on.
\<close>

definition ends_scalar :: "oyl_scanner \<Rightarrow> bool" where
  "ends_scalar s \<longleftrightarrow> AT_END s \<or> sc_flow_level s > 0 \<and> oyl_is_flow (PEEK s) \<or>
     PEEK s = COLON \<and> (blank_or_end (PEEK_AT s 1) \<or> sc_flow_level s > 0 \<and> oyl_is_flow (PEEK_AT s 1)) \<or>
     oyl_is_break (PEEK s) \<and> (let (t, n) = spec_breaks s 0 in AT_END t \<or> plain_line_ends t)"

lemma quoting_append: "\<not> quoting_chars f (u @ w) \<Longrightarrow> \<not> quoting_chars f w"
  by (induction u) (simp_all split: if_split_asm)

text \<open>The conditions of the loop of \<open>needs_quoting\<close> at one byte.\<close>

lemma quoting_Cons:
  assumes "\<not> quoting_chars f (c # cs)"
  shows "\<not> quoting_chars f cs" "\<not> oyl_is_break c" "f \<Longrightarrow> \<not> oyl_is_flow c"
    "c = COLON \<Longrightarrow> cs \<noteq> [] \<and> \<not> oyl_is_blank (hd cs)" "oyl_is_blank c \<Longrightarrow> cs \<noteq> [] \<and> hd cs \<noteq> HASH"
  using assms by (simp_all add: oyl_is_blank_def split: if_split_asm)

lemma quoting_blank:
  "\<not> quoting_chars f (u @ w) \<Longrightarrow> u \<noteq> [] \<Longrightarrow> oyl_is_blank (last u) \<Longrightarrow> w \<noteq> [] \<and> hd w \<noteq> HASH"
proof (induction u)
  case (Cons c u)
  then show ?case using quoting_Cons [of f c "u @ w"] by (cases u) simp_all
qed simp

text \<open>A value that needs no quotes is read to its end, byte by byte and blank by blank.\<close>

lemma plain_spec_end: "ends_scalar s \<Longrightarrow> plain_spec_loop s acc = (Inr acc, s)"
proof -
  assume e: "ends_scalar s"
  obtain t n where tn: "spec_breaks s 0 = (t, n)" by fastforce
  consider "AT_END s" | "\<not> AT_END s" "sc_flow_level s > 0" "oyl_is_flow (PEEK s)"
    | "\<not> AT_END s" "PEEK s = COLON" "blank_or_end (PEEK_AT s 1) \<or> sc_flow_level s > 0 \<and> oyl_is_flow (PEEK_AT s 1)"
    | "\<not> AT_END s" "oyl_is_break (PEEK s)" "AT_END t \<or> plain_line_ends t"
    using e tn unfolding ends_scalar_def by auto
  then show ?thesis
  proof cases
    case 2
    then show ?thesis by (subst plain_spec_loop.simps) (auto simp: Let_def oyl_is_flow_iff)
  next
    case 4
    then have "PEEK s \<noteq> COLON" "PEEK s \<noteq> HASH" "\<not> oyl_is_flow (PEEK s)" "\<not> oyl_is_blank (PEEK s)"
      by (auto simp: char_class)
    with 4 tn show ?thesis by (subst plain_spec_loop.simps) (simp add: Let_def)
  qed (subst plain_spec_loop.simps, simp add: Let_def)+
qed

lemma plain_spec_reads:
  assumes "BUF_AT s = w @ rest" and "\<not> quoting_chars f w" and "\<not> needs_escape w"
    and "acc = [] \<or> oyl_is_blank (last acc) \<Longrightarrow> w \<noteq> [] \<and> hd w \<noteq> HASH"
    and "sc_flow_level s > 0 \<Longrightarrow> f" and "ends_scalar (advance_cols s (length w))"
  shows "plain_spec_loop s acc = (Inr (acc @ w), advance_cols s (length w))"
  using assms
proof (induction "length w" arbitrary: w s acc rule: less_induct)
  case less
  show ?case
  proof (cases w)
    case Nil
    with less.prems show ?thesis by (simp add: plain_spec_end ahead)
  next
    case (Cons c w')
    have b: "BUF_AT s = c # w' @ rest" using less.prems(1) Cons by simp
    note here = ahead_Cons(1,2) [OF b]
    show ?thesis
    proof (cases "oyl_is_blank c")
      case True
      let ?u = "takeWhile oyl_is_blank w" and ?v = "dropWhile oyl_is_blank w"
      have w: "w = ?u @ ?v" by simp
      have u: "?u \<noteq> []" using Cons True by simp
      have lu: "oyl_is_blank (last ?u)" using u by (metis last_in_set set_takeWhileD)
      have v: "?v \<noteq> []" "hd ?v \<noteq> HASH" "\<not> quoting_chars f ?v"
        using quoting_blank [of f ?u ?v] quoting_append [of f ?u ?v] less.prems(2) u lu unfolding w [symmetric] by auto
      then obtain d ds where d: "?v = d # ds" by (cases ?v) auto
      have nb: "\<not> oyl_is_blank d" using hd_dropWhile [of oyl_is_blank w] d by simp
      have "d \<in> set w" using d by (metis list.set_intros(1) set_dropWhileD)
      then have br: "\<not> oyl_is_break d"
        using quoting_Cons(2) [of f d ds] v(3) d by simp
      have b': "BUF_AT s = ?u @ d # ds @ rest" using less.prems(1) w d by simp
      have "scan_until (\<lambda>c. c \<noteq> SP \<and> c \<noteq> TAB) (BUF_AT s) = length ?u"
        unfolding b' using nb by (subst scan_until_append) (auto simp: char_class dest: set_takeWhileD)
      then have sw: "skip_white s = advance_cols s (length ?u)" by (simp add: skip_white_def advance_cols_def)
      let ?t = "advance_cols s (length ?u)"
      have bt: "BUF_AT ?t = ?v @ rest" using b' d by (simp add: ahead)
      have "plain_spec_loop ?t (acc @ ?u) = (Inr ((acc @ ?u) @ ?v), advance_cols ?t (length ?v))"
      proof (rule less.hyps [OF _ bt])
        have "length w = length ?u + length ?v" by (metis length_append w)
        then show "length ?v < length w" using u by simp
        show "\<not> quoting_chars f ?v" by (rule v(3))
        show "\<not> needs_escape ?v" using less.prems(3) by (auto simp: needs_escape_def list_ex_iff dest: set_dropWhileD)
        show "?v \<noteq> [] \<and> hd ?v \<noteq> HASH" using v by simp
        show "f" if "sc_flow_level ?t > 0" using that less.prems(5) by (simp add: advance_cols_def)
        show "ends_scalar (advance_cols ?t (length ?v))"
          using less.prems(6) w by (metis cols_cols length_append)
      qed
      moreover have "plain_spec_loop s acc = plain_spec_loop ?t (acc @ ?u)"
      proof -
        have "take (sc_pos ?t - sc_pos s) (BUF_AT s) = ?u" unfolding b' by (simp add: advance_cols_def)
        moreover have "\<not> AT_END ?t" "PEEK ?t = d" using ahead_Cons(1,2) bt d by auto
        ultimately show ?thesis
          using here True br sw by (subst plain_spec_loop.simps) (auto simp: char_class Let_def)
      qed
      ultimately show ?thesis using w by (metis append.assoc cols_cols length_append)
    next
      case False
      note q = quoting_Cons [of f c w', folded Cons, OF less.prems(2)]
      have nq: "\<not> quoting_chars f w'" by (rule q(1))
      have esc: "\<not> (c < 0x20 \<or> c = DEL)" "\<not> needs_escape w'"
        using less.prems(3) Cons False by (auto simp: needs_escape_def char_class)
      have c: "\<not> oyl_is_break c" "f \<Longrightarrow> \<not> oyl_is_flow c"
        "c = COLON \<Longrightarrow> w' \<noteq> [] \<and> \<not> oyl_is_blank (hd w')"
        using q by blast+
      have hash: "c = HASH \<Longrightarrow> acc \<noteq> [] \<and> \<not> oyl_is_blank (last acc)" using less.prems(4) Cons by auto
      have colon: "\<not> blank_or_end (PEEK_AT s 1) \<and> (f \<longrightarrow> \<not> oyl_is_flow (PEEK_AT s 1))" if col: "c = COLON"
      proof -
        obtain d ds where d: "w' = d # ds" using c(3) [OF col] by (cases w') auto
        then have "PEEK_AT s 1 = d" using b by (simp add: PEEK_AT_ahead)
        moreover have "\<not> oyl_is_break d" "f \<Longrightarrow> \<not> oyl_is_flow d"
          using quoting_Cons(2,3) [of f d ds] nq d by blast+
        moreover have "d \<noteq> 0" using esc(2) d by (auto simp: needs_escape_def)
        ultimately show ?thesis
          using c(3) [OF col] d by (simp add: blank_or_end_def oyl_is_blank_or_break_iff oyl_is_break_iff oyl_is_blank_iff)
      qed
      let ?t = "advance_cols s 1"
      have "plain_spec_loop ?t (acc @ [c]) = (Inr ((acc @ [c]) @ w'), advance_cols ?t (length w'))"
      proof (rule less.hyps)
        show "length w' < length w" using Cons by simp
        show "BUF_AT ?t = w' @ rest" using b by (simp add: ahead)
        show "w' \<noteq> [] \<and> hd w' \<noteq> HASH" if "acc @ [c] = [] \<or> oyl_is_blank (last (acc @ [c]))"
          using that False by simp
        show "f" if "sc_flow_level ?t > 0" using that less.prems(5) by (simp add: advance_cols_def)
        show "ends_scalar (advance_cols ?t (length w'))" using less.prems(6) Cons by (simp add: ahead)
      qed (use nq esc in simp_all)
      moreover have "advance1 s = ?t" using c(1) b by (intro advance1_cols) (auto simp: char_class)
      moreover have "plain_spec_loop s acc = plain_spec_loop (advance1 s) (acc @ [c])"
        using here False c hash colon esc(1) less.prems(5)
        by (subst plain_spec_loop.simps) (auto simp: Let_def char_class)
      ultimately show ?thesis using Cons by (simp add: ahead)
    qed
  qed
qed


text \<open>
  Out of memory only when the oracle refused: \<open>M\<close> are the outcomes that were still to come.
\<close>

definition honest :: "bool set \<Rightarrow> 'a option \<times> oyl_scanner \<Rightarrow> bool" where
  "honest M r \<longleftrightarrow> set (sc_mem (snd r)) \<subseteq> M \<and> (fst r = None \<longrightarrow> False \<in> M)"

fun honest_plain :: "bool set \<Rightarrow> plain_result \<Rightarrow> bool" where
  "honest_plain M (PlainMore s b) \<longleftrightarrow> set (sc_mem s) \<subseteq> M"
| "honest_plain M (PlainDone s b) \<longleftrightarrow> set (sc_mem s) \<subseteq> M"
| "honest_plain M (PlainFail e s) \<longleftrightarrow> (e = OYL_ERR_MEMORY \<longrightarrow> False \<in> M)"

lemma mem_take_set: "mem_take m = (ok, m') \<Longrightarrow> set m' \<subseteq> set m \<and> (\<not> ok \<longrightarrow> False \<in> set m)"
  by (cases m) auto

lemma grow_buf_honest: "honest (set (sc_mem s)) (grow_buf s b n)"
  using mem_take_set [of "sc_mem s"] by (auto simp: grow_buf_def honest_def Let_def split: prod.splits)

lemma append_honest:
  "honest (set (sc_mem s)) (APPEND_RUN s b xs)" "honest (set (sc_mem s)) (APPEND_CHAR s b c)"
  "honest (set (sc_mem s)) (SWITCH_TO_BUF s start b)"
  using grow_buf_honest [of s b "length xs"] grow_buf_honest [of s b 1] mem_take_set [of "sc_mem s"]
  by (auto simp: APPEND_RUN_def APPEND_CHAR_def SWITCH_TO_BUF_def honest_def Let_def split: prod.splits)

lemma honest_mono: "honest A r \<Longrightarrow> A \<subseteq> B \<Longrightarrow> honest B r"
  by (auto simp: honest_def)

lemma APPEND_CHARS_honest: "honest (set (sc_mem s)) (APPEND_CHARS s b c n)"
proof (induction s b c n rule: APPEND_CHARS.induct)
  case (2 s b ch n)
  obtain r t where rt: "APPEND_CHAR s b ch = (r, t)" by fastforce
  have "honest (set (sc_mem s)) (r, t)" using append_honest(2) rt by metis
  with 2 rt show ?case by (cases r) (auto simp: honest_def)
qed (simp add: honest_def)

lemma appended_honest:
  assumes "honest M r" and "\<And>b s. r = (Some b, s) \<Longrightarrow> set (sc_mem s) \<subseteq> M \<Longrightarrow> honest_plain M (f b s)"
  shows "honest_plain M (appended r f)"
  using assms by (cases r; cases "fst r") (auto simp: appended_def honest_def)

lemma moved_mem [simp]:
  "sc_mem (advance_cols s n) = sc_mem s" "sc_mem (skip_break s) = sc_mem s" "sc_mem (skip_blanks s) = sc_mem s"
  "sc_mem (advance1 s) = sc_mem s"
  by (simp_all add: advance_cols_def skip_break_def skip_blanks_def advance1_def Let_def)

lemma plain_breaks_mem: "plain_breaks s n = (t, k) \<Longrightarrow> sc_mem t = sc_mem s"
  by (induction s n rule: plain_breaks.induct) (simp add: plain_breaks.simps [of s n for s n] split: if_splits)

lemma plain_char_honest: "honest_plain (set (sc_mem s)) (plain_char s start b)"
proof -
  note ops = append_honest APPEND_CHARS_honest
  have "honest_plain (set (sc_mem s)) (plain_colon s b)"
    unfolding plain_colon_def Let_def by (simp add: appended_honest [OF ops(2)])
  moreover have "honest_plain (set (sc_mem s)) (plain_hash s start b)"
    unfolding plain_hash_def Let_def by (simp add: appended_honest [OF ops(2)])
  moreover have "honest_plain (set (sc_mem s)) (plain_blanks s b)"
    using ops(1) [of "advance_cols s n" b xs for n xs]
    by (simp add: plain_blanks_def Let_def appended_honest)
  moreover have "honest_plain (set (sc_mem s)) (plain_break s start b)"
  proof -
    obtain t n where t: "plain_breaks s 0 = (t, n)" by fastforce
    show ?thesis
      using plain_breaks_mem [OF t] t ops(3) [of t]
      by (auto simp: plain_break_def intro!: appended_honest intro: honest_mono [OF ops(2)] honest_mono [OF ops(4)])
  qed
  moreover have "honest_plain (set (sc_mem s)) (appended (APPEND_CHAR s b c) (\<lambda>b s. PlainMore (advance s 1) b))" for c
    by (simp add: appended_honest [OF ops(2)])
  ultimately show ?thesis by (simp add: plain_char_def Let_def)
qed

lemma plain_step_honest: "honest_plain (set (sc_mem s)) (plain_step s start b)"
proof -
  have "honest_plain (set (sc_mem s)) (plain_char (advance_cols t n) start c)" if "set (sc_mem t) \<subseteq> set (sc_mem s)" for t n c
    using plain_char_honest [of "advance_cols t n" start c] that
    by (cases "plain_char (advance_cols t n) start c") auto
  then show ?thesis
    unfolding plain_step_def Let_def
    by (intro appended_honest) (use append_honest(1) in \<open>auto simp: honest_def\<close>)
qed

lemma plain_loop_honest: "plain_loop s start b = (Inl OYL_ERR_MEMORY, s') \<Longrightarrow> False \<in> set (sc_mem s)"
proof (induction s start b rule: plain_loop.induct)
  case (1 s start b)
  then show ?case using plain_step_honest [of s start b]
    by (cases "plain_step s start b") (auto simp: plain_loop.simps [of s])
qed

lemma scan_plain_honest: "fst (scan_plain_scalar s) = Inl OYL_ERR_MEMORY \<Longrightarrow> False \<in> set (sc_mem s)"
  using plain_loop_honest by (auto simp: scan_plain_scalar_def Let_def split: prod.splits sum.splits)

lemma scan_plain_reads:
  assumes "BUF_AT s = w @ rest" and "\<not> needs_quoting w f" and "\<not> needs_escape w"
    and "sc_flow_level s > 0 \<Longrightarrow> f" and "ends_scalar (advance_cols s (length w))"
  shows "reads_or_memory s (scan_plain_scalar s) w w OYL_SCALAR_PLAIN"
proof (cases "fst (scan_plain_scalar s) = Inl OYL_ERR_MEMORY")
  case True
  then show ?thesis using scan_plain_honest by (simp add: reads_or_memory_def)
next
  case False
  let ?t = "advance_cols s (length w)"
  have w: "w \<noteq> []" "\<not> bad_start w f" "\<not> quoting_chars f w"
    using assms(2) by (auto simp: needs_quoting_def split: if_split_asm)
  have "hd w \<noteq> HASH"
    using w(2) by (auto simp: bad_start_def Let_def oyl_is_indicator_iff)
  then have loop: "plain_spec_loop s [] = (Inr w, ?t)"
    using plain_spec_reads [OF assms(1) w(3) assms(3) _ assms(4,5), of "[]"] w(1) by simp
  have "\<not> oyl_is_blank (last w)"
    using quoting_blank [of f w "[]"] w by auto
  then have "rtrim w = w"
    using w(1) by (cases w rule: rev_cases) (auto simp: rtrim_def oyl_is_blank_def)
  with loop have spec: "plain_spec s = (Inr (tok_scalar w OYL_SCALAR_PLAIN (mark s) (mark ?t)),
      note_node (?t\<lparr>sc_last_token_col := int (sc_col s) - 1\<rparr>) (mark s) (sc_pos ?t))"
    by (simp add: plain_spec_def)
  obtain r t where rt: "scan_plain_scalar s = (r, t)" by fastforce
  have "plain_spec s = (r, t\<lparr>sc_mem := sc_mem s\<rparr>)" using plain_refine [of s] False rt by simp
  with spec have r: "r = Inr (tok_scalar w OYL_SCALAR_PLAIN (mark s) (mark ?t))"
    and t: "t\<lparr>sc_mem := sc_mem s\<rparr> = note_node (?t\<lparr>sc_last_token_col := int (sc_col s) - 1\<rparr>) (mark s) (sc_pos ?t)"
    by simp_all
  have pos: "sc_pos t = sc_pos s + length w" "sc_line t = sc_line s" "sc_col t = sc_col s + length w"
    using arg_cong [OF t, of sc_pos] arg_cong [OF t, of sc_line] arg_cong [OF t, of sc_col]
    by (simp_all add: note_node_def advance_cols_def)
  then have "mark ?t = mark t" by (simp add: mark_def advance_cols_def)
  moreover have "same_struct s t" using scan_plain_scalar_moves [OF rt] by (rule moves_struct)
  ultimately show ?thesis using rt r pos by (auto simp: reads_or_memory_def reads_def)
qed

end
