(* ===== verification/OylBlockTrip.thy ===== *)
theory OylBlockTrip
  imports OylRoundTrip
begin

text \<open>
  Literal block scalars: what \<open>emit_block_scalar\<close> writes for a value, the header with its chomping
  indicator and the indented lines, is read back as that value, by the header, the detection of the
  indentation, the two passes over the lines and the chomping of the scanner.
\<close>

section \<open>Lines\<close>

text \<open>The text of lines indented by \<open>i\<close> spaces; empty lines are not indented.\<close>

definition line_text :: "nat \<Rightarrow> byte list \<Rightarrow> byte list" where
  "line_text i l = (if l = [] then [] else replicate i SP @ l) @ [LF]"

definition lines_text :: "nat \<Rightarrow> byte list list \<Rightarrow> byte list" where
  "lines_text i ls = concat (map (line_text i) ls)"

definition unlines :: "byte list list \<Rightarrow> byte list" where
  "unlines ls = concat (map (\<lambda>l. l @ [LF]) ls)"

definition line_ok :: "byte list \<Rightarrow> bool" where
  "line_ok l \<longleftrightarrow> LF \<notin> set l \<and> CR \<notin> set l"

lemma lines_simps [simp]:
  "lines_text i [] = []" "lines_text i (l # ls) = line_text i l @ lines_text i ls"
  "lines_text i (ls @ ms) = lines_text i ls @ lines_text i ms"
  "unlines [] = []" "unlines (l # ls) = l @ LF # unlines ls" "unlines (ls @ ms) = unlines ls @ unlines ms"
  by (simp_all add: lines_text_def unlines_def)

lemma line_ok_break: "line_ok l \<Longrightarrow> c \<in> set l \<Longrightarrow> \<not> oyl_is_break c"
  by (auto simp: line_ok_def char_class)

text \<open>The first spaces of a line, and what follows them.\<close>

lemma split_spaces:
  obtains k m where "l = replicate k SP @ m" and "m = [] \<or> hd m \<noteq> SP"
proof
  have "replicate (length (takeWhile (\<lambda>c. c = SP) l)) SP = takeWhile (\<lambda>c. c = SP) l"
    by (rule replicate_length_same) (auto dest: set_takeWhileD)
  then show "l = replicate (length (takeWhile (\<lambda>c. c = SP) l)) SP @ dropWhile (\<lambda>c. c = SP) l" by simp
  show "dropWhile (\<lambda>c. c = SP) l = [] \<or> hd (dropWhile (\<lambda>c. c = SP) l) \<noteq> SP"
    using hd_dropWhile [of "\<lambda>c. c = SP" l] by auto
qed

lemma scan_spaces: "c \<noteq> SP \<Longrightarrow> scan_until (\<lambda>c. c \<noteq> SP) (replicate k SP @ c # r) = k"
  by (induction k) auto

lemma spaces_at_eq: "drop p buf = replicate k SP @ c # r \<Longrightarrow> c \<noteq> SP \<Longrightarrow> spaces_at buf p = k"
  using scan_spaces [of c k r] by (simp add: spaces_at_def)

lemma drop_nth:
  assumes "drop p buf = u @ c # r"
  shows "p + length u < length buf" "buf ! (p + length u) = c" "drop (p + length u) buf = c # r"
proof -
  have "length (drop p buf) = length u + Suc (length r)" using assms by simp
  then show "p + length u < length buf" by simp
  have "drop p buf ! length u = c" using assms by simp
  then show "buf ! (p + length u) = c" using \<open>p + length u < length buf\<close> by simp
  have "drop (length u) (drop p buf) = c # r" using assms by simp
  then show "drop (p + length u) buf = c # r" by (simp add: add.commute)
qed

lemma skip_crlf_LF: "drop p buf = u @ LF # r \<Longrightarrow> skip_crlf buf (p + length u) = p + length u + 1"
  using drop_nth [of p buf u LF r] by (simp add: skip_crlf_def)

lemma to_break_line: "line_ok l \<Longrightarrow> oyl_scan_to_break b (l @ LF # r) = length l"
  unfolding oyl_scan_to_break_eq by (subst scan_until_append) (auto simp: line_ok_def)

section \<open>The first pass\<close>

lemma measure_empty: "drop p buf = LF # r \<Longrightarrow> \<exists>n'. bs_measure b buf i p n = bs_measure b buf i (p + 1) n'"
  using drop_nth [of p buf "[]" LF r] spaces_at_eq [of p buf 0 LF r] skip_crlf_LF [of p buf "[]" r]
  by (subst bs_measure.simps) (auto simp: char_class)

lemma measure_line:
  assumes "drop p buf = replicate i SP @ l @ LF # r" and "line_ok l" and "l \<noteq> []" and "0 < i"
  shows "\<exists>n'. bs_measure b buf i p n = bs_measure b buf i (p + (i + length l + 1)) n'"
proof -
  obtain k m where l: "l = replicate k SP @ m" and m: "m = [] \<or> hd m \<noteq> SP" by (rule split_spaces)
  have lt: "p < length buf" using drop_nth(1) [of p buf "replicate i SP @ l" LF r] assms(1) by simp
  show ?thesis
  proof (cases m)
    case Nil
    with assms(1) l have d: "drop p buf = replicate (i + k) SP @ LF # r" by (simp add: replicate_add)
    have "spaces_at buf p = i + k" using spaces_at_eq [OF d] by simp
    moreover have "p + (i + k) < length buf" "buf ! (p + (i + k)) = LF" using drop_nth [OF d] by simp_all
    moreover have "skip_crlf buf (p + (i + k)) = p + (i + k) + 1" using skip_crlf_LF [OF d] by simp
    ultimately show ?thesis using l Nil lt by (subst bs_measure.simps) (auto simp: oyl_is_break_iff Let_def)
  next
    case (Cons c m')
    then have c: "c \<noteq> SP" "\<not> oyl_is_break c" using m line_ok_break [OF assms(2)] l by auto
    have d: "drop p buf = replicate (i + k) SP @ c # m' @ LF # r"
      using assms(1) l Cons by (simp add: replicate_add)
    have li: "spaces_at buf p = i + k" using spaces_at_eq [OF d] c by simp
    have at: "p + (i + k) < length buf" "buf ! (p + (i + k)) = c" using drop_nth [OF d] by simp_all
    have "drop (p + i) buf = l @ LF # r"
    proof -
      have "drop i (drop p buf) = l @ LF # r" using assms(1) by simp
      then show ?thesis by (simp add: add.commute)
    qed
    then have n: "oyl_scan_to_break b (drop (p + i) buf) = length l" using to_break_line [OF assms(2)] by simp
    have "skip_crlf buf (p + i + length l) = p + i + length l + 1"
      using skip_crlf_LF [of p buf "replicate i SP @ l" r] assms(1) by (simp add: add.assoc)
    with li at c(2) n lt assms(4) show ?thesis
      by (subst bs_measure.simps) (auto simp: Let_def add.assoc)
  qed
qed

lemma measure_lines:
  assumes "drop p buf = lines_text i ls @ rest" and "\<forall>l\<in>set ls. line_ok l" and "0 < i"
  shows "\<exists>n'. bs_measure b buf i p n = bs_measure b buf i (p + length (lines_text i ls)) n'"
  using assms(1,2)
proof (induction ls arbitrary: p n)
  case (Cons l ls)
  let ?q = "p + length (line_text i l)"
  have "\<exists>n'. bs_measure b buf i p n = bs_measure b buf i ?q n'"
  proof (cases "l = []")
    case True
    then show ?thesis using measure_empty [of p buf "lines_text i ls @ rest" b i n] Cons.prems(1) by (simp add: line_text_def)
  next
    case False
    then show ?thesis
      using measure_line [of p buf i l "lines_text i ls @ rest" b n] Cons.prems assms(3)
      by (simp add: line_text_def)
  qed
  then obtain n1 where 1: "bs_measure b buf i p n = bs_measure b buf i ?q n1" by blast
  have "drop (length (line_text i l)) (drop p buf) = lines_text i ls @ rest" using Cons.prems(1) by simp
  then have "drop ?q buf = lines_text i ls @ rest" by (simp add: add.commute)
  from Cons.IH [OF this, of n1] Cons.prems(2) 1 show ?case by (simp add: add.assoc)
qed auto

text \<open>What may follow a block scalar: nothing, a document marker, or a line of an outer block.\<close>

definition ends_block :: "byte list \<Rightarrow> nat \<Rightarrow> int \<Rightarrow> bool" where
  "ends_block buf p indent \<longleftrightarrow> p \<ge> length buf \<or>
     (let k = spaces_at buf p
      in p + k < length buf \<and> \<not> oyl_is_break (buf ! (p + k)) \<and>
         (k = 0 \<and> is_doc_indicator_at buf p \<or> int k \<le> indent \<and> buf ! (p + k) \<noteq> TAB))"

lemma measure_end: "ends_block buf p indent \<Longrightarrow> indent < int i \<Longrightarrow> bs_measure b buf i p n = Some (n, p)"
  by (subst bs_measure.simps) (auto simp: ends_block_def Let_def tab_line_def)


section \<open>The second pass\<close>

definition next_line :: "oyl_scanner \<Rightarrow> nat \<Rightarrow> oyl_scanner" where
  "next_line s n = skip_break_here (advance_cols s n)"

lemma next_line_eq:
  assumes "BUF_AT s = u @ LF # r" and "length u = n"
  shows "sc_pos (next_line s n) = sc_pos s + n + 1" "BUF_AT (next_line s n) = r" "sc_buf (next_line s n) = sc_buf s"
    "sc_sse42 (next_line s n) = sc_sse42 s"
proof -
  let ?t = "advance_cols s n"
  have b: "BUF_AT ?t = LF # r" using assms by (simp add: ahead)
  have p: "PEEK ?t = LF" "\<not> AT_END ?t" using ahead_Cons [OF b] by simp_all
  then have lf: "sc_buf ?t ! sc_pos ?t = LF" "\<not> length (sc_buf ?t) \<le> sc_pos ?t"
    by (auto simp: PEEK_def AT_END_def split: if_split_asm)
  then have "next_line s n = ?t\<lparr>sc_pos := sc_pos ?t + 1, sc_line := sc_line ?t + 1, sc_col := 1\<rparr>"
    using p by (simp add: next_line_def skip_break_here_def skip_break_def oyl_is_break_iff Let_def)
  then show "sc_pos (next_line s n) = sc_pos s + n + 1" "BUF_AT (next_line s n) = r" "sc_buf (next_line s n) = sc_buf s"
    "sc_sse42 (next_line s n) = sc_sse42 s"
    using ahead_Cons(3) [OF b] by (simp_all add: advance_cols_def BUF_AT_def)
qed

lemma BUF_AT_drop: "BUF_AT s = xs \<longleftrightarrow> drop (sc_pos s) (sc_buf s) = xs"
  by (simp add: BUF_AT_def)

lemma copy_empty:
  assumes "BUF_AT s = LF # r" and "sc_pos s < e"
  shows "bs_copy s i e False out ls = bs_copy (next_line s 0) i e False (out @ [LF]) ls"
proof -
  have d: "drop (sc_pos s) (sc_buf s) = replicate 0 SP @ LF # r" using assms(1) by (simp add: BUF_AT_def)
  show ?thesis
    using drop_nth [OF d] spaces_at_eq [OF d] assms(2)
    by (subst bs_copy.simps) (simp add: oyl_is_break_iff Let_def next_line_def)
qed

lemma copy_line:
  assumes "BUF_AT s = replicate i SP @ l @ LF # r" and "line_ok l" and "l \<noteq> []" and "0 < i"
    and "sc_pos s + i + length l < e"
  shows "bs_copy s i e False out ls = bs_copy (next_line s (i + length l)) i e False (out @ l @ [LF]) ls"
proof -
  obtain k m where l: "l = replicate k SP @ m" and m: "m = [] \<or> hd m \<noteq> SP" by (rule split_spaces)
  let ?s1 = "advance_cols s (i + k)"
  have b1: "BUF_AT ?s1 = m @ LF # r" using assms(1) l by (simp add: ahead)
  have okm: "line_ok m" using assms(2) l by (auto simp: line_ok_def)
  then have n: "oyl_scan_to_break (sc_sse42 s) (BUF_AT ?s1) = length m" unfolding b1 by (rule to_break_line)
  obtain c r' where c: "m @ LF # r = c # r'" "c \<noteq> SP" "m \<noteq> [] \<Longrightarrow> \<not> oyl_is_break c" "m = [] \<Longrightarrow> oyl_is_break c"
  proof (cases m)
    case (Cons c m')
    then show ?thesis using m okm line_ok_break [OF okm, of c] by (intro that [of c "m' @ LF # r"]) auto
  qed (auto intro: that [of LF r] simp: oyl_is_break_iff)
  have d: "drop (sc_pos s) (sc_buf s) = replicate (i + k) SP @ c # r'"
    using assms(1) l c(1) by (simp add: BUF_AT_def replicate_add)
  have li: "spaces_at (sc_buf s) (sc_pos s) = i + k" using spaces_at_eq [OF d c(2)] .
  have at: "sc_pos s + (i + k) < length (sc_buf s)" "sc_buf s ! (sc_pos s + (i + k)) = c"
    using drop_nth [OF d] by simp_all
  let ?br = "sc_pos s + (i + k) \<ge> e \<or> sc_pos s + (i + k) < length (sc_buf s) \<and> oyl_is_break (sc_buf s ! (sc_pos s + (i + k)))"
  have br: "?br \<longleftrightarrow> m = []" using c(3,4) at assms(5) l by auto
  have go: "\<not> (?br \<and> i + k \<le> i)" "\<not> (\<not> ?br \<and> i + k < i)"
    using br assms(3) l by auto
  have "bs_copy s i e False out ls =
      bs_copy (skip_break_here (advance_cols ?s1 (length m))) i e False (out @ (replicate k SP @ take (length m) (BUF_AT ?s1)) @ [LF]) ls"
    using assms(5) at go n by (subst bs_copy.simps) (simp only: Let_def li, simp add: cols_cols)
  then show ?thesis using l b1 by (simp add: next_line_def cols_cols add.assoc)
qed

lemma copy_lines:
  assumes "BUF_AT s = lines_text i ls @ rest" and "\<forall>l\<in>set ls. line_ok l" and "0 < i"
    and "e = sc_pos s + length (lines_text i ls)"
  shows "\<exists>s'. bs_copy s i e False out L = (out @ unlines ls, L, s') \<and> sc_pos s' = e"
  using assms(1,2,4)
proof (induction ls arbitrary: s out)
  case Nil
  then show ?case by (simp add: bs_copy.simps [of s])
next
  case (Cons l ls)
  let ?n = "length (line_text i l) - 1"
  have step: "bs_copy s i e False out L = bs_copy (next_line s ?n) i e False (out @ l @ [LF]) L"
    using copy_empty [of s _ e i out L] copy_line [of s i l _ e out L] Cons.prems assms(3)
    by (cases "l = []") (simp_all add: line_text_def)
  have "BUF_AT s = butlast (line_text i l) @ LF # lines_text i ls @ rest"
    using Cons.prems(1) by (simp add: line_text_def)
  note nl = next_line_eq [OF this, of ?n]
  have "line_text i l \<noteq> []" by (simp add: line_text_def)
  then have "Suc ?n = length (line_text i l)" by (cases "line_text i l") auto
  then have "e = sc_pos (next_line s ?n) + length (lines_text i ls)"
    using Cons.prems(3) nl(1) by simp
  moreover have "BUF_AT (next_line s ?n) = lines_text i ls @ rest" using nl(2) by simp
  ultimately obtain s' where "bs_copy (next_line s ?n) i e False (out @ l @ [LF]) L = ((out @ l @ [LF]) @ unlines ls, L, s')"
    "sc_pos s' = e"
    using Cons.IH [of "next_line s ?n" "out @ l @ [LF]"] Cons.prems(2) by auto
  then show ?case using step by simp
qed

section \<open>The indentation\<close>

lemma probe_empty: "drop p buf = LF # r \<Longrightarrow> bs_probe buf indent p 0 = bs_probe buf indent (p + 1) 0"
  using drop_nth [of p buf "[]" LF r] spaces_at_eq [of p buf 0 LF r] skip_crlf_LF [of p buf "[]" r]
  by (subst bs_probe.simps) (auto simp: oyl_is_break_iff Let_def is_doc_indicator_at_def)

lemma probe_empties: "drop p buf = replicate k LF @ r \<Longrightarrow> bs_probe buf indent p 0 = bs_probe buf indent (p + k) 0"
proof (induction k arbitrary: p)
  case (Suc k)
  then have d: "drop p buf = LF # replicate k LF @ r" by simp
  then have "drop 1 (drop p buf) = replicate k LF @ r" by simp
  then have "drop (p + 1) buf = replicate k LF @ r" by (simp only: drop_drop add.commute)
  from Suc.IH [OF this] probe_empty [OF d] show ?case by simp
qed simp

lemma probe_content:
  assumes "drop p buf = replicate i SP @ c # r" and "c \<noteq> SP" and "\<not> oyl_is_break c" and "0 < i" and "indent < int i"
  shows "bs_probe buf indent p 0 = Inr (Some i, 0)"
  using drop_nth [OF assms(1)] spaces_at_eq [OF assms(1,2)] assms(3-5)
  by (subst bs_probe.simps) (simp add: Let_def)

lemma probe_end:
  assumes "ends_block buf p indent"
  shows "bs_probe buf indent p 0 = Inr (None, 0)"
proof (cases "p < length buf")
  case True
  then show ?thesis using assms
    by (subst bs_probe.simps) (auto simp: ends_block_def Let_def)
qed (simp add: bs_probe.simps [of buf indent p])


section \<open>The text of a literal scalar, as lines\<close>

function lines_of :: "byte list \<Rightarrow> byte list list" where
  "lines_of body =
    (if body = [] then []
     else takeWhile (\<lambda>c. c \<noteq> LF) body # lines_of (drop (length (takeWhile (\<lambda>c. c \<noteq> LF) body) + 1) body))"
  by pat_completeness auto
termination
  by (relation "measure length") auto

declare lines_of.simps [simp del]

lemma lines_of_Nil [simp]: "lines_of [] = []"
  by (simp add: lines_of.simps)

lemma literal_body_lines: "literal_body indent body = lines_text (nat indent) (lines_of body)"
proof (induction body rule: lines_of.induct)
  case (1 body)
  then show ?case
    by (cases "body = []")
      (simp_all add: literal_body.simps [of indent body] lines_of.simps [of body] literal_body.simps [of indent "[]"]
        line_text_def spaces_def Let_def)
qed

lemma lines_of_ok: "CR \<notin> set body \<Longrightarrow> l \<in> set (lines_of body) \<Longrightarrow> line_ok l"
proof (induction body rule: lines_of.induct)
  case (1 body)
  let ?l = "takeWhile (\<lambda>c. c \<noteq> LF) body" and ?r = "drop (length (takeWhile (\<lambda>c. c \<noteq> LF) body) + 1) body"
  have ne: "body \<noteq> []" using "1.prems"(2) by auto
  have "line_ok ?l" using "1.prems"(1) by (auto simp: line_ok_def dest: set_takeWhileD)
  moreover have "CR \<notin> set ?r" using "1.prems"(1) in_set_dropD by fast
  moreover have "l = ?l \<or> l \<in> set (lines_of ?r)" using "1.prems"(2) ne lines_of.simps [of body] by simp
  ultimately show ?case using "1.IH" [OF ne] by blast
qed

lemma unlines_of: "body \<noteq> [] \<Longrightarrow> last body \<noteq> LF \<Longrightarrow> unlines (lines_of body) = body @ [LF]"
proof (induction body rule: lines_of.induct)
  case (1 body)
  let ?l = "takeWhile (\<lambda>c. c \<noteq> LF) body"
  show ?case
  proof (cases "dropWhile (\<lambda>c. c \<noteq> LF) body")
    case Nil
    then have "?l = body" using takeWhile_dropWhile_id [of "\<lambda>c. c \<noteq> LF" body] by simp
    then show ?thesis using "1.prems"(1) lines_of.simps [of body] by (simp only:) simp
  next
    case (Cons d r)
    then have "d = LF" using hd_dropWhile [of "\<lambda>c. c \<noteq> LF" body] by simp
    then have b: "body = ?l @ LF # r" using Cons takeWhile_dropWhile_id [of "\<lambda>c. c \<noteq> LF" body] by simp
    then have r: "r \<noteq> []" "last r \<noteq> LF" using "1.prems"(2) by (metis last_snoc, metis last.simps last_append list.distinct(1))
    have "drop (length ?l + 1) body = r" using arg_cong [OF b, of "drop (length ?l + 1)"] by simp
    then have "unlines (lines_of body) = ?l @ LF # (r @ [LF])"
      using "1.IH" [OF "1.prems"(1)] r "1.prems"(1) by (subst lines_of.simps) simp
    also have "\<dots> = body @ [LF]" using arg_cong [OF b, of "\<lambda>x. x @ [LF]"] by simp
    finally show ?thesis .
  qed
qed

text \<open>A value is its text up to the last byte that is not a line feed, and its trailing breaks.\<close>

lemma split_trail:
  obtains b where "v = b @ replicate (trailing_breaks v) LF" and "b = [] \<or> last b \<noteq> LF"
    and "take (length v - trailing_breaks v) v = b" and "length b = length v - trailing_breaks v"
proof -
  let ?b = "rev (dropWhile (\<lambda>c. c = LF) (rev v))"
  have "takeWhile (\<lambda>c. c = LF) (rev v) = replicate (trailing_breaks v) LF"
    unfolding trailing_breaks_def by (rule replicate_length_same [symmetric]) (auto dest: set_takeWhileD)
  then have "rev v = replicate (trailing_breaks v) LF @ rev ?b"
    using takeWhile_dropWhile_id [of "\<lambda>c. c = LF" "rev v"] by simp
  then have v: "v = ?b @ replicate (trailing_breaks v) LF"
    by (metis rev_append rev_replicate rev_rev_ident)
  then have len: "length v = length ?b + trailing_breaks v" by (metis length_append length_replicate)
  have "take (length v - trailing_breaks v) v = ?b"
    using len arg_cong [OF v, of "take (length ?b)"] by simp
  moreover have "?b = [] \<or> last ?b \<noteq> LF"
    using hd_dropWhile [of "\<lambda>c. c = LF" "rev v"] by (auto simp: last_rev)
  ultimately show ?thesis using that [of ?b] v len by simp
qed

definition literal_lines_of :: "byte list \<Rightarrow> byte list list" where
  "literal_lines_of v =
    (let trail = trailing_breaks v; body = take (length v - trail) v
     in lines_of body @ replicate (if body = [] then trail else trail - 1) [])"

definition literal_chomp :: "byte list \<Rightarrow> int" where
  "literal_chomp v =
    (let trail = trailing_breaks v
     in if trail = 0 then - 1 else if trail = 1 \<and> length v \<noteq> 1 then 0 else 1)"

lemma lines_text_empties [simp]: "lines_text i (replicate k []) = replicate k LF"
  by (induction k) (simp_all add: line_text_def)

lemma unlines_empties [simp]: "unlines (replicate k []) = replicate k LF"
  by (induction k) simp_all

definition chomp_mark :: "int \<Rightarrow> byte list" where
  "chomp_mark chomp = (if chomp = - 1 then [DASH] else if chomp = 0 then [] else [PLUS])"

lemma literal_text_lines:
  "literal_text indent v =
     PIPE # chomp_mark (literal_chomp v) @ LF # lines_text (nat indent) (literal_lines_of v)"
proof -
  obtain b where b: "v = b @ replicate (trailing_breaks v) LF" "b = [] \<or> last b \<noteq> LF"
    "take (length v - trailing_breaks v) v = b" "length b = length v - trailing_breaks v" by (rule split_trail)
  have "length v \<noteq> 1 \<longleftrightarrow> b \<noteq> []" if "trailing_breaks v = 1"
    using that arg_cong [OF b(1), of length] by simp
  then show ?thesis
    using b(3,4) by (auto simp: literal_text_def literal_lines_of_def Let_def literal_header_def literal_chomp_def
        chomp_mark_def literal_body_lines)
qed

text \<open>Chomping the lines gives the value back.\<close>

lemma chomp_lines: "bs_chomp (literal_chomp v) (unlines (literal_lines_of v)) = v"
proof -
  obtain b where b: "v = b @ replicate (trailing_breaks v) LF" "b = [] \<or> last b \<noteq> LF"
    "take (length v - trailing_breaks v) v = b" "length b = length v - trailing_breaks v" by (rule split_trail)
  show ?thesis
  proof (cases "b = []")
    case True
    have "unlines (literal_lines_of v) = replicate (trailing_breaks v) LF"
      unfolding literal_lines_of_def Let_def b(3) by (simp add: True)
    then have "unlines (literal_lines_of v) = v" using b(1) True by simp
    moreover have "literal_chomp v = 1 \<or> v = []"
      using b(1) True arg_cong [OF b(1), of length] by (auto simp: literal_chomp_def Let_def)
    ultimately show ?thesis by (auto simp: bs_chomp_def chomp_strip_def chomp_clip_def)
  next
    case False
    then obtain b' c where bc: "b = b' @ [c]" "c \<noteq> LF" using b(2) by (cases b rule: rev_cases) auto
    have out: "unlines (literal_lines_of v) = b @ LF # replicate (trailing_breaks v - 1) LF"
      unfolding literal_lines_of_def Let_def b(3) using b(2) False unlines_of [of b] by simp
    consider "trailing_breaks v = 0" | "trailing_breaks v = 1" | "trailing_breaks v > 1" by linarith
    then show ?thesis
    proof cases
      case 1
      then show ?thesis using out b(1) bc by (simp add: literal_chomp_def bs_chomp_def chomp_strip_def)
    next
      case 2
      then have "length v \<noteq> 1" using arg_cong [OF b(1), of length] False by simp
      then show ?thesis using 2 out b(1) bc by (simp add: literal_chomp_def bs_chomp_def chomp_clip_def Let_def)
    next
      case 3
      then obtain k where "trailing_breaks v = Suc (Suc k)" by (metis Suc_lessE less_imp_Suc_add One_nat_def)
      then show ?thesis using out b(1) by (simp add: literal_chomp_def bs_chomp_def Let_def)
    qed
  qed
qed


section \<open>The header\<close>

lemma indicators_read:
  assumes "BUF_AT s = chomp_mark c @ LF # r" and "c \<in> {- 1, 0, 1}"
  shows "bs_indicators 2 s 0 0 = (c, 0, advance_cols s (length (chomp_mark c)))"
proof -
  have stop: "bs_indicators n t k e = (k, e, t)" if "BUF_AT t = LF # r" for n t k e
    using ahead_Cons [OF that] by (cases n) (simp_all add: oyl_is_break_iff)
  show ?thesis
  proof (cases "c = 0")
    case True
    then show ?thesis using stop [of s 2 0 0] assms(1) by (simp add: chomp_mark_def ahead)
  next
    case False
    then obtain d where d: "chomp_mark c = [d]" "d = (if c = - 1 then DASH else PLUS)"
      using assms(2) by (auto simp: chomp_mark_def)
    then have b: "BUF_AT s = d # LF # r" using assms(1) by simp
    have "d \<noteq> LF" using d by (auto split: if_splits)
    then have a: "advance1 s = advance_cols s 1" by (rule advance1_cols [OF b])
    have "bs_indicators (Suc 1) s 0 0 = bs_indicators 1 (advance_cols s 1) c 0"
      using ahead_Cons(1,2) [OF b] a d(2) assms(2) False
      by (simp only: bs_indicators.simps advance_1) (auto simp: oyl_is_break_iff)
    then have "bs_indicators 2 s 0 0 = bs_indicators 1 (advance_cols s 1) c 0" by (simp only: Suc_1)
    then show ?thesis using stop [of "advance_cols s 1" 1 c 0] ahead_Cons(3) [OF b] d(1) by simp
  qed
qed

lemma header_end_read:
  assumes "BUF_AT s = LF # r"
  shows "bs_header_end s = (None, next_line s 0)"
proof -
  have "advance_blanks s = s" using ahead_Cons(1) [OF assms] by (simp add: advance_blanks.simps oyl_is_blank_iff)
  then show ?thesis
    using ahead_Cons(1,2) [OF assms]
    by (simp add: bs_header_end_def next_line_def skip_break_here_def oyl_is_break_iff cols_0 Let_def)
qed

text \<open>The indentation found is the one the lines were written with, if there is a line that shows it.\<close>

lemma base_read:
  assumes "BUF_AT s = lines_text i (literal_lines_of v) @ rest" and "literal_ok v" and "0 < i" and "sc_indent s < int i"
    and "ends_block (sc_buf s) (sc_pos s + length (lines_text i (literal_lines_of v))) (sc_indent s)"
  obtains base where "bs_base_indent s 0 = Inr base" and "0 < base" and "sc_indent s < int base"
    and "lines_text base (literal_lines_of v) = lines_text i (literal_lines_of v)"
proof -
  obtain b where b: "v = b @ replicate (trailing_breaks v) LF" "b = [] \<or> last b \<noteq> LF"
    "take (length v - trailing_breaks v) v = b" "length b = length v - trailing_breaks v" by (rule split_trail)
  have d: "drop (sc_pos s) (sc_buf s) = lines_text i (literal_lines_of v) @ rest"
    using assms(1) by (simp add: BUF_AT_def)
  show ?thesis
  proof (cases "b = []")
    case True
    then have lines: "literal_lines_of v = replicate (trailing_breaks v) []"
      unfolding literal_lines_of_def Let_def b(3) by simp
    have "bs_probe (sc_buf s) (sc_indent s) (sc_pos s) 0 = Inr (None, 0)"
      using probe_empties [of "sc_pos s" "sc_buf s" "trailing_breaks v" rest] probe_end assms(5) d lines by simp
    then have "bs_base_indent s 0 = Inr (nat (if sc_indent s + 1 < 1 then 1 else sc_indent s + 1))"
      by (simp add: bs_base_indent_def)
    then show ?thesis using lines by (intro that) (auto split: if_splits)
  next
    case False
    define w where "w = dropWhile (\<lambda>c. c = LF) b"
    let ?k = "length (takeWhile (\<lambda>c. c = LF) b)"
    have "takeWhile (\<lambda>c. c = LF) b = replicate ?k LF"
      by (rule replicate_length_same [symmetric]) (auto dest: set_takeWhileD)
    then have bw: "b = replicate ?k LF @ w" using takeWhile_dropWhile_id [of "\<lambda>c. c = LF" b] by (simp add: w_def)
    have "w \<noteq> []" using False b(2) last_in_set by (auto simp: w_def dropWhile_eq_Nil_conv)
    then obtain c w' where w: "w = c # w'" by (cases w) auto
    have "hd w \<noteq> LF" using hd_dropWhile [of "\<lambda>c. c = LF" b] \<open>w \<noteq> []\<close> unfolding w_def by blast
    then have "c \<noteq> LF" using w by simp
    have dw: "dropWhile (\<lambda>c. c = LF) (replicate k LF @ c # x) = c # x" for k x
      using \<open>c \<noteq> LF\<close> by (induction k) auto
    define x where "x = w' @ replicate (trailing_breaks v) LF"
    have v: "v = replicate ?k LF @ c # x"
      using b(1) arg_cong [OF bw, of "\<lambda>y. y @ replicate (trailing_breaks v) LF"] w by (simp add: x_def)
    then have "dropWhile (\<lambda>c. c = LF) v = c # x" using dw by metis
    moreover have "c \<in> set v" by (subst v) simp
    ultimately have "c \<noteq> SP" and "c \<noteq> CR"
      using assms(2) by (auto simp: literal_ok_def list_ex_iff Let_def split: if_split_asm)
    then have "\<not> oyl_is_break c" using \<open>c \<noteq> LF\<close> by (simp add: oyl_is_break_iff)
    have ls: "lines_of (replicate k LF @ w) = replicate k [] @ lines_of w" for k
      by (induction k) (simp_all add: lines_of.simps [of "LF # x" for x])
    obtain m r1 where "lines_of w = (c # m) # r1"
      using w \<open>c \<noteq> LF\<close> lines_of.simps [of w] by simp
    with ls [of ?k] have "literal_lines_of v = replicate ?k [] @ (c # m) # r1 @ replicate (trailing_breaks v - 1) []"
      unfolding literal_lines_of_def Let_def b(3) bw [symmetric] using False by simp
    then obtain r where d': "drop (sc_pos s) (sc_buf s) = replicate ?k LF @ replicate i SP @ c # r"
      using d by (simp add: line_text_def)
    have "drop (sc_pos s + ?k) (sc_buf s) = replicate i SP @ c # r"
      using arg_cong [OF d', of "drop ?k"] by (simp add: add.commute)
    then have "bs_probe (sc_buf s) (sc_indent s) (sc_pos s) 0 = Inr (Some i, 0)"
      using probe_empties [OF d'] probe_content \<open>c \<noteq> SP\<close> \<open>\<not> oyl_is_break c\<close> assms(3,4) by simp
    then show ?thesis using assms(3,4) by (intro that [of i]) (simp_all add: bs_base_indent_def)
  qed
qed


section \<open>The token\<close>

text \<open>
  Like \<open>reads_or_memory\<close> for a text of several lines: the token's marks are the two ends of the text.
\<close>

definition reads_block :: "oyl_scanner \<Rightarrow> scan_result \<Rightarrow> byte list \<Rightarrow> byte list \<Rightarrow> bool" where
  "reads_block s r w v \<longleftrightarrow>
     (\<exists>s'. r = (Inr (tok_scalar v OYL_SCALAR_LITERAL (mark s) (mark s')), s') \<and> same_struct s s' \<and>
        sc_pos s' = sc_pos s + length w) \<or>
     False \<in> set (sc_mem s) \<and> fst r = Inl OYL_ERR_MEMORY"

lemma body_read:
  assumes "BUF_AT t = lines_text i (literal_lines_of v) @ rest" and "literal_ok v" and "0 < i" and "sc_indent t < int i"
    and "ends_block (sc_buf t) (sc_pos t + length (lines_text i (literal_lines_of v))) (sc_indent t)"
  shows "(\<exists>s'. bs_body t k False (literal_chomp v) 0 = (Inr (tok_scalar v OYL_SCALAR_LITERAL k (mark s')), s') \<and>
        sc_pos s' = sc_pos t + length (lines_text i (literal_lines_of v))) \<or>
     False \<in> set (sc_mem t) \<and> fst (bs_body t k False (literal_chomp v) 0) = Inl OYL_ERR_MEMORY"
proof -
  let ?ls = "literal_lines_of v"
  obtain base where base: "bs_base_indent t 0 = Inr base" "0 < base" "sc_indent t < int base"
    "lines_text base ?ls = lines_text i ?ls" by (rule base_read [OF assms])
  have ok: "\<forall>l\<in>set ?ls. line_ok l"
  proof -
    have "\<forall>x\<in>set v. \<not> (x < 0x20 \<and> x \<noteq> LF \<and> x \<noteq> TAB \<or> x = DEL)"
      using assms(2) unfolding literal_ok_def list_ex_iff by metis
    then have "CR \<notin> set v" by force
    then have "CR \<notin> set (take n v)" for n using in_set_takeD by fast
    from lines_of_ok [OF this] show ?thesis
      by (simp add: literal_lines_of_def Let_def ball_Un) (simp add: line_ok_def)
  qed
  let ?e = "sc_pos t + length (lines_text i ?ls)"
  have b: "BUF_AT t = lines_text base ?ls @ rest" using assms(1) base(4) by simp
  obtain n where "bs_measure (sc_sse42 t) (sc_buf t) base (sc_pos t) 0 = bs_measure (sc_sse42 t) (sc_buf t) base ?e n"
    using measure_lines [OF b [unfolded BUF_AT_def] ok base(2), of "sc_sse42 t" 0] unfolding base(4) by blast
  then have measured: "bs_measure (sc_sse42 t) (sc_buf t) base (sc_pos t) 0 = Some (n, ?e)"
    using measure_end [OF assms(5) base(3)] by simp
  let ?m = "snd (mem_take (sc_mem t))"
  obtain s' where "bs_copy (t\<lparr>sc_mem := ?m\<rparr>) base ?e False [] [] = ([] @ unlines ?ls, [], s')" "sc_pos s' = ?e"
    using copy_lines [of "t\<lparr>sc_mem := ?m\<rparr>" base ?ls rest ?e "[]" "[]"] b ok base(2,4) by (auto simp: mem_ahead)
  note copied = this
  obtain ok m where m: "mem_take (sc_mem t) = (ok, m)" by fastforce
  show ?thesis
  proof (cases ok)
    case True
    then have "bs_body t k False (literal_chomp v) 0 = (Inr (tok_scalar v OYL_SCALAR_LITERAL k (mark s')), s')"
      using base(1) measured copied(1) m chomp_lines [of v] by (simp add: bs_body_def Let_def)
    then show ?thesis using copied(2) by blast
  next
    case False
    then show ?thesis using base(1) measured m mem_take_set [OF m] by (simp add: bs_body_def Let_def)
  qed
qed

lemma scan_literal_reads:
  assumes "BUF_AT s = literal_text indent v @ rest" and "literal_ok v" and "0 < indent" and "sc_indent s < indent"
    and "ends_block (sc_buf s) (sc_pos s + length (literal_text indent v)) (sc_indent s)"
  shows "reads_block s (scan_block_scalar s) (literal_text indent v) v"
proof -
  let ?c = "literal_chomp v" and ?t = "lines_text (nat indent) (literal_lines_of v)"
  let ?n = "length (chomp_mark (literal_chomp v))"
  have b: "BUF_AT s = PIPE # chomp_mark ?c @ LF # ?t @ rest" using assms(1) by (simp add: literal_text_lines)
  have c: "?c \<in> {- 1, 0, 1}" by (simp add: literal_chomp_def Let_def)
  have a: "advance1 s = advance_cols s 1" by (rule advance1_cols [OF b]) simp
  have b1: "BUF_AT (advance_cols s 1) = chomp_mark ?c @ LF # ?t @ rest" using ahead_Cons(3) [OF b] .
  define h where "h = advance_cols s (1 + ?n)"
  have ind: "bs_indicators 2 (advance_cols s 1) 0 0 = (?c, 0, h)"
    using indicators_read [OF b1 c] by (simp add: h_def cols_cols)
  have bh: "BUF_AT h = LF # ?t @ rest" using b by (simp add: h_def BUF_AT_cols)
  define t where "t = next_line h 0"
  note nl = next_line_eq [of h "[]" "?t @ rest" 0, folded t_def]
  have t: "sc_pos t = sc_pos s + (?n + 2)" "BUF_AT t = ?t @ rest" "sc_buf t = sc_buf s"
    using nl bh by (simp_all add: h_def advance_cols_def)
  have eqs: "sc_mem t = sc_mem s" "sc_indent t = sc_indent s"
    by (simp_all add: t_def h_def next_line_def skip_break_here_def skip_break_def advance_cols_def Let_def)
  have r: "scan_block_scalar s = bs_body t (mark s) False ?c 0"
    using ind header_end_read [OF bh] ahead_Cons(1) [OF b] a
    by (simp add: scan_block_scalar_def t_def [symmetric])
  have len: "length (literal_text indent v) = ?n + 2 + length ?t" by (simp add: literal_text_lines)
  have struct: "bs_body t (mark s) False ?c 0 = (Inr tok, s') \<Longrightarrow> same_struct s s'" for tok s'
    using scan_block_scalar_moves [of s] r moves_struct by metis
  note body_read [OF t(2) assms(2), of "mark s"]
  moreover have "ends_block (sc_buf t) (sc_pos t + length ?t) (sc_indent t)"
    using assms(5) len t(1,3) eqs(2) by (simp only: add.assoc [symmetric])
  ultimately have "(\<exists>s'. bs_body t (mark s) False ?c 0 = (Inr (tok_scalar v OYL_SCALAR_LITERAL (mark s) (mark s')), s') \<and>
        sc_pos s' = sc_pos t + length ?t) \<or>
     False \<in> set (sc_mem s) \<and> fst (bs_body t (mark s) False ?c 0) = Inl OYL_ERR_MEMORY"
    using assms(3,4) eqs by simp
  moreover have "sc_pos t + length ?t = sc_pos s + length (literal_text indent v)" using t(1) len by simp
  ultimately show ?thesis using struct unfolding reads_block_def r by metis
qed

end
