(* ===== verification/OylScalarTrip.thy ===== *)
theory OylScalarTrip
  imports OylBlockTrip
begin

text \<open>
  Reading back what the emitter wrote, from the dispatch of the scanner on the first byte of a
  token: scalars in the style that \<open>choose_style\<close> picks, anchors, aliases and tags. So the choice
  of style (which quotes, or none) never changes the value a scalar has.
\<close>

section \<open>From the dispatch to the routine\<close>

lemma flag_ahead [ahead]:
  "BUF_AT (s\<lparr>sc_last_was_quoted := q\<rparr>) = BUF_AT s" "mark (s\<lparr>sc_last_was_quoted := q\<rparr>) = mark s"
  "advance_cols (s\<lparr>sc_last_was_quoted := q\<rparr>) n = (advance_cols s n)\<lparr>sc_last_was_quoted := q\<rparr>"
  "PEEK (s\<lparr>sc_last_was_quoted := q\<rparr>) = PEEK s" "PEEK_AT (s\<lparr>sc_last_was_quoted := q\<rparr>) n = PEEK_AT s n"
  "AT_END (s\<lparr>sc_last_was_quoted := q\<rparr>) = AT_END s" "REMAINING (s\<lparr>sc_last_was_quoted := q\<rparr>) = REMAINING s"
  "skip_break (s\<lparr>sc_last_was_quoted := q\<rparr>) = (skip_break s)\<lparr>sc_last_was_quoted := q\<rparr>"
  "skip_white (s\<lparr>sc_last_was_quoted := q\<rparr>) = (skip_white s)\<lparr>sc_last_was_quoted := q\<rparr>"
  by (simp_all add: BUF_AT_def mark_def advance_cols_def PEEK_def PEEK_AT_def AT_END_def REMAINING_def
      skip_break_def skip_white_def Let_def)

lemma spec_breaks_flag:
  "spec_breaks s n = (t, k) \<Longrightarrow>
     spec_breaks (s\<lparr>sc_last_was_quoted := q\<rparr>) n = (t\<lparr>sc_last_was_quoted := q\<rparr>, k)"
proof (induction s n rule: spec_breaks.induct)
  case (1 s n)
  have u: "spec_breaks (s\<lparr>sc_last_was_quoted := q\<rparr>) n =
      (if oyl_is_break (PEEK s) then spec_breaks ((skip_white (skip_break s))\<lparr>sc_last_was_quoted := q\<rparr>) (n + 1)
       else (s\<lparr>sc_last_was_quoted := q\<rparr>, n))"
    by (subst spec_breaks.simps) (simp add: flag_ahead)
  from 1 show ?case unfolding u by (auto simp: spec_breaks.simps [of s] split: if_split_asm)
qed

lemma ends_scalar_flag: "ends_scalar (s\<lparr>sc_last_was_quoted := q\<rparr>) = ends_scalar s"
proof -
  obtain t k where t: "spec_breaks s 0 = (t, k)" by fastforce
  show ?thesis
    using spec_breaks_flag [OF t, of q] t by (simp add: ends_scalar_def plain_line_ends_def flag_ahead Let_def)
qed

lemma reads_flag: "reads_or_memory (s\<lparr>sc_last_was_quoted := q\<rparr>) r w v style \<Longrightarrow> reads_or_memory s r w v style"
  by (auto simp: reads_or_memory_def reads_def flag_ahead same_struct_def)

lemma reads_block_flag: "reads_block (s\<lparr>sc_last_was_quoted := q\<rparr>) r w v \<Longrightarrow> reads_block s r w v"
  by (auto simp: reads_block_def flag_ahead same_struct_def)

text \<open>The cursor is at a content token: not a document marker, a directive or an indicator.\<close>

definition at_content :: "oyl_scanner \<Rightarrow> bool" where
  "at_content s \<longleftrightarrow> \<not> at_doc_indicator s DASH \<and> \<not> at_doc_indicator s DOT \<and> PEEK s \<noteq> PERCENT \<and>
     \<not> oyl_is_flow (PEEK s) \<and>
     (PEEK s = DASH \<or> PEEK s = QMARK \<or> PEEK s = COLON \<longrightarrow> \<not> blank_or_end (PEEK_AT s 1)) \<and>
     (PEEK s = COLON \<and> sc_flow_level s > 0 \<longrightarrow> \<not> oyl_is_flow (PEEK_AT s 1) \<and> \<not> sc_last_was_quoted s)"

lemma token_at_content: "at_content s \<Longrightarrow> scan_token_at s = Some (scan_content (s\<lparr>sc_last_was_quoted := False\<rparr>))"
  unfolding at_content_def scan_token_at_def scan_indicator_def Let_def oyl_is_flow_iff by auto

lemma at_doc_indicator_ahead:
  assumes "at_doc_indicator s d"
  obtains r where "BUF_AT s = d # d # d # r"
proof -
  have 3: "3 \<le> length (BUF_AT s)" using assms by (auto simp: at_doc_indicator_def split: if_split_asm)
  then obtain x xs where 1: "BUF_AT s = x # xs" "2 \<le> length xs" by (cases "BUF_AT s") auto
  then obtain y ys where 2: "xs = y # ys" "1 \<le> length ys" by (cases xs) auto
  then obtain z r where 3: "ys = z # r" by (cases ys) auto
  have "x = d \<and> y = d \<and> z = d"
    using assms nth_BUF_AT [of 0 s] nth_BUF_AT [of 1 s] nth_BUF_AT [of 2 s] 1 2 3
    by (auto simp: at_doc_indicator_def split: if_split_asm)
  then show ?thesis using that 1 2 3 by simp
qed

text \<open>A byte that is never a marker or an indicator in the sense of the dispatch.\<close>

lemma at_content_byte:
  assumes "PEEK s = c" and "c \<noteq> 0"
    and "\<not> oyl_is_flow c" and "c \<noteq> PERCENT" and "c \<noteq> DASH" and "c \<noteq> DOT" and "c \<noteq> QMARK" and "c \<noteq> COLON"
  shows "at_content s"
proof -
  have "\<not> at_doc_indicator s d" if "d \<noteq> c" for d
  proof
    assume "at_doc_indicator s d"
    then obtain r where "BUF_AT s = d # d # d # r" by (rule at_doc_indicator_ahead)
    then show False using ahead_Cons(1) [of s d] assms(1) that by simp
  qed
  then show ?thesis using assms by (auto simp: at_content_def)
qed

section \<open>Scalars\<close>

text \<open>The text of a scalar in a style, as \<open>emit_scalar\<close> writes it.\<close>

fun scalar_text :: "oyl_scalar_style \<Rightarrow> int \<Rightarrow> byte list \<Rightarrow> byte list" where
  "scalar_text OYL_SCALAR_PLAIN indent v = v"
| "scalar_text OYL_SCALAR_SINGLE_QUOTED indent v = single_quoted_text v"
| "scalar_text OYL_SCALAR_DOUBLE_QUOTED indent v = double_quoted_text v"
| "scalar_text OYL_SCALAR_LITERAL indent v = literal_text indent v"
| "scalar_text OYL_SCALAR_FOLDED indent v = literal_text indent v"

lemma double_quoted_token:
  assumes "BUF_AT s = double_quoted_text v @ rest"
  shows "\<exists>r. scan_token_at s = Some r \<and> reads_or_memory s r (double_quoted_text v) v OYL_SCALAR_DOUBLE_QUOTED"
proof -
  let ?t = "s\<lparr>sc_last_was_quoted := False\<rparr>"
  have p: "PEEK s = DQUOTE" using assms by (simp add: PEEK_ahead double_quoted_text_def)
  have "at_content s" by (rule at_content_byte [OF p]) (simp_all add: oyl_is_flow_iff)
  moreover have "scan_content ?t = scan_double_quoted ?t"
    using p by (simp add: scan_content_def flag_ahead)
  moreover have "reads_or_memory s (scan_double_quoted ?t) (double_quoted_text v) v OYL_SCALAR_DOUBLE_QUOTED"
    using assms by (intro reads_flag [OF scan_double_quoted_reads]) (simp add: flag_ahead)
  ultimately show ?thesis using token_at_content by auto
qed

lemma single_quoted_token:
  assumes "BUF_AT s = single_quoted_text v @ rest" and "\<not> has_break v" and "rest = [] \<or> hd rest \<noteq> SQUOTE"
  shows "\<exists>r. scan_token_at s = Some r \<and> reads_or_memory s r (single_quoted_text v) v OYL_SCALAR_SINGLE_QUOTED"
proof -
  let ?t = "s\<lparr>sc_last_was_quoted := False\<rparr>"
  have p: "PEEK s = SQUOTE" using assms(1) by (simp add: PEEK_ahead single_quoted_text_def)
  have "at_content s" by (rule at_content_byte [OF p]) (simp_all add: oyl_is_flow_iff)
  moreover have "scan_content ?t = scan_single_quoted ?t"
    using p by (simp add: scan_content_def flag_ahead)
  moreover have "reads_or_memory s (scan_single_quoted ?t) (single_quoted_text v) v OYL_SCALAR_SINGLE_QUOTED"
    using assms by (intro reads_flag [OF scan_single_quoted_reads]) (auto simp: flag_ahead)
  ultimately show ?thesis using token_at_content by auto
qed

lemma literal_token:
  assumes "BUF_AT s = literal_text indent v @ rest" and "literal_ok v" and "0 < indent" and "sc_indent s < indent"
    and "ends_block (sc_buf s) (sc_pos s + length (literal_text indent v)) (sc_indent s)" and "sc_flow_level s = 0"
  shows "\<exists>r. scan_token_at s = Some r \<and> reads_block s r (literal_text indent v) v"
proof -
  let ?t = "s\<lparr>sc_last_was_quoted := False\<rparr>"
  have p: "PEEK s = PIPE" using assms(1) by (simp add: PEEK_ahead literal_text_lines)
  have "at_content s" by (rule at_content_byte [OF p]) (simp_all add: oyl_is_flow_iff)
  moreover have "scan_content ?t = scan_block_scalar ?t"
    using p assms(6) by (simp add: scan_content_def flag_ahead)
  moreover have "reads_block s (scan_block_scalar ?t) (literal_text indent v) v"
    using assms by (intro reads_block_flag [OF scan_literal_reads]) (simp_all add: flag_ahead)
  ultimately show ?thesis using token_at_content by auto
qed

text \<open>A value that needs no quotes is none of the other tokens.\<close>

lemma plain_at_content:
  assumes "BUF_AT s = v @ rest" and "\<not> needs_quoting v f" and "\<not> needs_escape v"
    and "sc_flow_level s > 0 \<Longrightarrow> f" and "ends_scalar (advance_cols s (length v))"
    and "hd v = COLON \<Longrightarrow> \<not> sc_last_was_quoted s"
  shows "at_content s \<and> scan_content (s\<lparr>sc_last_was_quoted := False\<rparr>) = scan_plain_scalar (s\<lparr>sc_last_was_quoted := False\<rparr>)"
proof -
  have q: "v \<noteq> []" "\<not> bad_start v f" "\<not> (3 \<le> length v \<and> (take 3 v = [DASH, DASH, DASH] \<or> take 3 v = [DOT, DOT, DOT]))"
    using assms(2) by (auto simp: needs_quoting_def split: if_split_asm)
  then obtain c v' where v: "v = c # v'" by (cases v) auto
  have b: "BUF_AT s = c # v' @ rest" using assms(1) v by simp
  have p: "PEEK s = c" using ahead_Cons(1) [OF b] .
  have nodoc: "\<not> at_doc_indicator s d" if d: "d = DASH \<or> d = DOT" for d
  proof
    assume "at_doc_indicator s d"
    then obtain r where r: "v @ rest = d # d # d # r" using at_doc_indicator_ahead assms(1) by metis
    show False
    proof (cases "3 \<le> length v")
      case True
      then have "take 3 v = [d, d, d]" using arg_cong [OF r, of "take 3"] by (simp add: numeral_3_eq_3)
      then show False using q(3) True d by auto
    next
      case False
      then have "rest \<noteq> [] \<and> hd rest = d"
        using r v by (cases v'; cases "tl v'") auto
      then have "PEEK (advance_cols s (length v)) = d" "\<not> AT_END (advance_cols s (length v))"
        using assms(1) by (auto simp: PEEK_ahead BUF_AT_end BUF_AT_cols neq_Nil_conv)
      then show False using assms(5) d by (auto simp: ends_scalar_def oyl_is_flow_iff oyl_is_break_iff)
    qed
  qed
  have ind: "\<not> oyl_is_indicator c \<or> (c = DASH \<or> c = QMARK \<or> c = COLON) \<and> 2 \<le> length v \<and>
      \<not> oyl_is_blank_or_break (v ! 1) \<and> \<not> (f \<and> oyl_is_flow (v ! 1))"
    using q(2) v by (auto simp: bad_start_def Let_def Suc_le_eq split: if_split_asm)
  have nx: "PEEK_AT s 1 = v ! 1" "PEEK_AT s 1 \<noteq> 0" if two: "2 \<le> length v"
  proof -
    obtain d w where d: "v' = d # w" using two v by (cases v') auto
    then show "PEEK_AT s 1 = v ! 1" using b v by (simp add: PEEK_AT_ahead)
    moreover have "d \<noteq> 0" using assms(3) v d by (auto simp: needs_escape_def)
    ultimately show "PEEK_AT s 1 \<noteq> 0" using v d by simp
  qed
  have flow: "\<not> oyl_is_flow c" "c \<noteq> PERCENT" "c \<noteq> BANG" "c \<noteq> AMP" "c \<noteq> STAR" "c \<noteq> SQUOTE" "c \<noteq> DQUOTE"
    "c \<noteq> PIPE" "c \<noteq> GT"
    using ind by (auto simp: oyl_is_indicator_iff oyl_is_flow_iff)
  have next_ok: "\<not> blank_or_end (PEEK_AT s 1) \<and> (sc_flow_level s > 0 \<longrightarrow> \<not> oyl_is_flow (PEEK_AT s 1))"
    if "c = DASH \<or> c = QMARK \<or> c = COLON"
  proof -
    have "oyl_is_indicator c" using that by (auto simp: oyl_is_indicator_iff)
    then have "2 \<le> length v" "\<not> oyl_is_blank_or_break (v ! 1)" "\<not> (f \<and> oyl_is_flow (v ! 1))" using ind by auto
    then show ?thesis using nx assms(4) by (auto simp: blank_or_end_def)
  qed
  have "at_content s"
    using nodoc flow next_ok p assms(6) v by (auto simp: at_content_def)
  moreover have "\<not> (c = DASH \<and> sc_flow_level s > 0 \<and> (PEEK_AT s 1 = 0 \<or> oyl_is_blank_or_break (PEEK_AT s 1) \<or>
      PEEK_AT s 1 = COMMA \<or> PEEK_AT s 1 = LBRACK \<or> PEEK_AT s 1 = RBRACK \<or> PEEK_AT s 1 = LBRACE \<or> PEEK_AT s 1 = RBRACE))"
    using next_ok by (auto simp: blank_or_end_def oyl_is_flow_iff)
  moreover have "PEEK (s\<lparr>sc_last_was_quoted := False\<rparr>) = c" "PEEK_AT (s\<lparr>sc_last_was_quoted := False\<rparr>) n = PEEK_AT s n" for n
    using p by (simp_all add: flag_ahead)
  ultimately show ?thesis using flow by (auto simp: scan_content_def Let_def)
qed

lemma plain_token:
  assumes "BUF_AT s = v @ rest" and "\<not> needs_quoting v f" and "\<not> needs_escape v"
    and "sc_flow_level s > 0 \<Longrightarrow> f" and "ends_scalar (advance_cols s (length v))"
    and "hd v = COLON \<Longrightarrow> \<not> sc_last_was_quoted s"
  shows "\<exists>r. scan_token_at s = Some r \<and> reads_or_memory s r v v OYL_SCALAR_PLAIN"
proof -
  let ?t = "s\<lparr>sc_last_was_quoted := False\<rparr>"
  have "ends_scalar (advance_cols ?t (length v))"
    using assms(5) by (simp add: flag_ahead ends_scalar_flag)
  then have "reads_or_memory s (scan_plain_scalar ?t) v v OYL_SCALAR_PLAIN"
    using assms by (intro reads_flag [OF scan_plain_reads [of _ v rest f]]) (auto simp: flag_ahead)
  moreover note token_at_content plain_at_content [OF assms]
  ultimately show ?thesis by auto
qed


lemma ends_scalar_not_quote: "ends_scalar (advance_cols s (length w)) \<Longrightarrow> BUF_AT s = w @ rest \<Longrightarrow> rest = [] \<or> hd rest \<noteq> SQUOTE"
  by (cases rest) (auto simp: ends_scalar_def BUF_AT_end BUF_AT_cols PEEK_ahead oyl_is_flow_iff oyl_is_break_iff)

text \<open>
  Where the scanner stands for the text of a scalar: the value's style was chosen for a flow context
  if the scanner is in one, the next bytes are the text, and what follows ends it.
\<close>

definition scalar_ahead ::
    "oyl_scanner \<Rightarrow> oyl_scalar_style \<Rightarrow> int \<Rightarrow> byte list \<Rightarrow> bool" where
  "scalar_ahead s style indent v \<longleftrightarrow>
     take (length (scalar_text style indent v)) (BUF_AT s) = scalar_text style indent v \<and>
     (if style = OYL_SCALAR_LITERAL
      then 0 < indent \<and> sc_indent s < indent \<and>
        ends_block (sc_buf s) (sc_pos s + length (scalar_text style indent v)) (sc_indent s)
      else ends_scalar (advance_cols s (length (scalar_text style indent v))) \<and>
        (sc_last_was_quoted s \<longrightarrow> v = [] \<or> hd v \<noteq> COLON))"

text \<open>The scan returned a scalar token with the value, or an allocation failed.\<close>

definition reads_scalar :: "oyl_scanner \<Rightarrow> scan_result \<Rightarrow> oyl_scalar_style \<Rightarrow> byte list \<Rightarrow> byte list \<Rightarrow> bool" where
  "reads_scalar s r style w v \<longleftrightarrow>
     (if style = OYL_SCALAR_LITERAL then reads_block s r w v else reads_or_memory s r w v style)"

lemma chosen_style:
  assumes "choose_style req v flow is_key tag = style" and "style = OYL_SCALAR_PLAIN \<Longrightarrow> v \<noteq> []"
  shows "style \<noteq> OYL_SCALAR_FOLDED"
    and "style = OYL_SCALAR_PLAIN \<Longrightarrow> \<not> needs_quoting v flow \<and> \<not> needs_escape v"
    and "style = OYL_SCALAR_SINGLE_QUOTED \<Longrightarrow> \<not> has_break v"
    and "style = OYL_SCALAR_LITERAL \<Longrightarrow> \<not> flow \<and> \<not> is_key \<and> literal_ok v"
  using assms by (auto simp: choose_style_def Let_def split: if_split_asm)

lemma scalar_reads:
  assumes "choose_style req v flow is_key tag = style" and "style = OYL_SCALAR_PLAIN \<Longrightarrow> v \<noteq> []"
    and "scalar_ahead s style indent v" and "scanner_inv s" and "sc_flow_level s > 0 \<Longrightarrow> flow"
  shows "\<exists>r. scan_token_at s = Some r \<and> reads_scalar s r style (scalar_text style indent v) v"
proof -
  let ?w = "scalar_text style indent v" and ?rest = "drop (length (scalar_text style indent v)) (BUF_AT s)"
  note style = chosen_style [OF assms(1,2)]
  have b: "BUF_AT s = ?w @ ?rest"
    using assms(3) append_take_drop_id [of "length ?w" "BUF_AT s"] by (simp add: scalar_ahead_def)
  have level: "sc_flow_level s = 0" if "\<not> flow" using that assms(5) flow_level_pos [OF assms(4)] by linarith
  show ?thesis
  proof (cases style)
    case OYL_SCALAR_PLAIN
    have "\<exists>r. scan_token_at s = Some r \<and> reads_or_memory s r v v OYL_SCALAR_PLAIN"
      using b assms(2,3,5) style(2) OYL_SCALAR_PLAIN
      by (intro plain_token [of s v ?rest flow]) (auto simp: scalar_ahead_def)
    then show ?thesis using OYL_SCALAR_PLAIN by (simp add: reads_scalar_def)
  next
    case OYL_SCALAR_SINGLE_QUOTED
    then show ?thesis
      using b assms(3) style(3) ends_scalar_not_quote [OF _ b] single_quoted_token [of s v ?rest]
      by (auto simp: scalar_ahead_def reads_scalar_def)
  next
    case OYL_SCALAR_DOUBLE_QUOTED
    then show ?thesis using b double_quoted_token [of s v ?rest] by (simp add: reads_scalar_def)
  next
    case OYL_SCALAR_LITERAL
    then show ?thesis
      using b assms(3) style(4) level literal_token [of s indent v ?rest]
      by (simp add: scalar_ahead_def reads_scalar_def)
  next
    case OYL_SCALAR_FOLDED
    then show ?thesis using style(1) by simp
  qed
qed


text \<open>
  C1: whatever style the emitter chooses for a scalar, the scanner reads the text it writes back as
  one scalar token of that style with the same value, and passes exactly that text, wherever a
  scalar may stand: plain, single-quoted, double-quoted or literal, in flow and in block context,
  with anything behind it that ends a scalar. Only a failed allocation can keep it from doing so.
\<close>

theorem scalar_round_trip:
  assumes "choose_style req v flow is_key tag = style" and "style = OYL_SCALAR_PLAIN \<Longrightarrow> v \<noteq> []"
    and "scalar_ahead s style indent v" and "scanner_inv s" and "sc_flow_level s > 0 \<Longrightarrow> flow"
  shows "\<exists>r. scan_token_at s = Some r \<and> reads_scalar s r style (scalar_text style indent v) v"
  using assms by (rule scalar_reads)

text \<open>The value \<open>a: b\<close> at the start of a document, and the literal block of two lines.\<close>

definition quoted_example :: oyl_scanner where
  "quoted_example = the (oyl_scanner_new [] False [DQUOTE, 0x61, COLON, SP, 0x62, DQUOTE])"

definition literal_example :: oyl_scanner where
  "literal_example = the (oyl_scanner_new [] False [PIPE, LF, SP, SP, 0x61, LF, SP, SP, SP, 0x62, LF])"

theorem scalar_round_trip_witness:
  "(\<exists>r. scan_token_at quoted_example = Some r \<and>
     reads_scalar quoted_example r OYL_SCALAR_DOUBLE_QUOTED (scalar_text OYL_SCALAR_DOUBLE_QUOTED 2 [0x61, COLON, SP, 0x62])
       [0x61, COLON, SP, 0x62]) \<and>
   (\<exists>r. scan_token_at literal_example = Some r \<and>
     reads_scalar literal_example r OYL_SCALAR_LITERAL (scalar_text OYL_SCALAR_LITERAL 2 [0x61, LF, SP, 0x62, LF])
       [0x61, LF, SP, 0x62, LF])"
proof -
  have inv: "scanner_inv quoted_example" "scanner_inv literal_example"
    and level: "sc_flow_level quoted_example = 0" "sc_flow_level literal_example = 0"
    by (auto simp: quoted_example_def literal_example_def oyl_scanner_new_def scanner_inv_def cursor_ok_def indents_ok_def)
  have style: "choose_style OYL_SCALAR_PLAIN [0x61, COLON, SP, 0x62] False False None = OYL_SCALAR_DOUBLE_QUOTED"
    "choose_style OYL_SCALAR_LITERAL [0x61, LF, SP, 0x62, LF] False False None = OYL_SCALAR_LITERAL"
    by code_simp+
  have ahead: "scalar_ahead quoted_example OYL_SCALAR_DOUBLE_QUOTED 2 [0x61, COLON, SP, 0x62]"
    "scalar_ahead literal_example OYL_SCALAR_LITERAL 2 [0x61, LF, SP, 0x62, LF]"
    by code_simp+
  show ?thesis
    using scalar_round_trip [OF style(1) _ ahead(1) inv(1)] scalar_round_trip [OF style(2) _ ahead(2) inv(2)] level
    by simp
qed

text \<open>
  The end of \<open>choose_style\<close>, a literal block for a text with line breaks, is never reached: such a
  text has been given double quotes before, because a line break needs an escape.
\<close>

lemma plain_never_literal: "choose_style OYL_SCALAR_PLAIN v flow is_key tag \<noteq> OYL_SCALAR_LITERAL"
proof -
  have "needs_escape v" if br: "has_break v"
  proof -
    obtain c where "c \<in> set v" and "oyl_is_break c" using br by (auto simp: has_break_def list_ex_iff)
    moreover from this have "c < 0x20 \<and> c \<noteq> TAB \<or> c = DEL" by (auto simp: oyl_is_break_iff)
    ultimately show ?thesis unfolding needs_escape_def list_ex_iff by blast
  qed
  then show ?thesis by (auto simp: choose_style_def Let_def)
qed

section \<open>Anchors, aliases and tags\<close>

text \<open>The names that can be scanned, which are the ones that can be written.\<close>

definition name_byte :: "(byte \<Rightarrow> bool) \<Rightarrow> byte \<Rightarrow> bool" where
  "name_byte stop c \<longleftrightarrow> \<not> stop c \<and> \<not> c < 0x20 \<and> c \<noteq> DEL"

lemma name_loop_reads:
  assumes "BUF_AT s = w @ rest" and "list_all (name_byte stop) w" and "rest = [] \<or> stop (hd rest)" and "stop LF"
  shows "name_loop stop msg s = (None, advance_cols s (length w))"
  using assms(1,2)
proof (induction w arbitrary: s)
  case Nil
  then show ?case using assms(3)
    by (cases rest) (auto simp: name_loop.simps [of stop msg s] BUF_AT_end PEEK_ahead cols_0)
next
  case (Cons c w)
  then have b: "BUF_AT s = c # w @ rest" and c: "\<not> stop c" "\<not> c < 0x20" "c \<noteq> DEL" by (auto simp: name_byte_def)
  have "c \<noteq> LF" using c(1) assms(4) by auto
  then have "advance1 s = advance_cols s 1" by (rule advance1_cols [OF b])
  with Cons.IH [OF ahead_Cons(3) [OF b]] Cons.prems(2) c ahead_Cons(1,2) [OF b] show ?case
    by (simp add: name_loop.simps [of stop msg s] cols_cols)
qed

text \<open>An anchor or an alias with its name.\<close>

lemma scan_anchor_reads:
  assumes "BUF_AT s = (if anchor then AMP else STAR) # name @ rest" and "name \<noteq> []"
    and "list_all (name_byte anchor_stop) name" and "rest = [] \<or> anchor_stop (hd rest)"
  shows "\<exists>s'. scan_anchor_or_alias s =
      (Inr \<lparr>tok_type = (if anchor then OYL_TOK_ANCHOR else OYL_TOK_ALIAS), tok_value = Some name,
            tok_style = OYL_SCALAR_PLAIN, tok_start = mark s, tok_end = mark s'\<rparr>, s') \<and>
      sc_pos s' = sc_pos s + 1 + length name"
proof -
  note b = assms(1)
  have p: "PEEK s = (if anchor then AMP else STAR)" using ahead_Cons(1) [OF b] .
  have a: "advance1 s = advance_cols s 1" by (rule advance1_cols [OF b]) simp
  have "anchor_stop LF" by (simp add: anchor_stop_def oyl_is_blank_or_break_iff)
  then have loop: "name_loop anchor_stop ''control character in anchor or alias name'' (advance_cols s 1) =
      (None, advance_cols s (1 + length name))"
    using name_loop_reads [OF ahead_Cons(3) [OF b] assms(3,4)] by (simp add: cols_cols)
  have "sub_buf (sc_buf s) (Suc (sc_pos s)) (length name) = name"
    using ahead_Cons(3) [OF b] by (simp add: sub_buf_def BUF_AT_def advance_cols_def)
  then show ?thesis
    using p assms(2) a loop
    by (cases anchor)
      (auto simp: scan_anchor_or_alias_def Let_def mark_def note_node_def note_props_def advance_cols_def)
qed


text \<open>A tag, in the three forms in which \<open>emit_tag\<close> writes it.\<close>

lemma above_control: "k \<le> c \<Longrightarrow> (0x20 :: byte) \<le> k \<Longrightarrow> \<not> c < 0x20"
  by (metis leD order_trans)

lemma uri_name_byte:
  assumes "is_uri_char c"
  shows "name_byte verbatim_stop c"
proof -
  consider "LC_A \<le> c" "c \<le> LC_Z" | "UC_A \<le> c" "c \<le> UC_Z" | "DIGIT_0 \<le> c" "c \<le> DIGIT_9"
    | "c \<in> set uri_punctuation" using assms by (auto simp: is_uri_char_def)
  then have "\<not> c < 0x20"
    using above_control [of LC_A c] above_control [of UC_A c] above_control [of DIGIT_0 c]
    by cases (auto simp: uri_punctuation_def)
  moreover have "c \<noteq> DEL \<and> c \<noteq> GT" using assms by (auto simp: is_uri_char_def uri_punctuation_def)
  ultimately show ?thesis
    using assms by (auto simp: is_uri_char_def uri_punctuation_def name_byte_def verbatim_stop_def oyl_is_blank_or_break_iff)
qed

lemma tag_name_byte: "is_tag_char c \<Longrightarrow> name_byte tag_stop c"
  using uri_name_byte [of c] by (auto simp: is_tag_char_def name_byte_def verbatim_stop_def tag_stop_def)

lemma hex_uri: "oyl_is_hex c \<Longrightarrow> is_uri_char c"
  using order_trans [of c UC_F UC_Z] order_trans [of c LC_F LC_Z] by (auto simp: oyl_is_hex_iff is_uri_char_def)

lemma verbatim_text_bytes: "list_all (name_byte verbatim_stop) (verbatim_text c)"
proof -
  have "name_byte verbatim_stop PERCENT" by (simp add: name_byte_def verbatim_stop_def oyl_is_blank_or_break_iff)
  then show ?thesis
    using hex_02X_read [of c] hex_uri uri_name_byte by (simp add: verbatim_text_def hex_02X_def)
qed

definition reads_tag :: "oyl_scanner \<Rightarrow> scan_result \<Rightarrow> byte list \<Rightarrow> bool" where
  "reads_tag s r w \<longleftrightarrow>
     (\<exists>s'. r = (Inr \<lparr>tok_type = OYL_TOK_TAG, tok_value = Some w, tok_style = OYL_SCALAR_PLAIN,
             tok_start = mark s, tok_end = mark s'\<rparr>, s') \<and> sc_pos s' = sc_pos s + length w)"

lemma tag_token_reads:
  assumes "BUF_AT s = w @ rest"
  shows "reads_tag s (tag_token (advance_cols s (length w)) (mark s)) w"
proof -
  have "sub_buf (sc_buf s) (sc_pos s) (length w) = w" using assms by (simp add: sub_buf_def BUF_AT_def)
  then show ?thesis
    by (auto simp: reads_tag_def tag_token_def mark_def note_props_def advance_cols_def Let_def)
qed


lemma tag_handle_cases:
  assumes "t \<noteq> []"
  obtains (core) u where "tag_handle t = [BANG, BANG] @ u" "list_all is_tag_char u" "t = yaml_prefix @ u"
    | (local) u where "tag_handle t = BANG # u" "list_all is_tag_char u" "t = BANG # u"
    | (verbatim) "tag_handle t = [BANG, LT] @ concat (map verbatim_text t) @ [GT]"
proof -
  let ?n = "length yaml_prefix"
  consider "?n < length t \<and> take ?n t = yaml_prefix \<and> all_tag_chars (drop ?n t)"
    | "\<not> (?n < length t \<and> take ?n t = yaml_prefix \<and> all_tag_chars (drop ?n t))" "hd t = BANG \<and> all_tag_chars (tl t)"
    | "\<not> (?n < length t \<and> take ?n t = yaml_prefix \<and> all_tag_chars (drop ?n t))" "\<not> (hd t = BANG \<and> all_tag_chars (tl t))"
    by blast
  then show ?thesis
  proof cases
    case 1
    then have "t = yaml_prefix @ drop ?n t" by (metis append_take_drop_id)
    with 1 show ?thesis by (intro core [of "drop ?n t"]) (simp_all add: tag_handle_def all_tag_chars_def)
  next
    case 2
    then have "tag_handle t = t" unfolding tag_handle_def Let_def by (simp only: if_False) simp
    then show ?thesis using 2(2) assms by (intro local [of "tl t"]) (auto simp: all_tag_chars_def neq_Nil_conv)
  next
    case 3
    then have "tag_handle t = [BANG, LT] @ concat (map verbatim_text t) @ [GT]"
      unfolding tag_handle_def Let_def by (simp only: if_False)
    then show ?thesis by (rule verbatim)
  qed
qed

lemma scan_tag_reads:
  assumes "BUF_AT s = tag_handle t @ rest" and "t \<noteq> []" and "rest = [] \<or> tag_stop (hd rest)"
  shows "reads_tag s (scan_tag s) (tag_handle t)"
proof -
  have stop_lf: "tag_stop LF" "verbatim_stop LF" by (simp_all add: tag_stop_def verbatim_stop_def oyl_is_blank_or_break_iff)
  have not_open: "c \<noteq> BANG \<and> c \<noteq> LT" if "is_tag_char c \<or> tag_stop c" for c
  proof -
    have "\<not> is_tag_char BANG" by (simp add: is_tag_char_def)
    moreover have "\<not> is_tag_char LT" by (simp add: is_tag_char_def is_uri_char_def uri_punctuation_def)
    moreover have "\<not> tag_stop BANG" "\<not> tag_stop LT"
      by (simp_all add: tag_stop_def oyl_is_blank_or_break_iff oyl_is_flow_iff)
    ultimately show ?thesis using that by blast
  qed
  have short: "reads_tag s (scan_tag s) (BANG # w)"
    if b: "BUF_AT s = BANG # w @ rest" and w: "\<exists>u. list_all is_tag_char u \<and> (w = u \<or> w = BANG # u)" for w
  proof -
    have a: "advance1 s = advance_cols s 1" by (rule advance1_cols [OF b]) simp
    obtain u where u: "list_all is_tag_char u" "w = u \<or> w = BANG # u" using w by blast
    have nu: "list_all (name_byte tag_stop) u" using u(1) tag_name_byte by (simp add: list_all_iff)
    have tok: "reads_tag s (tag_token (advance_cols s (length (BANG # w))) (mark s)) (BANG # w)"
      by (rule tag_token_reads) (use b in simp)
    show ?thesis
    proof (cases "w = BANG # u")
      case True
      then have b1: "BUF_AT (advance_cols s 1) = BANG # u @ rest" using ahead_Cons(3) [OF b] by simp
      then have a1: "advance1 (advance_cols s 1) = advance_cols s 2"
        using advance1_cols [OF b1] by (simp only: cols_cols one_add_one) simp
      have "BUF_AT (advance_cols s 2) = u @ rest" using b True by (simp add: BUF_AT_cols)
      from name_loop_reads [OF this nu assms(3) stop_lf(1)]
      have "name_loop tag_stop msg (advance_cols s 2) = (None, advance_cols s (2 + length u))" for msg
        by (simp add: cols_cols)
      then show ?thesis
        using tok True a a1 ahead_Cons(1) [OF b1] by (simp add: scan_tag_def)
    next
      case False
      then have wu: "w = u" using u(2) by simp
      have b1: "BUF_AT (advance_cols s 1) = u @ rest" using ahead_Cons(3) [OF b] wu by simp
      have p: "PEEK (advance_cols s 1) \<noteq> BANG" "PEEK (advance_cols s 1) \<noteq> LT"
        using assms(3) u(1) b1 not_open
        by (cases u; cases rest; auto simp: PEEK_ahead)+
      from name_loop_reads [OF b1 nu assms(3) stop_lf(1)]
      have "name_loop tag_stop msg (advance_cols s 1) = (None, advance_cols s (1 + length u))" for msg
        by (simp add: cols_cols)
      then show ?thesis using tok wu a p by (simp add: scan_tag_def)
    qed
  qed
  show ?thesis
  proof (rule tag_handle_cases [OF assms(2)], goal_cases core local verbatim)
    case (core u)
    then show ?thesis using short [of "BANG # u"] assms(1) by auto
  next
    case (local u)
    then show ?thesis using short [of u] assms(1) by auto
  next
    case verbatim
    let ?w = "concat (map verbatim_text t)"
    have b: "BUF_AT s = BANG # LT # ?w @ GT # rest" using assms(1) verbatim by simp
    have a: "advance1 s = advance_cols s 1" by (rule advance1_cols [OF b]) simp
    have b1: "BUF_AT (advance_cols s 1) = LT # ?w @ GT # rest" using ahead_Cons(3) [OF b] .
    have a1: "advance1 (advance_cols s 1) = advance_cols s 2"
      using advance1_cols [OF b1] by (simp only: cols_cols one_add_one) simp
    have b2: "BUF_AT (advance_cols s 2) = ?w @ GT # rest" using b by (simp add: BUF_AT_cols)
    have nw: "list_all (name_byte verbatim_stop) ?w"
      using verbatim_text_bytes by (auto simp: list_all_iff)
    have loop: "name_loop verbatim_stop msg (advance_cols s 2) = (None, advance_cols s (2 + length ?w))" for msg
    proof -
      have "verbatim_stop (hd (GT # rest))" by (simp add: verbatim_stop_def)
      then show ?thesis using name_loop_reads [OF b2 nw _ stop_lf(2), of msg] by (simp add: cols_cols)
    qed
    have b3: "BUF_AT (advance_cols s (2 + length ?w)) = GT # rest" using b by (simp add: BUF_AT_cols)
    have a3: "advance1 (advance_cols s (2 + length ?w)) = advance_cols s (length (tag_handle t))"
      using advance1_cols [OF b3] verbatim by (simp add: cols_cols)
    have "?w \<noteq> []" using assms(2) by (cases t) (auto simp: verbatim_text_def)
    then have "sc_pos (advance_cols s (2 + length ?w)) \<noteq> sc_pos (advance_cols s 2)"
      by (simp add: advance_cols_def)
    then have "scan_tag s = tag_token (advance_cols s (length (tag_handle t))) (mark s)"
      using a a1 a3 loop ahead_Cons(1) [OF b1] ahead_Cons(1) [OF b3] by (simp add: scan_tag_def)
    then show ?thesis using tag_token_reads [OF assms(1)] by simp
  qed
qed

end
