(* ===== verification/OylParserState.thy ===== *)
theory OylParserState
  imports OylScalarTrip
begin

text \<open>
  The state of the event parser and its helpers, \<open>src/src/oyl_parser.c\<close> up to \<open>consume_props\<close>:
  limits, the event queue, the stack of contexts, the token lookahead, anchors and tags pending for
  the next node, the expansion of tags.

  A parser is the record \<open>oyl_parser\<close>, its fields those of the C struct. The arrays are lists, next
  to their capacities where growing them can fail; the stacks have their top first. \<open>pa_mem\<close> is the
  allocation oracle of the parser's own allocations (the scanner has its own, \<open>sc_mem\<close>): since the
  theorems hold for every pair of oracles, they hold for every interleaving of the two.
\<close>

section \<open>Types\<close>

datatype ctx_type = CTX_BLOCK_MAP | CTX_BLOCK_SEQ | CTX_FLOW_MAP | CTX_FLOW_SEQ

record ctx_entry =
  ce_type :: ctx_type
  ce_indent :: int

datatype parser_state =
    ST_STREAM_START | ST_STREAM_DOC_LOOP | ST_STREAM_END
  | ST_DOC_DIRECTIVES | ST_DOC_START_EXPLICIT | ST_DOC_START_IMPLICIT
  | ST_DOC_END_EXPLICIT | ST_DOC_CONTENT
  | ST_BLOCK_NODE | ST_BLOCK_NODE_SCALAR | ST_BLOCK_NODE_SCALAR_KEY
  | ST_BLOCK_NODE_ALIAS | ST_BLOCK_NODE_ALIAS_KEY
  | ST_BLOCK_NODE_SEQ | ST_BLOCK_NODE_EXPLICIT_KEY | ST_BLOCK_NODE_BARE_VALUE
  | ST_BLOCK_NODE_EMPTY
  | ST_BLOCK_MAP_LOOP | ST_BLOCK_MAP_EXPLICIT_KEY | ST_BLOCK_MAP_SIMPLE_KEY
  | ST_BLOCK_MAP_POST_KEY | ST_BLOCK_MAP_VALUE | ST_BLOCK_MAP_VALUE_NODE
  | ST_BLOCK_MAP_END
  | ST_BLOCK_SEQ_LOOP | ST_BLOCK_SEQ_ENTRY | ST_BLOCK_SEQ_ENTRY_NODE
  | ST_BLOCK_SEQ_END
  | ST_UNROLL
  | ST_FLOW_SEQ_LOOP | ST_FLOW_SEQ_ENTRY | ST_FLOW_SEQ_ENTRY_KEY
  | ST_FLOW_SEQ_IMPLICIT_END
  | ST_FLOW_SEQ_EXPLICIT_KEY | ST_FLOW_SEQ_EXPLICIT_VALUE
  | ST_FLOW_SEQ_EXPLICIT_END
  | ST_FLOW_SEQ_CHECK_COLON | ST_FLOW_SEQ_SEP | ST_FLOW_SEQ_END
  | ST_FLOW_MAP_LOOP | ST_FLOW_MAP_VALUE | ST_FLOW_MAP_SEP | ST_FLOW_MAP_END
  | ST_FLOW_NODE
  | ST_EAGER_DRAIN
  | ST_DONE

record state_frame =
  fr_type :: ctx_type
  fr_indent :: int
  fr_return_state :: parser_state

record tag_directive =
  td_handle :: "byte list"
  td_prefix :: "byte list"

record oyl_parser =
  pa_scanner :: oyl_scanner
  pa_mem :: mem
  pa_input :: "byte list"
  pa_current :: oyl_token
  pa_have_token :: bool
  pa_events :: "oyl_event list"
  pa_evt_cap :: nat
  pa_evt_cursor :: nat
  pa_contexts :: "ctx_entry list"
  pa_ctx_cap :: nat
  pa_pending_anchor :: oyl_str
  pa_pending_tag :: oyl_str
  pa_has_anchor :: bool
  pa_has_tag :: bool
  pa_props_line :: nat
  pa_props_col :: int
  pa_props_start :: oyl_mark
  pa_tag_directives :: "tag_directive list"
  pa_stream_started :: bool
  pa_stream_ended :: bool
  pa_doc_open :: bool
  pa_schema :: "oyl_schema option"
  pa_merge_enabled :: bool
  pa_resolve_enabled :: bool
  pa_max_events :: int
  pa_max_depth :: int
  pa_doc_start_line :: nat
  pa_error_msg :: string
  pa_error_mark :: oyl_mark
  pa_oom :: bool
  pa_stop_status :: oyl_status
  pa_incremental :: bool
  pa_state :: parser_state
  pa_frames :: "state_frame list"
  pa_frame_cap :: nat
  pa_out_buf :: "oyl_event list"
  pa_out_cursor :: nat
  pa_saved_node :: oyl_event
  pa_saved_node_col :: int
  pa_have_saved_node :: bool
  pa_unroll_return :: parser_state
  pa_node_return :: parser_state
  pa_events_delivered :: int
  pa_delivered_sig :: "64 word"
  pa_scan_error :: oyl_status
  pa_scan_error_out :: nat
  pa_value_colon_line :: nat
  pa_value_colon_starts_line :: bool
  pa_bound_names :: "oyl_str list option"
  pa_fk_valid :: bool
  pa_fk_lo :: nat
  pa_fk_hi :: nat
  pa_fk_keys :: "nat list option"
  pa_fk_keys_cap :: nat
  pa_fk_stack_cap :: nat
  pa_ckpt :: "oyl_scanner option"
  pa_ckpt_tok :: oyl_token
  pa_ckpt_have_tok :: bool
  pa_ckpt_delivered :: int
  pa_ckpt_sig :: "64 word"
  pa_evt_base :: int
  pa_skip_n :: int
  pa_skip_sig :: "64 word"
  pa_skip_got :: "64 word"

section \<open>The parser\<close>

definition null_token :: oyl_token where
  "null_token = \<lparr>tok_type = OYL_TOK_NONE, tok_value = None, tok_style = OYL_SCALAR_PLAIN,
     tok_start = no_mark, tok_end = no_mark\<rparr>"

text \<open>The first oracle is for the parser's four allocations, the second for its scanner's.\<close>

definition oyl_parser_new :: "mem \<Rightarrow> mem \<Rightarrow> bool \<Rightarrow> byte list \<Rightarrow> oyl_parser option" where
  "oyl_parser_new m sm sse42 input =
    (let (ok1, m) = mem_take m
     in if \<not> ok1 then None
        else case oyl_scanner_new sm sse42 input of
          None \<Rightarrow> None
        | Some s \<Rightarrow>
           let (ok2, m) = mem_take m
           in if \<not> ok2 then None
              else let (ok3, m) = mem_take m
                   in if \<not> ok3 then None
                      else let (ok4, m) = mem_take m
                           in if \<not> ok4 then None
                              else Some
      \<lparr>pa_scanner = s, pa_mem = m, pa_input = input, pa_current = null_token, pa_have_token = False,
       pa_events = [], pa_evt_cap = 64, pa_evt_cursor = 0, pa_contexts = [], pa_ctx_cap = 16,
       pa_pending_anchor = None, pa_pending_tag = None, pa_has_anchor = False, pa_has_tag = False,
       pa_props_line = 0, pa_props_col = 0, pa_props_start = no_mark, pa_tag_directives = [],
       pa_stream_started = False, pa_stream_ended = False, pa_doc_open = False, pa_schema = None,
       pa_merge_enabled = False, pa_resolve_enabled = False, pa_max_events = 10000, pa_max_depth = 256,
       pa_doc_start_line = 0, pa_error_msg = '''', pa_error_mark = no_mark, pa_oom = False,
       pa_stop_status = OYL_OK, pa_incremental = True, pa_state = ST_STREAM_START, pa_frames = [],
       pa_frame_cap = 16, pa_out_buf = [], pa_out_cursor = 0, pa_saved_node = plain_event OYL_EVT_NONE,
       pa_saved_node_col = 0, pa_have_saved_node = False, pa_unroll_return = ST_STREAM_START,
       pa_node_return = ST_STREAM_START, pa_events_delivered = 0, pa_delivered_sig = 0,
       pa_scan_error = OYL_OK, pa_scan_error_out = 0, pa_value_colon_line = 0,
       pa_value_colon_starts_line = False, pa_bound_names = None, pa_fk_valid = False, pa_fk_lo = 0,
       pa_fk_hi = 0, pa_fk_keys = Some [], pa_fk_keys_cap = 0, pa_fk_stack_cap = 0, pa_ckpt = None,
       pa_ckpt_tok = null_token, pa_ckpt_have_tok = False, pa_ckpt_delivered = 0, pa_ckpt_sig = 0,
       pa_evt_base = 0, pa_skip_n = 0, pa_skip_sig = 0, pa_skip_got = 0\<rparr>)"

definition oyl_parser_set_schema :: "oyl_parser \<Rightarrow> oyl_schema option \<Rightarrow> oyl_parser" where
  "oyl_parser_set_schema p schema =
    (let p = p\<lparr>pa_schema := schema\<rparr>
     in if schema \<noteq> None then p\<lparr>pa_incremental := False\<rparr> else p)"

definition oyl_parser_set_merge :: "oyl_parser \<Rightarrow> bool \<Rightarrow> oyl_parser" where
  "oyl_parser_set_merge p enable =
    (let p = p\<lparr>pa_merge_enabled := enable\<rparr> in if enable then p\<lparr>pa_incremental := False\<rparr> else p)"

definition oyl_parser_set_resolve :: "oyl_parser \<Rightarrow> bool \<Rightarrow> oyl_parser" where
  "oyl_parser_set_resolve p enable =
    (let p = p\<lparr>pa_resolve_enabled := enable\<rparr> in if enable then p\<lparr>pa_incremental := False\<rparr> else p)"

definition oyl_parser_set_max_events :: "oyl_parser \<Rightarrow> int \<Rightarrow> oyl_parser" where
  "oyl_parser_set_max_events p n = p\<lparr>pa_max_events := n\<rparr>"

definition oyl_parser_set_max_depth :: "oyl_parser \<Rightarrow> int \<Rightarrow> oyl_parser" where
  "oyl_parser_set_max_depth p n = p\<lparr>pa_max_depth := n\<rparr>"

definition oyl_parser_error :: "oyl_parser option \<Rightarrow> string option" where
  "oyl_parser_error p =
    (case p of None \<Rightarrow> None | Some p \<Rightarrow> if pa_error_msg p = '''' then None else Some (pa_error_msg p))"

definition oyl_parser_error_mark :: "oyl_parser option \<Rightarrow> oyl_mark" where
  "oyl_parser_error_mark p = (case p of None \<Rightarrow> no_mark | Some p \<Rightarrow> pa_error_mark p)"

section \<open>Errors and limits\<close>

definition PARSE_ERROR :: "oyl_parser \<Rightarrow> string \<Rightarrow> oyl_status \<times> oyl_parser" where
  "PARSE_ERROR p msg = (OYL_ERR_PARSE, p\<lparr>pa_error_msg := msg, pa_error_mark := tok_start (pa_current p)\<rparr>)"

definition stop_with :: "oyl_parser \<Rightarrow> oyl_status \<Rightarrow> string \<Rightarrow> oyl_parser" where
  "stop_with p status msg =
    (let p = (if pa_stop_status p = OYL_OK
              then p\<lparr>pa_error_msg := msg, pa_error_mark := tok_start (pa_current p), pa_stop_status := status\<rparr>
              else p)
     in p\<lparr>pa_oom := True\<rparr>)"

definition hit_limit :: "oyl_parser \<Rightarrow> string \<Rightarrow> oyl_parser" where
  "hit_limit p msg = stop_with p OYL_ERR_LIMIT msg"

definition OOM_STATUS :: "oyl_parser \<Rightarrow> oyl_status" where
  "OOM_STATUS p = (if pa_stop_status p \<noteq> OYL_OK then pa_stop_status p else OYL_ERR_MEMORY)"

definition over_limit :: "oyl_parser \<Rightarrow> bool" where
  "over_limit p \<longleftrightarrow> pa_max_events p > 0 \<and> pa_evt_base p + int (length (pa_events p)) \<ge> pa_max_events p"

section \<open>The event queue\<close>

text \<open>The tag of an event without one, by the schema.\<close>

definition schema_tag :: "oyl_parser \<Rightarrow> oyl_event \<Rightarrow> oyl_event" where
  "schema_tag p evt =
    (case pa_schema p of
       None \<Rightarrow> evt
     | Some sch \<Rightarrow>
        if evt_tag evt \<noteq> None then evt
        else if evt_type evt = OYL_EVT_SCALAR
        then evt\<lparr>evt_tag := oyl_schema_resolve sch (evt_value evt) (evt_scalar_style evt)\<rparr>
        else if evt_type evt = OYL_EVT_MAPPING_START then evt\<lparr>evt_tag := sch_default_map_tag sch\<rparr>
        else if evt_type evt = OYL_EVT_SEQUENCE_START then evt\<lparr>evt_tag := sch_default_seq_tag sch\<rparr>
        else evt)"

definition enqueue :: "oyl_parser \<Rightarrow> oyl_event \<Rightarrow> bool \<times> oyl_parser" where
  "enqueue p evt =
    (if over_limit p then (False, hit_limit p ''event limit exceeded'')
     else
       let (ok, p) =
         (if length (pa_events p) \<ge> pa_evt_cap p then
            let new_cap = (if pa_evt_cap p * 2 < 64 then 64 else pa_evt_cap p * 2);
                (ok, m) = mem_take (pa_mem p)
            in if \<not> ok then (False, p\<lparr>pa_mem := m, pa_oom := True\<rparr>)
               else (True, p\<lparr>pa_mem := m, pa_evt_cap := new_cap\<rparr>)
          else (True, p))
       in if \<not> ok then (False, p)
          else (True, p\<lparr>pa_events := pa_events p @ [schema_tag p evt]\<rparr>))"

definition insert_event :: "oyl_parser \<Rightarrow> nat \<Rightarrow> oyl_event \<Rightarrow> bool \<times> oyl_parser" where
  "insert_event p idx evt =
    (let (ok, p) = enqueue p evt
     in if \<not> ok then (False, p)
        else let tagged = last (pa_events p); rest = butlast (pa_events p)
             in (True, p\<lparr>pa_events := take idx rest @ tagged # drop idx rest\<rparr>))"

definition dequeue :: "oyl_parser \<Rightarrow> oyl_event option \<times> oyl_parser" where
  "dequeue p =
    (if pa_evt_cursor p \<ge> length (pa_events p) then (None, p)
     else (Some (pa_events p ! pa_evt_cursor p), p\<lparr>pa_evt_cursor := pa_evt_cursor p + 1\<rparr>))"

section \<open>The stack of contexts\<close>

definition pa_push_ctx :: "oyl_parser \<Rightarrow> ctx_type \<Rightarrow> int \<Rightarrow> bool \<times> oyl_parser" where
  "pa_push_ctx p type indent =
    (if (type = CTX_BLOCK_MAP \<or> type = CTX_BLOCK_SEQ) \<and> pa_doc_start_line p \<noteq> 0 \<and>
        mk_line (tok_start (pa_current p)) = pa_doc_start_line p
     then (False, stop_with p OYL_ERR_PARSE
            (''block collection cannot start on the '' @ CHR 0x27 # ''---'' @ CHR 0x27 # '' line''))
     else if pa_max_depth p > 0 \<and> int (length (pa_contexts p)) \<ge> pa_max_depth p
     then (False, hit_limit p ''nesting depth limit exceeded'')
     else
       let (ok, p) =
         (if length (pa_contexts p) \<ge> pa_ctx_cap p then
            let (ok, m) = mem_take (pa_mem p)
            in if \<not> ok then (False, p\<lparr>pa_mem := m, pa_oom := True\<rparr>)
               else (True, p\<lparr>pa_mem := m, pa_ctx_cap := pa_ctx_cap p * 2\<rparr>)
          else (True, p))
       in if \<not> ok then (False, p)
          else (True, p\<lparr>pa_contexts := \<lparr>ce_type = type, ce_indent = indent\<rparr> # pa_contexts p\<rparr>))"

definition pa_pop_ctx :: "oyl_parser \<Rightarrow> oyl_parser" where
  "pa_pop_ctx p = p\<lparr>pa_contexts := tl (pa_contexts p)\<rparr>"

definition pa_top_ctx :: "oyl_parser \<Rightarrow> ctx_entry option" where
  "pa_top_ctx p = (case pa_contexts p of [] \<Rightarrow> None | c # cs \<Rightarrow> Some c)"

section \<open>Tokens\<close>

text \<open>
  The result is \<open>None\<close> only if the scanner does not return, which \<open>peek_token_total\<close> excludes for
  every scanner that keeps its invariant.
\<close>

definition peek_token :: "oyl_parser \<Rightarrow> (oyl_status \<times> oyl_parser) option" where
  "peek_token p =
    (if pa_have_token p then Some (OYL_OK, p)
     else
       case oyl_scan_token (pa_scanner p) of
         None \<Rightarrow> None
       | Some (Inr tok, s) \<Rightarrow> Some (OYL_OK, p\<lparr>pa_scanner := s, pa_current := tok, pa_have_token := True\<rparr>)
       | Some (Inl st, s) \<Rightarrow>
          (let p = p\<lparr>pa_scanner := s\<rparr>;
               p = (case oyl_scanner_error (Some s) of
                      None \<Rightarrow> p
                    | Some msg \<Rightarrow> p\<lparr>pa_error_msg := msg, pa_error_mark := oyl_scanner_error_mark (Some s)\<rparr>)
           in Some (st, p\<lparr>pa_scan_error := st, pa_scan_error_out := length (pa_out_buf p)\<rparr>)))"

definition consume_token :: "oyl_parser \<Rightarrow> oyl_parser" where
  "consume_token p = p\<lparr>pa_have_token := False\<rparr>"

definition cur_type :: "oyl_parser \<Rightarrow> oyl_token_type" where
  "cur_type p = tok_type (pa_current p)"

definition tok_col :: "oyl_parser \<Rightarrow> int" where
  "tok_col p = int (mk_col (tok_start (pa_current p))) - 1"

section \<open>Contexts, properties and empty nodes\<close>

definition flow_type :: "ctx_type \<Rightarrow> bool" where
  "flow_type t \<longleftrightarrow> t = CTX_FLOW_MAP \<or> t = CTX_FLOW_SEQ"

definition pa_in_flow :: "oyl_parser \<Rightarrow> bool" where
  "pa_in_flow p =
    (if pa_incremental p then (case pa_frames p of [] \<Rightarrow> False | f # fs \<Rightarrow> flow_type (fr_type f))
     else (case pa_top_ctx p of None \<Rightarrow> False | Some c \<Rightarrow> flow_type (ce_type c)))"

text \<open>An event of a type with its two marks.\<close>

definition event_at :: "oyl_event_type \<Rightarrow> oyl_mark \<Rightarrow> oyl_mark \<Rightarrow> oyl_event" where
  "event_at t b e = (plain_event t)\<lparr>evt_start := b, evt_end := e\<rparr>"

text \<open>The loop of \<open>unroll_all\<close>, over the contexts from the top.\<close>

fun unroll_ctxs :: "ctx_entry list \<Rightarrow> oyl_parser \<Rightarrow> oyl_mark \<Rightarrow> oyl_parser" where
  "unroll_ctxs [] p k = p"
| "unroll_ctxs (c # cs) p k =
    (if flow_type (ce_type c) then p
     else
       let et = (if ce_type c = CTX_BLOCK_MAP then OYL_EVT_MAPPING_END else OYL_EVT_SEQUENCE_END)
       in unroll_ctxs cs (pa_pop_ctx (snd (enqueue p (event_at et k k)))) k)"

definition unroll_all :: "oyl_parser \<Rightarrow> oyl_mark \<Rightarrow> oyl_parser" where
  "unroll_all p k = unroll_ctxs (pa_contexts p) p k"

definition attach_props :: "oyl_parser \<Rightarrow> oyl_event \<Rightarrow> oyl_event \<times> oyl_parser" where
  "attach_props p evt =
    (let had_props = (pa_has_anchor p \<or> pa_has_tag p);
         evt = (if pa_has_anchor p then evt\<lparr>evt_anchor := pa_pending_anchor p\<rparr> else evt);
         p = (if pa_has_anchor p then p\<lparr>pa_has_anchor := False, pa_pending_anchor := None\<rparr> else p);
         evt = (if pa_has_tag p then evt\<lparr>evt_tag := pa_pending_tag p\<rparr> else evt);
         p = (if pa_has_tag p then p\<lparr>pa_has_tag := False, pa_pending_tag := None\<rparr> else p);
         evt = (if had_props then evt\<lparr>evt_start := pa_props_start p\<rparr> else evt)
     in (evt, p))"

definition move_props_to_key_map ::
    "oyl_parser \<Rightarrow> nat \<Rightarrow> oyl_event \<Rightarrow> oyl_mark \<Rightarrow> oyl_str \<Rightarrow> oyl_str \<Rightarrow> oyl_event \<times> oyl_parser" where
  "move_props_to_key_map p at map_evt coll_start anchor tag =
    (let coll = pa_events p ! at;
         coll_tag = (case pa_schema p of
                       None \<Rightarrow> None
                     | Some sch \<Rightarrow> if evt_type coll = OYL_EVT_MAPPING_START then sch_default_map_tag sch
                                   else sch_default_seq_tag sch);
         coll = coll\<lparr>evt_anchor := None, evt_tag := coll_tag, evt_start := coll_start\<rparr>
     in (map_evt\<lparr>evt_anchor := anchor, evt_tag := tag\<rparr>, p\<lparr>pa_events := (pa_events p)[at := coll]\<rparr>))"

definition emit_empty :: "oyl_parser \<Rightarrow> oyl_parser" where
  "emit_empty p =
    (let k = tok_start (pa_current p);
         (evt, p) = attach_props p (event_at OYL_EVT_SCALAR k k)
     in snd (enqueue p evt))"

definition ensure_doc :: "oyl_parser \<Rightarrow> bool \<Rightarrow> oyl_mark \<Rightarrow> oyl_parser" where
  "ensure_doc p is_explicit k =
    (if \<not> pa_doc_open p then
       let (ok, p) = enqueue p ((event_at OYL_EVT_DOC_START k k)\<lparr>evt_implicit := \<not> is_explicit\<rparr>)
       in p\<lparr>pa_doc_open := True\<rparr>
     else p)"


section \<open>Tags\<close>

definition hex_val :: "byte \<Rightarrow> int" where
  "hex_val c =
    (if c \<ge> DIGIT_0 \<and> c \<le> DIGIT_9 then uint (c - DIGIT_0)
     else if c \<ge> LC_A \<and> c \<le> LC_F then uint (c - LC_A) + 10
     else if c \<ge> UC_A \<and> c \<le> UC_F then uint (c - UC_A) + 10
     else - 1)"

fun pct_decode :: "byte list \<Rightarrow> byte list" where
  "pct_decode (c # h # l # r) =
    (if c = PERCENT \<and> hex_val h \<ge> 0 \<and> hex_val l \<ge> 0
     then (push_bit 4 (word_of_int (hex_val h)) OR word_of_int (hex_val l)) # pct_decode r
     else c # pct_decode (h # l # r))"
| "pct_decode src = src"

text \<open>The length of the handle a tag starts with: \<open>!!\<close>, \<open>!x!\<close> or \<open>!\<close>.\<close>

definition named_handle_len :: "byte list \<Rightarrow> nat option" where
  "named_handle_len raw =
    (let i = scan_until (\<lambda>c. c = BANG) (tl raw) in if i < length (tl raw) then Some (i + 2) else None)"

definition handle_len :: "byte list \<Rightarrow> nat" where
  "handle_len raw =
    (if length raw \<ge> 2 \<and> raw ! 1 = BANG then 2
     else if length raw \<ge> 3 then (case named_handle_len raw of None \<Rightarrow> 1 | Some n \<Rightarrow> n)
     else 1)"

text \<open>A buffer of the arena for a decoded tag; without memory the tag stays as written.\<close>

definition decoded_tag :: "oyl_parser \<Rightarrow> oyl_str \<Rightarrow> byte list \<Rightarrow> byte list \<Rightarrow> oyl_str \<times> oyl_parser" where
  "decoded_tag p raw prefix suffix =
    (let (ok, m) = mem_take (pa_mem p); p = p\<lparr>pa_mem := m\<rparr>
     in if \<not> ok then (raw, p) else (Some (prefix @ pct_decode suffix), p))"

definition expand_tag :: "oyl_parser \<Rightarrow> oyl_str \<Rightarrow> oyl_str \<times> oyl_parser" where
  "expand_tag p tag =
    (let raw = str_bytes tag
     in if length raw < 1 \<or> hd raw \<noteq> BANG then (tag, p)
        else if length raw \<ge> 3 \<and> raw ! 1 = LT \<and> last raw = GT
        then decoded_tag p tag [] (sub_buf raw 2 (length raw - 3))
        else
          let n = handle_len raw
          in case find (\<lambda>d. length (td_handle d) = n \<and> take n raw = td_handle d) (pa_tag_directives p) of
               Some d \<Rightarrow> decoded_tag p tag (td_prefix d) (drop n raw)
             | None \<Rightarrow>
                if length raw \<ge> 2 \<and> raw ! 1 = BANG
                then decoded_tag p tag (bytes_of ''tag:yaml.org,2002:'') (drop 2 raw)
                else (tag, p))"

definition tag_handle_declared :: "oyl_parser \<Rightarrow> oyl_str \<Rightarrow> bool" where
  "tag_handle_declared p tag =
    (let raw = str_bytes tag
     in if length raw < 3 \<or> hd raw \<noteq> BANG \<or> raw ! 1 = BANG \<or> raw ! 1 = LT then True
        else case named_handle_len raw of
               None \<Rightarrow> True
             | Some n \<Rightarrow> list_ex (\<lambda>d. length (td_handle d) = n \<and> td_handle d = take n raw) (pa_tag_directives p))"

section \<open>Properties of the next node\<close>

definition props_continuation_ok :: "oyl_parser \<Rightarrow> bool" where
  "props_continuation_ok p =
    (if \<not> (pa_has_anchor p \<or> pa_has_tag p) then True
     else if mk_line (tok_start (pa_current p)) = pa_props_line p \<or> pa_in_flow p then True
     else let parent = (case pa_top_ctx p of None \<Rightarrow> - 1 | Some c \<Rightarrow> ce_indent c) in tok_col p > parent)"

definition prop_starts_node_line :: "oyl_parser \<Rightarrow> bool" where
  "prop_starts_node_line p =
    (let i = mk_offset (tok_end (pa_current p));
         i = i + scan_until (\<lambda>c. c \<noteq> SP \<and> c \<noteq> TAB) (drop i (pa_input p))
     in i < length (pa_input p) \<and> pa_input p ! i \<noteq> LF \<and> pa_input p ! i \<noteq> CR \<and> pa_input p ! i \<noteq> HASH)"

text \<open>The first property of a node gives its position.\<close>

definition note_first_prop :: "oyl_parser \<Rightarrow> oyl_parser" where
  "note_first_prop p =
    p\<lparr>pa_props_line := mk_line (tok_start (pa_current p)), pa_props_col := tok_col p,
      pa_props_start := tok_start (pa_current p)\<rparr>"

text \<open>Another property, but on a later line and with content behind it: it starts the next node.\<close>

definition prop_of_next_node :: "oyl_parser \<Rightarrow> bool \<Rightarrow> bool" where
  "prop_of_next_node p has_other \<longleftrightarrow>
     has_other \<and> mk_line (tok_start (pa_current p)) \<noteq> pa_props_line p \<and> \<not> pa_in_flow p \<and> prop_starts_node_line p"

text \<open>
  One round of the loop of \<open>consume_props\<close> with a token at hand: \<open>None\<close> for \<open>break\<close>, a status and
  whether the loop goes on otherwise.
\<close>

definition take_prop :: "oyl_parser \<Rightarrow> oyl_status \<times> bool \<times> oyl_parser" where
  "take_prop p =
    (let is_anchor = (cur_type p = OYL_TOK_ANCHOR \<and> \<not> pa_has_anchor p);
         is_tag = (cur_type p = OYL_TOK_TAG \<and> \<not> pa_has_tag p)
     in if (is_anchor \<or> is_tag) \<and> \<not> props_continuation_ok p then (OYL_OK, False, p)
        else if is_anchor then
          if prop_of_next_node p (pa_has_tag p) then (OYL_OK, False, p)
          else
            let p = (if \<not> pa_has_tag p then note_first_prop p else p)
            in (OYL_OK, True, consume_token
                  (p\<lparr>pa_pending_anchor := tok_value (pa_current p), pa_has_anchor := True\<rparr>))
        else if is_tag then
          if prop_of_next_node p (pa_has_anchor p) then (OYL_OK, False, p)
          else
            let p = (if \<not> pa_has_anchor p then note_first_prop p else p)
            in if \<not> tag_handle_declared p (tok_value (pa_current p))
               then let (st, p) = PARSE_ERROR p ''undefined tag handle'' in (st, False, p)
               else let (tag, p) = expand_tag p (tok_value (pa_current p))
                    in (OYL_OK, True, consume_token (p\<lparr>pa_pending_tag := tag, pa_has_tag := True\<rparr>))
        else (OYL_OK, False, p))"

text \<open>What is left to take: an anchor, a tag.\<close>

definition props_left :: "oyl_parser \<Rightarrow> nat" where
  "props_left p = (if pa_has_anchor p then 0 else 1) + (if pa_has_tag p then 0 else 1)"

lemma peek_token_flags:
  "peek_token p = Some (st, q) \<Longrightarrow> pa_has_anchor q = pa_has_anchor p \<and> pa_has_tag q = pa_has_tag p"
  by (auto simp: peek_token_def Let_def split: if_split_asm option.splits sum.splits prod.splits)

lemma decoded_tag_flags:
  "decoded_tag p raw a b = (t, q) \<Longrightarrow> pa_has_anchor q = pa_has_anchor p \<and> pa_has_tag q = pa_has_tag p"
  by (auto simp: decoded_tag_def Let_def split: if_split_asm prod.splits)

lemma expand_tag_flags:
  "expand_tag p raw = (t, q) \<Longrightarrow> pa_has_anchor q = pa_has_anchor p \<and> pa_has_tag q = pa_has_tag p"
  using decoded_tag_flags by (auto simp: expand_tag_def Let_def split: if_split_asm option.splits)

lemma take_prop_left: "take_prop p = (st, True, q) \<Longrightarrow> props_left q < props_left p"
  by (auto simp: take_prop_def Let_def PARSE_ERROR_def props_left_def note_first_prop_def consume_token_def
      dest: expand_tag_flags split: if_split_asm prod.splits)

function consume_props :: "oyl_parser \<Rightarrow> (oyl_status \<times> oyl_parser) option" where
  "consume_props p =
    (case peek_token p of
       None \<Rightarrow> None
     | Some (st, p1) \<Rightarrow>
        if st \<noteq> OYL_OK then Some (st, p1)
        else
          case take_prop p1 of
            (st, again, p2) \<Rightarrow>
              if st \<noteq> OYL_OK then Some (st, p2)
              else if again then consume_props p2
              else if (pa_has_anchor p2 \<or> pa_has_tag p2) \<and> cur_type p2 = OYL_TOK_ALIAS \<and>
                      (mk_line (tok_start (pa_current p2)) = pa_props_line p2 \<or> pa_in_flow p2)
              then Some (PARSE_ERROR p2 ''an alias cannot have an anchor or tag'')
              else Some (OYL_OK, p2))"
  by pat_completeness auto
termination
  by (relation "measure props_left") (auto dest!: take_prop_left [OF sym] peek_token_flags simp: props_left_def split: if_splits)

declare consume_props.simps [simp del]


section \<open>Directives\<close>

definition expect_document_end :: "oyl_parser \<Rightarrow> (oyl_status \<times> oyl_parser) option" where
  "expect_document_end p =
    (case peek_token p of
       None \<Rightarrow> None
     | Some (st, p) \<Rightarrow>
        if st \<noteq> OYL_OK then Some (st, p)
        else if cur_type p \<noteq> OYL_TOK_DOC_END \<and> cur_type p \<noteq> OYL_TOK_DOC_START \<and>
                cur_type p \<noteq> OYL_TOK_STREAM_END \<and> cur_type p \<noteq> OYL_TOK_NONE
        then Some (PARSE_ERROR p ''unexpected content after document root node'')
        else Some (OYL_OK, p))"

text \<open>The next word of the rest of a directive line, and what is left after it.\<close>

definition not_blank :: "byte \<Rightarrow> bool" where
  "not_blank c \<longleftrightarrow> c \<noteq> SP \<and> c \<noteq> TAB"

definition directive_word :: "byte list \<Rightarrow> byte list option \<times> byte list" where
  "directive_word cur =
    (let s = dropWhile (\<lambda>c. \<not> not_blank c) cur; blank = (length s < length cur)
     in if s = [] \<or> blank \<and> hd s = HASH then (None, [])
        else (Some (takeWhile not_blank s), dropWhile not_blank s))"

definition is_dec_digit :: "byte \<Rightarrow> bool" where
  "is_dec_digit c \<longleftrightarrow> c \<ge> DIGIT_0 \<and> c \<le> DIGIT_9"

text \<open>A version: digits, a dot, digits.\<close>

definition yaml_version_ok :: "byte list \<Rightarrow> bool" where
  "yaml_version_ok w =
    (let dot = scan_until (\<lambda>c. \<not> is_dec_digit c) w
     in if dot = 0 \<or> dot \<ge> length w \<or> w ! dot \<noteq> DOT then False
        else let i = dot + 1 + scan_until (\<lambda>c. \<not> is_dec_digit c) (drop (dot + 1) w)
             in i = length w \<and> i \<noteq> dot + 1)"

text \<open>A handle: \<open>!\<close>, \<open>!!\<close> or \<open>!word!\<close>.\<close>

definition tag_handle_ok :: "byte list \<Rightarrow> bool" where
  "tag_handle_ok w \<longleftrightarrow> hd w = BANG \<and> last w = BANG \<and>
     list_all (\<lambda>c. is_dec_digit c \<or> c \<ge> LC_A \<and> c \<le> LC_Z \<or> c \<ge> UC_A \<and> c \<le> UC_Z \<or> c = DASH) (butlast (tl w))"

definition yaml_directive :: "oyl_parser \<Rightarrow> bool \<Rightarrow> byte list \<Rightarrow> oyl_status \<times> bool \<times> oyl_parser" where
  "yaml_directive p had_yaml cur =
    (let fail = (\<lambda>y msg. let (st, p) = PARSE_ERROR p msg in (st, y, p))
     in if had_yaml then fail True ''duplicate %YAML directive''
        else case directive_word cur of
               (None, _) \<Rightarrow> fail True ''%YAML directive requires a version''
             | (Some w1, cur) \<Rightarrow>
                if \<not> yaml_version_ok w1 then fail True ''invalid %YAML version''
                else if fst (directive_word cur) \<noteq> None
                then fail True ''unexpected text after %YAML version''
                else (OYL_OK, True, p))"

text \<open>The index of the directive for a handle; a new one goes to the end.\<close>

definition set_tag_directive :: "tag_directive list \<Rightarrow> byte list \<Rightarrow> byte list \<Rightarrow> tag_directive list" where
  "set_tag_directive ds w1 w2 =
    (let idx = length (takeWhile (\<lambda>d. td_handle d \<noteq> w1) ds); d = \<lparr>td_handle = w1, td_prefix = w2\<rparr>
     in if idx < length ds then ds[idx := d] else ds @ [d])"

definition apply_tag_directive :: "oyl_parser \<Rightarrow> byte list \<Rightarrow> oyl_status \<times> oyl_parser" where
  "apply_tag_directive p cur =
    (case directive_word cur of
       (None, _) \<Rightarrow> PARSE_ERROR p ''%TAG directive requires a handle and a prefix''
     | (Some w1, cur) \<Rightarrow>
        (case directive_word cur of
           (None, _) \<Rightarrow> PARSE_ERROR p ''%TAG directive requires a handle and a prefix''
         | (Some w2, cur) \<Rightarrow>
            if fst (directive_word cur) \<noteq> None then PARSE_ERROR p ''unexpected text after %TAG prefix''
            else if \<not> tag_handle_ok w1 then PARSE_ERROR p ''invalid %TAG handle''
            else if length w1 \<ge> 16 \<or> length w2 \<ge> 256 then PARSE_ERROR p ''%TAG handle or prefix too long''
            else if list_all (\<lambda>d. td_handle d \<noteq> w1) (pa_tag_directives p) \<and> length (pa_tag_directives p) \<ge> 8
            then PARSE_ERROR p ''too many %TAG directives''
            else (OYL_OK, p\<lparr>pa_tag_directives := set_tag_directive (pa_tag_directives p) w1 w2\<rparr>)))"

text \<open>The result is the status and whether the document has had a \<open>%YAML\<close> directive.\<close>

definition parse_directive :: "oyl_parser \<Rightarrow> bool \<Rightarrow> oyl_status \<times> bool \<times> oyl_parser" where
  "parse_directive p had_yaml =
    (let line = str_bytes (tok_value (pa_current p)); cur = tl line
     in case directive_word cur of
          (None, _) \<Rightarrow> (let (st, p) = PARSE_ERROR p ''invalid directive'' in (st, had_yaml, p))
        | (Some name, cur') \<Rightarrow>
           if \<not> not_blank (hd cur) then (let (st, p) = PARSE_ERROR p ''invalid directive'' in (st, had_yaml, p))
           else if list_ex (\<lambda>c. c < 0x20 \<and> c \<noteq> TAB \<or> c = DEL) line
           then (let (st, p) = PARSE_ERROR p ''control character in directive'' in (st, had_yaml, p))
           else if name = bytes_of ''YAML'' then yaml_directive p had_yaml cur'
           else if name = bytes_of ''TAG'' then (let (st, p) = apply_tag_directive p cur' in (st, had_yaml, p))
           else (OYL_OK, had_yaml, p))"


section \<open>Reading tokens ends\<close>

lemma peek_token_total:
  assumes "scanner_inv (pa_scanner p)"
  obtains st q where "peek_token p = Some (st, q)" and "scanner_inv (pa_scanner q)"
proof (cases "pa_have_token p")
  case True
  with assms that show ?thesis by (simp add: peek_token_def)
next
  case False
  obtain r s where rs: "oyl_scan_token (pa_scanner p) = Some (r, s)" "scanner_inv s"
    using scan_token_ok [OF assms] by blast
  show ?thesis
  proof (cases r)
    case (Inr tok)
    with False rs that show ?thesis by (simp add: peek_token_def)
  next
    case (Inl st)
    show ?thesis
      using False rs Inl by (intro that) (auto simp: peek_token_def Let_def split: option.splits)
  qed
qed

lemma take_prop_scanner: "take_prop p = (st, again, q) \<Longrightarrow> pa_scanner q = pa_scanner p"
  by (auto simp: take_prop_def Let_def PARSE_ERROR_def note_first_prop_def consume_token_def expand_tag_def
      decoded_tag_def split: if_split_asm prod.splits option.splits)

lemma consume_props_total:
  "scanner_inv (pa_scanner p) \<Longrightarrow> \<exists>st q. consume_props p = Some (st, q) \<and> scanner_inv (pa_scanner q)"
proof (induction p rule: consume_props.induct)
  case (1 p)
  obtain st p1 where 2: "peek_token p = Some (st, p1)" "scanner_inv (pa_scanner p1)"
    using peek_token_total [OF 1(2)] .
  obtain st2 again p2 where 3: "take_prop p1 = (st2, again, p2)" by (cases "take_prop p1") auto
  then have inv: "scanner_inv (pa_scanner p2)" using 2(2) take_prop_scanner by metis
  show ?case
  proof (cases "st = OYL_OK \<and> st2 = OYL_OK \<and> again")
    case True
    then have "consume_props p = consume_props p2" using 2 3 by (simp add: consume_props.simps [of p])
    moreover have "\<exists>st q. consume_props p2 = Some (st, q) \<and> scanner_inv (pa_scanner q)"
      using True 2 3 inv by (intro 1(1)) auto
    ultimately show ?thesis by simp
  next
    case False
    then show ?thesis using 2 3 inv by (subst consume_props.simps) (auto simp: PARSE_ERROR_def)
  qed
qed

section \<open>Tags come back\<close>

lemma pct_decode_plain: "PERCENT \<notin> set w \<Longrightarrow> pct_decode w = w"
  by (induction w rule: pct_decode.induct) auto

lemma pct_decode_Cons: "c \<noteq> PERCENT \<Longrightarrow> pct_decode (c # w) = c # pct_decode w"
  by (cases w; cases "tl w") auto

lemma hex_val_digit:
  assumes "oyl_is_hex c"
  shows "hex_val c \<ge> 0 \<and> word_of_int (hex_val c) = hex_digit c"
  using assms by (auto simp: oyl_is_hex_iff hex_val_def hex_digit_def)

lemma pct_decode_hex: "pct_decode (PERCENT # hex_02X c @ w) = c # pct_decode w"
  using hex_02X_read [of c] hex_val_digit [of "hex_upper (drop_bit 4 c)"] hex_val_digit [of "hex_upper (c AND 0x0F)"]
  by (simp add: hex_02X_def)

lemma pct_decode_verbatim: "pct_decode (concat (map verbatim_text t)) = t"
proof (induction t)
  case (Cons c t)
  have "c \<noteq> PERCENT" if "is_uri_char c" using that by (auto simp: is_uri_char_def uri_punctuation_def)
  with Cons show ?case by (auto simp: verbatim_text_def pct_decode_Cons pct_decode_hex)
qed simp

lemma uri_not_percent: "is_tag_char c \<Longrightarrow> c \<noteq> PERCENT \<and> c \<noteq> BANG \<and> c \<noteq> LT"
  by (auto simp: is_tag_char_def is_uri_char_def uri_punctuation_def)

text \<open>The two handles that every document has.\<close>

definition default_handles :: "oyl_parser \<Rightarrow> bool" where
  "default_handles p \<longleftrightarrow> list_all (\<lambda>d. td_handle d \<noteq> [BANG] \<and> td_handle d \<noteq> [BANG, BANG]) (pa_tag_directives p)"

lemma no_default_directive:
  assumes "default_handles p" and "take n raw = [BANG] \<or> take n raw = [BANG, BANG]"
  shows "find (\<lambda>d. length (td_handle d) = n \<and> take n raw = td_handle d) (pa_tag_directives p) = None"
  using assms by (auto simp: default_handles_def find_None_iff list_all_iff)

lemma expand_emitted_tag:
  assumes "t \<noteq> []" and "default_handles p" and "fst (mem_take (pa_mem p))"
  shows "\<exists>q. expand_tag p (Some (tag_handle t)) = (Some t, q)"
proof (rule tag_handle_cases [OF assms(1)], goal_cases core local verbatim)
  case (core u)
  let ?raw = "BANG # BANG # u"
  have "handle_len ?raw = 2" by (simp add: handle_len_def)
  moreover have "pct_decode u = u"
    using core(2) uri_not_percent by (intro pct_decode_plain) (auto simp: list_all_iff)
  ultimately have "\<exists>q. expand_tag p (Some ?raw) = (Some (yaml_prefix @ u), q)"
    using no_default_directive [OF assms(2), of 2 ?raw] assms(3)
    by (auto simp: expand_tag_def decoded_tag_def yaml_prefix_def Let_def split: prod.splits)
  then show ?case using core(1,3) by simp
next
  case (local u)
  let ?raw = "BANG # u"
  have u: "BANG \<notin> set u" "LT \<notin> set u" using local(2) uri_not_percent by (auto simp: list_all_iff)
  have "scan_until (\<lambda>c. c = BANG) u = length u"
    using u(1) scan_until_append [of u "\<lambda>c. c = BANG" "[]"] by auto
  then have "handle_len ?raw = 1"
    using u by (cases u) (auto simp: handle_len_def named_handle_len_def Let_def)
  moreover have "\<not> (length ?raw \<ge> 2 \<and> ?raw ! 1 = BANG)" "\<not> (length ?raw \<ge> 3 \<and> ?raw ! 1 = LT)"
    using u by (cases u; auto)+
  ultimately have "expand_tag p (Some ?raw) = (Some ?raw, p)"
    using no_default_directive [OF assms(2), of 1 ?raw] by (auto simp: expand_tag_def Let_def)
  then show ?case using local(1,3) by simp
next
  case verbatim
  let ?raw = "tag_handle t" and ?w = "concat (map verbatim_text t)"
  have "sub_buf ?raw 2 (length ?raw - 3) = ?w" by (simp add: sub_buf_def verbatim)
  then show ?case
    using pct_decode_verbatim [of t] assms(3)
    by (auto simp: expand_tag_def decoded_tag_def verbatim Let_def split: prod.splits)
qed


text \<open>
  C9: a tag that the emitter writes, in whichever of its three forms, is read by the scanner as one
  tag token, and the parser expands that token to the tag, in a document that does not redefine the
  handles \<open>!\<close> and \<open>!!\<close>: shorthand, local tags and percent-encoded verbatim tags are inverse to
  \<open>scan_tag\<close> and \<open>expand_tag\<close>.
\<close>

theorem tag_round_trip:
  assumes "BUF_AT s = tag_handle t @ SP # rest" and "t \<noteq> []" and "default_handles p" and "fst (mem_take (pa_mem p))"
  shows "\<exists>tok s' q. scan_tag s = (Inr tok, s') \<and> tok_type tok = OYL_TOK_TAG \<and>
    sc_pos s' = sc_pos s + length (tag_handle t) \<and> expand_tag p (tok_value tok) = (Some t, q)"
proof -
  have "tag_stop (hd (SP # rest))" by (simp add: tag_stop_def oyl_is_blank_or_break_iff)
  then have "reads_tag s (scan_tag s) (tag_handle t)" using scan_tag_reads [OF assms(1,2)] by blast
  then show ?thesis using expand_emitted_tag [OF assms(2-4)] by (auto simp: reads_tag_def)
qed

text \<open>A local tag, at the start of the input.\<close>

definition tag_example :: oyl_scanner where
  "tag_example = the (oyl_scanner_new [] False [BANG, 0x61, SP])"

theorem tag_round_trip_witness:
  "\<exists>tok s' q. scan_tag tag_example = (Inr tok, s') \<and> tok_type tok = OYL_TOK_TAG \<and>
    sc_pos s' = sc_pos tag_example + length (tag_handle [BANG, 0x61]) \<and>
    expand_tag (the (oyl_parser_new [] [] False [])) (tok_value tok) = (Some [BANG, 0x61], q)"
proof -
  have "tag_handle [BANG, 0x61] = [BANG, 0x61]"
    by (simp add: tag_handle_def yaml_prefix_def bytes_of_def all_tag_chars_def is_tag_char_def is_uri_char_def
        oyl_is_flow_iff)
  then have "BUF_AT tag_example = tag_handle [BANG, 0x61] @ SP # []"
    by (simp add: tag_example_def oyl_scanner_new_def BUF_AT_def)
  moreover have "default_handles (the (oyl_parser_new [] [] False []))" "pa_mem (the (oyl_parser_new [] [] False [])) = []"
    by (simp_all add: default_handles_def oyl_parser_new_def oyl_scanner_new_def)
  ultimately show ?thesis by (intro tag_round_trip) simp_all
qed

section \<open>The invariant of the tag directives\<close>

text \<open>
  At most eight directives, with different handles, each valid and short enough for its array.
\<close>

definition directives_ok :: "tag_directive list \<Rightarrow> bool" where
  "directives_ok ds \<longleftrightarrow> length ds \<le> 8 \<and> distinct (map td_handle ds) \<and>
     list_all (\<lambda>d. tag_handle_ok (td_handle d) \<and> length (td_handle d) < 16 \<and> length (td_prefix d) < 256) ds"

text \<open>Setting a directive keeps the order of the handles.\<close>

lemma set_directive_cases:
  obtains (old) us d vs where "ds = us @ d # vs" "td_handle d = w1"
      "set_tag_directive ds w1 w2 = us @ \<lparr>td_handle = w1, td_prefix = w2\<rparr> # vs" "\<forall>x\<in>set us. td_handle x \<noteq> w1"
  | (new) "\<forall>x\<in>set ds. td_handle x \<noteq> w1" "set_tag_directive ds w1 w2 = ds @ [\<lparr>td_handle = w1, td_prefix = w2\<rparr>]"
proof -
  let ?P = "\<lambda>d. td_handle d \<noteq> w1"
  have us: "\<forall>x\<in>set (takeWhile ?P ds). td_handle x \<noteq> w1" by (auto dest: set_takeWhileD)
  show ?thesis
  proof (cases "dropWhile ?P ds")
    case Nil
    then have "takeWhile ?P ds = ds" using takeWhile_dropWhile_id [of ?P ds] by simp
    with us new show ?thesis by (simp add: set_tag_directive_def)
  next
    case (Cons d vs)
    then have "td_handle d = w1" using hd_dropWhile [of ?P ds] by simp
    moreover have ds: "ds = takeWhile ?P ds @ d # vs" using Cons takeWhile_dropWhile_id [of ?P ds] by simp
    moreover have "set_tag_directive ds w1 w2 = takeWhile ?P ds @ \<lparr>td_handle = w1, td_prefix = w2\<rparr> # vs"
    proof -
      have "length (takeWhile ?P ds) < length ds" using arg_cong [OF ds, of length] by simp
      moreover have "ds[length (takeWhile ?P ds) := x] = takeWhile ?P ds @ x # vs" for x
        by (subst (1) ds) (simp add: list_update_append)
      ultimately show ?thesis by (simp add: set_tag_directive_def)
    qed
    ultimately show ?thesis using us old by blast
  qed
qed

lemma set_directive_ok:
  assumes "directives_ok ds" and "tag_handle_ok w1" and "length w1 < 16" and "length w2 < 256"
    and "\<not> (list_all (\<lambda>d. td_handle d \<noteq> w1) ds \<and> length ds \<ge> 8)"
  shows "directives_ok (set_tag_directive ds w1 w2)"
  using assms by (cases rule: set_directive_cases [of ds w1 w2]) (auto simp: directives_ok_def list_all_iff)

lemma find_append: "find P (xs @ ys) = (case find P xs of None \<Rightarrow> find P ys | Some x \<Rightarrow> Some x)"
  by (induction xs) auto

lemma set_directive_find:
  "find (\<lambda>d. td_handle d = w) (set_tag_directive ds w1 w2) =
     (if w = w1 then Some \<lparr>td_handle = w1, td_prefix = w2\<rparr> else find (\<lambda>d. td_handle d = w) ds)"
proof -
  have none: "find (\<lambda>d. td_handle d = w1) xs = None" if "\<forall>x\<in>set xs. td_handle x \<noteq> w1" for xs
    using that by (auto simp: find_None_iff)
  show ?thesis
    by (cases rule: set_directive_cases [of ds w1 w2]) (auto simp: find_append none split: option.splits)
qed

lemma directive_ok:
  assumes "parse_directive p had = (st, had', q)" and "directives_ok (pa_tag_directives p)"
  shows "directives_ok (pa_tag_directives q)"
  using assms set_directive_ok
  by (auto simp: parse_directive_def yaml_directive_def apply_tag_directive_def PARSE_ERROR_def Let_def
      split: if_split_asm prod.splits option.splits)


section \<open>A directive governs the tags with its handle\<close>

lemma directive_word_eq:
  assumes "w \<noteq> []" and "list_all not_blank w" and "rest = [] \<or> \<not> not_blank (hd rest)"
  shows "directive_word (SP # w @ rest) = (if hd w = HASH then (None, []) else (Some w, rest))"
    and "directive_word (w @ rest) = (Some w, rest)"
proof -
  obtain c w' where w: "w = c # w'" "not_blank c" using assms(1,2) by (cases w) auto
  have t: "takeWhile not_blank (w @ rest) = w" "dropWhile not_blank (w @ rest) = rest"
    using assms(2,3) by (cases rest; simp add: list_all_iff takeWhile_append dropWhile_append)+
  have "\<not> not_blank SP" by (simp add: not_blank_def)
  then show "directive_word (SP # w @ rest) = (if hd w = HASH then (None, []) else (Some w, rest))"
    and "directive_word (w @ rest) = (Some w, rest)"
    using w t by (simp_all add: directive_word_def Let_def)
qed

lemma handle_len_directive:
  assumes "tag_handle_ok w" and "w \<noteq> []" and "list_all is_tag_char u"
  shows "handle_len (w @ u) = length w" and "\<not> (length (w @ u) \<ge> 2 \<and> (w @ u) ! 1 = LT)" and "hd (w @ u) = BANG"
proof -
  have u: "BANG \<notin> set u" "LT \<notin> set u" using assms(3) uri_not_percent by (auto simp: list_all_iff)
  obtain c where w: "w = BANG # c" using assms(1,2) by (cases w) (auto simp: tag_handle_ok_def)
  have un: "scan_until (\<lambda>c. c = BANG) x = length x" if "BANG \<notin> set x" for x
    using that scan_until_append [of x "\<lambda>c. c = BANG" "[]"] by auto
  have "handle_len (w @ u) = length w \<and> \<not> (length (w @ u) \<ge> 2 \<and> (w @ u) ! 1 = LT)"
  proof (cases c rule: rev_cases)
    case Nil
    then show ?thesis
      using u un [OF u(1)] w by (cases u) (auto simp: handle_len_def named_handle_len_def Let_def)
  next
    case (snoc m b)
    have b: "b = BANG" and m: "list_all (\<lambda>c. is_dec_digit c \<or> c \<ge> LC_A \<and> c \<le> LC_Z \<or> c \<ge> UC_A \<and> c \<le> UC_Z \<or> c = DASH) m"
      using assms(1) w snoc by (auto simp: tag_handle_ok_def)
    have mn: "x \<noteq> BANG \<and> x \<noteq> LT" if "x \<in> set m" for x
      using m that by (auto simp: list_all_iff is_dec_digit_def)
    show ?thesis
    proof (cases m)
      case Nil
      then show ?thesis using w snoc b by (simp add: handle_len_def)
    next
      case (Cons d m')
      have "scan_until (\<lambda>c. c = BANG) (m @ BANG # u) = length m"
        using mn by (subst scan_until_append) auto
      then show ?thesis
        using w snoc b Cons mn by (auto simp: handle_len_def named_handle_len_def Let_def)
    qed
  qed
  then show "handle_len (w @ u) = length w" and "\<not> (length (w @ u) \<ge> 2 \<and> (w @ u) ! 1 = LT)" by simp_all
  show "hd (w @ u) = BANG" using w by simp
qed

lemma find_handle:
  "find (\<lambda>d. length (td_handle d) = length w \<and> take (length w) (w @ u) = td_handle d) ds = find (\<lambda>d. td_handle d = w) ds"
  by (induction ds) auto

lemma expand_directive_tag:
  assumes "find (\<lambda>d. td_handle d = w) (pa_tag_directives q) = Some \<lparr>td_handle = w, td_prefix = x\<rparr>"
    and "tag_handle_ok w" and "w \<noteq> []" and "list_all is_tag_char u" and "fst (mem_take (pa_mem q))"
  shows "\<exists>r. expand_tag q (Some (w @ u)) = (Some (x @ u), r)"
proof -
  note h = handle_len_directive [OF assms(2-4)]
  have "pct_decode u = u"
    using assms(4) uri_not_percent by (intro pct_decode_plain) (auto simp: list_all_iff)
  moreover have "0 < length (w @ u)" using assms(3) by simp
  moreover have "\<not> (length (w @ u) \<ge> 3 \<and> (w @ u) ! 1 = LT)" using h(2) by linarith
  ultimately show ?thesis
    using h(1,3) assms(1,5) find_handle [of w u "pa_tag_directives q"]
    by (auto simp: expand_tag_def decoded_tag_def Let_def split: prod.splits)
qed

text \<open>
  C12: the directives of a document stay within their arrays, valid and with different handles, and
  once a line \<open>%TAG h prefix\<close> has been accepted, whatever directives came before it, every tag that
  is written with the handle \<open>h\<close> expands to the prefix followed by the tag's suffix.
\<close>

theorem tag_directive_governs:
  assumes "directives_ok (pa_tag_directives p)"
    and "parse_directive p had = (OYL_OK, had', q)"
    and "tok_value (pa_current p) = Some (PERCENT # bytes_of ''TAG'' @ SP # h @ SP # x)"
    and "h \<noteq> []" and "list_all not_blank h" and "x \<noteq> []" and "list_all not_blank x"
    and "list_all is_tag_char u" and "fst (mem_take (pa_mem q))"
  shows "directives_ok (pa_tag_directives q) \<and> (\<exists>r. expand_tag q (Some (h @ u)) = (Some (x @ u), r))"
proof -
  have name: "directive_word (bytes_of ''TAG'' @ SP # h @ SP # x) = (Some (bytes_of ''TAG''), SP # h @ SP # x)"
    by (rule directive_word_eq(2)) (simp_all add: bytes_of_def not_blank_def)
  have words: "directive_word (SP # h @ SP # x) = (if hd h = HASH then (None, []) else (Some h, SP # x))"
    "directive_word (SP # x) = (if hd x = HASH then (None, []) else (Some x, []))"
    using directive_word_eq(1) [OF assms(4,5), of "SP # x"] directive_word_eq(1) [OF assms(6,7), of "[]"]
    by (simp_all add: not_blank_def)
  have ne: "bytes_of ''TAG'' \<noteq> bytes_of ''YAML''" "not_blank (hd (bytes_of ''TAG'' @ y))" for y
    by (simp_all add: bytes_of_def not_blank_def)
  have "apply_tag_directive p (SP # h @ SP # x) = (OYL_OK, q)"
    using assms(2,3) name ne by (auto simp: parse_directive_def PARSE_ERROR_def Let_def split: if_split_asm prod.splits)
  then have h: "tag_handle_ok h" and q: "q = p\<lparr>pa_tag_directives := set_tag_directive (pa_tag_directives p) h x\<rparr>"
    using words by (auto simp: apply_tag_directive_def PARSE_ERROR_def directive_word_def split: if_split_asm)
  then have "\<exists>r. expand_tag q (Some (h @ u)) = (Some (x @ u), r)"
    using assms(4,8,9) by (intro expand_directive_tag) (simp_all add: set_directive_find)
  then show ?thesis using directive_ok [OF assms(2,1)] by simp
qed


text \<open>The directive \<open>%TAG !e! a\<close>, and the tag \<open>!e!b\<close>.\<close>

definition directive_example :: oyl_parser where
  "directive_example = (the (oyl_parser_new [] [] False []))\<lparr>pa_current := null_token\<lparr>tok_value :=
     Some (PERCENT # bytes_of ''TAG'' @ SP # [BANG, LC_E, BANG] @ SP # [LC_A])\<rparr>\<rparr>"

definition directive_after :: oyl_parser where
  "directive_after = snd (snd (parse_directive directive_example False))"

theorem tag_directive_governs_witness:
  "directives_ok (pa_tag_directives directive_after) \<and>
   (\<exists>r. expand_tag directive_after (Some ([BANG, LC_E, BANG] @ [LC_B])) = (Some ([LC_A] @ [LC_B]), r))"
proof (rule tag_directive_governs)
  show "directives_ok (pa_tag_directives directive_example)"
    by (simp add: directive_example_def oyl_parser_new_def oyl_scanner_new_def directives_ok_def)
  have "fst (parse_directive directive_example False) = OYL_OK" by code_simp
  then show "parse_directive directive_example False =
      (OYL_OK, fst (snd (parse_directive directive_example False)), directive_after)"
    by (simp add: directive_after_def prod_eq_iff)
  show "tok_value (pa_current directive_example) =
      Some (PERCENT # bytes_of ''TAG'' @ SP # [BANG, LC_E, BANG] @ SP # [LC_A])"
    by (simp add: directive_example_def)
  show "fst (mem_take (pa_mem directive_after))" by code_simp
qed (simp_all add: not_blank_def is_tag_char_def is_uri_char_def oyl_is_flow_iff)

section \<open>The limit on events\<close>

text \<open>What \<open>enqueue\<close> does, in its four cases.\<close>

lemma enqueue_cases:
  assumes "length (pa_events p) \<le> pa_evt_cap p"
  obtains (limit) "over_limit p" "enqueue p evt = (False, hit_limit p ''event limit exceeded'')"
  | (memory) m where "\<not> over_limit p" "enqueue p evt = (False, p\<lparr>pa_mem := m, pa_oom := True\<rparr>)" "False \<in> set (pa_mem p)"
  | (added) m cap where "\<not> over_limit p" "length (pa_events p) < cap"
      "enqueue p evt = (True, p\<lparr>pa_mem := m, pa_evt_cap := cap, pa_events := pa_events p @ [schema_tag p evt]\<rparr>)"
proof (cases "over_limit p")
  case True
  with limit show ?thesis by (simp add: enqueue_def)
next
  case no_limit: False
  obtain ok m where m: "mem_take (pa_mem p) = (ok, m)" by fastforce
  show ?thesis
  proof (cases "length (pa_events p) \<ge> pa_evt_cap p")
    case False
    with no_limit show ?thesis
      by (intro added [of "pa_evt_cap p" "pa_mem p"]) (simp_all add: enqueue_def)
  next
    case full: True
    show ?thesis
    proof (cases ok)
      case True
      have "schema_tag (p\<lparr>pa_mem := m, pa_evt_cap := c\<rparr>) evt = schema_tag p evt" for c
        by (simp add: schema_tag_def)
      with True full no_limit m assms show ?thesis
        by (intro added [of "if pa_evt_cap p * 2 < 64 then 64 else pa_evt_cap p * 2" m])
          (auto simp: enqueue_def Let_def)
    next
      case False
      then have "False \<in> set (pa_mem p)" using m mem_take_set by blast
      with False full no_limit m show ?thesis by (intro memory [of m]) (simp_all add: enqueue_def)
    qed
  qed
qed


text \<open>The queue fits in its array and respects the limit; every addition keeps both.\<close>

definition queue_ok :: "oyl_parser \<Rightarrow> bool" where
  "queue_ok p \<longleftrightarrow> length (pa_events p) \<le> pa_evt_cap p \<and>
     (0 < pa_max_events p \<and> pa_events p \<noteq> [] \<longrightarrow> pa_evt_base p + int (length (pa_events p)) \<le> pa_max_events p)"

lemma enqueue_ok:
  assumes "queue_ok p"
  shows "queue_ok (snd (enqueue p evt))"
proof -
  have le: "length (pa_events p) \<le> pa_evt_cap p" using assms by (simp add: queue_ok_def)
  show ?thesis
  proof (rule enqueue_cases [OF le, of evt], goal_cases limit memory added)
    case limit
    then show ?case using assms by (simp add: queue_ok_def hit_limit_def stop_with_def Let_def)
  next
    case (memory m)
    then show ?case using assms by (simp add: queue_ok_def)
  next
    case (added m cap)
    then show ?case using assms by (auto simp: queue_ok_def over_limit_def)
  qed
qed

lemma insert_event_ok:
  assumes "queue_ok p" and "insert_event p idx evt = (ok, q)"
  shows "queue_ok q" and "ok \<Longrightarrow> pa_events q = take idx (pa_events p) @ schema_tag p evt # drop idx (pa_events p)"
proof -
  have le: "length (pa_events p) \<le> pa_evt_cap p" using assms by (simp add: queue_ok_def)
  have "queue_ok q \<and> (ok \<longrightarrow> pa_events q = take idx (pa_events p) @ schema_tag p evt # drop idx (pa_events p))"
  proof (rule enqueue_cases [OF le, of evt], goal_cases limit memory added)
    case limit
    then show ?case using assms enqueue_ok [of p evt] by (auto simp: insert_event_def)
  next
    case (memory m)
    then show ?case using assms enqueue_ok [of p evt] by (auto simp: insert_event_def)
  next
    case (added m cap)
    have "length (take idx (pa_events p) @ schema_tag p evt # drop idx (pa_events p)) =
        length (pa_events p @ [schema_tag p evt])"
      by simp
    moreover have "ok" and "q = p\<lparr>pa_mem := m, pa_evt_cap := cap,
        pa_events := take idx (pa_events p) @ schema_tag p evt # drop idx (pa_events p)\<rparr>"
      using added(3) assms(2) by (auto simp: insert_event_def Let_def)
    ultimately show ?case using added enqueue_ok [OF assms(1), of evt]
      by (auto simp: queue_ok_def simp del: length_append)
  qed
  then show "queue_ok q" and "ok \<Longrightarrow> pa_events q = take idx (pa_events p) @ schema_tag p evt # drop idx (pa_events p)"
    by blast+
qed

end
