(* ===== verification/OylFlowKey.thy ===== *)
theory OylFlowKey
  imports OylParserState
begin

text \<open>
  The lookahead that decides, before a flow collection is parsed, whether it is an implicit key
  (\<open>flow_is_block_key\<close> of \<open>src/src/oyl_parser.c\<close>): a scan over the raw bytes with a cursor that takes 64
  bytes at a time as a bit mask, and a cache of the answers for the collections it has passed.

  The cursor is shown to visit exactly the stop bytes, in order; every loop of the scan has a measure
  (\<open>fk_left\<close>), so the scan always returns.
\<close>

section \<open>The cursor\<close>

record fk_cursor =
  fk_base :: nat
  fk_bits :: "64 word"

definition fk_mask_at :: "byte list \<Rightarrow> nat \<Rightarrow> 64 word" where
  "fk_mask_at input base =
    (if length input - base \<ge> 64 then oyl_flow_mask64 (sub_buf input base 64)
     else fold (\<lambda>k m. if flow_stop (input ! (base + k)) then m OR push_bit k 1 else m)
            [0..<length input - base] 0)"

definition fk_seek :: "byte list \<Rightarrow> nat \<Rightarrow> fk_cursor" where
  "fk_seek input pos = \<lparr>fk_base = pos, fk_bits = (if pos < length input then fk_mask_at input pos else 0)\<rparr>"

text \<open>\<open>__builtin_ctzll\<close>: the number of the lowest bit that is set.\<close>

definition ctz64 :: "64 word \<Rightarrow> nat" where
  "ctz64 w = (case find (bit w) [0..<64] of None \<Rightarrow> 64 | Some k \<Rightarrow> k)"

function fk_next :: "byte list \<Rightarrow> fk_cursor \<Rightarrow> nat \<times> fk_cursor" where
  "fk_next input c =
    (if fk_bits c = 0 then
       if length input - fk_base c \<le> 64 then (length input, c\<lparr>fk_base := length input\<rparr>)
       else fk_next input \<lparr>fk_base = fk_base c + 64, fk_bits = fk_mask_at input (fk_base c + 64)\<rparr>
     else (fk_base c + ctz64 (fk_bits c), c\<lparr>fk_bits := fk_bits c AND (fk_bits c - 1)\<rparr>))"
  by pat_completeness auto
termination by (relation "measure (\<lambda>(input, c). length input - fk_base c)") auto

declare fk_next.simps [simp del]

text \<open>What is left of the input for a cursor: blocks first, then the bits of the current one.\<close>

definition fk_left :: "byte list \<Rightarrow> fk_cursor \<Rightarrow> nat" where
  "fk_left input c = (length input - fk_base c) * 2 ^ 64 + unat (fk_bits c)"

lemma unat_less_2_64: "unat (w :: 64 word) < 2 ^ 64"
  using unsigned_less [of w] by simp

lemma clear_lowest:
  assumes "(w :: 64 word) \<noteq> 0"
  shows "unat (w AND (w - 1)) < unat w"
proof -
  have "w AND (w - 1) \<le> w - 1" by (simp add: word_and_le1)
  then have "unat (w AND (w - 1)) \<le> unat (w - 1)" by (simp add: word_le_nat_alt)
  also have "unat (w - 1) < unat w" using assms by (simp add: unat_minus_one unat_gt_0)
  finally show ?thesis .
qed

lemma block_left:
  "length input - b > 64 \<Longrightarrow>
    (length input - (b + 64)) * 2 ^ 64 + unat (w :: 64 word) < (length input - b) * 2 ^ 64"
proof -
  assume "length input - b > 64"
  then have "length input - b = (length input - (b + 64)) + 64" by simp
  then have "(length input - b) * 2 ^ 64 = (length input - (b + 64)) * 2 ^ 64 + 64 * 2 ^ 64"
    by (simp only: add_mult_distrib)
  then show ?thesis using unat_less_2_64 [of w] by linarith
qed

lemma fk_next_left: "fk_next input c = (i, c') \<Longrightarrow> i \<noteq> length input \<Longrightarrow> fk_left input c' < fk_left input c"
proof (induction input c rule: fk_next.induct)
  case (1 input c)
  consider "fk_bits c = 0" "length input - fk_base c \<le> 64" | "fk_bits c = 0" "length input - fk_base c > 64"
    | "fk_bits c \<noteq> 0" by linarith
  then show ?case
  proof cases
    case 2
    then have "fk_left input c' < fk_left input \<lparr>fk_base = fk_base c + 64, fk_bits = fk_mask_at input (fk_base c + 64)\<rparr>"
      using 1 by (subst (asm) fk_next.simps) simp
    also have "\<dots> < fk_left input c" using block_left 2 by (simp add: fk_left_def)
    finally show ?thesis .
  next
    case 3
    then show ?thesis using 1 clear_lowest by (subst (asm) fk_next.simps) (auto simp: fk_left_def)
  qed (use 1 in \<open>auto simp: fk_next.simps [of input c]\<close>)
qed

lemma fk_next_left_le: "fk_left input (snd (fk_next input c)) \<le> fk_left input c"
proof (cases "fst (fk_next input c) = length input")
  case False
  then show ?thesis using fk_next_left [of input c "fst (fk_next input c)" "snd (fk_next input c)"] by simp
next
  case True
  then show ?thesis
  proof (induction input c rule: fk_next.induct)
    case (1 input c)
    consider "fk_bits c = 0" "length input - fk_base c \<le> 64" | "fk_bits c = 0" "length input - fk_base c > 64"
      | "fk_bits c \<noteq> 0" by linarith
    then show ?case
    proof cases
      case 2
      then have "fk_left input (snd (fk_next input c)) \<le> fk_left input \<lparr>fk_base = fk_base c + 64, fk_bits = fk_mask_at input (fk_base c + 64)\<rparr>"
        using 1 by (simp add: fk_next.simps [of input c])
      also have "\<dots> < fk_left input c" using block_left 2 by (simp add: fk_left_def)
      finally show ?thesis by simp
    next
      case 3
      then show ?thesis using clear_lowest [of "fk_bits c"] by (simp add: fk_next.simps [of input c] fk_left_def)
    qed (simp add: fk_next.simps [of input c] fk_left_def)
  qed
qed

lemma fk_next_ge: "fk_next input c = (i, c') \<Longrightarrow> i \<noteq> length input \<Longrightarrow> fk_base c' \<le> i \<and> fk_base c \<le> i \<and> 0 < fk_left input c"
proof (induction input c rule: fk_next.induct)
  case (1 input c)
  consider "fk_bits c = 0" "length input - fk_base c \<le> 64" | "fk_bits c = 0" "length input - fk_base c > 64"
    | "fk_bits c \<noteq> 0" by linarith
  then show ?case
  proof cases
    case 2
    then show ?thesis using 1 by (auto simp: fk_left_def fk_next.simps [of input c])
  next
    case 3
    then show ?thesis using 1 by (subst (asm) fk_next.simps) (auto simp: fk_left_def unat_gt_0)
  qed (use 1 in \<open>auto simp: fk_next.simps [of input c]\<close>)
qed

lemma fk_seek_left:
  assumes "fk_base c < pos" and "0 < fk_left input c"
  shows "fk_left input (fk_seek input pos) < fk_left input c"
proof (cases "pos < length input")
  case True
  then have "length input - fk_base c = (length input - pos) + (pos - fk_base c)" using assms(1) by simp
  then have "(length input - fk_base c) * 2 ^ 64 = (length input - pos) * 2 ^ 64 + (pos - fk_base c) * 2 ^ 64"
    by (simp only: add_mult_distrib)
  moreover have "2 ^ 64 \<le> (pos - fk_base c) * 2 ^ 64" using assms(1) by simp
  ultimately show ?thesis using unat_less_2_64 [of "fk_mask_at input pos"] True
    unfolding fk_left_def fk_seek_def by simp
qed (use assms(2) in \<open>simp add: fk_left_def fk_seek_def\<close>)


section \<open>The scan\<close>

text \<open>1 if a quote certainly opens a scalar, 0 if it is certainly text, -1 if that is not certain.\<close>

definition fk_quote_kind :: "byte list \<Rightarrow> nat \<Rightarrow> nat \<Rightarrow> int" where
  "fk_quote_kind input i qend =
    (let c = input ! (i - 1)
     in if c \<noteq> SP \<and> c \<noteq> TAB then
          if c = LBRACK \<or> c = LBRACE \<or> c = COMMA then 1
          else if c = COLON \<and> i \<ge> 2 \<and>
                  ((input ! (i - 2) = DQUOTE \<or> input ! (i - 2) = SQUOTE) \<and> i - 1 = qend \<or>
                   input ! (i - 2) = RBRACK \<or> input ! (i - 2) = RBRACE)
          then 1
          else 0
        else
          let before = dropWhile (\<lambda>c. c = SP \<or> c = TAB) (rev (take i input))
          in if before = [] then 1
             else if hd before = LBRACK \<or> hd before = LBRACE \<or> hd before = COMMA \<or> hd before = COLON then 1
             else - 1)"

text \<open>On the bytes behind the bracket: blanks, breaks and comments are skipped.\<close>

fun colon_next :: "byte list \<Rightarrow> bool \<Rightarrow> bool" where
  "colon_next [] in_comment = False"
| "colon_next (c # cs) in_comment =
    (if in_comment then colon_next cs (c \<noteq> LF)
     else if c = SP \<or> c = TAB \<or> c = LF \<or> c = CR then colon_next cs False
     else if c = HASH then colon_next cs True
     else c = COLON)"

definition fk_colon_follows :: "byte list \<Rightarrow> nat \<Rightarrow> bool" where
  "fk_colon_follows input i = colon_next (drop (i + 1) input) False"

text \<open>The number of backslashes right before offset \<open>k\<close>, down to but not including offset \<open>i\<close>.\<close>

definition backslashes_before :: "byte list \<Rightarrow> nat \<Rightarrow> nat \<Rightarrow> nat" where
  "backslashes_before input i k =
    length (takeWhile (\<lambda>c. c = BSLASH) (rev (sub_buf input (i + 1) (k - (i + 1)))))"

text \<open>The result is the offset behind the closing quote, or the length of the input.\<close>

function fk_skip_quoted :: "byte list \<Rightarrow> fk_cursor \<Rightarrow> nat \<Rightarrow> nat \<times> fk_cursor" where
  "fk_skip_quoted input c i =
    (let q = input ! i; (k, c1) = fk_next input c
     in if k = length input then (length input, c1)
        else if input ! k \<noteq> q then fk_skip_quoted input c1 i
        else if q = SQUOTE then
          if k + 1 < length input \<and> input ! (k + 1) = SQUOTE
          then fk_skip_quoted input (snd (fk_next input c1)) i
          else (k + 1, c1)
        else if even (backslashes_before input i k) then (k + 1, c1)
        else fk_skip_quoted input c1 i)"
  by pat_completeness auto
termination
  by (relation "measure (\<lambda>(input, c, i). fk_left input c)")
    (auto dest: fk_next_left [OF sym] intro: le_less_trans [OF fk_next_left_le])


declare fk_skip_quoted.simps [simp del]

lemma fk_skip_quoted_left: "fk_left input (snd (fk_skip_quoted input c i)) \<le> fk_left input c"
proof (induction "fk_left input c" arbitrary: c rule: less_induct)
  case less
  obtain k c1 where n: "fk_next input c = (k, c1)" by fastforce
  let ?c2 = "snd (fk_next input c1)"
  have le: "fk_left input c1 \<le> fk_left input c" "fk_left input ?c2 \<le> fk_left input c1"
    using fk_next_left_le [of input c] fk_next_left_le [of input c1] n by simp_all
  show ?case
  proof (cases "k = length input")
    case True
    then show ?thesis using n le by (simp add: fk_skip_quoted.simps [of input c])
  next
    case False
    then have "fk_left input c1 < fk_left input c" "fk_left input ?c2 < fk_left input c"
      using fk_next_left [OF n] le(2) by simp_all
    from less [OF this(1)] less [OF this(2)] le
    have "fk_left input (snd (fk_skip_quoted input c1 i)) \<le> fk_left input c"
      "fk_left input (snd (fk_skip_quoted input ?c2 i)) \<le> fk_left input c" by simp_all
    then show ?thesis using n le False by (simp add: fk_skip_quoted.simps [of input c] Let_def)
  qed
qed

text \<open>A comment, up to the line feed that ends it.\<close>

function fk_skip_comment :: "byte list \<Rightarrow> fk_cursor \<Rightarrow> nat \<times> fk_cursor" where
  "fk_skip_comment input c =
    (let (k, c1) = fk_next input c
     in if k \<noteq> length input \<and> input ! k \<noteq> LF then fk_skip_comment input c1 else (k, c1))"
  by pat_completeness auto
termination
  by (relation "measure (\<lambda>(input, c). fk_left input c)") (auto dest: fk_next_left [OF sym])

declare fk_skip_comment.simps [simp del]

lemma fk_skip_comment_left: "fk_left input (snd (fk_skip_comment input c)) \<le> fk_left input c"
proof (induction input c rule: fk_skip_comment.induct)
  case (1 input c)
  obtain k c1 where n: "fk_next input c = (k, c1)" by fastforce
  then have "fk_left input c1 \<le> fk_left input c" using fk_next_left_le [of input c] by simp
  with 1 n show ?case by (subst fk_skip_comment.simps) (auto intro: order_trans)
qed

text \<open>How the scan ends: without memory, undecided, at the end of the input, or at an offset.\<close>

datatype fk_end = FK_NO_MEMORY | FK_AMBIGUOUS | FK_UNTERMINATED | FK_DONE nat

definition fk_keys :: "oyl_parser \<Rightarrow> nat list" where
  "fk_keys p = (case pa_fk_keys p of None \<Rightarrow> [] | Some ks \<Rightarrow> ks)"

definition fk_open :: "oyl_parser \<Rightarrow> nat list \<Rightarrow> nat \<Rightarrow> (oyl_parser \<times> nat list) option \<times> oyl_parser" where
  "fk_open p stack i =
    (if length stack \<ge> pa_fk_stack_cap p then
       let nc = (if pa_fk_stack_cap p \<noteq> 0 then pa_fk_stack_cap p * 2 else 64); (ok, m) = mem_take (pa_mem p);
           p = p\<lparr>pa_mem := m\<rparr>
       in if \<not> ok then (None, p) else (Some (p\<lparr>pa_fk_stack_cap := nc\<rparr>, i # stack), p)
     else (Some (p, i # stack), p))"

definition fk_add_key :: "oyl_parser \<Rightarrow> nat \<Rightarrow> bool \<times> oyl_parser" where
  "fk_add_key p offset =
    (let (ok, p) =
       (if length (fk_keys p) \<ge> pa_fk_keys_cap p then
          let nc = (if pa_fk_keys_cap p \<noteq> 0 then pa_fk_keys_cap p * 2 else 16); (ok, m) = mem_take (pa_mem p);
              p = p\<lparr>pa_mem := m\<rparr>
          in if \<not> ok then (False, p) else (True, p\<lparr>pa_fk_keys_cap := nc\<rparr>)
        else (True, p))
     in if \<not> ok then (False, p) else (True, p\<lparr>pa_fk_keys := Some (fk_keys p @ [offset])\<rparr>))"

text \<open>A verbatim tag may start at the bracket \<open>input[i]\<close>.\<close>

definition verbatim_start :: "byte list \<Rightarrow> nat \<Rightarrow> bool" where
  "verbatim_start input i \<longleftrightarrow> i \<ge> 1 \<and> input ! (i - 1) = BANG \<and>
     (i = 1 \<or> input ! (i - 2) = SP \<or> input ! (i - 2) = TAB \<or> input ! (i - 2) = LBRACK \<or>
      input ! (i - 2) = LBRACE \<or> input ! (i - 2) = COMMA)"

definition verbatim_end :: "byte list \<Rightarrow> nat \<Rightarrow> nat" where
  "verbatim_end input i =
    i + 1 + scan_until (\<lambda>c. c = GT \<or> c = SP \<or> c = TAB \<or> c = LF \<or> c = CR) (drop (i + 1) input)"

type_synonym fk_state = "oyl_parser \<times> nat list \<times> nat \<times> fk_cursor"

text \<open>One stop byte: the end of the scan, or its next state (parser, stack, end of the last scalar, cursor).\<close>

definition fk_stop_at :: "oyl_parser \<Rightarrow> nat list \<Rightarrow> nat \<Rightarrow> fk_cursor \<Rightarrow> nat \<Rightarrow> (fk_end \<times> oyl_parser) + fk_state" where
  "fk_stop_at p stack qend c i =
    (let input = pa_input p; b = input ! i
     in if b = SQUOTE \<or> b = DQUOTE then
          let kind = fk_quote_kind input i qend
          in if kind = 1 then
               let (e, c2) = fk_skip_quoted input c i
               in if e = length input then Inl (FK_UNTERMINATED, p) else Inr (p, stack, e, c2)
             else if kind = - 1 then Inl (FK_AMBIGUOUS, p)
             else Inr (p, stack, qend, c)
        else if b = LT then
          if verbatim_start input i then
            let k = verbatim_end input i
            in if k = length input \<or> input ! k \<noteq> GT then Inl (FK_AMBIGUOUS, p)
               else Inr (p, stack, qend, fk_seek input (k + 1))
          else Inr (p, stack, qend, c)
        else if b = HASH then
          if i > 0 \<and> (input ! (i - 1) = SP \<or> input ! (i - 1) = TAB \<or> input ! (i - 1) = LF \<or> input ! (i - 1) = CR)
          then let (k, c2) = fk_skip_comment input c
               in if k = length input then Inl (FK_UNTERMINATED, p) else Inr (p, stack, qend, c2)
          else Inr (p, stack, qend, c)
        else if b = LBRACK \<or> b = LBRACE then
          case fk_open p stack i of
            (None, p) \<Rightarrow> Inl (FK_NO_MEMORY, p)
          | (Some (p, stack), _) \<Rightarrow> Inr (p, stack, qend, c)
        else if b = LF \<or> b = CR then
          if stack \<noteq> [] then Inl (FK_DONE i, p) else Inr (p, stack, qend, c)
        else if b = RBRACK \<or> b = RBRACE then
          case stack of
            [] \<Rightarrow> Inr (p, stack, qend, c)
          | start # stack \<Rightarrow>
              let (ok, p) = (if fk_colon_follows input i then fk_add_key p start else (True, p))
              in if \<not> ok then Inl (FK_NO_MEMORY, p)
                 else if stack = [] then Inl (FK_DONE i, p)
                 else Inr (p, stack, qend, c)
        else Inr (p, stack, qend, c))"

lemma fk_stop_at_input:
  "fk_stop_at p stack qend c i = Inr (q, stack', qend', c') \<Longrightarrow> pa_input q = pa_input p"
  "fk_stop_at p stack qend c i = Inl (e, q) \<Longrightarrow> pa_input q = pa_input p"
  by (auto simp: fk_stop_at_def fk_open_def fk_add_key_def Let_def split: if_split_asm option.splits prod.splits list.splits)

lemma fk_stop_at_left:
  assumes "fk_stop_at p stack qend c i = Inr (q, stack', qend', c')" and "fk_base c \<le> i" and "0 < fk_left (pa_input p) c0"
    and "fk_base c0 \<le> i" and "fk_left (pa_input p) c < fk_left (pa_input p) c0"
  shows "fk_left (pa_input q) c' < fk_left (pa_input p) c0"
proof -
  have input: "pa_input q = pa_input p" using fk_stop_at_input(1) [OF assms(1)] .
  have skip: "fk_left (pa_input p) (snd (fk_skip_quoted (pa_input p) c i)) < fk_left (pa_input p) c0"
    "fk_left (pa_input p) (snd (fk_skip_comment (pa_input p) c)) < fk_left (pa_input p) c0"
    using fk_skip_quoted_left fk_skip_comment_left assms(5) by (blast intro: le_less_trans)+
  have "fk_base c0 < verbatim_end (pa_input p) i + 1" using assms(4) by (simp add: verbatim_end_def)
  then have seek: "fk_left (pa_input p) (fk_seek (pa_input p) (verbatim_end (pa_input p) i + 1)) < fk_left (pa_input p) c0"
    using fk_seek_left assms(3) by blast
  have "c' = c \<or> c' = snd (fk_skip_quoted (pa_input p) c i) \<or> c' = snd (fk_skip_comment (pa_input p) c) \<or>
      c' = fk_seek (pa_input p) (verbatim_end (pa_input p) i + 1)"
    using assms(1) unfolding fk_stop_at_def Let_def
    by (auto split: if_split_asm option.splits prod.splits list.splits)
  then show ?thesis using skip seek assms(5) input by auto
qed

function fk_loop :: "oyl_parser \<Rightarrow> nat list \<Rightarrow> nat \<Rightarrow> fk_cursor \<Rightarrow> fk_end \<times> oyl_parser" where
  "fk_loop p stack qend c =
    (let (i, c1) = fk_next (pa_input p) c
     in if i = length (pa_input p) then (FK_UNTERMINATED, p)
        else case fk_stop_at p stack qend c1 i of
               Inl r \<Rightarrow> r
             | Inr (p, stack, qend, c) \<Rightarrow> fk_loop p stack qend c)"
  by pat_completeness auto
termination
proof (relation "measure (\<lambda>(p, stack, qend, c). fk_left (pa_input p) c)", goal_cases wf step)
  case (step p stack qend c x i c1 st q y stack' z qend' c')
  then have n: "fk_next (pa_input p) c = (i, c1)" by simp
  then show ?case using step fk_stop_at_left [of p stack qend c1 i q stack' qend' c' c]
      fk_next_left [OF n] fk_next_ge [OF n] by auto
qed simp

declare fk_loop.simps [simp del]

text \<open>Filling the cache: false without memory, when the cache stays invalid.\<close>

definition fk_scan :: "oyl_parser \<Rightarrow> nat \<Rightarrow> bool \<times> oyl_parser" where
  "fk_scan p offset =
    (let input = pa_input p; p = p\<lparr>pa_fk_valid := False, pa_fk_keys := Some []\<rparr>
     in case fk_loop p [] SIZE_MAX (fk_seek input offset) of
          (FK_NO_MEMORY, p) \<Rightarrow> (False, p)
        | (FK_AMBIGUOUS, p) \<Rightarrow>
            (True, p\<lparr>pa_fk_keys := None, pa_fk_lo := offset, pa_fk_hi := length input, pa_fk_valid := True\<rparr>)
        | (FK_UNTERMINATED, p) \<Rightarrow>
            (True, p\<lparr>pa_fk_lo := offset, pa_fk_hi := length input, pa_fk_keys := Some (sort (fk_keys p)), pa_fk_valid := True\<rparr>)
        | (FK_DONE i, p) \<Rightarrow>
            (True, p\<lparr>pa_fk_lo := offset, pa_fk_hi := i, pa_fk_keys := Some (sort (fk_keys p)), pa_fk_valid := True\<rparr>))"

text \<open>The binary search for the first key that is not below an offset.\<close>

function fk_search :: "nat list \<Rightarrow> nat \<Rightarrow> nat \<Rightarrow> nat \<Rightarrow> nat" where
  "fk_search keys offset lo hi =
    (if lo < hi then
       let mid = lo + (hi - lo) div 2
       in if keys ! mid < offset then fk_search keys offset (mid + 1) hi else fk_search keys offset lo mid
     else lo)"
  by pat_completeness auto
termination by (relation "measure (\<lambda>(keys, offset, lo, hi). hi - lo)") auto

declare fk_search.simps [simp del]

definition flow_is_block_key :: "oyl_parser \<Rightarrow> nat \<Rightarrow> bool \<times> oyl_parser" where
  "flow_is_block_key p offset =
    (let (ok, p) = (if \<not> pa_fk_valid p \<or> offset < pa_fk_lo p \<or> offset > pa_fk_hi p then fk_scan p offset else (True, p))
     in if \<not> ok then (True, p)
        else case pa_fk_keys p of
               None \<Rightarrow> (True, p)
             | Some keys \<Rightarrow>
                 let lo = fk_search keys offset 0 (length keys)
                 in (lo < length keys \<and> keys ! lo = offset, p))"


section \<open>The cursor visits the stop bytes\<close>

text \<open>Clearing the lowest bit, on natural numbers and on words.\<close>

lemma clear_lowest_nat:
  "(n::nat) > 0 \<Longrightarrow> \<exists>j. bit n j \<and> (\<forall>i < j. \<not> bit n i) \<and> (\<forall>k. bit (n AND (n - 1)) k \<longleftrightarrow> bit n k \<and> k \<noteq> j)"
proof (induction n rule: less_induct)
  case (less n)
  show ?case
  proof (cases "odd n")
    case True
    then obtain m where m: "n = 2 * m + 1" by (rule oddE)
    have "bit (n AND (n - 1)) k \<longleftrightarrow> bit n k \<and> k \<noteq> 0" for k
    proof -
      have "n - 1 = 2 * m" using m by simp
      then show ?thesis unfolding bit_and_iff by (cases k) (simp_all add: m bit_0 bit_Suc)
    qed
    moreover have "bit n 0" using True by (simp add: bit_0)
    ultimately show ?thesis by blast
  next
    case False
    then obtain m where m: "n = 2 * m" by (auto elim: evenE)
    then have "0 < m" "m < n" using less.prems by auto
    with less.IH [of m] obtain j where j: "bit m j" "\<forall>i < j. \<not> bit m i"
        "\<forall>k. bit (m AND (m - 1)) k \<longleftrightarrow> bit m k \<and> k \<noteq> j" by blast
    have pred: "n - 1 = 2 * (m - 1) + 1" using m \<open>0 < m\<close> by simp
    have "bit (n AND (n - 1)) k \<longleftrightarrow> bit n k \<and> k \<noteq> Suc j" for k
    proof (cases k)
      case (Suc i)
      have "bit (n AND (n - 1)) k \<longleftrightarrow> bit (m AND (m - 1)) i"
        unfolding Suc bit_and_iff pred by (simp add: m bit_Suc)
      then show ?thesis using j(3) Suc m by (simp add: bit_Suc)
    qed (unfold bit_and_iff, simp add: m bit_0)
    moreover have "bit n (Suc j)" using j(1) m by (simp add: bit_Suc)
    moreover have "\<not> bit n i" if "i < Suc j" for i
      using that j(2) m by (cases i) (auto simp: bit_0 bit_Suc)
    ultimately show ?thesis by blast
  qed
qed

lemma bit_unat: "bit (w :: 64 word) k \<longleftrightarrow> bit (unat w) k"
  by (simp add: bit_unsigned_iff)

lemma ctz64_spec:
  assumes "w \<noteq> 0"
  shows "bit w (ctz64 w)" and "i < ctz64 w \<Longrightarrow> \<not> bit w i" and "ctz64 w < 64"
    and "bit (w AND (w - 1)) k \<longleftrightarrow> bit w k \<and> k \<noteq> ctz64 w"
proof -
  have "0 < unat w" using assms by (simp add: unat_gt_0)
  then obtain j where j: "bit (unat w) j" "\<forall>i < j. \<not> bit (unat w) i"
      "\<forall>k. bit (unat w AND (unat w - 1)) k \<longleftrightarrow> bit (unat w) k \<and> k \<noteq> j" using clear_lowest_nat by blast
  have wj: "bit w j" "\<forall>i < j. \<not> bit w i" using j(1,2) by (simp_all add: bit_unat)
  have j64: "j < 64" using bit_imp_le_length [OF wj(1)] by simp
  have "find (bit w) [0..<64] = Some j"
    using wj j64 by (auto simp: find_Some_iff intro!: exI [of _ j])
  then have ctz: "ctz64 w = j" by (simp add: ctz64_def)
  then show "bit w (ctz64 w)" and "i < ctz64 w \<Longrightarrow> \<not> bit w i" and "ctz64 w < 64" using wj j64 by auto
  have "unat (w AND (w - 1)) = unat w AND (unat w - 1)"
    using assms by (simp add: unsigned_and_eq unat_minus_one)
  then show "bit (w AND (w - 1)) k \<longleftrightarrow> bit w k \<and> k \<noteq> ctz64 w"
    using j(3) ctz by (simp add: bit_unat)
qed

lemma bit_fk_mask: "base \<le> length input \<Longrightarrow>
  bit (fk_mask_at input base) k \<longleftrightarrow> k < 64 \<and> base + k < length input \<and> flow_stop (input ! (base + k))"
proof -
  assume base: "base \<le> length input"
  have fold: "bit (fold (\<lambda>k m. if flow_stop (input ! (base + k)) then m OR push_bit k 1 else m) ks (m :: 64 word)) n \<longleftrightarrow>
      bit m n \<or> n \<in> set ks \<and> n < 64 \<and> flow_stop (input ! (base + n))" for ks m n
  proof (induction ks arbitrary: m)
    case (Cons k ks)
    have "bit (push_bit k 1 :: 64 word) n \<longleftrightarrow> n = k \<and> n < 64"
      unfolding bit_push_bit_iff by (auto simp: bit_1_iff)
    then have "bit (if flow_stop (input ! (base + k)) then m OR push_bit k 1 else m) n \<longleftrightarrow>
        bit m n \<or> n = k \<and> n < 64 \<and> flow_stop (input ! (base + k))" by (auto simp: bit_or_iff)
    then show ?case unfolding fold_simps Cons.IH by (simp only:) auto
  qed simp
  show ?thesis
  proof (cases "length input - base \<ge> 64")
    case True
    have "sub_buf input base 64 ! k = input ! (base + k)" if "k < 64" using that True by (simp add: sub_buf_def)
    moreover have "length (sub_buf input base 64) = 64" using True by simp
    ultimately show ?thesis using True by (auto simp: fk_mask_at_def bit_flow_mask64)
  next
    case False
    then show ?thesis by (auto simp: fk_mask_at_def fold)
  qed
qed

text \<open>The cursor stands at \<open>pos\<close>: it has the stops from there on.\<close>

definition cursor_at :: "byte list \<Rightarrow> fk_cursor \<Rightarrow> nat \<Rightarrow> bool" where
  "cursor_at input c pos \<longleftrightarrow> fk_base c \<le> pos \<and> pos \<le> fk_base c + 64 \<and> pos \<le> length input \<and>
     (\<forall>k. bit (fk_bits c) k \<longleftrightarrow> k < 64 \<and> pos \<le> fk_base c + k \<and> fk_base c + k < length input \<and>
          flow_stop (input ! (fk_base c + k)))"

definition next_stop :: "byte list \<Rightarrow> nat \<Rightarrow> nat" where
  "next_stop input pos = pos + scan_until flow_stop (drop pos input)"

lemma next_stop_eqI:
  assumes "pos \<le> i" and "i \<le> length input" and "\<And>j. pos \<le> j \<Longrightarrow> j < i \<Longrightarrow> \<not> flow_stop (input ! j)"
    and "i < length input \<Longrightarrow> flow_stop (input ! i)"
  shows "next_stop input pos = i"
proof -
  have "scan_until flow_stop (drop pos input) = i - pos"
    using assms by (intro scan_until_eqI) auto
  then show ?thesis using assms(1) by (simp add: next_stop_def)
qed

lemma cursor_seek: "pos \<le> length input \<Longrightarrow> cursor_at input (fk_seek input pos) pos"
  by (auto simp: cursor_at_def fk_seek_def bit_fk_mask)

lemma cursor_block:
  assumes "cursor_at input c pos" and "fk_bits c = 0" and "pos \<le> j" and "j < fk_base c + 64" and "j < length input"
  shows "\<not> flow_stop (input ! j)"
proof -
  have at: "bit (fk_bits c) (j - fk_base c) \<longleftrightarrow> j - fk_base c < 64 \<and> pos \<le> fk_base c + (j - fk_base c) \<and>
      fk_base c + (j - fk_base c) < length input \<and> flow_stop (input ! (fk_base c + (j - fk_base c)))"
    and "fk_base c \<le> pos" using assms(1) unfolding cursor_at_def by blast+
  then have "fk_base c + (j - fk_base c) = j" "j - fk_base c < 64" using assms(3,4) by auto
  then show ?thesis using at assms(2,3,5) by simp
qed

lemma fk_next_spec:
  "cursor_at input c pos \<Longrightarrow> fk_next input c = (i, c') \<Longrightarrow>
    i = next_stop input pos \<and> (i < length input \<longrightarrow> cursor_at input c' (i + 1))"
proof (induction input c arbitrary: pos rule: fk_next.induct)
  case (1 input c)
  note at = 1(2)[unfolded cursor_at_def]
  consider "fk_bits c = 0" "length input - fk_base c \<le> 64" | "fk_bits c = 0" "length input - fk_base c > 64"
    | "fk_bits c \<noteq> 0" by linarith
  then show ?case
  proof cases
    case none: 1
    have "next_stop input pos = length input"
      using cursor_block [OF 1(2) none(1)] none(2) at by (intro next_stop_eqI) auto
    then show ?thesis using none 1(3) by (auto simp: fk_next.simps [of input c])
  next
    case block: 2
    let ?c = "\<lparr>fk_base = fk_base c + 64, fk_bits = fk_mask_at input (fk_base c + 64)\<rparr>"
    have "cursor_at input ?c (fk_base c + 64)" using block(2) by (auto simp: cursor_at_def bit_fk_mask)
    then have IH: "i = next_stop input (fk_base c + 64) \<and> (i < length input \<longrightarrow> cursor_at input c' (i + 1))"
    proof (intro 1(1) [OF block(1)])
      show "\<not> length input - fk_base c \<le> 64" using block(2) by simp
      show "fk_next input ?c = (i, c')" using 1(3) block by (simp add: fk_next.simps [of input c])
    qed
    have skip: "scan_until flow_stop (drop pos input) = (fk_base c + 64 - pos) + scan_until flow_stop (drop (fk_base c + 64) input)"
    proof -
      have "drop pos input = sub_buf input pos (fk_base c + 64 - pos) @ drop (fk_base c + 64) input"
        using append_take_drop_id [of "fk_base c + 64 - pos" "drop pos input"] at by (simp add: sub_buf_def)
      moreover have "\<not> flow_stop b" if "b \<in> set (sub_buf input pos (fk_base c + 64 - pos))" for b
        using that cursor_block [OF 1(2) block(1)] at block(2) by (auto simp: sub_buf_def in_set_conv_nth)
      ultimately show ?thesis using scan_until_append [of "sub_buf input pos (fk_base c + 64 - pos)" flow_stop] at block(2)
        by (simp add: min_def)
    qed
    have eq: "next_stop input pos = next_stop input (fk_base c + 64)" using skip at by (simp add: next_stop_def)
    show ?thesis unfolding eq by (rule IH)
  next
    case found: 3
    let ?j = "ctz64 (fk_bits c)"
    have i: "i = fk_base c + ?j" "c' = c\<lparr>fk_bits := fk_bits c AND (fk_bits c - 1)\<rparr>"
      using 1(3) unfolding fk_next.simps [of input c] if_not_P [OF found] by simp_all
    have at_bits: "bit (fk_bits c) k \<longleftrightarrow> k < 64 \<and> pos \<le> fk_base c + k \<and> fk_base c + k < length input \<and>
        flow_stop (input ! (fk_base c + k))" for k using at by blast
    have j: "pos \<le> i" "i < length input" "flow_stop (input ! i)" "?j < 64"
      using ctz64_spec(1) [OF found] i(1) unfolding at_bits by simp_all
    have "\<not> flow_stop (input ! k)" if k: "pos \<le> k" "k < i" for k
    proof -
      have "fk_base c \<le> k" using at k(1) by simp
      then have m: "fk_base c + (k - fk_base c) = k" "k - fk_base c < ?j" using k(2) i(1) by simp_all
      have "\<not> bit (fk_bits c) (k - fk_base c)" using ctz64_spec(2) [OF found m(2)] .
      then show ?thesis unfolding at_bits m(1) using k j(2,4) m(2) by simp
    qed
    then have "next_stop input pos = i" using j by (intro next_stop_eqI) auto
    moreover have "cursor_at input c' (i + 1)"
      unfolding cursor_at_def
    proof (intro conjI allI, goal_cases base block len bits)
      case (bits k)
      have "bit (fk_bits c') k \<longleftrightarrow> bit (fk_bits c) k \<and> k \<noteq> ?j" using ctz64_spec(4) [OF found] i(2) by simp
      also have "\<dots> \<longleftrightarrow> bit (fk_bits c) k \<and> ?j < k"
        using ctz64_spec(2) [OF found, of k] by (cases k ?j rule: linorder_cases) auto
      also have "\<dots> \<longleftrightarrow> k < 64 \<and> i + 1 \<le> fk_base c' + k \<and> fk_base c' + k < length input \<and>
          flow_stop (input ! (fk_base c' + k))"
        using j(1) i(1) by (auto simp: at_bits i(2))
      finally show ?case .
    qed (use at i j in simp_all)
    ultimately show ?thesis by simp
  qed
qed

text \<open>The stop bytes from a position on: the next one, and those behind it.\<close>

lemma next_stop_list:
  assumes "pos \<le> length input" and "next_stop input pos < length input"
  shows "filter (\<lambda>i. flow_stop (input ! i)) [pos..<length input] =
    next_stop input pos # filter (\<lambda>i. flow_stop (input ! i)) [next_stop input pos + 1..<length input]"
proof -
  let ?n = "scan_until flow_stop (drop pos input)" and ?i = "next_stop input pos"
  have i: "?i = pos + ?n" by (simp add: next_stop_def)
  have "?n < length (drop pos input)" using assms i by simp
  then have "flow_stop (drop pos input ! ?n)" by (rule scan_until_at)
  then have at: "flow_stop (input ! ?i)" using assms i by simp
  have none: "\<not> flow_stop (input ! j)" if j: "j \<in> set [pos..<?i]" for j
  proof -
    have "j - pos < ?n" using j i by auto
    then have "\<not> flow_stop (drop pos input ! (j - pos))" by (rule scan_until_before)
    then show ?thesis using j assms(1) by simp
  qed
  have "[pos..<length input] = [pos..<?i] @ ?i # [?i + 1..<length input]"
    using assms i upt_add_eq_append [of pos ?i "length input - ?i"] upt_conv_Cons [of ?i "length input"] by simp
  then show ?thesis using at none by (simp add: filter_False)
qed

definition fk_visit :: "byte list \<Rightarrow> nat list \<times> fk_cursor \<Rightarrow> nat list \<times> fk_cursor" where
  "fk_visit input s = (let (i, c) = fk_next input (snd s) in (fst s @ [i], c))"

lemma fk_visits:
  assumes "cursor_at input c pos" and "n \<le> length (filter (\<lambda>i. flow_stop (input ! i)) [pos..<length input])"
  shows "fst ((fk_visit input ^^ n) (xs, c)) = xs @ take n (filter (\<lambda>i. flow_stop (input ! i)) [pos..<length input])"
  using assms
proof (induction n arbitrary: c pos xs)
  case (Suc n)
  obtain i c' where n: "fk_next input c = (i, c')" by fastforce
  from fk_next_spec [OF Suc.prems(1) n] have i: "i = next_stop input pos" "i < length input \<Longrightarrow> cursor_at input c' (i + 1)"
    by auto
  have pos: "pos \<le> length input" using Suc.prems(1) by (simp add: cursor_at_def)
  have "i < length input"
  proof (rule ccontr)
    assume "\<not> ?thesis"
    then have "i = length input" using i(1) pos scan_until_le [of flow_stop "drop pos input"] by (simp add: next_stop_def)
    then have "scan_until flow_stop (drop pos input) = length input - pos" using i(1) by (simp add: next_stop_def)
    then have "\<not> flow_stop (input ! j)" if "pos \<le> j" "j < length input" for j
      using scan_until_before [of "j - pos" flow_stop "drop pos input"] that by simp
    then have "filter (\<lambda>i. flow_stop (input ! i)) [pos..<length input] = []" by (auto simp: filter_empty_conv)
    then show False using Suc.prems(2) by simp
  qed
  with i have at: "cursor_at input c' (i + 1)" and
    split: "filter (\<lambda>i. flow_stop (input ! i)) [pos..<length input] = i # filter (\<lambda>i. flow_stop (input ! i)) [i + 1..<length input]"
    using next_stop_list [OF pos] by simp_all
  have "fst ((fk_visit input ^^ n) (xs @ [i], c')) = (xs @ [i]) @ take n (filter (\<lambda>i. flow_stop (input ! i)) [i + 1..<length input])"
    by (rule Suc.IH [OF at]) (use Suc.prems(2) in \<open>simp add: split\<close>)
  moreover have "(fk_visit input ^^ Suc n) (xs, c) = (fk_visit input ^^ n) (xs @ [i], c')"
    unfolding funpow_Suc_right by (simp add: fk_visit_def n)
  ultimately show ?case by (simp add: split)
qed simp

text \<open>C38: the lookahead's cursor, which takes the input in blocks of 64 bytes as a bit mask, returns the
  offsets of the stop bytes of the input, each once and in order, from wherever it was positioned.\<close>

theorem cursor_visits_stops:
  assumes "pos \<le> length input" and "n = length (filter (\<lambda>i. flow_stop (input ! i)) [pos..<length input])"
  shows "fst ((fk_visit input ^^ n) ([], fk_seek input pos)) = filter (\<lambda>i. flow_stop (input ! i)) [pos..<length input]"
  using fk_visits [OF cursor_seek [OF assms(1)], of n "[]"] assms(2) by simp

theorem cursor_visits_stops_witness:
  "fst ((fk_visit [LBRACK, 97, COMMA, 98, RBRACK, COLON, LF] ^^ 2) ([], fk_seek [LBRACK, 97, COMMA, 98, RBRACK, COLON, LF] 1)) = [4, 6]"
proof -
  let ?input = "[LBRACK, 97, COMMA, 98, RBRACK, COLON, LF]"
  have stops: "filter (\<lambda>i. flow_stop (?input ! i)) [1..<length ?input] = [4, 6]" by code_simp
  have "(1 :: nat) \<le> length ?input" "2 = length (filter (\<lambda>i. flow_stop (?input ! i)) [1..<length ?input])"
    unfolding stops by simp_all
  from cursor_visits_stops [OF this] show ?thesis unfolding stops .
qed


section \<open>The cache\<close>

text \<open>The binary search on a sorted list.\<close>

lemma fk_search_spec:
  assumes "sorted keys" and "lo \<le> hi" and "hi \<le> length keys"
    and "\<And>i. i < lo \<Longrightarrow> keys ! i < offset" and "\<And>i. hi \<le> i \<Longrightarrow> i < length keys \<Longrightarrow> offset \<le> keys ! i"
  shows "fk_search keys offset lo hi \<le> length keys \<and> (\<forall>i < fk_search keys offset lo hi. keys ! i < offset) \<and>
    (\<forall>i. fk_search keys offset lo hi \<le> i \<and> i < length keys \<longrightarrow> offset \<le> keys ! i)"
  using assms
proof (induction keys offset lo hi rule: fk_search.induct)
  case (1 keys offset lo hi)
  let ?mid = "lo + (hi - lo) div 2"
  let ?spec = "\<lambda>n. n \<le> length keys \<and> (\<forall>i < n. keys ! i < offset) \<and> (\<forall>i. n \<le> i \<and> i < length keys \<longrightarrow> offset \<le> keys ! i)"
  show ?case
  proof (cases "lo < hi")
    case True
    then have mid: "lo \<le> ?mid" "?mid < hi" by auto
    show ?thesis
    proof (cases "keys ! ?mid < offset")
      case lt: True
      have "keys ! i < offset" if "i < ?mid + 1" for i
        using sorted_nth_mono [OF 1(3), of i ?mid] that mid(2) 1(5) lt by simp
      then have "?spec (fk_search keys offset (?mid + 1) hi)"
        by (intro 1(1) [OF True refl lt 1(3) _ 1(5) _ 1(7)]) (use mid in auto)
      moreover have "fk_search keys offset lo hi = fk_search keys offset (?mid + 1) hi"
        by (subst fk_search.simps) (simp add: True lt Let_def)
      ultimately show ?thesis by metis
    next
      case ge: False
      have "offset \<le> keys ! i" if "?mid \<le> i" "i < length keys" for i
        using sorted_nth_mono [OF 1(3), of ?mid i] that ge by simp
      then have "?spec (fk_search keys offset lo ?mid)"
        by (intro 1(2) [OF True refl ge 1(3) mid(1) _ 1(6)]) (use mid 1(5) in auto)
      moreover have "fk_search keys offset lo hi = fk_search keys offset lo ?mid"
        by (subst fk_search.simps) (simp add: True ge Let_def)
      ultimately show ?thesis by metis
    qed
  next
    case False
    then have "fk_search keys offset lo hi = lo" by (subst fk_search.simps) simp
    then show ?thesis using False 1(4-7) by auto
  qed
qed

lemma fk_search_member:
  assumes "sorted keys"
  shows "fk_search keys offset 0 (length keys) < length keys \<and> keys ! fk_search keys offset 0 (length keys) = offset
    \<longleftrightarrow> offset \<in> set keys" (is "?n < _ \<and> _ \<longleftrightarrow> _")
proof -
  have s: "\<forall>i < ?n. keys ! i < offset" "\<forall>i. ?n \<le> i \<and> i < length keys \<longrightarrow> offset \<le> keys ! i"
    using fk_search_spec [OF assms, of 0 "length keys" offset] by simp_all
  show ?thesis
  proof
    assume "offset \<in> set keys"
    then obtain i where i: "i < length keys" "keys ! i = offset" by (auto simp: in_set_conv_nth)
    then have "?n \<le> i" using s(1) by (meson leI less_irrefl)
    then have "keys ! ?n \<le> offset" using sorted_nth_mono [OF assms, of ?n i] i by simp
    then show "?n < length keys \<and> keys ! ?n = offset" using s(2) i \<open>?n \<le> i\<close> by (simp add: order_antisym)
  next
    assume "?n < length keys \<and> keys ! ?n = offset"
    then show "offset \<in> set keys" using nth_mem [of ?n keys] by simp
  qed
qed

text \<open>What the answer should be, where the scan is on its own ground: a collection on one line without quotes,
  comments and verbatim tags. \<open>flow_close\<close> counts brackets up to the one that closes the collection.\<close>

fun flow_close :: "byte list \<Rightarrow> nat \<Rightarrow> nat option" where
  "flow_close [] d = None"
| "flow_close (c # cs) d =
    (if c = LBRACK \<or> c = LBRACE then map_option Suc (flow_close cs (d + 1))
     else if c = RBRACK \<or> c = RBRACE then (if d = 1 then Some 0 else map_option Suc (flow_close cs (d - 1)))
     else if flow_stop c then None
     else map_option Suc (flow_close cs d))"

definition flow_open :: "byte list \<Rightarrow> nat \<Rightarrow> bool" where
  "flow_open input k \<longleftrightarrow> input ! k = LBRACK \<or> input ! k = LBRACE"

definition key_at :: "byte list \<Rightarrow> nat \<Rightarrow> bool" where
  "key_at input k = (case flow_close (drop k input) 0 of None \<Rightarrow> False | Some n \<Rightarrow> fk_colon_follows input (k + n))"

lemma flow_close_at: "k < length input \<Longrightarrow> flow_close (drop k input) d =
    (if flow_open input k then map_option Suc (flow_close (drop (k + 1) input) (d + 1))
     else if input ! k = RBRACK \<or> input ! k = RBRACE then (if d = 1 then Some 0 else map_option Suc (flow_close (drop (k + 1) input) (d - 1)))
     else if flow_stop (input ! k) then None
     else map_option Suc (flow_close (drop (k + 1) input) d))"
  by (simp add: flow_open_def flip: Cons_nth_drop_Suc)

lemma flow_close_skip:
  assumes "pos \<le> i" and "i \<le> length input" and "\<And>j. pos \<le> j \<Longrightarrow> j < i \<Longrightarrow> \<not> flow_stop (input ! j)"
  shows "flow_close (drop pos input) d = map_option (\<lambda>n. i - pos + n) (flow_close (drop i input) d)"
  using assms
proof (induction "i - pos" arbitrary: pos)
  case (Suc n)
  then have "pos < i" "n = i - (pos + 1)" by simp_all
  have plain: "\<not> flow_stop (input ! pos)" using Suc.prems(3) \<open>pos < i\<close> by simp
  then have "\<not> flow_open input pos" "input ! pos \<noteq> RBRACK" "input ! pos \<noteq> RBRACE" by (auto simp: flow_open_def flow_stop_def)
  then have "flow_close (drop pos input) d = map_option Suc (flow_close (drop (pos + 1) input) d)"
    using plain \<open>pos < i\<close> Suc.prems(2) by (simp add: flow_close_at)
  also have "flow_close (drop (pos + 1) input) d = map_option (\<lambda>n. i - (pos + 1) + n) (flow_close (drop i input) d)"
    by (rule Suc.hyps(1)) (use \<open>n = _\<close> \<open>pos < i\<close> Suc.prems in auto)
  also have "map_option Suc (map_option (\<lambda>n. i - (pos + 1) + n) x) = map_option (\<lambda>n. i - pos + n) x" for x
    by (cases x) (use \<open>pos < i\<close> in simp_all)
  finally show ?case .
next
  case 0
  then show ?case by (cases "flow_close (drop i input) d") simp_all
qed

text \<open>The stack of the scan: entry \<open>k\<close> is closed where \<open>k + 1\<close> brackets are closed.\<close>

definition stack_at :: "byte list \<Rightarrow> nat \<Rightarrow> nat list \<Rightarrow> bool" where
  "stack_at input pos stack \<longleftrightarrow> (\<forall>k < length stack. stack ! k < pos \<and>
     flow_close (drop (stack ! k) input) 0 = map_option (\<lambda>n. pos - stack ! k + n) (flow_close (drop pos input) (k + 1)))"

lemma stack_at_skip:
  assumes "stack_at input pos stack" and "pos \<le> i" and "i \<le> length input"
    and "\<And>j. pos \<le> j \<Longrightarrow> j < i \<Longrightarrow> \<not> flow_stop (input ! j)"
  shows "stack_at input i stack"
  unfolding stack_at_def
proof (intro allI impI conjI)
  fix k
  assume k: "k < length stack"
  then have s: "stack ! k < pos"
    "flow_close (drop (stack ! k) input) 0 = map_option (\<lambda>n. pos - stack ! k + n) (flow_close (drop pos input) (k + 1))"
    using assms(1) by (simp_all add: stack_at_def)
  then show "stack ! k < i" using assms(2) by simp
  show "flow_close (drop (stack ! k) input) 0 = map_option (\<lambda>n. i - stack ! k + n) (flow_close (drop i input) (k + 1))"
    using s assms(2) flow_close_skip [OF assms(2-4), of "k + 1"] by (simp add: option.map_comp comp_def)
qed

lemma stack_at_open:
  assumes "stack_at input i stack" and "i < length input" and "flow_open input i"
  shows "stack_at input (i + 1) (i # stack)"
  unfolding stack_at_def
proof (intro allI impI)
  fix k
  assume k: "k < length (i # stack)"
  show "(i # stack) ! k < i + 1 \<and> flow_close (drop ((i # stack) ! k) input) 0 =
      map_option (\<lambda>n. i + 1 - (i # stack) ! k + n) (flow_close (drop (i + 1) input) (k + 1))"
  proof (cases k)
    case (Suc m)
    then have "stack ! m < i"
      "flow_close (drop (stack ! m) input) 0 = map_option (\<lambda>n. i - stack ! m + n) (flow_close (drop i input) (m + 1))"
      using assms(1) k by (simp_all add: stack_at_def)
    then show ?thesis using Suc assms(2,3) by (simp add: flow_close_at option.map_comp comp_def Suc_diff_le)
  qed (use assms(2,3) in \<open>simp add: flow_close_at\<close>)
qed

lemma stack_at_close:
  assumes "stack_at input i (s # stack)" and "i < length input" and "input ! i = RBRACK \<or> input ! i = RBRACE"
  shows "stack_at input (i + 1) stack" and "key_at input s \<longleftrightarrow> fk_colon_follows input i" and "s < i"
proof -
  have no: "\<not> flow_open input i" using assms(3) by (auto simp: flow_open_def)
  have "s < i \<and> flow_close (drop s input) 0 = map_option (\<lambda>n. i - s + n) (flow_close (drop i input) 1)"
    using assms(1) by (auto simp: stack_at_def dest: spec [of _ 0])
  then show "s < i" and "key_at input s \<longleftrightarrow> fk_colon_follows input i"
    using no assms(2,3) by (simp_all add: key_at_def flow_close_at)
  show "stack_at input (i + 1) stack"
    unfolding stack_at_def
  proof (intro allI impI)
    fix k
    assume k: "k < length stack"
    then have "stack ! k < i \<and> flow_close (drop (stack ! k) input) 0 =
        map_option (\<lambda>n. i - stack ! k + n) (flow_close (drop i input) (k + 2))"
      using assms(1) by (auto simp: stack_at_def dest: spec [of _ "Suc k"])
    then show "stack ! k < i + 1 \<and> flow_close (drop (stack ! k) input) 0 =
        map_option (\<lambda>n. i + 1 - stack ! k + n) (flow_close (drop (i + 1) input) (k + 1))"
      using no assms(2,3) by (simp add: flow_close_at option.map_comp comp_def Suc_diff_le)
  qed
qed

text \<open>What the scan collects: the keys among the open collections and those it comes to.\<close>

definition flow_keys :: "byte list \<Rightarrow> nat list \<Rightarrow> nat \<Rightarrow> nat \<Rightarrow> nat set" where
  "flow_keys input stack pos last_pos =
    {k. key_at input k \<and> (k \<in> set stack \<or> pos \<le> k \<and> k < last_pos \<and> flow_open input k)}"

lemma fk_open_ok:
  "pa_mem p = [] \<Longrightarrow> \<exists>q. fst (fk_open p stack i) = Some (q, i # stack) \<and> pa_mem q = [] \<and> pa_input q = pa_input p \<and> pa_fk_keys q = pa_fk_keys p"
  by (simp add: fk_open_def Let_def)

lemma fk_add_key_ok:
  "pa_mem p = [] \<Longrightarrow> \<exists>q. fk_add_key p k = (True, q) \<and> pa_mem q = [] \<and> pa_input q = pa_input p \<and> pa_fk_keys q = Some (fk_keys p @ [k])"
  by (simp add: fk_add_key_def Let_def fk_keys_def)

lemma flow_keys_skip:
  assumes "pos \<le> i" and "\<And>j. pos \<le> j \<Longrightarrow> j < i \<Longrightarrow> \<not> flow_stop (input ! j)"
  shows "flow_keys input stack pos e = flow_keys input stack i e"
proof -
  have "\<not> flow_open input k" if "pos \<le> k" "k < i" for k
    using assms(2) [OF that] by (auto simp: flow_open_def flow_stop_def)
  then show ?thesis using assms(1) by (auto simp: flow_keys_def) (meson leI)
qed

lemma flow_keys_open: "i < e \<Longrightarrow> flow_open input i \<Longrightarrow> flow_keys input (i # stack) (i + 1) e = flow_keys input stack i e"
  by (auto simp: flow_keys_def Suc_le_eq order_le_less)

lemma flow_keys_close:
  "i \<le> e \<Longrightarrow> \<not> flow_open input i \<Longrightarrow>
    flow_keys input (s # stack) i e = (if key_at input s then {s} else {}) \<union> flow_keys input stack (i + 1) e"
  by (auto simp: flow_keys_def Suc_le_eq order_le_less)

lemma fk_stop_at_open:
  assumes "flow_open (pa_input p) i" and "pa_mem p = []"
  shows "\<exists>q. fk_stop_at p stack qend c i = Inr (q, i # stack, qend, c) \<and> pa_mem q = [] \<and> pa_input q = pa_input p \<and>
    fk_keys q = fk_keys p"
proof -
  obtain q r where "fk_open p stack i = (Some (q, i # stack), r)" "pa_mem q = []" "pa_input q = pa_input p"
      "pa_fk_keys q = pa_fk_keys p" using fk_open_ok [OF assms(2), of stack i] by (metis prod.collapse)
  moreover have "pa_input p ! i = LBRACK \<or> pa_input p ! i = LBRACE" using assms(1) by (simp add: flow_open_def)
  ultimately show ?thesis by (auto simp: fk_stop_at_def fk_keys_def)
qed

lemma fk_stop_at_close:
  assumes "pa_input p ! i = RBRACK \<or> pa_input p ! i = RBRACE" and "pa_mem p = []"
  shows "\<exists>q. fk_stop_at p (s # stack) qend c i = (if stack = [] then Inl (FK_DONE i, q) else Inr (q, stack, qend, c)) \<and>
    pa_mem q = [] \<and> pa_input q = pa_input p \<and>
    set (fk_keys q) = set (fk_keys p) \<union> (if fk_colon_follows (pa_input p) i then {s} else {})"
proof (cases "fk_colon_follows (pa_input p) i")
  case True
  obtain q where "fk_add_key p s = (True, q)" "pa_mem q = []" "pa_input q = pa_input p" "pa_fk_keys q = Some (fk_keys p @ [s])"
    using fk_add_key_ok [OF assms(2)] by blast
  then show ?thesis using assms(1) True by (intro exI [of _ q]) (auto simp: fk_stop_at_def fk_keys_def)
next
  case False
  then show ?thesis using assms by (intro exI [of _ p]) (auto simp: fk_stop_at_def)
qed

lemma fk_loop_simple:
  assumes "flow_close (drop pos (pa_input p)) (length stack) = Some n" and "stack \<noteq> [] \<or> flow_open (pa_input p) pos"
    and "pos \<le> length (pa_input p)" and "cursor_at (pa_input p) c pos" and "stack_at (pa_input p) pos stack"
    and "pa_mem p = []"
  shows "\<exists>q. fk_loop p stack qend c = (FK_DONE (pos + n), q) \<and> pa_mem q = [] \<and> pa_input q = pa_input p \<and>
    set (fk_keys q) = set (fk_keys p) \<union> flow_keys (pa_input p) stack pos (pos + n)"
  using assms
proof (induction n arbitrary: p pos stack qend c rule: less_induct)
  case (less n)
  let ?input = "pa_input p"
  obtain i c1 where nxt: "fk_next ?input c = (i, c1)" by fastforce
  from fk_next_spec [OF less.prems(4) nxt] have i: "i = next_stop ?input pos" "i < length ?input \<Longrightarrow> cursor_at ?input c1 (i + 1)"
    by auto
  have le: "pos \<le> i" "i \<le> length ?input" using i(1) less.prems(3) scan_until_le [of flow_stop "drop pos ?input"]
    by (simp_all add: next_stop_def)
  have none: "\<not> flow_stop (?input ! j)" if j: "pos \<le> j" "j < i" for j
  proof -
    have "j - pos < scan_until flow_stop (drop pos ?input)" using j i(1) by (simp add: next_stop_def)
    from scan_until_before [OF this] show ?thesis using j le by simp
  qed
  obtain m where m: "flow_close (drop i ?input) (length stack) = Some m" "n = i - pos + m"
    using flow_close_skip [OF le none, of "length stack"] less.prems(1)
    by (cases "flow_close (drop i ?input) (length stack)") auto
  have len: "i < length ?input" using m(1) le(2) by (cases "i = length ?input") simp_all
  then have stop: "flow_stop (?input ! i)" using i(1) scan_until_at [of flow_stop "drop pos ?input"] less.prems(3)
    by (simp add: next_stop_def)
  have st: "stack_at ?input i stack" by (rule stack_at_skip [OF less.prems(5) le none])
  have e: "pos + n = i + m" using m(2) le(1) by simp
  have keys: "flow_keys ?input stack pos (i + m) = flow_keys ?input stack i (i + m)" by (rule flow_keys_skip [OF le(1) none])
  have loop: "fk_loop p stack qend c = (case fk_stop_at p stack qend c1 i of Inl r \<Rightarrow> r
      | Inr (p, stack, qend, c) \<Rightarrow> fk_loop p stack qend c)"
    using len by (subst fk_loop.simps) (simp add: nxt)
  show ?case
  proof (cases "flow_open ?input i")
    case op: True
    then obtain m' where m': "flow_close (drop (i + 1) ?input) (length (i # stack)) = Some m'" "m = Suc m'"
      using m(1) len by (auto simp: flow_close_at)
    obtain q where q: "fk_stop_at p stack qend c1 i = Inr (q, i # stack, qend, c1)" "pa_mem q = []" "pa_input q = ?input"
        "fk_keys q = fk_keys p" using fk_stop_at_open [OF op less.prems(6)] by blast
    have "\<exists>r. fk_loop q (i # stack) qend c1 = (FK_DONE (i + 1 + m'), r) \<and> pa_mem r = [] \<and> pa_input r = pa_input q \<and>
        set (fk_keys r) = set (fk_keys q) \<union> flow_keys (pa_input q) (i # stack) (i + 1) (i + 1 + m')"
      by (rule less.IH) (use m' m(2) len i(2) q stack_at_open [OF st len op] in simp_all)
    then show ?thesis using q m'(2) flow_keys_open [OF _ op, of "i + m" stack] unfolding loop e keys by simp
  next
    case no: False
    have cl: "?input ! i = RBRACK \<or> ?input ! i = RBRACE" using m(1) len no stop by (auto simp: flow_close_at split: if_split_asm)
    have "stack \<noteq> []" using less.prems(2) no stop none le(1)
      by (cases "i = pos") (auto simp: flow_open_def flow_stop_def)
    then obtain s st' where s: "stack = s # st'" by (cases stack) simp_all
    note c = stack_at_close [OF st [unfolded s] len cl]
    obtain q where q: "fk_stop_at p stack qend c1 i = (if st' = [] then Inl (FK_DONE i, q) else Inr (q, st', qend, c1))"
        "pa_mem q = []" "pa_input q = ?input" "set (fk_keys q) = set (fk_keys p) \<union> (if key_at ?input s then {s} else {})"
      using fk_stop_at_close [OF cl less.prems(6)] unfolding s c(2) by blast
    have kk: "flow_keys ?input stack i (i + m) = (if key_at ?input s then {s} else {}) \<union> flow_keys ?input st' (i + 1) (i + m)"
      unfolding s by (rule flow_keys_close [OF _ no]) simp
    show ?thesis
    proof (cases "st' = []")
      case True
      then have "m = 0" using m(1) len no cl s by (simp add: flow_close_at)
      then show ?thesis using q True unfolding loop e keys kk by (auto simp: flow_keys_def)
    next
      case False
      then obtain m' where m': "flow_close (drop (i + 1) ?input) (length st') = Some m'" "m = Suc m'"
        using m(1) len no cl s by (auto simp: flow_close_at)
      have "\<exists>r. fk_loop q st' qend c1 = (FK_DONE (i + 1 + m'), r) \<and> pa_mem r = [] \<and> pa_input r = pa_input q \<and>
          set (fk_keys r) = set (fk_keys q) \<union> flow_keys (pa_input q) st' (i + 1) (i + 1 + m')"
        by (rule less.IH) (use m' m(2) len i(2) q c(1) False in simp_all)
      then show ?thesis using q m'(2) False unfolding loop e keys kk by (simp add: Un_assoc)
    qed
  qed
qed


lemma flow_close_end:
  "flow_close (drop k input) d = Some n \<Longrightarrow> k + n < length input \<and> \<not> flow_open input (k + n)"
proof (induction n arbitrary: k d)
  case 0
  then show ?case by (cases "k < length input") (auto simp: flow_close_at split: if_split_asm)
next
  case (Suc n)
  then have k: "k < length input" by (cases "k < length input") simp_all
  then obtain d' where "flow_close (drop (k + 1) input) d' = Some n"
    using Suc.prems by (auto simp: flow_close_at split: if_split_asm)
  from Suc.IH [OF this] show ?case by simp
qed

lemma fk_scan_simple:
  assumes "flow_close (drop k (pa_input p)) 0 = Some n" and "flow_open (pa_input p) k" and "pa_mem p = []"
  shows "\<exists>q keys. fk_scan p k = (True, q) \<and> pa_input q = pa_input p \<and> pa_fk_valid q \<and> pa_fk_lo q = k \<and> pa_fk_hi q = k + n \<and>
    pa_fk_keys q = Some keys \<and> sorted keys \<and> set keys = flow_keys (pa_input p) [] k (k + n)"
proof -
  let ?p = "p\<lparr>pa_fk_valid := False, pa_fk_keys := Some []\<rparr>"
  have k: "k \<le> length (pa_input p)" using flow_close_end [OF assms(1)] by simp
  have "\<exists>q. fk_loop ?p [] SIZE_MAX (fk_seek (pa_input p) k) = (FK_DONE (k + n), q) \<and> pa_mem q = [] \<and>
      pa_input q = pa_input ?p \<and> set (fk_keys q) = set (fk_keys ?p) \<union> flow_keys (pa_input ?p) [] k (k + n)"
    by (rule fk_loop_simple) (use assms k cursor_seek [OF k] in \<open>simp_all add: stack_at_def\<close>)
  then obtain q where "fk_loop ?p [] SIZE_MAX (fk_seek (pa_input p) k) = (FK_DONE (k + n), q)" "pa_input q = pa_input p"
      "set (fk_keys q) = flow_keys (pa_input p) [] k (k + n)" by (auto simp: fk_keys_def)
  then show ?thesis by (simp add: fk_scan_def)
qed

lemma flow_key_exact:
  assumes "flow_close (drop k (pa_input p)) 0 = Some n" and "flow_open (pa_input p) k" and "pa_mem p = []" and "\<not> pa_fk_valid p"
  shows "\<exists>q. flow_is_block_key p k = (fk_colon_follows (pa_input p) (k + n), q) \<and>
    (\<forall>j. k \<le> j \<and> j < k + n \<and> flow_open (pa_input p) j \<longrightarrow> flow_is_block_key q j = (key_at (pa_input p) j, q))"
proof -
  obtain q keys where q: "fk_scan p k = (True, q)" "pa_input q = pa_input p" "pa_fk_valid q" "pa_fk_lo q = k" "pa_fk_hi q = k + n"
      "pa_fk_keys q = Some keys" "sorted keys" "set keys = flow_keys (pa_input p) [] k (k + n)"
    using fk_scan_simple [OF assms(1-3)] by blast
  have n: "0 < n" using flow_close_end [OF assms(1)] assms(2) by (cases n) auto
  have mem: "j \<in> set keys \<longleftrightarrow> key_at (pa_input p) j" if "k \<le> j" "j < k + n" "flow_open (pa_input p) j" for j
    using that by (auto simp: q(8) flow_keys_def)
  have "flow_is_block_key q j = (key_at (pa_input p) j, q)" if j: "k \<le> j" "j < k + n" "flow_open (pa_input p) j" for j
    using q(3-6) j(1,2) fk_search_member [OF q(7), of j] mem [OF j] by (simp add: flow_is_block_key_def Let_def)
  moreover have "flow_is_block_key p k = (key_at (pa_input p) k, q)"
    using q(1,6) assms(4) fk_search_member [OF q(7), of k] mem [of k] assms(2) n
    by (simp add: flow_is_block_key_def Let_def)
  moreover have "key_at (pa_input p) k = fk_colon_follows (pa_input p) (k + n)" using assms(1) by (simp add: key_at_def)
  ultimately show ?thesis by auto
qed

text \<open>C37: for a flow collection on one line, without quotes, comments and verbatim tags, the lookahead answers
  whether a colon follows the bracket that closes it; and after that one scan the cache gives the same exact
  answer for every collection nested inside, without changing the parser again.\<close>

theorem flow_key_cache:
  assumes "flow_close (drop k (pa_input p)) 0 = Some n" and "flow_open (pa_input p) k" and "pa_mem p = []" and "\<not> pa_fk_valid p"
  shows "\<exists>q. flow_is_block_key p k = (fk_colon_follows (pa_input p) (k + n), q) \<and>
    (\<forall>j. k \<le> j \<and> j < k + n \<and> flow_open (pa_input p) j \<longrightarrow> flow_is_block_key q j = (key_at (pa_input p) j, q))"
  using assms by (rule flow_key_exact)

theorem flow_key_cache_witness:
  "\<exists>q. flow_is_block_key (the (oyl_parser_new [] [] False (bytes_of ''- {[a]: b, [c]}: d''))) 2 = (True, q) \<and>
    flow_is_block_key q 3 = (True, q) \<and> flow_is_block_key q 11 = (False, q)"
proof -
  let ?p = "the (oyl_parser_new [] [] False (bytes_of ''- {[a]: b, [c]}: d''))"
  have p: "pa_input ?p = bytes_of ''- {[a]: b, [c]}: d''" "pa_mem ?p = []" "\<not> pa_fk_valid ?p"
    by (simp_all add: oyl_parser_new_def oyl_scanner_new_def Let_def split: prod.splits)
  have close: "flow_close (drop 2 (pa_input ?p)) 0 = Some 12" "flow_open (pa_input ?p) 2" unfolding p by code_simp+
  have "fk_colon_follows (pa_input ?p) 14" "key_at (pa_input ?p) 3" "\<not> key_at (pa_input ?p) 11"
    "flow_open (pa_input ?p) 3" "flow_open (pa_input ?p) 11" unfolding p by code_simp+
  then show ?thesis using flow_key_cache [OF close p(2,3)] by auto
qed
end
