(* ===== verification/OylTable.thy ===== *)
theory OylTable
  imports OylPrelude
begin

text \<open>
  Hash tables with open addressing and linear probing, the shape that \<open>src/src/oyl_parser.c\<close> uses
  twice: for the index of the anchor table (\<open>atbl_build\<close>, \<open>atbl_lookup\<close>) and for the slots of
  \<open>bind_anchors\<close>. The capacity is a power of two, a slot is vacant or holds an entry with a key, and
  nothing is ever taken out one by one. The locale \<open>open_addressing\<close> states what such a table is and
  proves what its clients rely on.
\<close>

section \<open>Probing\<close>

text \<open>
  The loop "while slot \<open>h\<close> does not stop, go to the next", with the capacity as fuel: after so many
  steps the loop is back where it began. \<open>None\<close> means that it goes round forever.
\<close>

fun probe :: "nat \<Rightarrow> nat \<Rightarrow> (nat \<Rightarrow> bool) \<Rightarrow> nat \<Rightarrow> nat option" where
  "probe 0 cap stop h = None"
| "probe (Suc n) cap stop h = (if stop h then Some h else probe n cap stop ((h + 1) AND (cap - 1)))"

definition find_slot :: "('k \<Rightarrow> nat) \<Rightarrow> ('s \<Rightarrow> 'k option) \<Rightarrow> 's list \<Rightarrow> 'k \<Rightarrow> nat option" where
  "find_slot hash key tab k =
    probe (length tab) (length tab) (\<lambda>i. key (tab ! i) = None \<or> key (tab ! i) = Some k)
      (hash k AND (length tab - 1))"

text \<open>What the table holds for a key.\<close>

definition slot_of :: "('k \<Rightarrow> nat) \<Rightarrow> ('s \<Rightarrow> 'k option) \<Rightarrow> 's list \<Rightarrow> 'k \<Rightarrow> 's option" where
  "slot_of hash key tab k =
    (case find_slot hash key tab k of
       None \<Rightarrow> None
     | Some i \<Rightarrow> if key (tab ! i) = Some k then Some (tab ! i) else None)"

text \<open>Putting an entry at the slot of its key.\<close>

definition put_slot :: "('k \<Rightarrow> nat) \<Rightarrow> ('s \<Rightarrow> 'k option) \<Rightarrow> 's list \<Rightarrow> 's \<Rightarrow> 's list option" where
  "put_slot hash key tab s =
    (case find_slot hash key tab (the (key s)) of None \<Rightarrow> None | Some i \<Rightarrow> Some (tab[i := s]))"

lemma and_pow2: "(n::nat) AND (2 ^ e - 1) = n mod 2 ^ e"
  by (simp add: take_bit_eq_mod [symmetric] take_bit_eq_mask mask_eq_exp_minus_1)

text \<open>The first slot that stops, \<open>d\<close> steps on, is where the loop ends.\<close>

lemma probe_first:
  assumes "cap = 2 ^ e" and "h < cap" and "d < n"
    and "stop ((h + d) mod cap)" and "\<And>i. i < d \<Longrightarrow> \<not> stop ((h + i) mod cap)"
  shows "probe n cap stop h = Some ((h + d) mod cap)"
  using assms(2-5)
proof (induction d arbitrary: n h)
  case 0
  then show ?case by (cases n) auto
next
  case (Suc d)
  then obtain m where n: "n = Suc m" and m: "d < m" by (cases n) auto
  have step: "(h + 1) AND (cap - 1) = (h + 1) mod cap" using assms(1) and_pow2 by simp
  have shift: "((h + 1) mod cap + i) mod cap = (h + Suc i) mod cap" for i
    by (simp add: mod_add_left_eq)
  have "probe m cap stop ((h + 1) mod cap) = Some (((h + 1) mod cap + d) mod cap)"
  proof (rule Suc.IH [OF _ m])
    show "(h + 1) mod cap < cap" using assms(1) by simp
    show "stop (((h + 1) mod cap + d) mod cap)" using Suc.prems(3) unfolding shift .
    show "\<not> stop (((h + 1) mod cap + i) mod cap)" if "i < d" for i
      using Suc.prems(4) [of "Suc i"] that unfolding shift by simp
  qed
  moreover have "\<not> stop h" using Suc.prems(4) [of 0] Suc.prems(1) by simp
  ultimately show ?case using n step shift by simp
qed

text \<open>If some slot stops, the loop ends at one, and passes only slots that do not.\<close>

lemma probe_stops:
  assumes "cap = 2 ^ e" and "h < cap" and "j < cap" and "stop j"
  obtains d where "d < cap" and "probe cap cap stop h = Some ((h + d) mod cap)"
    and "stop ((h + d) mod cap)" and "\<And>i. i < d \<Longrightarrow> \<not> stop ((h + i) mod cap)"
proof -
  let ?d = "(j + cap - h) mod cap"
  have "(h + ?d) mod cap = j"
    using assms(2,3) by (simp add: mod_add_right_eq)
  then have ex: "stop ((h + ?d) mod cap)" using assms(4) by simp
  let ?first = "LEAST d. stop ((h + d) mod cap)"
  have least: "stop ((h + ?first) mod cap)" by (rule LeastI [of "\<lambda>d. stop ((h + d) mod cap)", OF ex])
  have before: "\<not> stop ((h + i) mod cap)" if "i < ?first" for i using that by (rule not_less_Least)
  have "?first \<le> ?d" by (rule Least_le [of "\<lambda>d. stop ((h + d) mod cap)", OF ex])
  also have "?d < cap" using assms(2) by simp
  finally have "?first < cap" .
  show thesis
  proof (rule that [of ?first])
    show "probe cap cap stop h = Some ((h + ?first) mod cap)"
      using \<open>?first < cap\<close> least before by (intro probe_first [OF assms(1,2)])
  qed (use \<open>?first < cap\<close> least before in blast)+
qed

section \<open>Tables\<close>

text \<open>Every entry is where the probe for its key ends.\<close>

definition well_placed :: "('k \<Rightarrow> nat) \<Rightarrow> ('s \<Rightarrow> 'k option) \<Rightarrow> 's list \<Rightarrow> bool" where
  "well_placed hash key tab \<longleftrightarrow> (\<exists>e. length tab = 2 ^ e) \<and>
     (\<forall>i < length tab. \<forall>k. key (tab ! i) = Some k \<longrightarrow> find_slot hash key tab k = Some i)"

definition taken :: "('s \<Rightarrow> 'k option) \<Rightarrow> 's list \<Rightarrow> nat" where
  "taken key tab = length (filter (\<lambda>s. key s \<noteq> None) tab)"

lemma free_slot:
  assumes "taken key tab < length tab"
  obtains j where "j < length tab" and "key (tab ! j) = None"
proof -
  have "\<exists>s\<in>set tab. key s = None"
  proof (rule ccontr)
    assume "\<not> ?thesis"
    then have "filter (\<lambda>s. key s \<noteq> None) tab = tab" by (simp add: filter_id_conv)
    then show False using assms by (simp add: taken_def)
  qed
  then show thesis using that by (auto simp: in_set_conv_nth)
qed

lemma taken_update: "i < length tab \<Longrightarrow> taken key (tab[i := s]) \<le> Suc (taken key tab)"
proof (induction tab arbitrary: i)
  case (Cons t ts)
  then show ?case by (cases i) (auto simp: taken_def le_SucI)
qed (simp add: taken_def)

locale open_addressing =
  fixes hash :: "'k \<Rightarrow> nat" and key :: "'s \<Rightarrow> 'k option" and vacant :: 's
  assumes vacant_key: "key vacant = None"
begin

lemma find_slot_total:
  assumes "well_placed hash key tab" and "taken key tab < length tab"
  obtains i d where "i < length tab" and "find_slot hash key tab k = Some i"
    and "key (tab ! i) = None \<or> key (tab ! i) = Some k" and "d < length tab"
    and "i = (hash k mod length tab + d) mod length tab"
    and "\<And>i. i < d \<Longrightarrow> key (tab ! ((hash k mod length tab + i) mod length tab)) \<noteq> None
                      \<and> key (tab ! ((hash k mod length tab + i) mod length tab)) \<noteq> Some k"
proof -
  let ?stop = "\<lambda>i. key (tab ! i) = None \<or> key (tab ! i) = Some k"
  obtain e where e: "length tab = 2 ^ e" using assms(1) by (auto simp: well_placed_def)
  obtain j where j: "j < length tab" "?stop j" using free_slot [OF assms(2)] by blast
  have pos: "0 < length tab" using j(1) by linarith
  have h: "hash k AND (length tab - 1) = hash k mod length tab" using e and_pow2 by simp
  obtain d where d: "d < length tab"
      "probe (length tab) (length tab) ?stop (hash k mod length tab) = Some ((hash k mod length tab + d) mod length tab)"
      "?stop ((hash k mod length tab + d) mod length tab)"
      "\<And>i. i < d \<Longrightarrow> \<not> ?stop ((hash k mod length tab + i) mod length tab)"
    using probe_stops [where stop = ?stop, OF e mod_less_divisor [OF pos] j] by blast
  show thesis
  proof (rule that [of "(hash k mod length tab + d) mod length tab" d])
    show "find_slot hash key tab k = Some ((hash k mod length tab + d) mod length tab)"
      unfolding find_slot_def h using d(2) .
    show "(hash k mod length tab + d) mod length tab < length tab" by (rule mod_less_divisor [OF pos])
    show "d < length tab" by (rule d(1))
    show "key (tab ! ((hash k mod length tab + d) mod length tab)) = None \<or>
          key (tab ! ((hash k mod length tab + d) mod length tab)) = Some k" by (rule d(3))
    show "key (tab ! ((hash k mod length tab + i) mod length tab)) \<noteq> None
        \<and> key (tab ! ((hash k mod length tab + i) mod length tab)) \<noteq> Some k" if "i < d" for i
      using d(4) [OF that] by simp
  qed (rule refl)
qed

lemma find_slot_ends:
  assumes "well_placed hash key tab" and "taken key tab < length tab"
  shows "\<exists>i < length tab. find_slot hash key tab k = Some i \<and> (key (tab ! i) = None \<or> key (tab ! i) = Some k)"
  by (rule find_slot_total [OF assms, of k]) auto

text \<open>The slot that is found for a key is the one that holds it, if one does.\<close>

lemma slot_of_iff:
  assumes "well_placed hash key tab" and "taken key tab < length tab"
  shows "slot_of hash key tab k = Some s \<longleftrightarrow> s \<in> set tab \<and> key s = Some k"
proof -
  obtain i d where i: "i < length tab" "find_slot hash key tab k = Some i"
    using find_slot_total [OF assms, of k] by metis
  show ?thesis
  proof
    assume "slot_of hash key tab k = Some s"
    then show "s \<in> set tab \<and> key s = Some k"
      using i by (auto simp: slot_of_def split: if_split_asm)
  next
    assume s: "s \<in> set tab \<and> key s = Some k"
    then obtain j where j: "j < length tab" "tab ! j = s" by (auto simp: in_set_conv_nth)
    then have "find_slot hash key tab k = Some j" using assms(1) s by (auto simp: well_placed_def)
    then show "slot_of hash key tab k = Some s" using s j by (simp add: slot_of_def)
  qed
qed

text \<open>A new table has nothing in it.\<close>

lemma new_table:
  shows "well_placed hash key (replicate (2 ^ e) vacant)"
    and "taken key (replicate n vacant) = 0"
    and "slot_of hash key (replicate (2 ^ e) vacant) k = None"
proof -
  show ok: "well_placed hash key (replicate (2 ^ e) vacant)" by (auto simp: well_placed_def vacant_key)
  show "taken key (replicate n vacant) = 0" for n by (simp add: taken_def vacant_key)
  then have "slot_of hash key (replicate (2 ^ e) vacant) k \<noteq> Some s" for s
    using slot_of_iff [OF ok, of k s] by (auto simp: vacant_key)
  then show "slot_of hash key (replicate (2 ^ e) vacant) k = None" by (cases "slot_of hash key (replicate (2 ^ e) vacant) k") auto
qed

text \<open>The law of insertion: the table is a map, and room is all that it takes.\<close>

lemma put_slot_ok:
  assumes "well_placed hash key tab" and "Suc (taken key tab) < length tab" and "key s = Some k"
  obtains tab' where "put_slot hash key tab s = Some tab'" and "well_placed hash key tab'"
    and "length tab' = length tab" and "taken key tab' \<le> Suc (taken key tab)"
    and "slot_of hash key tab' = (slot_of hash key tab)(k \<mapsto> s)"
proof -
  let ?n = "length tab"
  have room: "taken key tab < ?n" using assms(2) by simp
  obtain i where i: "i < ?n" "find_slot hash key tab k = Some i" "key (tab ! i) = None \<or> key (tab ! i) = Some k"
    using find_slot_total [OF assms(1) room, of k] by metis
  let ?t = "tab[i := s]"
  have put: "put_slot hash key tab s = Some ?t" using i assms(3) by (simp add: put_slot_def)
  have taken: "taken key ?t \<le> Suc (taken key tab)" using taken_update [OF i(1)] .
  have same: "key (?t ! j) = (if j = i then Some k else key (tab ! j))" if "j < ?n" for j
    using that assms(3) by simp
  have unique: "j = i" if "j < ?n" "key (tab ! j) = Some k" for j
    using assms(1) that i(2) by (auto simp: well_placed_def)
  have placed: "find_slot hash key ?t k' = Some j" if j: "j < ?n" "key (?t ! j) = Some k'" for j k'
  proof -
    obtain e where e: "?n = 2 ^ e" using assms(1) by (auto simp: well_placed_def)
    have pos: "0 < ?n" using i(1) by linarith
    have old: "find_slot hash key tab k' = Some j"
    proof (cases "j = i")
      case True
      then have "k' = k" using j same [OF j(1)] by simp
      then show ?thesis using i(2) True by simp
    next
      case False
      then show ?thesis using assms(1) j same by (auto simp: well_placed_def)
    qed
    obtain j' d where j': "find_slot hash key tab k' = Some j'" and d': "d < ?n" "j' = (hash k' mod ?n + d) mod ?n"
        "\<And>i. i < d \<Longrightarrow> key (tab ! ((hash k' mod ?n + i) mod ?n)) \<noteq> None
                      \<and> key (tab ! ((hash k' mod ?n + i) mod ?n)) \<noteq> Some k'"
    proof (rule find_slot_total [OF assms(1) room, of k'], goal_cases found)
      case (found i d)
      show ?case by (rule found(1) [OF found(3,5,6,7)])
    qed
    have "j' = j" using j' old by simp
    note d = d'[unfolded this]
    have occupied: "key (?t ! x) \<noteq> None \<and> key (?t ! x) \<noteq> Some k'"
      if x: "x < ?n" "key (tab ! x) \<noteq> None \<and> key (tab ! x) \<noteq> Some k'" for x
      using x i(3) same [of x] by (cases "x = i") auto
    have h: "hash k' AND (?n - 1) = hash k' mod ?n" using e and_pow2 by simp
    have "probe ?n ?n (\<lambda>i. key (?t ! i) = None \<or> key (?t ! i) = Some k') (hash k' mod ?n) = Some j"
      unfolding d(2)
    proof (rule probe_first [OF e mod_less_divisor [OF pos] d(1)])
      have "key (?t ! j) = None \<or> key (?t ! j) = Some k'" using j(2) by simp
      then show "key (?t ! ((hash k' mod ?n + d) mod ?n)) = None \<or> key (?t ! ((hash k' mod ?n + d) mod ?n)) = Some k'"
        unfolding d(2) .
      show "\<not> (key (?t ! ((hash k' mod ?n + i) mod ?n)) = None \<or> key (?t ! ((hash k' mod ?n + i) mod ?n)) = Some k')"
        if "i < d" for i
        using occupied [OF mod_less_divisor [OF pos] d(3) [OF that]] by simp
    qed
    then show ?thesis unfolding find_slot_def length_list_update h .
  qed
  have ok: "well_placed hash key ?t"
    using assms(1) placed by (auto simp: well_placed_def)
  have room': "taken key ?t < length ?t" using taken assms(2) by simp
  have "slot_of hash key ?t k' = Some u \<longleftrightarrow> ((slot_of hash key tab)(k \<mapsto> s)) k' = Some u" for k' u
  proof -
    have "u \<in> set ?t \<and> key u = Some k' \<longleftrightarrow> (if k' = k then u = s else u \<in> set tab \<and> key u = Some k')"
    proof (cases "k' = k")
      case True
      have "u = s" if "u \<in> set ?t" "key u = Some k"
        using that same unique i(1) by (metis in_set_conv_nth length_list_update nth_list_update_eq)
      moreover have "s \<in> set ?t" using i(1) by (rule set_update_memI)
      ultimately show ?thesis using True assms(3) by auto
    next
      case False
      have "u \<in> set tab" if "u \<in> set ?t" "key u = Some k'"
        using that False assms(3) set_update_subset_insert [of tab i s] by auto
      moreover have "u \<in> set ?t" if u: "u \<in> set tab" "key u = Some k'"
      proof -
        obtain j where j: "j < ?n" "tab ! j = u" using u(1) by (auto simp: in_set_conv_nth)
        with u(2) False i(3) have "j \<noteq> i" by auto
        with j show ?thesis by (metis length_list_update nth_list_update_neq nth_mem)
      qed
      ultimately show ?thesis using False by auto
    qed
    then show ?thesis using slot_of_iff [OF ok room'] slot_of_iff [OF assms(1) room] by auto
  qed
  then have "slot_of hash key ?t = (slot_of hash key tab)(k \<mapsto> s)"
    by (intro ext) (metis not_Some_eq)
  with that put ok taken show thesis by simp
qed

end

end
