(* ===== verification/OylAnchors.thy ===== *)
theory OylAnchors
  imports OylParserState OylTable
begin

text \<open>
  Anchors over the queued events, \<open>src/src/oyl_parser.c\<close>: where a node ends (\<open>node_end\<close>), the table of
  anchors with its hash index (\<open>atbl_*\<close>), and the binding of each alias to the definition it refers to
  (\<open>bind_anchors\<close>, \<open>unbind_anchors\<close>).
\<close>

section \<open>Where a node ends\<close>

text \<open>
  The loop of \<open>node_end\<close>, over the events behind the start of a collection: how many of them up to and
  including the end that brings the depth to 0.
\<close>

fun close_at :: "oyl_event_type \<Rightarrow> oyl_event_type \<Rightarrow> nat \<Rightarrow> oyl_event list \<Rightarrow> nat option" where
  "close_at t end_t depth [] = None"
| "close_at t end_t depth (e # es) =
    (if evt_type e = t then map_option Suc (close_at t end_t (depth + 1) es)
     else if evt_type e = end_t then
       if depth = 1 then Some 1 else map_option Suc (close_at t end_t (depth - 1) es)
     else map_option Suc (close_at t end_t depth es))"

definition node_end :: "oyl_event list \<Rightarrow> nat \<Rightarrow> nat" where
  "node_end events idx =
    (let t = evt_type (events ! idx)
     in if t = OYL_EVT_SCALAR \<or> t = OYL_EVT_ALIAS then idx + 1
        else if t = OYL_EVT_MAPPING_START \<or> t = OYL_EVT_SEQUENCE_START then
          let end_t = (if t = OYL_EVT_MAPPING_START then OYL_EVT_MAPPING_END else OYL_EVT_SEQUENCE_END)
          in case close_at t end_t 1 (drop (idx + 1) events) of
               None \<Rightarrow> idx + 1
             | Some n \<Rightarrow> idx + 1 + n
        else idx + 1)"

section \<open>The anchor table\<close>

definition name_hash :: "byte list \<Rightarrow> 32 word" where
  "name_hash s = foldl (\<lambda>h c. (h XOR ucast c) * 16777619) 2166136261 s"

record merge_anchor =
  ma_name :: "byte list"
  ma_start :: nat
  ma_end :: nat

text \<open>The entries, and the index: per slot an entry's number plus 1, or 0; \<open>None\<close> without memory for it.\<close>

record merge_anchor_table =
  at_entries :: "merge_anchor list"
  at_cap :: nat
  at_index :: "nat list option"

definition atbl_init :: merge_anchor_table where
  "atbl_init = \<lparr>at_entries = [], at_cap = 0, at_index = None\<rparr>"

definition atbl_add ::
    "merge_anchor_table \<Rightarrow> mem \<Rightarrow> byte list \<Rightarrow> nat \<Rightarrow> nat \<Rightarrow> merge_anchor_table \<times> mem" where
  "atbl_add t m name first fin =
    (let a = \<lparr>ma_name = name, ma_start = first, ma_end = fin\<rparr>
     in if length (at_entries t) \<ge> at_cap t then
          let (ok, m) = mem_take m
          in if \<not> ok then (t, m)
             else (t\<lparr>at_entries := at_entries t @ [a], at_cap := (if at_cap t \<noteq> 0 then at_cap t * 2 else 16)\<rparr>, m)
        else (t\<lparr>at_entries := at_entries t @ [a]\<rparr>, m))"

definition hash_nat :: "byte list \<Rightarrow> nat" where
  "hash_nat s = unat (name_hash s)"

definition index_key :: "merge_anchor list \<Rightarrow> nat \<Rightarrow> byte list option" where
  "index_key entries n = (if n = 0 then None else Some (ma_name (entries ! (n - 1))))"

text \<open>
  The number of the latest entry with a name. The probe of the index ends (\<open>atbl_build_ok\<close>), so that
  no entry is the only meaning of \<open>None\<close> here.
\<close>

definition atbl_lookup :: "merge_anchor_table \<Rightarrow> byte list \<Rightarrow> nat option" where
  "atbl_lookup t name =
    (case at_index t of
       None \<Rightarrow> find (\<lambda>i. ma_name (at_entries t ! i) = name) (rev [0..<length (at_entries t)])
     | Some index \<Rightarrow> map_option (\<lambda>n. n - 1) (slot_of hash_nat (index_key (at_entries t)) index name))"

definition anchored :: "oyl_event \<Rightarrow> bool" where
  "anchored e \<longleftrightarrow> str_bytes (evt_anchor e) \<noteq> []"

fun add_anchors :: "oyl_event list \<Rightarrow> nat list \<Rightarrow> merge_anchor_table \<Rightarrow> mem \<Rightarrow> merge_anchor_table \<times> mem" where
  "add_anchors events [] t m = (t, m)"
| "add_anchors events (i # is) t m =
    (let (t, m) = (if anchored (events ! i)
                   then atbl_add t m (str_bytes (evt_anchor (events ! i))) i (node_end events i)
                   else (t, m))
     in add_anchors events is t m)"

text \<open>The loop "while \<open>cap < n\<close>: \<open>cap *= 2\<close>" (the capacity is at least 16).\<close>

function double_to :: "nat \<Rightarrow> nat \<Rightarrow> nat" where
  "double_to n cap = (if 0 < cap \<and> cap < n then double_to n (cap * 2) else cap)"
  by pat_completeness auto
termination by (relation "measure (\<lambda>(n, cap). n - cap)") auto

declare double_to.simps [simp del]

fun fill_index :: "merge_anchor list \<Rightarrow> nat list \<Rightarrow> nat list \<Rightarrow> nat list option" where
  "fill_index entries [] index = Some index"
| "fill_index entries (i # is) index =
    (case put_slot hash_nat (index_key entries) index (i + 1) of
       None \<Rightarrow> None
     | Some index \<Rightarrow> fill_index entries is index)"

text \<open>\<open>None\<close> would mean that a probe does not end, see \<open>atbl_build_ok\<close>.\<close>

definition atbl_build :: "oyl_event list \<Rightarrow> mem \<Rightarrow> (merge_anchor_table \<times> mem) option" where
  "atbl_build events m =
    (let (t, m) = add_anchors events [0..<length events] atbl_init m; n = length (at_entries t)
     in if n = 0 then Some (t, m)
        else
          let cap = double_to (n * 2) 16; (ok, m) = mem_take m
          in if \<not> ok then Some (t, m)
             else case fill_index (at_entries t) [0..<n] (replicate cap 0) of
                    None \<Rightarrow> None
                  | Some index \<Rightarrow> Some (t\<lparr>at_index := Some index\<rparr>, m))"

section \<open>Binding aliases to definitions\<close>

record anchor_slot =
  sl_name :: oyl_str
  sl_bound :: oyl_str

definition vacant_slot :: anchor_slot where
  "vacant_slot = \<lparr>sl_name = None, sl_bound = None\<rparr>"

text \<open>What \<open>bind_anchors\<close> keeps while it passes over the events.\<close>

record bind_state =
  bd_tab :: "anchor_slot list"
  bd_used :: "nat list"
  bd_names :: "oyl_str list"
  bd_serial :: nat
  bd_mem :: mem

text \<open>The decimal digits of a number, as \<open>snprintf\<close> writes them and \<open>strtoul\<close> reads them.\<close>

function dec_digits :: "nat \<Rightarrow> byte list" where
  "dec_digits n =
    (if n < 10 then [DIGIT_0 + word_of_nat n]
     else dec_digits (n div 10) @ [DIGIT_0 + word_of_nat (n mod 10)])"
  by pat_completeness auto
termination by (relation "measure id") auto

declare dec_digits.simps [simp del]

definition dec_value :: "byte list \<Rightarrow> nat" where
  "dec_value w = foldl (\<lambda>v c. 10 * v + unat (c - DIGIT_0)) 0 (takeWhile is_dec_digit w)"

definition bound_name :: "byte list \<Rightarrow> nat \<Rightarrow> byte list" where
  "bound_name name serial = name @ NUL # dec_digits serial"

fun clear_used :: "nat list \<Rightarrow> anchor_slot list \<Rightarrow> anchor_slot list" where
  "clear_used [] tab = tab"
| "clear_used (h # hs) tab = clear_used hs (tab[h := vacant_slot])"

text \<open>An anchor: its definition gets a name of its own, and is what later aliases refer to.\<close>

definition bind_definition :: "bind_state \<Rightarrow> oyl_event \<Rightarrow> (oyl_status \<times> oyl_event \<times> bind_state) option" where
  "bind_definition b e =
    (let name = str_bytes (evt_anchor e); (ok, m) = mem_take (bd_mem b)
     in if \<not> ok then Some (OYL_ERR_MEMORY, e, b\<lparr>bd_mem := m\<rparr>)
        else
          let serial = bd_serial b + 1; bound = bound_name name serial
          in case find_slot hash_nat sl_name (bd_tab b) name of
               None \<Rightarrow> None
             | Some h \<Rightarrow>
                 Some (OYL_OK, e\<lparr>evt_anchor := Some bound\<rparr>,
                   b\<lparr>bd_tab := (bd_tab b)[h := \<lparr>sl_name = Some name, sl_bound = Some bound\<rparr>],
                     bd_used := (if sl_name (bd_tab b ! h) = None then h # bd_used b else bd_used b),
                     bd_names := bd_names b @ [evt_anchor e], bd_serial := serial, bd_mem := m\<rparr>))"

definition bind_alias :: "bind_state \<Rightarrow> oyl_event \<Rightarrow> oyl_event" where
  "bind_alias b e =
    (if evt_type e = OYL_EVT_ALIAS then
       case slot_of hash_nat sl_name (bd_tab b) (str_bytes (evt_value e)) of
         None \<Rightarrow> e
       | Some s \<Rightarrow> e\<lparr>evt_value := sl_bound s\<rparr>
     else e)"

definition bind_event :: "bind_state \<Rightarrow> oyl_event \<Rightarrow> (oyl_status \<times> oyl_event \<times> bind_state) option" where
  "bind_event b e =
    (if evt_type e = OYL_EVT_DOC_START
     then Some (OYL_OK, e, b\<lparr>bd_tab := clear_used (bd_used b) (bd_tab b), bd_used := []\<rparr>)
     else if anchored e then
       case bind_definition b e of
         None \<Rightarrow> None
       | Some (st, e, b) \<Rightarrow> Some (st, if st = OYL_OK then bind_alias b e else e, b)
     else Some (OYL_OK, bind_alias b e, b))"

fun bind_events :: "bind_state \<Rightarrow> oyl_event list \<Rightarrow> (oyl_status \<times> oyl_event list \<times> bind_state) option" where
  "bind_events b [] = Some (OYL_OK, [], b)"
| "bind_events b (e # es) =
    (case bind_event b e of
       None \<Rightarrow> None
     | Some (st, e, b) \<Rightarrow>
         if st \<noteq> OYL_OK then Some (st, e # es, b)
         else map_option (\<lambda>(st, es, b). (st, e # es, b)) (bind_events b es))"

text \<open>The names start at number 1.\<close>

definition bind_anchors :: "oyl_parser \<Rightarrow> (oyl_status \<times> oyl_parser) option" where
  "bind_anchors p =
    (let nanchors = length (filter anchored (pa_events p))
     in if nanchors = 0 then Some (OYL_OK, p)
        else
          let cap = double_to (nanchors * 2) 16;
              (ok1, m) = mem_take (pa_mem p); (ok2, m) = mem_take m; (ok3, m) = mem_take m;
              p = p\<lparr>pa_mem := m, pa_bound_names := (if ok3 then Some [None] else None)\<rparr>
          in if \<not> (ok1 \<and> ok2 \<and> ok3) then Some (OYL_ERR_MEMORY, p)
             else case bind_events \<lparr>bd_tab = replicate cap vacant_slot, bd_used = [], bd_names = [None],
                                    bd_serial = 0, bd_mem = m\<rparr> (pa_events p) of
                    None \<Rightarrow> None
                  | Some (st, es, b) \<Rightarrow>
                      Some (st, p\<lparr>pa_events := es, pa_mem := bd_mem b, pa_bound_names := Some (bd_names b)\<rparr>))"

definition unbind_name :: "oyl_str list \<Rightarrow> oyl_str \<Rightarrow> oyl_str" where
  "unbind_name names s =
    (if s = None then s
     else let z = dropWhile (\<lambda>c. c \<noteq> NUL) (str_bytes s)
          in if z = [] then s else names ! dec_value (tl z))"

definition unbind_event :: "oyl_str list \<Rightarrow> oyl_event \<Rightarrow> oyl_event" where
  "unbind_event names e =
    (let e = e\<lparr>evt_anchor := unbind_name names (evt_anchor e)\<rparr>
     in if evt_type e = OYL_EVT_ALIAS then e\<lparr>evt_value := unbind_name names (evt_value e)\<rparr> else e)"

definition unbind_anchors :: "oyl_parser \<Rightarrow> oyl_parser" where
  "unbind_anchors p =
    (case pa_bound_names p of
       None \<Rightarrow> p
     | Some names \<Rightarrow> p\<lparr>pa_events := map (unbind_event names) (pa_events p), pa_bound_names := None\<rparr>)"


section \<open>The end of a node is the end of its tree\<close>

text \<open>A list of events that leaves the depth of \<open>close_at\<close> as it was.\<close>

definition close_pair :: "oyl_event_type \<Rightarrow> oyl_event_type \<Rightarrow> bool" where
  "close_pair t end_t \<longleftrightarrow> t = OYL_EVT_MAPPING_START \<and> end_t = OYL_EVT_MAPPING_END \<or>
     t = OYL_EVT_SEQUENCE_START \<and> end_t = OYL_EVT_SEQUENCE_END"

definition passes_depth :: "oyl_event list \<Rightarrow> bool" where
  "passes_depth xs \<longleftrightarrow> (\<forall>rest depth t end_t. 0 < depth \<and> close_pair t end_t \<longrightarrow>
     close_at t end_t depth (xs @ rest) = map_option (\<lambda>n. length xs + n) (close_at t end_t depth rest))"

lemma passes_depthD:
  "passes_depth xs \<Longrightarrow> 0 < depth \<Longrightarrow> close_pair t end_t \<Longrightarrow>
    close_at t end_t depth (xs @ rest) = map_option (\<lambda>n. length xs + n) (close_at t end_t depth rest)"
  by (simp add: passes_depth_def)

lemma passes_depth_Nil: "passes_depth []"
  by (simp add: passes_depth_def option.map_ident)

lemma passes_depth_append: "passes_depth xs \<Longrightarrow> passes_depth ys \<Longrightarrow> passes_depth (xs @ ys)"
  by (subst passes_depth_def) (auto simp: passes_depthD option.map_comp comp_def add.assoc intro!: option.map_cong0)

lemma passes_depth_concat: "(\<And>x. x \<in> set xs \<Longrightarrow> passes_depth x) \<Longrightarrow> passes_depth (concat xs)"
  by (induction xs) (auto intro: passes_depth_Nil passes_depth_append)

lemma passes_depth_leaf: "evt_type e = OYL_EVT_SCALAR \<or> evt_type e = OYL_EVT_ALIAS \<Longrightarrow> passes_depth [e]"
  by (auto simp: passes_depth_def close_pair_def intro: option.map_cong0)

lemma passes_depth_wrap:
  assumes "passes_depth xs" and "close_pair (evt_type e) (evt_type e')"
  shows "passes_depth (e # xs @ [e'])"
  using assms
  by (auto simp: passes_depth_def close_pair_def option.map_comp comp_def intro!: option.map_cong0)

lemma passes_depth_node: "node_ok n \<Longrightarrow> passes_depth (node_events n)"
proof (induction n)
  case (NSeq e ns e')
  then have "passes_depth (concat (map node_events ns))"
    by (intro passes_depth_concat) (auto simp: list_all_iff)
  with NSeq.prems passes_depth_wrap show ?case by (simp add: close_pair_def)
next
  case (NMap e kvs e')
  have "passes_depth (node_events k @ node_events v)" if "(k, v) \<in> set kvs" for k v
    using NMap that by (intro passes_depth_append) (auto simp: list_all_iff)
  then have "passes_depth (concat (map (\<lambda>(k, v). node_events k @ node_events v) kvs))"
    by (intro passes_depth_concat) auto
  with NMap.prems passes_depth_wrap show ?case by (simp add: close_pair_def)
qed (simp_all add: passes_depth_leaf)

lemma node_end_at:
  assumes "node_ok n" and "drop idx events = node_events n @ rest" 
  shows "node_end events idx = idx + length (node_events n)"
proof -
  have at: "idx < length events" using assms(2) node_events_Cons [of n] by (metis Cons_eq_appendI drop_all list.distinct(1) not_le)
  have hd: "events ! idx = hd (node_events n)" using assms(2) at node_events_Cons [of n] 
    by (metis append_Cons hd_drop_conv_nth list.sel(1))
  have tl: "drop (Suc idx) events = tl (node_events n) @ rest"
    using assms(2) node_events_Cons [of n] by (metis append_Cons drop_Suc list.sel(3) tl_drop)
  have inside: "close_at t end_t 1 ((xs @ [e']) @ rest) = Some (length xs + 1)"
    if "passes_depth xs" "evt_type e' = end_t" "close_pair t end_t" for t end_t xs e'
  proof -
    have "evt_type e' \<noteq> t" using that by (auto simp: close_pair_def)
    then show ?thesis using that passes_depthD [of xs 1 t end_t "e' # rest"] by simp
  qed
  show ?thesis
  proof (cases n)
    case (NSeq e ns e')
    then have "passes_depth (concat (map node_events ns))"
      using assms(1) by (intro passes_depth_concat) (auto simp: list_all_iff passes_depth_node)
    from inside [OF this] show ?thesis using NSeq assms(1) hd tl by (simp add: node_end_def close_pair_def)
  next
    case (NMap e kvs e')
    then have "passes_depth (concat (map (\<lambda>(k, v). node_events k @ node_events v) kvs))"
      using assms(1) by (intro passes_depth_concat) (auto simp: list_all_iff intro!: passes_depth_append passes_depth_node)
    from inside [OF this] show ?thesis using NMap assms(1) hd tl by (simp add: node_end_def close_pair_def)
  qed (use assms hd in \<open>simp_all add: node_end_def\<close>)
qed

lemma node_end_gt: "idx < node_end events idx"
  by (auto simp: node_end_def Let_def split: option.split)


section \<open>The anchor table finds the latest definition\<close>

lemma double_to_pow2:
  "\<exists>e'. double_to n (2 ^ e) = 2 ^ e' \<and> n \<le> (2::nat) ^ e'"
proof (induction "n - 2 ^ e" arbitrary: e rule: less_induct)
  case less
  show ?case
  proof (cases "2 ^ e < n")
    case True
    then have "n - 2 ^ Suc e < n - 2 ^ e" by (intro diff_less_mono2) simp_all
    from less [OF this] True show ?thesis by (subst double_to.simps) (simp add: mult.commute)
  next
    case False
    then show ?thesis by (subst double_to.simps) (intro exI [of _ e], simp)
  qed
qed

lemma double_to_16:
  obtains e where "double_to n 16 = 2 ^ e" and "n \<le> double_to n 16"
  using double_to_pow2 [of n 4] by auto

text \<open>The index as a table of slots, over the entries that it points to.\<close>

interpretation anchor_index: open_addressing hash_nat "index_key entries" 0 for entries
  by unfold_locales (simp add: index_key_def)

definition latest :: "merge_anchor list \<Rightarrow> nat \<Rightarrow> byte list \<Rightarrow> nat option" where
  "latest entries n name = find (\<lambda>i. ma_name (entries ! i) = name) (rev [0..<n])"

lemma latest_Suc: "latest entries (Suc n) = (latest entries n)(ma_name (entries ! n) \<mapsto> n)"
  by (auto simp: latest_def)

text \<open>Filling the index with the entries from \<open>n\<close> on, when those before it are in.\<close>

definition index_holds :: "merge_anchor list \<Rightarrow> nat list \<Rightarrow> nat \<Rightarrow> bool" where
  "index_holds entries index n \<longleftrightarrow> well_placed hash_nat (index_key entries) index \<and>
     taken (index_key entries) index \<le> n \<and> length entries < length index \<and>
     (\<forall>name. map_option (\<lambda>i. i - 1) (slot_of hash_nat (index_key entries) index name) = latest entries n name)"

lemma index_holds_step:
  assumes "index_holds entries index n" and "n < length entries"
  obtains index' where "put_slot hash_nat (index_key entries) index (n + 1) = Some index'"
    and "index_holds entries index' (Suc n)"
proof -
  let ?key = "index_key entries"
  note h = assms(1)[unfolded index_holds_def]
  have key: "?key (n + 1) = Some (ma_name (entries ! n))" by (simp add: index_key_def)
  have room: "Suc (taken ?key index) < length index" using h assms(2) by linarith
  obtain index1 where i1: "put_slot hash_nat ?key index (n + 1) = Some index1"
      "well_placed hash_nat ?key index1" "length index1 = length index"
      "taken ?key index1 \<le> Suc (taken ?key index)"
      "slot_of hash_nat ?key index1 = (slot_of hash_nat ?key index)(ma_name (entries ! n) \<mapsto> n + 1)"
    using anchor_index.put_slot_ok [OF conjunct1 [OF h] room key] .
  have "map_option (\<lambda>i. i - 1) (slot_of hash_nat ?key index1 name) = latest entries (Suc n) name" for name
    using h by (simp add: i1(5) latest_Suc)
  then have "index_holds entries index1 (Suc n)"
    using h i1(2-4) by (simp add: index_holds_def)
  with that i1(1) show thesis by blast
qed

lemma fill_index_ok:
  "index_holds entries index n \<Longrightarrow> n \<le> length entries \<Longrightarrow>
    \<exists>index'. fill_index entries [n..<length entries] index = Some index' \<and>
      index_holds entries index' (length entries)"
proof (induction "length entries - n" arbitrary: n index)
  case 0
  then show ?case by simp
next
  case (Suc d)
  then have n: "n < length entries" by simp
  then have up: "[n..<length entries] = n # [Suc n..<length entries]" by (rule upt_conv_Cons)
  obtain index1 where "put_slot hash_nat (index_key entries) index (n + 1) = Some index1"
      "index_holds entries index1 (Suc n)"
    using index_holds_step [OF Suc.prems(1) n] .
  with Suc(1) [of "Suc n" index1] Suc(2) n up show ?case by simp
qed

text \<open>
  A table that is built: every probe of the index ends, and a lookup gives the latest entry, with the
  index and without it.
\<close>

definition table_ok :: "merge_anchor_table \<Rightarrow> bool" where
  "table_ok t \<longleftrightarrow> (\<forall>index. at_index t = Some index \<longrightarrow>
     (\<forall>name. find_slot hash_nat (index_key (at_entries t)) index name \<noteq> None)) \<and>
     (\<forall>name. atbl_lookup t name = latest (at_entries t) (length (at_entries t)) name)"

lemma add_anchors_index: "at_index (fst (add_anchors events is t m)) = at_index t"
  by (induction "is" arbitrary: t m) (auto simp: atbl_add_def Let_def split: prod.splits)

lemma atbl_build_ok:
  obtains t m' where "atbl_build events m = Some (t, m')" and "table_ok t"
    and "at_entries t = at_entries (fst (add_anchors events [0..<length events] atbl_init m))"
proof -
  obtain t m1 where add: "add_anchors events [0..<length events] atbl_init m = (t, m1)" by fastforce
  have none: "at_index t = None"
    using add_anchors_index [of events "[0..<length events]" atbl_init m] add by (simp add: atbl_init_def)
  let ?n = "length (at_entries t)"
  obtain ok m2 where m2: "mem_take m1 = (ok, m2)" by fastforce
  have plain: "table_ok t" using none by (simp add: table_ok_def atbl_lookup_def latest_def)
  show thesis
  proof (cases "?n = 0 \<or> \<not> ok")
    case True
    then have "atbl_build events m = Some (t, if ?n = 0 then m1 else m2)"
      using add m2 by (cases "?n = 0") (simp_all add: atbl_build_def Let_def)
    then show thesis by (rule that [OF _ plain]) (simp add: add)
  next
    case False
    obtain e where e: "double_to (?n * 2) 16 = 2 ^ e" "?n * 2 \<le> double_to (?n * 2) 16" by (rule double_to_16)
    have "0 < ?n" using False by simp
    then have "?n < double_to (?n * 2) 16" using e(2) by linarith
    then have "index_holds (at_entries t) (replicate (double_to (?n * 2) 16) 0) 0"
      using e(1) anchor_index.new_table [of "at_entries t"] by (simp add: index_holds_def latest_def)
    then obtain index where index: "fill_index (at_entries t) [0..<?n] (replicate (double_to (?n * 2) 16) 0) = Some index"
        and holds: "index_holds (at_entries t) index ?n"
      using fill_index_ok by blast
    then have "\<exists>i. find_slot hash_nat (index_key (at_entries t)) index name = Some i" for name
      using anchor_index.find_slot_ends [of "at_entries t" index name] by (auto simp: index_holds_def)
    with holds have "table_ok (t\<lparr>at_index := Some index\<rparr>)"
      by (auto simp: table_ok_def atbl_lookup_def index_holds_def)
    with that [of "t\<lparr>at_index := Some index\<rparr>" m2] False index add m2 show thesis by (simp add: atbl_build_def Let_def)
  qed
qed

text \<open>With memory, the entries are all the anchored nodes, in order.\<close>

definition anchor_entry :: "oyl_event list \<Rightarrow> nat \<Rightarrow> merge_anchor" where
  "anchor_entry events i = \<lparr>ma_name = str_bytes (evt_anchor (events ! i)), ma_start = i, ma_end = node_end events i\<rparr>"

lemma mem_take_good: "mem_take m = (ok, m') \<Longrightarrow> False \<notin> set m \<Longrightarrow> ok \<and> False \<notin> set m'"
  by (cases m) auto

lemma add_anchors_entries:
  "False \<notin> set m \<Longrightarrow> at_entries (fst (add_anchors events is t m)) =
     at_entries t @ map (anchor_entry events) (filter (\<lambda>i. anchored (events ! i)) is)"
proof (induction "is" arbitrary: t m)
  case (Cons i "is")
  obtain t1 m1 where 1: "atbl_add t m (str_bytes (evt_anchor (events ! i))) i (node_end events i) = (t1, m1)" by fastforce
  then have "at_entries t1 = at_entries t @ [anchor_entry events i]" "False \<notin> set m1"
    using Cons.prems mem_take_good [of m]
    by (auto simp: atbl_add_def anchor_entry_def Let_def split: if_split_asm prod.splits)
  with Cons 1 show ?case by simp
qed simp

text \<open>Without it, some may be missing, but what is there is right.\<close>

lemma add_anchors_subset:
  "set (at_entries (fst (add_anchors events is t m))) \<subseteq>
     set (at_entries t) \<union> anchor_entry events ` {i \<in> set is. anchored (events ! i)}"
proof (induction "is" arbitrary: t m)
  case (Cons i "is")
  obtain t1 m1 where 1: "atbl_add t m (str_bytes (evt_anchor (events ! i))) i (node_end events i) = (t1, m1)" by fastforce
  then have "set (at_entries t1) \<subseteq> insert (anchor_entry events i) (set (at_entries t))"
    by (auto simp: atbl_add_def anchor_entry_def Let_def split: if_split_asm prod.splits)
  with Cons.IH [of t1 m1] Cons.IH [of t m] 1 show ?case by (auto; blast)
qed simp

section \<open>Binding\<close>

text \<open>The definition an alias refers to: the last one before it, or at it, in its document.\<close>

definition is_def :: "oyl_event \<Rightarrow> bool" where
  "is_def e \<longleftrightarrow> anchored e \<and> evt_type e \<noteq> OYL_EVT_DOC_START"

fun find_def :: "oyl_event list \<Rightarrow> byte list \<Rightarrow> nat list \<Rightarrow> nat option" where
  "find_def es name [] = None"
| "find_def es name (j # js) =
    (if evt_type (es ! j) = OYL_EVT_DOC_START then None
     else if anchored (es ! j) \<and> str_bytes (evt_anchor (es ! j)) = name then Some j
     else find_def es name js)"

definition definition_of :: "oyl_event list \<Rightarrow> nat \<Rightarrow> nat option" where
  "definition_of es i = find_def es (str_bytes (evt_value (es ! i))) (rev [0..<Suc i])"

text \<open>The name a definition gets.\<close>

definition def_count :: "oyl_event list \<Rightarrow> nat \<Rightarrow> nat" where
  "def_count es i = length (filter is_def (take i es))"

definition bound_at :: "oyl_event list \<Rightarrow> nat \<Rightarrow> byte list" where
  "bound_at es i = bound_name (str_bytes (evt_anchor (es ! i))) (def_count es (Suc i))"

definition bound_event :: "oyl_event list \<Rightarrow> nat \<Rightarrow> oyl_event" where
  "bound_event es i =
    (let e = es ! i;
         e = (if is_def e then e\<lparr>evt_anchor := Some (bound_at es i)\<rparr> else e)
     in if evt_type e = OYL_EVT_ALIAS
        then case definition_of es i of None \<Rightarrow> e | Some j \<Rightarrow> e\<lparr>evt_value := Some (bound_at es j)\<rparr>
        else e)"

interpretation anchor_slots: open_addressing hash_nat sl_name vacant_slot
  by unfold_locales (simp add: vacant_slot_def)

definition bound_slot :: "oyl_event list \<Rightarrow> nat \<Rightarrow> anchor_slot" where
  "bound_slot es j = \<lparr>sl_name = Some (str_bytes (evt_anchor (es ! j))), sl_bound = Some (bound_at es j)\<rparr>"

text \<open>The state of the pass before the event \<open>i\<close>.\<close>

definition binds :: "oyl_event list \<Rightarrow> nat \<Rightarrow> bind_state \<Rightarrow> bool" where
  "binds es i b \<longleftrightarrow> well_placed hash_nat sl_name (bd_tab b) \<and>
     taken sl_name (bd_tab b) \<le> def_count es i \<and> def_count es (length es) < length (bd_tab b) \<and>
     (\<forall>h < length (bd_tab b). h \<notin> set (bd_used b) \<longrightarrow> bd_tab b ! h = vacant_slot) \<and>
     (\<forall>name. slot_of hash_nat sl_name (bd_tab b) name = map_option (bound_slot es) (find_def es name (rev [0..<i]))) \<and>
     bd_serial b = def_count es i \<and> bd_names b = None # map evt_anchor (filter is_def (take i es))"

lemma clear_used_all:
  "(\<And>h. h < length tab \<Longrightarrow> h \<notin> set hs \<Longrightarrow> tab ! h = vacant_slot) \<Longrightarrow>
    clear_used hs tab = replicate (length tab) vacant_slot"
proof (induction hs arbitrary: tab)
  case Nil
  then show ?case by (simp add: nth_equalityI)
next
  case (Cons h hs)
  have "(tab[h := vacant_slot]) ! j = vacant_slot" if "j < length tab" "j \<notin> set hs" for j
    using Cons.prems [of j] that by (cases "j = h") auto
  then show ?case using Cons.IH [of "tab[h := vacant_slot]"] by simp
qed

lemma def_count_Suc: "i < length es \<Longrightarrow> def_count es (Suc i) = def_count es i + (if is_def (es ! i) then 1 else 0)"
  by (simp add: def_count_def take_Suc_conv_app_nth)

lemma def_count_le: "i \<le> j \<Longrightarrow> def_count es i \<le> def_count es j"
proof -
  assume "i \<le> j"
  then have "take j es = take i es @ take (j - i) (drop i es)" by (simp add: take_drop [symmetric] take_add [symmetric])
  then show ?thesis by (simp add: def_count_def)
qed


lemma binds_doc_start:
  assumes "binds es i b" and "i < length es" and "evt_type (es ! i) = OYL_EVT_DOC_START"
  shows "binds es (Suc i) (b\<lparr>bd_tab := clear_used (bd_used b) (bd_tab b), bd_used := []\<rparr>)"
proof -
  note b = assms(1)[unfolded binds_def]
  obtain e where e: "length (bd_tab b) = 2 ^ e" using b by (auto simp: well_placed_def)
  have "clear_used (bd_used b) (bd_tab b) = replicate (2 ^ e) vacant_slot"
    using clear_used_all [of "bd_tab b" "bd_used b"] b e by simp
  with b e assms(2,3) show ?thesis
    by (simp add: binds_def anchor_slots.new_table def_count_Suc is_def_def take_Suc_conv_app_nth)
qed

lemma find_def_Suc:
  assumes "evt_type (es ! i) \<noteq> OYL_EVT_DOC_START"
  shows "find_def es name (rev [0..<Suc i]) =
    (if is_def (es ! i) \<and> str_bytes (evt_anchor (es ! i)) = name then Some i else find_def es name (rev [0..<i]))"
  using assms by (simp add: is_def_def)

lemma binds_definition:
  assumes "binds es i b" and "i < length es" and "is_def (es ! i)"
  obtains m where "bind_definition b (es ! i) = Some (OYL_ERR_MEMORY, es ! i, b\<lparr>bd_mem := m\<rparr>)" and "False \<in> set (bd_mem b)"
  | b' where "bind_definition b (es ! i) = Some (OYL_OK, (es ! i)\<lparr>evt_anchor := Some (bound_at es i)\<rparr>, b')"
      and "binds es (Suc i) b'" and "set (bd_mem b') \<subseteq> set (bd_mem b)"
proof -
  let ?name = "str_bytes (evt_anchor (es ! i))" let ?tab = "bd_tab b" let ?k = "def_count es"
  note b = assms(1)[unfolded binds_def]
  obtain ok m where m: "mem_take (bd_mem b) = (ok, m)" by fastforce
  have Suc: "?k (Suc i) = Suc (?k i)" using assms(2,3) by (simp add: def_count_Suc)
  have "?k (Suc i) \<le> ?k (length es)" using assms(2) by (intro def_count_le) simp
  then have room: "Suc (taken sl_name ?tab) < length ?tab" using b Suc by linarith
  let ?s = "bound_slot es i"
  have s: "?s = \<lparr>sl_name = Some ?name, sl_bound = Some (bound_at es i)\<rparr>" and key: "sl_name ?s = Some ?name"
    by (simp_all add: bound_slot_def)
  obtain tab' where tab': "put_slot hash_nat sl_name ?tab ?s = Some tab'" "well_placed hash_nat sl_name tab'"
      "length tab' = length ?tab" "taken sl_name tab' \<le> Suc (taken sl_name ?tab)"
      "slot_of hash_nat sl_name tab' = (slot_of hash_nat sl_name ?tab)(?name \<mapsto> ?s)"
    using anchor_slots.put_slot_ok [OF conjunct1 [OF b] room key] .
  then obtain h where h: "find_slot hash_nat sl_name ?tab ?name = Some h" "tab' = ?tab[h := ?s]"
    by (auto simp: put_slot_def key split: option.splits)
  let ?b = "b\<lparr>bd_tab := tab', bd_used := (if sl_name (?tab ! h) = None then h # bd_used b else bd_used b),
              bd_names := bd_names b @ [evt_anchor (es ! i)], bd_serial := Suc (?k i), bd_mem := m\<rparr>"
  show thesis
  proof (cases ok)
    case False
    then have "False \<in> set (bd_mem b)" using m mem_take_set by blast
    with False m show thesis by (intro that(1) [of m]) (simp_all add: bind_definition_def)
  next
    case True
    have bd: "bd_serial b = ?k i" using b by simp
    have "bind_definition b (es ! i) = Some (OYL_OK, (es ! i)\<lparr>evt_anchor := Some (bound_at es i)\<rparr>, ?b)"
      using True m h bd Suc by (simp add: bind_definition_def bound_at_def s Let_def)
    moreover have "binds es (Suc i) ?b"
    proof -
      have used: "tab' ! x = vacant_slot"
        if "x < length tab'" "x \<notin> set (if sl_name (?tab ! h) = None then h # bd_used b else bd_used b)" for x
      proof -
        have "x \<notin> set (bd_used b)" using that(2) by (auto split: if_split_asm)
        then have v: "?tab ! x = vacant_slot" using that(1) tab'(3) b by simp
        then have "x \<noteq> h" using that(2) by (auto simp: vacant_slot_def split: if_split_asm)
        then show ?thesis using v h(2) by simp
      qed
      have slots: "slot_of hash_nat sl_name tab' name = map_option (bound_slot es) (find_def es name (rev [0..<Suc i]))" for name
        using b assms(3) unfolding tab'(5) by (simp add: find_def_Suc is_def_def)
      show ?thesis
        unfolding binds_def using b tab'(2-4) used slots Suc assms(2,3) by (simp add: take_Suc_conv_app_nth)
    qed
    moreover have "set (bd_mem ?b) \<subseteq> set (bd_mem b)" using m by (cases "bd_mem b") auto
    ultimately show thesis by (rule that(2))
  qed
qed

lemma bind_alias_at:
  assumes "\<forall>name. slot_of hash_nat sl_name (bd_tab b) name = map_option (bound_slot es) (find_def es name (rev [0..<Suc i]))"
    and "evt_type e = evt_type (es ! i)" and "evt_value e = evt_value (es ! i)"
  shows "bind_alias b e =
    (if evt_type (es ! i) = OYL_EVT_ALIAS
     then case definition_of es i of None \<Rightarrow> e | Some j \<Rightarrow> e\<lparr>evt_value := Some (bound_at es j)\<rparr>
     else e)"
  using assms by (auto simp: bind_alias_def definition_of_def bound_slot_def simp del: find_def.simps upt_Suc split: option.splits)

lemma bind_event_at:
  assumes "binds es i b" and "i < length es"
  obtains e m where "bind_event b (es ! i) = Some (OYL_ERR_MEMORY, e, b\<lparr>bd_mem := m\<rparr>)" and "False \<in> set (bd_mem b)"
  | b' where "bind_event b (es ! i) = Some (OYL_OK, bound_event es i, b')"
      and "binds es (Suc i) b'" and "set (bd_mem b') \<subseteq> set (bd_mem b)"
proof (cases "evt_type (es ! i) = OYL_EVT_DOC_START")
  case True
  then have "bind_event b (es ! i) = Some (OYL_OK, bound_event es i, b\<lparr>bd_tab := clear_used (bd_used b) (bd_tab b), bd_used := []\<rparr>)"
    by (simp add: bind_event_def bound_event_def is_def_def)
  then show thesis using binds_doc_start [OF assms True] by (rule that(2)) simp
next
  case no_start: False
  show thesis
  proof (cases "is_def (es ! i)")
    case def: True
    show thesis
    proof (rule binds_definition [OF assms def], goal_cases memory ok)
      case (memory m)
      then show ?case using no_start def by (intro that(1) [of "es ! i" m]) (simp_all add: bind_event_def is_def_def)
    next
      case (ok b')
      have "bind_alias b' ((es ! i)\<lparr>evt_anchor := Some (bound_at es i)\<rparr>) = bound_event es i"
        using ok(2) def by (subst bind_alias_at [of b' es i]) (auto simp: binds_def bound_event_def simp del: upt_Suc split: option.split)
      with ok no_start def show ?case by (intro that(2) [of b']) (simp_all add: bind_event_def is_def_def)
    qed
  next
    case False
    have b': "binds es (Suc i) b"
      using assms False no_start
      by (simp add: binds_def def_count_Suc find_def_Suc take_Suc_conv_app_nth del: upt_Suc)
    then have "bind_alias b (es ! i) = bound_event es i"
      using False by (subst bind_alias_at [of b es i]) (auto simp: binds_def bound_event_def simp del: upt_Suc split: option.split)
    with b' no_start False show thesis by (intro that(2) [of b]) (simp_all add: bind_event_def is_def_def)
  qed
qed

lemma bind_events_at:
  "binds es i b \<Longrightarrow> i \<le> length es \<Longrightarrow>
    \<exists>st es' b'. bind_events b (drop i es) = Some (st, es', b') \<and>
      (st = OYL_OK \<longrightarrow> es' = map (bound_event es) [i..<length es] \<and> binds es (length es) b') \<and>
      (st \<noteq> OYL_OK \<longrightarrow> st = OYL_ERR_MEMORY \<and> False \<in> set (bd_mem b))"
proof (induction "length es - i" arbitrary: i b)
  case 0
  then show ?case by simp
next
  case (Suc d)
  then have i: "i < length es" by simp
  have drop: "drop i es = es ! i # drop (Suc i) es" using i by (rule Cons_nth_drop_Suc [symmetric])
  have up: "[i..<length es] = i # [Suc i..<length es]" using i by (rule upt_conv_Cons)
  show ?case
  proof (rule bind_event_at [OF Suc.prems(1) i], goal_cases memory ok)
    case (memory e m)
    then show ?case by (simp add: drop)
  next
    case (ok b')
    obtain st es' b'' where "bind_events b' (drop (Suc i) es) = Some (st, es', b'')"
        "st = OYL_OK \<longrightarrow> es' = map (bound_event es) [Suc i..<length es] \<and> binds es (length es) b''"
        "st \<noteq> OYL_OK \<longrightarrow> st = OYL_ERR_MEMORY \<and> False \<in> set (bd_mem b')"
      using Suc(1) [OF _ ok(2)] Suc(2) i by fastforce
    with ok show ?case by (auto simp: drop up)
  qed
qed


lemma definitions_anchored: "length (filter is_def es) \<le> length (filter anchored es)"
  by (induction es) (auto simp: is_def_def)

text \<open>The whole pass: it ends; without memory it fails; otherwise every event is bound.\<close>

lemma bind_anchors_cases:
  obtains q where "bind_anchors p = Some (OYL_ERR_MEMORY, q)" and "False \<in> set (pa_mem p)"
  | "bind_anchors p = Some (OYL_OK, p)" and "\<forall>e\<in>set (pa_events p). \<not> anchored e"
  | m where "bind_anchors p = Some (OYL_OK, p\<lparr>pa_mem := m,
        pa_events := map (bound_event (pa_events p)) [0..<length (pa_events p)],
        pa_bound_names := Some (None # map evt_anchor (filter is_def (pa_events p)))\<rparr>)"
proof (cases "length (filter anchored (pa_events p)) = 0")
  case True
  then have "\<forall>e\<in>set (pa_events p). \<not> anchored e" by (auto simp: filter_empty_conv)
  with True that(2) show thesis by (simp add: bind_anchors_def)
next
  case some: False
  let ?es = "pa_events p" let ?n = "length (filter anchored ?es)"
  obtain ok1 m1 ok2 m2 ok3 m3 where m: "mem_take (pa_mem p) = (ok1, m1)" "mem_take m1 = (ok2, m2)" "mem_take m2 = (ok3, m3)"
    by (meson surj_pair)
  have sub: "set m3 \<subseteq> set (pa_mem p)" "ok1 \<and> ok2 \<and> ok3 \<or> False \<in> set (pa_mem p)"
    using mem_take_set m by (cases "pa_mem p"; cases m1; cases m2; auto)+
  show thesis
  proof (cases "ok1 \<and> ok2 \<and> ok3")
    case False
    then show thesis using that(1) sub(2) m some by (auto simp: bind_anchors_def Let_def)
  next
    case True
    obtain e where e: "double_to (?n * 2) 16 = 2 ^ e" "?n * 2 \<le> double_to (?n * 2) 16" by (rule double_to_16)
    let ?b = "\<lparr>bd_tab = replicate (double_to (?n * 2) 16) vacant_slot, bd_used = [], bd_names = [None],
               bd_serial = 0, bd_mem = m3\<rparr>"
    have "def_count ?es (length ?es) \<le> ?n"
      by (simp add: def_count_def definitions_anchored)
    also have "?n < double_to (?n * 2) 16" using e(2) some by linarith
    finally have "binds ?es 0 ?b"
      using e(1) by (simp add: binds_def anchor_slots.new_table def_count_def)
    from bind_events_at [OF this] obtain st es' b' where 1: "bind_events ?b ?es = Some (st, es', b')"
        "st = OYL_OK \<longrightarrow> es' = map (bound_event ?es) [0..<length ?es] \<and> binds ?es (length ?es) b'"
        "st \<noteq> OYL_OK \<longrightarrow> st = OYL_ERR_MEMORY \<and> False \<in> set m3"
      by auto
    then have eq: "bind_anchors p = Some (st, p\<lparr>pa_mem := bd_mem b', pa_bound_names := Some (bd_names b'), pa_events := es'\<rparr>)"
      using True m some by (simp add: bind_anchors_def Let_def)
    show thesis
    proof (cases "st = OYL_OK")
      case True
      then have "bd_names b' = None # map evt_anchor (filter is_def ?es)" using 1(2) by (simp add: binds_def)
      with True 1(2) eq that(3) [of "bd_mem b'"] show thesis by simp
    next
      case False
      then show thesis using 1(3) eq sub(1) that(1) by blast
    qed
  qed
qed

section \<open>Bound names come back\<close>

lemma dec_digit_range: "n < 10 \<Longrightarrow> is_dec_digit (DIGIT_0 + word_of_nat n) \<and> unat (DIGIT_0 + word_of_nat n - DIGIT_0 :: byte) = n"
proof -
  assume "n < 10"
  then consider "n = 0" | "n = 1" | "n = 2" | "n = 3" | "n = 4" | "n = 5" | "n = 6" | "n = 7" | "n = 8" | "n = 9"
    by (auto simp: eval_nat_numeral less_Suc_eq)
  then show ?thesis by cases (simp_all add: is_dec_digit_def)
qed

lemma dec_digits_are: "\<forall>c\<in>set (dec_digits n). is_dec_digit c"
proof (induction n rule: dec_digits.induct)
  case (1 n)
  then show ?case using dec_digit_range [of n] dec_digit_range [of "n mod 10"] by (subst dec_digits.simps) auto
qed

lemma dec_value_digits: "dec_value (dec_digits n) = n"
proof (induction n rule: dec_digits.induct)
  case (1 n)
  have all: "takeWhile is_dec_digit (dec_digits k) = dec_digits k" for k
    using dec_digits_are by (simp add: takeWhile_eq_all_conv)
  show ?case
  proof (cases "n < 10")
    case True
    then show ?thesis using dec_digit_range [of n] by (subst dec_digits.simps) (simp add: dec_value_def)
  next
    case False
    have "dec_value (dec_digits n) = 10 * dec_value (dec_digits (n div 10)) + unat (DIGIT_0 + word_of_nat (n mod 10) - DIGIT_0 :: byte)"
      unfolding dec_value_def all using False by (subst dec_digits.simps) simp
    then show ?thesis using 1 False dec_digit_range [of "n mod 10"] by simp
  qed
qed

lemma unbind_bound: "NUL \<notin> set name \<Longrightarrow> unbind_name names (Some (bound_name name k)) = names ! k"
proof -
  assume "NUL \<notin> set name"
  then have "dropWhile (\<lambda>c. c \<noteq> NUL) (name @ NUL # w) = NUL # w" for w by (induction name) auto
  then show ?thesis by (simp add: unbind_name_def bound_name_def dec_value_digits)
qed

lemma unbind_free: "NUL \<notin> set (str_bytes s) \<Longrightarrow> unbind_name names s = s"
  by (auto simp: unbind_name_def Let_def dropWhile_eq_Nil_conv)

text \<open>The name that the number of a definition stands for.\<close>

lemma nth_filter_take:
  "i < length xs \<Longrightarrow> P (xs ! i) \<Longrightarrow> filter P xs ! length (filter P (take i xs)) = xs ! i"
proof -
  assume i: "i < length xs" "P (xs ! i)"
  have "filter P xs = filter P (take i xs) @ xs ! i # filter P (drop (Suc i) xs)"
    using i id_take_nth_drop [OF i(1)] by (metis filter.simps(2) filter_append)
  then show ?thesis by (simp add: nth_append)
qed

lemma bound_names_nth:
  assumes "i < length es" and "is_def (es ! i)"
  shows "(None # map evt_anchor (filter is_def es)) ! def_count es (Suc i) = evt_anchor (es ! i)"
proof -
  have lt: "def_count es i < length (filter is_def es)"
  proof -
    have "def_count es (Suc i) \<le> def_count es (length es)" using assms(1) by (intro def_count_le) simp
    then show ?thesis using assms by (simp add: def_count_Suc) (simp add: def_count_def)
  qed
  then show ?thesis using assms nth_filter_take [of i es is_def] by (simp add: def_count_Suc) (simp add: def_count_def)
qed

lemma find_def_found:
  "find_def es name js = Some j \<Longrightarrow> j \<in> set js \<and> is_def (es ! j) \<and> str_bytes (evt_anchor (es ! j)) = name"
  by (induction js) (auto simp: is_def_def split: if_split_asm)

lemma str_bytes_eq: "str_bytes s = str_bytes t \<Longrightarrow> str_bytes s \<noteq> [] \<Longrightarrow> s = t"
  by (cases s; cases t) auto

definition names_clean :: "oyl_event list \<Rightarrow> bool" where
  "names_clean es \<longleftrightarrow> list_all (\<lambda>e. NUL \<notin> set (str_bytes (evt_anchor e)) \<and> NUL \<notin> set (str_bytes (evt_value e))) es"

lemma unbind_bound_event:
  assumes "names_clean es" and "i < length es"
  shows "unbind_event (None # map evt_anchor (filter is_def es)) (bound_event es i) = es ! i"
proof -
  let ?names = "None # map evt_anchor (filter is_def es)" let ?e = "es ! i"
  have clean: "NUL \<notin> set (str_bytes (evt_anchor (es ! j)))" "NUL \<notin> set (str_bytes (evt_value (es ! j)))"
    if "j < length es" for j
    using assms(1) that by (auto simp: names_clean_def list_all_length)
  have restored: "unbind_name ?names (Some (bound_at es j)) = evt_anchor (es ! j)" if "j < length es" "is_def (es ! j)" for j
    using bound_names_nth [OF that] unbind_bound [OF clean(1) [OF that(1)]] by (simp add: bound_at_def)
  have anchor: "unbind_name ?names (evt_anchor (bound_event es i)) = evt_anchor ?e"
    using restored [OF assms(2)] unbind_free [OF clean(1) [OF assms(2)]]
    by (auto simp: bound_event_def Let_def split: option.split)
  have alias_value: "unbind_name ?names (evt_value (bound_event es i)) = evt_value ?e" if "evt_type ?e = OYL_EVT_ALIAS"
  proof (cases "definition_of es i")
    case None
    then show ?thesis using unbind_free [OF clean(2) [OF assms(2)]] by (simp add: bound_event_def Let_def)
  next
    case (Some j)
    then have j: "j \<in> set (rev [0..<Suc i])" "is_def (es ! j)" "str_bytes (evt_anchor (es ! j)) = str_bytes (evt_value ?e)"
      using find_def_found unfolding definition_of_def by blast+
    then have "evt_anchor (es ! j) = evt_value ?e" by (intro str_bytes_eq) (simp_all add: is_def_def anchored_def)
    moreover have "j < length es" using j(1) assms(2) by auto
    ultimately show ?thesis using Some that restored [of j] j(2) by (simp add: bound_event_def Let_def)
  qed
  have type: "evt_type (bound_event es i) = evt_type ?e" by (simp add: bound_event_def Let_def split: option.split)
  have same: "evt_value (bound_event es i) = evt_value ?e" if "evt_type ?e \<noteq> OYL_EVT_ALIAS"
    using that by (simp add: bound_event_def Let_def)
  have rest: "?e\<lparr>evt_anchor := evt_anchor (bound_event es i), evt_value := evt_value (bound_event es i)\<rparr> = bound_event es i"
    by (simp add: bound_event_def Let_def split: option.split)
  have upd: "f = e\<lparr>evt_anchor := evt_anchor f, evt_value := evt_value f\<rparr> \<Longrightarrow>
      f\<lparr>evt_anchor := evt_anchor e, evt_value := evt_value e\<rparr> = e" for e f :: oyl_event
    by (cases e; cases f) simp
  have "unbind_event ?names (bound_event es i) = (bound_event es i)\<lparr>evt_anchor := evt_anchor ?e, evt_value := evt_value ?e\<rparr>"
    using anchor alias_value type same
    by (cases "evt_type ?e = OYL_EVT_ALIAS"; cases "bound_event es i") (simp_all add: unbind_event_def Let_def)
  also have "\<dots> = ?e" by (rule upd [OF rest [symmetric]])
  finally show ?thesis .
qed

text \<open>
  C16: binding is undone exactly: when the names of the input contain no NUL byte (the scanner stops at
  one), unbinding after a successful binding gives back every event as it was.
\<close>

theorem unbind_undoes_bind:
  assumes "bind_anchors p = Some (OYL_OK, q)" and "names_clean (pa_events p)"
  shows "pa_events (unbind_anchors q) = pa_events p"
proof (rule bind_anchors_cases [of p], goal_cases memory none bound)
  case (memory r)
  then show ?case using assms(1) by simp
next
  case none
  have "unbind_event names e = e" if "e \<in> set (pa_events p)" for names e
    using that assms(2) by (cases e) (auto simp: unbind_event_def names_clean_def list_all_iff unbind_free Let_def)
  then have "map (unbind_event names) (pa_events p) = pa_events p" for names by (simp add: map_idI)
  then show ?case using none assms(1) by (simp add: unbind_anchors_def split: option.split)
next
  case (bound m)
  let ?es = "pa_events p"
  have "map (unbind_event (None # map evt_anchor (filter is_def ?es))) (map (bound_event ?es) [0..<length ?es]) = ?es"
    using unbind_bound_event [OF assms(2)] by (intro nth_equalityI) simp_all
  with bound show ?case using assms(1) by (simp add: unbind_anchors_def)
qed


text \<open>Bound names are different for different definitions.\<close>

lemma bound_name_serial: "bound_name a j = bound_name b k \<Longrightarrow> j = k"
proof -
  have no_nul: "NUL \<notin> set (dec_digits n)" for n using dec_digits_are [of n] by (auto simp: is_dec_digit_def)
  have serial: "dec_digits n = rev (takeWhile (\<lambda>c. c \<noteq> NUL) (rev (bound_name a n)))" for a n
  proof -
    have "takeWhile (\<lambda>c. c \<noteq> NUL) (rev (dec_digits n) @ NUL # rev a) = rev (dec_digits n)"
      using no_nul [of n] by (subst takeWhile_append2) auto
    then show ?thesis by (simp add: bound_name_def)
  qed
  assume "bound_name a j = bound_name b k"
  then have "dec_digits j = dec_digits k" using serial by metis
  then show ?thesis using dec_value_digits by metis
qed

lemma def_count_less:
  "i < j \<Longrightarrow> j \<le> length es \<Longrightarrow> is_def (es ! i) \<Longrightarrow> def_count es i < def_count es j"
  using def_count_le [of "Suc i" j es] by (simp add: def_count_Suc)

lemma bound_at_inj:
  assumes "i < length es" and "j < length es" and "is_def (es ! i)" and "is_def (es ! j)"
    and "bound_at es i = bound_at es j"
  shows "i = j"
proof -
  have "def_count es i = def_count es j"
    using assms bound_name_serial by (fastforce simp: bound_at_def def_count_Suc)
  then show ?thesis using assms def_count_less [of i j es] def_count_less [of j i es] by (metis less_imp_le_nat linorder_neqE_nat nless_le)
qed

lemma no_definition: "\<forall>e\<in>set es. \<not> anchored e \<Longrightarrow> set js \<subseteq> {..<length es} \<Longrightarrow> find_def es name js = None"
  by (induction js) (auto dest: nth_mem)

text \<open>
  C15: binding follows YAML's rule for aliases: after a successful binding an alias has the name of the
  latest definition of its anchor before it (or at it) in the same document, and keeps its own name
  when there is none; and no two definitions have the same name.
\<close>

theorem alias_binds_latest:
  assumes "bind_anchors p = Some (OYL_OK, q)"
  shows "length (pa_events q) = length (pa_events p) \<and>
    (\<forall>i < length (pa_events p). evt_type (pa_events p ! i) = OYL_EVT_ALIAS \<longrightarrow>
       evt_value (pa_events q ! i) =
         (case definition_of (pa_events p) i of
            None \<Rightarrow> evt_value (pa_events p ! i)
          | Some j \<Rightarrow> evt_anchor (pa_events q ! j))) \<and>
    (\<forall>i < length (pa_events p). \<forall>j < length (pa_events p).
       is_def (pa_events p ! i) \<and> is_def (pa_events p ! j) \<and>
       evt_anchor (pa_events q ! i) = evt_anchor (pa_events q ! j) \<longrightarrow> i = j)"
proof (rule bind_anchors_cases [of p], goal_cases memory none bound)
  case (memory r)
  then show ?case using assms by simp
next
  case none
  have "definition_of (pa_events p) i = None" if "i < length (pa_events p)" for i
    using that none(2) unfolding definition_of_def by (intro no_definition) auto
  moreover have "\<not> is_def (pa_events p ! i)" if "i < length (pa_events p)" for i
    using that none(2) by (simp add: is_def_def)
  ultimately show ?case using none(1) assms by auto
next
  case (bound m)
  let ?es = "pa_events p"
  have q: "pa_events q = map (bound_event ?es) [0..<length ?es]" using bound assms by simp
  have anchor: "evt_anchor (bound_event ?es j) = Some (bound_at ?es j)" if "is_def (?es ! j)" for j
    using that by (simp add: bound_event_def Let_def split: option.split)
  have found: "j < length ?es \<and> is_def (?es ! j)" if "definition_of ?es i = Some j" "i < length ?es" for i j
    using find_def_found that unfolding definition_of_def by fastforce
  have "evt_value (bound_event ?es i) = (case definition_of ?es i of
          None \<Rightarrow> evt_value (?es ! i) | Some j \<Rightarrow> evt_anchor (pa_events q ! j))"
    if "i < length ?es" "evt_type (?es ! i) = OYL_EVT_ALIAS" for i
  proof (cases "definition_of ?es i")
    case None
    then show ?thesis using that by (simp add: bound_event_def Let_def)
  next
    case (Some j)
    then show ?thesis using that found [OF Some that(1)] anchor [of j] by (simp add: q) (simp add: bound_event_def Let_def)
  qed
  moreover have "i = j" if "i < length ?es" "j < length ?es" "is_def (?es ! i)" "is_def (?es ! j)"
      "evt_anchor (pa_events q ! i) = evt_anchor (pa_events q ! j)" for i j
    using that bound_at_inj [of i ?es j] by (simp add: q anchor)
  ultimately show ?case by (simp add: q)
qed

text \<open>
  The events of \<open>&a x\<close>, \<open>*a\<close>, \<open>&a y\<close>, \<open>*a\<close>, \<open>*b\<close> in one document, as a sequence.
\<close>

definition anchor_events :: "oyl_event list" where
  "anchor_events =
    [plain_event OYL_EVT_DOC_START, plain_event OYL_EVT_SEQUENCE_START,
     (plain_event OYL_EVT_SCALAR)\<lparr>evt_value := Some [LC_X], evt_anchor := Some [LC_A]\<rparr>,
     (plain_event OYL_EVT_ALIAS)\<lparr>evt_value := Some [LC_A]\<rparr>,
     (plain_event OYL_EVT_SCALAR)\<lparr>evt_value := Some [LC_Z], evt_anchor := Some [LC_A]\<rparr>,
     (plain_event OYL_EVT_ALIAS)\<lparr>evt_value := Some [LC_A]\<rparr>,
     (plain_event OYL_EVT_ALIAS)\<lparr>evt_value := Some [LC_B]\<rparr>,
     plain_event OYL_EVT_SEQUENCE_END, plain_event OYL_EVT_DOC_END]"

definition anchor_parser :: oyl_parser where
  "anchor_parser = (the (oyl_parser_new [] [] False []))\<lparr>pa_events := anchor_events\<rparr>"

definition anchor_bound :: oyl_parser where
  "anchor_bound = snd (the (bind_anchors anchor_parser))"

lemma anchor_bound: "bind_anchors anchor_parser = Some (OYL_OK, anchor_bound)"
proof -
  have "map_option fst (bind_anchors anchor_parser) = Some OYL_OK" by code_simp
  then show ?thesis by (auto simp: anchor_bound_def)
qed


theorem alias_binds_latest_witness:
  "evt_value (pa_events anchor_bound ! 3) = evt_anchor (pa_events anchor_bound ! 2) \<and>
   evt_value (pa_events anchor_bound ! 5) = evt_anchor (pa_events anchor_bound ! 4) \<and>
   evt_value (pa_events anchor_bound ! 6) = Some [LC_B]"
proof -
  have es: "pa_events anchor_parser = anchor_events" by (simp add: anchor_parser_def)
  have defs: "definition_of anchor_events 3 = Some 2" "definition_of anchor_events 5 = Some 4"
    "definition_of anchor_events 6 = None" "evt_value (anchor_events ! 6) = Some [LC_B]"
    by code_simp+
  have aliases: "i \<in> {3, 5, 6} \<Longrightarrow> i < length anchor_events \<and> evt_type (anchor_events ! i) = OYL_EVT_ALIAS" for i
    by (auto simp: anchor_events_def plain_event_def eval_nat_numeral)
  have "i \<in> {3, 5, 6} \<Longrightarrow> evt_value (pa_events anchor_bound ! i) = (case definition_of anchor_events i of
      None \<Rightarrow> evt_value (anchor_events ! i) | Some j \<Rightarrow> evt_anchor (pa_events anchor_bound ! j))" for i
    using alias_binds_latest [OF anchor_bound] aliases [of i] unfolding es by blast
  then show ?thesis using defs by simp
qed

theorem unbind_undoes_bind_witness: "pa_events (unbind_anchors anchor_bound) = anchor_events"
proof -
  have "names_clean (pa_events anchor_parser)" by code_simp
  then show ?thesis using unbind_undoes_bind [OF anchor_bound] by (simp add: anchor_parser_def)
qed

section \<open>Properties of nodes and tables\<close>

text \<open>
  C17: \<open>node_end\<close>, which counts the starts and ends of one type only, gives the end of the whole node:
  at the events of a tree, wherever they stand, it returns the index right behind the last of them.
\<close>

theorem node_end_is_tree_end:
  assumes "node_ok n"
  shows "node_end (before @ node_events n @ behind) (length before) = length (before @ node_events n)"
  using node_end_at [OF assms, of "length before" "before @ node_events n @ behind" behind] by simp

text \<open>A sequence in a mapping in a sequence, followed by another sequence.\<close>

definition nested_node :: oyl_node where
  "nested_node = NSeq (plain_event OYL_EVT_SEQUENCE_START)
     [NMap (plain_event OYL_EVT_MAPPING_START)
        [(NScalar (plain_event OYL_EVT_SCALAR),
          NSeq (plain_event OYL_EVT_SEQUENCE_START) [] (plain_event OYL_EVT_SEQUENCE_END))]
        (plain_event OYL_EVT_MAPPING_END)]
     (plain_event OYL_EVT_SEQUENCE_END)"

theorem node_end_is_tree_end_witness:
  "node_end (plain_event OYL_EVT_DOC_START # node_events nested_node @
     [plain_event OYL_EVT_SEQUENCE_START, plain_event OYL_EVT_SEQUENCE_END]) 1 = 8"
  using node_end_is_tree_end [of nested_node "[plain_event OYL_EVT_DOC_START]"
      "[plain_event OYL_EVT_SEQUENCE_START, plain_event OYL_EVT_SEQUENCE_END]"]
  by (simp add: nested_node_def plain_event_def)

text \<open>The latest anchored event with a name.\<close>

definition last_anchor :: "oyl_event list \<Rightarrow> byte list \<Rightarrow> nat option" where
  "last_anchor events name =
    find (\<lambda>i. anchored (events ! i) \<and> str_bytes (evt_anchor (events ! i)) = name) (rev [0..<length events])"

lemma find_found: "find P xs = Some x \<Longrightarrow> x \<in> set xs \<and> P x"
  by (induction xs) (auto split: if_split_asm)

lemma latest_map:
  "map_option (\<lambda>k. map f is ! k) (latest (map f is) (length is) name) = map_option f (find (\<lambda>i. ma_name (f i) = name) (rev is))"
proof (induction "is" rule: rev_induct)
  case (snoc i "is")
  have "latest (map f (is @ [i])) (length is) name = latest (map f is) (length is) name"
    unfolding latest_def by (rule find_cong) (auto simp: nth_append)
  moreover have "map_option (\<lambda>k. map f (is @ [i]) ! k) (latest (map f is) (length is) name) =
      map_option (\<lambda>k. map f is ! k) (latest (map f is) (length is) name)"
    by (rule option.map_cong0) (auto simp: latest_def nth_append dest!: find_found)
  ultimately show ?case using snoc by (auto simp: latest_Suc nth_append)
qed (simp add: latest_def)

lemma find_filter: "find P (rev (filter Q xs)) = find (\<lambda>x. Q x \<and> P x) (rev xs)"
proof -
  have "find P (filter Q ys) = find (\<lambda>x. Q x \<and> P x) ys" for ys by (induction ys) auto
  then show ?thesis by (simp add: rev_filter)
qed

lemma atbl_lookup_latest:
  assumes "table_ok t" and "at_entries t = map (anchor_entry events) (filter (\<lambda>i. anchored (events ! i)) [0..<length events])"
  shows "map_option (\<lambda>k. at_entries t ! k) (atbl_lookup t name) = map_option (anchor_entry events) (last_anchor events name)"
  using assms latest_map [of "anchor_entry events" "filter (\<lambda>i. anchored (events ! i)) [0..<length events]" name]
  by (simp add: table_ok_def find_filter last_anchor_def anchor_entry_def)



end
