(* ===== verification/OylExpand.thy ===== *)
theory OylExpand
  imports OylAnchors
begin

text \<open>
  The passes over the queued events that expand merge keys and aliases, \<open>src/src/oyl_parser.c\<close>:
  \<open>resolve_merges\<close>, \<open>resolve_aliases\<close>, the search for cycles of anchors and the depth check.

  A range of events is an interval of indices, as in the code. The functions that allocate take the
  oracle and return it; \<open>merge_state\<close> is what the code passes by pointer while it merges.
\<close>

section \<open>The output buffer\<close>

record evt_buf =
  eb_data :: "oyl_event list"
  eb_cap :: nat
  eb_limit :: int
  eb_oom :: bool
  eb_limited :: bool

definition INT_MAX :: int where
  "INT_MAX = 2 ^ 31 - 1"

definition ebuf_init :: "nat \<Rightarrow> int \<Rightarrow> mem \<Rightarrow> evt_buf \<times> mem" where
  "ebuf_init cap limit m =
    (let cap = (if cap < 64 then 64 else cap); (ok, m) = mem_take m
     in (\<lparr>eb_data = [], eb_cap = cap, eb_limit = limit, eb_oom = \<not> ok, eb_limited = False\<rparr>, m))"

definition ebuf_push :: "evt_buf \<Rightarrow> mem \<Rightarrow> oyl_event \<Rightarrow> evt_buf \<times> mem" where
  "ebuf_push b m e =
    (if eb_oom b then (b, m)
     else if eb_limit b > 0 \<and> int (length (eb_data b)) \<ge> eb_limit b
     then (b\<lparr>eb_oom := True, eb_limited := True\<rparr>, m)
     else if length (eb_data b) \<ge> eb_cap b then
       if int (eb_cap b) > INT_MAX div 2 then (b\<lparr>eb_oom := True\<rparr>, m)
       else
         let (ok, m) = mem_take m
         in if \<not> ok then (b\<lparr>eb_oom := True\<rparr>, m)
            else (b\<lparr>eb_cap := eb_cap b * 2, eb_data := eb_data b @ [e]\<rparr>, m)
     else (b\<lparr>eb_data := eb_data b @ [e]\<rparr>, m))"

text \<open>The events from index \<open>a\<close> up to, not including, index \<open>b\<close>.\<close>

definition slice :: "oyl_event list \<Rightarrow> nat \<Rightarrow> nat \<Rightarrow> oyl_event list" where
  "slice events a b = take (b - a) (drop a events)"

fun push_all :: "evt_buf \<Rightarrow> mem \<Rightarrow> oyl_event list \<Rightarrow> evt_buf \<times> mem" where
  "push_all b m [] = (b, m)"
| "push_all b m (e # es) = (let (b, m) = ebuf_push b m e in push_all b m es)"

definition ebuf_push_range :: "evt_buf \<Rightarrow> mem \<Rightarrow> oyl_event list \<Rightarrow> nat \<Rightarrow> nat \<Rightarrow> evt_buf \<times> mem" where
  "ebuf_push_range b m events a z = push_all b m (slice events a z)"

text \<open>Copies carry no anchors.\<close>

definition no_anchor :: "oyl_event \<Rightarrow> oyl_event" where
  "no_anchor e = e\<lparr>evt_anchor := None\<rparr>"

fun copy_events :: "evt_buf \<Rightarrow> mem \<Rightarrow> oyl_event list \<Rightarrow> evt_buf \<times> mem" where
  "copy_events b m [] = (b, m)"
| "copy_events b m (e # es) =
    (if eb_oom b then (b, m)
     else let (b, m) = ebuf_push b m (no_anchor e) in copy_events b m es)"

section \<open>Keys that have been seen\<close>

record key_set =
  ks_keys :: "byte list list"
  ks_cap :: nat

definition kset_init :: key_set where
  "kset_init = \<lparr>ks_keys = [], ks_cap = 0\<rparr>"

definition kset_contains :: "key_set \<Rightarrow> byte list \<Rightarrow> bool" where
  "kset_contains ks key = list_ex (\<lambda>k. k = key) (ks_keys ks)"

definition kset_add :: "key_set \<Rightarrow> mem \<Rightarrow> byte list \<Rightarrow> key_set \<times> mem" where
  "kset_add ks m key =
    (if kset_contains ks key then (ks, m)
     else if length (ks_keys ks) \<ge> ks_cap ks then
       let nc = (if ks_cap ks \<noteq> 0 then ks_cap ks * 2 else 16); (ok, m) = mem_take m
       in if \<not> ok then (ks, m) else (\<lparr>ks_keys = ks_keys ks @ [key], ks_cap = nc\<rparr>, m)
     else (ks\<lparr>ks_keys := ks_keys ks @ [key]\<rparr>, m))"

section \<open>Merge keys\<close>

definition is_merge_key :: "oyl_event \<Rightarrow> bool" where
  "is_merge_key evt \<longleftrightarrow> evt_type evt = OYL_EVT_SCALAR \<and> evt_scalar_style evt = OYL_SCALAR_PLAIN \<and>
     str_bytes (evt_value evt) = [LT, LT]"

text \<open>
  The loop over the pairs of a mapping whose events end before \<open>fin\<close>: the start of the key, the start
  of the value and the end of the value of each.
\<close>

function map_pairs :: "oyl_event list \<Rightarrow> nat \<Rightarrow> nat \<Rightarrow> (nat \<times> nat \<times> nat) list" where
  "map_pairs events fin pos =
    (if pos < fin - 1 then
       let key_end = node_end events pos; val_end = node_end events key_end
       in (pos, key_end, val_end) # map_pairs events fin val_end
     else [])"
  by pat_completeness auto
termination
  by (relation "measure (\<lambda>(events, fin, pos). fin - pos)")
    (auto intro!: diff_less_mono2 intro: less_trans [OF node_end_gt node_end_gt])

declare map_pairs.simps [simp del]

type_synonym merge_state = "evt_buf \<times> key_set \<times> mem"

definition scalar_key :: "oyl_event list \<Rightarrow> nat \<Rightarrow> nat \<Rightarrow> bool" where
  "scalar_key events key_start key_end \<longleftrightarrow>
     key_end - key_start = 1 \<and> evt_type (events ! key_start) = OYL_EVT_SCALAR"

text \<open>One pair of a merged mapping: only scalar keys take part in the override check.\<close>

definition merge_pair :: "oyl_event list \<Rightarrow> nat \<times> nat \<times> nat \<Rightarrow> merge_state \<Rightarrow> merge_state" where
  "merge_pair events pair st =
    (let (key_start, key_end, val_end) = pair; (out, seen, m) = st;
         kv = str_bytes (evt_value (events ! key_start));
         skip = (scalar_key events key_start key_end \<and> kset_contains seen kv);
         (seen, m) = (if scalar_key events key_start key_end \<and> \<not> skip then kset_add seen m kv else (seen, m))
     in if skip then (out, seen, m)
        else let (out, m) = copy_events out m (slice events key_start key_end);
                 (out, m) = copy_events out m (slice events key_end val_end)
             in (out, seen, m))"

definition merge_from_mapping :: "oyl_event list \<Rightarrow> nat \<Rightarrow> nat \<Rightarrow> merge_state \<Rightarrow> merge_state" where
  "merge_from_mapping events map_start map_end st =
    foldl (\<lambda>st pair. merge_pair events pair st) st (map_pairs events map_end (map_start + 1))"

text \<open>The result is the error message, if any, and the state.\<close>

definition merge_source ::
    "oyl_event list \<Rightarrow> nat \<Rightarrow> merge_anchor_table \<Rightarrow> merge_state \<Rightarrow> string option \<times> merge_state" where
  "merge_source events pos anchors st =
    (if evt_type (events ! pos) = OYL_EVT_MAPPING_START
     then (None, merge_from_mapping events pos (node_end events pos) st)
     else if evt_type (events ! pos) = OYL_EVT_ALIAS then
       case atbl_lookup anchors (str_bytes (evt_value (events ! pos))) of
         None \<Rightarrow> (Some ''merge key refers to an undefined anchor'', st)
       | Some k \<Rightarrow>
           let a = at_entries anchors ! k
           in if evt_type (events ! ma_start a) \<noteq> OYL_EVT_MAPPING_START
              then (Some ''merge key must refer to a mapping'', st)
              else (None, merge_from_mapping events (ma_start a) (ma_end a) st)
     else (Some ''merge value must be a mapping or a sequence of mappings'', st))"

function merge_sources ::
    "oyl_event list \<Rightarrow> nat \<Rightarrow> nat \<Rightarrow> merge_anchor_table \<Rightarrow> merge_state \<Rightarrow> string option \<times> merge_state" where
  "merge_sources events pos seq_end anchors st =
    (if pos < seq_end then
       let (err, st) = merge_source events pos anchors st
       in if err \<noteq> None then (err, st) else merge_sources events (node_end events pos) seq_end anchors st
     else (None, st))"
  by pat_completeness auto
termination
  by (relation "measure (\<lambda>(events, pos, seq_end, anchors, st). seq_end - pos)")
    (auto intro!: diff_less_mono2 simp: node_end_gt)

declare merge_sources.simps [simp del]

definition process_merge_value ::
    "oyl_event list \<Rightarrow> nat \<Rightarrow> nat \<Rightarrow> merge_anchor_table \<Rightarrow> merge_state \<Rightarrow> string option \<times> merge_state" where
  "process_merge_value events val_start val_end anchors st =
    (if evt_type (events ! val_start) \<noteq> OYL_EVT_SEQUENCE_START
     then merge_source events val_start anchors st
     else merge_sources events (val_start + 1) (val_end - 1) anchors st)"

section \<open>The budget\<close>

definition expansion_limit :: "oyl_parser \<Rightarrow> nat \<Rightarrow> int" where
  "expansion_limit p unexpanded =
    (if pa_max_events p > 0
     then if pa_max_events p - pa_evt_base p > 1 then pa_max_events p - pa_evt_base p else 1
     else let lim = int unexpanded * 16 + 100000
          in if lim > INT_MAX div 2 then INT_MAX div 2 else lim)"

definition expansion_failed :: "oyl_parser \<Rightarrow> evt_buf \<Rightarrow> oyl_status \<times> oyl_parser" where
  "expansion_failed p b =
    (if \<not> eb_limited b then (OYL_ERR_MEMORY, p)
     else (OYL_ERR_LIMIT, hit_limit p ''alias/merge expansion exceeds the event limit''))"

section \<open>Resolving merges\<close>

text \<open>Pass 1 over a mapping with merge keys records the explicit keys, pass 2 copies their pairs.\<close>

fun record_keys :: "oyl_event list \<Rightarrow> (nat \<times> nat \<times> nat) list \<Rightarrow> key_set \<Rightarrow> mem \<Rightarrow> key_set \<times> mem" where
  "record_keys events [] seen m = (seen, m)"
| "record_keys events ((key_start, key_end, val_end) # pairs) seen m =
    (let (seen, m) =
       (if \<not> is_merge_key (events ! key_start) \<and> scalar_key events key_start key_end
        then kset_add seen m (str_bytes (evt_value (events ! key_start))) else (seen, m))
     in record_keys events pairs seen m)"

fun push_explicit :: "oyl_event list \<Rightarrow> (nat \<times> nat \<times> nat) list \<Rightarrow> evt_buf \<Rightarrow> mem \<Rightarrow> evt_buf \<times> mem" where
  "push_explicit events [] out m = (out, m)"
| "push_explicit events ((key_start, key_end, val_end) # pairs) out m =
    (let (out, m) = (if \<not> is_merge_key (events ! key_start)
                     then ebuf_push_range out m events key_start val_end else (out, m))
     in push_explicit events pairs out m)"

text \<open>Pass 3 processes the merge keys in order; an error comes with the index of its key.\<close>

fun merge_keys ::
    "oyl_event list \<Rightarrow> merge_anchor_table \<Rightarrow> (nat \<times> nat \<times> nat) list \<Rightarrow> merge_state \<Rightarrow>
     (string \<times> nat) option \<times> merge_state" where
  "merge_keys events anchors [] st = (None, st)"
| "merge_keys events anchors ((key_start, key_end, val_end) # pairs) st =
    (if is_merge_key (events ! key_start) then
       case process_merge_value events key_end val_end anchors st of
         (Some err, st) \<Rightarrow> (Some (err, key_start), st)
       | (None, st) \<Rightarrow> merge_keys events anchors pairs st
     else merge_keys events anchors pairs st)"

text \<open>A mapping with merge keys, rebuilt.\<close>

definition rebuild_mapping ::
    "oyl_event list \<Rightarrow> merge_anchor_table \<Rightarrow> nat \<Rightarrow> nat \<Rightarrow> evt_buf \<Rightarrow> mem \<Rightarrow>
     (string \<times> nat) option \<times> evt_buf \<times> mem" where
  "rebuild_mapping events anchors map_start map_end out m =
    (let pairs = map_pairs events map_end (map_start + 1);
         (seen, m) = record_keys events pairs kset_init m;
         (out, m) = ebuf_push out m (events ! map_start);
         (out, m) = push_explicit events pairs out m;
         (err, out, seen, m) = merge_keys events anchors pairs (out, seen, m)
     in if err \<noteq> None then (err, out, m)
        else let (out, m) = ebuf_push out m (events ! (map_end - 1)) in (None, out, m))"

definition has_merge :: "oyl_event list \<Rightarrow> nat \<Rightarrow> nat \<Rightarrow> bool" where
  "has_merge events map_start map_end =
    list_ex (\<lambda>(key_start, key_end, val_end). is_merge_key (events ! key_start))
      (map_pairs events map_end (map_start + 1))"

text \<open>One pass over the events: an error, or the buffer and whether anything changed.\<close>

function merge_pass ::
    "oyl_event list \<Rightarrow> merge_anchor_table \<Rightarrow> nat \<Rightarrow> evt_buf \<Rightarrow> bool \<Rightarrow> mem \<Rightarrow>
     (string \<times> nat) option \<times> evt_buf \<times> bool \<times> mem" where
  "merge_pass events anchors i out changed m =
    (if i < length events \<and> \<not> eb_oom out then
       let map_end = node_end events i
       in if evt_type (events ! i) \<noteq> OYL_EVT_MAPPING_START \<or> \<not> has_merge events i map_end
          then let (out, m) = ebuf_push out m (events ! i)
               in merge_pass events anchors (i + 1) out changed m
          else let (err, out, m) = rebuild_mapping events anchors i map_end out m
               in if err \<noteq> None then (err, out, True, m)
                  else merge_pass events anchors map_end out True m
     else (None, out, changed, m))"
  by pat_completeness auto
termination
  by (relation "measure (\<lambda>(events, anchors, i, out, changed, m). length events - i)")
    (auto intro!: diff_less_mono2 simp: node_end_gt)

declare merge_pass.simps [simp del]

text \<open>The passes; a result \<open>None\<close> would mean that a probe of the anchor table does not end.\<close>

fun merge_passes :: "nat \<Rightarrow> int \<Rightarrow> oyl_parser \<Rightarrow> (oyl_status \<times> oyl_parser) option" where
  "merge_passes 0 limit p = Some (OYL_OK, p)"
| "merge_passes (Suc n) limit p =
    (case atbl_build (pa_events p) (pa_mem p) of
       None \<Rightarrow> None
     | Some (anchors, m) \<Rightarrow>
         let (out, m) = ebuf_init (length (pa_events p) * 2) limit m;
             (err, out, changed, m) = merge_pass (pa_events p) anchors 0 out False m;
             p = p\<lparr>pa_mem := m\<rparr>
         in case err of
              Some (msg, key) \<Rightarrow>
                Some (OYL_ERR_PARSE, p\<lparr>pa_error_msg := msg, pa_error_mark := evt_start (pa_events p ! key)\<rparr>)
            | None \<Rightarrow>
                if eb_oom out then Some (expansion_failed p out)
                else if \<not> changed then Some (OYL_OK, p)
                else merge_passes n limit
                       (p\<lparr>pa_events := eb_data out, pa_evt_cap := eb_cap out, pa_evt_cursor := 0\<rparr>))"

definition MAX_MERGE_PASSES :: nat where
  "MAX_MERGE_PASSES = 32"

definition resolve_merges :: "oyl_parser \<Rightarrow> (oyl_status \<times> oyl_parser) option" where
  "resolve_merges p = merge_passes MAX_MERGE_PASSES (expansion_limit p (length (pa_events p))) p"

section \<open>Cycles of anchors\<close>

datatype cycle_color = ACYCLE_WHITE | ACYCLE_GRAY | ACYCLE_BLACK

text \<open>
  The depth-first search; its fuel is the number of nested calls it may make, and every call turns one
  more entry gray. Of the events, \<open>cycle_loop\<close> has those of the entry that are still to be looked at.
\<close>

function alias_has_cycle ::
    "nat \<Rightarrow> nat \<Rightarrow> merge_anchor_table \<Rightarrow> cycle_color list \<Rightarrow> oyl_event list \<Rightarrow> (bool \<times> cycle_color list) option"
  and cycle_loop ::
    "nat \<Rightarrow> oyl_event list \<Rightarrow> merge_anchor_table \<Rightarrow> cycle_color list \<Rightarrow> oyl_event list \<Rightarrow> (bool \<times> cycle_color list) option"
  where
  "alias_has_cycle 0 idx t color events = None"
| "alias_has_cycle (Suc n) idx t color events =
    (let color = color[idx := ACYCLE_GRAY]; a = at_entries t ! idx
     in case cycle_loop n (slice events (ma_start a) (ma_end a)) t color events of
          None \<Rightarrow> None
        | Some (True, color) \<Rightarrow> Some (True, color)
        | Some (False, color) \<Rightarrow> Some (False, color[idx := ACYCLE_BLACK]))"
| "cycle_loop n [] t color events = Some (False, color)"
| "cycle_loop n (e # es) t color events =
    (if evt_type e \<noteq> OYL_EVT_ALIAS then cycle_loop n es t color events
     else
       case atbl_lookup t (str_bytes (evt_value e)) of
         None \<Rightarrow> cycle_loop n es t color events
       | Some k \<Rightarrow>
           if color ! k = ACYCLE_GRAY then Some (True, color)
           else if color ! k = ACYCLE_WHITE then
             case alias_has_cycle n k t color events of
               None \<Rightarrow> None
             | Some (True, color) \<Rightarrow> Some (True, color)
             | Some (False, color) \<Rightarrow> cycle_loop n es t color events
           else cycle_loop n es t color events)"
  by pat_completeness auto
termination
  by (relation "inv_image (less_than <*lex*> less_than)
       (\<lambda>x. case x of Inl (n, idx, t, color, events) \<Rightarrow> (2 * n, 0)
                    | Inr (n, es, t, color, events) \<Rightarrow> (2 * n + 1, length es))") auto

text \<open>The loop over the entries: the cyclic flags at its end.\<close>

fun detect_cycles ::
    "nat list \<Rightarrow> merge_anchor_table \<Rightarrow> cycle_color list \<Rightarrow> bool list \<Rightarrow> oyl_event list \<Rightarrow> bool list option" where
  "detect_cycles [] t color cyclic events = Some cyclic"
| "detect_cycles (i # is) t color cyclic events =
    (if color ! i = ACYCLE_WHITE then
       case alias_has_cycle (length (at_entries t)) i t color events of
         None \<Rightarrow> None
       | Some (found, color) \<Rightarrow>
           detect_cycles is t color
             (if found then map2 (\<lambda>c old. c = ACYCLE_GRAY \<or> old) color cyclic else cyclic) events
     else detect_cycles is t color cyclic events)"

definition is_cyclic_name :: "merge_anchor_table \<Rightarrow> bool list \<Rightarrow> byte list \<Rightarrow> bool" where
  "is_cyclic_name t cyclic name = (case atbl_lookup t name of None \<Rightarrow> False | Some k \<Rightarrow> cyclic ! k)"

section \<open>The depth of the finished events\<close>

fun depth_exceeded :: "int \<Rightarrow> int \<Rightarrow> oyl_event list \<Rightarrow> bool" where
  "depth_exceeded lim depth [] = False"
| "depth_exceeded lim depth (e # es) =
    (if evt_type e = OYL_EVT_MAPPING_START \<or> evt_type e = OYL_EVT_SEQUENCE_START
     then if depth + 1 > lim then True else depth_exceeded lim (depth + 1) es
     else if evt_type e = OYL_EVT_MAPPING_END \<or> evt_type e = OYL_EVT_SEQUENCE_END
     then depth_exceeded lim (depth - 1) es
     else depth_exceeded lim depth es)"

definition check_eager_depth :: "oyl_parser \<Rightarrow> oyl_status \<times> oyl_parser" where
  "check_eager_depth p =
    (if pa_max_depth p \<le> 0 then (OYL_OK, p)
     else if depth_exceeded (pa_max_depth p) 0 (pa_events p)
     then (OYL_ERR_LIMIT, hit_limit p
            (if pa_merge_enabled p \<or> pa_resolve_enabled p
             then ''nesting depth limit exceeded after alias/merge expansion''
             else ''nesting depth limit exceeded''))
     else (OYL_OK, p))"

section \<open>Resolving aliases\<close>

fun alias_pass ::
    "oyl_event list \<Rightarrow> merge_anchor_table \<Rightarrow> bool list \<Rightarrow> oyl_event list \<Rightarrow> evt_buf \<Rightarrow> bool \<Rightarrow> mem \<Rightarrow>
     evt_buf \<times> bool \<times> mem" where
  "alias_pass events anchors cyclic [] out changed m = (out, changed, m)"
| "alias_pass events anchors cyclic (e # es) out changed m =
    (if eb_oom out then (out, changed, m)
     else if evt_type e \<noteq> OYL_EVT_ALIAS
     then let (out, m) = ebuf_push out m e in alias_pass events anchors cyclic es out changed m
     else
       case atbl_lookup anchors (str_bytes (evt_value e)) of
         None \<Rightarrow> let (out, m) = ebuf_push out m e in alias_pass events anchors cyclic es out changed m
       | Some k \<Rightarrow>
           if is_cyclic_name anchors cyclic (str_bytes (evt_value e))
           then let (out, m) = ebuf_push out m e in alias_pass events anchors cyclic es out changed m
           else let a = at_entries anchors ! k;
                    (out, m) = copy_events out m (slice events (ma_start a) (ma_end a))
                in alias_pass events anchors cyclic es out True m)"

fun alias_passes :: "nat \<Rightarrow> int \<Rightarrow> bool list \<Rightarrow> oyl_parser \<Rightarrow> (oyl_status \<times> oyl_parser) option" where
  "alias_passes 0 limit cyclic p = Some (OYL_OK, p)"
| "alias_passes (Suc n) limit cyclic p =
    (case atbl_build (pa_events p) (pa_mem p) of
       None \<Rightarrow> None
     | Some (anchors, m) \<Rightarrow>
         let (out, m) = ebuf_init (length (pa_events p) * 2) limit m;
             (out, changed, m) = alias_pass (pa_events p) anchors cyclic (pa_events p) out False m;
             p = p\<lparr>pa_mem := m\<rparr>
         in if eb_oom out then Some (expansion_failed p out)
            else if \<not> changed then Some (OYL_OK, p)
            else alias_passes n limit cyclic
                   (p\<lparr>pa_events := eb_data out, pa_evt_cap := eb_cap out, pa_evt_cursor := 0\<rparr>))"

definition resolve_aliases :: "oyl_parser \<Rightarrow> (oyl_status \<times> oyl_parser) option" where
  "resolve_aliases p =
    (case atbl_build (pa_events p) (pa_mem p) of
       None \<Rightarrow> None
     | Some (anchors, m) \<Rightarrow>
         let n = length (at_entries anchors); p = p\<lparr>pa_mem := m\<rparr>
         in if n = 0 then Some (OYL_OK, p)
            else
              let (ok1, m) = mem_take m; (ok2, m) = mem_take m; p = p\<lparr>pa_mem := m\<rparr>
              in if \<not> (ok1 \<and> ok2) then Some (OYL_ERR_MEMORY, p)
                 else case detect_cycles [0..<n] anchors (replicate n ACYCLE_WHITE) (replicate n False) (pa_events p) of
                        None \<Rightarrow> None
                      | Some cyclic \<Rightarrow>
                          alias_passes 32 (expansion_limit p (length (pa_events p))) cyclic p)"


section \<open>The budget holds\<close>

text \<open>A buffer within its array and its limit.\<close>

definition ebuf_ok :: "int \<Rightarrow> evt_buf \<Rightarrow> bool" where
  "ebuf_ok limit b \<longleftrightarrow> eb_limit b = limit \<and> length (eb_data b) \<le> eb_cap b \<and> 0 < eb_cap b \<and>
     (0 < limit \<longrightarrow> int (length (eb_data b)) \<le> limit)"

named_theorems ebuf_keeps \<open>the operations that keep a buffer within its array and its limit\<close>

lemma ebuf_init_ok [ebuf_keeps]: "ebuf_init cap limit m = (b, m') \<Longrightarrow> ebuf_ok limit b"
  by (auto simp: ebuf_init_def ebuf_ok_def Let_def split: prod.splits)

lemma ebuf_push_ok [ebuf_keeps]: "ebuf_push b m e = (b', m') \<Longrightarrow> ebuf_ok limit b \<Longrightarrow> ebuf_ok limit b'"
  by (auto simp: ebuf_push_def ebuf_ok_def Let_def Suc_le_eq split: if_split_asm prod.splits)

lemma push_all_ok: "push_all b m es = (b', m') \<Longrightarrow> ebuf_ok limit b \<Longrightarrow> ebuf_ok limit b'"
  by (induction es arbitrary: b m) (auto split: prod.splits intro: ebuf_keeps)

lemma ebuf_push_range_ok [ebuf_keeps]:
  "ebuf_push_range b m events a z = (b', m') \<Longrightarrow> ebuf_ok limit b \<Longrightarrow> ebuf_ok limit b'"
  by (simp add: ebuf_push_range_def push_all_ok)

lemma copy_events_ok [ebuf_keeps]:
  "copy_events b m es = (b', m') \<Longrightarrow> ebuf_ok limit b \<Longrightarrow> ebuf_ok limit b'"
  by (induction es arbitrary: b m) (auto split: prod.splits if_split_asm intro: ebuf_keeps)

lemma merge_pair_ok: "ebuf_ok limit (fst st) \<Longrightarrow> ebuf_ok limit (fst (merge_pair events pair st))"
  by (auto simp: merge_pair_def Let_def split: prod.splits) (blast intro: ebuf_keeps)+

lemma merge_from_mapping_ok:
  "ebuf_ok limit (fst st) \<Longrightarrow> ebuf_ok limit (fst (merge_from_mapping events a z st))"
proof -
  have "ebuf_ok limit (fst st) \<Longrightarrow> ebuf_ok limit (fst (foldl (\<lambda>st pair. merge_pair events pair st) st pairs))" for pairs
    by (induction pairs arbitrary: st) (simp_all add: merge_pair_ok)
  then show "ebuf_ok limit (fst st) \<Longrightarrow> ?thesis" by (simp add: merge_from_mapping_def)
qed

lemma merge_source_ok: "ebuf_ok limit (fst st) \<Longrightarrow> ebuf_ok limit (fst (snd (merge_source events pos anchors st)))"
  by (auto simp: merge_source_def Let_def merge_from_mapping_ok split: option.split)

lemma merge_sources_ok:
  "ebuf_ok limit (fst st) \<Longrightarrow> ebuf_ok limit (fst (snd (merge_sources events pos fin anchors st)))"
proof (induction events pos fin anchors st rule: merge_sources.induct)
  case (1 events pos fin anchors st)
  then show ?case using merge_source_ok [of limit st events pos anchors]
    by (subst merge_sources.simps) (auto split: prod.splits)
qed

lemma process_merge_value_ok:
  "ebuf_ok limit (fst st) \<Longrightarrow> ebuf_ok limit (fst (snd (process_merge_value events a z anchors st)))"
  by (simp add: process_merge_value_def merge_source_ok merge_sources_ok)

lemma merge_keys_ok: "ebuf_ok limit (fst st) \<Longrightarrow> ebuf_ok limit (fst (snd (merge_keys events anchors pairs st)))"
proof (induction pairs arbitrary: st)
  case (Cons pair pairs)
  obtain a k v where pair: "pair = (a, k, v)" by (cases pair)
  show ?case using Cons process_merge_value_ok [of limit st events k v anchors]
    by (auto simp: pair split: prod.splits option.splits)
qed simp

lemma push_explicit_ok [ebuf_keeps]:
  "push_explicit events pairs b m = (b', m') \<Longrightarrow> ebuf_ok limit b \<Longrightarrow> ebuf_ok limit b'"
  by (induction events pairs b m rule: push_explicit.induct) (auto split: prod.splits if_split_asm, blast intro: ebuf_keeps)

lemma rebuild_mapping_ok [ebuf_keeps]:
  assumes "rebuild_mapping events anchors a z b m = (err, b', m')" and "ebuf_ok limit b"
  shows "ebuf_ok limit b'"
proof -
  let ?pairs = "map_pairs events z (a + 1)"
  obtain seen m1 b1 m2 b2 m3 err1 b3 seen1 m4 where
    1: "record_keys events ?pairs kset_init m = (seen, m1)" "ebuf_push b m1 (events ! a) = (b1, m2)"
       "push_explicit events ?pairs b1 m2 = (b2, m3)" "merge_keys events anchors ?pairs (b2, seen, m3) = (err1, b3, seen1, m4)"
    by (metis surj_pair)
  have "ebuf_ok limit b2" using 1(2,3) assms(2) by (blast intro: ebuf_keeps)
  then have "ebuf_ok limit b3" using merge_keys_ok [of limit "(b2, seen, m3)" events anchors ?pairs] 1(4) by simp
  then show ?thesis using assms(1) 1
    by (auto simp: rebuild_mapping_def Let_def split: if_split_asm prod.splits intro: ebuf_keeps)
qed

lemma merge_pass_ok [ebuf_keeps]:
  "merge_pass events anchors i b changed m = (err, b', changed', m') \<Longrightarrow> ebuf_ok limit b \<Longrightarrow> ebuf_ok limit b'"
proof (induction events anchors i b changed m rule: merge_pass.induct)
  case (1 events anchors i b changed m)
  show ?case
  proof (cases "i < length events \<and> \<not> eb_oom b")
    case True
    show ?thesis
    proof (cases "evt_type (events ! i) \<noteq> OYL_EVT_MAPPING_START \<or> \<not> has_merge events i (node_end events i)")
      case plain: True
      obtain b1 m1 where "ebuf_push b m (events ! i) = (b1, m1)" by fastforce
      with 1 True plain show ?thesis by (simp add: merge_pass.simps [of events anchors i]) (blast intro: ebuf_keeps)
    next
      case False
      obtain err1 b1 m1 where r: "rebuild_mapping events anchors i (node_end events i) b m = (err1, b1, m1)"
        by (metis surj_pair)
      then have "ebuf_ok limit b1" using 1(4) by (rule rebuild_mapping_ok)
      with 1 True False r show ?thesis
        by (simp add: merge_pass.simps [of events anchors i] split: if_split_asm)
    qed
  next
    case False
    then show ?thesis using 1 by (auto simp: merge_pass.simps [of events anchors i])
  qed
qed

lemma alias_pass_ok [ebuf_keeps]:
  "alias_pass events anchors cyclic es b changed m = (b', changed', m') \<Longrightarrow> ebuf_ok limit b \<Longrightarrow> ebuf_ok limit b'"
proof (induction es arbitrary: b changed m)
  case (Cons e es)
  obtain b1 m1 where p: "ebuf_push b m e = (b1, m1)" by fastforce
  show ?case
    using Cons p ebuf_push_ok [OF p, of limit] copy_events_ok [of b m _ _ _ limit]
    by (fastforce simp: Let_def split: if_split_asm option.splits prod.splits)
qed simp


lemma expansion_limit_pos: "0 < expansion_limit p n"
  by (simp add: expansion_limit_def INT_MAX_def Let_def)

lemma expansion_failed_events: "expansion_failed p b = (st, q) \<Longrightarrow> pa_events q = pa_events p \<and> pa_evt_cap q = pa_evt_cap p"
  by (auto simp: expansion_failed_def hit_limit_def stop_with_def Let_def split: if_split_asm)

text \<open>
  A pass keeps the array of events or replaces it by its buffer; \<open>pass_result\<close> says so for any number
  of passes.
\<close>

definition pass_result :: "int \<Rightarrow> oyl_parser \<Rightarrow> oyl_parser \<Rightarrow> bool" where
  "pass_result limit p q \<longleftrightarrow> pa_events q = pa_events p \<and> pa_evt_cap q = pa_evt_cap p \<or>
     length (pa_events q) \<le> pa_evt_cap q \<and> int (length (pa_events q)) \<le> limit"

lemma pass_result_step:
  assumes "ebuf_ok limit out" and "0 < limit"
    and "pass_result limit (p\<lparr>pa_mem := m, pa_events := eb_data out, pa_evt_cap := eb_cap out, pa_evt_cursor := 0\<rparr>) q"
  shows "pass_result limit p q"
  using assms by (auto simp: pass_result_def ebuf_ok_def)

lemma merge_passes_result:
  assumes "0 < limit"
  shows "\<exists>st q. merge_passes n limit p = Some (st, q) \<and> pass_result limit p q"
proof (induction n arbitrary: p)
  case (Suc n)
  obtain anchors m where t: "atbl_build (pa_events p) (pa_mem p) = Some (anchors, m)"
    by (rule atbl_build_ok [of "pa_events p" "pa_mem p"])
  obtain out m1 err out1 changed m2 where 1: "ebuf_init (length (pa_events p) * 2) limit m = (out, m1)"
      "merge_pass (pa_events p) anchors 0 out False m1 = (err, out1, changed, m2)" by (metis surj_pair)
  have out1: "ebuf_ok limit out1" using 1 by (blast intro: ebuf_keeps)
  let ?p = "p\<lparr>pa_mem := m2\<rparr>"
  obtain st q where failed: "expansion_failed ?p out1 = (st, q)" by fastforce
  show ?case
  proof (cases err)
    case (Some e)
    then show ?thesis using t 1 by (cases e) (simp add: pass_result_def)
  next
    case None
    consider "eb_oom out1" | "\<not> eb_oom out1" "\<not> changed" | "\<not> eb_oom out1" "changed" by blast
    then show ?thesis
    proof cases
      case 1
      then show ?thesis using t \<open>ebuf_init _ _ _ = _\<close> \<open>merge_pass _ _ _ _ _ _ = _\<close> None failed expansion_failed_events [OF failed]
        by (simp add: pass_result_def)
    next
      case 2
      then show ?thesis using t \<open>ebuf_init _ _ _ = _\<close> \<open>merge_pass _ _ _ _ _ _ = _\<close> None by (simp add: pass_result_def)
    next
      case 3
      then show ?thesis using t \<open>ebuf_init _ _ _ = _\<close> \<open>merge_pass _ _ _ _ _ _ = _\<close> None
          Suc [of "?p\<lparr>pa_events := eb_data out1, pa_evt_cap := eb_cap out1, pa_evt_cursor := 0\<rparr>"]
          pass_result_step [OF out1 assms] by auto
    qed
  qed
qed (simp add: pass_result_def)

lemma alias_passes_result:
  assumes "0 < limit"
  shows "\<exists>st q. alias_passes n limit cyclic p = Some (st, q) \<and> pass_result limit p q"
proof (induction n arbitrary: p)
  case (Suc n)
  obtain anchors m where t: "atbl_build (pa_events p) (pa_mem p) = Some (anchors, m)"
    by (rule atbl_build_ok [of "pa_events p" "pa_mem p"])
  obtain out m1 out1 changed m2 where 1: "ebuf_init (length (pa_events p) * 2) limit m = (out, m1)"
      "alias_pass (pa_events p) anchors cyclic (pa_events p) out False m1 = (out1, changed, m2)" by (metis surj_pair)
  have out1: "ebuf_ok limit out1" using 1 by (blast intro: ebuf_keeps)
  let ?p = "p\<lparr>pa_mem := m2\<rparr>"
  obtain st q where failed: "expansion_failed ?p out1 = (st, q)" by fastforce
  consider "eb_oom out1" | "\<not> eb_oom out1" "\<not> changed" | "\<not> eb_oom out1" "changed" by blast
  then show ?case
  proof cases
    case 1
    then show ?thesis using t \<open>ebuf_init _ _ _ = _\<close> \<open>alias_pass _ _ _ _ _ _ _ = _\<close> failed expansion_failed_events [OF failed]
      by (simp add: pass_result_def)
  next
    case 2
    then show ?thesis using t \<open>ebuf_init _ _ _ = _\<close> \<open>alias_pass _ _ _ _ _ _ _ = _\<close> by (simp add: pass_result_def)
  next
    case 3
    then show ?thesis using t \<open>ebuf_init _ _ _ = _\<close> \<open>alias_pass _ _ _ _ _ _ _ = _\<close>
        Suc [of "?p\<lparr>pa_events := eb_data out1, pa_evt_cap := eb_cap out1, pa_evt_cursor := 0\<rparr>"]
        pass_result_step [OF out1 assms] by auto
  qed
qed (simp add: pass_result_def)

section \<open>The depth check\<close>

text \<open>The depth after a number of events.\<close>

definition event_depth :: "oyl_event list \<Rightarrow> int" where
  "event_depth es = (\<Sum>e\<leftarrow>es. if evt_type e = OYL_EVT_MAPPING_START \<or> evt_type e = OYL_EVT_SEQUENCE_START then 1
     else if evt_type e = OYL_EVT_MAPPING_END \<or> evt_type e = OYL_EVT_SEQUENCE_END then - 1 else 0)"

lemma depth_exceeded_iff:
  "depth \<le> lim \<Longrightarrow> depth_exceeded lim depth es \<longleftrightarrow> (\<exists>i \<le> length es. depth + event_depth (take i es) > lim)"
proof (induction es arbitrary: depth)
  case Nil
  then show ?case by (simp add: event_depth_def)
next
  case (Cons e es)
  let ?d = "event_depth [e]"
  have split: "(\<exists>i \<le> length (e # es). depth + event_depth (take i (e # es)) > lim) \<longleftrightarrow>
      (\<exists>i \<le> length es. (depth + ?d) + event_depth (take i es) > lim)"
  proof
    assume "\<exists>i \<le> length (e # es). depth + event_depth (take i (e # es)) > lim"
    then obtain i where i: "i \<le> length (e # es)" "depth + event_depth (take i (e # es)) > lim" by blast
    with Cons.prems obtain j where "i = Suc j" by (cases i) (auto simp: event_depth_def)
    with i show "\<exists>i \<le> length es. (depth + ?d) + event_depth (take i es) > lim"
      by (intro exI [of _ j]) (simp add: event_depth_def)
  next
    assume "\<exists>i \<le> length es. (depth + ?d) + event_depth (take i es) > lim"
    then obtain i where "i \<le> length es" "(depth + ?d) + event_depth (take i es) > lim" by blast
    then show "\<exists>i \<le> length (e # es). depth + event_depth (take i (e # es)) > lim"
      by (intro exI [of _ "Suc i"]) (simp add: event_depth_def)
  qed
  show ?case
  proof (cases "depth + ?d > lim")
    case True
    then have "depth_exceeded lim depth (e # es)" using Cons.prems by (auto simp: event_depth_def split: if_split_asm)
    moreover have "\<exists>i \<le> length es. (depth + ?d) + event_depth (take i es) > lim"
      using True by (intro exI [of _ 0]) (simp add: event_depth_def)
    ultimately show ?thesis using split by blast
  next
    case False
    then have "depth_exceeded lim depth (e # es) = depth_exceeded lim (depth + ?d) es"
      by (auto simp: event_depth_def)
    then show ?thesis using Cons.IH [of "depth + ?d"] False split by simp
  qed
qed

end
