(* ===== verification/OylCycles.thy ===== *)
theory OylCycles
  imports OylExpand
begin

text \<open>
  The search for cycles of anchors (\<open>alias_has_cycle\<close>, \<open>resolve_aliases\<close>): it ends, and it flags exactly
  the anchors from which a cycle of aliases can be reached. What is not flagged is well-founded, with
  chains no longer than the number of anchors; the expansion of aliases rests on that.
\<close>

section \<open>The graph of the anchors\<close>

text \<open>The entries that aliases among some events refer to.\<close>

definition alias_targets :: "merge_anchor_table \<Rightarrow> oyl_event list \<Rightarrow> nat list" where
  "alias_targets t es = List.map_filter
     (\<lambda>e. if evt_type e = OYL_EVT_ALIAS then atbl_lookup t (str_bytes (evt_value e)) else None) es"

definition entry_events :: "merge_anchor_table \<Rightarrow> oyl_event list \<Rightarrow> nat \<Rightarrow> oyl_event list" where
  "entry_events t events k = slice events (ma_start (at_entries t ! k)) (ma_end (at_entries t ! k))"

text \<open>An anchored node contains an alias of another.\<close>

definition refers :: "merge_anchor_table \<Rightarrow> oyl_event list \<Rightarrow> (nat \<times> nat) set" where
  "refers t events = {(k, j). k < length (at_entries t) \<and> j \<in> set (alias_targets t (entry_events t events k))}"

definition reaches_cycle :: "('a \<times> 'a) set \<Rightarrow> 'a \<Rightarrow> bool" where
  "reaches_cycle R k \<longleftrightarrow> (\<exists>j. (k, j) \<in> R\<^sup>* \<and> (j, j) \<in> R\<^sup>+)"

text \<open>All chains from an anchor have fewer than \<open>n\<close> steps.\<close>

fun within :: "('a \<times> 'a) set \<Rightarrow> nat \<Rightarrow> 'a \<Rightarrow> bool" where
  "within R 0 k = False"
| "within R (Suc n) k = (\<forall>j. (k, j) \<in> R \<longrightarrow> within R n j)"

lemma within_mono: "within R n k \<Longrightarrow> n \<le> m \<Longrightarrow> within R m k"
proof (induction n arbitrary: m k)
  case (Suc n)
  then obtain l where "m = Suc l" "n \<le> l" by (cases m) auto
  with Suc show ?case by auto
qed simp

lemma within_no_cycle: "within R n k \<Longrightarrow> (k, k) \<notin> R\<^sup>+"
proof (induction n arbitrary: k)
  case (Suc n)
  show ?case
  proof
    assume "(k, k) \<in> R\<^sup>+"
    then obtain j where "(k, j) \<in> R" "(j, k) \<in> R\<^sup>*" by (blast dest: tranclD)
    then have "within R n j" "(j, j) \<in> R\<^sup>+" using Suc.prems by auto
    with Suc.IH show False by blast
  qed
qed simp

lemma within_reaches: "(k, j) \<in> R\<^sup>* \<Longrightarrow> within R n k \<Longrightarrow> \<exists>m. within R m j"
proof (induction arbitrary: n rule: converse_rtrancl_induct)
  case (step k l)
  then show ?case by (cases n) auto
qed blast

lemma within_safe: "within R n k \<Longrightarrow> \<not> reaches_cycle R k"
proof
  assume "within R n k" "reaches_cycle R k"
  then obtain j where j: "(k, j) \<in> R\<^sup>*" "(j, j) \<in> R\<^sup>+" by (auto simp: reaches_cycle_def)
  then obtain m where "within R m j" using within_reaches [OF j(1) \<open>within R n k\<close>] by blast
  then show False using within_no_cycle j(2) by metis
qed

lemma reaches_step: "(k, j) \<in> R \<Longrightarrow> reaches_cycle R j \<Longrightarrow> reaches_cycle R k"
  unfolding reaches_cycle_def by (meson converse_rtrancl_into_rtrancl)

lemma reaches_path: "(k, j) \<in> R\<^sup>* \<Longrightarrow> reaches_cycle R j \<Longrightarrow> reaches_cycle R k"
  unfolding reaches_cycle_def by (meson rtrancl_trans)

section \<open>The search\<close>

definition color_count :: "cycle_color \<Rightarrow> cycle_color list \<Rightarrow> nat" where
  "color_count c colors = length (filter (\<lambda>x. x = c) colors)"

lemma color_count_simps [simp]:
  "color_count c [] = 0"
  "color_count c (x # xs) = (if x = c then Suc (color_count c xs) else color_count c xs)"
  by (simp_all add: color_count_def)

lemma color_count_update:
  "k < length colors \<Longrightarrow> color_count c (colors[k := d]) + (if colors ! k = c then 1 else 0) =
     color_count c colors + (if d = c then 1 else 0)"
proof (induction colors arbitrary: k)
  case (Cons x xs)
  show ?case
  proof (cases k)
    case (Suc i)
    then have "color_count c (xs[i := d]) + (if xs ! i = c then 1 else 0) = color_count c xs + (if d = c then 1 else 0)"
      using Cons.IH [of i] Cons.prems by simp
    with Suc show ?thesis by (cases "x = c"; cases "xs ! i = c"; cases "d = c") simp_all
  qed simp
qed simp

text \<open>Black entries are settled, with chains shorter than their number, gray ones are settled or lead on.\<close>

definition settled :: "(nat \<times> nat) set \<Rightarrow> nat \<Rightarrow> cycle_color list \<Rightarrow> bool" where
  "settled R n colors \<longleftrightarrow> length colors = n \<and>
     (\<forall>k < n. colors ! k = ACYCLE_BLACK \<longrightarrow> within R (color_count ACYCLE_BLACK colors) k)"

definition grays_lead_to :: "(nat \<times> nat) set \<Rightarrow> nat \<Rightarrow> cycle_color list \<Rightarrow> bool" where
  "grays_lead_to R idx colors \<longleftrightarrow>
     (\<forall>g < length colors. colors ! g = ACYCLE_GRAY \<longrightarrow> reaches_cycle R g \<or> (g, idx) \<in> R\<^sup>*)"

definition grays_cyclic :: "(nat \<times> nat) set \<Rightarrow> cycle_color list \<Rightarrow> bool" where
  "grays_cyclic R colors \<longleftrightarrow> (\<forall>g < length colors. colors ! g = ACYCLE_GRAY \<longrightarrow> reaches_cycle R g)"

text \<open>What a call does to the colors: those that are not white stay; what it adds is black, or a cycle was found.\<close>

definition searched :: "(nat \<times> nat) set \<Rightarrow> nat \<Rightarrow> cycle_color list \<Rightarrow> bool \<Rightarrow> cycle_color list \<Rightarrow> bool" where
  "searched R n colors found colors' \<longleftrightarrow> settled R n colors' \<and>
     (\<forall>k < n. colors ! k \<noteq> ACYCLE_WHITE \<longrightarrow> colors' ! k = colors ! k) \<and>
     color_count ACYCLE_WHITE colors' \<le> color_count ACYCLE_WHITE colors \<and>
     (found \<longrightarrow> grays_cyclic R colors') \<and>
     (\<not> found \<longrightarrow> (\<forall>k < n. colors' ! k = ACYCLE_GRAY \<longrightarrow> colors ! k = ACYCLE_GRAY))"

lemma searched_refl: "settled R n colors \<Longrightarrow> searched R n colors False colors"
  by (simp add: searched_def)

lemma searched_trans:
  "searched R n c1 False c2 \<Longrightarrow> searched R n c2 found c3 \<Longrightarrow> searched R n c1 found c3"
  unfolding searched_def by (metis le_trans cycle_color.distinct)

lemma gray_stays: "searched R n c1 found c2 \<Longrightarrow> k < n \<Longrightarrow> c1 ! k \<noteq> ACYCLE_WHITE \<Longrightarrow> c2 ! k = c1 ! k"
  by (simp add: searched_def)

lemma searched_leads:
  "searched R n c1 False c2 \<Longrightarrow> settled R n c1 \<Longrightarrow> grays_lead_to R idx c1 \<Longrightarrow> grays_lead_to R idx c2"
  by (auto simp: searched_def grays_lead_to_def settled_def)

lemma alias_targets_Cons:
  "alias_targets t (e # es) =
    (if evt_type e = OYL_EVT_ALIAS
     then case atbl_lookup t (str_bytes (evt_value e)) of None \<Rightarrow> alias_targets t es | Some k \<Rightarrow> k # alias_targets t es
     else alias_targets t es)"
  by (auto simp: alias_targets_def List.map_filter_simps split: option.split)

lemma lookup_range: "table_ok t \<Longrightarrow> atbl_lookup t name = Some k \<Longrightarrow> k < length (at_entries t)"
  by (auto simp: table_ok_def latest_def dest!: find_found)


text \<open>Turning an entry gray at the start of a call, and black at its end.\<close>

lemma settled_gray:
  assumes "settled R n colors" and "idx < n" and "colors ! idx = ACYCLE_WHITE"
  shows "settled R n (colors[idx := ACYCLE_GRAY])"
  using assms color_count_update [of idx colors ACYCLE_BLACK ACYCLE_GRAY]
  by (auto simp: settled_def nth_list_update)

lemma settled_black:
  assumes "settled R n colors" and "idx < n" and "colors ! idx = ACYCLE_GRAY"
    and "\<And>j. (idx, j) \<in> R \<Longrightarrow> j < n \<and> colors ! j = ACYCLE_BLACK"
  shows "settled R n (colors[idx := ACYCLE_BLACK])"
proof -
  let ?b = "color_count ACYCLE_BLACK colors"
  have len: "length colors = n" using assms(1) by (simp add: settled_def)
  then have count: "color_count ACYCLE_BLACK (colors[idx := ACYCLE_BLACK]) = Suc ?b"
    using color_count_update [of idx colors ACYCLE_BLACK ACYCLE_BLACK] assms(2,3) by simp
  have black: "within R ?b k" if "k < n" "colors ! k = ACYCLE_BLACK" for k
    using assms(1) that by (simp add: settled_def)
  have "within R (Suc ?b) k" if "k < n" "colors[idx := ACYCLE_BLACK] ! k = ACYCLE_BLACK" for k
  proof (cases "k = idx")
    case True
    then show ?thesis using assms(4) black by simp
  next
    case False
    then show ?thesis using black that within_mono [of R ?b k "Suc ?b"] by simp
  qed
  then show ?thesis by (simp only: settled_def count length_list_update len) simp
qed

definition call_ok :: "merge_anchor_table \<Rightarrow> oyl_event list \<Rightarrow> nat \<Rightarrow> bool" where
  "call_ok t events n \<longleftrightarrow> (\<forall>idx colors. idx < length (at_entries t) \<and> colors ! idx = ACYCLE_WHITE \<and>
      settled (refers t events) (length (at_entries t)) colors \<and> color_count ACYCLE_WHITE colors \<le> n \<and>
      grays_lead_to (refers t events) idx colors \<longrightarrow>
      (\<exists>found colors'. alias_has_cycle n idx t colors events = Some (found, colors') \<and>
        searched (refers t events) (length (at_entries t)) colors found colors' \<and> colors' ! idx \<noteq> ACYCLE_WHITE \<and>
        (\<not> found \<longrightarrow> colors' ! idx = ACYCLE_BLACK)))"

lemma loop_search:
  assumes t: "table_ok t" and call: "call_ok t events n"
  shows "idx < length (at_entries t) \<Longrightarrow> colors ! idx = ACYCLE_GRAY \<Longrightarrow>
      settled (refers t events) (length (at_entries t)) colors \<Longrightarrow> color_count ACYCLE_WHITE colors \<le> n \<Longrightarrow>
      grays_lead_to (refers t events) idx colors \<Longrightarrow>
      set (alias_targets t es) \<subseteq> {j. (idx, j) \<in> refers t events} \<Longrightarrow>
      \<exists>found colors'. cycle_loop n es t colors events = Some (found, colors') \<and>
        searched (refers t events) (length (at_entries t)) colors found colors' \<and>
        (\<not> found \<longrightarrow> (\<forall>j\<in>set (alias_targets t es). colors' ! j = ACYCLE_BLACK))"
proof (induction es arbitrary: colors)
  case Nil
  then have "searched (refers t events) (length (at_entries t)) colors False colors" by (intro searched_refl)
  then show ?case by (auto simp: alias_targets_def)
next
  case (Cons e es)
  let ?R = "refers t events" let ?N = "length (at_entries t)"
  show ?case
  proof (cases "evt_type e = OYL_EVT_ALIAS \<and> atbl_lookup t (str_bytes (evt_value e)) \<noteq> None")
    case False
    then have "cycle_loop n (e # es) t colors events = cycle_loop n es t colors events"
      "alias_targets t (e # es) = alias_targets t es" by (auto simp: alias_targets_Cons)
    with Cons.IH [OF Cons.prems(1-5)] Cons.prems(6) show ?thesis by simp
  next
    case True
    then obtain k where k: "evt_type e = OYL_EVT_ALIAS" "atbl_lookup t (str_bytes (evt_value e)) = Some k" by auto
    have kN: "k < ?N" using lookup_range [OF t k(2)] .
    have targets: "alias_targets t (e # es) = k # alias_targets t es" using k by (simp add: alias_targets_Cons)
    then have edge: "(idx, k) \<in> ?R" and rest: "set (alias_targets t es) \<subseteq> {j. (idx, j) \<in> ?R}"
      using Cons.prems(6) by auto
    have len: "length colors = ?N" using Cons.prems(3) by (simp add: settled_def)
    consider "colors ! k = ACYCLE_GRAY" | "colors ! k = ACYCLE_WHITE" | "colors ! k = ACYCLE_BLACK"
      by (cases "colors ! k") auto
    then show ?thesis
    proof cases
      case 1
      have cyclic: "reaches_cycle ?R idx"
      proof (cases "reaches_cycle ?R k")
        case True
        then show ?thesis using edge by (rule reaches_step [rotated])
      next
        case False
        moreover have "reaches_cycle ?R k \<or> (k, idx) \<in> ?R\<^sup>*"
          using Cons.prems(5) 1 kN len by (simp add: grays_lead_to_def)
        ultimately have "(k, idx) \<in> ?R\<^sup>*" by blast
        then have "(idx, idx) \<in> ?R\<^sup>+" using edge by (rule rtrancl_into_trancl2 [rotated])
        then show ?thesis by (auto simp: reaches_cycle_def)
      qed
      have "grays_cyclic ?R colors"
        using Cons.prems(5) reaches_path [OF _ cyclic] by (auto simp: grays_lead_to_def grays_cyclic_def)
      then have "searched ?R ?N colors True colors" using Cons.prems(3) by (simp add: searched_def)
      with 1 k show ?thesis by auto
    next
      case 2
      have "grays_lead_to ?R k colors"
        using Cons.prems(5) edge by (auto simp: grays_lead_to_def intro: rtrancl_into_rtrancl)
      with call 2 kN Cons.prems(3,4) obtain found colors1 where c: "alias_has_cycle n k t colors events = Some (found, colors1)"
          "searched ?R ?N colors found colors1" "\<not> found \<longrightarrow> colors1 ! k = ACYCLE_BLACK"
        unfolding call_ok_def by blast
      show ?thesis
      proof (cases found)
        case True
        with 2 k c show ?thesis by auto
      next
        case False
        then have c1: "settled ?R ?N colors1" "color_count ACYCLE_WHITE colors1 \<le> n" "colors1 ! idx = ACYCLE_GRAY"
            "colors1 ! k = ACYCLE_BLACK" "grays_lead_to ?R idx colors1"
          using c(2,3) Cons.prems searched_leads by (auto simp: searched_def)
        obtain found2 colors2 where d: "cycle_loop n es t colors1 events = Some (found2, colors2)"
            "searched ?R ?N colors1 found2 colors2"
            "\<not> found2 \<longrightarrow> (\<forall>j\<in>set (alias_targets t es). colors2 ! j = ACYCLE_BLACK)"
          using Cons.IH [OF Cons.prems(1) c1(3,1,2,5) rest] by blast
        have "colors2 ! k = ACYCLE_BLACK" using gray_stays [OF d(2) kN] c1(4) by simp
        with 2 k c False d targets show ?thesis by (auto intro: searched_trans)
      qed
    next
      case 3
      obtain found2 colors2 where d: "cycle_loop n es t colors events = Some (found2, colors2)"
          "searched ?R ?N colors found2 colors2"
          "\<not> found2 \<longrightarrow> (\<forall>j\<in>set (alias_targets t es). colors2 ! j = ACYCLE_BLACK)"
        using Cons.IH [OF Cons.prems(1-5) rest] by blast
      have "colors2 ! k = ACYCLE_BLACK" using gray_stays [OF d(2) kN] 3 by simp
      with 3 k d targets show ?thesis by auto
    qed
  qed
qed

lemma call_search:
  assumes "table_ok t"
  shows "call_ok t events n"
proof (induction n)
  case 0
  show ?case
    unfolding call_ok_def
  proof (intro allI impI, elim conjE)
    fix idx colors
    assume a: "idx < length (at_entries t)" "colors ! idx = ACYCLE_WHITE"
      "settled (refers t events) (length (at_entries t)) colors" "color_count ACYCLE_WHITE colors \<le> 0"
    have "color_count ACYCLE_WHITE (colors[idx := ACYCLE_GRAY]) + 1 = color_count ACYCLE_WHITE colors"
      using a color_count_update [of idx colors ACYCLE_WHITE ACYCLE_GRAY] by (simp add: settled_def)
    then show "\<exists>found colors'. alias_has_cycle 0 idx t colors events = Some (found, colors') \<and>
        searched (refers t events) (length (at_entries t)) colors found colors' \<and> colors' ! idx \<noteq> ACYCLE_WHITE \<and>
        (\<not> found \<longrightarrow> colors' ! idx = ACYCLE_BLACK)" using a(4) by simp
  qed
next
  case (Suc n)
  let ?R = "refers t events" let ?N = "length (at_entries t)"
  show ?case
    unfolding call_ok_def
  proof (intro allI impI, elim conjE)
    fix idx colors
    assume a: "idx < ?N" "colors ! idx = ACYCLE_WHITE" "settled ?R ?N colors"
      "color_count ACYCLE_WHITE colors \<le> Suc n" "grays_lead_to ?R idx colors"
    let ?c = "colors[idx := ACYCLE_GRAY]" let ?es = "entry_events t events idx"
    have len: "length colors = ?N" using a(3) by (simp add: settled_def)
    have count: "color_count ACYCLE_WHITE ?c + 1 = color_count ACYCLE_WHITE colors"
      using a len color_count_update [of idx colors ACYCLE_WHITE ACYCLE_GRAY] by simp
    have c: "?c ! idx = ACYCLE_GRAY" "settled ?R ?N ?c" "color_count ACYCLE_WHITE ?c \<le> n" "grays_lead_to ?R idx ?c"
      using a len count settled_gray [OF a(3,1,2)] by (auto simp: grays_lead_to_def nth_list_update)
    have targets: "set (alias_targets t ?es) = {j. (idx, j) \<in> ?R}" using a(1) by (simp add: refers_def)
    then obtain found colors1 where l: "cycle_loop n ?es t ?c events = Some (found, colors1)"
        "searched ?R ?N ?c found colors1" "\<not> found \<longrightarrow> (\<forall>j\<in>set (alias_targets t ?es). colors1 ! j = ACYCLE_BLACK)"
      using loop_search [OF assms Suc a(1) c] by blast
    have gray: "colors1 ! idx = ACYCLE_GRAY" using gray_stays [OF l(2) a(1)] c(1) by simp
    have len1: "length colors1 = ?N" using l(2) by (simp add: searched_def settled_def)
    have others: "colors1 ! k = colors ! k" if "k < ?N" "colors ! k \<noteq> ACYCLE_WHITE" for k
      using that a(2) gray_stays [OF l(2), of k] by (cases "k = idx") auto
    show "\<exists>found colors'. alias_has_cycle (Suc n) idx t colors events = Some (found, colors') \<and>
        searched ?R ?N colors found colors' \<and> colors' ! idx \<noteq> ACYCLE_WHITE \<and>
        (\<not> found \<longrightarrow> colors' ! idx = ACYCLE_BLACK)"
    proof (cases found)
      case True
      have "searched ?R ?N colors True colors1"
        using l(2) True others count by (simp add: searched_def)
      with l True gray show ?thesis by (auto simp: Let_def entry_events_def)
    next
      case False
      have succ: "j < ?N \<and> colors1 ! j = ACYCLE_BLACK" if "(idx, j) \<in> ?R" for j
        using that l(3) False targets lookup_range [OF assms]
        by (auto simp: refers_def alias_targets_def List.map_filter_def split: if_split_asm)
      have "settled ?R ?N (colors1[idx := ACYCLE_BLACK])"
        using l(2) a(1) gray succ by (intro settled_black) (auto simp: searched_def)
      moreover have "color_count ACYCLE_WHITE (colors1[idx := ACYCLE_BLACK]) \<le> color_count ACYCLE_WHITE colors"
      proof -
        have "color_count ACYCLE_WHITE (colors1[idx := ACYCLE_BLACK]) = color_count ACYCLE_WHITE colors1"
          using color_count_update [of idx colors1 ACYCLE_WHITE ACYCLE_BLACK] a(1) len1 gray by simp
        also have "\<dots> \<le> color_count ACYCLE_WHITE ?c" using l(2) by (simp add: searched_def)
        finally show ?thesis using count by linarith
      qed
      moreover have "colors ! k = ACYCLE_GRAY" if "k < ?N" "colors1[idx := ACYCLE_BLACK] ! k = ACYCLE_GRAY" for k
      proof -
        have "k \<noteq> idx" using that len1 by (auto simp: nth_list_update)
        moreover from this that have "colors1 ! k = ACYCLE_GRAY" by simp
        ultimately show ?thesis using l(2) False that(1) by (auto simp: searched_def)
      qed
      moreover have "colors1[idx := ACYCLE_BLACK] ! k = colors ! k" if "k < ?N" "colors ! k \<noteq> ACYCLE_WHITE" for k
        using that others a(2) by (cases "k = idx") auto
      ultimately have "searched ?R ?N colors False (colors1[idx := ACYCLE_BLACK])"
        unfolding searched_def by blast
      moreover have "alias_has_cycle (Suc n) idx t colors events = Some (False, colors1[idx := ACYCLE_BLACK])"
        using l False by (simp add: Let_def entry_events_def)
      moreover have "colors1[idx := ACYCLE_BLACK] ! idx = ACYCLE_BLACK" using a(1) len1 by simp
      ultimately show ?thesis by force
    qed
  qed
qed


section \<open>The flags\<close>

text \<open>Between the searches every gray entry leads to a cycle, and the flags mark the gray entries.\<close>

lemma detect_cycles_from:
  assumes t: "table_ok t"
  shows "settled (refers t events) (length (at_entries t)) colors \<Longrightarrow> grays_cyclic (refers t events) colors \<Longrightarrow>
    length cyclic = length (at_entries t) \<Longrightarrow>
    (\<forall>k < length (at_entries t). cyclic ! k \<longleftrightarrow> colors ! k = ACYCLE_GRAY) \<Longrightarrow>
    (\<forall>k < length (at_entries t). colors ! k = ACYCLE_WHITE \<longrightarrow> k \<in> set is) \<Longrightarrow>
    set is \<subseteq> {..<length (at_entries t)} \<Longrightarrow>
    \<exists>cyclic'. detect_cycles is t colors cyclic events = Some cyclic' \<and> length cyclic' = length (at_entries t) \<and>
      (\<forall>k < length (at_entries t). cyclic' ! k \<longleftrightarrow> reaches_cycle (refers t events) k) \<and>
      (\<forall>k < length (at_entries t). \<not> cyclic' ! k \<longrightarrow> within (refers t events) (length (at_entries t)) k)"
proof (induction "is" arbitrary: colors cyclic)
  case Nil
  let ?R = "refers t events" let ?N = "length (at_entries t)"
  have len: "length colors = ?N" using Nil.prems(1) by (simp add: settled_def)
  have settled: "(cyclic ! k \<longleftrightarrow> reaches_cycle ?R k) \<and> (\<not> cyclic ! k \<longrightarrow> within ?R ?N k)" if k: "k < ?N" for k
  proof (cases "colors ! k")
    case ACYCLE_WHITE
    then show ?thesis using Nil.prems(5) k by simp
  next
    case ACYCLE_GRAY
    then show ?thesis using Nil.prems(2,4) k len by (simp add: grays_cyclic_def)
  next
    case ACYCLE_BLACK
    then have w: "within ?R (color_count ACYCLE_BLACK colors) k" using Nil.prems(1) k by (simp add: settled_def)
    moreover have "color_count ACYCLE_BLACK colors \<le> ?N"
      using len length_filter_le [of "\<lambda>x. x = ACYCLE_BLACK" colors] by (simp add: color_count_def)
    ultimately have "within ?R ?N k" by (rule within_mono)
    with within_safe [OF w] ACYCLE_BLACK Nil.prems(4) k show ?thesis by simp
  qed
  with Nil.prems(3) show ?case by simp
next
  case (Cons i "is")
  let ?R = "refers t events" let ?N = "length (at_entries t)"
  have len: "length colors = ?N" using Cons.prems(1) by (simp add: settled_def)
  have i: "i < ?N" using Cons.prems(6) by simp
  show ?case
  proof (cases "colors ! i = ACYCLE_WHITE")
    case False
    have "\<forall>k < ?N. colors ! k = ACYCLE_WHITE \<longrightarrow> k \<in> set is" using Cons.prems(5) False by auto
    then show ?thesis using Cons.IH [OF Cons.prems(1-4)] Cons.prems(6) False by simp
  next
    case True
    have "color_count ACYCLE_WHITE colors \<le> ?N"
      using len length_filter_le [of "\<lambda>x. x = ACYCLE_WHITE" colors] by (simp add: color_count_def)
    moreover have "grays_lead_to ?R i colors" using Cons.prems(2) by (simp add: grays_lead_to_def grays_cyclic_def)
    ultimately obtain found colors1 where c: "alias_has_cycle ?N i t colors events = Some (found, colors1)"
        "searched ?R ?N colors found colors1" "colors1 ! i \<noteq> ACYCLE_WHITE"
      using call_search [OF t, of events ?N] i True Cons.prems(1) unfolding call_ok_def by blast
    have len1: "length colors1 = ?N" and settled1: "settled ?R ?N colors1"
      using c(2) by (auto simp: searched_def settled_def)
    have stays: "colors ! k = ACYCLE_GRAY \<Longrightarrow> colors1 ! k = ACYCLE_GRAY" if "k < ?N" for k
      using gray_stays [OF c(2) that] by simp
    let ?cyclic = "if found then map2 (\<lambda>c old. c = ACYCLE_GRAY \<or> old) colors1 cyclic else cyclic"
    have grays: "grays_cyclic ?R colors1"
    proof (cases found)
      case True
      then show ?thesis using c(2) by (simp add: searched_def)
    next
      case False
      then have "colors1 ! k = ACYCLE_GRAY \<longrightarrow> colors ! k = ACYCLE_GRAY" if "k < ?N" for k
        using c(2) that by (simp add: searched_def)
      then show ?thesis using Cons.prems(2) len len1 by (simp add: grays_cyclic_def)
    qed
    have flags: "\<forall>k < ?N. ?cyclic ! k \<longleftrightarrow> colors1 ! k = ACYCLE_GRAY"
    proof (cases found)
      case True
      then show ?thesis using Cons.prems(3,4) len1 stays by auto
    next
      case False
      then have "colors1 ! k = ACYCLE_GRAY \<longrightarrow> colors ! k = ACYCLE_GRAY" if "k < ?N" for k
        using c(2) that by (simp add: searched_def)
      then show ?thesis using False Cons.prems(4) stays by auto
    qed
    have white: "\<forall>k < ?N. colors1 ! k = ACYCLE_WHITE \<longrightarrow> k \<in> set is"
    proof (intro allI impI)
      fix k
      assume k: "k < ?N" "colors1 ! k = ACYCLE_WHITE"
      then have "colors ! k = ACYCLE_WHITE" using gray_stays [OF c(2) k(1)] by metis
      moreover have "k \<noteq> i" using k c(3) by auto
      ultimately show "k \<in> set is" using Cons.prems(5) k(1) by auto
    qed
    have "length ?cyclic = ?N" using Cons.prems(3) len1 by simp
    from Cons.IH [OF settled1 grays this flags white] Cons.prems(6) c(1) True show ?thesis by simp
  qed
qed

lemma detect_cycles_exact:
  assumes "table_ok t"
  obtains cyclic where
    "detect_cycles [0..<length (at_entries t)] t (replicate (length (at_entries t)) ACYCLE_WHITE)
       (replicate (length (at_entries t)) False) events = Some cyclic"
    and "length cyclic = length (at_entries t)"
    and "\<And>k. k < length (at_entries t) \<Longrightarrow> cyclic ! k \<longleftrightarrow> reaches_cycle (refers t events) k"
    and "\<And>k. k < length (at_entries t) \<Longrightarrow> \<not> cyclic ! k \<Longrightarrow> within (refers t events) (length (at_entries t)) k"
proof -
  let ?N = "length (at_entries t)" let ?c = "replicate ?N ACYCLE_WHITE"
  have "settled (refers t events) ?N ?c" "grays_cyclic (refers t events) ?c"
    by (auto simp: settled_def grays_cyclic_def)
  moreover have "set [0..<?N] \<subseteq> {..<?N}" by auto
  ultimately obtain cyclic where "detect_cycles [0..<?N] t ?c (replicate ?N False) events = Some cyclic"
      "length cyclic = ?N" "\<forall>k < ?N. cyclic ! k \<longleftrightarrow> reaches_cycle (refers t events) k"
      "\<forall>k < ?N. \<not> cyclic ! k \<longrightarrow> within (refers t events) ?N k"
    using detect_cycles_from [OF assms, of events ?c "replicate ?N False" "[0..<?N]"] by fastforce
  with that show thesis by blast
qed

text \<open>The expansions always return, and stay within the budget.\<close>

lemma resolve_merges_result:
  "\<exists>st q. resolve_merges p = Some (st, q) \<and> pass_result (expansion_limit p (length (pa_events p))) p q"
  unfolding resolve_merges_def by (rule merge_passes_result) (rule expansion_limit_pos)

lemma resolve_aliases_result:
  "\<exists>st q. resolve_aliases p = Some (st, q) \<and> pass_result (expansion_limit p (length (pa_events p))) p q"
proof -
  obtain t m where t: "atbl_build (pa_events p) (pa_mem p) = Some (t, m)" "table_ok t"
    by (rule atbl_build_ok [of "pa_events p" "pa_mem p"])
  obtain cyclic where cyclic: "detect_cycles [0..<length (at_entries t)] t (replicate (length (at_entries t)) ACYCLE_WHITE)
       (replicate (length (at_entries t)) False) (pa_events p) = Some cyclic"
    using detect_cycles_exact [OF t(2)] by metis
  obtain ok1 m1 ok2 m2 where m: "mem_take m = (ok1, m1)" "mem_take m1 = (ok2, m2)" by (metis surj_pair)
  have limit: "expansion_limit (p\<lparr>pa_mem := m2\<rparr>) n = expansion_limit p n" for n by (simp add: expansion_limit_def)
  have "pass_result l (p\<lparr>pa_mem := m2\<rparr>) q \<Longrightarrow> pass_result l p q" for l q by (simp add: pass_result_def)
  moreover obtain st q where "alias_passes 32 (expansion_limit p (length (pa_events p))) cyclic (p\<lparr>pa_mem := m2\<rparr>) = Some (st, q)"
      "pass_result (expansion_limit p (length (pa_events p))) (p\<lparr>pa_mem := m2\<rparr>) q"
    using alias_passes_result [OF expansion_limit_pos] by blast
  ultimately show ?thesis using t(1) cyclic m limit
    by (cases "at_entries t = []"; cases "ok1 \<and> ok2") (auto simp: resolve_aliases_def pass_result_def Let_def)
qed


section \<open>What the expansion keeps to\<close>

text \<open>
  C14: however merge keys and aliases are nested ("billion laughs"), expanding them returns, and leaves
  either the events that were there or a list within its array and within the budget: what
  \<open>max_events\<close> leaves for the stream, or a multiple of the unexpanded stream.
\<close>

theorem expansion_within_budget:
  "\<exists>st q st' q'. resolve_merges p = Some (st, q) \<and> resolve_aliases p = Some (st', q') \<and>
    (pa_events q = pa_events p \<or>
       length (pa_events q) \<le> pa_evt_cap q \<and> int (length (pa_events q)) \<le> expansion_limit p (length (pa_events p))) \<and>
    (pa_events q' = pa_events p \<or>
       length (pa_events q') \<le> pa_evt_cap q' \<and> int (length (pa_events q')) \<le> expansion_limit p (length (pa_events p)))"
  using resolve_merges_result [of p] resolve_aliases_result [of p] by (auto simp: pass_result_def)

text \<open>
  C13: the search for cycles ends, and when it is done an anchor is flagged exactly if a cycle of aliases
  can be reached from it; from the others no chain of aliases is longer than the number of anchors.
\<close>

theorem cycle_flags_exact:
  assumes "atbl_build events m = Some (t, m')"
  shows "\<exists>cyclic. detect_cycles [0..<length (at_entries t)] t (replicate (length (at_entries t)) ACYCLE_WHITE)
       (replicate (length (at_entries t)) False) events = Some cyclic \<and>
     length cyclic = length (at_entries t) \<and>
     (\<forall>k < length (at_entries t). (cyclic ! k \<longleftrightarrow> reaches_cycle (refers t events) k) \<and>
        (\<not> cyclic ! k \<longrightarrow> within (refers t events) (length (at_entries t)) k))"
proof -
  have "table_ok t" using assms by (rule_tac atbl_build_ok [of events m]) simp
  then show ?thesis using detect_cycles_exact [of t events] by metis
qed

text \<open>The events of \<open>[&a [*b], &b [*b], &c x]\<close>: the anchor \<open>a\<close> leads to the cycle of \<open>b\<close>.\<close>

definition cycle_events :: "oyl_event list" where
  "cycle_events =
    [plain_event OYL_EVT_SEQUENCE_START,
     (plain_event OYL_EVT_SEQUENCE_START)\<lparr>evt_anchor := Some [LC_A]\<rparr>,
     (plain_event OYL_EVT_ALIAS)\<lparr>evt_value := Some [LC_B]\<rparr>, plain_event OYL_EVT_SEQUENCE_END,
     (plain_event OYL_EVT_SEQUENCE_START)\<lparr>evt_anchor := Some [LC_B]\<rparr>,
     (plain_event OYL_EVT_ALIAS)\<lparr>evt_value := Some [LC_B]\<rparr>, plain_event OYL_EVT_SEQUENCE_END,
     (plain_event OYL_EVT_SCALAR)\<lparr>evt_value := Some [LC_X], evt_anchor := Some [LC_E]\<rparr>,
     plain_event OYL_EVT_SEQUENCE_END]"

definition cycle_table :: merge_anchor_table where
  "cycle_table = fst (the (atbl_build cycle_events []))"

theorem cycle_flags_exact_witness:
  "reaches_cycle (refers cycle_table cycle_events) 0 \<and> reaches_cycle (refers cycle_table cycle_events) 1 \<and>
   \<not> reaches_cycle (refers cycle_table cycle_events) 2"
proof -
  have "atbl_build cycle_events [] = Some (cycle_table, snd (the (atbl_build cycle_events [])))"
    by (rule atbl_build_ok [of cycle_events "[]"]) (simp add: cycle_table_def)
  from cycle_flags_exact [OF this] obtain cyclic where
    c: "detect_cycles [0..<length (at_entries cycle_table)] cycle_table (replicate (length (at_entries cycle_table)) ACYCLE_WHITE)
       (replicate (length (at_entries cycle_table)) False) cycle_events = Some cyclic"
     "\<forall>k < length (at_entries cycle_table). cyclic ! k \<longleftrightarrow> reaches_cycle (refers cycle_table cycle_events) k" by auto
  have "length (at_entries cycle_table) = 3" by code_simp
  moreover have "detect_cycles [0..<length (at_entries cycle_table)] cycle_table
      (replicate (length (at_entries cycle_table)) ACYCLE_WHITE)
      (replicate (length (at_entries cycle_table)) False) cycle_events = Some [True, True, False]"
    by code_simp
  ultimately show ?thesis using c by (auto simp: eval_nat_numeral)
qed

text \<open>
  C19: the depth check of the finished events fails exactly if there is a limit and some point of the
  stream is nested deeper than it.
\<close>

theorem depth_check_exact:
  "fst (check_eager_depth p) = OYL_ERR_LIMIT \<longleftrightarrow>
     0 < pa_max_depth p \<and> (\<exists>i. i \<le> length (pa_events p) \<and> event_depth (take i (pa_events p)) > pa_max_depth p)"
proof (cases "0 < pa_max_depth p")
  case True
  then have "depth_exceeded (pa_max_depth p) 0 (pa_events p) \<longleftrightarrow>
      (\<exists>i. i \<le> length (pa_events p) \<and> event_depth (take i (pa_events p)) > pa_max_depth p)"
    using depth_exceeded_iff [of 0 "pa_max_depth p" "pa_events p"] by simp
  with True show ?thesis by (simp add: check_eager_depth_def)
qed (simp add: check_eager_depth_def)

end
