(* ===== verification/OylAliases.thy ===== *)
theory OylAliases
  imports OylCycles
begin

text \<open>
  What \<open>resolve_aliases\<close> does to the events, told on trees: a stream is a list of marks (the events of
  the stream and of documents) and trees, and every alias that can be resolved is replaced by a copy of
  the anchored tree in which the same has been done. The passes of the code, which copy events and
  halve the remaining chains each time, are shown to arrive there.
\<close>

section \<open>Streams of trees\<close>

datatype stream_item = Mark oyl_event | Node oyl_node

fun item_events :: "stream_item \<Rightarrow> oyl_event list" where
  "item_events (Mark e) = [e]"
| "item_events (Node n) = node_events n"

definition items_events :: "stream_item list \<Rightarrow> oyl_event list" where
  "items_events items = concat (map item_events items)"

text \<open>The parser puts anchors on scalars and on the starts of collections only.\<close>

fun node_clean :: "oyl_node \<Rightarrow> bool" where
  "node_clean (NScalar e) = True"
| "node_clean (NAlias e) = (\<not> anchored e)"
| "node_clean (NSeq e ns e') = (\<not> anchored e' \<and> list_all node_clean ns)"
| "node_clean (NMap e kvs e') = (\<not> anchored e' \<and> list_all (\<lambda>(k, v). node_clean k \<and> node_clean v) kvs)"

definition mark_type :: "oyl_event_type \<Rightarrow> bool" where
  "mark_type t \<longleftrightarrow> t \<notin> {OYL_EVT_SCALAR, OYL_EVT_ALIAS, OYL_EVT_MAPPING_START, OYL_EVT_MAPPING_END,
     OYL_EVT_SEQUENCE_START, OYL_EVT_SEQUENCE_END}"

fun item_ok :: "stream_item \<Rightarrow> bool" where
  "item_ok (Mark e) = (mark_type (evt_type e) \<and> \<not> anchored e)"
| "item_ok (Node n) = (node_ok n \<and> node_clean n)"

section \<open>The anchored nodes\<close>

fun node_head :: "oyl_node \<Rightarrow> oyl_event" where
  "node_head (NScalar e) = e"
| "node_head (NAlias e) = e"
| "node_head (NSeq e ns e') = e"
| "node_head (NMap e kvs e') = e"

fun sub_nodes :: "oyl_node \<Rightarrow> oyl_node list" where
  "sub_nodes (NScalar e) = [NScalar e]"
| "sub_nodes (NAlias e) = [NAlias e]"
| "sub_nodes (NSeq e ns e') = NSeq e ns e' # concat (map sub_nodes ns)"
| "sub_nodes (NMap e kvs e') = NMap e kvs e' # concat (map (\<lambda>(k, v). sub_nodes k @ sub_nodes v) kvs)"

definition named :: "oyl_node list \<Rightarrow> (byte list \<times> oyl_node) list" where
  "named ns = map (\<lambda>n. (str_bytes (evt_anchor (node_head n)), n)) (filter (\<lambda>n. anchored (node_head n)) ns)"

lemma named_simps [simp]:
  "named [] = []"
  "named (n # ns) = (if anchored (node_head n) then [(str_bytes (evt_anchor (node_head n)), n)] else []) @ named ns"
  "named (ns @ ms) = named ns @ named ms"
  by (simp_all add: named_def)

fun item_nodes :: "stream_item \<Rightarrow> oyl_node list" where
  "item_nodes (Mark e) = []"
| "item_nodes (Node n) = sub_nodes n"

definition stream_anchors :: "stream_item list \<Rightarrow> (byte list \<times> oyl_node) list" where
  "stream_anchors items = named (concat (map item_nodes items))"

text \<open>The same from the events: at each anchored event, its name and the events of its node.\<close>

fun collect :: "oyl_event list \<Rightarrow> (byte list \<times> oyl_event list) list" where
  "collect [] = []"
| "collect (e # es) =
    (if anchored e then [(str_bytes (evt_anchor e), slice (e # es) 0 (node_end (e # es) 0))] else []) @ collect es"

lemma node_end_Cons: "node_end (e # es) (Suc i) = Suc (node_end es i)"
  by (simp add: node_end_def Let_def split: option.split)

lemma slice_Cons: "slice (e # es) (Suc i) (Suc j) = slice es i j"
  by (simp add: slice_def)

lemma collect_entries:
  "map (\<lambda>i. (str_bytes (evt_anchor (es ! i)), slice es i (node_end es i))) (filter (\<lambda>i. anchored (es ! i)) [0..<length es]) =
     collect es"
proof (induction es)
  case (Cons e es)
  have shift: "[0..<length (e # es)] = 0 # map Suc [0..<length es]" by (simp add: map_Suc_upt upt_conv_Cons del: upt_Suc)
  have "map (\<lambda>i. (str_bytes (evt_anchor ((e # es) ! i)), slice (e # es) i (node_end (e # es) i)))
      (filter (\<lambda>i. anchored ((e # es) ! i)) (map Suc [0..<length es])) = collect es"
    by (subst Cons [symmetric]) (simp add: filter_map comp_def node_end_Cons slice_Cons)
  then show ?case unfolding shift by simp
qed simp

lemma collect_skip: "\<not> anchored e \<Longrightarrow> collect (e # es) = collect es"
  by simp

lemma slice_node:
  "node_ok n \<Longrightarrow> slice (node_events n @ rest) 0 (node_end (node_events n @ rest) 0) = node_events n"
  using node_end_at [of n 0 "node_events n @ rest" rest] by (simp add: slice_def)

lemma node_events_head: "\<exists>es. node_events n = node_head n # es"
  by (cases n) auto

lemma collect_concat:
  assumes "\<And>x rest. x \<in> set xs \<Longrightarrow> collect (f x @ rest) = map g (h x) @ collect rest"
  shows "collect (concat (map f xs) @ rest) = map g (concat (map h xs)) @ collect rest"
  using assms by (induction xs) auto

lemma named_concat: "named (concat xss) = concat (map named xss)"
  by (induction xss) auto

lemma collect_node:
  "node_ok n \<Longrightarrow> node_clean n \<Longrightarrow>
    collect (node_events n @ rest) = map (\<lambda>(a, n). (a, node_events n)) (named (sub_nodes n)) @ collect rest"
proof (induction n arbitrary: rest)
  case (NScalar e)
  then show ?case using slice_node [OF NScalar(1), of rest] by simp
next
  case (NAlias e)
  then show ?case by simp
next
  case (NSeq e ns e')
  have "collect (concat (map node_events ns) @ rest) =
      map (\<lambda>(a, n). (a, node_events n)) (concat (map (\<lambda>n. named (sub_nodes n)) ns)) @ collect rest" for rest
    using NSeq by (intro collect_concat) (auto simp: list_all_iff)
  then show ?case using slice_node [OF NSeq.prems(1), of rest] NSeq.prems(2)
    by (simp add: named_concat comp_def)
next
  case (NMap e kvs e')
  have "collect (concat (map (\<lambda>(k, v). node_events k @ node_events v) kvs) @ rest) =
      map (\<lambda>(a, n). (a, node_events n)) (concat (map (\<lambda>(k, v). named (sub_nodes k @ sub_nodes v)) kvs)) @ collect rest" for rest
  proof (rule collect_concat)
    fix kv rest
    assume kv: "kv \<in> set kvs"
    obtain k v where "kv = (k, v)" by (cases kv)
    moreover from this have "node_ok k" "node_ok v" "node_clean k" "node_clean v"
      using NMap.prems kv by (auto simp: list_all_iff)
    ultimately show "collect ((case kv of (k, v) \<Rightarrow> node_events k @ node_events v) @ rest) =
        map (\<lambda>(a, n). (a, node_events n)) (case kv of (k, v) \<Rightarrow> named (sub_nodes k @ sub_nodes v)) @ collect rest"
      using NMap.IH [of kv] kv by simp
  qed
  then show ?case using slice_node [OF NMap.prems(1), of rest] NMap.prems(2)
    by (simp add: named_concat comp_def case_prod_unfold)
qed

lemma collect_stream:
  "list_all item_ok items \<Longrightarrow>
    collect (items_events items) = map (\<lambda>(a, n). (a, node_events n)) (stream_anchors items)"
proof (induction items)
  case (Cons item items)
  then show ?case
    by (cases item) (auto simp: items_events_def stream_anchors_def collect_node named_concat)
qed (simp add: items_events_def stream_anchors_def)


section \<open>Substitution\<close>

text \<open>A copy of a node carries no anchors.\<close>

fun unanchored :: "oyl_node \<Rightarrow> oyl_node" where
  "unanchored (NScalar e) = NScalar (no_anchor e)"
| "unanchored (NAlias e) = NAlias (no_anchor e)"
| "unanchored (NSeq e ns e') = NSeq (no_anchor e) (map unanchored ns) (no_anchor e')"
| "unanchored (NMap e kvs e') = NMap (no_anchor e) (map (\<lambda>(k, v). (unanchored k, unanchored v)) kvs) (no_anchor e')"

text \<open>What an alias stands for; \<open>None\<close> if it is not to be resolved.\<close>

type_synonym alias_env = "byte list \<Rightarrow> oyl_node option"

definition alias_name :: "oyl_event \<Rightarrow> byte list" where
  "alias_name e = str_bytes (evt_value e)"

text \<open>One pass: every alias is replaced by a copy of its target as it is.\<close>

fun subst :: "alias_env \<Rightarrow> oyl_node \<Rightarrow> oyl_node" where
  "subst g (NScalar e) = NScalar e"
| "subst g (NAlias e) = (case g (alias_name e) of None \<Rightarrow> NAlias e | Some n \<Rightarrow> unanchored n)"
| "subst g (NSeq e ns e') = NSeq e (map (subst g) ns) e'"
| "subst g (NMap e kvs e') = NMap e (map (\<lambda>(k, v). (subst g k, subst g v)) kvs) e'"

fun subst_item :: "alias_env \<Rightarrow> stream_item \<Rightarrow> stream_item" where
  "subst_item g (Mark e) = Mark e"
| "subst_item g (Node n) = Node (subst g n)"

text \<open>The specification: an alias stands for a copy of its target, with the aliases in it resolved.\<close>

inductive expands :: "alias_env \<Rightarrow> oyl_node \<Rightarrow> oyl_node \<Rightarrow> bool" for g where
  expands_scalar: "expands g (NScalar e) (NScalar e)"
| expands_free: "g (alias_name e) = None \<Longrightarrow> expands g (NAlias e) (NAlias e)"
| expands_alias: "g (alias_name e) = Some n \<Longrightarrow> expands g n n' \<Longrightarrow> expands g (NAlias e) (unanchored n')"
| expands_seq: "list_all2 (expands g) ns ns' \<Longrightarrow> expands g (NSeq e ns e') (NSeq e ns' e')"
| expands_map: "list_all2 (\<lambda>kv kv'. expands g (fst kv) (fst kv') \<and> expands g (snd kv) (snd kv')) kvs kvs' \<Longrightarrow>
    expands g (NMap e kvs e') (NMap e kvs' e')"

inductive_cases expands_cases:
  "expands g (NScalar e) n'" "expands g (NAlias e) n'" "expands g (NSeq e ns e') n'" "expands g (NMap e kvs e') n'"

fun expands_item :: "alias_env \<Rightarrow> stream_item \<Rightarrow> stream_item \<Rightarrow> bool" where
  "expands_item g (Mark e) item \<longleftrightarrow> item = Mark e"
| "expands_item g (Node n) item \<longleftrightarrow> (\<exists>n'. item = Node n' \<and> expands g n n')"

lemma no_anchor_simps [simp]:
  "no_anchor (no_anchor e) = no_anchor e" "alias_name (no_anchor e) = alias_name e"
  "evt_type (no_anchor e) = evt_type e" "\<not> anchored (no_anchor e)"
  by (simp_all add: no_anchor_def alias_name_def anchored_def)

lemma unanchored_idem [simp]: "unanchored (unanchored n) = unanchored n"
  by (induction n) (auto simp: case_prod_unfold)

lemma concat_map_eq: "(\<And>x. x \<in> set xs \<Longrightarrow> f x = g x) \<Longrightarrow> concat (map f xs) = concat (map g xs)"
  by (induction xs) auto

lemma concat_map_concat: "concat (map f (concat xss)) = concat (map (\<lambda>xs. concat (map f xs)) xss)"
  by (induction xss) auto

lemma unanchored_events: "node_events (unanchored n) = map no_anchor (node_events n)"
proof (induction n)
  case (NSeq e ns e')
  then show ?case by (auto simp: map_concat comp_def intro!: concat_map_eq)
next
  case (NMap e kvs e')
  then show ?case by (auto simp: map_concat comp_def case_prod_unfold intro!: concat_map_eq)
qed simp_all

lemma unanchored_ok [simp]: "node_ok (unanchored n) = node_ok n"
  by (induction n) (auto simp: list_all_iff case_prod_unfold)

lemma unanchored_clean [simp]: "node_clean (unanchored n)"
  by (induction n) (auto simp: list_all_iff case_prod_unfold)

lemma unanchored_named [simp]: "named (sub_nodes (unanchored n)) = []"
  by (induction n) (auto simp: named_concat case_prod_unfold)

text \<open>The events of one pass.\<close>

definition subst_event :: "alias_env \<Rightarrow> oyl_event \<Rightarrow> oyl_event list" where
  "subst_event g e =
    (if evt_type e = OYL_EVT_ALIAS
     then case g (alias_name e) of None \<Rightarrow> [e] | Some n \<Rightarrow> map no_anchor (node_events n)
     else [e])"

lemma subst_node_events: "node_ok n \<Longrightarrow> node_events (subst g n) = concat (map (subst_event g) (node_events n))"
proof (induction n)
  case (NSeq e ns e')
  then show ?case
    by (auto simp: concat_map_concat comp_def subst_event_def list_all_iff intro!: concat_map_eq)
next
  case (NMap e kvs e')
  then show ?case
    by (auto simp: concat_map_concat comp_def subst_event_def list_all_iff case_prod_unfold intro!: concat_map_eq)
qed (auto simp: subst_event_def unanchored_events split: option.split)


text \<open>What a pass keeps: the shape of the stream and its anchored nodes, each with the aliases in it replaced.\<close>

definition env_ok :: "alias_env \<Rightarrow> bool" where
  "env_ok g \<longleftrightarrow> (\<forall>x n. g x = Some n \<longrightarrow> node_ok n)"

lemma subst_ok: "env_ok g \<Longrightarrow> node_ok n \<Longrightarrow> node_ok (subst g n)"
  by (induction n) (auto simp: list_all_iff env_ok_def case_prod_unfold split: option.split)

lemma subst_clean: "node_clean n \<Longrightarrow> node_clean (subst g n)"
  by (induction n) (auto simp: list_all_iff case_prod_unfold split: option.split)

lemma subst_item_ok: "env_ok g \<Longrightarrow> item_ok item \<Longrightarrow> item_ok (subst_item g item)"
  by (cases item) (simp_all add: subst_ok subst_clean)

lemma subst_named:
  "node_clean n \<Longrightarrow> named (sub_nodes (subst g n)) = map (\<lambda>(a, n). (a, subst g n)) (named (sub_nodes n))"
proof (induction n)
  case (NAlias e)
  then show ?case by (auto split: option.split)
next
  case (NSeq e ns e')
  then show ?case by (auto simp: named_concat map_concat comp_def list_all_iff intro!: concat_map_eq)
next
  case (NMap e kvs e')
  then show ?case by (auto simp: named_concat map_concat comp_def list_all_iff case_prod_unfold intro!: concat_map_eq)
qed simp

lemma subst_stream_anchors:
  "list_all item_ok items \<Longrightarrow>
    stream_anchors (map (subst_item g) items) = map (\<lambda>(a, n). (a, subst g n)) (stream_anchors items)"
proof (induction items)
  case (Cons item items)
  then show ?case by (cases item) (auto simp: stream_anchors_def subst_named)
qed (simp add: stream_anchors_def)

lemma subst_event_mark: "mark_type (evt_type e) \<Longrightarrow> subst_event g e = [e]"
  by (auto simp: subst_event_def mark_type_def)

lemma subst_items_events:
  "list_all item_ok items \<Longrightarrow>
    items_events (map (subst_item g) items) = concat (map (subst_event g) (items_events items))"
proof (induction items)
  case (Cons item items)
  then show ?case
    by (cases item) (simp_all add: items_events_def subst_node_events subst_event_mark)
qed (simp add: items_events_def)

section \<open>Passes arrive at the expansion\<close>

text \<open>The environment after a pass.\<close>

definition next_env :: "alias_env \<Rightarrow> alias_env" where
  "next_env g x = map_option (subst g) (g x)"

lemma unanchored_cases:
  "unanchored m = NScalar e \<Longrightarrow> \<exists>e1. m = NScalar e1 \<and> e = no_anchor e1"
  "unanchored m = NAlias e \<Longrightarrow> \<exists>e1. m = NAlias e1 \<and> e = no_anchor e1"
  "unanchored m = NSeq e ns e' \<Longrightarrow> \<exists>e1 ms e2. m = NSeq e1 ms e2 \<and> e = no_anchor e1 \<and> ns = map unanchored ms \<and> e' = no_anchor e2"
  "unanchored m = NMap e kvs e' \<Longrightarrow> \<exists>e1 ms e2. m = NMap e1 ms e2 \<and> e = no_anchor e1 \<and>
     kvs = map (\<lambda>(k, v). (unanchored k, unanchored v)) ms \<and> e' = no_anchor e2"
  by (cases m; auto)+

lemma list_all2_witness:
  "list_all2 (\<lambda>x y. \<exists>z. P x z \<and> y = f z) xs ys \<Longrightarrow> \<exists>zs. list_all2 P xs zs \<and> ys = map f zs"
proof (induction xs ys rule: list_all2_induct)
  case (Cons x xs y ys)
  then obtain z zs where "P x z" "y = f z" "list_all2 P xs zs" "ys = map f zs" by blast
  then show ?case by (intro exI [of _ "z # zs"]) simp
qed simp

text \<open>
  An expansion in the next environment, of a node, of a copy of a node or of the node after the pass,
  is one in the environment before.
\<close>

definition copy_back :: "alias_env \<Rightarrow> oyl_node \<Rightarrow> oyl_node \<Rightarrow> bool" where
  "copy_back g x r \<longleftrightarrow> (\<forall>m. x = unanchored m \<longrightarrow> (\<exists>r'. expands g m r' \<and> r = unanchored r'))"

lemma subst_back_leaf:
  assumes "expands g x r" and "copy_back g x r" and "x = subst g n"
    and "\<nexists>e ns e'. n = NSeq e ns e'" and "\<nexists>e kvs e'. n = NMap e kvs e'"
  shows "expands g n r"
proof (cases n)
  case (NAlias e)
  show ?thesis
  proof (cases "g (alias_name e)")
    case (Some m)
    then obtain r' where "expands g m r'" "r = unanchored r'" using assms(2,3) NAlias by (auto simp: copy_back_def)
    then show ?thesis using Some NAlias by (auto intro: expands_alias)
  qed (use assms(1,3) NAlias in simp)
qed (use assms in auto)

lemma expands_back:
  "expands (next_env g) x r \<Longrightarrow> expands g x r \<and> copy_back g x r \<and> (\<forall>n. x = subst g n \<longrightarrow> expands g n r)"
proof (induction rule: expands.induct)
  case (expands_scalar e)
  have 1: "expands g (NScalar e) (NScalar e)" by (rule expands.intros)
  have 2: "copy_back g (NScalar e) (NScalar e)"
    unfolding copy_back_def by (metis unanchored_cases(1) unanchored.simps(1) expands.expands_scalar)
  have "expands g n (NScalar e)" if "NScalar e = subst g n" for n
    using that by (intro subst_back_leaf [OF 1 2]) auto
  with 1 2 show ?case by blast
next
  case (expands_free e)
  have 1: "expands g (NAlias e) (NAlias e)"
    using expands_free by (intro expands.intros) (simp add: next_env_def)
  have 2: "copy_back g (NAlias e) (NAlias e)"
    unfolding copy_back_def
  proof (intro allI impI)
    fix m
    assume "NAlias e = unanchored m"
    then obtain e1 where m: "m = NAlias e1" "e = no_anchor e1" using unanchored_cases(2) by metis
    then have "expands g m m" using expands_free by (auto simp: next_env_def intro: expands.intros)
    with m show "\<exists>r'. expands g m r' \<and> NAlias e = unanchored r'" by auto
  qed
  have "expands g n (NAlias e)" if "NAlias e = subst g n" for n
    using that by (intro subst_back_leaf [OF 1 2]) auto
  with 1 2 show ?case by blast
next
  case (expands_alias e y r)
  obtain y0 where y0: "g (alias_name e) = Some y0" "y = subst g y0" using expands_alias(1) by (auto simp: next_env_def)
  then have y0_r: "expands g y0 r" using expands_alias.IH by blast
  then have 1: "expands g (NAlias e) (unanchored r)" using y0(1) by (intro expands.intros)
  have 2: "copy_back g (NAlias e) (unanchored r)"
    unfolding copy_back_def
  proof (intro allI impI)
    fix m
    assume "NAlias e = unanchored m"
    then obtain e1 where m: "m = NAlias e1" "e = no_anchor e1" using unanchored_cases(2) by metis
    then have "expands g m (unanchored r)" using y0(1) y0_r by (auto intro: expands.intros)
    then show "\<exists>r'. expands g m r' \<and> unanchored r = unanchored r'" by (metis unanchored_idem)
  qed
  have "expands g n (unanchored r)" if "NAlias e = subst g n" for n
    using that by (intro subst_back_leaf [OF 1 2]) auto
  with 1 2 show ?case by blast
next
  case (expands_seq ns ns' e e')
  let ?x = "NSeq e ns e'" let ?r = "NSeq e ns' e'"
  have 1: "expands g ?x ?r" using expands_seq by (intro expands.intros) (auto elim: list_all2_mono)
  have 2: "copy_back g ?x ?r"
    unfolding copy_back_def
  proof (intro allI impI)
    fix m
    assume "?x = unanchored m"
    then obtain e1 ms e2 where m: "m = NSeq e1 ms e2" "e = no_anchor e1" "ns = map unanchored ms" "e' = no_anchor e2"
      using unanchored_cases(3) by metis
    have "list_all2 (\<lambda>y r. copy_back g y r) ns ns'" using expands_seq by (auto elim: list_all2_mono)
    then have "list_all2 (\<lambda>m r. \<exists>r'. expands g m r' \<and> r = unanchored r') ms ns'"
      by (auto simp: m(3) list_all2_map1 copy_back_def elim: list_all2_mono)
    then obtain rs where "list_all2 (expands g) ms rs" "ns' = map unanchored rs" using list_all2_witness by blast
    then show "\<exists>r'. expands g m r' \<and> ?r = unanchored r'"
      using m by (intro exI [of _ "NSeq e1 rs e2"]) (auto intro: expands.intros)
  qed
  have "expands g n ?r" if sub: "?x = subst g n" for n
  proof (cases "\<exists>e ns e'. n = NSeq e ns e'")
    case True
    then obtain ms where n: "n = NSeq e ms e'" "ns = map (subst g) ms" using sub by auto
    have "list_all2 (\<lambda>y r. \<forall>n. y = subst g n \<longrightarrow> expands g n r) ns ns'" using expands_seq by (auto elim: list_all2_mono)
    then have "list_all2 (expands g) ms ns'" by (auto simp: n(2) list_all2_map1 elim: list_all2_mono)
    then show ?thesis unfolding n(1) by (rule expands.intros)
  next
    case False
    then show ?thesis using that by (intro subst_back_leaf [OF 1 2]) auto
  qed
  with 1 2 show ?case by blast
next
  case (expands_map kvs kvs' e e')
  let ?x = "NMap e kvs e'" let ?r = "NMap e kvs' e'"
  have 1: "expands g ?x ?r" using expands_map by (intro expands.intros) (auto elim: list_all2_mono)
  have 2: "copy_back g ?x ?r"
    unfolding copy_back_def
  proof (intro allI impI)
    fix m
    assume "?x = unanchored m"
    then obtain e1 ms e2 where m: "m = NMap e1 ms e2" "e = no_anchor e1"
        "kvs = map (\<lambda>(k, v). (unanchored k, unanchored v)) ms" "e' = no_anchor e2"
      using unanchored_cases(4) by metis
    have "list_all2 (\<lambda>y r. copy_back g (fst y) (fst r) \<and> copy_back g (snd y) (snd r)) kvs kvs'"
      using expands_map by (auto elim: list_all2_mono)
    then have "list_all2 (\<lambda>m r. \<exists>r'. (expands g (fst m) (fst r') \<and> expands g (snd m) (snd r')) \<and>
        r = (unanchored (fst r'), unanchored (snd r'))) ms kvs'"
      by (auto simp: m(3) list_all2_map1 case_prod_unfold elim!: list_all2_mono)
        (auto simp: copy_back_def prod_eq_iff, blast)
    from list_all2_witness [where P = "\<lambda>m r'. expands g (fst m) (fst r') \<and> expands g (snd m) (snd r')"
        and f = "\<lambda>r'. (unanchored (fst r'), unanchored (snd r'))", OF this]
    obtain rs where "list_all2 (\<lambda>m r'. expands g (fst m) (fst r') \<and> expands g (snd m) (snd r')) ms rs"
        "kvs' = map (\<lambda>r'. (unanchored (fst r'), unanchored (snd r'))) rs" by blast
    then show "\<exists>r'. expands g m r' \<and> ?r = unanchored r'"
      using m by (intro exI [of _ "NMap e1 rs e2"]) (auto simp: case_prod_unfold intro: expands.intros)
  qed
  have "expands g n ?r" if sub: "?x = subst g n" for n
  proof (cases "\<exists>e kvs e'. n = NMap e kvs e'")
    case True
    then obtain ms where n: "n = NMap e ms e'" "kvs = map (\<lambda>(k, v). (subst g k, subst g v)) ms" using sub by auto
    have "list_all2 (\<lambda>y r. (\<forall>n. fst y = subst g n \<longrightarrow> expands g n (fst r)) \<and> (\<forall>n. snd y = subst g n \<longrightarrow> expands g n (snd r))) kvs kvs'"
      using expands_map by (auto elim: list_all2_mono)
    then have "list_all2 (\<lambda>m r'. expands g (fst m) (fst r') \<and> expands g (snd m) (snd r')) ms kvs'"
      by (auto simp: n(2) list_all2_map1 case_prod_unfold elim!: list_all2_mono)
    then show ?thesis unfolding n(1) by (rule expands.intros)
  next
    case False
    then show ?thesis using that by (intro subst_back_leaf [OF 1 2]) auto
  qed
  with 1 2 show ?case by blast
qed


text \<open>A tree without aliases to resolve is its own expansion.\<close>

definition alias_names :: "oyl_event list \<Rightarrow> byte list set" where
  "alias_names es = {alias_name e |e. e \<in> set es \<and> evt_type e = OYL_EVT_ALIAS}"

lemma alias_names_simps [simp]:
  "alias_names [] = {}"
  "alias_names (e # es) = (if evt_type e = OYL_EVT_ALIAS then insert (alias_name e) (alias_names es) else alias_names es)"
  "alias_names (es @ fs) = alias_names es \<union> alias_names fs"
  "alias_names (concat ess) = (\<Union>es\<in>set ess. alias_names es)"
  by (auto simp: alias_names_def)

lemma expands_refl: "node_ok n \<Longrightarrow> (\<And>x. x \<in> alias_names (node_events n) \<Longrightarrow> g x = None) \<Longrightarrow> expands g n n"
proof (induction n)
  case (NSeq e ns e')
  then have "list_all2 (expands g) ns ns" by (auto simp: list_all2_same list_all_iff)
  then show ?case by (rule expands.intros)
next
  case (NMap e kvs e')
  have "expands g (fst kv) (fst kv) \<and> expands g (snd kv) (snd kv)" if kv: "kv \<in> set kvs" for kv
  proof -
    have "node_ok (fst kv)" "node_ok (snd kv)" using NMap.prems(1) kv by (auto simp: list_all_iff)
    moreover have "g x = None" if "x \<in> alias_names (node_events (fst kv)) \<union> alias_names (node_events (snd kv))" for x
    proof (rule NMap.prems(2))
      show "x \<in> alias_names (node_events (NMap e kvs e'))" using that kv by (cases kv) force
    qed
    ultimately show ?thesis using NMap.IH [OF kv] by (cases kv) auto
  qed
  then have "list_all2 (\<lambda>kv kv'. expands g (fst kv) (fst kv') \<and> expands g (snd kv) (snd kv')) kvs kvs"
    by (simp add: list_all2_same)
  then show ?case by (rule expands.intros)
qed (auto intro: expands.intros)

section \<open>Chains get shorter\<close>

text \<open>No chain of aliases from a name has more than \<open>k\<close> links.\<close>

fun name_chain :: "nat \<Rightarrow> alias_env \<Rightarrow> byte list \<Rightarrow> bool" where
  "name_chain 0 g x = (g x = None)"
| "name_chain (Suc k) g x = (\<forall>n. g x = Some n \<longrightarrow> (\<forall>y\<in>alias_names (node_events n). name_chain k g y))"

lemma name_chain_free: "g x = None \<Longrightarrow> name_chain k g x"
  by (cases k) simp_all

lemma subst_names:
  "alias_names (concat (map (subst_event g) es)) \<subseteq>
     {x. x \<in> alias_names es \<and> g x = None} \<union>
     {x. \<exists>y n. y \<in> alias_names es \<and> g y = Some n \<and> x \<in> alias_names (node_events n)}"
proof (induction es)
  case (Cons e es)
  have "alias_names (map no_anchor fs) = alias_names fs" for fs by (induction fs) simp_all
  then have "alias_names (subst_event g e) \<subseteq> {x. x \<in> alias_names [e] \<and> g x = None} \<union>
     {x. \<exists>y n. y \<in> alias_names [e] \<and> g y = Some n \<and> x \<in> alias_names (node_events n)}"
    by (auto simp: subst_event_def split: option.splits)
  with Cons show ?case by (auto split: if_split_asm) blast+
qed simp

lemma chains_halve:
  assumes "env_ok g"
  shows "(\<forall>x. name_chain d g x \<longrightarrow> name_chain ((d + 1) div 2) (next_env g) x) \<and>
    (\<forall>es. (\<forall>x\<in>alias_names es. name_chain d g x) \<longrightarrow>
       (\<forall>x\<in>alias_names (concat (map (subst_event g) es)). name_chain (d div 2) (next_env g) x))"
proof (induction d)
  case 0
  have "g x = None" if "\<forall>x\<in>alias_names es. g x = None" "x \<in> alias_names (concat (map (subst_event g) es))" for es x
    using subst_names [of g es] that by auto
  then show ?case by (auto simp: next_env_def)
next
  case (Suc d)
  have a: "name_chain ((Suc d + 1) div 2) (next_env g) x" if x: "name_chain (Suc d) g x" for x
  proof -
    have "name_chain (d div 2) (next_env g) y" if n: "g x = Some n" and y: "y \<in> alias_names (node_events (subst g n))" for n y
    proof -
      have "node_ok n" using assms n by (auto simp: env_ok_def)
      then have "y \<in> alias_names (concat (map (subst_event g) (node_events n)))" using y subst_node_events by metis
      moreover have "\<forall>z\<in>alias_names (node_events n). name_chain d g z" using x n by simp
      ultimately show ?thesis using Suc by blast
    qed
    then show ?thesis by (auto simp: next_env_def)
  qed
  have "name_chain (Suc d div 2) (next_env g) x"
    if es: "\<forall>x\<in>alias_names es. name_chain (Suc d) g x" and x: "x \<in> alias_names (concat (map (subst_event g) es))" for es x
  proof (cases "g x")
    case None
    then show ?thesis by (intro name_chain_free) (simp add: next_env_def)
  next
    case (Some n)
    then obtain y m where "y \<in> alias_names es" "g y = Some m" "x \<in> alias_names (node_events m)"
      using subst_names [of g es] x by auto
    then have "name_chain d g x" using es by auto
    then have "name_chain ((d + 1) div 2) (next_env g) x" using Suc by blast
    then show ?thesis by simp
  qed
  with a show ?case by blast
qed


section \<open>One pass of the code\<close>

text \<open>With memory at hand the oracle stays empty.\<close>

lemma ebuf_push_mem [simp]: "snd (ebuf_push b [] e) = []"
  by (simp add: ebuf_push_def Let_def)

lemma ebuf_push_appends:
  "ebuf_push b m e = (b', m') \<Longrightarrow> \<not> eb_oom b' \<Longrightarrow> \<not> eb_oom b \<and> eb_data b' = eb_data b @ [e]"
  by (auto simp: ebuf_push_def Let_def split: if_split_asm prod.splits)

lemma copy_events_mem [simp]: "snd (copy_events b [] es) = []"
proof (induction es arbitrary: b)
  case (Cons e es)
  obtain b' where "ebuf_push b [] (no_anchor e) = (b', [])" using ebuf_push_mem by (metis prod.collapse)
  with Cons show ?case by simp
qed simp

lemma copy_events_appends:
  "copy_events b m es = (b', m') \<Longrightarrow> \<not> eb_oom b' \<Longrightarrow> \<not> eb_oom b \<and> eb_data b' = eb_data b @ map no_anchor es"
proof (induction es arbitrary: b m)
  case (Cons e es)
  obtain b1 m1 where "ebuf_push b m (no_anchor e) = (b1, m1)" by fastforce
  with Cons ebuf_push_appends [of b m "no_anchor e" b1 m1] show ?case by (auto split: if_split_asm)
qed simp

text \<open>A table of the anchored nodes of a stream, and the aliases that a pass replaces.\<close>

definition table_of :: "merge_anchor_table \<Rightarrow> oyl_event list \<Rightarrow> (byte list \<times> oyl_node) list \<Rightarrow> bool" where
  "table_of t events as \<longleftrightarrow> table_ok t \<and>
     map (\<lambda>a. (ma_name a, slice events (ma_start a) (ma_end a))) (at_entries t) = map (\<lambda>(a, n). (a, node_events n)) as"

definition latest_named :: "(byte list \<times> oyl_node) list \<Rightarrow> byte list \<Rightarrow> nat option" where
  "latest_named as x = find (\<lambda>i. fst (as ! i) = x) (rev [0..<length as])"

definition anchor_env :: "(byte list \<times> oyl_node) list \<Rightarrow> bool list \<Rightarrow> alias_env" where
  "anchor_env as cyclic x =
    (case latest_named as x of None \<Rightarrow> None | Some k \<Rightarrow> if cyclic ! k then None else Some (snd (as ! k)))"

lemma table_of_length: "table_of t events as \<Longrightarrow> length (at_entries t) = length as"
  by (auto simp: table_of_def dest: map_eq_imp_length_eq)

lemma table_of_nth:
  assumes "table_of t events as" and "k < length as"
  shows "ma_name (at_entries t ! k) = fst (as ! k)"
    and "slice events (ma_start (at_entries t ! k)) (ma_end (at_entries t ! k)) = node_events (snd (as ! k))"
proof -
  have "map (\<lambda>a. (ma_name a, slice events (ma_start a) (ma_end a))) (at_entries t) ! k = map (\<lambda>(a, n). (a, node_events n)) as ! k"
    using assms(1) by (simp add: table_of_def)
  then show "ma_name (at_entries t ! k) = fst (as ! k)"
    and "slice events (ma_start (at_entries t ! k)) (ma_end (at_entries t ! k)) = node_events (snd (as ! k))"
    using assms table_of_length [OF assms(1)] by (simp_all add: case_prod_unfold)
qed

lemma latest_named_range: "latest_named as x = Some k \<Longrightarrow> k < length as \<and> fst (as ! k) = x"
  by (auto simp: latest_named_def dest!: find_found)

lemma table_of_lookup:
  assumes "table_of t events as"
  shows "atbl_lookup t x = latest_named as x"
proof -
  have "atbl_lookup t x = find (\<lambda>i. ma_name (at_entries t ! i) = x) (rev [0..<length as])"
    using assms table_of_length [OF assms] by (simp add: table_of_def table_ok_def latest_def)
  also have "\<dots> = latest_named as x"
    unfolding latest_named_def using table_of_nth [OF assms] by (intro find_cong) auto
  finally show ?thesis .
qed

lemma atbl_build_mem: "atbl_build events [] = Some (t, m') \<Longrightarrow> m' = []"
proof -
  have "snd (atbl_add t [] a i j) = []" for t a i j by (simp add: atbl_add_def Let_def)
  then have add: "snd (add_anchors events is t []) = []" for "is" t
    by (induction "is" arbitrary: t) (simp_all add: case_prod_unfold)
  assume "atbl_build events [] = Some (t, m')"
  then show ?thesis using add [of "[0..<length events]" atbl_init]
    by (auto simp: atbl_build_def Let_def split: if_split_asm prod.splits option.splits)
qed

lemma table_of_stream:
  assumes "list_all item_ok items"
  obtains t where "atbl_build (items_events items) [] = Some (t, [])"
    and "table_of t (items_events items) (stream_anchors items)"
proof -
  let ?es = "items_events items"
  obtain t m' where t: "atbl_build ?es [] = Some (t, m')" "table_ok t"
      "at_entries t = at_entries (fst (add_anchors ?es [0..<length ?es] atbl_init []))"
    by (rule atbl_build_ok [of ?es "[]"])
  have "at_entries t = map (anchor_entry ?es) (filter (\<lambda>i. anchored (?es ! i)) [0..<length ?es])"
    unfolding t(3) by (subst add_anchors_entries) (simp_all add: atbl_init_def)
  then have "map (\<lambda>a. (ma_name a, slice ?es (ma_start a) (ma_end a))) (at_entries t) = collect ?es"
    using collect_entries [of ?es] by (simp add: anchor_entry_def comp_def)
  with t(2) collect_stream [OF assms] have "table_of t ?es (stream_anchors items)" by (simp add: table_of_def)
  with that t(1) atbl_build_mem [OF t(1)] show thesis by blast
qed

lemma alias_pass_substs:
  assumes "table_of t events as"
  shows "\<exists>out' changed'. alias_pass events t cyclic es out changed [] = (out', changed', []) \<and>
    (\<not> eb_oom out' \<longrightarrow> \<not> eb_oom out \<and>
       eb_data out' = eb_data out @ concat (map (subst_event (anchor_env as cyclic)) es) \<and>
       (changed' \<longleftrightarrow> changed \<or> (\<exists>x\<in>alias_names es. anchor_env as cyclic x \<noteq> None)))"
proof (induction es arbitrary: out changed)
  case (Cons e es)
  let ?g = "anchor_env as cyclic"
  obtain b1 where b1: "ebuf_push out [] e = (b1, [])" using ebuf_push_mem by (metis prod.collapse)
  note push = ebuf_push_appends [OF b1]
  show ?case
  proof (cases "eb_oom out")
    case False
    show ?thesis
    proof (cases "evt_type e = OYL_EVT_ALIAS \<and> ?g (alias_name e) \<noteq> None")
      case keep: False
      then have "alias_pass events t cyclic (e # es) out changed [] = alias_pass events t cyclic es b1 changed []"
        using False b1 table_of_lookup [OF assms]
        by (auto simp: is_cyclic_name_def anchor_env_def alias_name_def split: option.splits if_split_asm)
      moreover have "subst_event ?g e = [e]" using keep by (auto simp: subst_event_def)
      moreover have "(\<exists>x\<in>alias_names (e # es). ?g x \<noteq> None) \<longleftrightarrow> (\<exists>x\<in>alias_names es. ?g x \<noteq> None)"
        using keep by auto
      ultimately show ?thesis using Cons [of b1 changed] push by (auto simp del: alias_pass.simps alias_names_simps)
    next
      case True
      then obtain k where k: "latest_named as (alias_name e) = Some k" "\<not> cyclic ! k" "?g (alias_name e) = Some (snd (as ! k))"
        by (auto simp: anchor_env_def split: option.splits if_split_asm)
      let ?copy = "node_events (snd (as ! k))"
      obtain b2 where b2: "copy_events out [] ?copy = (b2, [])" using copy_events_mem by (metis prod.collapse)
      have "alias_pass events t cyclic (e # es) out changed [] = alias_pass events t cyclic es b2 True []"
        using False True k b2 table_of_lookup [OF assms] table_of_nth [OF assms, of k] latest_named_range [OF k(1)]
        by (simp add: is_cyclic_name_def alias_name_def)
      moreover have "subst_event ?g e = map no_anchor ?copy" using True k by (simp add: subst_event_def)
      moreover have "\<exists>x\<in>alias_names (e # es). ?g x \<noteq> None" using True by auto
      ultimately show ?thesis using Cons [of b2 True] copy_events_appends [OF b2]
        by (auto simp del: alias_pass.simps alias_names_simps)
    qed
  qed auto
qed simp


section \<open>All passes\<close>

lemma anchor_env_subst:
  "anchor_env (map (\<lambda>(a, n). (a, subst g n)) as) cyclic = map_option (subst g) \<circ> anchor_env as cyclic"
proof
  fix x
  have same: "latest_named (map (\<lambda>(a, n). (a, subst g n)) as) x = latest_named as x"
    unfolding latest_named_def length_map by (intro find_cong) (auto simp: case_prod_unfold)
  show "anchor_env (map (\<lambda>(a, n). (a, subst g n)) as) cyclic x = (map_option (subst g) \<circ> anchor_env as cyclic) x"
    unfolding anchor_env_def same
    by (auto simp: case_prod_unfold split: option.split dest: latest_named_range)
qed

lemma stream_anchors_ok: "list_all item_ok items \<Longrightarrow> (a, n) \<in> set (stream_anchors items) \<Longrightarrow> node_ok n"
proof -
  have sub: "node_ok m \<Longrightarrow> n \<in> set (sub_nodes m) \<Longrightarrow> node_ok n" for m n
    by (induction m) (auto simp: list_all_iff case_prod_unfold)
  assume "list_all item_ok items" "(a, n) \<in> set (stream_anchors items)"
  then obtain item where item: "item_ok item" "n \<in> set (item_nodes item)"
    by (auto simp: stream_anchors_def named_def list_all_iff)
  show ?thesis by (cases item) (use item sub in auto)
qed

lemma anchor_env_ok: "list_all item_ok items \<Longrightarrow> env_ok (anchor_env (stream_anchors items) cyclic)"
  unfolding env_ok_def
proof (intro allI impI)
  fix x n
  assume ok: "list_all item_ok items" and "anchor_env (stream_anchors items) cyclic x = Some n"
  then obtain k where "latest_named (stream_anchors items) x = Some k" "n = snd (stream_anchors items ! k)"
    by (auto simp: anchor_env_def split: option.splits if_split_asm)
  then have "(x, n) \<in> set (stream_anchors items)" using latest_named_range by (metis nth_mem prod.collapse)
  then show "node_ok n" by (rule stream_anchors_ok [OF ok])
qed

lemma expands_items_refl:
  assumes "list_all item_ok items" and "\<And>x. x \<in> alias_names (items_events items) \<Longrightarrow> g x = None"
  shows "list_all2 (expands_item g) items items"
proof -
  have "expands_item g item item" if item: "item \<in> set items" for item
  proof (cases item)
    case (Node n)
    have "g x = None" if "x \<in> alias_names (node_events n)" for x
      using that item Node by (intro assms(2)) (force simp: items_events_def)
    moreover have "node_ok n" using assms(1) item Node by (auto simp: list_all_iff)
    ultimately show ?thesis using Node expands_refl by simp
  qed simp
  then show ?thesis by (simp add: list_all2_same)
qed

lemma expands_items_back:
  "list_all2 (expands_item (next_env g)) (map (subst_item g) items) items' \<Longrightarrow> list_all2 (expands_item g) items items'"
proof -
  have "expands_item (next_env g) (subst_item g item) item' \<Longrightarrow> expands_item g item item'" for item item'
    by (cases item) (auto dest: expands_back)
  then show "list_all2 (expands_item (next_env g)) (map (subst_item g) items) items' \<Longrightarrow> list_all2 (expands_item g) items items'"
    by (auto simp: list_all2_map1 elim: list_all2_mono)
qed

lemma expansion_failed_status: "expansion_failed p b = (st, q) \<Longrightarrow> st = OYL_ERR_MEMORY \<or> st = OYL_ERR_LIMIT"
  by (auto simp: expansion_failed_def split: if_split_asm)

lemma alias_passes_expand:
  "pa_events p = items_events items \<Longrightarrow> list_all item_ok items \<Longrightarrow> pa_mem p = [] \<Longrightarrow>
    (\<forall>x\<in>alias_names (items_events items). name_chain d (anchor_env (stream_anchors items) cyclic) x) \<Longrightarrow> d < 2 ^ n \<Longrightarrow>
    \<exists>st q. alias_passes n limit cyclic p = Some (st, q) \<and>
      (st \<noteq> OYL_OK \<longrightarrow> st = OYL_ERR_MEMORY \<or> st = OYL_ERR_LIMIT) \<and>
      (st = OYL_OK \<longrightarrow> (\<exists>items'. pa_events q = items_events items' \<and> list_all item_ok items' \<and>
         list_all2 (expands_item (anchor_env (stream_anchors items) cyclic)) items items'))"
proof (induction n arbitrary: p items d)
  case 0
  let ?g = "anchor_env (stream_anchors items) cyclic"
  have "list_all2 (expands_item ?g) items items" using 0 by (intro expands_items_refl) auto
  then show ?case using 0(1,2) by auto
next
  case (Suc n)
  let ?es = "items_events items" let ?as = "stream_anchors items" let ?g = "anchor_env ?as cyclic"
  obtain t where t: "atbl_build ?es [] = Some (t, [])" "table_of t ?es ?as" using table_of_stream [OF Suc.prems(2)] .
  obtain out where out: "ebuf_init (length ?es * 2) limit [] = (out, [])" "eb_data out = []"
    by (simp add: ebuf_init_def)
  obtain out1 changed where pass: "alias_pass ?es t cyclic ?es out False [] = (out1, changed, [])"
      and data: "\<not> eb_oom out1 \<longrightarrow> eb_data out1 = concat (map (subst_event ?g) ?es) \<and>
        (changed \<longleftrightarrow> (\<exists>x\<in>alias_names ?es. ?g x \<noteq> None))"
    using alias_pass_substs [OF t(2), of cyclic ?es out False] out(2) by auto
  let ?p = "p\<lparr>pa_mem := []\<rparr>"
  obtain st q where failed: "expansion_failed ?p out1 = (st, q)" by fastforce
  have step: "alias_passes (Suc n) limit cyclic p =
     (if eb_oom out1 then Some (st, q) else if \<not> changed then Some (OYL_OK, ?p)
      else alias_passes n limit cyclic (?p\<lparr>pa_events := eb_data out1, pa_evt_cap := eb_cap out1, pa_evt_cursor := 0\<rparr>))"
    using t(1) out(1) pass failed Suc.prems(1,3) by simp
  consider "eb_oom out1" | "\<not> eb_oom out1" "\<not> changed" | "\<not> eb_oom out1" "changed" by blast
  then show ?case
  proof cases
    case 1
    then show ?thesis using step expansion_failed_status [OF failed] by auto
  next
    case 2
    then have "list_all2 (expands_item ?g) items items"
      using data Suc.prems(2) by (intro expands_items_refl) auto
    then show ?thesis using 2 step Suc.prems(1,2) by auto
  next
    case 3
    let ?items = "map (subst_item ?g) items"
    have env: "anchor_env (stream_anchors ?items) cyclic = next_env ?g"
      unfolding subst_stream_anchors [OF Suc.prems(2)] anchor_env_subst by (simp add: next_env_def fun_eq_iff)
    have events: "eb_data out1 = items_events ?items"
      using data 3 subst_items_events [OF Suc.prems(2)] by simp
    have ok: "list_all item_ok ?items"
      using Suc.prems(2) subst_item_ok [OF anchor_env_ok [OF Suc.prems(2)]] by (auto simp: list_all_iff)
    have "\<forall>x\<in>alias_names (items_events ?items). name_chain (d div 2) (next_env ?g) x"
      using chains_halve [OF anchor_env_ok [OF Suc.prems(2)], of d cyclic] Suc.prems(4)
      unfolding subst_items_events [OF Suc.prems(2)] by blast
    moreover have "d div 2 < 2 ^ n" using Suc.prems(5) by simp
    ultimately obtain st' q' where IH: "alias_passes n limit cyclic
          (?p\<lparr>pa_events := eb_data out1, pa_evt_cap := eb_cap out1, pa_evt_cursor := 0\<rparr>) = Some (st', q')"
        "st' \<noteq> OYL_OK \<longrightarrow> st' = OYL_ERR_MEMORY \<or> st' = OYL_ERR_LIMIT"
        "st' = OYL_OK \<longrightarrow> (\<exists>items'. pa_events q' = items_events items' \<and> list_all item_ok items' \<and>
           list_all2 (expands_item (next_env ?g)) ?items items')"
      using Suc.IH [of "?p\<lparr>pa_events := eb_data out1, pa_evt_cap := eb_cap out1, pa_evt_cursor := 0\<rparr>" ?items "d div 2"]
        events ok env by auto
    then show ?thesis using step 3 expands_items_back by auto
  qed
qed

section \<open>The search for cycles on trees\<close>

text \<open>An anchored node contains an alias of another.\<close>

definition anchor_graph :: "(byte list \<times> oyl_node) list \<Rightarrow> (nat \<times> nat) set" where
  "anchor_graph as = {(k, j). k < length as \<and>
     (\<exists>x\<in>alias_names (node_events (snd (as ! k))). latest_named as x = Some j)}"

text \<open>What an alias of a stream stands for: the latest node with the anchor, unless it leads to a cycle.\<close>

definition stream_env :: "stream_item list \<Rightarrow> alias_env" where
  "stream_env items =
    anchor_env (stream_anchors items)
      (map (reaches_cycle (anchor_graph (stream_anchors items))) [0..<length (stream_anchors items)])"

lemma table_of_graph:
  assumes "table_of t events as"
  shows "refers t events = anchor_graph as"
proof -
  have "set (alias_targets t es) = {j. \<exists>x\<in>alias_names es. latest_named as x = Some j}" for es
    by (induction es) (auto simp: alias_targets_def List.map_filter_simps alias_name_def table_of_lookup [OF assms] split: option.split)
  then have "j \<in> set (alias_targets t (entry_events t events k)) \<longleftrightarrow>
      (\<exists>x\<in>alias_names (node_events (snd (as ! k))). latest_named as x = Some j)" if "k < length as" for k j
    using table_of_nth [OF assms that] by (simp add: entry_events_def)
  then show ?thesis unfolding refers_def anchor_graph_def using table_of_length [OF assms] by auto
qed

lemma chains_within:
  assumes "within (anchor_graph as) n k" and "k < length as"
  shows "\<forall>x\<in>alias_names (node_events (snd (as ! k))). name_chain n (anchor_env as cyclic) x"
  using assms
proof (induction n arbitrary: k)
  case (Suc n)
  show ?case
  proof (intro ballI)
    fix x
    assume x: "x \<in> alias_names (node_events (snd (as ! k)))"
    show "name_chain (Suc n) (anchor_env as cyclic) x"
    proof (cases "anchor_env as cyclic x")
      case (Some m)
      then obtain j where j: "latest_named as x = Some j" "m = snd (as ! j)"
        by (auto simp: anchor_env_def split: option.splits if_split_asm)
      then have "(k, j) \<in> anchor_graph as" using x Suc.prems(2) by (auto simp: anchor_graph_def)
      then have "within (anchor_graph as) n j" using Suc.prems(1) by simp
      then show ?thesis using Suc.IH [of j] latest_named_range [OF j(1)] Some j by auto
    qed (rule name_chain_free)
  qed
qed simp


lemma collect_length: "length (collect es) \<le> length es"
  by (induction es) auto

lemma anchor_env_flags:
  assumes "\<And>k. k < length as \<Longrightarrow> cyclic ! k = cyclic' ! k"
  shows "anchor_env as cyclic = anchor_env as cyclic'"
  using assms latest_named_range by (auto simp: anchor_env_def fun_eq_iff split: option.split)

lemma resolve_aliases_expands:
  assumes "pa_events p = items_events items" and "list_all item_ok items" and "pa_mem p = []"
    and "length (pa_events p) < 2 ^ 31"
  shows "\<exists>st q. resolve_aliases p = Some (st, q) \<and>
    (st \<noteq> OYL_OK \<longrightarrow> st = OYL_ERR_MEMORY \<or> st = OYL_ERR_LIMIT) \<and>
    (st = OYL_OK \<longrightarrow> (\<exists>items'. pa_events q = items_events items' \<and> list_all item_ok items' \<and>
       list_all2 (expands_item (stream_env items)) items items'))"
proof -
  let ?es = "items_events items" let ?as = "stream_anchors items" let ?N = "length (stream_anchors items)"
  obtain t where t: "atbl_build ?es [] = Some (t, [])" "table_of t ?es ?as" using table_of_stream [OF assms(2)] .
  have len: "length (at_entries t) = ?N" using table_of_length [OF t(2)] .
  have small: "Suc ?N < 2 ^ 32"
    using assms(4) collect_length [of ?es] collect_stream [OF assms(2)] unfolding assms(1) by simp
  let ?p = "p\<lparr>pa_mem := []\<rparr>"
  show ?thesis
  proof (cases "?as = []")
    case True
    then have "stream_env items x = None" for x by (simp add: stream_env_def anchor_env_def latest_named_def)
    then have "list_all2 (expands_item (stream_env items)) items items" using assms(2) by (intro expands_items_refl)
    moreover have "resolve_aliases p = Some (OYL_OK, ?p)" using t(1) True len assms(1,3) by (simp add: resolve_aliases_def)
    ultimately show ?thesis using assms(1,2) by auto
  next
    case False
    have ok: "table_ok t" using t(2) by (simp add: table_of_def)
    obtain cyclic where c: "detect_cycles [0..<?N] t (replicate ?N ACYCLE_WHITE) (replicate ?N False) ?es = Some cyclic"
        "length cyclic = ?N" "\<And>k. k < ?N \<Longrightarrow> cyclic ! k \<longleftrightarrow> reaches_cycle (anchor_graph ?as) k"
        "\<And>k. k < ?N \<Longrightarrow> \<not> cyclic ! k \<Longrightarrow> within (anchor_graph ?as) ?N k"
    proof (rule detect_cycles_exact [OF ok, of ?es, unfolded len table_of_graph [OF t(2)]], goal_cases found)
      case (found cyclic)
      show ?case by (rule found(1) [OF found(2-5)])
    qed
    have env: "anchor_env ?as cyclic = stream_env items"
      unfolding stream_env_def using c(3) by (intro anchor_env_flags) simp
    have "\<forall>x\<in>alias_names ?es. name_chain (Suc ?N) (anchor_env ?as cyclic) x"
    proof
      fix x
      show "name_chain (Suc ?N) (anchor_env ?as cyclic) x"
      proof (cases "anchor_env ?as cyclic x")
        case (Some m)
        then obtain j where j: "latest_named ?as x = Some j" "\<not> cyclic ! j" "m = snd (?as ! j)"
          by (auto simp: anchor_env_def split: option.splits if_split_asm)
        have "j < ?N" using latest_named_range [OF j(1)] by simp
        then show ?thesis using chains_within [OF c(4) [OF _ j(2)], of cyclic] Some j(3) by simp
      qed (rule name_chain_free)
    qed
    then obtain st q where "alias_passes 32 (expansion_limit ?p (length ?es)) cyclic ?p = Some (st, q)"
        "st \<noteq> OYL_OK \<longrightarrow> st = OYL_ERR_MEMORY \<or> st = OYL_ERR_LIMIT"
        "st = OYL_OK \<longrightarrow> (\<exists>items'. pa_events q = items_events items' \<and> list_all item_ok items' \<and>
           list_all2 (expands_item (stream_env items)) items items')"
      using alias_passes_expand [of ?p items "Suc ?N" cyclic 32 "expansion_limit ?p (length ?es)"] assms(1,2) small env by auto
    moreover have "resolve_aliases p = alias_passes 32 (expansion_limit ?p (length ?es)) cyclic ?p"
    proof -
      have "at_entries t \<noteq> []" using False len by auto
      then show ?thesis using t(1) len assms(1,3) c(1) by (simp add: resolve_aliases_def Let_def)
    qed
    ultimately show ?thesis by simp
  qed
qed

text \<open>
  C8: resolving aliases is exactly substitution: with memory at hand, on the events of a stream of trees
  it either reports that the budget of events is exceeded, or gives the events of the stream in which
  every alias has been replaced by a copy, without anchors, of the latest node with its anchor, with
  the aliases in the copy replaced in the same way; aliases without such a node, and those that lead to
  a cycle, stay. In particular the 32 passes of the code always suffice.
\<close>

theorem aliases_expand:
  assumes "pa_events p = items_events items" and "list_all item_ok items" and "pa_mem p = []"
    and "length (pa_events p) < 2 ^ 31"
  shows "\<exists>st q. resolve_aliases p = Some (st, q) \<and>
    (st \<noteq> OYL_OK \<longrightarrow> st = OYL_ERR_MEMORY \<or> st = OYL_ERR_LIMIT) \<and>
    (st = OYL_OK \<longrightarrow> (\<exists>items'. pa_events q = items_events items' \<and> list_all item_ok items' \<and>
       list_all2 (expands_item (stream_env items)) items items'))"
  using assms by (rule resolve_aliases_expands)

text \<open>
  The stream \<open>- &a x\<close>, \<open>- &b [*a]\<close>, \<open>- *b\<close>: the last entry becomes \<open>[x]\<close>.
\<close>

definition alias_example_items :: "stream_item list" where
  "alias_example_items =
    [Node (NSeq (plain_event OYL_EVT_SEQUENCE_START)
       [NScalar ((plain_event OYL_EVT_SCALAR)\<lparr>evt_value := Some [LC_X], evt_anchor := Some [LC_A]\<rparr>),
        NSeq ((plain_event OYL_EVT_SEQUENCE_START)\<lparr>evt_anchor := Some [LC_B]\<rparr>)
          [NAlias ((plain_event OYL_EVT_ALIAS)\<lparr>evt_value := Some [LC_A]\<rparr>)]
          (plain_event OYL_EVT_SEQUENCE_END),
        NAlias ((plain_event OYL_EVT_ALIAS)\<lparr>evt_value := Some [LC_B]\<rparr>)]
       (plain_event OYL_EVT_SEQUENCE_END))]"

definition alias_example :: oyl_parser where
  "alias_example = (the (oyl_parser_new [] [] False []))\<lparr>pa_events := items_events alias_example_items\<rparr>"

theorem aliases_expand_witness:
  "\<exists>q items'. resolve_aliases alias_example = Some (OYL_OK, q) \<and> pa_events q = items_events items' \<and>
     list_all2 (expands_item (stream_env alias_example_items)) alias_example_items items'"
proof -
  have len: "length (items_events alias_example_items) = 7" by code_simp
  have "map_option fst (resolve_aliases alias_example) = Some OYL_OK" by code_simp
  moreover have "\<exists>st q. resolve_aliases alias_example = Some (st, q) \<and>
    (st \<noteq> OYL_OK \<longrightarrow> st = OYL_ERR_MEMORY \<or> st = OYL_ERR_LIMIT) \<and>
    (st = OYL_OK \<longrightarrow> (\<exists>items'. pa_events q = items_events items' \<and> list_all item_ok items' \<and>
       list_all2 (expands_item (stream_env alias_example_items)) alias_example_items items'))"
  proof (rule aliases_expand)
    show "pa_events alias_example = items_events alias_example_items" by (simp add: alias_example_def)
    show "list_all item_ok alias_example_items" by code_simp
    show "pa_mem alias_example = []" by code_simp
    show "length (pa_events alias_example) < 2 ^ 31" using len by (simp add: alias_example_def)
  qed
  ultimately show ?thesis by auto
qed

end
