(* ===== verification/OylGrammar.thy ===== *)
theory OylGrammar
  imports OylAliases
begin

text \<open>
  The eager parser of \<open>src/src/oyl_parser.c\<close>: the recursive functions from \<open>parse_flow_sequence\<close> to
  \<open>parse_stream\<close>, which read tokens and append events to the queue of the parser.

  The C functions call each other. Here each is a definition of its own that takes the functions it
  calls as one argument, \<open>rec\<close>, indexed by the datatype \<open>grammar\<close>; a loop's \<open>continue\<close> is such a call,
  too. \<open>parse_call\<close> ties the knot with fuel, one unit for each call; without fuel there is no
  result. How much is enough is shown in the theory \<open>OylGrammarEnds\<close>.

  A C function returns a status and changes the parser: here the result is \<open>None\<close> without fuel, and the
  status with the new parser otherwise. Where the code ignores the result of \<open>enqueue\<close> and \<open>push_ctx\<close>
  so does the model (\<open>send\<close> and \<open>enter\<close>): the failure is in \<open>pa_oom\<close>, which every loop tests.
\<close>

type_synonym parse_result = "(oyl_status \<times> oyl_parser) option"

datatype grammar =
    FLOW_SEQUENCE | FLOW_MAPPING | FLOW_NODE
  | MAP_VALUE int | BLOCK_MAPPING int | BLOCK_SEQUENCE int | BLOCK_NODE

type_synonym parse_rec = "grammar \<Rightarrow> oyl_parser \<Rightarrow> parse_result"

section \<open>Statements\<close>

text \<open>\<open>if (st != OYL_OK) return st;\<close> after a call.\<close>

definition then_ok :: "parse_result \<Rightarrow> (oyl_parser \<Rightarrow> parse_result) \<Rightarrow> parse_result" where
  "then_ok r k = (case r of None \<Rightarrow> None | Some (st, p) \<Rightarrow> if st = OYL_OK then k p else Some (st, p))"

definition ok :: "oyl_parser \<Rightarrow> parse_result" where
  "ok p = Some (OYL_OK, p)"

definition fail_with :: "oyl_parser \<Rightarrow> string \<Rightarrow> parse_result" where
  "fail_with p msg = Some (PARSE_ERROR p msg)"

definition peeked :: "oyl_parser \<Rightarrow> (oyl_parser \<Rightarrow> parse_result) \<Rightarrow> parse_result" where
  "peeked p k = then_ok (peek_token p) k"

definition in_quotes :: "string \<Rightarrow> string" where
  "in_quotes s = CHR 0x27 # s @ [CHR 0x27]"

text \<open>The tests at the head of every function and of every loop.\<close>

definition unless_oom :: "oyl_parser \<Rightarrow> (oyl_parser \<Rightarrow> parse_result) \<Rightarrow> parse_result" where
  "unless_oom p k = (if pa_oom p then Some (OOM_STATUS p, p) else k p)"

definition loop_guard :: "oyl_parser \<Rightarrow> (oyl_parser \<Rightarrow> parse_result) \<Rightarrow> parse_result" where
  "loop_guard p k =
    unless_oom p (\<lambda>p. if over_limit p then Some (OYL_ERR_LIMIT, hit_limit p ''event limit exceeded'') else k p)"

definition send :: "oyl_parser \<Rightarrow> oyl_event \<Rightarrow> oyl_parser" where
  "send p evt = snd (enqueue p evt)"

definition enter :: "oyl_parser \<Rightarrow> ctx_type \<Rightarrow> int \<Rightarrow> oyl_parser" where
  "enter p t indent = snd (pa_push_ctx p t indent)"

definition inserted :: "oyl_parser \<Rightarrow> nat \<Rightarrow> oyl_event \<Rightarrow> (oyl_parser \<Rightarrow> parse_result) \<Rightarrow> parse_result" where
  "inserted p idx evt k =
    (let (success, p) = insert_event p idx evt in if \<not> success then Some (OOM_STATUS p, p) else k p)"

definition cur_start :: "oyl_parser \<Rightarrow> oyl_mark" where
  "cur_start p = tok_start (pa_current p)"

definition cur_end :: "oyl_parser \<Rightarrow> oyl_mark" where
  "cur_end p = tok_end (pa_current p)"

definition cur_line :: "oyl_parser \<Rightarrow> nat" where
  "cur_line p = mk_line (cur_start p)"

definition has_node_props :: "oyl_parser \<Rightarrow> bool" where
  "has_node_props p \<longleftrightarrow> pa_has_anchor p \<or> pa_has_tag p"

text \<open>The events of the current token, and the one that closes a collection before it.\<close>

definition scalar_event :: "oyl_parser \<Rightarrow> oyl_event" where
  "scalar_event p = (event_at OYL_EVT_SCALAR (cur_start p) (cur_end p))
     \<lparr>evt_value := tok_value (pa_current p), evt_scalar_style := tok_style (pa_current p)\<rparr>"

definition alias_event :: "oyl_parser \<Rightarrow> oyl_event" where
  "alias_event p = (event_at OYL_EVT_ALIAS (cur_start p) (cur_end p))\<lparr>evt_value := tok_value (pa_current p)\<rparr>"

definition flow_start :: "oyl_event_type \<Rightarrow> oyl_parser \<Rightarrow> oyl_event" where
  "flow_start t p = (event_at t (cur_start p) (cur_end p))\<lparr>evt_flow := True\<rparr>"

definition event_here :: "oyl_event_type \<Rightarrow> oyl_parser \<Rightarrow> oyl_event" where
  "event_here t p = event_at t (cur_start p) (cur_start p)"

text \<open>A start event gets the pending properties; the collection's context is entered.\<close>

definition open_collection :: "oyl_parser \<Rightarrow> oyl_event \<Rightarrow> ctx_type \<Rightarrow> int \<Rightarrow> oyl_parser" where
  "open_collection p evt t indent = (let (evt, p) = attach_props p evt in enter (send p evt) t indent)"

definition close_block :: "oyl_event_type \<Rightarrow> oyl_parser \<Rightarrow> parse_result" where
  "close_block t p = ok (pa_pop_ctx (send p (event_here t p)))"

definition send_with_props :: "oyl_parser \<Rightarrow> oyl_event \<Rightarrow> oyl_parser" where
  "send_with_props p evt = (let (evt, p) = attach_props p evt in send p evt)"


section \<open>Flow collections\<close>

text \<open>The closing bracket.\<close>

definition close_flow :: "oyl_event_type \<Rightarrow> oyl_parser \<Rightarrow> parse_result" where
  "close_flow t p =
    (let close = cur_start p; close_end = cur_end p
     in ok (pa_pop_ctx (send (consume_token p) (event_at t close close_end))))"

definition flow_value_or_empty :: "oyl_token_type \<Rightarrow> parse_rec \<Rightarrow> oyl_parser \<Rightarrow> parse_result" where
  "flow_value_or_empty close rec p =
    peeked p (\<lambda>p. if cur_type p = OYL_TOK_FLOW_ENTRY \<or> cur_type p = close then ok (emit_empty p) else rec FLOW_NODE p)"

text \<open>The key after a \<open>?\<close>.\<close>

definition flow_key_or_empty :: "oyl_token_type \<Rightarrow> parse_rec \<Rightarrow> oyl_parser \<Rightarrow> parse_result" where
  "flow_key_or_empty close rec p =
    peeked p (\<lambda>p. if cur_type p = OYL_TOK_BLOCK_MAP_VALUE \<or> cur_type p = OYL_TOK_FLOW_ENTRY \<or> cur_type p = close
                  then ok (emit_empty p) else rec FLOW_NODE p)"

definition flow_pair_value :: "oyl_token_type \<Rightarrow> parse_rec \<Rightarrow> oyl_parser \<Rightarrow> parse_result" where
  "flow_pair_value close rec p =
    peeked p (\<lambda>p. if cur_type p = OYL_TOK_BLOCK_MAP_VALUE then flow_value_or_empty close rec (consume_token p)
                  else ok (emit_empty p))"

text \<open>A pair in a flow sequence is a mapping of its own, which ends where the next token starts.\<close>

definition end_flow_pair :: "oyl_parser \<Rightarrow> parse_result" where
  "end_flow_pair p = peeked p (\<lambda>p. ok (send p (event_here OYL_EVT_MAPPING_END p)))"

definition flow_explicit_pair :: "parse_rec \<Rightarrow> oyl_parser \<Rightarrow> parse_result" where
  "flow_explicit_pair rec p =
    (let p = send p (flow_start OYL_EVT_MAPPING_START p)
     in then_ok (flow_key_or_empty OYL_TOK_FLOW_SEQ_END rec (consume_token p)) (\<lambda>p.
        then_ok (flow_pair_value OYL_TOK_FLOW_SEQ_END rec p) end_flow_pair))"

definition flow_implicit_pair :: "parse_rec \<Rightarrow> nat \<Rightarrow> oyl_parser \<Rightarrow> parse_result" where
  "flow_implicit_pair rec key_idx p =
    (let rest = (\<lambda>p. then_ok (flow_value_or_empty OYL_TOK_FLOW_SEQ_END rec (consume_token p)) end_flow_pair)
     in if length (pa_events p) - key_idx > 0 then
          let k = evt_start (pa_events p ! key_idx)
          in inserted p key_idx ((event_at OYL_EVT_MAPPING_START k k)\<lparr>evt_flow := True\<rparr>) rest
        else rest p)"

definition flow_separator :: "grammar \<Rightarrow> oyl_token_type \<Rightarrow> string \<Rightarrow> parse_rec \<Rightarrow> oyl_parser \<Rightarrow> parse_result" where
  "flow_separator loop close msg rec p =
    peeked p (\<lambda>p. if cur_type p = OYL_TOK_FLOW_ENTRY then rec loop (consume_token p)
                  else if cur_type p = close then rec loop p
                  else fail_with p msg)"

definition flow_sequence_separator :: "parse_rec \<Rightarrow> oyl_parser \<Rightarrow> parse_result" where
  "flow_sequence_separator =
    flow_separator FLOW_SEQUENCE OYL_TOK_FLOW_SEQ_END
      (''expected '' @ in_quotes '','' @ '' or '' @ in_quotes '']'' @ '' in flow sequence'')"

definition parse_flow_sequence :: "parse_rec \<Rightarrow> oyl_parser \<Rightarrow> parse_result" where
  "parse_flow_sequence rec p =
    loop_guard p (\<lambda>p. peeked p (\<lambda>p.
      if cur_type p = OYL_TOK_FLOW_SEQ_END then close_flow OYL_EVT_SEQUENCE_END p
      else if cur_type p = OYL_TOK_FLOW_ENTRY
      then fail_with p (''unexpected '' @ in_quotes '','' @ '' in flow sequence'')
      else if cur_type p = OYL_TOK_BLOCK_MAP_KEY
      then then_ok (flow_explicit_pair rec p) (flow_sequence_separator rec)
      else
        let pre_key_len = length (pa_events p)
        in then_ok (rec FLOW_NODE p) (\<lambda>p. peeked p (\<lambda>p.
             if cur_type p = OYL_TOK_BLOCK_MAP_VALUE
             then then_ok (flow_implicit_pair rec pre_key_len p) (flow_sequence_separator rec)
             else flow_sequence_separator rec p))))"

definition flow_mapping_separator :: "parse_rec \<Rightarrow> oyl_parser \<Rightarrow> parse_result" where
  "flow_mapping_separator =
    flow_separator FLOW_MAPPING OYL_TOK_FLOW_MAP_END
      (''expected '' @ in_quotes '','' @ '' or '' @ in_quotes ''}'' @ '' in flow mapping'')"

definition parse_flow_mapping :: "parse_rec \<Rightarrow> oyl_parser \<Rightarrow> parse_result" where
  "parse_flow_mapping rec p =
    loop_guard p (\<lambda>p. peeked p (\<lambda>p.
      if cur_type p = OYL_TOK_FLOW_MAP_END then close_flow OYL_EVT_MAPPING_END p
      else if cur_type p = OYL_TOK_FLOW_ENTRY
      then fail_with p (''unexpected '' @ in_quotes '','' @ '' in flow mapping'')
      else
        then_ok (if cur_type p = OYL_TOK_BLOCK_MAP_KEY then flow_key_or_empty OYL_TOK_FLOW_MAP_END rec (consume_token p)
                 else rec FLOW_NODE p) (\<lambda>p.
        then_ok (flow_pair_value OYL_TOK_FLOW_MAP_END rec p) (flow_mapping_separator rec))))"

definition parse_flow_node :: "parse_rec \<Rightarrow> oyl_parser \<Rightarrow> parse_result" where
  "parse_flow_node rec p =
    unless_oom p (\<lambda>p. then_ok (consume_props p) (\<lambda>p. peeked p (\<lambda>p.
      if cur_type p = OYL_TOK_ALIAS then ok (consume_token (send_with_props p (alias_event p)))
      else if cur_type p = OYL_TOK_FLOW_SEQ_START then
        rec FLOW_SEQUENCE (open_collection (consume_token p) (flow_start OYL_EVT_SEQUENCE_START p) CTX_FLOW_SEQ (tok_col p))
      else if cur_type p = OYL_TOK_FLOW_MAP_START then
        rec FLOW_MAPPING (open_collection (consume_token p) (flow_start OYL_EVT_MAPPING_START p) CTX_FLOW_MAP (tok_col p))
      else if cur_type p = OYL_TOK_SCALAR then
        let (evt, p) = attach_props p (scalar_event p)
        in peeked (consume_token p) (\<lambda>p. ok (send p evt))
      else ok (emit_empty p))))"



section \<open>Block collections\<close>

definition parse_block_map_value :: "parse_rec \<Rightarrow> oyl_parser \<Rightarrow> int \<Rightarrow> parse_result" where
  "parse_block_map_value rec p m_indent =
    unless_oom p (\<lambda>p. peeked p (\<lambda>p.
      if cur_type p \<noteq> OYL_TOK_BLOCK_MAP_VALUE then ok (emit_empty p)
      else peeked (consume_token p) (\<lambda>p.
        let tt = cur_type p; col = tok_col p
        in if tt = OYL_TOK_STREAM_END \<or> tt = OYL_TOK_DOC_START \<or> tt = OYL_TOK_DOC_END then ok (emit_empty p)
           else if col < m_indent \<or> col = m_indent \<and> tt \<noteq> OYL_TOK_BLOCK_SEQ_ENTRY then ok (emit_empty p)
           else rec BLOCK_NODE p)))"

text \<open>A value after a key, and the next round of the loop.\<close>

definition map_entry :: "parse_rec \<Rightarrow> int \<Rightarrow> oyl_parser \<Rightarrow> parse_result" where
  "map_entry rec m_indent p = then_ok (rec (MAP_VALUE m_indent) p) (rec (BLOCK_MAPPING m_indent))"

text \<open>Nothing is indented past the \<open>?\<close>: its key is empty.\<close>

definition explicit_key_empty :: "oyl_parser \<Rightarrow> int \<Rightarrow> bool" where
  "explicit_key_empty p m_indent \<longleftrightarrow>
     tok_col p < m_indent \<or> tok_col p = m_indent \<and> cur_type p \<noteq> OYL_TOK_BLOCK_SEQ_ENTRY \<or>
     cur_type p = OYL_TOK_DOC_START \<or> cur_type p = OYL_TOK_DOC_END \<or> cur_type p = OYL_TOK_STREAM_END"

definition explicit_key :: "parse_rec \<Rightarrow> int \<Rightarrow> oyl_parser \<Rightarrow> parse_result" where
  "explicit_key rec m_indent p =
    peeked p (\<lambda>p.
      if explicit_key_empty p m_indent then ok (emit_empty p)
      else if cur_type p = OYL_TOK_ANCHOR \<or> cur_type p = OYL_TOK_TAG then
        then_ok (consume_props p) (\<lambda>p. peeked p (\<lambda>p.
          if cur_type p = OYL_TOK_BLOCK_MAP_VALUE \<and> tok_col p = m_indent then ok (emit_empty p)
          else rec BLOCK_NODE p))
      else rec BLOCK_NODE p)"

definition explicit_entry :: "parse_rec \<Rightarrow> int \<Rightarrow> oyl_parser \<Rightarrow> parse_result" where
  "explicit_entry rec m_indent p =
    then_ok (explicit_key rec m_indent (consume_token p)) (\<lambda>p. peeked p (\<lambda>p.
      if cur_type p = OYL_TOK_BLOCK_MAP_VALUE \<and> tok_col p > m_indent
      then fail_with p (''explicit mapping value must be at the mapping'' @ [CHR 0x27] @ ''s indentation'')
      else if cur_type p = OYL_TOK_BLOCK_MAP_VALUE \<and> tok_col p < m_indent
      then rec (BLOCK_MAPPING m_indent) (emit_empty p)
      else map_entry rec m_indent p))"

definition expected_colon :: string where
  "expected_colon = ''could not find expected '' @ in_quotes '':'' @ '' after mapping key''"

text \<open>A scalar or an alias must have its colon next; then it is sent.\<close>

definition simple_key :: "parse_rec \<Rightarrow> int \<Rightarrow> oyl_event \<Rightarrow> oyl_parser \<Rightarrow> parse_result" where
  "simple_key rec m_indent evt p =
    (let (evt, p) = attach_props p evt
     in peeked (consume_token p) (\<lambda>p.
          if cur_type p = OYL_TOK_BLOCK_MAP_VALUE then map_entry rec m_indent (send p evt)
          else fail_with p expected_colon))"

definition flow_key :: "parse_rec \<Rightarrow> int \<Rightarrow> oyl_parser \<Rightarrow> parse_result" where
  "flow_key rec m_indent p =
    then_ok (rec FLOW_NODE p) (\<lambda>p. peeked p (\<lambda>p.
      if cur_type p = OYL_TOK_BLOCK_MAP_VALUE then map_entry rec m_indent p else fail_with p expected_colon))"

definition implicit_entry :: "parse_rec \<Rightarrow> int \<Rightarrow> oyl_parser \<Rightarrow> parse_result" where
  "implicit_entry rec m_indent p =
    (let key_start_col = tok_col p
     in then_ok (consume_props p) (\<lambda>p. peeked p (\<lambda>p.
          let tt = cur_type p; col = tok_col p; at_map_indent = (col = m_indent \<or> key_start_col = m_indent)
          in if has_node_props p \<and> cur_line p \<noteq> pa_props_line p
             then fail_with p (''mapping key properties must be on the key'' @ [CHR 0x27] @ ''s line'')
             else if tt = OYL_TOK_BLOCK_MAP_VALUE \<and> key_start_col = m_indent \<and> has_node_props p
             then map_entry rec m_indent (emit_empty p)
             else if tt = OYL_TOK_SCALAR \<and> at_map_indent then simple_key rec m_indent (scalar_event p) p
             else if tt = OYL_TOK_ALIAS \<and> col = m_indent then simple_key rec m_indent (alias_event p) p
             else if (tt = OYL_TOK_FLOW_SEQ_START \<or> tt = OYL_TOK_FLOW_MAP_START) \<and> at_map_indent
             then flow_key rec m_indent p
             else ok p)))"

definition parse_block_mapping :: "parse_rec \<Rightarrow> oyl_parser \<Rightarrow> int \<Rightarrow> parse_result" where
  "parse_block_mapping rec p m_indent =
    loop_guard p (\<lambda>p. peeked p (\<lambda>p.
      let col = tok_col p; tt = cur_type p
      in if tt = OYL_TOK_BLOCK_MAP_KEY \<and> col = m_indent then explicit_entry rec m_indent p
         else if tt = OYL_TOK_BLOCK_MAP_VALUE \<and> col = m_indent then map_entry rec m_indent (emit_empty p)
         else if col \<noteq> m_indent then ok p
         else if tt = OYL_TOK_STREAM_END \<or> tt = OYL_TOK_DOC_START \<or> tt = OYL_TOK_DOC_END \<or> tt = OYL_TOK_BLOCK_SEQ_ENTRY
         then ok p
         else implicit_entry rec m_indent p))"

definition parse_block_sequence :: "parse_rec \<Rightarrow> oyl_parser \<Rightarrow> int \<Rightarrow> parse_result" where
  "parse_block_sequence rec p s_indent =
    loop_guard p (\<lambda>p. peeked p (\<lambda>p.
      if cur_type p \<noteq> OYL_TOK_BLOCK_SEQ_ENTRY \<or> tok_col p \<noteq> s_indent then ok p
      else peeked (consume_token p) (\<lambda>p.
        let tt = cur_type p
        in if tok_col p \<le> s_indent then rec (BLOCK_SEQUENCE s_indent) (emit_empty p)
           else if tt = OYL_TOK_STREAM_END \<or> tt = OYL_TOK_DOC_START \<or> tt = OYL_TOK_DOC_END then ok (emit_empty p)
           else then_ok (rec BLOCK_NODE p) (rec (BLOCK_SEQUENCE s_indent)))))"

section \<open>Block nodes\<close>

definition key_colon_follows :: "oyl_parser \<Rightarrow> nat \<Rightarrow> bool" where
  "key_colon_follows p key_end_line \<longleftrightarrow>
     cur_type p = OYL_TOK_BLOCK_MAP_VALUE \<and> \<not> pa_in_flow p \<and> cur_line p = key_end_line"

text \<open>The value of the first key of a block mapping, its other entries, its end.\<close>

definition rest_of_mapping :: "parse_rec \<Rightarrow> int \<Rightarrow> oyl_parser \<Rightarrow> parse_result" where
  "rest_of_mapping rec m_indent p = then_ok (map_entry rec m_indent p) (close_block OYL_EVT_MAPPING_END)"

text \<open>The pending properties of a node, put aside and back.\<close>

record node_props =
  np_has_anchor :: bool
  np_anchor :: oyl_str
  np_has_tag :: bool
  np_tag :: oyl_str

definition get_props :: "oyl_parser \<Rightarrow> node_props" where
  "get_props p = \<lparr>np_has_anchor = pa_has_anchor p, np_anchor = pa_pending_anchor p,
     np_has_tag = pa_has_tag p, np_tag = pa_pending_tag p\<rparr>"

definition put_props :: "node_props \<Rightarrow> oyl_parser \<Rightarrow> oyl_parser" where
  "put_props np p = p\<lparr>pa_has_anchor := np_has_anchor np, pa_pending_anchor := np_anchor np,
     pa_has_tag := np_has_tag np, pa_pending_tag := np_tag np\<rparr>"

definition no_props :: node_props where
  "no_props = \<lparr>np_has_anchor = False, np_anchor = None, np_has_tag = False, np_tag = None\<rparr>"

definition with_props :: "node_props \<Rightarrow> oyl_event \<Rightarrow> oyl_event" where
  "with_props np evt =
    (let evt = (if np_has_anchor np then evt\<lparr>evt_anchor := np_anchor np\<rparr> else evt)
     in if np_has_tag np then evt\<lparr>evt_tag := np_tag np\<rparr> else evt)"

definition props_conflict :: "node_props \<Rightarrow> node_props \<Rightarrow> bool" where
  "props_conflict a b \<longleftrightarrow> np_has_anchor a \<and> np_has_anchor b \<or> np_has_tag a \<and> np_has_tag b"

definition two_props_msg :: string where
  "two_props_msg = ''a node cannot have two anchors or two tags''"


text \<open>The type of a flow collection: its start event, its context, its function.\<close>

definition flow_event :: "oyl_token_type \<Rightarrow> oyl_event_type" where
  "flow_event tt = (if tt = OYL_TOK_FLOW_SEQ_START then OYL_EVT_SEQUENCE_START else OYL_EVT_MAPPING_START)"

definition flow_ctx :: "oyl_token_type \<Rightarrow> ctx_type" where
  "flow_ctx tt = (if tt = OYL_TOK_FLOW_SEQ_START then CTX_FLOW_SEQ else CTX_FLOW_MAP)"

definition flow_call :: "oyl_token_type \<Rightarrow> grammar" where
  "flow_call tt = (if tt = OYL_TOK_FLOW_SEQ_START then FLOW_SEQUENCE else FLOW_MAPPING)"

subsection \<open>Two sets of properties\<close>

text \<open>The outer properties are pending, the inner ones are those of the node that comes first inside.\<close>

definition double_scalar :: "parse_rec \<Rightarrow> node_props \<Rightarrow> int \<Rightarrow> nat \<Rightarrow> oyl_parser \<Rightarrow> parse_result" where
  "double_scalar rec inner inner_col inner_line p =
    (let evt = with_props inner (scalar_event p); k = evt_start evt;
         scalar_col = (if mk_line k = inner_line then inner_col else tok_col p)
     in peeked (consume_token p) (\<lambda>p.
          if key_colon_follows p (mk_line k) then
            let p = open_collection p (event_at OYL_EVT_MAPPING_START k k) CTX_BLOCK_MAP scalar_col
            in rest_of_mapping rec scalar_col (send p evt)
          else if props_conflict inner (get_props p) then fail_with p two_props_msg
          else ok (send_with_props p evt)))"

definition double_sequence :: "parse_rec \<Rightarrow> node_props \<Rightarrow> oyl_parser \<Rightarrow> parse_result" where
  "double_sequence rec inner p =
    (let col = tok_col p;
         p = open_collection p (event_at OYL_EVT_SEQUENCE_START (cur_start p) (cur_end p)) CTX_BLOCK_SEQ col
     in then_ok (rec (BLOCK_SEQUENCE col) (put_props inner p)) (close_block OYL_EVT_SEQUENCE_END))"

definition double_empty_key :: "parse_rec \<Rightarrow> node_props \<Rightarrow> int \<Rightarrow> oyl_parser \<Rightarrow> parse_result" where
  "double_empty_key rec inner inner_col p =
    (let p = open_collection p (event_here OYL_EVT_MAPPING_START p) CTX_BLOCK_MAP inner_col
     in rest_of_mapping rec inner_col (send p (with_props inner (event_here OYL_EVT_SCALAR p))))"

definition double_flow ::
    "parse_rec \<Rightarrow> node_props \<Rightarrow> node_props \<Rightarrow> oyl_mark \<Rightarrow> int \<Rightarrow> nat \<Rightarrow> oyl_parser \<Rightarrow> parse_result" where
  "double_flow rec inner outer outer_start inner_col inner_line p =
    (let tt = cur_type p; col = tok_col p; key_col = (if cur_line p = inner_line then inner_col else col);
         coll_idx = length (pa_events p);
         p = consume_token (put_props no_props p);
         p = enter (send p (with_props inner (flow_start (flow_event tt) p))) (flow_ctx tt) col
     in then_ok (rec (flow_call tt) p) (\<lambda>p. peeked p (\<lambda>p.
          if cur_type p \<noteq> OYL_TOK_BLOCK_MAP_VALUE then
            if props_conflict inner outer then fail_with p two_props_msg
            else ok (put_props no_props
                   (p\<lparr>pa_events := (pa_events p)[coll_idx := with_props outer (pa_events p ! coll_idx)]\<rparr>))
          else
            inserted p coll_idx
              ((event_at OYL_EVT_MAPPING_START outer_start outer_start)\<lparr>evt_anchor := np_anchor outer, evt_tag := np_tag outer\<rparr>)
              (\<lambda>p. rest_of_mapping rec key_col (enter p CTX_BLOCK_MAP key_col)))))"

definition double_props :: "parse_rec \<Rightarrow> oyl_parser \<Rightarrow> parse_result" where
  "double_props rec p =
    (let outer = get_props p; outer_start = pa_props_start p; p = put_props no_props p;
         inner_col = tok_col p; inner_line = cur_line p
     in then_ok (consume_props p) (\<lambda>p.
          let inner = get_props p; p = (put_props outer p)\<lparr>pa_props_start := outer_start\<rparr>
          in peeked p (\<lambda>p.
               let tt = cur_type p
               in if tt = OYL_TOK_SCALAR then double_scalar rec inner inner_col inner_line p
                  else if tt = OYL_TOK_BLOCK_SEQ_ENTRY then double_sequence rec inner p
                  else if tt = OYL_TOK_BLOCK_MAP_VALUE \<and> \<not> pa_in_flow p then double_empty_key rec inner inner_col p
                  else if tt = OYL_TOK_FLOW_SEQ_START \<or> tt = OYL_TOK_FLOW_MAP_START
                  then double_flow rec inner outer outer_start inner_col inner_line p
                  else ok (emit_empty (put_props inner p)))))"

subsection \<open>The kinds of nodes\<close>

definition block_alias :: "parse_rec \<Rightarrow> oyl_parser \<Rightarrow> parse_result" where
  "block_alias rec p =
    (let evt = alias_event p; k = evt_start evt; alias_col = tok_col p
     in peeked (consume_token p) (\<lambda>p.
          if key_colon_follows p (mk_line k) then
            let p = open_collection p (event_at OYL_EVT_MAPPING_START k k) CTX_BLOCK_MAP alias_col
            in rest_of_mapping rec alias_col (send p evt)
          else if has_node_props p then fail_with p ''an alias cannot have an anchor or tag''
          else ok (send p evt)))"

text \<open>The colon after a flow collection may be that of an entry of the mapping around it.\<close>

definition colon_in_parent :: "oyl_parser \<Rightarrow> bool" where
  "colon_in_parent p =
    (case pa_top_ctx p of None \<Rightarrow> False | Some c \<Rightarrow> ce_type c = CTX_BLOCK_MAP \<and> tok_col p = ce_indent c)"

definition block_flow :: "parse_rec \<Rightarrow> oyl_parser \<Rightarrow> parse_result" where
  "block_flow rec p =
    (let tt = cur_type p; col = tok_col p;
         flow_col = (if has_node_props p \<and> pa_props_line p = cur_line p then pa_props_col p else col);
         props_before_line = (has_node_props p \<and> pa_props_line p \<noteq> cur_line p);
         own_anchor = (if pa_has_anchor p then pa_pending_anchor p else None);
         own_tag = (if pa_has_tag p then pa_pending_tag p else None);
         saved_evt_len = length (pa_events p); open_start = cur_start p;
         p = open_collection (consume_token p) (flow_start (flow_event tt) p) (flow_ctx tt) col
     in then_ok (rec (flow_call tt) p) (\<lambda>p. peeked p (\<lambda>p.
          if key_colon_follows p (mk_line (evt_end (last (pa_events p)))) \<and> \<not> colon_in_parent p then
            let k = evt_start (pa_events p ! saved_evt_len); map_evt = event_at OYL_EVT_MAPPING_START k k;
                (map_evt, p) =
                  (if props_before_line then move_props_to_key_map p saved_evt_len map_evt open_start own_anchor own_tag
                   else (map_evt, p))
            in inserted p saved_evt_len map_evt (\<lambda>p. rest_of_mapping rec flow_col (enter p CTX_BLOCK_MAP flow_col))
          else ok p)))"

definition block_sequence_node :: "parse_rec \<Rightarrow> oyl_parser \<Rightarrow> parse_result" where
  "block_sequence_node rec p =
    (let col = tok_col p;
         p = open_collection p (event_at OYL_EVT_SEQUENCE_START (cur_start p) (cur_end p)) CTX_BLOCK_SEQ col
     in then_ok (rec (BLOCK_SEQUENCE col) p) (close_block OYL_EVT_SEQUENCE_END))"

text \<open>A scalar that its colon makes the first key of a mapping.\<close>

definition scalar_key_mapping :: "parse_rec \<Rightarrow> oyl_event \<Rightarrow> int \<Rightarrow> oyl_parser \<Rightarrow> parse_result" where
  "scalar_key_mapping rec evt map_col p =
    (let k = evt_start evt; map_evt = event_at OYL_EVT_MAPPING_START k k;
         p = (if has_node_props p \<and> pa_props_line p \<noteq> mk_line k
              then send (open_collection p map_evt CTX_BLOCK_MAP map_col) evt
              else send_with_props (enter (send p map_evt) CTX_BLOCK_MAP map_col) evt)
     in rest_of_mapping rec map_col p)"

definition belongs_to_parent :: "oyl_parser \<Rightarrow> bool" where
  "belongs_to_parent p =
    (case pa_top_ctx p of None \<Rightarrow> False | Some c \<Rightarrow> ce_type c = CTX_BLOCK_MAP \<and> tok_col p \<le> ce_indent c)"

definition block_scalar :: "parse_rec \<Rightarrow> oyl_parser \<Rightarrow> parse_result" where
  "block_scalar rec p =
    (if belongs_to_parent p then ok (emit_empty p)
     else
       let evt = scalar_event p; scalar_line = cur_line p; scalar_col = tok_col p
       in peeked (consume_token p) (\<lambda>p.
            let eff_key_col = (if has_node_props p \<and> pa_props_line p = scalar_line \<and> pa_props_col p < scalar_col
                               then pa_props_col p else scalar_col);
                nested = (case pa_top_ctx p of None \<Rightarrow> True
                          | Some c \<Rightarrow> eff_key_col > ce_indent c \<and> tok_col p > ce_indent c)
            in if key_colon_follows p scalar_line \<and> nested then scalar_key_mapping rec evt eff_key_col p
               else ok (send_with_props p evt)))"

definition block_explicit_key :: "parse_rec \<Rightarrow> oyl_parser \<Rightarrow> parse_result" where
  "block_explicit_key rec p =
    (let col = tok_col p;
         p = open_collection p (event_at OYL_EVT_MAPPING_START (cur_start p) (cur_end p)) CTX_BLOCK_MAP col
     in then_ok (rec (BLOCK_MAPPING col) p) (close_block OYL_EVT_MAPPING_END))"

definition block_bare_value :: "parse_rec \<Rightarrow> oyl_parser \<Rightarrow> parse_result" where
  "block_bare_value rec p =
    (if has_node_props p \<and> pa_props_line p = cur_line p then
       let map_col = pa_props_col p; k = pa_props_start p;
           p = enter (send p (event_at OYL_EVT_MAPPING_START k k)) CTX_BLOCK_MAP map_col
       in rest_of_mapping rec map_col (send_with_props p (event_here OYL_EVT_SCALAR p))
     else
       let col = tok_col p;
           p = open_collection p (event_at OYL_EVT_MAPPING_START (cur_start p) (cur_end p)) CTX_BLOCK_MAP col
       in then_ok (rec (BLOCK_MAPPING col) p) (close_block OYL_EVT_MAPPING_END))"

text \<open>A new line that is not indented past the enclosing block collection starts its next entry.\<close>

definition left_of_parent :: "oyl_parser \<Rightarrow> bool" where
  "left_of_parent p =
    (case pa_top_ctx p of
       None \<Rightarrow> False
     | Some c \<Rightarrow> tok_col p < ce_indent c \<or>
         tok_col p = ce_indent c \<and> \<not> (cur_type p = OYL_TOK_BLOCK_SEQ_ENTRY \<and> ce_type c = CTX_BLOCK_MAP))"

definition dash_of_parent :: "oyl_parser \<Rightarrow> bool" where
  "dash_of_parent p =
    (case pa_top_ctx p of
       None \<Rightarrow> False
     | Some c \<Rightarrow> tok_col p < ce_indent c \<or> ce_type c = CTX_BLOCK_SEQ \<and> tok_col p = ce_indent c)"

definition block_content :: "parse_rec \<Rightarrow> oyl_parser \<Rightarrow> parse_result" where
  "block_content rec p =
    (let tt = cur_type p
     in if tt = OYL_TOK_ALIAS then block_alias rec p
        else if tt = OYL_TOK_FLOW_SEQ_START \<or> tt = OYL_TOK_FLOW_MAP_START then block_flow rec p
        else if has_node_props p \<and> (tt = OYL_TOK_DOC_START \<or> tt = OYL_TOK_DOC_END \<or> tt = OYL_TOK_STREAM_END)
        then ok (emit_empty p)
        else if has_node_props p \<and> tt = OYL_TOK_BLOCK_SEQ_ENTRY \<and> dash_of_parent p then ok (emit_empty p)
        else if tt = OYL_TOK_BLOCK_SEQ_ENTRY then block_sequence_node rec p
        else if tt = OYL_TOK_SCALAR then block_scalar rec p
        else if tt = OYL_TOK_BLOCK_MAP_KEY then block_explicit_key rec p
        else if tt = OYL_TOK_BLOCK_MAP_VALUE \<and> \<not> pa_in_flow p then block_bare_value rec p
        else ok (emit_empty p))"

definition parse_block_node :: "parse_rec \<Rightarrow> oyl_parser \<Rightarrow> parse_result" where
  "parse_block_node rec p =
    unless_oom p (\<lambda>p. then_ok (consume_props p) (\<lambda>p. peeked p (\<lambda>p.
      let tt = cur_type p
      in if tt = OYL_TOK_BLOCK_SEQ_ENTRY \<and> has_node_props p \<and> cur_line p = pa_props_line p
         then fail_with p ''block sequence cannot start on the same line as its properties''
         else if has_node_props p \<and> \<not> pa_in_flow p \<and> cur_line p \<noteq> pa_props_line p \<and> left_of_parent p
         then ok (emit_empty p)
         else if (tt = OYL_TOK_ANCHOR \<or> tt = OYL_TOK_TAG) \<and> has_node_props p then double_props rec p
         else block_content rec p)))"

section \<open>The calls together\<close>

primrec parse_call :: "nat \<Rightarrow> parse_rec" where
  "parse_call 0 g p = None"
| "parse_call (Suc n) g p =
    (case g of
       FLOW_SEQUENCE \<Rightarrow> parse_flow_sequence (parse_call n) p
     | FLOW_MAPPING \<Rightarrow> parse_flow_mapping (parse_call n) p
     | FLOW_NODE \<Rightarrow> parse_flow_node (parse_call n) p
     | MAP_VALUE m_indent \<Rightarrow> parse_block_map_value (parse_call n) p m_indent
     | BLOCK_MAPPING m_indent \<Rightarrow> parse_block_mapping (parse_call n) p m_indent
     | BLOCK_SEQUENCE s_indent \<Rightarrow> parse_block_sequence (parse_call n) p s_indent
     | BLOCK_NODE \<Rightarrow> parse_block_node (parse_call n) p)"


section \<open>Documents\<close>

text \<open>
  The loop over directives, the flags \<open>had_directive\<close> and \<open>had_yaml\<close> being the loop's. Each round is
  one unit of fuel.
\<close>

fun doc_directives :: "nat \<Rightarrow> bool \<Rightarrow> bool \<Rightarrow> oyl_parser \<Rightarrow> (bool \<Rightarrow> oyl_parser \<Rightarrow> parse_result) \<Rightarrow> parse_result" where
  "doc_directives n had_directive had_yaml p k =
    (if cur_type p \<noteq> OYL_TOK_DIRECTIVE then k had_directive p
     else if pa_doc_open p
     then fail_with p (''directive requires a preceding document end marker '' @ in_quotes ''...'')
     else
       case parse_directive p had_yaml of
         (st, had_yaml, p) \<Rightarrow>
           if st \<noteq> OYL_OK then Some (st, p)
           else case n of
                  0 \<Rightarrow> None
                | Suc n \<Rightarrow> peeked (consume_token p) (\<lambda>p. doc_directives n True had_yaml p k))"

declare doc_directives.simps [simp del]

text \<open>The contexts still open are closed, then the document.\<close>

definition end_document :: "bool \<Rightarrow> oyl_mark \<Rightarrow> oyl_parser \<Rightarrow> oyl_parser" where
  "end_document is_implicit e p =
    (if pa_doc_open p then
       let k = cur_start p; p = unroll_all p k
       in (send p ((event_at OYL_EVT_DOC_END k e)\<lparr>evt_implicit := is_implicit\<rparr>))\<lparr>pa_doc_open := False\<rparr>
     else p)"

definition document_root :: "parse_rec \<Rightarrow> oyl_parser \<Rightarrow> parse_result" where
  "document_root rec p = then_ok (rec BLOCK_NODE p) expect_document_end"

definition explicit_document :: "parse_rec \<Rightarrow> oyl_parser \<Rightarrow> parse_result" where
  "explicit_document rec p =
    (let p = end_document True (cur_start p) p; doc_start = cur_start p; doc_end = cur_end p;
         p = consume_token (p\<lparr>pa_doc_start_line := mk_line doc_start\<rparr>);
         p = (send p (event_at OYL_EVT_DOC_START doc_start doc_end))\<lparr>pa_doc_open := True\<rparr>
     in peeked p (\<lambda>p.
          if cur_type p = OYL_TOK_DIRECTIVE
          then fail_with p (''directive requires a preceding document end marker '' @ in_quotes ''...'')
          else if cur_type p = OYL_TOK_STREAM_END \<or> cur_type p = OYL_TOK_DOC_END \<or> cur_type p = OYL_TOK_DOC_START
          then ok (emit_empty p)
          else document_root rec p))"

definition implicit_document :: "parse_rec \<Rightarrow> oyl_parser \<Rightarrow> parse_result" where
  "implicit_document rec p =
    (let p = (if \<not> pa_doc_open p then ensure_doc (p\<lparr>pa_doc_start_line := 0\<rparr>) False (cur_start p) else p)
     in document_root rec p)"

definition document_body :: "parse_rec \<Rightarrow> bool \<Rightarrow> oyl_parser \<Rightarrow> parse_result" where
  "document_body rec had_directive p =
    (if had_directive \<and> cur_type p \<noteq> OYL_TOK_DOC_START
     then fail_with p (''directives must be followed by a document start marker '' @ in_quotes ''---'')
     else if cur_type p = OYL_TOK_DOC_START then explicit_document rec p
     else if cur_type p = OYL_TOK_DOC_END then ok (consume_token (end_document False (cur_end p) p))
     else if cur_type p = OYL_TOK_STREAM_END then ok p
     else if cur_type p = OYL_TOK_FLOW_SEQ_END \<or> cur_type p = OYL_TOK_FLOW_MAP_END \<or> cur_type p = OYL_TOK_FLOW_ENTRY
     then fail_with p ''unexpected flow indicator outside a flow collection''
     else implicit_document rec p)"

definition parse_document :: "nat \<Rightarrow> oyl_parser \<Rightarrow> parse_result" where
  "parse_document n p =
    unless_oom p (\<lambda>p. peeked p (\<lambda>p.
      let p = (if cur_type p \<noteq> OYL_TOK_DOC_END \<and> cur_type p \<noteq> OYL_TOK_STREAM_END
               then p\<lparr>pa_tag_directives := []\<rparr> else p)
      in doc_directives n False False p (document_body (parse_call n))))"

section \<open>The stream\<close>

definition start_stream :: "oyl_parser \<Rightarrow> parse_result" where
  "start_stream p =
    (if \<not> pa_stream_started p then
       peeked p (\<lambda>p.
         let b = cur_start p; e = cur_end p
         in ok ((send (consume_token p) (event_at OYL_EVT_STREAM_START b e))\<lparr>pa_stream_started := True\<rparr>))
     else ok p)"

text \<open>The last status of \<open>parse_stream\<close>.\<close>

definition status_of :: "oyl_parser \<Rightarrow> parse_result" where
  "status_of p = Some (if pa_oom p then OOM_STATUS p else OYL_OK, p)"

definition end_stream :: "oyl_parser \<Rightarrow> parse_result" where
  "end_stream p =
    (let p = end_document True (cur_start p) p; b = cur_start p; e = cur_end p
     in status_of ((send (consume_token p) (event_at OYL_EVT_STREAM_END b e))\<lparr>pa_stream_ended := True\<rparr>))"

definition parse_stream :: "nat \<Rightarrow> oyl_parser \<Rightarrow> parse_result" where
  "parse_stream n p =
    then_ok (start_stream p) (\<lambda>p. peeked p (\<lambda>p.
      if cur_type p = OYL_TOK_STREAM_END \<or> cur_type p = OYL_TOK_NONE then end_stream p
      else
        let prev_off = mk_offset (cur_start p); prev_type = cur_type p
        in then_ok (parse_document n p) (\<lambda>p.
             if pa_have_token p \<and> mk_offset (cur_start p) = prev_off \<and> cur_type p = prev_type
             then fail_with p ''unexpected token''
             else status_of p)))"

end
