(* ===== verification/OylTokens.thy ===== *)
theory OylTokens
  imports OylScanner
begin

text \<open>
  What the parser relies on in \<open>oyl_scan_token\<close>, beyond that it returns and keeps its invariant: the
  status of a failure is \<open>OYL_ERR_SCAN\<close> or \<open>OYL_ERR_MEMORY\<close>, never \<open>OYL_OK\<close>; the tokens with a meaning
  for the grammar consume input; the end of the stream is the end.
\<close>

section \<open>The status of a failure\<close>

definition scan_failure :: "oyl_status \<Rightarrow> bool" where
  "scan_failure e \<longleftrightarrow> e = OYL_ERR_SCAN \<or> e = OYL_ERR_MEMORY"

lemma scan_failure_simps [simp]: "scan_failure OYL_ERR_SCAN" "scan_failure OYL_ERR_MEMORY"
  by (simp_all add: scan_failure_def)

definition fails_ok :: "(oyl_status + 'a) \<times> oyl_scanner \<Rightarrow> bool" where
  "fails_ok r \<longleftrightarrow> (case fst r of Inl e \<Rightarrow> scan_failure e | Inr x \<Rightarrow> True)"


lemma fails_ok_simps [simp]:
  "fails_ok (Inl e, s) = scan_failure e" "fails_ok (Inr x, s)" "fails_ok (scan_error s msg)"
  by (simp_all add: fails_ok_def scan_error_def)

lemma fails_okD: "fails_ok r \<Longrightarrow> r = (Inl e, s) \<Longrightarrow> scan_failure e"
  by (simp add: fails_ok_def)

text \<open>The shapes of the routines.\<close>

lemma fails_Let: "(\<And>x. fails_ok (f x)) \<Longrightarrow> fails_ok (Let a f)"
  by simp

lemma fails_prod: "(\<And>a b. fails_ok (f a b)) \<Longrightarrow> fails_ok (case p of (a, b) \<Rightarrow> f a b)"
  by (simp split: prod.split)

lemma fails_option:
  "fails_ok n \<Longrightarrow> (\<And>x. fails_ok (f x)) \<Longrightarrow> fails_ok (case r of None \<Rightarrow> n | Some x \<Rightarrow> f x)"
  by (simp split: option.split)

lemma fails_if: "fails_ok x \<Longrightarrow> fails_ok y \<Longrightarrow> fails_ok (if b then x else y)"
  by simp

lemma fails_loop:
  "fails_ok r \<Longrightarrow> (\<And>x s. fails_ok (f x s)) \<Longrightarrow>
    fails_ok (case r of (x, s) \<Rightarrow> (case x of Inl e \<Rightarrow> (Inl e, s) | Inr x \<Rightarrow> f x s))"
  by (cases r; cases "fst r") simp_all

lemma fails_sum: "(\<And>e. fails_ok (f e)) \<Longrightarrow> (\<And>x. fails_ok (g x)) \<Longrightarrow> fails_ok (case r of Inl e \<Rightarrow> f e | Inr x \<Rightarrow> g x)"
  by (simp split: sum.split)

lemma fails_done: "fails_ok (Inr x, s)" "fails_ok (scan_error s msg)" "fails_ok (Inl OYL_ERR_MEMORY, s)"
  by simp_all

lemmas fails_rules = fails_done fails_loop fails_Let fails_option fails_if fails_prod fails_sum

lemma sq_loop_fails: "fails_ok (sq_loop s out cap)"
proof (induction s out cap rule: sq_loop.induct)
  case (1 s out cap)
  then show ?case
    by (subst sq_loop.simps) (auto simp: Let_def split: if_split option.splits prod.splits)
qed

lemma single_quoted_fails: "fails_ok (scan_single_quoted s)"
  unfolding scan_single_quoted_def quoted_token_def by (rule sq_loop_fails fails_rules)+

lemma dq_escape_fails: "fails_ok (dq_escape s esc)"
  unfolding dq_escape_def dq_hex_escape_def dq_unicode_escape_def dq_break_escape_def by (rule fails_rules)+

lemma dq_loop_fails: "fails_ok (dq_loop s out ce)"
proof (induction s out ce rule: dq_loop.induct)
  case (1 s out ce)
  then show ?case
    using fails_okD [OF dq_escape_fails]
    by (subst dq_loop.simps) (auto simp: Let_def split: if_split option.splits prod.splits sum.splits)
qed

lemma double_quoted_fails: "fails_ok (scan_double_quoted s)"
  unfolding scan_double_quoted_def quoted_token_def by (rule dq_loop_fails fails_rules)+

lemma tag_fails: "fails_ok (scan_tag s)"
  unfolding scan_tag_def tag_token_def by (rule fails_rules)+

lemma anchor_fails: "fails_ok (scan_anchor_or_alias s)"
  unfolding scan_anchor_or_alias_def by (rule fails_rules)+

lemma block_scalar_fails: "fails_ok (scan_block_scalar s)"
  unfolding scan_block_scalar_def bs_body_def
  by (rule fails_rules)+

fun step_failure :: "plain_result \<Rightarrow> bool" where
  "step_failure (PlainFail e s) = scan_failure e"
| "step_failure _ = True"

lemma step_failure_rules:
  "step_failure (PlainMore t b)" "step_failure (PlainDone t b)" "step_failure (PlainFail OYL_ERR_SCAN t)"
  "(\<And>b s. step_failure (f b s)) \<Longrightarrow> step_failure (appended r f)"
  "(\<And>x. step_failure (g x)) \<Longrightarrow> step_failure (Let a g)"
  "step_failure x \<Longrightarrow> step_failure y \<Longrightarrow> step_failure (if c then x else y)"
  "(\<And>a b. step_failure (h a b)) \<Longrightarrow> step_failure (case p of (a, b) \<Rightarrow> h a b)"
  by (auto simp: appended_def split: prod.splits option.splits)

lemma plain_step_failure: "step_failure (plain_step s start b)"
  unfolding plain_step_def plain_char_def plain_colon_def plain_hash_def plain_blanks_def plain_break_def
  by (rule step_failure_rules)+

lemma plain_loop_fails: "fails_ok (plain_loop s start b)"
proof (induction s start b rule: plain_loop.induct)
  case (1 s start b)
  then show ?case
    using plain_step_failure [of s start b]
    by (subst plain_loop.simps) (auto split: plain_result.splits)
qed

lemma plain_scalar_fails: "fails_ok (scan_plain_scalar s)"
  unfolding scan_plain_scalar_def by (rule plain_loop_fails fails_rules)+

lemma scan_content_fails: "fails_ok (scan_content s)"
  by (simp add: scan_content_def Let_def tag_fails anchor_fails single_quoted_fails double_quoted_fails
      block_scalar_fails plain_scalar_fails)

lemma scan_indicator_fails: "fails_ok (scan_indicator s)"
  unfolding scan_indicator_def scan_flow_open_def scan_flow_close_def scan_flow_comma_def scan_seq_entry_def
    scan_block_key_def scan_flow_key_def scan_block_value_def scan_flow_value_def
  by (rule scan_content_fails fails_rules)+

lemma token_failure: "oyl_scan_token s = Some (Inl e, s') \<Longrightarrow> scan_failure e"
  using fails_okD [OF scan_indicator_fails]
  by (auto simp: oyl_scan_token_def scan_error_def scan_stream_end_def scan_token_at_def scan_doc_start_def scan_doc_end_def
      scan_directive_def Let_def
      split: list.splits if_split_asm option.splits prod.splits bind_split_asm)


section \<open>What a token leaves alone\<close>

definition scan_keeps :: "oyl_scanner \<Rightarrow> oyl_scanner \<Rightarrow> bool" where
  "scan_keeps s s' \<longleftrightarrow> sc_buf s' = sc_buf s \<and> sc_pending s' = sc_pending s \<and> sc_pos s \<le> sc_pos s' \<and>
     sc_stream_started s' = sc_stream_started s"

lemma moves_keeps: "moves s s' \<Longrightarrow> scan_keeps s s'"
  by (simp add: moves_def same_struct_def scan_keeps_def)

lemma scan_keeps_trans: "scan_keeps s t \<Longrightarrow> scan_keeps t u \<Longrightarrow> scan_keeps s u"
  by (auto simp: scan_keeps_def)

lemma advance1_keeps [simp]: "scan_keeps s (advance1 s)"
  by (rule moves_keeps) (rule advance1_moves)

lemma unroll_keeps:
  "scanner_inv s \<Longrightarrow> - 1 \<le> col \<Longrightarrow> maybe_unroll_indents s col = Some t \<Longrightarrow> scan_keeps s t \<and> scanner_inv t"
proof -
  assume a: "scanner_inv s" "- 1 \<le> col" "maybe_unroll_indents s col = Some t"
  obtain u where u: "maybe_unroll_indents s col = Some u" "scanner_inv u"
    "u = s\<lparr>sc_indent := sc_indent u, sc_indents := sc_indents u\<rparr>" using maybe_unroll_ok [OF a(1,2)] by blast
  have "scan_keeps s (s\<lparr>sc_indent := a, sc_indents := b\<rparr>)" for a b by (simp add: scan_keeps_def)
  with u a(3) show ?thesis by (metis option.inject)
qed

lemma advance1_frame [simp]:
  "sc_buf (advance1 s) = sc_buf s" "sc_pending (advance1 s) = sc_pending s"
  "sc_stream_started (advance1 s) = sc_stream_started s" "sc_pos s \<le> sc_pos (advance1 s)"
  using advance1_keeps [of s] by (simp_all add: scan_keeps_def)

lemma advance_frame [simp]:
  "sc_buf (advance s n) = sc_buf s" "sc_pending (advance s n) = sc_pending s"
  "sc_stream_started (advance s n) = sc_stream_started s" "sc_pos s \<le> sc_pos (advance s n)"
  using moves_keeps [OF advance_moves, of s n] by (simp_all add: scan_keeps_def)

lemma push_keeps [simp]:
  "sc_pending (push_if_deeper s c) = sc_pending s" "sc_stream_started (push_if_deeper s c) = sc_stream_started s"
  by (auto simp: push_if_deeper_def indent_push_def Let_def split: prod.splits)

lemma classify_colon_keeps: "classify_colon s = (k, t) \<Longrightarrow> sc_pos t = sc_pos s \<and> sc_buf t = sc_buf s \<and>
    sc_pending t = sc_pending s \<and> sc_stream_started t = sc_stream_started s"
  by (auto simp: classify_colon_def Let_def split: if_splits)

lemma flow_pop_keeps: "flow_pop s = (k, t) \<Longrightarrow> sc_pos t = sc_pos s \<and> sc_buf t = sc_buf s \<and>
    sc_pending t = sc_pending s \<and> sc_stream_started t = sc_stream_started s"
  by (auto simp: flow_pop_def Let_def split: list.splits if_splits)

lemma flow_push_keeps: "flow_push s m = (k, t) \<Longrightarrow> sc_pos t = sc_pos s \<and> sc_buf t = sc_buf s \<and>
    sc_pending t = sc_pending s \<and> sc_stream_started t = sc_stream_started s"
  by (auto simp: flow_push_def Let_def split: prod.splits if_splits)

lemma advance1_le: "sc_pos t = n \<Longrightarrow> n \<le> sc_pos (advance1 t)"
  using advance1_frame(4) [of t] by simp

lemma structure_keeps:
  "scan_keeps s (snd (scan_flow_comma s))" "scan_keeps s (snd (scan_seq_entry s))"
  "scan_keeps s (snd (scan_block_key s))" "scan_keeps s (snd (scan_flow_key s))"
  "scan_keeps s (snd (scan_doc_start s))" "scan_keeps s (snd (scan_doc_end s))"
  by (auto simp: scan_keeps_def scan_flow_comma_def scan_seq_entry_def scan_block_key_def scan_flow_key_def
      scan_doc_start_def scan_doc_end_def scan_error_def Let_def advance_1 intro!: advance1_le)

lemma flow_open_keeps: "scan_keeps s (snd (scan_flow_open s m))"
  by (auto simp: scan_keeps_def scan_flow_open_def scan_error_def Let_def advance_1 dest!: flow_push_keeps
      intro!: advance1_le split: prod.splits)

lemma flow_close_keeps: "scan_keeps s (snd (scan_flow_close s m))"
  by (auto simp: scan_keeps_def scan_flow_close_def scan_error_def note_node_def Let_def advance_1 dest!: flow_pop_keeps
      intro!: advance1_le split: prod.splits)

lemma value_keeps: "scan_keeps s (snd (scan_block_value s))" "scan_keeps s (snd (scan_flow_value s))"
  by (auto simp: scan_keeps_def scan_block_value_def scan_flow_value_def scan_error_def Let_def advance_1
      dest!: classify_colon_keeps intro!: advance1_le split: prod.splits)

lemma directive_keeps: "scan_keeps s (snd (scan_directive s))"
  by (simp add: scan_directive_def Let_def moves_keeps advance_cols_moves)

lemma indicator_keeps: "scan_keeps s (snd (scan_indicator s))"
proof -
  have "scan_keeps (s\<lparr>sc_last_was_quoted := False\<rparr>) (snd (scan_content (s\<lparr>sc_last_was_quoted := False\<rparr>)))"
    by (rule moves_keeps, rule scan_content_moves, rule prod.collapse [symmetric])
  then have "scan_keeps s (snd (scan_content (s\<lparr>sc_last_was_quoted := False\<rparr>)))" by (simp add: scan_keeps_def)
  then show ?thesis
    by (simp add: scan_indicator_def Let_def structure_keeps flow_open_keeps flow_close_keeps value_keeps)
qed

text \<open>What every call keeps: the invariant, and that nothing is pending.\<close>

definition scanner_ok :: "oyl_scanner \<Rightarrow> bool" where
  "scanner_ok s \<longleftrightarrow> scanner_inv s \<and> sc_pending s = []"

text \<open>A token that the grammar acts on.\<close>

definition token_counts :: "oyl_token_type \<Rightarrow> bool" where
  "token_counts t \<longleftrightarrow> t \<noteq> OYL_TOK_SCALAR \<and> t \<noteq> OYL_TOK_STREAM_START \<and> t \<noteq> OYL_TOK_STREAM_END \<and> t \<noteq> OYL_TOK_NONE"

lemma token_keeps:
  assumes "scanner_ok s" and "oyl_scan_token s = Some (r, s')"
  shows "scanner_ok s'" and "sc_buf s' = sc_buf s" and "sc_pos s \<le> sc_pos s'"
    and "r = Inr tok \<Longrightarrow> token_counts (tok_type tok) \<Longrightarrow> sc_pos s < sc_pos s'"
    and "r = Inl e \<Longrightarrow> e \<noteq> OYL_OK"
proof -
  have inv: "scanner_inv s" "sc_pending s = []" using assms(1) by (simp_all add: scanner_ok_def)
  obtain err t where t: "skip_blanks_and_comments s = (err, t)" by fastforce
  have m: "moves s t" using skip_blanks_and_comments_moves [OF t] .
  then have tk: "scan_keeps s t" "scanner_inv t" using moves_keeps moves_inv inv(1) by blast+
  have at: "scan_keeps u (snd x)" if "scan_token_at u = Some x" "scanner_inv u" for u x
    using that unroll_keeps [OF that(2), of "- 1"] structure_keeps(5,6) indicator_keeps directive_keeps
    by (auto simp: scan_token_at_def split: if_split_asm intro: scan_keeps_trans)
  have unroll: "scan_keeps s v" if "maybe_unroll_indents (t\<lparr>sc_stream_ended := True\<rparr>) (- 1) = Some v" for v
    using unroll_keeps [OF _ _ that] tk by (auto simp: scan_keeps_def)
  have keeps: "s' = s\<lparr>sc_stream_started := True\<rparr> \<or> scan_keeps s s'"
  proof (cases "sc_stream_started s \<and> err = None \<and> \<not> AT_END t")
    case False
    consider "\<not> sc_stream_started s" | msg where "sc_stream_started s" "err = Some msg"
      | "sc_stream_started s" "err = None" "AT_END t" using False by (cases err) auto
    then show ?thesis
    proof cases
      case 2
      then have "s' = snd (scan_error t msg :: scan_result)" using assms(2) inv(2) t by (simp add: oyl_scan_token_def)
      then show ?thesis using tk(1) by (simp add: scan_error_def scan_keeps_def)
    next
      case 3
      then have "scan_stream_end t = Some (r, s')" using assms(2) inv(2) t by (simp add: oyl_scan_token_def)
      then show ?thesis using tk(1) unroll scan_keeps_trans by (fastforce simp: scan_stream_end_def split: if_split_asm)
    qed (use assms(2) inv(2) in \<open>simp add: oyl_scan_token_def\<close>)
  next
    case True
    have le: "(- 1 :: int) \<le> int (sc_col t) - 1" by simp
    have "Option.bind (if sc_flow_level t = 0 then maybe_unroll_indents t (int (sc_col t) - 1) else Some t) scan_token_at = Some (r, s')"
      using True assms(2) inv(2) t by (simp add: oyl_scan_token_def)
    then obtain u where u: "scan_token_at u = Some (r, s')"
      and if_u: "(if sc_flow_level t = 0 then maybe_unroll_indents t (int (sc_col t) - 1) else Some t) = Some u"
      unfolding bind_eq_Some_conv by blast
    have "scan_keeps t t" by (simp add: scan_keeps_def)
    then have "scan_keeps t u" "scanner_inv u" using if_u tk(2) unroll_keeps [OF tk(2) le] by (auto split: if_split_asm)
    then show ?thesis using at [OF u] scan_keeps_trans tk(1) by (metis snd_conv)
  qed
  obtain r2 s2 where "oyl_scan_token s = Some (r2, s2)" "scanner_inv s2" using scan_token_ok [OF inv(1)] by blast
  with keeps inv assms(2) show "scanner_ok s'" "sc_buf s' = sc_buf s" "sc_pos s \<le> sc_pos s'"
    by (auto simp: scanner_ok_def scan_keeps_def)
  show "r = Inl e \<Longrightarrow> e \<noteq> OYL_OK" using token_failure [of s e s'] assms(2) by (auto simp: scan_failure_def)
  assume r: "r = Inr tok" "token_counts (tok_type tok)"
  then have "sc_stream_started s"
    using assms(2) inv(2) by (auto simp: oyl_scan_token_def token_counts_def tok_simple_def split: if_split_asm)
  then show "sc_pos s < sc_pos s'"
    using token_progress [OF inv _ , of tok s'] r assms(2) by (auto simp: token_counts_def)
qed

end
