(* ===== verification/OylGrammarTree.thy ===== *)
theory OylGrammarTree
  imports OylGrammar OylTokens
begin

text \<open>
  What the eager parser appends to the queue: every grammar function that returns \<open>OYL_OK\<close> without
  having met a limit has appended the events of complete trees, as many as its place in the grammar
  asks for, and has left the stack of contexts as it was.
\<close>

section \<open>Conditions on successful results\<close>

definition on_ok :: "parse_result \<Rightarrow> (oyl_parser \<Rightarrow> bool) \<Rightarrow> bool" where
  "on_ok r Q \<longleftrightarrow> (\<forall>q. r = Some (OYL_OK, q) \<longrightarrow> Q q)"

named_theorems on_ok_rules

lemma on_okI: "(\<And>q. r = Some (OYL_OK, q) \<Longrightarrow> Q q) \<Longrightarrow> on_ok r Q"
  by (simp add: on_ok_def)

lemma on_ok_mono: "on_ok r P \<Longrightarrow> (\<And>q. P q \<Longrightarrow> Q q) \<Longrightarrow> on_ok r Q"
  by (simp add: on_ok_def)

lemma on_ok_then [on_ok_rules]: "on_ok r (\<lambda>q. on_ok (k q) Q) \<Longrightarrow> on_ok (then_ok r k) Q"
  by (auto simp: on_ok_def then_ok_def split: option.splits if_splits)

lemma on_ok_ok [on_ok_rules]: "Q p \<Longrightarrow> on_ok (ok p) Q"
  by (simp add: on_ok_def ok_def)

lemma on_ok_fail [on_ok_rules]: "on_ok (fail_with p msg) Q"
  by (simp add: on_ok_def fail_with_def PARSE_ERROR_def)

lemma on_ok_if [on_ok_rules]: "(b \<Longrightarrow> on_ok x Q) \<Longrightarrow> (\<not> b \<Longrightarrow> on_ok y Q) \<Longrightarrow> on_ok (if b then x else y) Q"
  by simp

lemma oom_status_not_ok: "OOM_STATUS p \<noteq> OYL_OK"
  by (simp add: OOM_STATUS_def)

lemma on_ok_unless [on_ok_rules]: "(\<not> pa_oom p \<Longrightarrow> on_ok (k p) Q) \<Longrightarrow> on_ok (unless_oom p k) Q"
  by (auto simp: on_ok_def unless_oom_def oom_status_not_ok)

lemma on_ok_guard [on_ok_rules]: "(\<not> pa_oom p \<Longrightarrow> on_ok (k p) Q) \<Longrightarrow> on_ok (loop_guard p k) Q"
  by (auto simp: loop_guard_def on_ok_def unless_oom_def oom_status_not_ok)

section \<open>What matters of a parser\<close>

text \<open>The mode is whether the parser is incremental, a document open, the stream started, the stream ended,
  and what the delivery of events depends on: merge keys, aliases, the events to skip, the
  cursor.\<close>

record parser_core =
  co_oom :: bool
  co_events :: "oyl_event list"
  co_contexts :: "ctx_entry list"
  co_mode :: "bool \<times> bool \<times> bool \<times> bool \<times> bool \<times> bool \<times> int \<times> nat"

definition core :: "oyl_parser \<Rightarrow> parser_core" where
  "core p = \<lparr>co_oom = pa_oom p, co_events = pa_events p, co_contexts = pa_contexts p, co_mode = (pa_incremental p, pa_doc_open p, pa_stream_started p, pa_stream_ended p,
    pa_merge_enabled p, pa_resolve_enabled p, pa_skip_n p, pa_evt_cursor p)\<rparr>"

lemma core_sel:
  "co_oom (core p) = pa_oom p" "co_events (core p) = pa_events p" "co_contexts (core p) = pa_contexts p"
  "co_mode (core p) = (pa_incremental p, pa_doc_open p, pa_stream_started p, pa_stream_ended p,
    pa_merge_enabled p, pa_resolve_enabled p, pa_skip_n p, pa_evt_cursor p)"
  by (simp_all add: core_def)

definition same_props :: "oyl_parser \<Rightarrow> oyl_parser \<Rightarrow> bool" where
  "same_props p q \<longleftrightarrow> pa_has_anchor q = pa_has_anchor p \<and> pa_has_tag q = pa_has_tag p \<and> pa_props_line q = pa_props_line p"

lemma core_simps [simp]:
  "core (consume_token p) = core p"
  "core (put_props np p) = core p"
  "core (p\<lparr>pa_props_start := m\<rparr>) = core p"
  "core (p\<lparr>pa_tag_directives := ds\<rparr>) = core p"
  "core (p\<lparr>pa_doc_start_line := n\<rparr>) = core p"
  "core (snd (attach_props p e)) = core p"
  "core (note_first_prop p) = core p"
  "core (snd (PARSE_ERROR p msg)) = core p"
  "core (p\<lparr>pa_pending_anchor := a, pa_has_anchor := f\<rparr>) = core p"
  "core (p\<lparr>pa_pending_tag := a, pa_has_tag := f\<rparr>) = core p"
  by (simp_all add: core_def consume_token_def put_props_def attach_props_def note_first_prop_def PARSE_ERROR_def Let_def)

lemma peek_token_core:
  assumes "peek_token p = Some (st, q)"
  shows "core q = core p" and "same_props p q" and "st = OYL_OK \<Longrightarrow> pa_have_token q" and "pa_have_token p \<Longrightarrow> q = p"
  using assms token_failure
  by (auto simp: peek_token_def core_def same_props_def scan_failure_def Let_def
      split: if_split_asm option.splits sum.splits prod.splits)

lemma on_ok_peeked [on_ok_rules]:
  assumes "\<And>q. core q = core p \<Longrightarrow> same_props p q \<Longrightarrow> pa_have_token q \<Longrightarrow> (pa_have_token p \<Longrightarrow> q = p) \<Longrightarrow> on_ok (k q) Q"
  shows "on_ok (peeked p k) Q"
  unfolding peeked_def
proof (rule on_ok_then, rule on_okI)
  fix q
  assume "peek_token p = Some (OYL_OK, q)"
  from peek_token_core [OF this] show "on_ok (k q) Q" using assms by blast
qed

lemma expand_tag_core: "expand_tag p t = (u, q) \<Longrightarrow> core q = core p \<and> pa_current q = pa_current p \<and> pa_have_token q = pa_have_token p"
  by (auto simp: expand_tag_def decoded_tag_def core_def Let_def split: if_split_asm option.splits prod.splits)

lemma take_prop_core:
  assumes "take_prop p = (st, again, q)"
  shows "core q = core p"
proof -
  have e: "core r = core p" if "PARSE_ERROR s msg = (st', r)" "core s = core p" for s msg st' r
    using core_simps(8) [of s msg] that by simp
  show ?thesis
    using assms expand_tag_core
    by (auto simp: take_prop_def Let_def dest: e split: if_split_asm prod.splits)
qed

lemma take_prop_again:
  assumes "take_prop p = (st, again, q)"
  shows "\<not> again \<Longrightarrow> st = OYL_OK \<Longrightarrow> q = p" and "again \<Longrightarrow> cur_type p = OYL_TOK_ANCHOR \<or> cur_type p = OYL_TOK_TAG"
  using assms by (auto simp: take_prop_def Let_def PARSE_ERROR_def split: if_split_asm prod.splits)

lemma consume_props_core:
  "consume_props p = Some (st, q) \<Longrightarrow> core q = core p \<and>
    (st = OYL_OK \<longrightarrow> pa_have_token q \<and>
      (cur_type q = OYL_TOK_ALIAS \<and> (cur_line q = pa_props_line q \<or> pa_in_flow q) \<longrightarrow> \<not> has_node_props q)) \<and>
    (st = OYL_OK \<and> pa_have_token p \<and> cur_type p \<noteq> OYL_TOK_ANCHOR \<and> cur_type p \<noteq> OYL_TOK_TAG \<longrightarrow> q = p)"
proof (induction p rule: consume_props.induct)
  case (1 p)
  obtain st1 p1 where 2: "peek_token p = Some (st1, p1)" using 1(2) by (cases "peek_token p") (auto simp: consume_props.simps [of p])
  obtain st2 again p2 where 3: "take_prop p1 = (st2, again, p2)" by (cases "take_prop p1") auto
  note peek = peek_token_core [OF 2] and take = take_prop_core [OF 3] take_prop_again [OF 3]
  consider (err) "st1 \<noteq> OYL_OK" | (err2) "st1 = OYL_OK" "st2 \<noteq> OYL_OK" | (again) "st1 = OYL_OK" "st2 = OYL_OK" again
    | (stop) "st1 = OYL_OK" "st2 = OYL_OK" "\<not> again" by blast
  then show ?case
  proof cases
    case again
    then have "consume_props p2 = Some (st, q)" using 1(2) 2 3 by (simp add: consume_props.simps [of p])
    from 1(1) [OF 2 refl _ 3 [symmetric] refl _ _ this] again peek take show ?thesis by auto
  next
    case stop
    then have p2: "p2 = p1" using take by simp
    have error: "core (snd (PARSE_ERROR p1 msg)) = core p" "fst (PARSE_ERROR p1 msg) \<noteq> OYL_OK" for msg
      using peek by (simp, simp add: PARSE_ERROR_def)
    show ?thesis
    proof (cases "st = OYL_OK")
      case True
      have "q = p1 \<and> (cur_type p1 = OYL_TOK_ALIAS \<and> (cur_line p1 = pa_props_line p1 \<or> pa_in_flow p1) \<longrightarrow> \<not> has_node_props p1)"
        using 1(2) 2 3 stop True p2 error(2)
        by (auto simp: consume_props.simps [of p] cur_line_def cur_start_def has_node_props_def split: if_split_asm dest: arg_cong [where f = fst])
      then show ?thesis using peek stop by auto
    next
      case False
      then have "(st, q) = PARSE_ERROR p1 ''an alias cannot have an anchor or tag''"
        using 1(2) 2 3 stop p2 by (simp add: consume_props.simps [of p] split: if_split_asm)
      then have "q = snd (PARSE_ERROR p1 ''an alias cannot have an anchor or tag'')" by (metis snd_conv)
      then show ?thesis using False peek by simp
    qed
  qed (use 1(2) 2 3 peek take in \<open>simp_all add: consume_props.simps [of p]\<close>)
qed


section \<open>Trees in the queue\<close>

definition good :: "oyl_node \<Rightarrow> bool" where
  "good n \<longleftrightarrow> node_ok n \<and> node_clean n"

definition nodes_events :: "oyl_node list \<Rightarrow> oyl_event list" where
  "nodes_events ns = concat (map node_events ns)"

lemma nodes_events_simps [simp]:
  "nodes_events [] = []" "nodes_events (n # ns) = node_events n @ nodes_events ns"
  "nodes_events (ns @ ms) = nodes_events ns @ nodes_events ms"
  by (simp_all add: nodes_events_def)

text \<open>
  From one state to another, unless a limit was met: \<open>n\<close> complete nodes more; a start event of type \<open>t\<close>,
  \<open>k\<close> more contexts, and \<open>n\<close> nodes more; \<open>n\<close> nodes and an end event of type \<open>t\<close> more, and a context less.
\<close>

definition makes :: "nat \<Rightarrow> parser_core \<Rightarrow> parser_core \<Rightarrow> bool" where
  "makes n c d \<longleftrightarrow> co_oom d \<or> \<not> co_oom c \<and> co_mode d = co_mode c \<and> co_contexts d = co_contexts c \<and>
     (\<exists>ns. length ns = n \<and> list_all good ns \<and> co_events d = co_events c @ nodes_events ns)"

definition inside :: "oyl_event_type \<Rightarrow> nat \<Rightarrow> nat \<Rightarrow> parser_core \<Rightarrow> parser_core \<Rightarrow> bool" where
  "inside t k n c d \<longleftrightarrow> co_oom d \<or> \<not> co_oom c \<and> co_mode d = co_mode c \<and>
     (\<exists>cs. length cs = k \<and> co_contexts d = cs @ co_contexts c) \<and>
     (\<exists>e ns. evt_type e = t \<and> length ns = n \<and> list_all good ns \<and> co_events d = co_events c @ e # nodes_events ns)"

definition closes :: "oyl_event_type \<Rightarrow> nat \<Rightarrow> parser_core \<Rightarrow> parser_core \<Rightarrow> bool" where
  "closes t n c d \<longleftrightarrow> co_oom d \<or> \<not> co_oom c \<and> co_mode d = co_mode c \<and> co_contexts d = tl (co_contexts c) \<and>
     (\<exists>ns e. length ns = n \<and> list_all good ns \<and> evt_type e = t \<and> \<not> anchored e \<and>
       co_events d = co_events c @ nodes_events ns @ [e])"

lemma makes_refl [simp]: "makes 0 c c"
  by (auto simp: makes_def)

lemma makes_trans: "makes m b c \<Longrightarrow> makes n c d \<Longrightarrow> makes (m + n) b d"
  unfolding makes_def by (force simp: list_all_append intro: exI [of _ "ns @ ms" for ns ms])

lemma inside_makes: "inside t k m b c \<Longrightarrow> makes n c d \<Longrightarrow> inside t k (m + n) b d"
proof -
  assume a: "inside t k m b c" and b: "makes n c d"
  show ?thesis
  proof (cases "co_oom d")
    case False
    then obtain e ns ms cs where "evt_type e = t" "length ns = m" "list_all good ns" "co_events c = co_events b @ e # nodes_events ns"
      "length ms = n" "list_all good ms" "co_events d = co_events c @ nodes_events ms" "\<not> co_oom b"
      "length cs = k" "co_contexts c = cs @ co_contexts b" "co_contexts d = co_contexts c"
      "co_mode d = co_mode b" using a b by (auto simp: inside_def makes_def)
    then show ?thesis unfolding inside_def
      by (intro disjI2 conjI exI [of _ cs] exI [of _ e] exI [of _ "ns @ ms"]) simp_all
  qed (simp add: inside_def)
qed

lemma makes_closes: "makes m b c \<Longrightarrow> closes t n c d \<Longrightarrow> closes t (m + n) b d"
proof -
  assume a: "makes m b c" and b: "closes t n c d"
  show ?thesis
  proof (cases "co_oom d")
    case False
    then obtain e ns ms where "length ns = m" "list_all good ns" "co_events c = co_events b @ nodes_events ns"
      "length ms = n" "list_all good ms" "evt_type e = t" "\<not> anchored e" "co_events d = co_events c @ nodes_events ms @ [e]"
      "\<not> co_oom b" "co_contexts d = tl (co_contexts b)" "co_mode d = co_mode b"
      using a b by (auto simp: closes_def makes_def)
    then show ?thesis unfolding closes_def
      by (intro disjI2 conjI exI [of _ e] exI [of _ "ns @ ms"]) simp_all
  qed (simp add: closes_def)
qed

text \<open>Nodes in pairs are the pairs of a mapping.\<close>

lemma pair_up:
  "length ns = 2 * n \<Longrightarrow> list_all good ns \<Longrightarrow>
    \<exists>kvs. list_all (\<lambda>(k, v). good k \<and> good v) kvs \<and>
      nodes_events ns = concat (map (\<lambda>(k, v). node_events k @ node_events v) kvs)"
proof (induction n arbitrary: ns)
  case (Suc n)
  then obtain k v ms where ns: "ns = k # v # ms" by (cases ns; cases "tl ns") auto
  with Suc obtain kvs where "list_all (\<lambda>(k, v). good k \<and> good v) kvs"
    "nodes_events ms = concat (map (\<lambda>(k, v). node_events k @ node_events v) kvs)" by fastforce
  then show ?case using ns Suc.prems(2) by (intro exI [of _ "(k, v) # kvs"]) simp
qed (auto intro: exI [of _ "[]"])

lemma good_map:
  assumes "evt_type e = OYL_EVT_MAPPING_START" and "evt_type e' = OYL_EVT_MAPPING_END" and "\<not> anchored e'"
    and "length ns = 2 * n" and "list_all good ns"
  shows "\<exists>m. good m \<and> node_events m = e # nodes_events ns @ [e']"
proof -
  obtain kvs where "list_all (\<lambda>(k, v). good k \<and> good v) kvs"
    "nodes_events ns = concat (map (\<lambda>(k, v). node_events k @ node_events v) kvs)"
    using pair_up [OF assms(4,5)] by blast
  then show ?thesis using assms(1-3)
    by (intro exI [of _ "NMap e kvs e'"]) (auto simp: good_def list_all_iff)
qed

lemma good_seq:
  assumes "evt_type e = OYL_EVT_SEQUENCE_START" and "evt_type e' = OYL_EVT_SEQUENCE_END" and "\<not> anchored e'"
    and "list_all good ns"
  shows "\<exists>m. good m \<and> node_events m = e # nodes_events ns @ [e']"
  using assms by (intro exI [of _ "NSeq e ns e'"]) (auto simp: good_def nodes_events_def list_all_iff)

text \<open>A collection is opened and closed.\<close>

lemma collection_made:
  assumes "\<And>ns e e'. evt_type e = t \<Longrightarrow> evt_type e' = t' \<Longrightarrow> \<not> anchored e' \<Longrightarrow> length ns = m + n \<Longrightarrow> list_all good ns \<Longrightarrow>
      \<exists>node. good node \<and> node_events node = e # nodes_events ns @ [e']"
    and "inside t 1 m b c" and "closes t' n c d"
  shows "makes 1 b d"
proof (cases "co_oom d")
  case False
  then obtain e ns cs ms e' where "evt_type e = t" "length ns = m" "list_all good ns" "co_events c = co_events b @ e # nodes_events ns"
    "length ms = n" "list_all good ms" "evt_type e' = t'" "\<not> anchored e'" "co_events d = co_events c @ nodes_events ms @ [e']"
    "\<not> co_oom b" "length cs = 1" "co_contexts c = cs @ co_contexts b" "co_contexts d = tl (co_contexts c)"
    "co_mode d = co_mode b" using assms(2,3) by (auto simp: closes_def inside_def)
  moreover from this obtain node where "good node" "node_events node = e # nodes_events (ns @ ms) @ [e']"
    using assms(1) [of e e' "ns @ ms"] by auto
  moreover have "tl (cs @ co_contexts b) = co_contexts b" using \<open>length cs = 1\<close> by (cases cs) auto
  ultimately show ?thesis unfolding makes_def by (intro disjI2 conjI exI [of _ "[node]"]) simp_all
qed (simp add: makes_def)

lemmas sequence_made = collection_made [of OYL_EVT_SEQUENCE_START OYL_EVT_SEQUENCE_END, OF good_seq]

lemma mapping_made:
  "inside OYL_EVT_MAPPING_START 1 m b c \<Longrightarrow> closes OYL_EVT_MAPPING_END n c d \<Longrightarrow> even (m + n) \<Longrightarrow> makes 1 b d"
proof (elim evenE)
  fix k
  assume a: "inside OYL_EVT_MAPPING_START 1 m b c" "closes OYL_EVT_MAPPING_END n c d" and k: "m + n = 2 * k"
  show "makes 1 b d"
    by (rule collection_made [OF _ a]) (simp add: k good_map)
qed

text \<open>A pair of a flow sequence is a mapping without a context.\<close>

lemma pair_made:
  assumes "inside OYL_EVT_MAPPING_START 0 2 b c" and "closes OYL_EVT_MAPPING_END 0 (c\<lparr>co_contexts := x # co_contexts c\<rparr>) d"
  shows "makes 1 b d"
proof -
  have "inside OYL_EVT_MAPPING_START 1 2 b (c\<lparr>co_contexts := x # co_contexts c\<rparr>)"
    using assms(1) by (auto simp: inside_def intro!: exI [of _ "[x]"])
  then show ?thesis using assms(2) by (rule mapping_made) simp
qed


section \<open>The statements\<close>

lemma schema_tag_keeps [simp]:
  "evt_type (schema_tag p e) = evt_type e" "evt_anchor (schema_tag p e) = evt_anchor e"
  "anchored (schema_tag p e) = anchored e"
  by (auto simp: schema_tag_def anchored_def split: option.split)

lemma enqueue_core:
  "enqueue p e = (success, q) \<Longrightarrow> (success \<and> core q = (core p)\<lparr>co_events := co_events (core p) @ [schema_tag p e]\<rparr>) \<or>
    (\<not> success \<and> core q = (core p)\<lparr>co_oom := True\<rparr>)"
  by (auto simp: enqueue_def hit_limit_def stop_with_def core_def schema_tag_def Let_def split: if_split_asm prod.splits)

lemma send_core: "core (send p e) = (core p)\<lparr>co_oom := True\<rparr> \<or>
    core (send p e) = (core p)\<lparr>co_events := co_events (core p) @ [schema_tag p e]\<rparr>"
  using enqueue_core [of p e] by (cases "enqueue p e") (auto simp: send_def)

lemma enter_core: "core (enter p t i) = (core p)\<lparr>co_oom := True\<rparr> \<or>
    core (enter p t i) = (core p)\<lparr>co_contexts := \<lparr>ce_type = t, ce_indent = i\<rparr> # co_contexts (core p)\<rparr>"
  by (auto simp: enter_def pa_push_ctx_def hit_limit_def stop_with_def core_def Let_def split: prod.splits)

lemma pop_core [simp]: "core (pa_pop_ctx p) = (core p)\<lparr>co_contexts := tl (co_contexts (core p))\<rparr>"
  by (simp add: pa_pop_ctx_def core_def)

lemma attach_props_keeps:
  "attach_props p e = (e', q) \<Longrightarrow> core q = core p \<and> evt_type e' = evt_type e \<and>
    (\<not> has_node_props p \<longrightarrow> e' = e)"
  by (auto simp: attach_props_def core_def has_node_props_def Let_def split: if_split_asm)

text \<open>An event that is a node by itself.\<close>

definition leaf :: "oyl_event \<Rightarrow> bool" where
  "leaf e \<longleftrightarrow> evt_type e = OYL_EVT_SCALAR \<or> evt_type e = OYL_EVT_ALIAS \<and> \<not> anchored e"

lemma leaf_node: "leaf e \<Longrightarrow> \<exists>n. good n \<and> node_events n = [e]"
  by (auto simp: leaf_def good_def intro: exI [of _ "NScalar e"] exI [of _ "NAlias e"])

lemma leaf_made: "leaf e \<Longrightarrow> makes 1 (core p) (core (send p e))"
proof -
  assume "leaf e"
  then have "leaf (schema_tag p e)" by (simp add: leaf_def)
  then obtain n where "good n" "node_events n = [schema_tag p e]" using leaf_node by blast
  then show ?thesis using send_core [of p e] by (auto simp: makes_def intro!: exI [of _ "[n]"])
qed

lemma scalar_types [simp]:
  "evt_type (scalar_event p) = OYL_EVT_SCALAR" "evt_type (event_here t p) = t" "evt_type (event_at t a b) = t"
  "evt_type (alias_event p) = OYL_EVT_ALIAS" "evt_type (flow_start t p) = t"
  by (simp_all add: scalar_event_def event_here_def event_at_def plain_event_def alias_event_def flow_start_def)

lemma event_leaf [simp]:
  "leaf (scalar_event p)" "leaf (event_here OYL_EVT_SCALAR p)" "leaf (alias_event p)" "leaf (event_at OYL_EVT_SCALAR a b)"
  by (simp_all add: leaf_def scalar_event_def event_here_def alias_event_def event_at_def plain_event_def anchored_def)

lemma leaf_props:
  "attach_props p e = (e', q) \<Longrightarrow> leaf e \<Longrightarrow> evt_type e = OYL_EVT_SCALAR \<or> \<not> has_node_props p \<Longrightarrow> leaf e'"
  by (auto simp: leaf_def dest!: attach_props_keeps)

lemma leaf_with_props [simp]: "evt_type (with_props np e) = evt_type e"
  by (simp add: with_props_def Let_def)

lemma send_with_props_made:
  "leaf e \<Longrightarrow> evt_type e = OYL_EVT_SCALAR \<or> \<not> has_node_props p \<Longrightarrow> makes 1 (core p) (core (send_with_props p e))"
proof -
  assume a: "leaf e" "evt_type e = OYL_EVT_SCALAR \<or> \<not> has_node_props p"
  obtain e' q where q: "attach_props p e = (e', q)" by fastforce
  then have "makes 1 (core q) (core (send q e'))" using a leaf_made leaf_props by blast
  then show ?thesis using q attach_props_keeps [OF q] by (simp add: send_with_props_def)
qed

lemma emit_empty_send: "emit_empty p = send_with_props p (event_here OYL_EVT_SCALAR p)"
  by (simp add: emit_empty_def send_with_props_def send_def event_here_def cur_start_def Let_def)

lemma empty_made: "makes 1 (core p) (core (emit_empty p))"
  using send_with_props_made [of "event_here OYL_EVT_SCALAR p" p] by (simp add: emit_empty_send)

lemma start_inside: "inside (evt_type e) 0 0 (core p) (core (send p e))"
  using send_core [of p e] by (auto simp: inside_def)

lemma enter_inside: "inside t 0 n b (core p) \<Longrightarrow> inside t 1 n b (core (enter p c i))"
  using enter_core [of p c i] by (auto simp: inside_def intro!: exI [of _ "[x]" for x]; blast)

lemma open_inside: "evt_type e = t \<Longrightarrow> inside t 1 0 (core p) (core (open_collection p e c i))"
proof -
  assume t: "evt_type e = t"
  obtain e' q where a: "attach_props p e = (e', q)" by fastforce
  have "inside (evt_type e') 0 0 (core q) (core (send q e'))" by (rule start_inside)
  then show ?thesis using enter_inside attach_props_keeps [OF a] t by (simp add: open_collection_def a)
qed

lemma send_closes:
  "\<not> anchored e \<Longrightarrow> closes (evt_type e) 0 (core p) (core (pa_pop_ctx (send p e)))"
  using send_core [of p e] by (auto simp: closes_def)

lemma event_here_unanchored [simp]: "\<not> anchored (event_here t p)" "\<not> anchored (event_at t a b)"
  by (simp_all add: event_here_def event_at_def plain_event_def anchored_def)

lemma on_ok_close_block [on_ok_rules]:
  "(\<And>q. closes t 0 (core p) (core q) \<Longrightarrow> Q q) \<Longrightarrow> on_ok (close_block t p) Q"
  using send_closes [of "event_here t p" p] by (simp add: close_block_def on_ok_ok)

lemma on_ok_close_flow [on_ok_rules]:
  "(\<And>q. closes t 0 (core p) (core q) \<Longrightarrow> Q q) \<Longrightarrow> on_ok (close_flow t p) Q"
  using send_closes [of "event_at t (cur_start p) (cur_end p)" "consume_token p"] by (simp add: close_flow_def Let_def on_ok_ok)

lemma end_pair_made:
  assumes "inside OYL_EVT_MAPPING_START 0 2 b (core p)"
  shows "makes 1 b (core (send p (event_here OYL_EVT_MAPPING_END p)))"
  using send_core [of p "event_here OYL_EVT_MAPPING_END p"]
  by (intro pair_made [OF assms]) (auto simp: closes_def)

text \<open>A start event inserted before the last node.\<close>

lemma on_ok_inserted:
  assumes "makes n b (core p)" and "i = length (co_events b)" and "\<And>q. inside (evt_type e) 0 n b (core q) \<Longrightarrow> on_ok (k q) Q"
  shows "on_ok (inserted p i e k) Q"
proof -
  obtain success q where eq: "enqueue p e = (success, q)" by fastforce
  show ?thesis
  proof (cases success)
    case False
    then show ?thesis using eq by (simp add: inserted_def insert_event_def Let_def on_ok_def oom_status_not_ok)
  next
    case True
    let ?q = "q\<lparr>pa_events := take i (butlast (pa_events q)) @ last (pa_events q) # drop i (butlast (pa_events q))\<rparr>"
    have q: "core q = (core p)\<lparr>co_events := co_events (core p) @ [schema_tag p e]\<rparr>" using enqueue_core [OF eq] True by simp
    then have "co_events (core q) = co_events (core p) @ [schema_tag p e]" by simp
    then have ev: "pa_events q = pa_events p @ [schema_tag p e]" by (simp add: core_sel)
    have cq: "core ?q = (core p)\<lparr>co_events := take i (co_events (core p)) @ schema_tag p e # drop i (co_events (core p))\<rparr>"
      using q by (simp add: core_def ev)
    have "inside (evt_type e) 0 n b (core ?q)"
      unfolding cq using assms(1,2) by (auto simp: makes_def inside_def; metis schema_tag_keeps(1))
    then have "on_ok (k ?q) Q" by (rule assms(3))
    then show ?thesis using eq True by (simp add: inserted_def insert_event_def Let_def)
  qed
qed


section \<open>What each function does\<close>

text \<open>Outside the incremental mode, the top context tells whether the parser is in a flow collection.\<close>

definition eager :: "parser_core \<Rightarrow> bool" where
  "eager c \<longleftrightarrow> co_oom c \<or> \<not> fst (co_mode c)"

definition flow_top :: "parser_core \<Rightarrow> bool" where
  "flow_top c \<longleftrightarrow> co_oom c \<or> \<not> fst (co_mode c) \<and> (\<exists>x xs. co_contexts c = x # xs \<and> flow_type (ce_type x))"

definition at_flow_start :: "oyl_parser \<Rightarrow> bool" where
  "at_flow_start p \<longleftrightarrow> pa_have_token p \<and> (cur_type p = OYL_TOK_FLOW_SEQ_START \<or> cur_type p = OYL_TOK_FLOW_MAP_START)"

fun call_pre :: "grammar \<Rightarrow> oyl_parser \<Rightarrow> bool" where
  "call_pre FLOW_SEQUENCE p = flow_top (core p)"
| "call_pre FLOW_MAPPING p = flow_top (core p)"
| "call_pre FLOW_NODE p = (flow_top (core p) \<or> eager (core p) \<and> at_flow_start p)"
| "call_pre _ p = eager (core p)"

fun call_post :: "grammar \<Rightarrow> oyl_parser \<Rightarrow> oyl_parser \<Rightarrow> bool" where
  "call_post FLOW_SEQUENCE p q = (\<exists>n. closes OYL_EVT_SEQUENCE_END n (core p) (core q))"
| "call_post FLOW_MAPPING p q = (\<exists>n. closes OYL_EVT_MAPPING_END (2 * n) (core p) (core q))"
| "call_post FLOW_NODE p q = makes 1 (core p) (core q)"
| "call_post (MAP_VALUE i) p q = makes 1 (core p) (core q)"
| "call_post (BLOCK_MAPPING i) p q = (\<exists>n. makes (2 * n) (core p) (core q))"
| "call_post (BLOCK_SEQUENCE i) p q = (\<exists>n. makes n (core p) (core q))"
| "call_post BLOCK_NODE p q = makes 1 (core p) (core q)"

definition calls_ok :: "parse_rec \<Rightarrow> bool" where
  "calls_ok rec \<longleftrightarrow> (\<forall>g p. call_pre g p \<longrightarrow> on_ok (rec g p) (call_post g p))"

lemma on_ok_call:
  "calls_ok rec \<Longrightarrow> call_pre g p \<Longrightarrow> (\<And>q. call_post g p q \<Longrightarrow> Q q) \<Longrightarrow> on_ok (rec g p) Q"
  unfolding calls_ok_def using on_ok_mono by blast

lemma flow_top_eager: "flow_top c \<Longrightarrow> eager c"
  by (auto simp: flow_top_def eager_def)

lemma eager_makes: "eager c \<Longrightarrow> makes n c d \<Longrightarrow> eager d"
  by (auto simp: eager_def makes_def)

lemma eager_inside: "eager c \<Longrightarrow> inside t k n c d \<Longrightarrow> eager d"
  by (auto simp: eager_def inside_def)

lemma flow_top_makes: "flow_top c \<Longrightarrow> makes n c d \<Longrightarrow> flow_top d"
  by (auto simp: flow_top_def makes_def)

lemma flow_top_inside: "flow_top c \<Longrightarrow> inside t 0 n c d \<Longrightarrow> flow_top d"
  by (auto simp: flow_top_def inside_def)

lemma flow_top_enter: "eager (core p) \<Longrightarrow> flow_type t \<Longrightarrow> flow_top (core (enter p t i))"
  using enter_core [of p t i] by (auto simp: flow_top_def eager_def)

lemma eager_send: "eager (core p) \<Longrightarrow> eager (core (send p e))"
  using send_core [of p e] by (auto simp: eager_def)

lemma flow_top_open: "eager (core p) \<Longrightarrow> flow_type t \<Longrightarrow> flow_top (core (open_collection p e t i))"
proof -
  assume a: "eager (core p)" "flow_type t"
  obtain e' q where q: "attach_props p e = (e', q)" by fastforce
  then have "core q = core p" using attach_props_keeps by blast
  then have "eager (core (send q e'))" using a(1) eager_send by simp
  then show ?thesis using a(2) flow_top_enter q by (simp add: open_collection_def)
qed

lemma flow_top_in_flow: "flow_top (core p) \<Longrightarrow> pa_oom p \<or> pa_in_flow p"
  by (auto simp: flow_top_def pa_in_flow_def pa_top_ctx_def core_sel)

lemma on_ok_consume_props [on_ok_rules]:
  assumes "\<And>q. core q = core p \<Longrightarrow> pa_have_token q \<Longrightarrow>
      (cur_type q = OYL_TOK_ALIAS \<and> (cur_line q = pa_props_line q \<or> pa_in_flow q) \<Longrightarrow> \<not> has_node_props q) \<Longrightarrow>
      (at_flow_start p \<Longrightarrow> q = p) \<Longrightarrow> Q q"
  shows "on_ok (consume_props p) Q"
proof (rule on_okI)
  fix q
  assume "consume_props p = Some (OYL_OK, q)"
  from consume_props_core [OF this] show "Q q" by (intro assms) (auto simp: at_flow_start_def)
qed


subsection \<open>Flow collections\<close>

text \<open>Numbers of nodes stay as they are written.\<close>

declare One_nat_def [simp del]

text \<open>The rules for the nodes, after steps that leave the core alone.\<close>

lemma made:
  "core p = c \<Longrightarrow> makes 1 c (core (emit_empty p))"
  "core p = c \<Longrightarrow> leaf e \<Longrightarrow> makes 1 c (core (send p e))"
  "core p = c \<Longrightarrow> evt_type e = OYL_EVT_SCALAR \<Longrightarrow> makes 1 c (core (send_with_props p e))"
  "core p = c \<Longrightarrow> evt_type e = t \<Longrightarrow> inside t 1 0 c (core (open_collection p e x i))"
  "core p = c \<Longrightarrow> evt_type e = t \<Longrightarrow> inside t 0 0 c (core (send p e))"
  "core p = c \<Longrightarrow> leaf e \<Longrightarrow> \<not> has_node_props p \<Longrightarrow> makes 1 c (core (send_with_props p e))"
  using empty_made leaf_made send_with_props_made [of e p] open_inside start_inside by (auto simp: leaf_def)

lemma on_ok_flow_value:
  assumes "calls_ok rec" and "flow_top (core p)" and "\<And>q. makes 1 (core p) (core q) \<Longrightarrow> Q q"
  shows "on_ok (flow_value_or_empty close rec p) Q"
  unfolding flow_value_or_empty_def using assms(2)
  by (intro on_ok_rules on_ok_call [OF assms(1)] assms(3)) (auto intro: made)

lemma on_ok_flow_key:
  assumes "calls_ok rec" and "flow_top (core p)" and "\<And>q. makes 1 (core p) (core q) \<Longrightarrow> Q q"
  shows "on_ok (flow_key_or_empty close rec p) Q"
  unfolding flow_key_or_empty_def using assms(2)
  by (intro on_ok_rules on_ok_call [OF assms(1)] assms(3)) (auto intro: made)

lemma on_ok_flow_pair_value:
  assumes "calls_ok rec" and "flow_top (core p)" and "\<And>q. makes 1 (core p) (core q) \<Longrightarrow> Q q"
  shows "on_ok (flow_pair_value close rec p) Q"
  unfolding flow_pair_value_def using assms(2)
  by (intro on_ok_rules on_ok_flow_value [OF assms(1)] assms(3)) (auto intro: made)

lemma on_ok_end_flow_pair:
  assumes "inside OYL_EVT_MAPPING_START 0 2 b (core p)" and "\<And>q. makes 1 b (core q) \<Longrightarrow> Q q"
  shows "on_ok (end_flow_pair p) Q"
  unfolding end_flow_pair_def using assms(1)
  by (intro on_ok_rules assms(2) end_pair_made) simp

lemma inside_2:
  "inside t k 0 b c \<Longrightarrow> makes 1 c d \<Longrightarrow> makes 1 d e \<Longrightarrow> inside t k 2 b e"
  using inside_makes [OF inside_makes, of t k 0 b c 1 d 1 e] by simp

lemma on_ok_flow_explicit_pair:
  assumes "calls_ok rec" and "flow_top (core p)" and "\<And>q. makes 1 (core p) (core q) \<Longrightarrow> Q q"
  shows "on_ok (flow_explicit_pair rec p) Q"
proof -
  let ?p = "send p (flow_start OYL_EVT_MAPPING_START p)"
  have start: "inside OYL_EVT_MAPPING_START 0 0 (core p) (core ?p)" by (rule made) simp_all
  then have top: "flow_top (core (consume_token ?p))" using flow_top_inside [OF assms(2)] by simp
  show ?thesis
    unfolding flow_explicit_pair_def Let_def
    by (intro on_ok_rules on_ok_flow_key [OF assms(1) top] on_ok_flow_pair_value [OF assms(1)]
        on_ok_end_flow_pair [where b = "core p"] assms(3))
      (use start top in \<open>auto intro: flow_top_makes inside_2\<close>)
qed

lemma on_ok_flow_implicit_pair:
  assumes "calls_ok rec" and "flow_top b" and "makes 1 b (core p)" and "i = length (co_events b)"
    and "\<And>q. makes 1 b (core q) \<Longrightarrow> Q q"
  shows "on_ok (flow_implicit_pair rec i p) Q"
proof -
  let ?rest = "\<lambda>p. then_ok (flow_value_or_empty OYL_TOK_FLOW_SEQ_END rec (consume_token p)) end_flow_pair"
  have rest: "on_ok (?rest q) Q" if "inside OYL_EVT_MAPPING_START 0 1 b (core q)" for q
  proof (intro on_ok_rules on_ok_flow_value [OF assms(1)] on_ok_end_flow_pair assms(5))
    show "flow_top (core (consume_token q))" using flow_top_inside [OF assms(2) that] by simp
    show "inside OYL_EVT_MAPPING_START 0 2 b (core r)" if "makes 1 (core (consume_token q)) (core r)" for r
      using inside_makes [OF \<open>inside _ _ _ b (core q)\<close>, of 1 "core r"] that by (simp add: numeral_2_eq_2)
  qed
  show ?thesis
  proof (cases "length (pa_events p) - i > 0")
    case True
    then show ?thesis unfolding flow_implicit_pair_def Let_def
      by (simp) (intro on_ok_inserted [OF assms(3,4)] rest, simp)
  next
    case False
    have "pa_oom p"
    proof (rule ccontr)
      assume "\<not> pa_oom p"
      then obtain n where "co_events (core p) = co_events b @ node_events n"
        using assms(3) by (auto simp: makes_def core_sel length_Suc_conv One_nat_def)
      then show False using False assms(4) node_events_Cons [of n] by (auto simp: core_sel)
    qed
    then have "inside OYL_EVT_MAPPING_START 0 1 b (core p)" by (simp add: inside_def core_sel)
    then show ?thesis using False rest by (simp add: flow_implicit_pair_def)
  qed
qed

lemma on_ok_flow_separator:
  assumes "calls_ok rec" and "call_pre loop p = flow_top (core p)" and "flow_top (core p)" and "loop = FLOW_SEQUENCE \<or> loop = FLOW_MAPPING"
    and "\<And>q r. core q = core p \<Longrightarrow> call_post loop q r \<Longrightarrow> Q r"
  shows "on_ok (flow_separator loop close msg rec p) Q"
  unfolding flow_separator_def using assms(3,4)
  by (intro on_ok_rules on_ok_call [OF assms(1)] ) (auto intro: assms(5))

lemma closes_more: "makes 1 c d \<Longrightarrow> closes t n d e \<Longrightarrow> \<exists>n. closes t n c e"
  using makes_closes by blast

lemma closes_pair:
  "makes 1 c d \<Longrightarrow> makes 1 d e \<Longrightarrow> closes t (2 * n) e f \<Longrightarrow> \<exists>n. closes t (2 * n) c f"
  using makes_closes [OF makes_trans, of 1 c d 1 e t "2 * n" f] by (intro exI [of _ "n + 1"]) simp

lemma closes_none: "closes t 0 c d \<Longrightarrow> \<exists>n. closes t (2 * n) c d"
  by (intro exI [of _ 0]) simp

lemma core_eqD: "core q = core p \<Longrightarrow> pa_oom q = pa_oom p \<and> pa_events q = pa_events p \<and> pa_contexts q = pa_contexts p"
  by (simp add: core_def)

lemma flow_sequence_ok:
  assumes "calls_ok rec" and "flow_top (core p)"
  shows "on_ok (parse_flow_sequence rec p) (call_post FLOW_SEQUENCE p)"
  unfolding parse_flow_sequence_def flow_sequence_separator_def Let_def using assms(2)
  by (intro on_ok_rules on_ok_call [OF assms(1), of FLOW_NODE] on_ok_flow_explicit_pair [OF assms(1)]
      on_ok_flow_implicit_pair [OF assms(1), of "core p"] on_ok_flow_separator [OF assms(1)])
    (auto intro: closes_more flow_top_makes simp: core_sel dest: core_eqD)

lemma flow_mapping_ok:
  assumes "calls_ok rec" and "flow_top (core p)"
  shows "on_ok (parse_flow_mapping rec p) (call_post FLOW_MAPPING p)"
  unfolding parse_flow_mapping_def flow_mapping_separator_def Let_def using assms(2)
  by (intro on_ok_rules on_ok_call [OF assms(1), of FLOW_NODE] on_ok_flow_key [OF assms(1)] on_ok_flow_pair_value [OF assms(1)]
      on_ok_flow_separator [OF assms(1)])
    (auto intro: closes_pair closes_none flow_top_makes simp: core_sel dest: core_eqD)

lemma on_ok_attach_props [on_ok_rules]:
  assumes "\<And>e q. core q = core p \<Longrightarrow> evt_type e = evt_type evt \<Longrightarrow> (leaf evt \<Longrightarrow> evt_type evt = OYL_EVT_SCALAR \<or> \<not> has_node_props p \<Longrightarrow> leaf e) \<Longrightarrow>
      on_ok (k e q) Q"
  shows "on_ok (Let (attach_props p evt) (\<lambda>(e, q). k e q)) Q"
proof -
  obtain e q where eq: "attach_props p evt = (e, q)" by fastforce
  have "on_ok (k e q) Q"
    by (rule assms) (use attach_props_keeps [OF eq] leaf_props [OF eq] in blast)+
  then show ?thesis by (simp add: eq)
qed

lemma sequence_start_opened:
  assumes "\<exists>n. closes OYL_EVT_SEQUENCE_END n (core (open_collection p e x i)) d" and "core p = c"
    and "evt_type e = OYL_EVT_SEQUENCE_START"
  shows "makes 1 c d"
  using assms(1) sequence_made [OF _ _ _ _ made(4) [OF assms(2,3)]] by auto

lemma mapping_start_opened:
  assumes "\<exists>n. closes OYL_EVT_MAPPING_END (2 * n) (core (open_collection p e x i)) d" and "core p = c"
    and "evt_type e = OYL_EVT_MAPPING_START"
  shows "makes 1 c d"
  using assms(1) mapping_made [OF made(4) [OF assms(2,3)]] by auto

lemma flow_top_opened:
  "eager c \<Longrightarrow> core p = c \<Longrightarrow> flow_top (core (open_collection p e CTX_FLOW_SEQ i))"
  "eager c \<Longrightarrow> core p = c \<Longrightarrow> flow_top (core (open_collection p e CTX_FLOW_MAP i))"
  by (auto intro!: flow_top_open simp: flow_type_def)

lemma flow_node_ok:
  assumes "calls_ok rec" and "call_pre FLOW_NODE p"
  shows "on_ok (parse_flow_node rec p) (call_post FLOW_NODE p)"
proof -
  have eager: "eager (core p)" using assms(2) flow_top_eager by auto
  have no_props_alias: "leaf (alias_event q) \<and> \<not> has_node_props q"
    if "cur_type q = OYL_TOK_ALIAS" "core q = core p" "at_flow_start p \<Longrightarrow> q = p" "\<not> pa_oom p"
      "cur_line q = pa_props_line q \<or> pa_in_flow q \<Longrightarrow> \<not> has_node_props q" for q
  proof -
    have "\<not> at_flow_start p" using that(1,3) by (auto simp: at_flow_start_def)
    then have "flow_top (core q)" using assms(2) that(2) by simp
    then have "pa_in_flow q" using flow_top_in_flow [of q] that(2,4) core_eqD by metis
    then show ?thesis using that(5) by simp
  qed
  show ?thesis
  unfolding parse_flow_node_def call_post.simps using eager
  by (intro on_ok_rules on_ok_call [OF assms(1), of FLOW_SEQUENCE] on_ok_call [OF assms(1), of FLOW_MAPPING])
    (auto intro: made flow_top_opened sequence_start_opened mapping_start_opened send_with_props_made dest!: no_props_alias)
qed


subsection \<open>Block collections\<close>

lemma map_value_ok:
  assumes "calls_ok rec" and "eager (core p)"
  shows "on_ok (parse_block_map_value rec p i) (call_post (MAP_VALUE i) p)"
  unfolding parse_block_map_value_def Let_def call_post.simps using assms(2)
  by (intro on_ok_rules on_ok_call [OF assms(1)]) (auto intro: made)

lemma on_ok_map_entry:
  assumes "calls_ok rec" and "eager (core p)" and "\<And>n q. makes (1 + 2 * n) (core p) (core q) \<Longrightarrow> Q q"
  shows "on_ok (map_entry rec i p) Q"
  unfolding map_entry_def using assms(2)
  by (intro on_ok_rules on_ok_call [OF assms(1)]) (auto intro: eager_makes assms(3) makes_trans)

text \<open>One entry more: its key, its value and the entries after it.\<close>

lemma entry_more:
  "makes 1 c d \<Longrightarrow> makes (1 + 2 * n) d e \<Longrightarrow> \<exists>n. makes (2 * n) c e"
  using makes_trans [of 1 c d "1 + 2 * n" e] by (intro exI [of _ "n + 1"]) simp

lemma entries_more: "makes 1 c d \<Longrightarrow> makes 1 d e \<Longrightarrow> \<exists>n. makes (2 * n) e f \<Longrightarrow> \<exists>n. makes (2 * n) c f"
  using makes_trans [OF makes_trans, of 1 c d 1 e "2 * n" f for n] by (metis mult_2 one_add_one add_mult_distrib2 mult_1_right)

lemma makes_nothing: "\<exists>n. makes (2 * n) c c" "\<exists>n. makes n c c"
  using makes_refl [of c] by (auto intro: exI [of _ 0] simp del: makes_refl)

lemma makes_more: "makes 1 c d \<Longrightarrow> \<exists>n. makes n d e \<Longrightarrow> \<exists>n. makes n c e"
  using makes_trans by blast

lemma on_ok_explicit_key:
  assumes "calls_ok rec" and "eager (core p)" and "\<And>q. makes 1 (core p) (core q) \<Longrightarrow> Q q"
  shows "on_ok (explicit_key rec i p) Q"
  unfolding explicit_key_def using assms(2)
  by (intro on_ok_rules on_ok_call [OF assms(1)] assms(3)) (auto intro: made)

lemma explicit_entry_ok:
  assumes "calls_ok rec" and "eager (core p)"
  shows "on_ok (explicit_entry rec i p) (call_post (BLOCK_MAPPING i) p)"
  unfolding explicit_entry_def using assms(2)
  by (intro on_ok_rules on_ok_explicit_key [OF assms(1)] on_ok_call [OF assms(1), of "BLOCK_MAPPING i"] on_ok_map_entry [OF assms(1)])
    (auto intro: made eager_makes entry_more entries_more [OF _ made(1)])

lemma on_ok_simple_key:
  assumes "calls_ok rec" and "eager (core p)" and "leaf e" and "evt_type e = OYL_EVT_SCALAR \<or> \<not> has_node_props p"
  shows "on_ok (simple_key rec i e p) (call_post (BLOCK_MAPPING i) p)"
  unfolding simple_key_def using assms(2-4)
  by (intro on_ok_rules on_ok_map_entry [OF assms(1)])
    (auto intro: made eager_makes [OF _ made(2)] entry_more [OF made(2)])

lemma on_ok_flow_key_entry:
  assumes "calls_ok rec" and "eager (core p)" and "at_flow_start p"
  shows "on_ok (flow_key rec i p) (call_post (BLOCK_MAPPING i) p)"
  unfolding flow_key_def using assms(2,3)
  by (intro on_ok_rules on_ok_call [OF assms(1)] on_ok_map_entry [OF assms(1)])
    (auto intro: eager_makes entry_more)

lemma map_post_core: "core q = core p \<Longrightarrow> call_post (BLOCK_MAPPING i) q = call_post (BLOCK_MAPPING i) p"
  by (simp add: fun_eq_iff)

lemma implicit_entry_ok:
  assumes "calls_ok rec" and "eager (core p)"
  shows "on_ok (implicit_entry rec i p) (call_post (BLOCK_MAPPING i) p)"
proof -
  have key: "on_ok (simple_key rec i e q) (call_post (BLOCK_MAPPING i) p)"
    if "core q = core p" "leaf e" "evt_type e = OYL_EVT_SCALAR \<or> \<not> has_node_props q" for q e
    using on_ok_simple_key [OF assms(1), of q e i] that assms(2) map_post_core [OF that(1)] by simp
  have flow: "on_ok (flow_key rec i q) (call_post (BLOCK_MAPPING i) p)"
    if "core q = core p" "at_flow_start q" for q
    using on_ok_flow_key_entry [OF assms(1), of q i] that assms(2) map_post_core [OF that(1)] by simp
  show ?thesis
    unfolding implicit_entry_def Let_def using assms(2)
    by (intro on_ok_rules key flow on_ok_map_entry [OF assms(1)])
      (auto intro: made makes_nothing eager_makes [OF _ made(1)] entry_more [OF made(1)] simp: at_flow_start_def)
qed

lemma block_mapping_ok:
  assumes "calls_ok rec" and "eager (core p)"
  shows "on_ok (parse_block_mapping rec p i) (call_post (BLOCK_MAPPING i) p)"
proof -
  have "on_ok (explicit_entry rec i q) (call_post (BLOCK_MAPPING i) p)" "on_ok (implicit_entry rec i q) (call_post (BLOCK_MAPPING i) p)"
    if "core q = core p" for q
    using explicit_entry_ok [OF assms(1), of q i] implicit_entry_ok [OF assms(1), of q i] that assms(2)
      map_post_core [OF that] by simp_all
  then show ?thesis
    unfolding parse_block_mapping_def Let_def using assms(2)
    by (intro on_ok_rules on_ok_map_entry [OF assms(1)])
      (auto intro: made makes_nothing eager_makes [OF _ made(1)] entry_more [OF made(1)])
qed

lemma block_sequence_ok:
  assumes "calls_ok rec" and "eager (core p)"
  shows "on_ok (parse_block_sequence rec p i) (call_post (BLOCK_SEQUENCE i) p)"
  unfolding parse_block_sequence_def Let_def using assms(2)
  by (intro on_ok_rules on_ok_call [OF assms(1)])
    (auto intro: made makes_nothing eager_makes eager_makes [OF _ made(1)] makes_more makes_more [OF made(1)])

lemma on_ok_rest_of_mapping:
  assumes "calls_ok rec" and "inside OYL_EVT_MAPPING_START 1 1 b (core p)" and "eager b" and "\<And>q. makes 1 b (core q) \<Longrightarrow> Q q"
  shows "on_ok (rest_of_mapping rec i p) Q"
proof -
  have "eager (core p)" using eager_inside assms(2,3) by blast
  moreover have "makes 1 b d" if "makes (1 + 2 * n) (core p) c" "closes OYL_EVT_MAPPING_END 0 c d" for n c d
    using mapping_made [OF inside_makes [OF assms(2) that(1)] that(2)] by simp
  ultimately show ?thesis
    unfolding rest_of_mapping_def by (intro on_ok_rules on_ok_map_entry [OF assms(1)] assms(4)) auto
qed

subsection \<open>Block nodes\<close>

lemma inside_leaf: "inside t k 0 b (core q) \<Longrightarrow> leaf e \<Longrightarrow> inside t k 1 b (core (send q e))"
  using inside_makes [of t k 0 b "core q" 1] leaf_made by fastforce

lemma inside_leaf_props:
  "inside t k 0 b (core q) \<Longrightarrow> evt_type e = OYL_EVT_SCALAR \<Longrightarrow> inside t k 1 b (core (send_with_props q e))"
  using inside_makes [of t k 0 b "core q" 1] made(3) by fastforce

lemma entered:
  "core p = c \<Longrightarrow> evt_type e = t \<Longrightarrow> inside t 1 0 c (core (enter (send p e) x i))"
  using enter_inside [OF start_inside, of e p x i] by simp

lemma leaf_scalar: "evt_type e = OYL_EVT_SCALAR \<Longrightarrow> leaf e"
  by (simp add: leaf_def)

lemmas first_key = inside_leaf [OF made(4)] inside_leaf_props [OF made(4)] inside_leaf_props [OF entered]

lemma double_scalar_ok:
  assumes "calls_ok rec" and "eager (core p)"
  shows "on_ok (double_scalar rec inner c l p) (call_post BLOCK_NODE p)"
  unfolding double_scalar_def Let_def call_post.simps using assms(2)
  by (intro on_ok_rules on_ok_rest_of_mapping [OF assms(1), of "core p"])
    (auto intro!: made(3) first_key simp: leaf_def)

lemma block_alias_ok:
  assumes "calls_ok rec" and "eager (core p)"
  shows "on_ok (block_alias rec p) (call_post BLOCK_NODE p)"
  unfolding block_alias_def Let_def call_post.simps using assms(2)
  by (intro on_ok_rules on_ok_rest_of_mapping [OF assms(1), of "core p"])
    (auto intro!: made(2) first_key)

lemma scalar_key_mapping_ok:
  assumes "calls_ok rec" and "eager b" and "core p = b" and "evt_type e = OYL_EVT_SCALAR"
  shows "on_ok (scalar_key_mapping rec e c p) (\<lambda>q. makes 1 b (core q))"
  unfolding scalar_key_mapping_def Let_def
  by (intro on_ok_rest_of_mapping [OF assms(1), of b]) (use assms in \<open>auto intro!: first_key simp: leaf_def\<close>)

lemma block_scalar_ok:
  assumes "calls_ok rec" and "eager (core p)"
  shows "on_ok (block_scalar rec p) (call_post BLOCK_NODE p)"
  unfolding block_scalar_def Let_def call_post.simps using assms(2)
  by (intro on_ok_rules scalar_key_mapping_ok [OF assms(1), of "core p"]) (auto intro: made)

text \<open>A block collection: opened, filled, closed.\<close>

lemma block_closed:
  "makes n (core (open_collection p e x i)) d \<Longrightarrow> closes t 0 d d' \<Longrightarrow> closes t n (core (open_collection p e x i)) d'"
  using makes_closes by fastforce

lemma block_sequence_made:
  assumes "closes OYL_EVT_SEQUENCE_END 0 d d'" and "makes n (core (open_collection p e x i)) d"
    and "core p = c" and "evt_type e = OYL_EVT_SEQUENCE_START"
  shows "makes 1 c d'"
  using block_closed [OF assms(2,1)] sequence_start_opened [OF _ assms(3,4)] by blast

lemma block_mapping_made:
  assumes "closes OYL_EVT_MAPPING_END 0 d d'" and "makes (2 * n) (core (open_collection p e x i)) d"
    and "core p = c" and "evt_type e = OYL_EVT_MAPPING_START"
  shows "makes 1 c d'"
  using block_closed [OF assms(2,1)] mapping_start_opened [OF _ assms(3,4)] by blast

lemma eager_opened: "eager c \<Longrightarrow> core p = c \<Longrightarrow> eager (core (open_collection p e x i))"
  using eager_inside open_inside by blast

lemma double_sequence_ok:
  assumes "calls_ok rec" and "eager (core p)"
  shows "on_ok (double_sequence rec inner p) (call_post BLOCK_NODE p)"
  unfolding double_sequence_def Let_def call_post.simps using assms(2)
  by (intro on_ok_rules on_ok_call [OF assms(1)]) (auto intro: eager_opened block_sequence_made)

lemma block_sequence_node_ok:
  assumes "calls_ok rec" and "eager (core p)"
  shows "on_ok (block_sequence_node rec p) (call_post BLOCK_NODE p)"
  unfolding block_sequence_node_def Let_def call_post.simps using assms(2)
  by (intro on_ok_rules on_ok_call [OF assms(1)]) (auto intro: eager_opened block_sequence_made)

lemma block_explicit_key_ok:
  assumes "calls_ok rec" and "eager (core p)"
  shows "on_ok (block_explicit_key rec p) (call_post BLOCK_NODE p)"
  unfolding block_explicit_key_def Let_def call_post.simps using assms(2)
  by (intro on_ok_rules on_ok_call [OF assms(1)]) (auto intro: eager_opened block_mapping_made)

lemma block_bare_value_ok:
  assumes "calls_ok rec" and "eager (core p)"
  shows "on_ok (block_bare_value rec p) (call_post BLOCK_NODE p)"
  unfolding block_bare_value_def Let_def call_post.simps using assms(2)
  by (intro on_ok_rules on_ok_call [OF assms(1)] on_ok_rest_of_mapping [OF assms(1), of "core p"])
    (auto intro: eager_opened block_mapping_made intro!: first_key)

lemma double_empty_key_ok:
  assumes "calls_ok rec" and "eager (core p)"
  shows "on_ok (double_empty_key rec inner c p) (call_post BLOCK_NODE p)"
  unfolding double_empty_key_def Let_def call_post.simps using assms(2)
  by (intro on_ok_rest_of_mapping [OF assms(1), of "core p"]) (auto intro!: first_key simp: leaf_def)

text \<open>A flow collection that is a block node, and perhaps the first key of a mapping.\<close>

lemma on_ok_flow_call:
  assumes "calls_ok rec" and "flow_top (core p)" and "tt = OYL_TOK_FLOW_SEQ_START \<or> tt = OYL_TOK_FLOW_MAP_START"
    and "inside (flow_event tt) 1 0 b (core p)"
    and "\<And>q. makes 1 b (core q) \<Longrightarrow> co_oom (core q) \<or> evt_type (co_events (core q) ! length (co_events b)) = flow_event tt \<Longrightarrow> Q q"
  shows "on_ok (rec (flow_call tt) p) Q"
proof -
  have head: "co_oom (core q) \<or> evt_type (co_events (core q) ! length (co_events b)) = flow_event tt"
    if "closes t n (core p) (core q)" for q t n
    using that assms(4) by (auto simp: closes_def inside_def nth_append)
  from assms(3) show ?thesis
  proof
    assume t: "tt = OYL_TOK_FLOW_SEQ_START"
    have "makes 1 b (core q)" if "closes OYL_EVT_SEQUENCE_END n (core p) (core q)" for q n
      using sequence_made [OF _ _ _ _ _ that] assms(4) t by (simp add: flow_event_def)
    then show ?thesis using assms(2,5) head t by (auto simp: flow_call_def intro!: on_ok_call [OF assms(1)])
  next
    assume t: "tt = OYL_TOK_FLOW_MAP_START"
    have "makes 1 b (core q)" if "closes OYL_EVT_MAPPING_END (2 * n) (core p) (core q)" for q n
      using mapping_made [OF _ that] assms(4) t by (simp add: flow_event_def)
    then show ?thesis using assms(2,5) head t by (auto simp: flow_call_def intro!: on_ok_call [OF assms(1)])
  qed
qed

lemma flow_ctx_flow: "flow_type (flow_ctx tt)"
  by (simp add: flow_ctx_def flow_type_def)

text \<open>Changing the properties of the event a collection starts with.\<close>

lemma head_updated:
  assumes "makes 1 b c" and "co_oom c \<or> evt_type (co_events c ! i) = flow_event tt" and "i = length (co_events b)"
    and "evt_type e = evt_type (co_events c ! i)"
  shows "makes 1 b (c\<lparr>co_events := (co_events c)[i := e]\<rparr>)"
proof (cases "co_oom c")
  case False
  then obtain n where n: "good n" "co_events c = co_events b @ node_events n" "\<not> co_oom b" "co_contexts c = co_contexts b"
      "co_mode c = co_mode b"
    using assms(1) by (auto simp: makes_def length_Suc_conv One_nat_def)
  have "\<exists>m. good m \<and> node_events m = (node_events n)[0 := e]"
  proof (cases n)
    case (NSeq h ns h')
    then show ?thesis using n(1,2) assms(2-4) False
      by (intro exI [of _ "NSeq e ns h'"]) (auto simp: good_def nth_append)
  next
    case (NMap h kvs h')
    then show ?thesis using n(1,2) assms(2-4) False
      by (intro exI [of _ "NMap e kvs h'"]) (auto simp: good_def nth_append)
  qed (use n(1,2) assms(2-4) False in \<open>auto simp: good_def nth_append flow_event_def split: if_split_asm\<close>)
  then obtain m where "good m" "node_events m = (node_events n)[0 := e]" by blast
  moreover have "(co_events c)[i := e] = co_events b @ (node_events n)[0 := e]"
    using n(2) assms(3) by (simp add: list_update_append)
  ultimately show ?thesis using n unfolding makes_def by (intro disjI2 conjI exI [of _ "[m]"]) simp_all
qed (simp add: makes_def)

lemma update_core: "core (p\<lparr>pa_events := es\<rparr>) = (core p)\<lparr>co_events := es\<rparr>"
  by (simp add: core_def)

lemma on_ok_moved:
  assumes "makes 1 b (core p)" and "co_oom (core p) \<or> evt_type (co_events (core p) ! i) = flow_event tt" and "i = length (co_events b)"
    and "\<And>e q. evt_type e = evt_type m \<Longrightarrow> makes 1 b (core q) \<Longrightarrow> on_ok (k e q) Q"
  shows "on_ok (case if before then move_props_to_key_map p i m s a t else (m, p) of (e, q) \<Rightarrow> k e q) Q"
proof (cases before)
  case True
  obtain e q where eq: "move_props_to_key_map p i m s a t = (e, q)" by fastforce
  then have "evt_type e = evt_type m" by (auto simp: move_props_to_key_map_def Let_def)
  moreover have "\<exists>x. core q = (core p)\<lparr>co_events := (co_events (core p))[i := x]\<rparr> \<and> evt_type x = evt_type (co_events (core p) ! i)"
    using eq by (auto simp: move_props_to_key_map_def Let_def update_core core_sel)
  then have "makes 1 b (core q)" using head_updated [OF assms(1-3)] by metis
  ultimately show ?thesis using True eq assms(4) by simp
next
  case False
  then show ?thesis using assms(1,4) by simp
qed

lemma inside_entered:
  "inside t 0 n b (core p) \<Longrightarrow> inside t 1 n b (core (enter p x i))"
  by (rule enter_inside)

lemma block_flow_ok:
  assumes "calls_ok rec" and "eager (core p)" and "cur_type p = OYL_TOK_FLOW_SEQ_START \<or> cur_type p = OYL_TOK_FLOW_MAP_START"
  shows "on_ok (block_flow rec p) (call_post BLOCK_NODE p)"
proof -
  have len: "length (pa_events p) = length (co_events (core p))" by (simp add: core_sel)
  have top: "flow_top (core (open_collection (consume_token p) e (flow_ctx (cur_type p)) i))" for e i
    using assms(2) by (intro flow_top_open flow_ctx_flow) simp
  show ?thesis
    unfolding block_flow_def call_post.simps Let_def len
    by (intro on_ok_rules on_ok_flow_call [OF assms(1) _ assms(3), where b = "core p"] top on_ok_if [of _ "case _ of (e, q) \<Rightarrow> _ e q"]
        on_ok_moved [where b = "core p" and tt = "cur_type p"] on_ok_inserted [where b = "core p" and n = 1]
        on_ok_rest_of_mapping [OF assms(1), where b = "core p"])
      (use assms(2) in \<open>auto intro: made inside_entered\<close>)
qed

lemma double_flow_ok:
  assumes "calls_ok rec" and "eager (core p)" and "cur_type p = OYL_TOK_FLOW_SEQ_START \<or> cur_type p = OYL_TOK_FLOW_MAP_START"
  shows "on_ok (double_flow rec inner outer s c l p) (call_post BLOCK_NODE p)"
proof -
  have len: "length (pa_events p) = length (co_events (core p))" by (simp add: core_sel)
  have top: "flow_top (core (enter (send q e) (flow_ctx (cur_type p)) i))" if "core q = core p" for q e i
    using assms(2) that by (intro flow_top_enter eager_send flow_ctx_flow) simp
  have update: "makes 1 (core p) (core (q\<lparr>pa_events := (pa_events q)[length (co_events (core p)) :=
      with_props outer (pa_events q ! length (co_events (core p)))]\<rparr>))"
    if "makes 1 (core p) d" "co_oom d \<or> evt_type (co_events d ! length (co_events (core p))) = flow_event (cur_type p)"
      "core q = d" for q d
  proof -
    have "pa_events q = co_events d" using that(3) by (auto simp: core_sel)
    then show ?thesis using head_updated [OF that(1,2) refl] that(3) by (simp add: update_core)
  qed
  show ?thesis
    unfolding double_flow_def call_post.simps Let_def len
    by (intro on_ok_rules on_ok_flow_call [OF assms(1) _ assms(3), where b = "core p"] top
        on_ok_inserted [where b = "core p" and n = 1]
        on_ok_rest_of_mapping [OF assms(1), where b = "core p"])
      (use assms(2) in \<open>auto intro: made entered inside_entered update [OF _ disjI1] update [OF _ disjI2]\<close>)
qed

lemma node_post: "on_ok r (call_post BLOCK_NODE q) \<Longrightarrow> core q = core p \<Longrightarrow> on_ok r (call_post BLOCK_NODE p)"
  by (simp add: on_ok_def)

lemma double_props_ok:
  assumes "calls_ok rec" and "eager (core p)"
  shows "on_ok (double_props rec p) (call_post BLOCK_NODE p)"
  unfolding double_props_def Let_def using assms(2)
  by (intro on_ok_rules node_post [OF double_flow_ok [OF assms(1)]] node_post [OF double_scalar_ok [OF assms(1)]]
      node_post [OF double_sequence_ok [OF assms(1)]] node_post [OF double_empty_key_ok [OF assms(1)]])
    (auto intro: made)

lemma block_node_ok:
  assumes "calls_ok rec" and "eager (core p)"
  shows "on_ok (parse_block_node rec p) (call_post BLOCK_NODE p)"
  unfolding parse_block_node_def block_content_def Let_def using assms(2)
  by (intro on_ok_rules node_post [OF double_props_ok [OF assms(1)]] node_post [OF block_alias_ok [OF assms(1)]]
      node_post [OF block_flow_ok [OF assms(1)]] node_post [OF block_sequence_node_ok [OF assms(1)]]
      node_post [OF block_scalar_ok [OF assms(1)]] node_post [OF block_explicit_key_ok [OF assms(1)]]
      node_post [OF block_bare_value_ok [OF assms(1)]])
    (auto intro: made)

text \<open>All of them, with any fuel.\<close>

lemma parse_calls_ok: "calls_ok (parse_call n)"
proof (induction n)
  case (Suc n)
  show ?case
    unfolding calls_ok_def
  proof (intro allI impI)
    fix g p
    assume "call_pre g p"
    then show "on_ok (parse_call (Suc n) g p) (call_post g p)"
      using Suc flow_sequence_ok flow_mapping_ok flow_node_ok map_value_ok block_mapping_ok block_sequence_ok block_node_ok
      by (cases g) (simp_all del: call_post.simps)
  qed
qed (simp add: calls_ok_def on_ok_def)
end
