(* ===== verification/OylIncremental.thy ===== *)
theory OylIncremental
  imports OylGrammar OylFlowKey
begin

text \<open>
  The incremental parser of \<open>src/src/oyl_parser.c\<close>: the state machine from \<open>inc_emit\<close> to \<open>parser_step\<close>.
  One call of \<open>parser_step\<close> is one step. It looks at the current token, may consume it, may put up to
  three events in \<open>pa_out_buf\<close>, and sets the next state; \<open>pa_frames\<close> is the stack of open collections, with
  the state each returns to. What the machine leaves to the eager parser (properties in block context,
  flow collections as keys, directives) leads to the state \<open>ST_EAGER_DRAIN\<close>.

  The states of the C switch are definitions of their own, \<open>st_\<close> and the name of the state, and
  \<open>parser_step\<close> selects one. Most of them ignore the status of \<open>peek_token\<close> and go on with a stale token
  when the scan fails (\<open>look\<close>); \<open>next_event\<close> drops what they emit then.
\<close>

section \<open>Statements\<close>

definition look :: "oyl_parser \<Rightarrow> (oyl_parser \<Rightarrow> parse_result) \<Rightarrow> parse_result" where
  "look p k = (case peek_token p of None \<Rightarrow> None | Some (st, p) \<Rightarrow> k p)"

definition to_state :: "parser_state \<Rightarrow> oyl_parser \<Rightarrow> oyl_parser" where
  "to_state st p = p\<lparr>pa_state := st\<rparr>"

text \<open>A node in state \<open>st\<close>, and after it the state \<open>ret\<close>.\<close>

definition node_then :: "parser_state \<Rightarrow> parser_state \<Rightarrow> oyl_parser \<Rightarrow> oyl_parser" where
  "node_then st ret p = p\<lparr>pa_node_return := ret, pa_state := st\<rparr>"

definition node_done :: "oyl_parser \<Rightarrow> parse_result" where
  "node_done p = ok (to_state (pa_node_return p) p)"

section \<open>Events and frames\<close>

definition inc_limit :: "oyl_parser \<Rightarrow> bool" where
  "inc_limit p \<longleftrightarrow> pa_max_events p > 0 \<and> pa_events_delivered p + int (length (pa_out_buf p)) \<ge> pa_max_events p"

definition inc_emit :: "oyl_parser \<Rightarrow> oyl_event \<Rightarrow> oyl_parser" where
  "inc_emit p evt =
    (if inc_limit p then hit_limit p ''event limit exceeded''
     else if length (pa_out_buf p) < 8 then p\<lparr>pa_out_buf := pa_out_buf p @ [evt]\<rparr> else p)"

text \<open>An empty scalar, zero width, at the current token.\<close>

definition inc_empty :: "oyl_parser \<Rightarrow> oyl_parser" where
  "inc_empty p = inc_emit p (event_here OYL_EVT_SCALAR p)"

text \<open>
  The loop that takes the last start event out of the buffer, \<open>k\<close> counting down from its length; the
  events after it go with it.
\<close>

fun withhold_start :: "oyl_event list \<Rightarrow> nat \<Rightarrow> nat \<Rightarrow> oyl_event list" where
  "withhold_start out cursor 0 = out"
| "withhold_start out cursor (Suc k) =
    (if k < cursor then out
     else if evt_type (out ! k) = OYL_EVT_MAPPING_START \<or> evt_type (out ! k) = OYL_EVT_SEQUENCE_START
     then take k out
     else withhold_start out cursor k)"

definition inc_push_frame :: "oyl_parser \<Rightarrow> ctx_type \<Rightarrow> int \<Rightarrow> parser_state \<Rightarrow> oyl_parser" where
  "inc_push_frame p type indent ret =
    (if (type = CTX_BLOCK_MAP \<or> type = CTX_BLOCK_SEQ) \<and> pa_doc_start_line p \<noteq> 0 \<and>
        cur_line p = pa_doc_start_line p
     then stop_with p OYL_ERR_PARSE (''block collection cannot start on the '' @ in_quotes ''---'' @ '' line'')
     else if pa_max_depth p > 0 \<and> int (length (pa_frames p)) \<ge> pa_max_depth p
     then hit_limit (p\<lparr>pa_out_buf := withhold_start (pa_out_buf p) (pa_out_cursor p) (length (pa_out_buf p))\<rparr>)
            ''nesting depth limit exceeded''
     else
       let (ok, p) =
         (if length (pa_frames p) \<ge> pa_frame_cap p then
            let (ok, m) = mem_take (pa_mem p)
            in if \<not> ok then (False, p\<lparr>pa_mem := m, pa_oom := True\<rparr>)
               else (True, p\<lparr>pa_mem := m, pa_frame_cap := pa_frame_cap p * 2\<rparr>)
          else (True, p))
       in if \<not> ok then p
          else p\<lparr>pa_frames := \<lparr>fr_type = type, fr_indent = indent, fr_return_state = ret\<rparr> # pa_frames p\<rparr>)"

definition inc_pop_frame :: "oyl_parser \<Rightarrow> state_frame \<times> oyl_parser" where
  "inc_pop_frame p =
    (case pa_frames p of
       f # fs \<Rightarrow> (f, p\<lparr>pa_frames := fs\<rparr>)
     | [] \<Rightarrow> (\<lparr>fr_type = CTX_BLOCK_MAP, fr_indent = - 1, fr_return_state = ST_DONE\<rparr>, p))"

definition inc_top_frame :: "oyl_parser \<Rightarrow> state_frame option" where
  "inc_top_frame p = (case pa_frames p of [] \<Rightarrow> None | f # fs \<Rightarrow> Some f)"

text \<open>\<open>top ? top->indent : 0\<close>.\<close>

definition frame_indent :: "oyl_parser \<Rightarrow> int" where
  "frame_indent p = (case inc_top_frame p of None \<Rightarrow> 0 | Some f \<Rightarrow> fr_indent f)"

definition inc_emit_scalar_token :: "oyl_parser \<Rightarrow> oyl_parser" where
  "inc_emit_scalar_token p =
    (if inc_limit p then hit_limit p ''event limit exceeded''
     else consume_token
       (if length (pa_out_buf p) < 8
        then let (evt, p) = attach_props p (scalar_event p) in p\<lparr>pa_out_buf := pa_out_buf p @ [evt]\<rparr>
        else p))"

definition inc_emit_with_props :: "oyl_parser \<Rightarrow> oyl_event \<Rightarrow> oyl_parser" where
  "inc_emit_with_props p evt = (let (evt, p) = attach_props p evt in inc_emit p evt)"


section \<open>Flow separators and values\<close>

definition inc_flow_sep :: "oyl_parser \<Rightarrow> bool \<Rightarrow> parse_result" where
  "inc_flow_sep p in_seq =
    peeked p (\<lambda>p.
      if cur_type p = OYL_TOK_FLOW_ENTRY
      then ok (to_state (if in_seq then ST_FLOW_SEQ_LOOP else ST_FLOW_MAP_LOOP) (consume_token p))
      else if cur_type p = (if in_seq then OYL_TOK_FLOW_SEQ_END else OYL_TOK_FLOW_MAP_END)
      then ok (to_state (if in_seq then ST_FLOW_SEQ_END else ST_FLOW_MAP_END) p)
      else ok (to_state (if in_seq then ST_FLOW_SEQ_SEP else ST_FLOW_MAP_SEP) p))"

definition inc_flow_map_value :: "oyl_parser \<Rightarrow> parse_result" where
  "inc_flow_map_value p =
    peeked p (\<lambda>p.
      if cur_type p = OYL_TOK_SCALAR then inc_flow_sep (inc_emit_scalar_token p) False
      else if cur_type p = OYL_TOK_FLOW_ENTRY \<or> cur_type p = OYL_TOK_FLOW_MAP_END
      then ok (to_state ST_FLOW_MAP_SEP (inc_empty p))
      else ok (node_then ST_FLOW_NODE ST_FLOW_MAP_SEP p))"

text \<open>Only blanks before \<open>offset\<close> on its line; the bytes before it are read backwards.\<close>

definition starts_line :: "oyl_parser \<Rightarrow> nat \<Rightarrow> bool" where
  "starts_line p offset =
    (let before = dropWhile (\<lambda>c. c = SP \<or> c = TAB) (rev (take offset (pa_input p)))
     in before = [] \<or> hd before = LF \<or> hd before = CR \<or>
        length before = 3 \<and> take 3 (pa_input p) = [0xEF, 0xBB, 0xBF])"


section \<open>Checkpoints\<close>

definition OYL_CKPT_SPACING :: nat where
  "OYL_CKPT_SPACING = 65536"

text \<open>The difference of two values of type \<open>size_t\<close>.\<close>

definition size_diff :: "nat \<Rightarrow> nat \<Rightarrow> nat" where
  "size_diff a b = nat ((int a - int b) mod 2 ^ 64)"

text \<open>
  A scanner made later has an oracle of its own: the answers of the parser's oracle are dealt out to
  the two, so that both can be any.
\<close>

fun mem_split :: "mem \<Rightarrow> mem \<times> mem" where
  "mem_split [] = ([], [])"
| "mem_split [b] = ([b], [])"
| "mem_split (b # c # m) = (let (m1, m2) = mem_split m in (b # m1, c # m2))"

definition new_scanner :: "oyl_parser \<Rightarrow> oyl_scanner option \<times> oyl_parser" where
  "new_scanner p =
    (let (m1, m2) = mem_split (pa_mem p)
     in (oyl_scanner_new m2 (sc_sse42 (pa_scanner p)) (pa_input p), p\<lparr>pa_mem := m1\<rparr>))"

definition inc_checkpoint :: "oyl_parser \<Rightarrow> oyl_parser" where
  "inc_checkpoint p =
    (if pa_out_buf p \<noteq> [] \<or> pa_scan_error p \<noteq> OYL_OK \<or> pa_doc_open p \<or> pa_frames p \<noteq> [] \<or>
        pa_has_anchor p \<or> pa_has_tag p \<or> \<not> pa_have_token p
     then p
     else if pa_ckpt p \<noteq> None \<and>
        size_diff (mk_offset (cur_start p)) (mk_offset (tok_start (pa_ckpt_tok p))) < OYL_CKPT_SPACING
     then p
     else
       let p = (if pa_ckpt p = None then let (s, p) = new_scanner p in p\<lparr>pa_ckpt := s\<rparr> else p)
       in case pa_ckpt p of
            None \<Rightarrow> p
          | Some ckpt \<Rightarrow>
              let (copied, ckpt) = oyl_scanner_copy ckpt (pa_scanner p); p = p\<lparr>pa_ckpt := Some ckpt\<rparr>
              in if \<not> copied then p
                 else p\<lparr>pa_ckpt_tok := pa_current p, pa_ckpt_have_tok := pa_have_token p,
                        pa_ckpt_delivered := pa_events_delivered p, pa_ckpt_sig := pa_delivered_sig p\<rparr>)"

text \<open>After a root node.\<close>

definition inc_end_document :: "oyl_parser \<Rightarrow> parse_result" where
  "inc_end_document p =
    peeked p (\<lambda>p.
      if cur_type p \<noteq> OYL_TOK_DOC_END \<and> cur_type p \<noteq> OYL_TOK_DOC_START \<and> cur_type p \<noteq> OYL_TOK_STREAM_END
      then fail_with p ''unexpected content after document root node''
      else
        let is_implicit = (cur_type p \<noteq> OYL_TOK_DOC_END);
            p = (if is_implicit then p else consume_token p);
            evt = (event_at OYL_EVT_DOC_END (cur_start p) (if is_implicit then cur_start p else cur_end p))
                    \<lparr>evt_implicit := is_implicit\<rparr>
        in ok (to_state ST_STREAM_DOC_LOOP ((inc_emit p evt)\<lparr>pa_doc_open := False\<rparr>)))"


section \<open>Flow states\<close>

text \<open>A flow collection is opened: its start event, its frame, and the state of its entries.\<close>

definition inc_open_flow :: "oyl_event_type \<Rightarrow> ctx_type \<Rightarrow> parser_state \<Rightarrow> oyl_parser \<Rightarrow> parse_result" where
  "inc_open_flow t ct st p =
    (let col = tok_col p; (evt, p) = attach_props p (flow_start t p);
         p = inc_emit (consume_token p) evt
     in ok (to_state st (inc_push_frame p ct col (pa_node_return p))))"

definition flow_node_content :: "oyl_parser \<Rightarrow> parse_result" where
  "flow_node_content p =
    (if cur_type p = OYL_TOK_SCALAR then node_done (inc_emit_scalar_token p)
     else if cur_type p = OYL_TOK_ALIAS then
       let (evt, p) = attach_props p (alias_event p) in node_done (inc_emit (consume_token p) evt)
     else if cur_type p = OYL_TOK_FLOW_SEQ_START
     then inc_open_flow OYL_EVT_SEQUENCE_START CTX_FLOW_SEQ ST_FLOW_SEQ_LOOP p
     else if cur_type p = OYL_TOK_FLOW_MAP_START
     then inc_open_flow OYL_EVT_MAPPING_START CTX_FLOW_MAP ST_FLOW_MAP_LOOP p
     else node_done (inc_emit_with_props p (event_here OYL_EVT_SCALAR p)))"

definition st_FLOW_NODE :: "oyl_parser \<Rightarrow> parse_result" where
  "st_FLOW_NODE p =
    look p (\<lambda>p.
      if cur_type p = OYL_TOK_TAG \<or> cur_type p = OYL_TOK_ANCHOR
      then then_ok (consume_props p) (\<lambda>p. look p flow_node_content)
      else flow_node_content p)"

subsection \<open>Flow mappings\<close>

text \<open>The key after a \<open>?\<close>, or the value of a pair in a sequence: a node in \<open>st\<close>'s state, or nothing.\<close>

definition empty_or_node :: "oyl_token_type list \<Rightarrow> parser_state \<Rightarrow> oyl_parser \<Rightarrow> parse_result" where
  "empty_or_node tts ret p =
    look p (\<lambda>p. if cur_type p \<in> set tts then ok (to_state ret (inc_empty p))
                else ok (node_then ST_FLOW_NODE ret p))"

definition st_FLOW_MAP_LOOP :: "oyl_parser \<Rightarrow> parse_result" where
  "st_FLOW_MAP_LOOP p =
    unless_oom p (\<lambda>p. look p (\<lambda>p.
      if cur_type p = OYL_TOK_FLOW_MAP_END then ok (to_state ST_FLOW_MAP_END p)
      else if cur_type p = OYL_TOK_FLOW_ENTRY
      then fail_with p (''unexpected '' @ in_quotes '','' @ '' in flow mapping'')
      else if cur_type p = OYL_TOK_BLOCK_MAP_KEY
      then empty_or_node [OYL_TOK_BLOCK_MAP_VALUE, OYL_TOK_FLOW_ENTRY, OYL_TOK_FLOW_MAP_END]
             ST_FLOW_MAP_VALUE (consume_token p)
      else if cur_type p = OYL_TOK_SCALAR
      then peeked (to_state ST_FLOW_MAP_VALUE (inc_emit_scalar_token p)) (\<lambda>p.
             if cur_type p \<noteq> OYL_TOK_BLOCK_MAP_VALUE then ok p else inc_flow_map_value (consume_token p))
      else ok (node_then ST_FLOW_NODE ST_FLOW_MAP_VALUE p)))"

definition st_FLOW_MAP_VALUE :: "oyl_parser \<Rightarrow> parse_result" where
  "st_FLOW_MAP_VALUE p =
    look p (\<lambda>p.
      if cur_type p = OYL_TOK_BLOCK_MAP_VALUE then inc_flow_map_value (consume_token p)
      else ok (to_state ST_FLOW_MAP_SEP (inc_empty p)))"

definition st_FLOW_MAP_SEP :: "oyl_parser \<Rightarrow> parse_result" where
  "st_FLOW_MAP_SEP p =
    look p (\<lambda>p.
      if cur_type p = OYL_TOK_FLOW_ENTRY then ok (to_state ST_FLOW_MAP_LOOP (consume_token p))
      else if cur_type p = OYL_TOK_FLOW_MAP_END then ok (to_state ST_FLOW_MAP_LOOP p)
      else fail_with p (''expected '' @ in_quotes '','' @ '' or '' @ in_quotes ''}'' @ '' in flow mapping''))"

text \<open>The end event at the current token, which is consumed; what follows is the popped frame's matter.\<close>

definition inc_close_flow :: "oyl_event_type \<Rightarrow> oyl_parser \<Rightarrow> parse_result" where
  "inc_close_flow t p =
    (let close = cur_start p; close_end = cur_end p;
         p = inc_emit (consume_token p) (event_at t close close_end);
         (frame, p) = inc_pop_frame p; p = to_state (fr_return_state frame) p
     in if pa_state p = ST_FLOW_SEQ_SEP then inc_flow_sep p True
        else if pa_state p = ST_FLOW_MAP_SEP then inc_flow_sep p False
        else ok p)"

definition st_FLOW_MAP_END :: "oyl_parser \<Rightarrow> parse_result" where
  "st_FLOW_MAP_END p = inc_close_flow OYL_EVT_MAPPING_END p"

subsection \<open>Flow sequences\<close>

definition st_FLOW_SEQ_ENTRY :: "oyl_parser \<Rightarrow> parse_result" where
  "st_FLOW_SEQ_ENTRY p =
    look p (\<lambda>p.
      let (evt, p) = attach_props p (if cur_type p = OYL_TOK_SCALAR then scalar_event p else alias_event p)
      in look (consume_token p) (\<lambda>p.
           if cur_type p = OYL_TOK_BLOCK_MAP_VALUE
           then ok (to_state ST_FLOW_SEQ_ENTRY_KEY (p\<lparr>pa_saved_node := evt, pa_have_saved_node := True\<rparr>))
           else inc_flow_sep (inc_emit p evt) True))"

text \<open>A pair with an empty key, \<open>[ : value ]\<close>.\<close>

definition inc_empty_key_pair :: "oyl_parser \<Rightarrow> parse_result" where
  "inc_empty_key_pair p =
    (let (key, p) = attach_props p (event_here OYL_EVT_SCALAR p);
         p = inc_emit p ((event_at OYL_EVT_MAPPING_START (evt_start key) (evt_start key))\<lparr>evt_flow := True\<rparr>);
         p = consume_token (inc_emit p key)
     in empty_or_node [OYL_TOK_FLOW_ENTRY, OYL_TOK_FLOW_SEQ_END] ST_FLOW_SEQ_IMPLICIT_END p)"

text \<open>Properties of an entry: they stay pending, unless the entry is empty.\<close>

definition inc_entry_props :: "oyl_parser \<Rightarrow> parse_result" where
  "inc_entry_props p =
    then_ok (consume_props p) (\<lambda>p. peeked p (\<lambda>p.
      if cur_type p = OYL_TOK_FLOW_ENTRY \<or> cur_type p = OYL_TOK_FLOW_SEQ_END
      then inc_flow_sep (inc_emit_with_props p (event_here OYL_EVT_SCALAR p)) True
      else if cur_type p = OYL_TOK_TAG \<or> cur_type p = OYL_TOK_ANCHOR
      then fail_with p (''expected '' @ in_quotes '','' @ '' or '' @ in_quotes '']'' @ '' in flow sequence'')
      else ok p))"

definition st_FLOW_SEQ_LOOP :: "oyl_parser \<Rightarrow> parse_result" where
  "st_FLOW_SEQ_LOOP p =
    unless_oom p (\<lambda>p. look p (\<lambda>p.
      if cur_type p = OYL_TOK_FLOW_SEQ_END then ok (to_state ST_FLOW_SEQ_END p)
      else if cur_type p = OYL_TOK_BLOCK_MAP_KEY then
        if pa_has_anchor p \<or> pa_has_tag p
        then fail_with p (''expected '' @ in_quotes '','' @ '' or '' @ in_quotes '']'' @ '' in flow sequence'')
        else ok (to_state ST_FLOW_SEQ_EXPLICIT_KEY p)
      else if cur_type p = OYL_TOK_SCALAR \<or> cur_type p = OYL_TOK_ALIAS
      then st_FLOW_SEQ_ENTRY (to_state ST_FLOW_SEQ_ENTRY p)
      else if cur_type p = OYL_TOK_FLOW_SEQ_START \<or> cur_type p = OYL_TOK_FLOW_MAP_START then
        let (is_key, p) = flow_is_block_key p (mk_offset (cur_start p))
        in if is_key then ok (to_state ST_EAGER_DRAIN p) else ok (node_then ST_FLOW_NODE ST_FLOW_SEQ_SEP p)
      else if cur_type p = OYL_TOK_BLOCK_MAP_VALUE then inc_empty_key_pair p
      else if cur_type p = OYL_TOK_TAG \<or> cur_type p = OYL_TOK_ANCHOR then inc_entry_props p
      else if cur_type p = OYL_TOK_FLOW_ENTRY
      then fail_with p (''unexpected '' @ in_quotes '','' @ '' in flow sequence'')
      else fail_with p ''unexpected token in flow sequence''))"

definition st_FLOW_SEQ_ENTRY_KEY :: "oyl_parser \<Rightarrow> parse_result" where
  "st_FLOW_SEQ_ENTRY_KEY p =
    (let b = evt_start (pa_saved_node p);
         p = inc_emit p ((event_at OYL_EVT_MAPPING_START b b)\<lparr>evt_flow := True\<rparr>);
         p = (inc_emit p (pa_saved_node p))\<lparr>pa_have_saved_node := False\<rparr>
     in empty_or_node [OYL_TOK_FLOW_ENTRY, OYL_TOK_FLOW_SEQ_END] ST_FLOW_SEQ_IMPLICIT_END (consume_token p))"

definition st_FLOW_SEQ_IMPLICIT_END :: "oyl_parser \<Rightarrow> parse_result" where
  "st_FLOW_SEQ_IMPLICIT_END p =
    look p (\<lambda>p. ok (to_state ST_FLOW_SEQ_SEP (inc_emit p (event_here OYL_EVT_MAPPING_END p))))"

definition st_FLOW_SEQ_EXPLICIT_KEY :: "oyl_parser \<Rightarrow> parse_result" where
  "st_FLOW_SEQ_EXPLICIT_KEY p =
    (let p = consume_token (inc_emit p (flow_start OYL_EVT_MAPPING_START p))
     in empty_or_node [OYL_TOK_BLOCK_MAP_VALUE, OYL_TOK_FLOW_ENTRY, OYL_TOK_FLOW_SEQ_END]
          ST_FLOW_SEQ_EXPLICIT_VALUE p)"

definition st_FLOW_SEQ_EXPLICIT_VALUE :: "oyl_parser \<Rightarrow> parse_result" where
  "st_FLOW_SEQ_EXPLICIT_VALUE p =
    look p (\<lambda>p.
      if cur_type p = OYL_TOK_BLOCK_MAP_VALUE
      then empty_or_node [OYL_TOK_FLOW_ENTRY, OYL_TOK_FLOW_SEQ_END] ST_FLOW_SEQ_EXPLICIT_END (consume_token p)
      else ok (to_state ST_FLOW_SEQ_EXPLICIT_END (inc_empty p)))"

definition st_FLOW_SEQ_EXPLICIT_END :: "oyl_parser \<Rightarrow> parse_result" where
  "st_FLOW_SEQ_EXPLICIT_END p =
    look p (\<lambda>p. ok (to_state ST_FLOW_SEQ_SEP (inc_emit p (event_here OYL_EVT_MAPPING_END p))))"

definition st_FLOW_SEQ_CHECK_COLON :: "oyl_parser \<Rightarrow> parse_result" where
  "st_FLOW_SEQ_CHECK_COLON p =
    look p (\<lambda>p. ok (to_state (if cur_type p = OYL_TOK_BLOCK_MAP_VALUE then ST_EAGER_DRAIN else ST_FLOW_SEQ_SEP) p))"

definition st_FLOW_SEQ_SEP :: "oyl_parser \<Rightarrow> parse_result" where
  "st_FLOW_SEQ_SEP p =
    look p (\<lambda>p.
      if cur_type p = OYL_TOK_FLOW_ENTRY then ok (to_state ST_FLOW_SEQ_LOOP (consume_token p))
      else if cur_type p = OYL_TOK_FLOW_SEQ_END then ok (to_state ST_FLOW_SEQ_LOOP p)
      else fail_with p (''expected '' @ in_quotes '','' @ '' or '' @ in_quotes '']'' @ '' in flow sequence''))"

definition st_FLOW_SEQ_END :: "oyl_parser \<Rightarrow> parse_result" where
  "st_FLOW_SEQ_END p = inc_close_flow OYL_EVT_SEQUENCE_END p"

definition parser_step_flow :: "oyl_parser \<Rightarrow> parse_result" where
  "parser_step_flow p =
    (case pa_state p of
       ST_FLOW_NODE \<Rightarrow> st_FLOW_NODE p
     | ST_FLOW_MAP_LOOP \<Rightarrow> st_FLOW_MAP_LOOP p
     | ST_FLOW_MAP_VALUE \<Rightarrow> st_FLOW_MAP_VALUE p
     | ST_FLOW_MAP_SEP \<Rightarrow> st_FLOW_MAP_SEP p
     | ST_FLOW_MAP_END \<Rightarrow> st_FLOW_MAP_END p
     | ST_FLOW_SEQ_LOOP \<Rightarrow> st_FLOW_SEQ_LOOP p
     | ST_FLOW_SEQ_ENTRY \<Rightarrow> st_FLOW_SEQ_ENTRY p
     | ST_FLOW_SEQ_ENTRY_KEY \<Rightarrow> st_FLOW_SEQ_ENTRY_KEY p
     | ST_FLOW_SEQ_IMPLICIT_END \<Rightarrow> st_FLOW_SEQ_IMPLICIT_END p
     | ST_FLOW_SEQ_EXPLICIT_KEY \<Rightarrow> st_FLOW_SEQ_EXPLICIT_KEY p
     | ST_FLOW_SEQ_EXPLICIT_VALUE \<Rightarrow> st_FLOW_SEQ_EXPLICIT_VALUE p
     | ST_FLOW_SEQ_EXPLICIT_END \<Rightarrow> st_FLOW_SEQ_EXPLICIT_END p
     | ST_FLOW_SEQ_CHECK_COLON \<Rightarrow> st_FLOW_SEQ_CHECK_COLON p
     | ST_FLOW_SEQ_SEP \<Rightarrow> st_FLOW_SEQ_SEP p
     | ST_FLOW_SEQ_END \<Rightarrow> st_FLOW_SEQ_END p
     | _ \<Rightarrow> Some (OYL_ERR_PARSE, p))"

section \<open>Streams and documents\<close>

definition st_STREAM_START :: "oyl_parser \<Rightarrow> parse_result" where
  "st_STREAM_START p =
    look p (\<lambda>p.
      let evt = event_at OYL_EVT_STREAM_START (cur_start p) (cur_end p)
      in ok (to_state ST_STREAM_DOC_LOOP (inc_emit (consume_token p) evt)))"

definition st_STREAM_DOC_LOOP :: "oyl_parser \<Rightarrow> parse_result" where
  "st_STREAM_DOC_LOOP p =
    look p (\<lambda>p. ok (to_state (if cur_type p = OYL_TOK_STREAM_END then ST_STREAM_END else ST_DOC_DIRECTIVES) p))"

definition st_STREAM_END :: "oyl_parser \<Rightarrow> parse_result" where
  "st_STREAM_END p =
    look p (\<lambda>p.
      let evt = event_at OYL_EVT_STREAM_END (cur_start p) (cur_end p)
      in ok (to_state ST_DONE ((inc_emit (consume_token p) evt)\<lparr>pa_stream_ended := True\<rparr>)))"

definition st_DOC_DIRECTIVES :: "oyl_parser \<Rightarrow> parse_result" where
  "st_DOC_DIRECTIVES p =
    look p (\<lambda>p.
      let tt = cur_type p; p = inc_checkpoint p
      in if tt = OYL_TOK_DIRECTIVE then ok (to_state ST_EAGER_DRAIN p)
         else if tt = OYL_TOK_DOC_START then ok (to_state ST_DOC_START_EXPLICIT p)
         else if tt = OYL_TOK_DOC_END then ok (to_state ST_STREAM_DOC_LOOP (consume_token p))
         else if tt = OYL_TOK_STREAM_END then ok (to_state ST_STREAM_END p)
         else ok (to_state ST_DOC_START_IMPLICIT p))"

text \<open>
  The document still open is ended before state \<open>st\<close> goes on as \<open>k\<close>; its collections are closed first,
  one per step.
\<close>

definition inc_close_document :: "parser_state \<Rightarrow> oyl_parser \<Rightarrow> (oyl_parser \<Rightarrow> parse_result) \<Rightarrow> parse_result" where
  "inc_close_document st p k =
    (if pa_doc_open p then
       if pa_frames p \<noteq> [] then ok (to_state ST_UNROLL (p\<lparr>pa_unroll_return := st\<rparr>))
       else look p (\<lambda>p.
         k ((inc_emit p ((event_here OYL_EVT_DOC_END p)\<lparr>evt_implicit := True\<rparr>))\<lparr>pa_doc_open := False\<rparr>))
     else k p)"

definition st_DOC_START_EXPLICIT :: "oyl_parser \<Rightarrow> parse_result" where
  "st_DOC_START_EXPLICIT p =
    inc_close_document ST_DOC_START_EXPLICIT p (\<lambda>p. look p (\<lambda>p.
      let m = cur_start p; marker_end = cur_end p;
          p = consume_token (p\<lparr>pa_doc_start_line := mk_line m\<rparr>)
      in ok (to_state ST_DOC_CONTENT
               ((inc_emit p (event_at OYL_EVT_DOC_START m marker_end))\<lparr>pa_doc_open := True\<rparr>))))"

definition st_DOC_START_IMPLICIT :: "oyl_parser \<Rightarrow> parse_result" where
  "st_DOC_START_IMPLICIT p =
    inc_close_document ST_DOC_START_IMPLICIT p (\<lambda>p. look p (\<lambda>p.
      let p = p\<lparr>pa_doc_start_line := 0\<rparr>
      in ok (to_state ST_DOC_CONTENT
               ((inc_emit p ((event_here OYL_EVT_DOC_START p)\<lparr>evt_implicit := True\<rparr>))\<lparr>pa_doc_open := True\<rparr>))))"

text \<open>An empty document: its root, and its end if \<open>---\<close> or the end of the stream follows.\<close>

definition st_DOC_CONTENT :: "oyl_parser \<Rightarrow> parse_result" where
  "st_DOC_CONTENT p =
    look p (\<lambda>p.
      let empty_document = (\<lambda>st. let p = inc_empty p
            in ok (to_state st ((inc_emit p ((event_here OYL_EVT_DOC_END p)\<lparr>evt_implicit := True\<rparr>))\<lparr>pa_doc_open := False\<rparr>)))
      in if cur_type p = OYL_TOK_DOC_END then ok (to_state ST_DOC_END_EXPLICIT (inc_empty p))
         else if cur_type p = OYL_TOK_DOC_START then empty_document ST_STREAM_DOC_LOOP
         else if cur_type p = OYL_TOK_STREAM_END then empty_document ST_STREAM_END
         else ok (node_then ST_BLOCK_NODE ST_DOC_END_EXPLICIT p))"


section \<open>Block nodes\<close>

text \<open>
  A flow collection in block context: a node, unless it may be a key, which a map value on the line of
  an implicit key's \<open>:\<close> may not.
\<close>

definition inc_flow_in_block :: "oyl_parser \<Rightarrow> parse_result" where
  "inc_flow_in_block p =
    (if pa_node_return p = ST_BLOCK_MAP_LOOP \<and> cur_line p = pa_value_colon_line p \<and> \<not> pa_value_colon_starts_line p
     then ok (to_state ST_FLOW_NODE p)
     else let (is_key, p) = flow_is_block_key p (mk_offset (cur_start p))
          in ok (to_state (if is_key then ST_EAGER_DRAIN else ST_FLOW_NODE) p))"

definition st_BLOCK_NODE :: "oyl_parser \<Rightarrow> parse_result" where
  "st_BLOCK_NODE p =
    look p (\<lambda>p.
      let tt = cur_type p
      in if tt = OYL_TOK_TAG \<or> tt = OYL_TOK_ANCHOR then ok (to_state ST_EAGER_DRAIN p)
         else if tt = OYL_TOK_ALIAS then ok (to_state ST_BLOCK_NODE_ALIAS p)
         else if tt = OYL_TOK_BLOCK_SEQ_ENTRY then ok (to_state ST_BLOCK_NODE_SEQ p)
         else if tt = OYL_TOK_BLOCK_MAP_KEY then ok (to_state ST_BLOCK_NODE_EXPLICIT_KEY p)
         else if tt = OYL_TOK_BLOCK_MAP_VALUE then ok (to_state ST_BLOCK_NODE_BARE_VALUE p)
         else if tt = OYL_TOK_FLOW_SEQ_START \<or> tt = OYL_TOK_FLOW_MAP_START then inc_flow_in_block p
         else if tt = OYL_TOK_SCALAR then ok (to_state ST_BLOCK_NODE_SCALAR p)
         else if tt = OYL_TOK_FLOW_SEQ_END \<or> tt = OYL_TOK_FLOW_MAP_END \<or> tt = OYL_TOK_FLOW_ENTRY
         then fail_with p ''unexpected flow indicator outside a flow collection''
         else if tt = OYL_TOK_DIRECTIVE
         then fail_with p (''directive requires a preceding document end marker '' @ in_quotes ''...'')
         else ok (to_state ST_BLOCK_NODE_EMPTY p))"

text \<open>
  A scalar or an alias, \<open>event_of\<close> its event: a \<open>:\<close> after it on its line makes it the first key of a
  mapping.
\<close>

definition inc_node_or_key :: "(oyl_parser \<Rightarrow> oyl_event) \<Rightarrow> parser_state \<Rightarrow> oyl_parser \<Rightarrow> parse_result" where
  "inc_node_or_key event_of key_state p =
    look p (\<lambda>p.
      let col = tok_col p; evt = event_of p
      in look (consume_token p) (\<lambda>p.
           if cur_type p = OYL_TOK_BLOCK_MAP_VALUE \<and> cur_line p = mk_line (evt_start evt)
           then ok (to_state key_state
                  (p\<lparr>pa_saved_node := evt, pa_saved_node_col := col, pa_have_saved_node := True\<rparr>))
           else node_done (inc_emit p evt)))"

definition st_BLOCK_NODE_SCALAR :: "oyl_parser \<Rightarrow> parse_result" where
  "st_BLOCK_NODE_SCALAR p = inc_node_or_key scalar_event ST_BLOCK_NODE_SCALAR_KEY p"

definition st_BLOCK_NODE_ALIAS :: "oyl_parser \<Rightarrow> parse_result" where
  "st_BLOCK_NODE_ALIAS p = inc_node_or_key alias_event ST_BLOCK_NODE_ALIAS_KEY p"

definition inc_saved_key :: "oyl_parser \<Rightarrow> parse_result" where
  "inc_saved_key p =
    (let b = evt_start (pa_saved_node p);
         p = inc_emit p (event_at OYL_EVT_MAPPING_START b b);
         p = (inc_emit p (pa_saved_node p))\<lparr>pa_have_saved_node := False\<rparr>
     in ok (to_state ST_BLOCK_MAP_VALUE (inc_push_frame p CTX_BLOCK_MAP (pa_saved_node_col p) (pa_node_return p))))"

definition st_BLOCK_NODE_SCALAR_KEY :: "oyl_parser \<Rightarrow> parse_result" where
  "st_BLOCK_NODE_SCALAR_KEY p = inc_saved_key p"

definition st_BLOCK_NODE_ALIAS_KEY :: "oyl_parser \<Rightarrow> parse_result" where
  "st_BLOCK_NODE_ALIAS_KEY p = inc_saved_key p"

text \<open>A block collection that starts at an indicator, which is its start event's extent.\<close>

definition inc_open_block :: "oyl_event_type \<Rightarrow> ctx_type \<Rightarrow> oyl_parser \<Rightarrow> oyl_parser" where
  "inc_open_block t ct p =
    (let indent = tok_col p
     in inc_push_frame (inc_emit p (event_at t (cur_start p) (cur_end p))) ct indent (pa_node_return p))"

definition st_BLOCK_NODE_SEQ :: "oyl_parser \<Rightarrow> parse_result" where
  "st_BLOCK_NODE_SEQ p =
    look p (\<lambda>p. ok (to_state ST_BLOCK_SEQ_LOOP (inc_open_block OYL_EVT_SEQUENCE_START CTX_BLOCK_SEQ p)))"

definition st_BLOCK_NODE_EXPLICIT_KEY :: "oyl_parser \<Rightarrow> parse_result" where
  "st_BLOCK_NODE_EXPLICIT_KEY p =
    look p (\<lambda>p. ok (to_state ST_BLOCK_MAP_LOOP (inc_open_block OYL_EVT_MAPPING_START CTX_BLOCK_MAP p)))"

definition st_BLOCK_NODE_BARE_VALUE :: "oyl_parser \<Rightarrow> parse_result" where
  "st_BLOCK_NODE_BARE_VALUE p =
    look p (\<lambda>p. ok (to_state ST_BLOCK_MAP_VALUE (inc_empty (inc_open_block OYL_EVT_MAPPING_START CTX_BLOCK_MAP p))))"

definition st_BLOCK_NODE_EMPTY :: "oyl_parser \<Rightarrow> parse_result" where
  "st_BLOCK_NODE_EMPTY p =
    look p (\<lambda>p. node_done (inc_emit p (event_at OYL_EVT_SCALAR (cur_start p) (cur_end p))))"

section \<open>Block mappings\<close>

definition document_marker :: "oyl_token_type \<Rightarrow> bool" where
  "document_marker tt \<longleftrightarrow> tt = OYL_TOK_DOC_START \<or> tt = OYL_TOK_DOC_END \<or> tt = OYL_TOK_STREAM_END"

definition st_BLOCK_MAP_LOOP :: "oyl_parser \<Rightarrow> parse_result" where
  "st_BLOCK_MAP_LOOP p =
    look p (\<lambda>p.
      let tt = cur_type p; col = tok_col p; map_indent = frame_indent p
      in if tt = OYL_TOK_BLOCK_MAP_KEY \<and> col = map_indent then ok (to_state ST_BLOCK_MAP_EXPLICIT_KEY p)
         else if (tt = OYL_TOK_SCALAR \<or> tt = OYL_TOK_ALIAS) \<and> col = map_indent
         then ok (to_state ST_BLOCK_MAP_SIMPLE_KEY p)
         else if tt = OYL_TOK_BLOCK_MAP_VALUE \<and> col = map_indent
         then look p (\<lambda>p. ok (to_state ST_BLOCK_MAP_VALUE (inc_empty p)))
         else if tt = OYL_TOK_TAG \<or> tt = OYL_TOK_ANCHOR then ok (to_state ST_EAGER_DRAIN p)
         else if tt = OYL_TOK_FLOW_SEQ_START \<or> tt = OYL_TOK_FLOW_MAP_START then ok (to_state ST_EAGER_DRAIN p)
         else ok (to_state ST_BLOCK_MAP_END p))"

definition st_BLOCK_MAP_EXPLICIT_KEY :: "oyl_parser \<Rightarrow> parse_result" where
  "st_BLOCK_MAP_EXPLICIT_KEY p =
    look p (\<lambda>p. look (consume_token p) (\<lambda>p.
      let tt = cur_type p; ek_indent = frame_indent p
      in if tok_col p < ek_indent \<or> tok_col p = ek_indent \<and> tt \<noteq> OYL_TOK_BLOCK_SEQ_ENTRY \<or> document_marker tt
         then ok (to_state ST_BLOCK_MAP_POST_KEY (inc_empty p))
         else ok (node_then ST_BLOCK_NODE ST_BLOCK_MAP_POST_KEY p)))"

text \<open>A key without \<open>?\<close>, \<open>evt\<close> its event: a \<open>:\<close> must follow.\<close>

definition inc_simple_key :: "oyl_event \<Rightarrow> oyl_parser \<Rightarrow> parse_result" where
  "inc_simple_key evt p =
    look (consume_token p) (\<lambda>p.
      if cur_type p = OYL_TOK_BLOCK_MAP_VALUE then ok (to_state ST_BLOCK_MAP_VALUE (inc_emit p evt))
      else ok (to_state ST_EAGER_DRAIN p))"

definition st_BLOCK_MAP_SIMPLE_KEY :: "oyl_parser \<Rightarrow> parse_result" where
  "st_BLOCK_MAP_SIMPLE_KEY p =
    look p (\<lambda>p.
      if cur_type p = OYL_TOK_SCALAR then inc_simple_key (scalar_event p) p
      else if cur_type p = OYL_TOK_ALIAS then inc_simple_key (alias_event p) p
      else ok (to_state ST_EAGER_DRAIN p))"

definition st_BLOCK_MAP_POST_KEY :: "oyl_parser \<Rightarrow> parse_result" where
  "st_BLOCK_MAP_POST_KEY p =
    look p (\<lambda>p.
      if cur_type p = OYL_TOK_BLOCK_MAP_VALUE \<and> tok_col p = frame_indent p then ok (to_state ST_BLOCK_MAP_VALUE p)
      else if cur_type p = OYL_TOK_BLOCK_MAP_VALUE \<and> tok_col p > frame_indent p
      then fail_with p (''explicit mapping value must be at the mapping'' @ CHR 0x27 # ''s indentation'')
      else ok (to_state ST_BLOCK_MAP_LOOP (inc_empty p)))"

definition st_BLOCK_MAP_VALUE :: "oyl_parser \<Rightarrow> parse_result" where
  "st_BLOCK_MAP_VALUE p =
    look p (\<lambda>p.
      if cur_type p \<noteq> OYL_TOK_BLOCK_MAP_VALUE then ok (to_state ST_BLOCK_MAP_LOOP (inc_empty p))
      else
        let colon_starts_line = starts_line p (mk_offset (cur_start p)); colon_line = cur_line p
        in look (consume_token p) (\<lambda>p.
             let tt = cur_type p; col = tok_col p; map_indent = frame_indent p;
                 p = p\<lparr>pa_value_colon_line := colon_line, pa_value_colon_starts_line := colon_starts_line\<rparr>
             in if document_marker tt then ok (to_state ST_BLOCK_MAP_LOOP (inc_empty p))
                else if col = map_indent \<and> tt \<noteq> OYL_TOK_BLOCK_SEQ_ENTRY then ok (to_state ST_BLOCK_MAP_LOOP (inc_empty p))
                else if col < map_indent \<and> tt \<noteq> OYL_TOK_BLOCK_SEQ_ENTRY then ok (to_state ST_BLOCK_MAP_LOOP (inc_empty p))
                else if tt = OYL_TOK_BLOCK_SEQ_ENTRY \<and> col < map_indent then ok (to_state ST_BLOCK_MAP_LOOP (inc_empty p))
                else ok (node_then ST_BLOCK_NODE ST_BLOCK_MAP_LOOP p)))"

definition st_BLOCK_MAP_VALUE_NODE :: "oyl_parser \<Rightarrow> parse_result" where
  "st_BLOCK_MAP_VALUE_NODE p = ok (to_state ST_BLOCK_MAP_LOOP p)"

text \<open>The frame is popped, then the end event; a root collection's document ends in the same step.\<close>

definition inc_close_block :: "oyl_event_type \<Rightarrow> oyl_parser \<Rightarrow> parse_result" where
  "inc_close_block t p =
    (let (frame, p) = inc_pop_frame p
     in look p (\<lambda>p.
          let p = to_state (fr_return_state frame) (inc_emit p (event_here t p))
          in if pa_state p = ST_DOC_END_EXPLICIT then inc_end_document p else ok p))"

definition st_BLOCK_MAP_END :: "oyl_parser \<Rightarrow> parse_result" where
  "st_BLOCK_MAP_END p = inc_close_block OYL_EVT_MAPPING_END p"


section \<open>Block sequences\<close>

definition st_BLOCK_SEQ_LOOP :: "oyl_parser \<Rightarrow> parse_result" where
  "st_BLOCK_SEQ_LOOP p =
    look p (\<lambda>p.
      if cur_type p = OYL_TOK_BLOCK_SEQ_ENTRY \<and> tok_col p = frame_indent p then ok (to_state ST_BLOCK_SEQ_ENTRY p)
      else ok (to_state ST_BLOCK_SEQ_END p))"

definition st_BLOCK_SEQ_ENTRY :: "oyl_parser \<Rightarrow> parse_result" where
  "st_BLOCK_SEQ_ENTRY p =
    look p (\<lambda>p. look (consume_token p) (\<lambda>p.
      let tt = cur_type p; col = tok_col p; seq_indent = frame_indent p
      in if col \<le> seq_indent \<and> tt \<noteq> OYL_TOK_STREAM_END then ok (to_state ST_BLOCK_SEQ_LOOP (inc_empty p))
         else if document_marker tt then ok (to_state ST_BLOCK_SEQ_LOOP (inc_empty p))
         else ok (node_then ST_BLOCK_NODE ST_BLOCK_SEQ_LOOP p)))"

definition st_BLOCK_SEQ_ENTRY_NODE :: "oyl_parser \<Rightarrow> parse_result" where
  "st_BLOCK_SEQ_ENTRY_NODE p = ok (to_state ST_BLOCK_SEQ_LOOP p)"

definition st_BLOCK_SEQ_END :: "oyl_parser \<Rightarrow> parse_result" where
  "st_BLOCK_SEQ_END p = inc_close_block OYL_EVT_SEQUENCE_END p"

definition st_UNROLL :: "oyl_parser \<Rightarrow> parse_result" where
  "st_UNROLL p =
    (if pa_frames p \<noteq> [] then
       let (frame, p) = inc_pop_frame p;
           t = (if fr_type frame = CTX_BLOCK_MAP \<or> fr_type frame = CTX_FLOW_MAP
                then OYL_EVT_MAPPING_END else OYL_EVT_SEQUENCE_END)
       in look p (\<lambda>p. ok (inc_emit p (event_here t p)))
     else ok (to_state (pa_unroll_return p) p))"


section \<open>A step\<close>

definition parser_step :: "oyl_parser \<Rightarrow> parse_result" where
  "parser_step p =
    unless_oom p (\<lambda>p.
      case pa_state p of
        ST_STREAM_START \<Rightarrow> st_STREAM_START p
      | ST_STREAM_DOC_LOOP \<Rightarrow> st_STREAM_DOC_LOOP p
      | ST_STREAM_END \<Rightarrow> st_STREAM_END p
      | ST_DOC_DIRECTIVES \<Rightarrow> st_DOC_DIRECTIVES p
      | ST_DOC_START_EXPLICIT \<Rightarrow> st_DOC_START_EXPLICIT p
      | ST_DOC_START_IMPLICIT \<Rightarrow> st_DOC_START_IMPLICIT p
      | ST_DOC_CONTENT \<Rightarrow> st_DOC_CONTENT p
      | ST_BLOCK_NODE \<Rightarrow> st_BLOCK_NODE p
      | ST_BLOCK_NODE_SCALAR \<Rightarrow> st_BLOCK_NODE_SCALAR p
      | ST_BLOCK_NODE_SCALAR_KEY \<Rightarrow> st_BLOCK_NODE_SCALAR_KEY p
      | ST_BLOCK_NODE_ALIAS \<Rightarrow> st_BLOCK_NODE_ALIAS p
      | ST_BLOCK_NODE_ALIAS_KEY \<Rightarrow> st_BLOCK_NODE_ALIAS_KEY p
      | ST_BLOCK_NODE_SEQ \<Rightarrow> st_BLOCK_NODE_SEQ p
      | ST_BLOCK_NODE_EXPLICIT_KEY \<Rightarrow> st_BLOCK_NODE_EXPLICIT_KEY p
      | ST_BLOCK_NODE_BARE_VALUE \<Rightarrow> st_BLOCK_NODE_BARE_VALUE p
      | ST_BLOCK_NODE_EMPTY \<Rightarrow> st_BLOCK_NODE_EMPTY p
      | ST_BLOCK_MAP_LOOP \<Rightarrow> st_BLOCK_MAP_LOOP p
      | ST_BLOCK_MAP_EXPLICIT_KEY \<Rightarrow> st_BLOCK_MAP_EXPLICIT_KEY p
      | ST_BLOCK_MAP_SIMPLE_KEY \<Rightarrow> st_BLOCK_MAP_SIMPLE_KEY p
      | ST_BLOCK_MAP_POST_KEY \<Rightarrow> st_BLOCK_MAP_POST_KEY p
      | ST_BLOCK_MAP_VALUE \<Rightarrow> st_BLOCK_MAP_VALUE p
      | ST_BLOCK_MAP_VALUE_NODE \<Rightarrow> st_BLOCK_MAP_VALUE_NODE p
      | ST_BLOCK_MAP_END \<Rightarrow> st_BLOCK_MAP_END p
      | ST_BLOCK_SEQ_LOOP \<Rightarrow> st_BLOCK_SEQ_LOOP p
      | ST_BLOCK_SEQ_ENTRY \<Rightarrow> st_BLOCK_SEQ_ENTRY p
      | ST_BLOCK_SEQ_ENTRY_NODE \<Rightarrow> st_BLOCK_SEQ_ENTRY_NODE p
      | ST_BLOCK_SEQ_END \<Rightarrow> st_BLOCK_SEQ_END p
      | ST_UNROLL \<Rightarrow> st_UNROLL p
      | ST_DOC_END_EXPLICIT \<Rightarrow> inc_end_document p
      | ST_EAGER_DRAIN \<Rightarrow> ok p
      | ST_DONE \<Rightarrow> ok p
      | _ \<Rightarrow> parser_step_flow p)"

section \<open>A stale token\<close>


text \<open>The text is \<open>{,"\<close>, and the parser is after the comma.\<close>

definition sample_comma :: oyl_parser where
  "sample_comma =
    (let p = the (oyl_parser_new [] [] False [LBRACE, COMMA, DQUOTE]); s = pa_scanner p
     in p\<lparr>pa_scanner := s\<lparr>sc_stream_started := True, sc_pos := 2, sc_col := 3, sc_flow_level := 1\<rparr>,
          pa_current := (pa_current p)\<lparr>tok_type := OYL_TOK_FLOW_ENTRY\<rparr>\<rparr>)"

lemma sample_comma_scan: "map_option fst (oyl_scan_token (pa_scanner sample_comma)) = Some (Inl OYL_ERR_SCAN)"
  by code_simp


end
