(* ===== verification/OylDelivery.thy ===== *)
theory OylDelivery
  imports OylIncremental
begin

text \<open>
  The delivery of events, \<open>skip_delivered\<close> to \<open>oyl_parse_next\<close> of \<open>src/src/oyl_parser.c\<close>: one event for
  each call, from the queue of the eager parser or from the buffer of the incremental one, and the
  change from the second to the first, which parses again from a checkpoint and skips what was delivered.

  The result of a call is an event or the status of a failure, with the new parser; \<open>None\<close> is a call
  that ran out of fuel. \<open>n\<close> is the fuel of the eager grammar and \<open>k\<close> that of the loops of
  \<open>eager_next_event\<close> and \<open>next_event\<close>.
\<close>

type_synonym next_result = "((oyl_status + oyl_event) \<times> oyl_parser) option"

section \<open>Signatures\<close>

definition event_code :: "oyl_event_type \<Rightarrow> 64 word" where
  "event_code t =
    (case t of
       OYL_EVT_NONE \<Rightarrow> 0 | OYL_EVT_STREAM_START \<Rightarrow> 1 | OYL_EVT_STREAM_END \<Rightarrow> 2 | OYL_EVT_DOC_START \<Rightarrow> 3
     | OYL_EVT_DOC_END \<Rightarrow> 4 | OYL_EVT_MAPPING_START \<Rightarrow> 5 | OYL_EVT_MAPPING_END \<Rightarrow> 6
     | OYL_EVT_SEQUENCE_START \<Rightarrow> 7 | OYL_EVT_SEQUENCE_END \<Rightarrow> 8 | OYL_EVT_SCALAR \<Rightarrow> 9 | OYL_EVT_ALIAS \<Rightarrow> 10)"

text \<open>A signature is the events' types as digits of base 31, on 64 bits.\<close>

definition sign :: "64 word \<Rightarrow> oyl_event \<Rightarrow> 64 word" where
  "sign s e = s * 31 + event_code (evt_type e)"

definition inc_delivered :: "oyl_parser \<Rightarrow> oyl_event \<Rightarrow> oyl_parser" where
  "inc_delivered p evt =
    p\<lparr>pa_events_delivered := pa_events_delivered p + 1, pa_delivered_sig := sign (pa_delivered_sig p) evt\<rparr>"

fun pow31_loop :: "nat \<Rightarrow> 64 word \<Rightarrow> 64 word \<Rightarrow> 64 word" where
  "pow31_loop n r b = (if n = 0 then r else pow31_loop (n div 2) (if odd n then r * b else r) (b * b))"

declare pow31_loop.simps [simp del]

definition pow31 :: "int \<Rightarrow> 64 word" where
  "pow31 n = pow31_loop (nat n) 1 31"

text \<open>Called when there are events to skip.\<close>

definition skip_delivered :: "oyl_parser \<Rightarrow> oyl_status \<times> oyl_parser" where
  "skip_delivered p =
    (let n = (if pa_skip_n p < int (length (pa_events p)) then nat (pa_skip_n p) else length (pa_events p));
         p = p\<lparr>pa_skip_got := foldl sign (pa_skip_got p) (take n (pa_events p)),
               pa_evt_cursor := n, pa_skip_n := pa_skip_n p - int n\<rparr>
     in if pa_skip_n p = 0 \<and> pa_skip_got p \<noteq> pa_skip_sig p \<or> pa_skip_n p > 0 \<and> pa_stream_ended p
        then PARSE_ERROR (p\<lparr>pa_stream_ended := True\<rparr>)
               (''input not supported by the incremental parser (please report); '' @
                ''parse with merge keys or alias resolution enabled'')
        else (OYL_OK, p))"

section \<open>The eager parser\<close>

text \<open>The queue is emptied for the next document's events.\<close>

definition next_chunk :: "oyl_parser \<Rightarrow> oyl_parser" where
  "next_chunk p = p\<lparr>pa_evt_base := pa_evt_base p + int (length (pa_events p)), pa_events := [], pa_evt_cursor := 0\<rparr>"

text \<open>The body of the loop, after the tests at its head.\<close>

definition eager_chunk :: "nat \<Rightarrow> oyl_parser \<Rightarrow> parse_result" where
  "eager_chunk n p =
    then_ok (parse_stream n (next_chunk p)) (\<lambda>p.
    then_ok (if pa_merge_enabled p \<or> pa_resolve_enabled p then bind_anchors p else ok p) (\<lambda>p.
    then_ok (if pa_merge_enabled p then resolve_merges p else ok p) (\<lambda>p.
    then_ok (if pa_resolve_enabled p then resolve_aliases p else ok p) (\<lambda>p.
      let p = (if pa_merge_enabled p \<or> pa_resolve_enabled p then unbind_anchors p else p)
      in then_ok (Some (check_eager_depth p)) (\<lambda>p.
         if pa_skip_n p > 0 then Some (skip_delivered p) else ok p)))))"

definition no_event :: oyl_event where
  "no_event = plain_event OYL_EVT_NONE"

fun eager_next_event :: "nat \<Rightarrow> nat \<Rightarrow> oyl_parser \<Rightarrow> next_result" where
  "eager_next_event n k p =
    (case dequeue p of
       (Some evt, p) \<Rightarrow> Some (Inr evt, p)
     | (None, p) \<Rightarrow>
         (if pa_stream_ended p then Some (Inr no_event, p)
          else (case k of
                  0 \<Rightarrow> None
                | Suc k \<Rightarrow>
                    (case eager_chunk n p of
                       None \<Rightarrow> None
                     | Some (st, p) \<Rightarrow> if st \<noteq> OYL_OK then Some (Inl st, p) else eager_next_event n k p))))"

declare eager_next_event.simps [simp del]

section \<open>The change to the eager parser\<close>

text \<open>
  The state of the eager parser that goes on from the last checkpoint, or from the start. Without memory
  for a new scanner the C parser is left without one; the model keeps the old one.
\<close>

definition fall_back :: "oyl_parser \<Rightarrow> bool \<times> oyl_parser" where
  "fall_back p =
    (let skip = pa_events_delivered p; sig = pa_delivered_sig p;
         p = p\<lparr>pa_incremental := False, pa_state := ST_DONE, pa_stream_started := False, pa_stream_ended := False,
               pa_doc_open := False, pa_have_token := False, pa_events := [], pa_evt_cursor := 0, pa_contexts := [],
               pa_has_anchor := False, pa_has_tag := False, pa_pending_anchor := None, pa_pending_tag := None,
               pa_oom := False, pa_stop_status := OYL_OK, pa_events_delivered := 0, pa_evt_base := 0\<rparr>
     in case pa_ckpt p of
          Some ckpt \<Rightarrow>
            let skip' = skip - pa_ckpt_delivered p; sig = sig - pa_ckpt_sig p * pow31 skip'
            in (True, p\<lparr>pa_scanner := ckpt, pa_ckpt := None, pa_current := pa_ckpt_tok p,
                        pa_have_token := pa_ckpt_have_tok p, pa_stream_started := True,
                        pa_evt_base := pa_ckpt_delivered p, pa_skip_n := skip', pa_skip_sig := sig, pa_skip_got := 0\<rparr>)
        | None \<Rightarrow>
            (case new_scanner p of
               (None, p) \<Rightarrow> (False, p)
             | (Some s, p) \<Rightarrow>
                 (True, p\<lparr>pa_scanner := s, pa_skip_n := skip, pa_skip_sig := sig, pa_skip_got := 0\<rparr>)))"

section \<open>The incremental parser\<close>

text \<open>The buffer is emptied with its last event.\<close>

definition drained :: "oyl_parser \<Rightarrow> oyl_parser" where
  "drained p = (if pa_out_cursor p \<ge> length (pa_out_buf p) then p\<lparr>pa_out_buf := [], pa_out_cursor := 0\<rparr> else p)"

definition deliver_first :: "oyl_parser \<Rightarrow> next_result" where
  "deliver_first p =
    (let evt = pa_out_buf p ! 0 in Some (Inr evt, inc_delivered (drained (p\<lparr>pa_out_cursor := 1\<rparr>)) evt))"

text \<open>
  The loop: steps until there is output, or an end. After a failed scan only the events before it are
  kept.
\<close>

fun inc_loop :: "nat \<Rightarrow> nat \<Rightarrow> oyl_parser \<Rightarrow> next_result" where
  "inc_loop n k p =
    (if pa_out_buf p \<noteq> [] then deliver_first p
     else case k of
       0 \<Rightarrow> None
     | Suc k \<Rightarrow>
        (case parser_step p of
           None \<Rightarrow> None
         | Some (st, p) \<Rightarrow>
            if pa_scan_error p \<noteq> OYL_OK then
              let p = p\<lparr>pa_out_buf := take (pa_scan_error_out p) (pa_out_buf p)\<rparr>
              in if pa_out_buf p \<noteq> [] then deliver_first p else Some (Inl (pa_scan_error p), p)
            else if st \<noteq> OYL_OK then Some (Inl st, p)
            else if pa_oom p then
              if pa_out_buf p \<noteq> [] then deliver_first p else Some (Inl (OOM_STATUS p), p)
            else if pa_state p = ST_EAGER_DRAIN then
              (case fall_back p of
                 (False, p) \<Rightarrow> Some (Inl OYL_ERR_MEMORY, p)
               | (True, p) \<Rightarrow> eager_next_event n (Suc k) p)
            else if pa_state p = ST_DONE \<and> pa_out_buf p = [] then Some (Inr no_event, p)
            else inc_loop n k p))"

declare inc_loop.simps [simp del]

definition next_event :: "nat \<Rightarrow> nat \<Rightarrow> oyl_parser \<Rightarrow> next_result" where
  "next_event n k p =
    (if \<not> pa_incremental p then eager_next_event n k p
     else if pa_out_cursor p < length (pa_out_buf p) then
       let evt = pa_out_buf p ! pa_out_cursor p
       in Some (Inr evt, inc_delivered (drained (p\<lparr>pa_out_cursor := pa_out_cursor p + 1\<rparr>)) evt)
     else if pa_state p = ST_DONE then Some (Inr no_event, p)
     else if pa_scan_error p \<noteq> OYL_OK then Some (Inl (pa_scan_error p), p)
     else inc_loop n k (p\<lparr>pa_out_buf := [], pa_out_cursor := 0\<rparr>))"

text \<open>The event is the caller's on success only: the pointer is null otherwise.\<close>

definition oyl_parse_next :: "nat \<Rightarrow> nat \<Rightarrow> oyl_parser \<Rightarrow> (oyl_status \<times> oyl_event option \<times> oyl_parser) option" where
  "oyl_parse_next n k p =
    (case next_event n k p of
       None \<Rightarrow> None
     | Some (Inr evt, p) \<Rightarrow> Some (OYL_OK, Some evt, p)
     | Some (Inl st, p) \<Rightarrow> Some (st, None, p))"

section \<open>Skipping what was delivered\<close>

text \<open>The signature of a sequence of events after a signature, and by itself.\<close>

lemma sign_foldl: "foldl sign s es = s * 31 ^ length es + foldl sign 0 es"
proof (induction es arbitrary: s)
  case (Cons e es)
  have sign_eq: "sign t e = t * 31 + event_code (evt_type e)" for t by (simp add: sign_def)
  have "foldl sign s (e # es) = (s * 31 + event_code (evt_type e)) * 31 ^ length es + foldl sign 0 es"
    using Cons [of "sign s e"] by (simp add: sign_eq)
  also have "\<dots> = s * 31 ^ length (e # es) + (event_code (evt_type e) * 31 ^ length es + foldl sign 0 es)"
    by (simp only: length_Cons power_Suc distrib_right mult.assoc add.assoc)
  also have "event_code (evt_type e) * 31 ^ length es + foldl sign 0 es = foldl sign 0 (e # es)"
    using Cons [of "sign 0 e"] by (simp add: sign_eq)
  finally show ?case .
qed simp

lemma sign_types: "map evt_type es = map evt_type fs \<Longrightarrow> foldl sign s es = foldl sign s fs"
  by (induction es fs arbitrary: s rule: list_induct2') (auto simp: sign_def)

lemma pow31_loop_power: "pow31_loop n r b = r * b ^ n"
proof (induction n r b rule: pow31_loop.induct)
  case (1 n r b)
  have "b ^ n = b ^ (2 * (n div 2) + n mod 2)" by simp
  also have "\<dots> = (b * b) ^ (n div 2) * b ^ (n mod 2)" by (simp only: power_add power_mult power2_eq_square)
  finally have n: "b ^ n = (b * b) ^ (n div 2) * b ^ (n mod 2)" .
  show ?case
  proof (cases "n = 0")
    case False
    then have "pow31_loop n r b = (if odd n then r * b else r) * (b * b) ^ (n div 2)"
      using 1 by (subst pow31_loop.simps) simp
    also have "\<dots> = r * b ^ n"
    proof (cases "odd n")
      case True
      then have "n mod 2 = 1" by presburger
      with n True show ?thesis by (simp only: not_False_eq_True if_True power_one_right mult_ac)
    next
      case False
      then have "n mod 2 = 0" by presburger
      with n False show ?thesis by (simp only: if_False power_0 mult_1_right)
    qed
    finally show ?thesis .
  qed (simp add: pow31_loop.simps)
qed

lemma pow31_power: "pow31 n = 31 ^ nat n"
  by (simp add: pow31_def pow31_loop_power)

text \<open>The parser is to skip events with the types of \<open>es\<close>.\<close>

definition skipping :: "oyl_parser \<Rightarrow> oyl_event list \<Rightarrow> bool" where
  "skipping p es \<longleftrightarrow> pa_skip_n p = int (length es) \<and> pa_skip_sig p = foldl sign (pa_skip_got p) es"

lemma fall_back_skipping:
  assumes "fall_back p = (True, q)"
    and "pa_ckpt p \<noteq> None \<Longrightarrow> pa_events_delivered p = pa_ckpt_delivered p + int (length es)"
    and "pa_ckpt p \<noteq> None \<Longrightarrow> pa_delivered_sig p = foldl sign (pa_ckpt_sig p) es"
    and "pa_ckpt p = None \<Longrightarrow> pa_events_delivered p = int (length es)"
    and "pa_ckpt p = None \<Longrightarrow> pa_delivered_sig p = foldl sign 0 es"
  shows "skipping q es"
proof (cases "pa_ckpt p")
  case None
  with assms show ?thesis
    by (auto simp: skipping_def fall_back_def Let_def new_scanner_def split: prod.splits option.splits)
next
  case (Some c)
  with assms(1) have "pa_skip_n q = pa_events_delivered p - pa_ckpt_delivered p" "pa_skip_got q = 0"
    "pa_skip_sig q = pa_delivered_sig p - pa_ckpt_sig p * pow31 (pa_events_delivered p - pa_ckpt_delivered p)"
    by (auto simp: fall_back_def Let_def)
  with assms(2,3) Some show ?thesis
    using sign_foldl [of "pa_ckpt_sig p" es] by (simp add: skipping_def pow31_power)
qed

lemma skip_step:
  assumes "skipping p es" and "n = min (length es) (length (pa_events p))"
    and "map evt_type (take n (pa_events p)) = map evt_type (take n es)" and "n < length es \<longrightarrow> \<not> pa_stream_ended p"
  shows "\<exists>q. skip_delivered p = (OYL_OK, q) \<and> pa_evt_cursor q = n \<and> skipping q (drop n es) \<and> pa_events q = pa_events p"
proof -
  have n: "(if pa_skip_n p < int (length (pa_events p)) then nat (pa_skip_n p) else length (pa_events p)) = n"
    using assms(1,2) by (auto simp: skipping_def)
  have got: "foldl sign (pa_skip_got p) (take n (pa_events p)) = foldl sign (pa_skip_got p) (take n es)"
    using sign_types [OF assms(3)] .
  have all: "foldl sign (pa_skip_got p) es = foldl sign (foldl sign (pa_skip_got p) (take n es)) (drop n es)"
    by (metis append_take_drop_id foldl_append)
  define q where "q = p\<lparr>pa_skip_got := foldl sign (pa_skip_got p) (take n es), pa_evt_cursor := n, pa_skip_n := pa_skip_n p - int n\<rparr>"
  have "skip_delivered p =
      (if pa_skip_n q = 0 \<and> pa_skip_got q \<noteq> pa_skip_sig q \<or> pa_skip_n q > 0 \<and> pa_stream_ended q
       then PARSE_ERROR (q\<lparr>pa_stream_ended := True\<rparr>)
              (''input not supported by the incremental parser (please report); '' @
               ''parse with merge keys or alias resolution enabled'')
       else (OYL_OK, q))"
    unfolding skip_delivered_def n Let_def got q_def ..
  moreover have left: "pa_skip_n q = int (length (drop n es))" "pa_stream_ended q = pa_stream_ended p"
    using assms(1,2) by (auto simp: q_def skipping_def)
  moreover have sig: "pa_skip_sig q = foldl sign (pa_skip_got q) (drop n es)"
    using assms(1) all by (simp add: q_def skipping_def)
  moreover have "drop n es = [] \<Longrightarrow> pa_skip_got q = pa_skip_sig q" using sig by simp
  ultimately have "skip_delivered p = (OYL_OK, q)" using assms(4) by auto
  then show ?thesis using left sig by (intro exI [of _ q]) (simp add: skipping_def, simp add: q_def)
qed


definition sample_fallen :: oyl_parser where
  "sample_fallen = (the (oyl_parser_new [] [] False [LC_A]))
     \<lparr>pa_events_delivered := 2, pa_delivered_sig := foldl sign 0 [plain_event OYL_EVT_STREAM_START, plain_event OYL_EVT_DOC_START]\<rparr>"


end
