(* ===== verification/OylStream.thy ===== *)
theory OylStream
  imports OylGrammarTree OylDelivery
begin

text \<open>
  The stream of the eager parser: the events of a text are a start, documents, and an end, and every
  document is a start, the events of one complete tree, and an end. \<open>delivers\<close> is a sequence of calls of
  \<open>oyl_parse_next\<close> that succeed.
\<close>

section \<open>A sequence of calls\<close>

inductive delivers :: "nat \<Rightarrow> nat \<Rightarrow> oyl_parser \<Rightarrow> oyl_event list \<Rightarrow> oyl_parser \<Rightarrow> bool" for n k p where
  delivers_start: "delivers n k p [] p"
| delivers_event: "delivers n k p es q \<Longrightarrow> oyl_parse_next n k q = Some (OYL_OK, Some e, r) \<Longrightarrow>
    evt_type e \<noteq> OYL_EVT_NONE \<Longrightarrow> delivers n k p (es @ [e]) r"

section \<open>The shape of a stream\<close>

definition is_document :: "oyl_event list \<Rightarrow> bool" where
  "is_document es \<longleftrightarrow> (\<exists>b n e. evt_type b = OYL_EVT_DOC_START \<and> good n \<and> evt_type e = OYL_EVT_DOC_END \<and>
    es = b # node_events n @ [e])"

text \<open>How far a stream has come.\<close>

datatype stage = Unstarted | Between | Rootless | Rooted | Ended

definition documents :: "oyl_event list \<Rightarrow> bool" where
  "documents es \<longleftrightarrow> (\<exists>b docs. evt_type b = OYL_EVT_STREAM_START \<and> list_all is_document docs \<and> es = b # concat docs)"

definition documents_then :: "oyl_event_type \<Rightarrow> oyl_event list \<Rightarrow> bool" where
  "documents_then t es \<longleftrightarrow> (\<exists>fs e. documents fs \<and> evt_type e = t \<and> es = fs @ [e])"

fun shape :: "stage \<Rightarrow> oyl_event list \<Rightarrow> bool" where
  "shape Unstarted es = (es = [])"
| "shape Between es = documents es"
| "shape Rootless es = documents_then OYL_EVT_DOC_START es"
| "shape Rooted es = (\<exists>fs n. documents_then OYL_EVT_DOC_START fs \<and> good n \<and> es = fs @ node_events n)"
| "shape Ended es = documents_then OYL_EVT_STREAM_END es"

text \<open>The event that leads from one stage to another.\<close>

fun leads :: "stage \<Rightarrow> stage \<Rightarrow> oyl_event_type option" where
  "leads Unstarted Between = Some OYL_EVT_STREAM_START"
| "leads Between Rootless = Some OYL_EVT_DOC_START"
| "leads Rooted Between = Some OYL_EVT_DOC_END"
| "leads Between Ended = Some OYL_EVT_STREAM_END"
| "leads _ _ = None"

lemma document_closed:
  assumes "shape Rooted es" and "evt_type e = OYL_EVT_DOC_END"
  shows "shape Between (es @ [e])"
proof -
  from assms(1) obtain b docs s n where "evt_type b = OYL_EVT_STREAM_START" "list_all is_document docs"
    "evt_type s = OYL_EVT_DOC_START" "good n" "es = b # concat docs @ s # node_events n"
    by (auto simp: documents_then_def documents_def)
  moreover from this assms(2) have "is_document (s # node_events n @ [e])" by (auto simp: is_document_def)
  ultimately show ?thesis by (auto simp: documents_def intro!: exI [of _ b] exI [of _ "docs @ [s # node_events n @ [e]]"])
qed

lemma documents_start: "evt_type e = OYL_EVT_STREAM_START \<Longrightarrow> documents [e]"
  unfolding documents_def by (intro exI [of _ e] exI [of _ "[]"]) simp

lemma shape_step: "leads g h = Some (evt_type e) \<Longrightarrow> shape g es \<Longrightarrow> shape h (es @ [e])"
  using document_closed [of es e] documents_start [of e]
  by (cases g; cases h) (auto simp: documents_then_def simp del: shape.simps(4))

lemma shape_root: "shape Rootless es \<Longrightarrow> good n \<Longrightarrow> shape Rooted (es @ node_events n)"
  by auto

declare shape.simps [simp del]

text \<open>
  The flags of a stage: incremental, document open, stream started, stream ended. The rest of the mode
  is the one of a parser without merge keys, aliases and events to skip,
  with the cursor at the start of the queue.
\<close>

abbreviation flags :: "bool \<Rightarrow> bool \<Rightarrow> bool \<Rightarrow> bool \<Rightarrow> bool \<times> bool \<times> bool \<times> bool \<times> bool \<times> bool \<times> int \<times> nat" where
  "flags i d s t \<equiv> (i, d, s, t, False, False, 0, 0)"

fun mode :: "stage \<Rightarrow> bool \<times> bool \<times> bool \<times> bool \<times> bool \<times> bool \<times> int \<times> nat" where
  "mode Unstarted = flags False False False False"
| "mode Between = flags False False True False"
| "mode Rootless = flags False True True False"
| "mode Rooted = flags False True True False"
| "mode Ended = flags False False True True"

text \<open>With \<open>es\<close> taken out of the queue before, a parser that met no limit is at a stage.\<close>

definition stands ::
    "bool \<times> bool \<times> bool \<times> bool \<times> bool \<times> bool \<times> int \<times> nat \<Rightarrow> stage \<Rightarrow> oyl_event list \<Rightarrow> parser_core \<Rightarrow> bool" where
  "stands m g es c \<longleftrightarrow> co_oom c \<or> co_mode c = m \<and> co_contexts c = [] \<and> shape g (es @ co_events c)"

abbreviation at_stage :: "stage \<Rightarrow> oyl_event list \<Rightarrow> oyl_parser \<Rightarrow> bool" where
  "at_stage g es p \<equiv> stands (mode g) g es (core p)"

lemma stands_send: "stands m g es (core p) \<Longrightarrow> leads g h = Some (evt_type e) \<Longrightarrow> stands m h es (core (send p e))"
  using send_core [of p e] shape_step [of g h "schema_tag p e"] by (fastforce simp: stands_def)

lemma stands_doc_open:
  "stands (flags i d s t) g es (core p) \<Longrightarrow> stands (flags i b s t) g es (core (p\<lparr>pa_doc_open := b\<rparr>))"
  by (auto simp: stands_def core_def)

lemma stands_started:
  "stands (flags i d s t) g es (core p) \<Longrightarrow> stands (flags i d b t) g es (core (p\<lparr>pa_stream_started := b\<rparr>))"
  by (auto simp: stands_def core_def)

lemma stands_ended:
  "stands (flags i d s t) g es (core p) \<Longrightarrow> stands (flags i d s b) g es (core (p\<lparr>pa_stream_ended := b\<rparr>))"
  by (auto simp: stands_def core_def)

lemma stands_root: "at_stage Rootless es p \<Longrightarrow> makes 1 (core p) (core q) \<Longrightarrow> at_stage Rooted es q"
  using shape_root by (auto simp: stands_def makes_def One_nat_def length_Suc_conv simp flip: append_assoc)

lemma stands_open: "at_stage g es p \<Longrightarrow> \<not> pa_oom p \<Longrightarrow> pa_doc_open p \<longleftrightarrow> g = Rootless \<or> g = Rooted"
  by (cases g) (auto simp: stands_def core_sel)

lemma stands_eager: "stands m g es c \<Longrightarrow> \<not> fst m \<Longrightarrow> eager c"
  by (auto simp: stands_def eager_def)


section \<open>Documents\<close>

lemma send_current [simp]:
  "pa_current (send p e) = pa_current p" "pa_have_token (send p e) = pa_have_token p"
  by (auto simp: send_def enqueue_def hit_limit_def stop_with_def Let_def split: prod.splits)

lemma emit_empty_current [simp]: "pa_current (emit_empty p) = pa_current p" "pa_have_token (emit_empty p) = pa_have_token p"
  "cur_type (emit_empty p) = cur_type p"
  by (auto simp: emit_empty_send send_with_props_def attach_props_def cur_type_def Let_def)

text \<open>Between two chunks a document is open only before a token that closes it.\<close>

definition at_edge :: "oyl_parser \<Rightarrow> bool" where
  "at_edge p \<longleftrightarrow> pa_have_token p \<and>
    (cur_type p = OYL_TOK_DOC_END \<or> cur_type p = OYL_TOK_DOC_START \<or> cur_type p = OYL_TOK_STREAM_END \<or> cur_type p = OYL_TOK_NONE)"

definition settled :: "oyl_event list \<Rightarrow> oyl_parser \<Rightarrow> bool" where
  "settled es p \<longleftrightarrow> at_stage Between es p \<or> at_stage Rooted es p \<and> at_edge p"

lemma expect_end:
  assumes "at_stage Rooted es p"
  shows "on_ok (expect_document_end p) (settled es)"
proof (rule on_okI)
  fix q
  assume q: "expect_document_end p = Some (OYL_OK, q)"
  obtain st r where p: "peek_token p = Some (st, r)" using q by (auto simp: expect_document_end_def split: option.splits)
  have "q = r \<and> st = OYL_OK \<and> (cur_type r = OYL_TOK_DOC_END \<or> cur_type r = OYL_TOK_DOC_START \<or> cur_type r = OYL_TOK_STREAM_END \<or> cur_type r = OYL_TOK_NONE)"
    using q p by (auto simp: expect_document_end_def PARSE_ERROR_def split: if_split_asm)
  with peek_token_core [OF p] assms show "settled es q" by (simp add: settled_def at_edge_def)
qed

lemma root_ok:
  assumes "at_stage Rootless es p"
  shows "on_ok (document_root (parse_call n) p) (settled es)"
  unfolding document_root_def
  by (intro on_ok_rules on_ok_call [OF parse_calls_ok])
    (use assms stands_eager [OF assms] in \<open>auto intro!: expect_end stands_root [OF assms]\<close>)

lemma unroll_ctxs_oom: "pa_oom p \<Longrightarrow> pa_oom (unroll_ctxs cs p k)"
proof (induction cs p k rule: unroll_ctxs.induct)
  case (2 c cs p k)
  have "pa_oom (pa_pop_ctx (snd (enqueue p e)))" for e
    using 2(2) send_core [of p e] by (auto simp: send_def pa_pop_ctx_def core_def)
  then show ?case using 2 by (auto simp: Let_def)
qed simp

lemma unroll_stands: "stands m g es (core p) \<Longrightarrow> stands m g es (core (unroll_all p k))"
  using unroll_ctxs_oom [of p "pa_contexts p" k] by (auto simp: stands_def core_sel unroll_all_def)

lemma document_ended:
  assumes "at_stage g es p" and "g = Between \<or> g = Rooted"
  shows "at_stage Between es (end_document i e p)"
proof (cases "pa_doc_open p")
  case True
  with assms have "at_stage Rooted es p" by (auto simp: stands_def core_sel)
  then show ?thesis using True
    by (simp add: end_document_def Let_def)
       (intro stands_doc_open stands_send [where g = Rooted] unroll_stands, simp_all add: event_at_def plain_event_def)
next
  case False
  with assms show ?thesis by (auto simp: end_document_def stands_def core_sel)
qed

lemma explicit_ok:
  assumes "at_stage g es p" and "g = Between \<or> g = Rooted"
  shows "on_ok (explicit_document (parse_call n) p) (settled es)"
proof -
  have "at_stage Between es (end_document i e p)" for i e using document_ended [OF assms] .
  then have start: "at_stage Rootless es ((send (consume_token (end_document i e p\<lparr>pa_doc_start_line := l\<rparr>)) (event_at OYL_EVT_DOC_START a b))\<lparr>pa_doc_open := True\<rparr>)"
    for i e l a b
    by (simp) (intro stands_doc_open [where d = False] stands_send [where g = Between], simp_all)
  have empty: "settled es (emit_empty r)"
    if "core r = core q" "at_stage Rootless es q" "pa_have_token r" "cur_type r = OYL_TOK_STREAM_END \<or> cur_type r = OYL_TOK_DOC_END \<or> cur_type r = OYL_TOK_DOC_START"
    for q r
    using that stands_root [of es r] empty_made [of r] by (auto simp: settled_def at_edge_def)
  show ?thesis
    unfolding explicit_document_def Let_def
    by (intro on_ok_rules) (use start in \<open>auto intro!: root_ok empty simp del: mode.simps\<close>)
qed


text \<open>Before a document, with a token that is not the absence of one.\<close>

definition ready :: "oyl_event list \<Rightarrow> oyl_parser \<Rightarrow> bool" where
  "ready es p \<longleftrightarrow> at_stage Between es p \<or> at_stage Rooted es p \<and> at_edge p \<and> cur_type p \<noteq> OYL_TOK_NONE"

lemma implicit_ok:
  assumes "at_stage Between es p"
  shows "on_ok (implicit_document (parse_call n) p) (settled es)"
proof -
  have "at_stage Rootless es (if \<not> pa_doc_open p then ensure_doc (p\<lparr>pa_doc_start_line := 0\<rparr>) False (cur_start p) else p)"
  proof (cases "pa_doc_open p")
    case False
    then have "ensure_doc (p\<lparr>pa_doc_start_line := 0\<rparr>) False k =
        (send (p\<lparr>pa_doc_start_line := 0\<rparr>) ((event_at OYL_EVT_DOC_START k k)\<lparr>evt_implicit := True\<rparr>))\<lparr>pa_doc_open := True\<rparr>" for k
      by (simp add: ensure_doc_def send_def case_prod_unfold)
    then show ?thesis using assms False
      by simp (intro stands_doc_open [where d = False] stands_send [where g = Between], simp_all add: event_at_def plain_event_def)
  next
    case True
    with assms show ?thesis by (auto simp: stands_def core_sel)
  qed
  then show ?thesis by (simp add: implicit_document_def root_ok)
qed

lemma body_ok:
  assumes "ready es p"
  shows "on_ok (document_body (parse_call n) d p) (settled es)"
proof -
  have "on_ok (explicit_document (parse_call n) p) (settled es)"
    using assms explicit_ok [of Between es p n] explicit_ok [of Rooted es p n] by (auto simp: ready_def)
  moreover have "settled es (consume_token (end_document False (cur_end p) p))"
    using assms document_ended [of Between es p] document_ended [of Rooted es p] by (auto simp: ready_def settled_def)
  moreover have "settled es p" using assms by (auto simp: ready_def settled_def)
  moreover have "on_ok (implicit_document (parse_call n) p) (settled es)"
    if "cur_type p \<noteq> OYL_TOK_DOC_START" "cur_type p \<noteq> OYL_TOK_DOC_END" "cur_type p \<noteq> OYL_TOK_STREAM_END"
    using assms that implicit_ok by (auto simp: ready_def at_edge_def)
  ultimately show ?thesis unfolding document_body_def by (intro on_ok_rules) auto
qed

lemma parse_directive_core: "parse_directive p y = (OYL_OK, y', q) \<Longrightarrow> core q = core p"
  by (auto simp: parse_directive_def yaml_directive_def apply_tag_directive_def PARSE_ERROR_def Let_def
      split: if_split_asm option.splits prod.splits)

lemma directives_ok:
  "ready es p \<Longrightarrow> (\<And>d q. ready es q \<Longrightarrow> on_ok (k d q) Q) \<Longrightarrow> on_ok (doc_directives n d y p k) Q"
proof (induction n arbitrary: d y p)
  case (Suc n)
  show ?case
  proof (cases "cur_type p = OYL_TOK_DIRECTIVE \<and> \<not> pa_doc_open p")
    case True
    then have between: "at_stage Between es p" using Suc.prems(1) by (auto simp: ready_def at_edge_def)
    obtain st y' r where r: "parse_directive p y = (st, y', r)" by (cases "parse_directive p y") auto
    have "on_ok (peeked (consume_token r) (\<lambda>p. doc_directives n True y' p k)) Q" if "st = OYL_OK"
      using parse_directive_core r that between by (intro on_ok_rules Suc) (auto simp: ready_def)
    then show ?thesis using True r by (simp add: doc_directives.simps [of "Suc n"] on_ok_def)
  next
    case False
    then show ?thesis using Suc.prems on_ok_fail by (auto simp: doc_directives.simps [of "Suc n"])
  qed
next
  case 0
  then show ?case by (auto simp: doc_directives.simps [of 0] on_ok_def fail_with_def PARSE_ERROR_def split: prod.splits)
qed

lemma parse_document_ok: "ready es p \<Longrightarrow> on_ok (parse_document n p) (settled es)"
proof -
  assume "ready es p"
  then have "ready es q \<and> ready es (q\<lparr>pa_tag_directives := []\<rparr>)"
    if "core q = core p" "pa_have_token p \<Longrightarrow> q = p" for q
    using that by (auto simp: ready_def at_edge_def cur_type_def)
  then show ?thesis unfolding parse_document_def Let_def
    by (intro on_ok_rules directives_ok body_ok) auto
qed


section \<open>The stream\<close>

definition chunk_done :: "oyl_event list \<Rightarrow> oyl_parser \<Rightarrow> bool" where
  "chunk_done es p \<longleftrightarrow> \<not> pa_oom p \<and> (settled es p \<or> at_stage Ended es p)"

lemma status_ok: "(\<not> pa_oom p \<Longrightarrow> Q p) \<Longrightarrow> on_ok (status_of p) Q"
  by (simp add: status_of_def on_ok_def oom_status_not_ok)

lemma start_ok:
  assumes "settled es p \<or> at_stage Unstarted es p"
  shows "on_ok (start_stream p) (settled es)"
proof -
  have "settled es p" if "pa_stream_started p"
    using assms that by (auto simp: settled_def stands_def core_sel)
  moreover have "at_stage Between es ((send (consume_token q) (event_at OYL_EVT_STREAM_START b e))\<lparr>pa_stream_started := True\<rparr>)"
    if "\<not> pa_stream_started p" "core q = core p" for q b e
  proof -
    have "at_stage Unstarted es q" using assms that by (auto simp: settled_def stands_def core_sel)
    then show ?thesis by simp (intro stands_started [where s = False] stands_send [where g = Unstarted], simp_all)
  qed
  ultimately show ?thesis unfolding start_stream_def Let_def
    by (intro on_ok_rules) (auto simp: settled_def)
qed

lemma end_stream_ok: "settled es p \<Longrightarrow> on_ok (end_stream p) (chunk_done es)"
proof -
  assume "settled es p"
  then have "at_stage Between es (end_document True b p)" for b
    using document_ended [of Between es p] document_ended [of Rooted es p] by (auto simp: settled_def)
  then have "at_stage Ended es ((send (consume_token (end_document True b p)) (event_at OYL_EVT_STREAM_END c d))\<lparr>pa_stream_ended := True\<rparr>)" for b c d
    by simp (intro stands_ended [where t = False] stands_send [where g = Between], simp_all)
  then show ?thesis unfolding end_stream_def Let_def by (intro status_ok) (simp add: chunk_done_def)
qed

lemma stream_ok:
  assumes "settled es p \<or> at_stage Unstarted es p"
  shows "on_ok (parse_stream n p) (chunk_done es)"
proof -
  have peeks: "settled es r" if "settled es q" "core r = core q" "pa_have_token q \<Longrightarrow> r = q" for q r
    using that by (auto simp: settled_def at_edge_def)
  have ready: "on_ok (parse_document n q) (settled es)" if "settled es q" "cur_type q \<noteq> OYL_TOK_NONE" for q
    using that by (intro parse_document_ok) (auto simp: settled_def ready_def)
  show ?thesis
    unfolding parse_stream_def Let_def
    by (rule on_ok_then, rule on_ok_mono [OF start_ok [OF assms]])
      (intro on_ok_rules end_stream_ok on_ok_mono [OF ready] status_ok; auto simp: chunk_done_def intro: peeks)
qed

section \<open>What is delivered\<close>

text \<open>After the events \<open>es\<close>, the rest of the queue brings the stream to a stage.\<close>

definition rewound :: "oyl_parser \<Rightarrow> oyl_parser" where
  "rewound p = p\<lparr>pa_evt_cursor := 0\<rparr>"

definition delivering :: "oyl_event list \<Rightarrow> oyl_parser \<Rightarrow> bool" where
  "delivering es p \<longleftrightarrow> \<not> pa_oom p \<and> (\<exists>fs. es @ drop (pa_evt_cursor p) (pa_events p) = fs @ pa_events p \<and>
     (settled fs (rewound p) \<or> at_stage Unstarted fs (rewound p) \<or> at_stage Ended fs (rewound p)))"

lemma delivering_mode:
  "delivering es p \<Longrightarrow> \<not> pa_incremental p \<and> \<not> pa_merge_enabled p \<and> \<not> pa_resolve_enabled p \<and> pa_skip_n p = 0"
  by (auto simp: delivering_def settled_def stands_def core_sel rewound_def)

lemma chunk_done_mode:
  "chunk_done es p \<Longrightarrow> pa_evt_cursor p = 0 \<and> \<not> pa_merge_enabled p \<and> \<not> pa_resolve_enabled p \<and> pa_skip_n p = 0"
  by (auto simp: chunk_done_def settled_def stands_def core_sel)

lemma chunk_delivers:
  assumes "delivering es p" and "length (pa_events p) \<le> pa_evt_cursor p" and "\<not> pa_stream_ended p"
    and "eager_chunk n p = Some (OYL_OK, q)"
  shows "delivering es q \<and> pa_evt_cursor q = 0"
proof -
  obtain fs where fs: "es = fs @ pa_events p" and oom: "\<not> pa_oom p"
    and stage: "settled fs (rewound p) \<or> at_stage Unstarted fs (rewound p) \<or> at_stage Ended fs (rewound p)"
    using assms(1,2) by (auto simp: delivering_def)
  have "\<not> at_stage Ended fs (rewound p)" using oom assms(3) by (auto simp: stands_def core_sel rewound_def)
  then have "settled es (next_chunk p) \<or> at_stage Unstarted es (next_chunk p)"
    using fs stage by (auto simp: settled_def stands_def core_sel next_chunk_def rewound_def at_edge_def cur_type_def)
  note ok = stream_ok [OF this, of n]
  obtain r where r: "parse_stream n (next_chunk p) = Some (OYL_OK, r)"
    using assms(4) by (auto simp: eager_chunk_def then_ok_def split: option.splits if_split_asm)
  with ok have r_done: "chunk_done es r" by (simp add: on_ok_def)
  note mode = chunk_done_mode [OF r_done]
  have "q = r" using assms(4) r mode
    by (auto simp: eager_chunk_def then_ok_def ok_def check_eager_depth_def split: if_split_asm)
  moreover have "rewound r = r" using mode by (simp add: rewound_def)
  ultimately show ?thesis using r_done mode by (auto simp: chunk_done_def delivering_def)
qed

lemma next_delivers:
  assumes "delivering es p" and "eager_next_event n k p = Some (Inr e, q)"
  shows "if e = no_event then delivering es q \<or> delivering (es @ [e]) q else delivering (es @ [e]) q"
  using assms
proof (induction n k p rule: eager_next_event.induct)
  case (1 n k p)
  show ?case
  proof (cases "pa_evt_cursor p < length (pa_events p)")
    case True
    then have e: "e = pa_events p ! pa_evt_cursor p" "q = p\<lparr>pa_evt_cursor := pa_evt_cursor p + 1\<rparr>"
      using 1(3) by (auto simp: eager_next_event.simps [of n k p] dequeue_def)
    have "rewound q = rewound p" "pa_oom q = pa_oom p" "pa_events q = pa_events p" using e(2) by (simp_all add: rewound_def)
    moreover have "(es @ [e]) @ drop (pa_evt_cursor q) (pa_events q) = es @ drop (pa_evt_cursor p) (pa_events p)"
      using True e by (simp add: Cons_nth_drop_Suc)
    ultimately have "delivering (es @ [e]) q" using 1(2) by (simp add: delivering_def)
    then show ?thesis by (cases "e = no_event") simp_all
  next
    case False
    then have dq: "dequeue p = (None, p)" by (simp add: dequeue_def)
    show ?thesis
    proof (cases "pa_stream_ended p")
      case True
      then show ?thesis using 1(2,3) dq by (auto simp: eager_next_event.simps [of n k p])
    next
      case False
      then obtain k' r where k: "k = Suc k'" "eager_chunk n p = Some (OYL_OK, r)" "eager_next_event n k' r = Some (Inr e, q)"
        using 1(3) dq by (auto simp: eager_next_event.simps [of n k p] split: nat.splits option.splits if_split_asm)
      then have "delivering es r"
        using chunk_delivers [OF 1(2) _ False] \<open>\<not> pa_evt_cursor p < length (pa_events p)\<close> by simp
      then show ?thesis using 1(1) [OF dq [symmetric] refl False k(1,2) refl] k(3) by simp
    qed
  qed
qed

lemma delivers_delivering:
  assumes "delivers n k p es q" and "delivering [] p"
  shows "delivering es q"
  using assms
proof induction
  case (delivers_event es q e r)
  then have "delivering es q" by blast
  note mode = delivering_mode [OF this]
  then have "eager_next_event n k q = Some (Inr e, r)"
    using delivers_event.hyps(2) by (auto simp: oyl_parse_next_def next_event_def split: option.splits sum.splits)
  with next_delivers [OF \<open>delivering es q\<close> this] delivers_event.hyps(3) show ?case
    by (auto simp: no_event_def plain_event_def split: if_split_asm)
qed

lemma delivered_all:
  assumes "delivering es p" and "pa_stream_ended p" and "length (pa_events p) \<le> pa_evt_cursor p"
  shows "\<exists>b docs e. evt_type b = OYL_EVT_STREAM_START \<and> list_all is_document docs \<and> evt_type e = OYL_EVT_STREAM_END \<and>
    es = b # concat docs @ [e]"
proof -
  obtain fs where fs: "es = fs @ pa_events p" and oom: "\<not> pa_oom p"
    and stage: "settled fs (rewound p) \<or> at_stage Unstarted fs (rewound p) \<or> at_stage Ended fs (rewound p)"
    using assms(1,3) by (auto simp: delivering_def)
  then have "at_stage Ended fs (rewound p)"
    using oom assms(2) by (auto simp: settled_def stands_def core_sel rewound_def)
  then have "shape Ended es" using oom fs by (simp add: stands_def core_sel rewound_def)
  then obtain b docs e where "evt_type b = OYL_EVT_STREAM_START" "list_all is_document docs" "evt_type e = OYL_EVT_STREAM_END"
    "es = (b # concat docs) @ [e]" unfolding shape.simps documents_then_def documents_def by blast
  then show ?thesis by (metis append_Cons)
qed

text \<open>
  C6: The stream is well formed: when a parser without merge keys and alias resolution, made eager by a
  schema, has delivered its last event, the events are a stream start, documents and a stream end, and
  every document is a start, the events of one complete tree of nodes, and an end, whatever the input,
  the schema, the limits and the failures of allocations that were survived.
\<close>

theorem eager_stream_well_formed:
  assumes "oyl_parser_new m sm sse42 input = Some p"
    and "delivers n k (oyl_parser_set_max_depth (oyl_parser_set_max_events (oyl_parser_set_schema p (Some sch)) me) md) es q"
    and "pa_stream_ended q" and "length (pa_events q) \<le> pa_evt_cursor q"
  shows "\<exists>b docs e. evt_type b = OYL_EVT_STREAM_START \<and> list_all is_document docs \<and>
    evt_type e = OYL_EVT_STREAM_END \<and> es = b # concat docs @ [e]"
proof -
  have "delivering [] (oyl_parser_set_max_depth (oyl_parser_set_max_events (oyl_parser_set_schema p (Some sch)) me) md)"
    using assms(1)
    by (auto simp: oyl_parser_new_def delivering_def stands_def core_def rewound_def shape.simps oyl_parser_set_max_depth_def
        oyl_parser_set_max_events_def oyl_parser_set_schema_def Let_def split: if_split_asm option.splits prod.splits)
  from delivered_all [OF delivers_delivering [OF assms(2) this] assms(3,4)] show ?thesis .
qed

fun calls :: "nat \<Rightarrow> nat \<Rightarrow> oyl_parser \<Rightarrow> nat \<Rightarrow> (oyl_event list \<times> oyl_parser) option" where
  "calls n k p 0 = Some ([], p)"
| "calls n k p (Suc m) =
    (case calls n k p m of
       None \<Rightarrow> None
     | Some (es, q) \<Rightarrow>
        (case oyl_parse_next n k q of
           Some (st, Some e, r) \<Rightarrow> if st = OYL_OK \<and> evt_type e \<noteq> OYL_EVT_NONE then Some (es @ [e], r) else None
         | _ \<Rightarrow> None))"

lemma calls_delivers: "calls n k p m = Some (es, q) \<Longrightarrow> delivers n k p es q"
  by (induction m arbitrary: es q)
    (auto intro: delivers.intros split: option.splits prod.splits if_split_asm)

definition sample_stream :: oyl_parser where
  "sample_stream = oyl_parser_set_max_depth (oyl_parser_set_max_events
     (oyl_parser_set_schema (the (oyl_parser_new [] [] False [LC_A])) (Some failsafe_schema)) 100) 10"

lemma sample_calls:
  "map_option (\<lambda>(es, q). (map evt_type es, pa_stream_ended q, length (pa_events q) \<le> pa_evt_cursor q)) (calls 3 3 sample_stream 5) =
    Some ([OYL_EVT_STREAM_START, OYL_EVT_DOC_START, OYL_EVT_SCALAR, OYL_EVT_DOC_END, OYL_EVT_STREAM_END], True, True)"
  by code_simp

theorem eager_stream_well_formed_witness:
  "\<exists>es q. delivers 3 3 sample_stream es q \<and>
    map evt_type es = [OYL_EVT_STREAM_START, OYL_EVT_DOC_START, OYL_EVT_SCALAR, OYL_EVT_DOC_END, OYL_EVT_STREAM_END] \<and>
    (\<exists>b docs e. evt_type b = OYL_EVT_STREAM_START \<and> list_all is_document docs \<and>
      evt_type e = OYL_EVT_STREAM_END \<and> es = b # concat docs @ [e])"
proof -
  obtain es q where calls: "calls 3 3 sample_stream 5 = Some (es, q)" using sample_calls by (cases "calls 3 3 sample_stream 5") auto
  then have types: "map evt_type es = [OYL_EVT_STREAM_START, OYL_EVT_DOC_START, OYL_EVT_SCALAR, OYL_EVT_DOC_END, OYL_EVT_STREAM_END]"
    and ended: "pa_stream_ended q" "length (pa_events q) \<le> pa_evt_cursor q" using sample_calls by auto
  obtain p where p: "oyl_parser_new [] [] False [LC_A] = Some p" by (simp add: oyl_parser_new_def oyl_scanner_new_def Let_def)
  have run: "delivers 3 3 sample_stream es q" using calls_delivers [OF calls] .
  then have "\<exists>b docs e. evt_type b = OYL_EVT_STREAM_START \<and> list_all is_document docs \<and>
      evt_type e = OYL_EVT_STREAM_END \<and> es = b # concat docs @ [e]"
    using p by (intro eager_stream_well_formed [OF p _ ended]) (simp add: sample_stream_def)
  with run types show ?thesis by (intro exI [of _ es] exI [of _ q] conjI)
qed
end
