(* ===== verification/OylEagerMode.thy ===== *)
theory OylEagerMode
  imports OylStream
begin

text \<open>
  The eager parser never changes whether the parser is incremental: once the incremental parser has
  fallen back, the stream stays with the eager one.
\<close>

section \<open>Results that keep the mode\<close>

definition keeps :: "bool \<Rightarrow> parse_result \<Rightarrow> bool" where
  "keeps i r \<longleftrightarrow> (\<forall>st q. r = Some (st, q) \<longrightarrow> pa_incremental q = i)"

lemma keepsI: "(\<And>st q. r = Some (st, q) \<Longrightarrow> pa_incremental q = i) \<Longrightarrow> keeps i r"
  by (simp add: keeps_def)

named_theorems keeps_rules

lemma keeps_then [keeps_rules]:
  assumes "keeps i r" and "\<And>q. pa_incremental q = i \<Longrightarrow> keeps i (k q)"
  shows "keeps i (then_ok r k)"
proof (cases r)
  case (Some x)
  obtain st q where "r = Some (st, q)" using Some by (cases x) auto
  moreover from this have "pa_incremental q = i" using assms(1) by (simp add: keeps_def)
  ultimately show ?thesis using assms(2) [of q] assms(1) by (cases "st = OYL_OK") (simp_all add: then_ok_def)
qed (simp add: keeps_def then_ok_def)

lemma keeps_some [keeps_rules]: "pa_incremental p = i \<Longrightarrow> keeps i (ok p)" "pa_incremental p = i \<Longrightarrow> keeps i (fail_with p m)"
  by (simp_all add: keeps_def ok_def fail_with_def PARSE_ERROR_def)

lemma keeps_if [keeps_rules]: "(b \<Longrightarrow> keeps i x) \<Longrightarrow> (\<not> b \<Longrightarrow> keeps i y) \<Longrightarrow> keeps i (if b then x else y)"
  by simp

lemma hit_limit_mode [simp]: "pa_incremental (hit_limit p m) = pa_incremental p"
  by (simp add: hit_limit_def stop_with_def Let_def)

lemma keeps_unless [keeps_rules]: "pa_incremental p = i \<Longrightarrow> keeps i (k p) \<Longrightarrow> keeps i (unless_oom p k)"
  by (simp add: keeps_def unless_oom_def)

lemma keeps_guard [keeps_rules]: "pa_incremental p = i \<Longrightarrow> keeps i (k p) \<Longrightarrow> keeps i (loop_guard p k)"
  by (simp add: keeps_def unless_oom_def loop_guard_def)

lemma peek_token_mode: "peek_token p = Some (st, q) \<Longrightarrow> pa_incremental q = pa_incremental p"
  by (auto simp: peek_token_def Let_def split: if_split_asm option.splits sum.splits prod.splits)

lemma keeps_peeked [keeps_rules]:
  assumes "pa_incremental p = i" and "\<And>q. pa_incremental q = i \<Longrightarrow> keeps i (k q)"
  shows "keeps i (peeked p k)"
proof -
  have "keeps i (peek_token p)" using peek_token_mode [of p] assms(1) by (simp add: keeps_def)
  then show ?thesis unfolding peeked_def using assms(2) by (rule keeps_then)
qed

section \<open>Operations\<close>

lemma enqueue_mode: "enqueue p e = (b, q) \<Longrightarrow> pa_incremental q = pa_incremental p"
  by (auto simp: enqueue_def Let_def split: if_split_asm prod.splits)

lemma push_ctx_mode: "pa_push_ctx p t i = (b, q) \<Longrightarrow> pa_incremental q = pa_incremental p"
  by (auto simp: pa_push_ctx_def stop_with_def Let_def split: if_split_asm prod.splits)

lemma attach_props_mode: "attach_props p e = (f, q) \<Longrightarrow> pa_incremental q = pa_incremental p"
  by (auto simp: attach_props_def Let_def split: if_split_asm prod.splits)

lemma mode_simps [simp]:
  "pa_incremental (consume_token p) = pa_incremental p" "pa_incremental (put_props np p) = pa_incremental p"
  "pa_incremental (pa_pop_ctx p) = pa_incremental p" "pa_incremental (send p e) = pa_incremental p"
  "pa_incremental (enter p t d) = pa_incremental p" "pa_incremental (snd (attach_props p e)) = pa_incremental p"
  "pa_incremental (note_first_prop p) = pa_incremental p"
  using enqueue_mode [of p e] push_ctx_mode [of p t d]
  by (simp_all add: consume_token_def put_props_def pa_pop_ctx_def send_def enter_def attach_props_def note_first_prop_def Let_def
      split: prod.split)
    (metis surj_pair snd_conv)+

lemma sent_mode [simp]:
  "pa_incremental (open_collection p e t d) = pa_incremental p" "pa_incremental (send_with_props p e) = pa_incremental p"
  "pa_incremental (emit_empty p) = pa_incremental p" "pa_incremental (ensure_doc p b k) = pa_incremental p"
  by (auto simp: open_collection_def send_with_props_def emit_empty_send ensure_doc_def attach_props_mode Let_def
      dest: attach_props_mode enqueue_mode split: prod.split)

lemma insert_event_mode: "insert_event p i e = (b, q) \<Longrightarrow> pa_incremental q = pa_incremental p"
  by (auto simp: insert_event_def Let_def dest!: enqueue_mode split: if_split_asm prod.splits)

lemma keeps_inserted [keeps_rules]:
  "pa_incremental p = i \<Longrightarrow> (\<And>q. pa_incremental q = i \<Longrightarrow> keeps i (k q)) \<Longrightarrow> keeps i (inserted p n e k)"
  by (auto simp: inserted_def keeps_def dest!: insert_event_mode split: prod.splits)

lemma keeps_attach [keeps_rules]:
  "pa_incremental p = i \<Longrightarrow> (\<And>e q. pa_incremental q = i \<Longrightarrow> keeps i (k e q)) \<Longrightarrow> keeps i (case attach_props p e of (e, q) \<Rightarrow> k e q)"
  by (auto dest!: attach_props_mode split: prod.split)

lemma expand_tag_mode: "expand_tag p t = (u, q) \<Longrightarrow> pa_incremental q = pa_incremental p"
  by (auto simp: expand_tag_def decoded_tag_def Let_def split: if_split_asm option.splits prod.splits)

lemma take_prop_mode: "take_prop p = (st, again, q) \<Longrightarrow> pa_incremental q = pa_incremental p"
  by (auto simp: take_prop_def Let_def PARSE_ERROR_def dest!: expand_tag_mode split: if_split_asm prod.splits)

lemma keeps_props [keeps_rules]: "pa_incremental p = i \<Longrightarrow> keeps i (consume_props p)"
proof (induction p rule: consume_props.induct)
  case (1 p)
  show ?case
  proof (cases "peek_token p")
    case None
    then show ?thesis by (simp add: consume_props.simps [of p] keeps_def)
  next
    case (Some r)
    then obtain st1 p1 where 2: "peek_token p = Some (st1, p1)" by (cases r) auto
    obtain st2 again p2 where 3: "take_prop p1 = (st2, again, p2)" by (cases "take_prop p1") auto
    have m: "pa_incremental p1 = i" "pa_incremental p2 = i" using peek_token_mode [OF 2] take_prop_mode [OF 3] 1(2) by simp_all
    show ?thesis
    proof (cases "st1 = OYL_OK \<and> st2 = OYL_OK \<and> again")
      case True
      then have "keeps i (consume_props p2)" using 1(1) [OF 2 refl _ 3 [symmetric] refl _ _ m(2)] by simp
      with True 2 3 show ?thesis by (simp add: consume_props.simps [of p])
    next
      case False
      with 2 3 m show ?thesis by (auto simp: consume_props.simps [of p] keeps_def PARSE_ERROR_def split: if_split_asm)
    qed
  qed
qed

lemma keeps_moved [keeps_rules]:
  assumes "pa_incremental p = i" and "\<And>e q. pa_incremental q = i \<Longrightarrow> keeps i (k e q)"
  shows "keeps i (case if b then move_props_to_key_map p n m s a t else (m, p) of (e, q) \<Rightarrow> k e q)"
  using assms by (auto simp: move_props_to_key_map_def Let_def split: prod.split)

section \<open>The grammar\<close>

definition keeping :: "parse_rec \<Rightarrow> bool" where
  "keeping rec \<longleftrightarrow> (\<forall>g p. keeps (pa_incremental p) (rec g p))"

lemma keeps_rec: "keeping rec \<Longrightarrow> pa_incremental p = i \<Longrightarrow> keeps i (rec g p)"
  by (auto simp: keeping_def)

lemmas grammar_defs = parse_flow_sequence_def parse_flow_mapping_def parse_flow_node_def parse_block_map_value_def
  parse_block_mapping_def parse_block_sequence_def parse_block_node_def close_flow_def flow_value_or_empty_def
  flow_key_or_empty_def flow_pair_value_def end_flow_pair_def flow_explicit_pair_def flow_implicit_pair_def
  flow_separator_def flow_sequence_separator_def flow_mapping_separator_def map_entry_def explicit_key_def
  explicit_entry_def simple_key_def flow_key_def implicit_entry_def rest_of_mapping_def close_block_def
  double_scalar_def double_sequence_def double_empty_key_def double_flow_def double_props_def block_alias_def
  block_flow_def block_sequence_node_def scalar_key_mapping_def block_scalar_def block_explicit_key_def
  block_bare_value_def block_content_def

lemma keeping_calls: "keeping (parse_call n)"
proof (induction n)
  case (Suc n)
  note rec = keeps_rec [OF this]
  have "keeps (pa_incremental p) (parse_call (Suc n) g p)" for g p
  proof (cases g)
    case FLOW_SEQUENCE
    show ?thesis unfolding FLOW_SEQUENCE parse_call.simps grammar.case grammar_defs Let_def
      by (intro keeps_rules rec) simp_all
  next
    case FLOW_MAPPING
    show ?thesis unfolding FLOW_MAPPING parse_call.simps grammar.case grammar_defs Let_def
      by (intro keeps_rules rec) simp_all
  next
    case FLOW_NODE
    show ?thesis unfolding FLOW_NODE parse_call.simps grammar.case grammar_defs Let_def
      by (intro keeps_rules rec) simp_all
  next
    case (MAP_VALUE i)
    show ?thesis unfolding MAP_VALUE parse_call.simps grammar.case grammar_defs Let_def
      by (intro keeps_rules rec) simp_all
  next
    case (BLOCK_MAPPING i)
    show ?thesis unfolding BLOCK_MAPPING parse_call.simps grammar.case grammar_defs Let_def
      by (intro keeps_rules rec) simp_all
  next
    case (BLOCK_SEQUENCE i)
    show ?thesis unfolding BLOCK_SEQUENCE parse_call.simps grammar.case grammar_defs Let_def
      by (intro keeps_rules rec) simp_all
  next
    case BLOCK_NODE
    show ?thesis unfolding BLOCK_NODE parse_call.simps grammar.case grammar_defs Let_def
      by (intro keeps_rules rec) simp_all
  qed
  then show ?case by (simp add: keeping_def)
qed (simp add: keeping_def keeps_def)

section \<open>Documents and the stream\<close>

lemma parse_directive_mode: "parse_directive p y = (st, y', q) \<Longrightarrow> pa_incremental q = pa_incremental p"
  by (auto simp: parse_directive_def yaml_directive_def apply_tag_directive_def PARSE_ERROR_def Let_def
      split: if_split_asm option.splits prod.splits)

lemma keeps_directives [keeps_rules]:
  "pa_incremental p = i \<Longrightarrow> (\<And>d q. pa_incremental q = i \<Longrightarrow> keeps i (k d q)) \<Longrightarrow> keeps i (doc_directives n d y p k)"
proof (induction n arbitrary: d y p)
  case 0
  then show ?case
    by (auto simp: doc_directives.simps [of 0] keeps_def fail_with_def PARSE_ERROR_def dest!: parse_directive_mode split: prod.splits)
next
  case (Suc n)
  obtain st y' r where r: "parse_directive p y = (st, y', r)" by (cases "parse_directive p y") auto
  then have m: "pa_incremental r = i" using parse_directive_mode Suc.prems(1) by simp
  have "keeps i (Some (st, r))" using m by (simp add: keeps_def)
  moreover have "keeps i (peeked (consume_token r) (\<lambda>p. doc_directives n True y' p k))"
    using m by (intro keeps_peeked Suc) simp_all
  moreover have "keeps i (k d p)" using Suc.prems by simp
  ultimately show ?case using keeps_some(2) [OF Suc.prems(1)] r by (simp add: doc_directives.simps [of "Suc n"])
qed

lemma unroll_ctxs_mode: "pa_incremental (unroll_ctxs cs p k) = pa_incremental p"
  using mode_simps(4) by (induction cs arbitrary: p) (simp_all add: Let_def send_def)

lemma keeps_expect [keeps_rules]: "pa_incremental p = i \<Longrightarrow> keeps i (expect_document_end p)"
  by (auto simp: expect_document_end_def keeps_def PARSE_ERROR_def dest!: peek_token_mode split: option.splits if_split_asm)

lemma unroll_mode [simp]: "pa_incremental (unroll_all p k) = pa_incremental p" "pa_incremental (end_document b e p) = pa_incremental p"
  by (simp_all add: end_document_def unroll_all_def unroll_ctxs_mode Let_def)

lemma keeps_document: "pa_incremental p = i \<Longrightarrow> keeps i (parse_document n p)"
  unfolding parse_document_def document_body_def explicit_document_def implicit_document_def document_root_def Let_def
  by (intro keeps_rules keeps_rec [OF keeping_calls]) simp_all

lemma keeps_status [keeps_rules]: "pa_incremental p = i \<Longrightarrow> keeps i (status_of p)"
  by (simp add: keeps_def status_of_def)

lemma keeps_stream: "pa_incremental p = i \<Longrightarrow> keeps i (parse_stream n p)"
  unfolding parse_stream_def start_stream_def end_stream_def Let_def
  by (intro keeps_rules keeps_document) simp_all

section \<open>Events\<close>

lemma bind_anchors_mode: "bind_anchors p = Some (st, q) \<Longrightarrow> pa_incremental q = pa_incremental p"
  by (auto simp: bind_anchors_def Let_def split: if_split_asm option.splits prod.splits)

lemma expansion_failed_mode: "expansion_failed p out = (st, q) \<Longrightarrow> pa_incremental q = pa_incremental p"
  by (auto simp: expansion_failed_def split: if_split_asm)

lemma merge_passes_mode: "merge_passes n limit p = Some (st, q) \<Longrightarrow> pa_incremental q = pa_incremental p"
proof (induction n limit p rule: merge_passes.induct)
  case (2 n limit p)
  then show ?case
    by (auto simp: Let_def dest: expansion_failed_mode split: option.splits prod.splits if_split_asm)
qed simp

lemma alias_passes_mode: "alias_passes n limit cyclic p = Some (st, q) \<Longrightarrow> pa_incremental q = pa_incremental p"
proof (induction n limit cyclic p rule: alias_passes.induct)
  case (2 n limit cyclic p)
  then show ?case
    by (auto simp: Let_def dest: expansion_failed_mode split: option.splits prod.splits if_split_asm)
qed simp

lemma keeps_passes:
  assumes "pa_incremental p = i"
  shows "keeps i (if b then bind_anchors p else ok p)" "keeps i (if b then resolve_merges p else ok p)"
    "keeps i (if b then resolve_aliases p else ok p)" "keeps i (Some (check_eager_depth p))" "keeps i (Some (skip_delivered p))"
    "pa_incremental (unbind_anchors p) = i"
  using assms
  by (auto simp: keeps_def ok_def resolve_merges_def resolve_aliases_def check_eager_depth_def skip_delivered_def unbind_anchors_def
      PARSE_ERROR_def Let_def dest!: bind_anchors_mode merge_passes_mode alias_passes_mode
      split: if_split_asm option.splits prod.splits)

lemma keeps_chunk: "pa_incremental p = i \<Longrightarrow> keeps i (eager_chunk n p)"
  unfolding eager_chunk_def Let_def
  by (intro keeps_then keeps_stream keeps_passes keeps_if keeps_some) (simp_all add: next_chunk_def keeps_passes)

lemma eager_next_mode: "eager_next_event n k p = Some (r, q) \<Longrightarrow> pa_incremental q = pa_incremental p"
proof (induction n k p rule: eager_next_event.induct)
  case (1 n k p)
  show ?case
  proof (cases "dequeue p")
    case (Pair e p')
    then have m: "pa_incremental p' = pa_incremental p" by (auto simp: dequeue_def split: if_split_asm)
    show ?thesis
    proof (cases "e = None \<and> \<not> pa_stream_ended p'")
      case False
      with 1(2) Pair m show ?thesis
        by (auto simp: eager_next_event.simps [of n k p] split: option.splits)
    next
      case True
      then obtain k' st r' where k: "k = Suc k'" "eager_chunk n p' = Some (st, r')"
        using 1(2) Pair by (auto simp: eager_next_event.simps [of n k p] split: nat.splits option.splits)
      have r': "pa_incremental r' = pa_incremental p" using keeps_chunk [OF m, of n] k(2) by (simp add: keeps_def)
      show ?thesis
      proof (cases "st = OYL_OK")
        case False
        with 1(2) Pair True k r' show ?thesis by (auto simp: eager_next_event.simps [of n "Suc k'" p])
      next
        case ok: True
        then have "eager_next_event n k' r' = Some (r, q)" using 1(2) Pair True k by (simp add: eager_next_event.simps [of n "Suc k'" p])
        then show ?thesis using 1(1) [OF Pair [symmetric] _ _ k(1) k(2) refl] ok True r' by auto
      qed
    qed
  qed
qed

end
