(* ===== verification/OylAcceptor.thy ===== *)
theory OylAcceptor
  imports OylEagerMode
begin

text \<open>
  A pushdown acceptor for the types of events: which sequences are the start of a stream, and that a
  stream it accepts to the end consists of documents with one tree of nodes each.
\<close>

section \<open>The acceptor\<close>

text \<open>What is open: a stream, a document without and with its root, a sequence, a mapping before a key and before a value.\<close>

datatype slot = S_START | S_STREAM | S_ENDED | S_DOC | S_ROOT | S_SEQ | S_KEY | S_VALUE

text \<open>A node is added to what is open.\<close>

fun filled :: "slot list \<Rightarrow> slot list option" where
  "filled (S_DOC # s) = Some (S_ROOT # s)"
| "filled (S_SEQ # s) = Some (S_SEQ # s)"
| "filled (S_KEY # s) = Some (S_VALUE # s)"
| "filled (S_VALUE # s) = Some (S_KEY # s)"
| "filled _ = None"

definition accept :: "slot list \<Rightarrow> oyl_event_type \<Rightarrow> slot list option" where
  "accept s t =
    (case t of
       OYL_EVT_STREAM_START \<Rightarrow> if s = [S_START] then Some [S_STREAM] else None
     | OYL_EVT_STREAM_END \<Rightarrow> if s = [S_STREAM] then Some [S_ENDED] else None
     | OYL_EVT_DOC_START \<Rightarrow> if s = [S_STREAM] then Some [S_DOC, S_STREAM] else None
     | OYL_EVT_DOC_END \<Rightarrow> if s = [S_ROOT, S_STREAM] then Some [S_STREAM] else None
     | OYL_EVT_SCALAR \<Rightarrow> filled s
     | OYL_EVT_ALIAS \<Rightarrow> filled s
     | OYL_EVT_SEQUENCE_START \<Rightarrow> map_option ((#) S_SEQ) (filled s)
     | OYL_EVT_SEQUENCE_END \<Rightarrow> (case s of S_SEQ # r \<Rightarrow> Some r | _ \<Rightarrow> None)
     | OYL_EVT_MAPPING_START \<Rightarrow> map_option ((#) S_KEY) (filled s)
     | OYL_EVT_MAPPING_END \<Rightarrow> (case s of S_KEY # r \<Rightarrow> Some r | _ \<Rightarrow> None)
     | OYL_EVT_NONE \<Rightarrow> None)"

fun accepts :: "slot list \<Rightarrow> oyl_event list \<Rightarrow> slot list option" where
  "accepts s [] = Some s"
| "accepts s (e # es) = (case accept s (evt_type e) of None \<Rightarrow> None | Some s \<Rightarrow> accepts s es)"

abbreviation after :: "oyl_event list \<Rightarrow> slot list option" where
  "after \<equiv> accepts [S_START]"

lemma accept_simps [simp]:
  "accept s OYL_EVT_STREAM_START = (if s = [S_START] then Some [S_STREAM] else None)"
  "accept s OYL_EVT_STREAM_END = (if s = [S_STREAM] then Some [S_ENDED] else None)"
  "accept s OYL_EVT_DOC_START = (if s = [S_STREAM] then Some [S_DOC, S_STREAM] else None)"
  "accept s OYL_EVT_DOC_END = (if s = [S_ROOT, S_STREAM] then Some [S_STREAM] else None)"
  "accept s OYL_EVT_SCALAR = filled s"
  "accept s OYL_EVT_ALIAS = filled s"
  "accept s OYL_EVT_SEQUENCE_START = map_option ((#) S_SEQ) (filled s)"
  "accept s OYL_EVT_MAPPING_START = map_option ((#) S_KEY) (filled s)"
  "accept (S_SEQ # s) OYL_EVT_SEQUENCE_END = Some s"
  "accept (S_KEY # s) OYL_EVT_MAPPING_END = Some s"
  by (simp_all add: accept_def)

lemma accepts_append:
  "accepts s (es @ fs) = (case accepts s es of None \<Rightarrow> None | Some t \<Rightarrow> accepts t fs)"
  by (induction es arbitrary: s) (auto split: option.splits)

lemma accepts_prefix: "after (es @ fs) \<noteq> None \<Longrightarrow> after es \<noteq> None"
  by (auto simp: accepts_append split: option.splits)

lemma accepts_take: "after (es @ fs) \<noteq> None \<Longrightarrow> after (es @ take n fs) \<noteq> None"
  using accepts_prefix [of "es @ take n fs" "drop n fs"] by simp

section \<open>What is accepted\<close>

definition tree_document :: "oyl_event list \<Rightarrow> bool" where
  "tree_document es \<longleftrightarrow> (\<exists>b n e. evt_type b = OYL_EVT_DOC_START \<and> node_ok n \<and> evt_type e = OYL_EVT_DOC_END \<and>
    es = b # node_events n @ [e])"

definition whole_documents :: "oyl_event list \<Rightarrow> bool" where
  "whole_documents es \<longleftrightarrow> (\<exists>b docs. evt_type b = OYL_EVT_STREAM_START \<and> list_all tree_document docs \<and> es = b # concat docs)"

text \<open>What the events before a stack are made of.\<close>

inductive built :: "slot list \<Rightarrow> oyl_event list \<Rightarrow> bool" where
  built_start: "built [S_START] []"
| built_stream: "whole_documents es \<Longrightarrow> built [S_STREAM] es"
| built_ended: "whole_documents es \<Longrightarrow> evt_type e = OYL_EVT_STREAM_END \<Longrightarrow> built [S_ENDED] (es @ [e])"
| built_doc: "whole_documents es \<Longrightarrow> evt_type b = OYL_EVT_DOC_START \<Longrightarrow> built [S_DOC, S_STREAM] (es @ [b])"
| built_root: "whole_documents es \<Longrightarrow> evt_type b = OYL_EVT_DOC_START \<Longrightarrow> node_ok n \<Longrightarrow>
    built [S_ROOT, S_STREAM] (es @ b # node_events n)"
| built_seq: "built t fs \<Longrightarrow> filled t = Some r \<Longrightarrow> evt_type e = OYL_EVT_SEQUENCE_START \<Longrightarrow> list_all node_ok ns \<Longrightarrow>
    built (S_SEQ # r) (fs @ e # nodes_events ns)"
| built_key: "built t fs \<Longrightarrow> filled t = Some r \<Longrightarrow> evt_type e = OYL_EVT_MAPPING_START \<Longrightarrow>
    list_all (\<lambda>(k, v). node_ok k \<and> node_ok v) kvs \<Longrightarrow>
    built (S_KEY # r) (fs @ e # concat (map (\<lambda>(k, v). node_events k @ node_events v) kvs))"
| built_value: "built t fs \<Longrightarrow> filled t = Some r \<Longrightarrow> evt_type e = OYL_EVT_MAPPING_START \<Longrightarrow>
    list_all (\<lambda>(k, v). node_ok k \<and> node_ok v) kvs \<Longrightarrow> node_ok k \<Longrightarrow>
    built (S_VALUE # r) (fs @ e # concat (map (\<lambda>(k, v). node_events k @ node_events v) kvs) @ node_events k)"

lemma filledE:
  assumes "filled s = Some t"
  obtains r where "s = S_DOC # r" "t = S_ROOT # r" | r where "s = S_SEQ # r" "t = S_SEQ # r"
    | r where "s = S_KEY # r" "t = S_VALUE # r" | r where "s = S_VALUE # r" "t = S_KEY # r"
  using assms by (cases s rule: filled.cases) auto

inductive_cases built_slotE: "built (S_DOC # r) es" "built (S_SEQ # r) es" "built (S_KEY # r) es" "built (S_VALUE # r) es"

text \<open>A node more fills the place that is open.\<close>

lemma built_filled:
  assumes "built s es" and "filled s = Some t" and "node_ok n"
  shows "built t (es @ node_events n)"
  using assms(2)
proof (cases rule: filledE)
  case (1 r)
  with assms(1) obtain fs b where "r = [S_STREAM]" "es = fs @ [b]" "whole_documents fs" "evt_type b = OYL_EVT_DOC_START"
    by (auto elim: built_slotE)
  with 1 built_root [of fs b n] assms(3) show ?thesis by simp
next
  case (2 r)
  from assms(1) obtain u fs e ns where "built u fs" "filled u = Some r" "evt_type e = OYL_EVT_SEQUENCE_START"
    "list_all node_ok ns" "es = fs @ e # nodes_events ns" unfolding 2 by (auto elim: built_slotE)
  with 2 built_seq [of u fs r e "ns @ [n]"] assms(3) show ?thesis by simp
next
  case (3 r)
  from assms(1) obtain u fs e kvs where "built u fs" "filled u = Some r" "evt_type e = OYL_EVT_MAPPING_START"
    "list_all (\<lambda>(k, v). node_ok k \<and> node_ok v) kvs"
    "es = fs @ e # concat (map (\<lambda>(k, v). node_events k @ node_events v) kvs)" unfolding 3 by (auto elim: built_slotE)
  with 3 built_value [of u fs r e kvs n] assms(3) show ?thesis by simp
next
  case (4 r)
  from assms(1) obtain u fs e kvs k where "built u fs" "filled u = Some r" "evt_type e = OYL_EVT_MAPPING_START"
    "list_all (\<lambda>(k, v). node_ok k \<and> node_ok v) kvs" "node_ok k"
    "es = fs @ e # concat (map (\<lambda>(k, v). node_events k @ node_events v) kvs) @ node_events k" unfolding 4 by (auto elim: built_slotE)
  with 4 built_key [of u fs r e "kvs @ [(k, n)]"] assms(3) show ?thesis by simp
qed

lemma built_closed:
  assumes "built s es"
  shows "s = S_SEQ # r \<Longrightarrow> evt_type e = OYL_EVT_SEQUENCE_END \<Longrightarrow> built r (es @ [e])"
    and "s = S_KEY # r \<Longrightarrow> evt_type e = OYL_EVT_MAPPING_END \<Longrightarrow> built r (es @ [e])"
proof -
  assume s: "s = S_SEQ # r" and e: "evt_type e = OYL_EVT_SEQUENCE_END"
  from assms obtain u fs b ns where u: "built u fs" "filled u = Some r" and ns: "evt_type b = OYL_EVT_SEQUENCE_START"
    "list_all node_ok ns" "es = fs @ b # nodes_events ns" unfolding s by (auto elim: built_slotE)
  from built_filled [OF u, of "NSeq b ns e"] ns e show "built r (es @ [e])" by (simp add: nodes_events_def)
next
  assume s: "s = S_KEY # r" and e: "evt_type e = OYL_EVT_MAPPING_END"
  from assms obtain u fs b kvs where u: "built u fs" "filled u = Some r" and kvs: "evt_type b = OYL_EVT_MAPPING_START"
    "list_all (\<lambda>(k, v). node_ok k \<and> node_ok v) kvs"
    "es = fs @ b # concat (map (\<lambda>(k, v). node_events k @ node_events v) kvs)" unfolding s by (auto elim: built_slotE)
  from built_filled [OF u, of "NMap b kvs e"] kvs e show "built r (es @ [e])" by simp
qed

lemma built_opened:
  assumes "built s es" and "filled s = Some r"
  shows "evt_type e = OYL_EVT_SEQUENCE_START \<Longrightarrow> built (S_SEQ # r) (es @ [e])"
    and "evt_type e = OYL_EVT_MAPPING_START \<Longrightarrow> built (S_KEY # r) (es @ [e])"
  using built_seq [OF assms, of e "[]"] built_key [OF assms, of e "[]"] by simp_all

inductive_cases built_streamE: "built [S_START] es" "built [S_STREAM] es" "built [S_ROOT, S_STREAM] es" "built [S_ENDED] es"

lemma whole_documents_more: "whole_documents es \<Longrightarrow> tree_document d \<Longrightarrow> whole_documents (es @ d)"
  unfolding whole_documents_def by (elim exE conjE, rule_tac x = b in exI, rule_tac x = "docs @ [d]" in exI) simp

lemma built_accept:
  assumes "built s es" and "accept s (evt_type e) = Some t"
  shows "built t (es @ [e])"
proof (cases "evt_type e")
  case OYL_EVT_NONE
  with assms(2) show ?thesis by (simp add: accept_def)
next
  case OYL_EVT_STREAM_START
  then have "es = []" "t = [S_STREAM]" using assms by (auto elim: built_streamE split: if_split_asm)
  then show ?thesis using OYL_EVT_STREAM_START
    by (auto simp: whole_documents_def intro!: built_stream exI [of _ e] exI [of _ "[]"])
next
  case OYL_EVT_STREAM_END
  then show ?thesis using assms by (auto elim!: built_streamE intro!: built_ended split: if_split_asm)
next
  case OYL_EVT_DOC_START
  then show ?thesis using assms by (auto elim!: built_streamE intro!: built_doc split: if_split_asm)
next
  case OYL_EVT_DOC_END
  then have t: "t = [S_STREAM]" and "built [S_ROOT, S_STREAM] es" using assms by (auto split: if_split_asm)
  then obtain fs b n where "whole_documents fs" "evt_type b = OYL_EVT_DOC_START" "node_ok n" "es = fs @ b # node_events n"
    by (auto elim: built_streamE)
  then show ?thesis using whole_documents_more [of fs "b # node_events n @ [e]"] OYL_EVT_DOC_END t
    by (auto simp: tree_document_def intro!: built_stream)
next
  case OYL_EVT_SCALAR
  then show ?thesis using built_filled [OF assms(1), of t "NScalar e"] assms(2) by simp
next
  case OYL_EVT_ALIAS
  then show ?thesis using built_filled [OF assms(1), of t "NAlias e"] assms(2) by simp
next
  case OYL_EVT_SEQUENCE_START
  then show ?thesis using built_opened [OF assms(1)] assms(2) by auto
next
  case OYL_EVT_MAPPING_START
  then show ?thesis using built_opened [OF assms(1)] assms(2) by auto
next
  case OYL_EVT_SEQUENCE_END
  then show ?thesis using built_closed(1) [OF assms(1)] assms(2)
    by (auto simp: accept_def split: list.splits slot.splits)
next
  case OYL_EVT_MAPPING_END
  then show ?thesis using built_closed(2) [OF assms(1)] assms(2)
    by (auto simp: accept_def split: list.splits slot.splits)
qed

lemma after_built: "after es = Some s \<Longrightarrow> built s es"
proof (induction es arbitrary: s rule: rev_induct)
  case Nil
  then show ?case using built_start by auto
next
  case (snoc e es)
  then obtain r where "after es = Some r" "accept r (evt_type e) = Some s"
    by (auto simp: accepts_append split: option.splits)
  with snoc.IH built_accept show ?case by blast
qed

lemma after_stream_end:
  assumes "after (fs @ [e]) \<noteq> None" and "evt_type e = OYL_EVT_STREAM_END"
  shows "\<exists>b docs. evt_type b = OYL_EVT_STREAM_START \<and> list_all tree_document docs \<and> fs = b # concat docs"
proof -
  from assms obtain s where "after fs = Some s" "accept s OYL_EVT_STREAM_END \<noteq> None"
    by (auto simp: accepts_append split: option.splits)
  then have "built [S_STREAM] fs" using after_built [of fs s] by (auto split: if_split_asm)
  then show ?thesis by (auto simp: whole_documents_def elim: built_streamE)
qed

end
