(* ===== verification/OylIncStream.thy ===== *)
theory OylIncStream
  imports OylAcceptor
begin

text \<open>
  The steps of the incremental parser follow the acceptor of \<open>OylAcceptor\<close>: the state and the frames of
  the machine determine the stack of the acceptor after the events queued so far, and every step keeps
  this, unless it fails.
\<close>

section \<open>States and stacks\<close>

text \<open>What a collection has open in a state that a node may return to.\<close>

definition part :: "parser_state \<Rightarrow> ctx_type \<Rightarrow> slot list option" where
  "part ret t =
    (case ret of
       ST_BLOCK_MAP_LOOP \<Rightarrow> if t = CTX_BLOCK_MAP then Some [S_KEY] else None
     | ST_BLOCK_MAP_POST_KEY \<Rightarrow> if t = CTX_BLOCK_MAP then Some [S_VALUE] else None
     | ST_BLOCK_SEQ_LOOP \<Rightarrow> if t = CTX_BLOCK_SEQ then Some [S_SEQ] else None
     | ST_FLOW_MAP_VALUE \<Rightarrow> if t = CTX_FLOW_MAP then Some [S_VALUE] else None
     | ST_FLOW_MAP_SEP \<Rightarrow> if t = CTX_FLOW_MAP then Some [S_KEY] else None
     | ST_FLOW_SEQ_SEP \<Rightarrow> if t = CTX_FLOW_SEQ then Some [S_SEQ] else None
     | ST_FLOW_SEQ_IMPLICIT_END \<Rightarrow> if t = CTX_FLOW_SEQ then Some [S_KEY, S_SEQ] else None
     | ST_FLOW_SEQ_EXPLICIT_VALUE \<Rightarrow> if t = CTX_FLOW_SEQ then Some [S_VALUE, S_SEQ] else None
     | ST_FLOW_SEQ_EXPLICIT_END \<Rightarrow> if t = CTX_FLOW_SEQ then Some [S_KEY, S_SEQ] else None
     | _ \<Rightarrow> None)"

text \<open>The stack after a node that returns to state \<open>ret\<close>, within the frames.\<close>

fun chain :: "parser_state \<Rightarrow> state_frame list \<Rightarrow> slot list option" where
  "chain ret [] = (if ret = ST_DOC_END_EXPLICIT then Some [S_ROOT, S_STREAM] else None)"
| "chain ret (f # fs) =
    (case (part ret (fr_type f), chain (fr_return_state f) fs) of
       (Some s, Some r) \<Rightarrow> Some (s @ r) | _ \<Rightarrow> None)"

text \<open>Before a node.\<close>

definition waits :: "slot list \<Rightarrow> oyl_parser \<Rightarrow> bool" where
  "waits s p \<longleftrightarrow> (\<exists>t. chain (pa_node_return p) (pa_frames p) = Some t \<and> filled s = Some t)"

abbreviation at :: "parser_state \<Rightarrow> slot list \<Rightarrow> oyl_parser \<Rightarrow> bool" where
  "at st s p \<equiv> chain st (pa_frames p) = Some s"

definition between_documents :: "slot list \<Rightarrow> oyl_parser \<Rightarrow> bool" where
  "between_documents s p \<longleftrightarrow> s = [S_STREAM] \<and> pa_frames p = [] \<and> \<not> pa_doc_open p"

definition saved_ok :: "oyl_parser \<Rightarrow> bool" where
  "saved_ok p \<longleftrightarrow> evt_type (pa_saved_node p) = OYL_EVT_SCALAR \<or> evt_type (pa_saved_node p) = OYL_EVT_ALIAS"

text \<open>
  The stack that belongs to a parser between two steps, with what each state knows of the current
  token; the states for which it is \<open>False\<close> are never reached.
\<close>

definition fits :: "slot list \<Rightarrow> oyl_parser \<Rightarrow> bool" where
  "fits s p \<longleftrightarrow>
    (case pa_state p of
       ST_STREAM_START \<Rightarrow> s = [S_START] \<and> pa_frames p = [] \<and> \<not> pa_doc_open p
     | ST_STREAM_DOC_LOOP \<Rightarrow> between_documents s p
     | ST_STREAM_END \<Rightarrow> between_documents s p
     | ST_DOC_DIRECTIVES \<Rightarrow> between_documents s p
     | ST_DOC_START_EXPLICIT \<Rightarrow> between_documents s p
     | ST_DOC_START_IMPLICIT \<Rightarrow> between_documents s p
     | ST_DOC_CONTENT \<Rightarrow> s = [S_DOC, S_STREAM] \<and> pa_frames p = []
     | ST_DOC_END_EXPLICIT \<Rightarrow> at ST_DOC_END_EXPLICIT s p
     | ST_BLOCK_NODE \<Rightarrow> waits s p \<and> pa_have_token p
     | ST_BLOCK_NODE_SCALAR \<Rightarrow> waits s p \<and> pa_have_token p
     | ST_BLOCK_NODE_SCALAR_KEY \<Rightarrow> waits s p \<and> pa_have_token p \<and> saved_ok p
     | ST_BLOCK_NODE_ALIAS \<Rightarrow> waits s p \<and> pa_have_token p
     | ST_BLOCK_NODE_ALIAS_KEY \<Rightarrow> waits s p \<and> pa_have_token p \<and> saved_ok p
     | ST_BLOCK_NODE_SEQ \<Rightarrow> waits s p \<and> pa_have_token p
     | ST_BLOCK_NODE_EXPLICIT_KEY \<Rightarrow> waits s p \<and> pa_have_token p
     | ST_BLOCK_NODE_BARE_VALUE \<Rightarrow> waits s p \<and> pa_have_token p
     | ST_BLOCK_NODE_EMPTY \<Rightarrow> waits s p \<and> pa_have_token p
     | ST_BLOCK_MAP_LOOP \<Rightarrow> at ST_BLOCK_MAP_LOOP s p
     | ST_BLOCK_MAP_EXPLICIT_KEY \<Rightarrow> at ST_BLOCK_MAP_LOOP s p \<and> pa_have_token p
     | ST_BLOCK_MAP_SIMPLE_KEY \<Rightarrow> at ST_BLOCK_MAP_LOOP s p \<and> pa_have_token p
     | ST_BLOCK_MAP_POST_KEY \<Rightarrow> at ST_BLOCK_MAP_POST_KEY s p
     | ST_BLOCK_MAP_VALUE \<Rightarrow> at ST_BLOCK_MAP_POST_KEY s p \<and> pa_have_token p
     | ST_BLOCK_MAP_END \<Rightarrow> at ST_BLOCK_MAP_LOOP s p \<and> pa_have_token p
     | ST_BLOCK_SEQ_LOOP \<Rightarrow> at ST_BLOCK_SEQ_LOOP s p
     | ST_BLOCK_SEQ_ENTRY \<Rightarrow> at ST_BLOCK_SEQ_LOOP s p \<and> pa_have_token p
     | ST_BLOCK_SEQ_END \<Rightarrow> at ST_BLOCK_SEQ_LOOP s p \<and> pa_have_token p
     | ST_FLOW_SEQ_LOOP \<Rightarrow> at ST_FLOW_SEQ_SEP s p \<and>
         (pa_have_token p \<or> cur_type p = OYL_TOK_FLOW_ENTRY \<or> cur_type p = OYL_TOK_FLOW_SEQ_START)
     | ST_FLOW_SEQ_ENTRY_KEY \<Rightarrow> at ST_FLOW_SEQ_SEP s p \<and> saved_ok p
     | ST_FLOW_SEQ_IMPLICIT_END \<Rightarrow> at ST_FLOW_SEQ_IMPLICIT_END s p
     | ST_FLOW_SEQ_EXPLICIT_KEY \<Rightarrow> at ST_FLOW_SEQ_SEP s p
     | ST_FLOW_SEQ_EXPLICIT_VALUE \<Rightarrow> at ST_FLOW_SEQ_EXPLICIT_VALUE s p
     | ST_FLOW_SEQ_EXPLICIT_END \<Rightarrow> at ST_FLOW_SEQ_EXPLICIT_END s p
     | ST_FLOW_SEQ_SEP \<Rightarrow> at ST_FLOW_SEQ_SEP s p
     | ST_FLOW_SEQ_END \<Rightarrow> at ST_FLOW_SEQ_SEP s p
     | ST_FLOW_MAP_LOOP \<Rightarrow> at ST_FLOW_MAP_SEP s p \<and>
         (pa_have_token p \<or> cur_type p = OYL_TOK_FLOW_ENTRY \<or> cur_type p = OYL_TOK_FLOW_MAP_START)
     | ST_FLOW_MAP_VALUE \<Rightarrow> at ST_FLOW_MAP_VALUE s p
     | ST_FLOW_MAP_SEP \<Rightarrow> at ST_FLOW_MAP_SEP s p
     | ST_FLOW_MAP_END \<Rightarrow> at ST_FLOW_MAP_SEP s p
     | ST_FLOW_NODE \<Rightarrow> waits s p \<and> pa_have_token p
     | ST_EAGER_DRAIN \<Rightarrow> True
     | ST_DONE \<Rightarrow> s = [S_ENDED]
     | _ \<Rightarrow> False)"

section \<open>Within a step\<close>

text \<open>What the lookahead, the properties and the caches leave as it was.\<close>

definition view where
  "view p = (pa_out_buf p, pa_frames p, pa_node_return p, pa_state p, pa_oom p, pa_doc_open p, pa_saved_node p,
     pa_max_events p, pa_events_delivered p, pa_out_cursor p)"

lemma viewD:
  assumes "view q = view p"
  shows "pa_out_buf q = pa_out_buf p" "pa_frames q = pa_frames p" "pa_node_return q = pa_node_return p"
    "pa_state q = pa_state p" "pa_oom q = pa_oom p" "pa_doc_open q = pa_doc_open p" "pa_saved_node q = pa_saved_node p"
    "pa_max_events q = pa_max_events p" "pa_events_delivered q = pa_events_delivered p" "pa_out_cursor q = pa_out_cursor p"
  using assms by (simp_all add: view_def)

definition within_limit :: "int \<Rightarrow> oyl_event list \<Rightarrow> oyl_parser \<Rightarrow> bool" where
  "within_limit me es p \<longleftrightarrow> pa_events_delivered p = int (length es) \<and> pa_out_cursor p = 0 \<and>
     pa_max_events p = me \<and>
     (me > 0 \<longrightarrow> int (length es) + int (length (pa_out_buf p)) \<le> me)"

text \<open>
  With the event limit \<open>me\<close>, after the events \<open>es\<close>, delivered before, and at most \<open>n\<close> events of this step the acceptor has the stack \<open>s\<close>,
  unless the event limit was met. The buffer has the events of this step.
\<close>

definition on :: "int \<Rightarrow> oyl_event list \<Rightarrow> slot list \<Rightarrow> nat \<Rightarrow> oyl_parser \<Rightarrow> bool" where
  "on me es s n p \<longleftrightarrow> length (pa_out_buf p) \<le> n \<and> within_limit me es p \<and> pa_scan_error p = OYL_OK \<and>
     (after (es @ pa_out_buf p) = Some s \<or>
      pa_oom p \<and> inc_limit p \<and> after (es @ pa_out_buf p) \<noteq> None)"

text \<open>A scan has failed: what is queued later is dropped.\<close>

definition cut_ok :: "int \<Rightarrow> oyl_event list \<Rightarrow> oyl_parser \<Rightarrow> bool" where
  "cut_ok me es p \<longleftrightarrow> pa_scan_error p \<noteq> OYL_OK \<and> pa_scan_error_out p \<le> length (pa_out_buf p) \<and> within_limit me es p \<and>
     after (es @ take (pa_scan_error_out p) (pa_out_buf p)) \<noteq> None"

text \<open>The result of a step.\<close>

definition stepped :: "int \<Rightarrow> oyl_event list \<Rightarrow> oyl_status \<Rightarrow> oyl_parser \<Rightarrow> bool" where
  "stepped me es st p \<longleftrightarrow>
     (if pa_scan_error p \<noteq> OYL_OK then cut_ok me es p
      else st = OYL_OK \<longrightarrow> within_limit me es p \<and> after (es @ pa_out_buf p) \<noteq> None \<and>
        (pa_oom p \<or> (\<exists>s. after (es @ pa_out_buf p) = Some s \<and> fits s p)))"

definition step_ok :: "int \<Rightarrow> oyl_event list \<Rightarrow> parse_result \<Rightarrow> bool" where
  "step_ok me es r \<longleftrightarrow> (\<forall>st q. r = Some (st, q) \<longrightarrow> stepped me es st q)"

lemma step_ok_fail [simp]: "pa_scan_error p = OYL_OK \<Longrightarrow> step_ok me es (fail_with p msg)"
  by (simp add: step_ok_def stepped_def fail_with_def PARSE_ERROR_def)

lemma step_ok_ok: "on me es s n p \<Longrightarrow> (\<not> pa_oom p \<Longrightarrow> fits s p) \<Longrightarrow> step_ok me es (ok p)"
  by (auto simp: step_ok_def stepped_def ok_def on_def)

lemma step_ok_cut: "cut_ok me es p \<Longrightarrow> step_ok me es (Some (st, p))"
  by (simp add: step_ok_def stepped_def cut_ok_def)

lemma step_ok_if: "(b \<Longrightarrow> step_ok me es x) \<Longrightarrow> (\<not> b \<Longrightarrow> step_ok me es y) \<Longrightarrow> step_ok me es (if b then x else y)"
  by simp

lemma step_ok_unless: "\<not> pa_oom p \<Longrightarrow> step_ok me es (k p) \<Longrightarrow> step_ok me es (unless_oom p k)"
  by (simp add: unless_oom_def)

text \<open>Selectors after the operations.\<close>

lemma hit_limit_simps [simp]:
  "pa_out_buf (hit_limit p m) = pa_out_buf p" "pa_frames (hit_limit p m) = pa_frames p"
  "pa_node_return (hit_limit p m) = pa_node_return p" "pa_state (hit_limit p m) = pa_state p"
  "pa_doc_open (hit_limit p m) = pa_doc_open p" "pa_saved_node (hit_limit p m) = pa_saved_node p"
  "pa_scan_error (hit_limit p m) = pa_scan_error p" "pa_scan_error_out (hit_limit p m) = pa_scan_error_out p"
  "pa_max_events (hit_limit p m) = pa_max_events p" "pa_events_delivered (hit_limit p m) = pa_events_delivered p"
  "pa_out_cursor (hit_limit p m) = pa_out_cursor p" "pa_have_token (hit_limit p m) = pa_have_token p" "pa_current (hit_limit p m) = pa_current p" "pa_oom (hit_limit p m)"
  by (simp_all add: hit_limit_def stop_with_def Let_def)

lemma inc_emit_simps [simp]:
  "pa_frames (inc_emit p e) = pa_frames p"
  "pa_node_return (inc_emit p e) = pa_node_return p" "pa_state (inc_emit p e) = pa_state p"
  "pa_doc_open (inc_emit p e) = pa_doc_open p" "pa_saved_node (inc_emit p e) = pa_saved_node p"
  "pa_scan_error (inc_emit p e) = pa_scan_error p" "pa_scan_error_out (inc_emit p e) = pa_scan_error_out p"
  "pa_max_events (inc_emit p e) = pa_max_events p" "pa_events_delivered (inc_emit p e) = pa_events_delivered p"
  "pa_out_cursor (inc_emit p e) = pa_out_cursor p" "pa_have_token (inc_emit p e) = pa_have_token p" "pa_current (inc_emit p e) = pa_current p"
  by (simp_all add: inc_emit_def)

lemma emit_on:
  assumes "on me es s n p" and "accept s (evt_type e) = Some t" and "n < 8"
  shows "on me es t (Suc n) (inc_emit p e)"
proof (cases "inc_limit p")
  case True
  then have "inc_limit (hit_limit p m)" for m by (simp add: inc_limit_def)
  with True assms(1) show ?thesis by (auto simp: on_def inc_emit_def within_limit_def)
next
  case False
  with assms(1) have s: "after (es @ pa_out_buf p) = Some s" by (simp add: on_def)
  have "after ((es @ pa_out_buf p) @ [e]) = Some t" using accepts_append [of "[S_START]" "es @ pa_out_buf p" "[e]"] s assms(2) by simp
  moreover have "inc_emit p e = p\<lparr>pa_out_buf := pa_out_buf p @ [e]\<rparr>" using False assms(1,3) by (simp add: inc_emit_def on_def)
  ultimately show ?thesis using False assms(1) by (auto simp: on_def within_limit_def inc_limit_def)
qed

lemma emit_cut: "cut_ok me es p \<Longrightarrow> cut_ok me es (inc_emit p e)"
  by (auto simp: cut_ok_def inc_emit_def within_limit_def inc_limit_def)

text \<open>Updates that matter to neither.\<close>

lemma on_simps [simp]:
  "on me es s n (p\<lparr>pa_state := st\<rparr>) = on me es s n p" "on me es s n (p\<lparr>pa_node_return := st\<rparr>) = on me es s n p"
  "on me es s n (p\<lparr>pa_doc_open := b\<rparr>) = on me es s n p" "on me es s n (p\<lparr>pa_frames := fs\<rparr>) = on me es s n p"
  "on me es s n (p\<lparr>pa_have_token := b\<rparr>) = on me es s n p" "on me es s n (p\<lparr>pa_saved_node := e\<rparr>) = on me es s n p"
  "on me es s n (p\<lparr>pa_saved_node_col := c\<rparr>) = on me es s n p" "on me es s n (p\<lparr>pa_have_saved_node := b\<rparr>) = on me es s n p"
  "on me es s n (p\<lparr>pa_stream_ended := b\<rparr>) = on me es s n p" "on me es s n (p\<lparr>pa_doc_start_line := l\<rparr>) = on me es s n p"
  "on me es s n (p\<lparr>pa_value_colon_line := l\<rparr>) = on me es s n p" "on me es s n (p\<lparr>pa_value_colon_starts_line := b\<rparr>) = on me es s n p"
  "on me es s n (p\<lparr>pa_mem := m\<rparr>) = on me es s n p" "on me es s n (p\<lparr>pa_frame_cap := l\<rparr>) = on me es s n p"
  by (simp_all add: on_def within_limit_def inc_limit_def)

lemma cut_simps [simp]:
  "cut_ok me es (p\<lparr>pa_state := st\<rparr>) = cut_ok me es p" "cut_ok me es (p\<lparr>pa_node_return := st\<rparr>) = cut_ok me es p"
  "cut_ok me es (p\<lparr>pa_doc_open := b\<rparr>) = cut_ok me es p" "cut_ok me es (p\<lparr>pa_frames := fs\<rparr>) = cut_ok me es p"
  "cut_ok me es (p\<lparr>pa_have_token := b\<rparr>) = cut_ok me es p" "cut_ok me es (p\<lparr>pa_saved_node := e\<rparr>) = cut_ok me es p"
  "cut_ok me es (p\<lparr>pa_saved_node_col := c\<rparr>) = cut_ok me es p" "cut_ok me es (p\<lparr>pa_have_saved_node := b\<rparr>) = cut_ok me es p"
  "cut_ok me es (p\<lparr>pa_stream_ended := b\<rparr>) = cut_ok me es p" "cut_ok me es (p\<lparr>pa_doc_start_line := l\<rparr>) = cut_ok me es p"
  "cut_ok me es (p\<lparr>pa_value_colon_line := l\<rparr>) = cut_ok me es p" "cut_ok me es (p\<lparr>pa_value_colon_starts_line := b\<rparr>) = cut_ok me es p"
  by (simp_all add: cut_ok_def within_limit_def)

text \<open>Looking ahead: a token, or a failed scan with the token before as the current one.\<close>

definition same :: "oyl_parser \<Rightarrow> oyl_parser \<Rightarrow> bool" where
  "same p q \<longleftrightarrow> view q = view p \<and> (pa_have_token p \<longrightarrow> pa_have_token q \<and> pa_current q = pa_current p)"

lemma peek_same:
  assumes "peek_token p = Some (st, q)"
  shows "view q = view p" and "pa_have_token p \<Longrightarrow> q = p \<and> st = OYL_OK"
    and "st = OYL_OK \<Longrightarrow> pa_have_token q \<and> pa_scan_error q = pa_scan_error p \<and> pa_scan_error_out q = pa_scan_error_out p"
    and "st \<noteq> OYL_OK \<Longrightarrow> pa_current q = pa_current p \<and> \<not> pa_have_token q \<and>
      pa_scan_error q \<noteq> OYL_OK \<and> pa_scan_error_out q = length (pa_out_buf p)"
  using assms token_failure
  by (auto simp: peek_token_def view_def scan_failure_def Let_def split: if_split_asm option.splits sum.splits prod.splits)

lemma on_view: "view q = view p \<Longrightarrow> pa_scan_error q = pa_scan_error p \<Longrightarrow> on me es s n q = on me es s n p"
  using viewD [of q p] by (simp add: on_def within_limit_def inc_limit_def)

lemma on_accepted: "on me es s n p \<Longrightarrow> after (es @ pa_out_buf p) \<noteq> None"
  by (auto simp: on_def)

lemma cut_of_on:
  assumes "on me es s n p" and "view q = view p" and "pa_scan_error q \<noteq> OYL_OK" and "pa_scan_error_out q = length (pa_out_buf p)"
  shows "cut_ok me es q"
proof -
  have "after (es @ take (pa_scan_error_out q) (pa_out_buf q)) \<noteq> None"
    using on_accepted [OF assms(1)] assms(4) viewD [OF assms(2)] by simp
  then show ?thesis using assms(1,3,4) viewD [OF assms(2)] by (simp add: cut_ok_def on_def within_limit_def)
qed

definition kept :: "oyl_parser \<Rightarrow> oyl_parser \<Rightarrow> bool" where
  "kept p q \<longleftrightarrow> pa_frames q = pa_frames p \<and> pa_node_return q = pa_node_return p \<and> pa_state q = pa_state p \<and>
     pa_oom q = pa_oom p \<and> pa_doc_open q = pa_doc_open p \<and> pa_saved_node q = pa_saved_node p"

lemma kept_view: "view q = view p \<Longrightarrow> kept p q"
  using viewD [of q p] by (simp add: kept_def)

text \<open>The rule for \<open>look\<close>: the token is there; or the scan failed.\<close>

lemma step_ok_look:
  assumes "on me es s n p"
    and "\<And>q. on me es s n q \<Longrightarrow> kept p q \<Longrightarrow> pa_have_token q \<Longrightarrow> (pa_have_token p \<Longrightarrow> q = p) \<Longrightarrow> step_ok me es (k q)"
    and "\<And>q. cut_ok me es q \<Longrightarrow> kept p q \<Longrightarrow> pa_current q = pa_current p \<Longrightarrow> \<not> pa_have_token p \<Longrightarrow>
      after (es @ pa_out_buf q) \<noteq> None \<Longrightarrow> step_ok me es (k q)"
  shows "step_ok me es (look p k)"
proof (cases "peek_token p")
  case (Some r)
  obtain st q where r: "peek_token p = Some (st, q)" using Some by (cases r) auto
  note peek = peek_same [OF r]
  have "step_ok me es (k q)"
  proof (cases "st = OYL_OK")
    case True
    with peek assms(1) show ?thesis by (intro assms(2)) (simp_all add: on_view [OF peek(1)] kept_view [OF peek(1)])
  next
    case False
    then have "cut_ok me es q" using cut_of_on [OF assms(1) peek(1)] peek(4) by blast
    moreover have "after (es @ pa_out_buf q) \<noteq> None" using on_accepted [OF assms(1)] viewD [OF peek(1)] by simp
    ultimately show ?thesis using peek False kept_view by (intro assms(3)) auto
  qed
  then show ?thesis by (simp add: look_def r)
qed (simp add: look_def step_ok_def)

lemma step_ok_peeked:
  assumes "on me es s n p"
    and "\<And>q. on me es s n q \<Longrightarrow> kept p q \<Longrightarrow> pa_have_token q \<Longrightarrow> (pa_have_token p \<Longrightarrow> q = p) \<Longrightarrow> step_ok me es (k q)"
  shows "step_ok me es (peeked p k)"
proof (cases "peek_token p")
  case (Some r)
  obtain st q where r: "peek_token p = Some (st, q)" using Some by (cases r) auto
  note peek = peek_same [OF r]
  show ?thesis
  proof (cases "st = OYL_OK")
    case True
    with peek assms(1) have "step_ok me es (k q)" by (intro assms(2)) (simp_all add: on_view [OF peek(1)] kept_view [OF peek(1)])
    with True show ?thesis by (simp add: peeked_def then_ok_def r)
  next
    case False
    then have "cut_ok me es q" using cut_of_on [OF assms(1) peek(1)] peek(4) by blast
    with False show ?thesis by (simp add: peeked_def then_ok_def r step_ok_cut)
  qed
qed (simp add: peeked_def then_ok_def step_ok_def)

text \<open>After a failed scan every further failure is dropped too, if nothing wrong was queued before it.\<close>

lemma cut_look:
  assumes "cut_ok me es p" and "after (es @ pa_out_buf p) \<noteq> None"
    and "\<And>q. cut_ok me es q \<Longrightarrow> kept p q \<Longrightarrow> after (es @ pa_out_buf q) \<noteq> None \<Longrightarrow> step_ok me es (k q)"
  shows "step_ok me es (look p k)"
proof (cases "peek_token p")
  case (Some r)
  obtain st q where r: "peek_token p = Some (st, q)" using Some by (cases r) auto
  note peek = peek_same [OF r]
  have "cut_ok me es q"
    using assms(1,2) peek(3,4) viewD [OF peek(1)] by (cases "st = OYL_OK") (simp_all add: cut_ok_def within_limit_def)
  then have "step_ok me es (k q)" using assms(2) peek(1) viewD [OF peek(1)] kept_view [OF peek(1)] by (intro assms(3)) simp_all
  then show ?thesis by (simp add: look_def r)
qed (simp add: look_def step_ok_def)

lemma cut_peeked:
  assumes "cut_ok me es p" and "after (es @ pa_out_buf p) \<noteq> None"
    and "\<And>q. cut_ok me es q \<Longrightarrow> step_ok me es (k q)"
  shows "step_ok me es (peeked p k)"
proof (cases "peek_token p")
  case (Some r)
  obtain st q where r: "peek_token p = Some (st, q)" using Some by (cases r) auto
  note peek = peek_same [OF r]
  have "cut_ok me es q"
    using assms(1,2) peek(3,4) viewD [OF peek(1)] by (cases "st = OYL_OK") (simp_all add: cut_ok_def within_limit_def)
  then show ?thesis using assms(3) r by (auto simp: peeked_def then_ok_def step_ok_cut)
qed (simp add: peeked_def then_ok_def step_ok_def)

section \<open>Steps of the stream\<close>

text \<open>Between two steps.\<close>

definition entry :: "int \<Rightarrow> oyl_event list \<Rightarrow> oyl_parser \<Rightarrow> bool" where
  "entry me es p \<longleftrightarrow> pa_out_buf p = [] \<and> \<not> pa_oom p \<and> (\<exists>s. on me es s 0 p \<and> fits s p)"

named_theorems unfold_step
lemmas [unfold_step] = to_state_def node_then_def consume_token_def Let_def inc_empty_def

lemma cut_done: "cut_ok me es p \<Longrightarrow> step_ok me es (ok p)" "cut_ok me es p \<Longrightarrow> step_ok me es (fail_with p m)"
  by (simp_all add: ok_def step_ok_cut fail_with_def PARSE_ERROR_def) (simp add: cut_ok_def within_limit_def step_ok_cut)

text \<open>A step that ends with an event.\<close>

lemma emitted:
  assumes "on me es s n p" and "accept s (evt_type e) = Some t" and "n < 8"
    and "on me es t (Suc n) (inc_emit p e) \<Longrightarrow> step_ok me es (k (inc_emit p e))"
  shows "step_ok me es (k (inc_emit p e))"
  using emit_on [OF assms(1-3)] assms(4) by blast

lemma event_types [simp]:
  "evt_type ((event_at t a b)\<lparr>evt_implicit := c\<rparr>) = t" "evt_type ((event_at t a b)\<lparr>evt_flow := c\<rparr>) = t"
  "evt_type ((event_here t p)\<lparr>evt_implicit := c\<rparr>) = t"
  by (simp_all add: event_at_def plain_event_def event_here_def)

lemma st_STREAM_START_ok:
  assumes "entry me es p" and "pa_state p = ST_STREAM_START"
  shows "step_ok me es (st_STREAM_START p)"
proof -
  have p: "on me es [S_START] 0 p" "pa_frames p = []" "\<not> pa_doc_open p"
    using assms by (auto simp: entry_def fits_def)
  show ?thesis unfolding st_STREAM_START_def unfold_step
    by (rule step_ok_look [OF p(1)], rule step_ok_ok [where s = "[S_STREAM]" and n = 1])
      (auto simp: fits_def between_documents_def p(2,3) kept_def cut_done emit_cut intro!: emit_on [where s = "[S_START]" and n = 0, simplified])
qed

lemmas step_simps = fits_def between_documents_def kept_def cut_done emit_cut

lemma step_ok_failed: "on me es s n p \<Longrightarrow> step_ok me es (fail_with p m)"
  by (simp add: on_def)

lemma st_STREAM_DOC_LOOP_ok:
  assumes "entry me es p" and "pa_state p = ST_STREAM_DOC_LOOP"
  shows "step_ok me es (st_STREAM_DOC_LOOP p)"
proof -
  have p: "on me es [S_STREAM] 0 p" "pa_frames p = []" "\<not> pa_doc_open p"
    using assms by (auto simp: entry_def fits_def between_documents_def)
  show ?thesis unfolding st_STREAM_DOC_LOOP_def unfold_step
    by (rule step_ok_look [OF p(1)], rule step_ok_ok [where s = "[S_STREAM]" and n = 0])
      (auto simp: step_simps p(2,3))
qed

lemma st_STREAM_END_ok:
  assumes "entry me es p" and "pa_state p = ST_STREAM_END"
  shows "step_ok me es (st_STREAM_END p)"
proof -
  have p: "on me es [S_STREAM] 0 p" using assms by (auto simp: entry_def fits_def between_documents_def)
  show ?thesis unfolding st_STREAM_END_def unfold_step
    by (rule step_ok_look [OF p(1)], rule step_ok_ok [where s = "[S_ENDED]" and n = "Suc 0"])
      (auto simp: step_simps intro!: emit_on [where s = "[S_STREAM]"])
qed

lemma inc_checkpoint_view: "view (inc_checkpoint p) = view p \<and> pa_scan_error (inc_checkpoint p) = pa_scan_error p \<and>
    pa_scan_error_out (inc_checkpoint p) = pa_scan_error_out p"
  by (auto simp: inc_checkpoint_def new_scanner_def view_def Let_def split: option.split prod.split)

lemma view_on: "view q = view p \<Longrightarrow> pa_scan_error q = pa_scan_error p \<Longrightarrow> on me es s n p \<Longrightarrow> on me es s n q \<and> kept p q"
  using on_view kept_view by blast

lemma view_cut:
  "view q = view p \<Longrightarrow> pa_scan_error q = pa_scan_error p \<Longrightarrow> pa_scan_error_out q = pa_scan_error_out p \<Longrightarrow>
    cut_ok me es p \<Longrightarrow> cut_ok me es q"
  using viewD [of q p] by (simp add: cut_ok_def within_limit_def)

lemma st_DOC_DIRECTIVES_ok:
  assumes "entry me es p" and "pa_state p = ST_DOC_DIRECTIVES"
  shows "step_ok me es (st_DOC_DIRECTIVES p)"
proof -
  have p: "on me es [S_STREAM] 0 p" "pa_frames p = []" "\<not> pa_doc_open p"
    using assms by (auto simp: entry_def fits_def between_documents_def)
  have check: "on me es [S_STREAM] 0 (inc_checkpoint q) \<and> kept q (inc_checkpoint q)" if "on me es [S_STREAM] 0 q" for q
    using inc_checkpoint_view [of q] that by (intro view_on) auto
  have cut: "cut_ok me es (inc_checkpoint q)" if "cut_ok me es q" for q
    using inc_checkpoint_view [of q] by (intro view_cut [OF _ _ _ that]) auto
  have next_state: "step_ok me es (ok (c\<lparr>pa_state := st\<rparr>)) \<and> step_ok me es (ok (c\<lparr>pa_have_token := b, pa_state := st\<rparr>))"
    if "on me es [S_STREAM] 0 q" "kept p q" "c = inc_checkpoint q"
      "st \<in> {ST_EAGER_DRAIN, ST_DOC_START_EXPLICIT, ST_STREAM_DOC_LOOP, ST_STREAM_END, ST_DOC_START_IMPLICIT}" for q c st b
    using check [OF that(1)] that p(2,3)
    by (intro conjI step_ok_ok [where s = "[S_STREAM]" and n = 0]) (auto simp: step_simps)
  show ?thesis unfolding st_DOC_DIRECTIVES_def unfold_step
    by (rule step_ok_look [OF p(1)]; intro step_ok_if) (simp_all add: next_state cut cut_done)
qed

lemma st_DOC_START_EXPLICIT_ok:
  assumes "entry me es p" and "pa_state p = ST_DOC_START_EXPLICIT"
  shows "step_ok me es (st_DOC_START_EXPLICIT p)"
proof -
  have p: "on me es [S_STREAM] 0 p" "pa_frames p = []" "\<not> pa_doc_open p"
    using assms by (auto simp: entry_def fits_def between_documents_def)
  show ?thesis unfolding st_DOC_START_EXPLICIT_def inc_close_document_def unfold_step if_not_P [OF p(3)]
    by (rule step_ok_look [OF p(1)], rule step_ok_ok [where s = "[S_DOC, S_STREAM]" and n = "Suc 0"])
      (auto simp: step_simps p(2) intro!: emit_on [where s = "[S_STREAM]"])
qed

lemma st_DOC_START_IMPLICIT_ok:
  assumes "entry me es p" and "pa_state p = ST_DOC_START_IMPLICIT"
  shows "step_ok me es (st_DOC_START_IMPLICIT p)"
proof -
  have p: "on me es [S_STREAM] 0 p" "pa_frames p = []" "\<not> pa_doc_open p"
    using assms by (auto simp: entry_def fits_def between_documents_def)
  show ?thesis unfolding st_DOC_START_IMPLICIT_def inc_close_document_def unfold_step if_not_P [OF p(3)]
    by (rule step_ok_look [OF p(1)], rule step_ok_ok [where s = "[S_DOC, S_STREAM]" and n = "Suc 0"])
      (auto simp: step_simps p(2) intro!: emit_on [where s = "[S_STREAM]"])
qed

lemma emit_on2:
  "on me es s n p \<Longrightarrow> n < 7 \<Longrightarrow> accept s (evt_type e) = Some t \<Longrightarrow> accept t (evt_type f) = Some u \<Longrightarrow>
    on me es u (Suc (Suc n)) (inc_emit (inc_emit p e) f)"
  by (rule emit_on [OF emit_on]) simp_all

lemma st_DOC_CONTENT_ok:
  assumes "entry me es p" and "pa_state p = ST_DOC_CONTENT"
  shows "step_ok me es (st_DOC_CONTENT p)"
proof -
  have p: "on me es [S_DOC, S_STREAM] 0 p" "pa_frames p = []"
    using assms by (auto simp: entry_def fits_def)
  have empty: "step_ok me es (ok ((inc_emit (inc_emit q e) f)\<lparr>pa_doc_open := False, pa_state := st\<rparr>))"
    if "on me es [S_DOC, S_STREAM] 0 q" "kept p q" "st = ST_STREAM_DOC_LOOP \<or> st = ST_STREAM_END"
      "evt_type e = OYL_EVT_SCALAR" "evt_type f = OYL_EVT_DOC_END" for q e f st
    using that p(2)
    by (intro step_ok_ok [where s = "[S_STREAM]" and n = "Suc (Suc 0)"])
      (auto simp: step_simps intro!: emit_on2 [where s = "[S_DOC, S_STREAM]"])
  have root: "step_ok me es (ok ((inc_emit q e)\<lparr>pa_state := ST_DOC_END_EXPLICIT\<rparr>))"
    if "on me es [S_DOC, S_STREAM] 0 q" "kept p q" "evt_type e = OYL_EVT_SCALAR" for q e
    using that p(2)
    by (intro step_ok_ok [where s = "[S_ROOT, S_STREAM]" and n = "Suc 0"])
      (auto simp: step_simps intro!: emit_on [where s = "[S_DOC, S_STREAM]"])
  have node: "step_ok me es (ok (q\<lparr>pa_node_return := ST_DOC_END_EXPLICIT, pa_state := ST_BLOCK_NODE\<rparr>))"
    if "on me es [S_DOC, S_STREAM] 0 q" "kept p q" "pa_have_token q" for q
    using that p(2) by (intro step_ok_ok [where s = "[S_DOC, S_STREAM]" and n = 0]) (auto simp: step_simps waits_def)
  show ?thesis unfolding st_DOC_CONTENT_def unfold_step
    by (rule step_ok_look [OF p(1)]; intro step_ok_if) (simp_all add: empty root node cut_done emit_cut)
qed

text \<open>The end of a document, also after the end of its root collection.\<close>

lemma inc_end_document_ok:
  assumes "on me es [S_ROOT, S_STREAM] n p" and "pa_frames p = []" and "n < 8"
  shows "step_ok me es (inc_end_document p)"
proof -
  have ended: "step_ok me es (ok ((inc_emit q e)\<lparr>pa_doc_open := False, pa_state := ST_STREAM_DOC_LOOP\<rparr>))"
    if "on me es [S_ROOT, S_STREAM] n q" "pa_frames q = pa_frames p" "evt_type e = OYL_EVT_DOC_END" for q e
    using that assms(2,3)
    by (intro step_ok_ok [where s = "[S_STREAM]" and n = "Suc n"])
      (auto simp: step_simps intro!: emit_on [where s = "[S_ROOT, S_STREAM]"])
  show ?thesis unfolding inc_end_document_def unfold_step
    by (rule step_ok_peeked [OF assms(1)]; intro step_ok_if; (rule step_ok_failed, assumption)?; rule ended)
      (simp_all add: kept_def)
qed

section \<open>Frames\<close>

lemma withhold_take: "\<exists>k. withhold_start out c n = take k out"
proof (induction n)
  case 0
  show ?case by (intro exI [of _ "length out"]) simp
next
  case (Suc n)
  then show ?case by (auto intro: exI [of _ "length out"])
qed

abbreviation pushed :: "oyl_parser \<Rightarrow> ctx_type \<Rightarrow> int \<Rightarrow> parser_state \<Rightarrow> mem \<Rightarrow> nat \<Rightarrow> oyl_parser" where
  "pushed p t i r m c \<equiv> p\<lparr>pa_mem := m, pa_frame_cap := c,
     pa_frames := \<lparr>fr_type = t, fr_indent = i, fr_return_state = r\<rparr> # pa_frames p\<rparr>"

lemma push_cases:
  "(\<exists>m c. inc_push_frame p t i r = pushed p t i r m c) \<or>
   (\<exists>q. inc_push_frame p t i r = q \<and> pa_oom q \<and> pa_scan_error q = pa_scan_error p \<and> pa_max_events q = pa_max_events p \<and>
     pa_events_delivered q = pa_events_delivered p \<and> pa_out_cursor q = pa_out_cursor p \<and>
     (pa_out_buf q = pa_out_buf p \<or> pa_out_buf q = withhold_start (pa_out_buf p) (pa_out_cursor p) (length (pa_out_buf p))))"
proof -
  let ?new = "\<lparr>fr_type = t, fr_indent = i, fr_return_state = r\<rparr> # pa_frames p"
  obtain b m where m: "mem_take (pa_mem p) = (b, m)" by (cases "mem_take (pa_mem p)")
  have "p\<lparr>pa_frames := ?new\<rparr> = pushed p t i r (pa_mem p) (pa_frame_cap p)" by simp
  then have kept_cap: "\<exists>m c. p\<lparr>pa_frames := ?new\<rparr> = pushed p t i r m c" by blast
  have grown: "\<exists>m' c'. p\<lparr>pa_mem := m, pa_frame_cap := c, pa_frames := ?new\<rparr> = pushed p t i r m' c'" for c
    by blast
  show ?thesis
    using kept_cap grown unfolding inc_push_frame_def m Let_def
    by (simp add: stop_with_def)
qed

lemma push_done:
  assumes "on me es s n p" and "\<And>m c. \<not> pa_oom p \<Longrightarrow> fits s ((pushed p t i r m c)\<lparr>pa_state := st\<rparr>)"
  shows "step_ok me es (ok ((inc_push_frame p t i r)\<lparr>pa_state := st\<rparr>))"
  using push_cases [of p t i r]
proof (elim disjE exE conjE)
  fix m c
  assume "inc_push_frame p t i r = pushed p t i r m c"
  then show ?thesis using assms by (simp only:) (rule step_ok_ok [of me es s n], simp_all)
next
  fix q
  assume q: "inc_push_frame p t i r = q" "pa_oom q" "pa_scan_error q = pa_scan_error p" "pa_max_events q = pa_max_events p"
    "pa_events_delivered q = pa_events_delivered p" "pa_out_cursor q = pa_out_cursor p"
      "pa_out_buf q = pa_out_buf p"
  then show ?thesis using assms(1) by (simp add: step_ok_def stepped_def ok_def on_def within_limit_def) auto
next
  fix q
  assume q: "inc_push_frame p t i r = q" "pa_oom q" "pa_scan_error q = pa_scan_error p" "pa_max_events q = pa_max_events p"
    "pa_events_delivered q = pa_events_delivered p" "pa_out_cursor q = pa_out_cursor p"
    "pa_out_buf q = withhold_start (pa_out_buf p) (pa_out_cursor p) (length (pa_out_buf p))"
  obtain k where k: "pa_out_buf q = take k (pa_out_buf p)" using withhold_take q(7) by metis
  have "after (es @ take k (pa_out_buf p)) \<noteq> None" using accepts_take [OF on_accepted [OF assms(1)]] .
  then show ?thesis using assms(1) q(1-6) k by (auto simp: step_ok_def stepped_def ok_def on_def within_limit_def)
qed

text \<open>The lookahead for keys changes its cache only.\<close>

definition whole where
  "whole p = (view p, pa_scan_error p, pa_scan_error_out p, pa_have_token p, pa_current p)"

lemma whole_simps [simp]:
  "whole (p\<lparr>pa_mem := m\<rparr>) = whole p" "whole (p\<lparr>pa_fk_stack_cap := c\<rparr>) = whole p" "whole (p\<lparr>pa_fk_keys_cap := c\<rparr>) = whole p"
  "whole (p\<lparr>pa_fk_keys := ks\<rparr>) = whole p" "whole (p\<lparr>pa_fk_lo := c\<rparr>) = whole p" "whole (p\<lparr>pa_fk_hi := c\<rparr>) = whole p"
  "whole (p\<lparr>pa_fk_valid := b\<rparr>) = whole p"
  by (simp_all add: whole_def view_def)

lemma fk_open_whole: "fk_open p stack i = (r, q) \<Longrightarrow> whole q = whole p \<and> (\<forall>q' st. r = Some (q', st) \<longrightarrow> whole q' = whole p)"
  by (auto simp: fk_open_def Let_def split: if_split_asm prod.splits)

lemma fk_add_key_whole: "fk_add_key p i = (b, q) \<Longrightarrow> whole q = whole p"
  by (auto simp: fk_add_key_def Let_def split: if_split_asm prod.splits)

lemma fk_stop_at_whole:
  "fk_stop_at p stack qend c i = Inr (q, stack', qend', c') \<Longrightarrow> whole q = whole p"
  "fk_stop_at p stack qend c i = Inl (e, q) \<Longrightarrow> whole q = whole p"
  by (auto simp: fk_stop_at_def Let_def dest!: fk_open_whole fk_add_key_whole
      split: if_split_asm option.splits prod.splits list.splits)

lemma fk_loop_whole: "fk_loop p stack qend c = (e, q) \<Longrightarrow> whole q = whole p"
proof (induction p stack qend c rule: fk_loop.induct)
  case (1 p stack qend c)
  obtain i c1 where n: "fk_next (pa_input p) c = (i, c1)" by fastforce
  show ?case
  proof (cases "i = length (pa_input p)")
    case True
    then show ?thesis using 1(2) n by (simp add: fk_loop.simps [of p])
  next
    case False
    show ?thesis
    proof (cases "fk_stop_at p stack qend c1 i")
      case (Inl r)
      then show ?thesis using 1(2) n False fk_stop_at_whole(2) by (cases r) (simp add: fk_loop.simps [of p])
    next
      case (Inr r)
      obtain p' stack' qend' c' where r: "r = (p', stack', qend', c')" by (cases r)
      have "fk_loop p' stack' qend' c' = (e, q)" using 1(2) n False Inr r by (simp add: fk_loop.simps [of p])
      then have "whole q = whole p'" using 1(1) [OF n [symmetric] refl False Inr r [symmetric] refl refl] by blast
      with fk_stop_at_whole(1) Inr r show ?thesis by auto
    qed
  qed
qed

lemma fk_scan_whole: "fk_scan p i = (b, q) \<Longrightarrow> whole q = whole p"
  by (auto simp: fk_scan_def Let_def dest!: fk_loop_whole split: prod.splits fk_end.splits)

lemma flow_is_block_key_whole: "flow_is_block_key p i = (b, q) \<Longrightarrow> whole q = whole p"
  by (auto simp: flow_is_block_key_def Let_def dest!: fk_scan_whole split: if_split_asm prod.splits option.splits)

lemma wholeD:
  assumes "whole q = whole p"
  shows "on me es s n q = on me es s n p" "kept p q" "pa_have_token q = pa_have_token p" "pa_current q = pa_current p"
    "cut_ok me es q = cut_ok me es p"
proof -
  have v: "view q = view p" "pa_scan_error q = pa_scan_error p" "pa_scan_error_out q = pa_scan_error_out p"
    and t: "pa_have_token q = pa_have_token p" "pa_current q = pa_current p"
    using assms by (simp_all add: whole_def)
  show "on me es s n q = on me es s n p" "kept p q" using on_view [OF v(1,2)] kept_view [OF v(1)] by blast+
  show "pa_have_token q = pa_have_token p" "pa_current q = pa_current p" using t .
  show "cut_ok me es q = cut_ok me es p" using view_cut [OF v] view_cut [OF v [symmetric]] by blast
qed


section \<open>Block nodes\<close>

lemma waitsE:
  assumes "waits s p"
  obtains t where "chain (pa_node_return p) (pa_frames p) = Some t" "filled s = Some t"
  using assms by (auto simp: waits_def)

text \<open>After a node the parser is where the node returns to.\<close>

lemma chain_fits:
  assumes "chain ret (pa_frames p) = Some s" and "pa_state p = ret"
  shows "fits s p"
proof -
  have "\<exists>f fs. pa_frames p = f # fs \<and> part ret (fr_type f) \<noteq> None" if "ret \<noteq> ST_DOC_END_EXPLICIT"
    using assms(1) that by (cases "pa_frames p") (auto split: option.splits)
  then show ?thesis using assms by (cases ret) (auto simp: fits_def part_def)
qed

lemma node_done_ok:
  assumes "on me es s n p" and "chain (pa_node_return p) (pa_frames p) = Some s"
  shows "step_ok me es (node_done p)"
  unfolding node_done_def to_state_def
  by (rule step_ok_ok [of me es s n]) (use assms in \<open>auto intro: chain_fits\<close>)

lemma waits_kept: "kept p q \<Longrightarrow> waits s q = waits s p"
  by (simp add: kept_def waits_def)

lemma st_BLOCK_NODE_ok:
  assumes "entry me es p" and "pa_state p = ST_BLOCK_NODE"
  shows "step_ok me es (st_BLOCK_NODE p)"
proof -
  obtain s where p: "on me es s 0 p" "waits s p" "pa_have_token p" using assms by (auto simp: entry_def fits_def)
  have flow: "step_ok me es (inc_flow_in_block p)"
  proof -
    obtain b q where q: "flow_is_block_key p (mk_offset (cur_start p)) = (b, q)" by fastforce
    note w = wholeD [OF flow_is_block_key_whole [OF q]]
    have "step_ok me es (ok (q\<lparr>pa_state := if b then ST_EAGER_DRAIN else ST_FLOW_NODE\<rparr>))"
      using w(1-3) p waits_kept [OF w(2)] by (intro step_ok_ok [of me es s 0]) (auto simp: fits_def waits_def)
    moreover have "step_ok me es (ok (p\<lparr>pa_state := ST_FLOW_NODE\<rparr>))"
      using p by (intro step_ok_ok [of me es s 0]) (auto simp: fits_def waits_def)
    ultimately show ?thesis by (simp add: inc_flow_in_block_def q unfold_step)
  qed
  have next_state: "step_ok me es (ok (p\<lparr>pa_state := st\<rparr>))"
    if "st \<in> {ST_EAGER_DRAIN, ST_BLOCK_NODE_ALIAS, ST_BLOCK_NODE_SEQ, ST_BLOCK_NODE_EXPLICIT_KEY,
      ST_BLOCK_NODE_BARE_VALUE, ST_BLOCK_NODE_SCALAR, ST_BLOCK_NODE_EMPTY}" for st
    using that p by (intro step_ok_ok [of me es s 0]) (auto simp: fits_def waits_def)
  have "step_ok me es (st_BLOCK_NODE p)" if "peek_token p = Some (OYL_OK, p)"
    unfolding st_BLOCK_NODE_def look_def that unfold_step
    by (simp add: next_state flow step_ok_failed [OF p(1)])
  then show ?thesis using p(3) by (simp add: peek_token_def)
qed

lemma look_token: "pa_have_token p \<Longrightarrow> look p k = k p" "pa_have_token p \<Longrightarrow> peeked p k = k p"
  by (simp_all add: look_def peek_token_def peeked_def then_ok_def)

lemma node_emitted:
  assumes "on me es s n p" and "n < 8" and "waits s p" and "evt_type e = OYL_EVT_SCALAR \<or> evt_type e = OYL_EVT_ALIAS"
  shows "step_ok me es (node_done (inc_emit p e))"
proof -
  obtain t where t: "chain (pa_node_return p) (pa_frames p) = Some t" "filled s = Some t" using waitsE [OF assms(3)] .
  have "on me es t (Suc n) (inc_emit p e)" using assms(4) t(2) by (intro emit_on [OF assms(1) _ assms(2)]) auto
  then show ?thesis using t(1) by (intro node_done_ok) simp_all
qed

lemma node_done_cut: "cut_ok me es p \<Longrightarrow> step_ok me es (node_done (inc_emit p e))"
  by (simp add: node_done_def to_state_def cut_done emit_cut)

lemma node_or_key_ok:
  assumes "on me es s 0 p" and "waits s p" and "pa_have_token p" and "\<not> pa_oom p"
    and "\<And>q. evt_type (event_of q) = OYL_EVT_SCALAR \<or> evt_type (event_of q) = OYL_EVT_ALIAS"
    and "key_state = ST_BLOCK_NODE_SCALAR_KEY \<or> key_state = ST_BLOCK_NODE_ALIAS_KEY"
  shows "step_ok me es (inc_node_or_key event_of key_state p)"
proof -
  have c: "on me es s 0 (p\<lparr>pa_have_token := False\<rparr>)" using assms(1) by simp
  have key: "step_ok me es (ok (q\<lparr>pa_saved_node := event_of r, pa_saved_node_col := i, pa_have_saved_node := True, pa_state := key_state\<rparr>))"
    if "on me es s 0 q" "kept (p\<lparr>pa_have_token := False\<rparr>) q" "pa_have_token q" for q r i
    using that assms(2,6) assms(5) [of r] by (intro step_ok_ok [of me es s 0]) (auto simp: fits_def kept_def waits_def saved_ok_def)
  have node: "step_ok me es (node_done (inc_emit q (event_of r)))" if "on me es s 0 q" "kept (p\<lparr>pa_have_token := False\<rparr>) q" for q r
    using that assms(2) by (intro node_emitted [OF that(1) _ _ assms(5)]) (auto simp: kept_def waits_def)
  show ?thesis unfolding inc_node_or_key_def look_token(1) [OF assms(3)] unfold_step
    by (rule step_ok_look [OF c]; intro step_ok_if) (simp_all add: key node node_done_cut cut_done)
qed

lemma st_BLOCK_NODE_SCALAR_ok:
  "entry me es p \<Longrightarrow> pa_state p = ST_BLOCK_NODE_SCALAR \<Longrightarrow> step_ok me es (st_BLOCK_NODE_SCALAR p)"
  unfolding st_BLOCK_NODE_SCALAR_def by (auto simp: entry_def fits_def intro: node_or_key_ok)

lemma st_BLOCK_NODE_ALIAS_ok:
  "entry me es p \<Longrightarrow> pa_state p = ST_BLOCK_NODE_ALIAS \<Longrightarrow> step_ok me es (st_BLOCK_NODE_ALIAS p)"
  unfolding st_BLOCK_NODE_ALIAS_def by (auto simp: entry_def fits_def intro: node_or_key_ok)

text \<open>The first key of a mapping, saved before.\<close>

lemma saved_key_ok:
  assumes "on me es s 0 p" and "waits s p" and "pa_have_token p" and "saved_ok p"
  shows "step_ok me es (inc_saved_key p)"
proof -
  obtain t where t: "chain (pa_node_return p) (pa_frames p) = Some t" "filled s = Some t" using waitsE [OF assms(2)] .
  have "on me es (S_VALUE # t) (Suc (Suc 0)) (inc_emit (inc_emit p (event_at OYL_EVT_MAPPING_START a b)) (pa_saved_node p))" for a b
    using assms(4) t(2) by (intro emit_on2 [OF assms(1), where t = "S_KEY # t"]) (auto simp: saved_ok_def)
  then show ?thesis unfolding inc_saved_key_def unfold_step
    using assms(3) t(1) by (simp, intro push_done) (auto simp: fits_def part_def)
qed

lemma st_BLOCK_NODE_SCALAR_KEY_ok:
  "entry me es p \<Longrightarrow> pa_state p = ST_BLOCK_NODE_SCALAR_KEY \<Longrightarrow> step_ok me es (st_BLOCK_NODE_SCALAR_KEY p)"
  unfolding st_BLOCK_NODE_SCALAR_KEY_def by (auto simp: entry_def fits_def intro: saved_key_ok)

lemma st_BLOCK_NODE_ALIAS_KEY_ok:
  "entry me es p \<Longrightarrow> pa_state p = ST_BLOCK_NODE_ALIAS_KEY \<Longrightarrow> step_ok me es (st_BLOCK_NODE_ALIAS_KEY p)"
  unfolding st_BLOCK_NODE_ALIAS_KEY_def by (auto simp: entry_def fits_def intro: saved_key_ok)

lemma st_BLOCK_NODE_EMPTY_ok:
  "entry me es p \<Longrightarrow> pa_state p = ST_BLOCK_NODE_EMPTY \<Longrightarrow> step_ok me es (st_BLOCK_NODE_EMPTY p)"
  unfolding st_BLOCK_NODE_EMPTY_def by (auto simp: entry_def fits_def look_token intro!: node_emitted)

text \<open>A block collection opened at its indicator.\<close>

lemma st_BLOCK_NODE_SEQ_ok:
  assumes "entry me es p" and "pa_state p = ST_BLOCK_NODE_SEQ"
  shows "step_ok me es (st_BLOCK_NODE_SEQ p)"
proof -
  obtain s where p: "on me es s 0 p" "waits s p" "pa_have_token p" using assms by (auto simp: entry_def fits_def)
  obtain t where t: "chain (pa_node_return p) (pa_frames p) = Some t" "filled s = Some t" using waitsE [OF p(2)] .
  have "on me es (S_SEQ # t) (Suc 0) (inc_emit p (event_at OYL_EVT_SEQUENCE_START a b))" for a b
    using t(2) by (intro emit_on [OF p(1)]) auto
  then show ?thesis unfolding st_BLOCK_NODE_SEQ_def inc_open_block_def look_token(1) [OF p(3)] unfold_step
    using t(1) by (intro push_done) (auto simp: fits_def part_def)
qed

lemma st_BLOCK_NODE_EXPLICIT_KEY_ok:
  assumes "entry me es p" and "pa_state p = ST_BLOCK_NODE_EXPLICIT_KEY"
  shows "step_ok me es (st_BLOCK_NODE_EXPLICIT_KEY p)"
proof -
  obtain s where p: "on me es s 0 p" "waits s p" "pa_have_token p" using assms by (auto simp: entry_def fits_def)
  obtain t where t: "chain (pa_node_return p) (pa_frames p) = Some t" "filled s = Some t" using waitsE [OF p(2)] .
  have "on me es (S_KEY # t) (Suc 0) (inc_emit p (event_at OYL_EVT_MAPPING_START a b))" for a b
    using t(2) by (intro emit_on [OF p(1)]) auto
  then show ?thesis unfolding st_BLOCK_NODE_EXPLICIT_KEY_def inc_open_block_def look_token(1) [OF p(3)] unfold_step
    using t(1) by (intro push_done) (auto simp: fits_def part_def)
qed

text \<open>
  The empty key of a mapping that starts with \<open>:\<close> comes after the frame; at the depth limit it is taken for
  a node of what is around the mapping.
\<close>

lemma on_stopped: "pa_oom p \<Longrightarrow> on me es s n p \<Longrightarrow> step_ok me es (ok (p\<lparr>pa_state := st\<rparr>))"
  by (rule step_ok_ok [of me es s n]) simp_all

lemma st_BLOCK_NODE_BARE_VALUE_ok:
  assumes "entry me es p" and "pa_state p = ST_BLOCK_NODE_BARE_VALUE"
  shows "step_ok me es (st_BLOCK_NODE_BARE_VALUE p)"
proof -
  obtain s where p: "on me es s 0 p" "waits s p" "pa_have_token p" and out: "pa_out_buf p = []"
    using assms by (auto simp: entry_def fits_def)
  obtain t where t: "chain (pa_node_return p) (pa_frames p) = Some t" "filled s = Some t" using waitsE [OF p(2)] .
  define b where "b = inc_emit p (event_at OYL_EVT_MAPPING_START (cur_start p) (cur_end p))"
  have b: "on me es (S_KEY # t) (Suc 0) b" unfolding b_def using t(2) by (intro emit_on [OF p(1)]) auto
  have "step_ok me es (ok ((inc_emit q e)\<lparr>pa_state := ST_BLOCK_MAP_VALUE\<rparr>))"
    if q: "q = inc_push_frame b CTX_BLOCK_MAP i (pa_node_return p)" and e: "evt_type e = OYL_EVT_SCALAR" for q e i
    using push_cases [of b CTX_BLOCK_MAP i "pa_node_return p"]
  proof (elim disjE exE conjE)
    fix m c
    assume "inc_push_frame b CTX_BLOCK_MAP i (pa_node_return p) = pushed b CTX_BLOCK_MAP i (pa_node_return p) m c"
    then have q: "q = pushed b CTX_BLOCK_MAP i (pa_node_return p) m c" using q by simp
    have "on me es (S_VALUE # t) (Suc (Suc 0)) (inc_emit q e)" using b e by (intro emit_on) (auto simp: q)
    then show ?thesis using p(3) t(1)
      by (intro step_ok_ok [where s = "S_VALUE # t" and n = "Suc (Suc 0)"]) (simp_all add: fits_def part_def q b_def)
  next
    fix r
    assume r: "inc_push_frame b CTX_BLOCK_MAP i (pa_node_return p) = r" "pa_oom r" "pa_scan_error r = pa_scan_error b"
      "pa_max_events r = pa_max_events b" "pa_events_delivered r = pa_events_delivered b" "pa_out_cursor r = pa_out_cursor b"
      "pa_out_buf r = pa_out_buf b"
    then have "on me es (S_KEY # t) (Suc 0) r" using b by (auto simp: on_def within_limit_def inc_limit_def)
    then have "on me es (S_VALUE # t) (Suc (Suc 0)) (inc_emit r e)" using e by (intro emit_on) auto
    then show ?thesis using r(1,2) q by (intro on_stopped) (auto simp: inc_emit_def)
  next
    fix r
    assume r: "inc_push_frame b CTX_BLOCK_MAP i (pa_node_return p) = r" "pa_oom r" "pa_scan_error r = pa_scan_error b"
      "pa_max_events r = pa_max_events b" "pa_events_delivered r = pa_events_delivered b" "pa_out_cursor r = pa_out_cursor b"
      "pa_out_buf r = withhold_start (pa_out_buf b) (pa_out_cursor b) (length (pa_out_buf b))"
    have "pa_out_buf b = [] \<or> pa_out_buf b = [event_at OYL_EVT_MAPPING_START (cur_start p) (cur_end p)]"
      using out by (auto simp: b_def inc_emit_def)
    then consider "pa_out_buf r = []" | "pa_out_buf r = pa_out_buf b" using r(7) by (auto split: if_split_asm)
    then show ?thesis
    proof cases
      case 1
      then have "on me es s 0 r" using p(1) out r(2-6) b_def by (auto simp: on_def within_limit_def inc_limit_def)
      then have "on me es t (Suc 0) (inc_emit r e)" using e t(2) by (intro emit_on) auto
      then show ?thesis using r(1,2) q by (intro on_stopped) (auto simp: inc_emit_def)
    next
      case 2
      then have "on me es (S_KEY # t) (Suc 0) r" using b r(2-6) by (auto simp: on_def within_limit_def inc_limit_def)
      then have "on me es (S_VALUE # t) (Suc (Suc 0)) (inc_emit r e)" using e by (intro emit_on) auto
      then show ?thesis using r(1,2) q by (intro on_stopped) (auto simp: inc_emit_def)
    qed
  qed
  then show ?thesis
    unfolding st_BLOCK_NODE_BARE_VALUE_def inc_open_block_def look_token(1) [OF p(3)] unfold_step
    by (simp add: b_def event_here_def event_at_def plain_event_def)
qed

section \<open>Block collections\<close>

lemma chain_Cons:
  "chain st fs = Some s \<Longrightarrow> st \<noteq> ST_DOC_END_EXPLICIT \<Longrightarrow>
    \<exists>f gs a r. fs = f # gs \<and> part st (fr_type f) = Some a \<and> chain (fr_return_state f) gs = Some r \<and> s = a @ r"
  by (cases fs) (auto split: option.splits)

lemma part_block [simp]:
  "part ST_BLOCK_MAP_LOOP t = (if t = CTX_BLOCK_MAP then Some [S_KEY] else None)"
  "part ST_BLOCK_MAP_POST_KEY t = (if t = CTX_BLOCK_MAP then Some [S_VALUE] else None)"
  "part ST_BLOCK_SEQ_LOOP t = (if t = CTX_BLOCK_SEQ then Some [S_SEQ] else None)"
  by (simp_all add: part_def)

lemma map_key: "chain ST_BLOCK_MAP_LOOP fs = Some s \<longleftrightarrow> (\<exists>r. s = S_KEY # r \<and> chain ST_BLOCK_MAP_POST_KEY fs = Some (S_VALUE # r))"
  by (cases fs) (auto split: option.splits if_splits)

lemma map_value: "chain ST_BLOCK_MAP_POST_KEY fs = Some s \<longleftrightarrow> (\<exists>r. s = S_VALUE # r \<and> chain ST_BLOCK_MAP_LOOP fs = Some (S_KEY # r))"
  by (cases fs) (auto split: option.splits if_splits)

lemma seq_entry: "chain ST_BLOCK_SEQ_LOOP fs = Some s \<Longrightarrow> \<exists>r. s = S_SEQ # r"
  by (cases fs) (auto split: option.splits if_splits)

text \<open>An event or none, and the next state.\<close>

lemma emit_state:
  assumes "on me es s n q" and "n < 8" and "accept s (evt_type e) = Some t" and "fits t (q\<lparr>pa_state := st\<rparr>)"
  shows "step_ok me es (ok ((inc_emit q e)\<lparr>pa_state := st\<rparr>))"
proof -
  have "fits t ((inc_emit q e)\<lparr>pa_state := st\<rparr>)"
    using assms(4) by (simp add: fits_def between_documents_def waits_def saved_ok_def cur_type_def split: parser_state.splits)
  then show ?thesis using emit_on [OF assms(1,3,2)] by (intro step_ok_ok [of me es t "Suc n"]) simp_all
qed

lemma next_state: "on me es s n q \<Longrightarrow> fits s (q\<lparr>pa_state := st\<rparr>) \<Longrightarrow> step_ok me es (ok (q\<lparr>pa_state := st\<rparr>))"
  by (rule step_ok_ok [of me es s n]) simp_all

lemma node_state:
  "on me es s n q \<Longrightarrow> fits s (q\<lparr>pa_node_return := ret, pa_state := st\<rparr>) \<Longrightarrow> step_ok me es (ok (q\<lparr>pa_node_return := ret, pa_state := st\<rparr>))"
  by (rule step_ok_ok [of me es s n]) simp_all

lemma st_BLOCK_MAP_LOOP_ok:
  assumes "entry me es p" and "pa_state p = ST_BLOCK_MAP_LOOP"
  shows "step_ok me es (st_BLOCK_MAP_LOOP p)"
proof -
  obtain s r where p: "on me es s 0 p" "at ST_BLOCK_MAP_LOOP s p" and s: "s = S_KEY # r" "chain ST_BLOCK_MAP_POST_KEY (pa_frames p) = Some (S_VALUE # r)"
    using assms map_key by (auto simp: entry_def fits_def)
  have states: "step_ok me es (ok (q\<lparr>pa_state := st\<rparr>))"
    if "on me es s 0 q" "kept p q" "pa_have_token q" "st \<in> {ST_BLOCK_MAP_EXPLICIT_KEY, ST_BLOCK_MAP_SIMPLE_KEY, ST_EAGER_DRAIN, ST_BLOCK_MAP_END}" for q st
    using that p(2) by (intro next_state [OF that(1)]) (auto simp: fits_def kept_def)
  have key: "step_ok me es (look q (\<lambda>p. ok ((inc_emit p (event_here OYL_EVT_SCALAR p))\<lparr>pa_state := ST_BLOCK_MAP_VALUE\<rparr>)))"
    if "on me es s 0 q" "kept p q" "pa_have_token q" for q
    unfolding look_token(1) [OF that(3)] using that p(2) s
    by (intro emit_state [OF that(1), where t = "S_VALUE # r"]) (auto simp: fits_def kept_def event_here_def)
  have cut_key: "step_ok me es (look q (\<lambda>p. ok ((inc_emit p (event_here OYL_EVT_SCALAR p))\<lparr>pa_state := ST_BLOCK_MAP_VALUE\<rparr>)))"
    if "cut_ok me es q" "after (es @ pa_out_buf q) \<noteq> None" for q
    by (rule cut_look [OF that]) (simp add: cut_done emit_cut)
  show ?thesis unfolding st_BLOCK_MAP_LOOP_def unfold_step
    by (rule step_ok_look [OF p(1)]; intro step_ok_if) (simp_all add: states key cut_key cut_done)
qed

text \<open>A node within a block collection: waiting for it, its place filled, after it the state \<open>ret\<close>.\<close>

lemma block_node_waits:
  "chain ret (pa_frames q) = Some t \<Longrightarrow> filled s = Some t \<Longrightarrow> pa_have_token q \<Longrightarrow>
    fits s (q\<lparr>pa_node_return := ret, pa_state := ST_BLOCK_NODE\<rparr>)"
  by (simp add: fits_def waits_def)

text \<open>Either an empty scalar and state \<open>ret\<close>, or a node that returns to \<open>ret\<close>.\<close>

lemma empty_here:
  assumes "on me es s n q" and "n < 8" and "chain ret (pa_frames q) = Some t" and "filled s = Some t"
  shows "step_ok me es (ok ((inc_emit q (event_here OYL_EVT_SCALAR r))\<lparr>pa_state := ret\<rparr>))"
  using assms by (intro emit_state [OF assms(1,2)]) (auto simp: event_here_def intro!: chain_fits)

lemma node_here:
  assumes "on me es s n q" and "chain ret (pa_frames q) = Some t" and "filled s = Some t" and "pa_have_token q"
  shows "step_ok me es (ok (q\<lparr>pa_node_return := ret, pa_state := ST_BLOCK_NODE\<rparr>))"
  using assms by (intro node_state [OF assms(1)] block_node_waits)

lemma st_BLOCK_MAP_EXPLICIT_KEY_ok:
  assumes "entry me es p" and "pa_state p = ST_BLOCK_MAP_EXPLICIT_KEY"
  shows "step_ok me es (st_BLOCK_MAP_EXPLICIT_KEY p)"
proof -
  obtain s r where p: "on me es s 0 p" "pa_have_token p" and s: "s = S_KEY # r" "chain ST_BLOCK_MAP_POST_KEY (pa_frames p) = Some (S_VALUE # r)"
    using assms map_key by (auto simp: entry_def fits_def)
  have c: "on me es s 0 (p\<lparr>pa_have_token := False\<rparr>)" using p(1) by simp
  show ?thesis unfolding st_BLOCK_MAP_EXPLICIT_KEY_def look_token(1) [OF p(2)] unfold_step
    by (rule step_ok_look [OF c]; intro step_ok_if)
      (auto simp: cut_done emit_cut kept_def s intro!: empty_here [where t = "S_VALUE # r"] node_here [where t = "S_VALUE # r"])
qed

lemma simple_key_ok:
  assumes "on me es (S_KEY # r) 0 p" and "chain ST_BLOCK_MAP_POST_KEY (pa_frames p) = Some (S_VALUE # r)"
    and "evt_type e = OYL_EVT_SCALAR \<or> evt_type e = OYL_EVT_ALIAS"
  shows "step_ok me es (inc_simple_key e p)"
proof -
  have c: "on me es (S_KEY # r) 0 (p\<lparr>pa_have_token := False\<rparr>)" using assms(1) by simp
  have key: "step_ok me es (ok ((inc_emit q e)\<lparr>pa_state := ST_BLOCK_MAP_VALUE\<rparr>))"
    if "on me es (S_KEY # r) 0 q" "kept (p\<lparr>pa_have_token := False\<rparr>) q" "pa_have_token q" for q
    using that assms(2,3) by (intro emit_state [OF that(1), where t = "S_VALUE # r"]) (auto simp: fits_def kept_def)
  have drain: "step_ok me es (ok (q\<lparr>pa_state := ST_EAGER_DRAIN\<rparr>))" if "on me es (S_KEY # r) 0 q" for q
    using that by (intro next_state) (simp_all add: fits_def)
  show ?thesis unfolding inc_simple_key_def unfold_step
    by (rule step_ok_look [OF c]; intro step_ok_if) (simp_all add: key drain cut_done emit_cut)
qed

lemma st_BLOCK_MAP_SIMPLE_KEY_ok:
  assumes "entry me es p" and "pa_state p = ST_BLOCK_MAP_SIMPLE_KEY"
  shows "step_ok me es (st_BLOCK_MAP_SIMPLE_KEY p)"
proof -
  obtain s r where p: "on me es s 0 p" "pa_have_token p" and s: "s = S_KEY # r" "chain ST_BLOCK_MAP_POST_KEY (pa_frames p) = Some (S_VALUE # r)"
    using assms map_key by (auto simp: entry_def fits_def)
  have "step_ok me es (ok (p\<lparr>pa_state := ST_EAGER_DRAIN\<rparr>))" using p(1) by (intro next_state) (simp_all add: fits_def)
  moreover have "step_ok me es (inc_simple_key (scalar_event p) p)" "step_ok me es (inc_simple_key (alias_event p) p)"
    using p(1) s by (auto intro!: simple_key_ok)
  ultimately show ?thesis unfolding st_BLOCK_MAP_SIMPLE_KEY_def look_token(1) [OF p(2)] unfold_step by simp
qed

lemma st_BLOCK_MAP_POST_KEY_ok:
  assumes "entry me es p" and "pa_state p = ST_BLOCK_MAP_POST_KEY"
  shows "step_ok me es (st_BLOCK_MAP_POST_KEY p)"
proof -
  obtain s r where p: "on me es s 0 p" "at ST_BLOCK_MAP_POST_KEY s p" and s: "s = S_VALUE # r" "chain ST_BLOCK_MAP_LOOP (pa_frames p) = Some (S_KEY # r)"
    using assms map_value by (auto simp: entry_def fits_def)
  have value_state: "step_ok me es (ok (q\<lparr>pa_state := ST_BLOCK_MAP_VALUE\<rparr>))" if "on me es s 0 q" "kept p q" "pa_have_token q" for q
    using that p(2) by (intro next_state [OF that(1)]) (simp add: fits_def kept_def)
  show ?thesis unfolding st_BLOCK_MAP_POST_KEY_def unfold_step
    by (rule step_ok_look [OF p(1)]; intro step_ok_if; (rule step_ok_failed, assumption)?)
      (auto simp: cut_done emit_cut value_state kept_def s intro!: empty_here [where t = "S_KEY # r" and s = "S_VALUE # r"])
qed

lemma st_BLOCK_MAP_VALUE_ok:
  assumes "entry me es p" and "pa_state p = ST_BLOCK_MAP_VALUE"
  shows "step_ok me es (st_BLOCK_MAP_VALUE p)"
proof -
  obtain s r where p: "on me es s 0 p" "pa_have_token p" and s: "s = S_VALUE # r" "chain ST_BLOCK_MAP_LOOP (pa_frames p) = Some (S_KEY # r)"
    using assms map_value by (auto simp: entry_def fits_def)
  have c: "on me es s 0 (p\<lparr>pa_have_token := False\<rparr>)" using p(1) by simp
  have empty: "step_ok me es (ok ((inc_emit q (event_here OYL_EVT_SCALAR e))\<lparr>pa_state := ST_BLOCK_MAP_LOOP\<rparr>))"
    if "on me es s 0 q" "pa_frames q = pa_frames p" for q e
    using that s by (intro empty_here [OF that(1), where t = "S_KEY # r"]) simp_all
  have node: "step_ok me es (ok (q\<lparr>pa_node_return := ST_BLOCK_MAP_LOOP, pa_state := ST_BLOCK_NODE\<rparr>))"
    if "on me es s 0 q" "pa_frames q = pa_frames p" "pa_have_token q" for q
    using that s by (intro node_here [OF that(1), where t = "S_KEY # r"]) simp_all
  have "step_ok me es (look (p\<lparr>pa_have_token := False\<rparr>) (\<lambda>q. k (q\<lparr>pa_value_colon_line := l, pa_value_colon_starts_line := b\<rparr>)))"
    if "\<And>q. on me es s 0 q \<Longrightarrow> pa_frames q = pa_frames p \<Longrightarrow> pa_have_token q \<Longrightarrow> step_ok me es (k q)" "\<And>q. cut_ok me es q \<Longrightarrow> step_ok me es (k q)"
    for k l b
    by (rule step_ok_look [OF c]) (simp_all add: that kept_def)
  note look2 = this
  have "step_ok me es (st_BLOCK_MAP_VALUE p)" if "cur_type p = OYL_TOK_BLOCK_MAP_VALUE"
    unfolding st_BLOCK_MAP_VALUE_def look_token(1) [OF p(2)] unfold_step
    using that by (simp only: if_False not_not simp_thms if_not_P not_True_eq_False)
      (rule step_ok_look [OF c]; intro step_ok_if; simp add: empty node cut_done emit_cut kept_def)
  moreover have "step_ok me es (st_BLOCK_MAP_VALUE p)" if "cur_type p \<noteq> OYL_TOK_BLOCK_MAP_VALUE"
    unfolding st_BLOCK_MAP_VALUE_def look_token(1) [OF p(2)] unfold_step
    using that p(1) by (simp add: empty)
  ultimately show ?thesis by blast
qed

text \<open>The end of a block collection.\<close>

lemma close_block_ok:
  assumes "on me es (a # r) 0 p" and "pa_have_token p" and "pa_frames p = f # fs"
    and "chain (fr_return_state f) fs = Some r" and "accept (a # r) t = Some r"
  shows "step_ok me es (inc_close_block t p)"
proof -
  have t: "pa_have_token (p\<lparr>pa_frames := fs\<rparr>)" using assms(2) by simp
  define q where "q = inc_emit (p\<lparr>pa_frames := fs\<rparr>) (event_here t (p\<lparr>pa_frames := fs\<rparr>))"
  have q: "on me es r (Suc 0) q" unfolding q_def using assms(1,5) by (intro emit_on) (auto simp: event_here_def)
  have frames: "pa_frames q = fs" by (simp add: q_def)
  have "step_ok me es (if fr_return_state f = ST_DOC_END_EXPLICIT then inc_end_document (q\<lparr>pa_state := fr_return_state f\<rparr>)
      else ok (q\<lparr>pa_state := fr_return_state f\<rparr>))"
  proof (cases "fr_return_state f = ST_DOC_END_EXPLICIT")
    case True
    then have "fs = [] \<and> r = [S_ROOT, S_STREAM]" using assms(4) by (cases fs) (auto simp: part_def)
    then show ?thesis using True q frames by (simp, intro inc_end_document_ok [where n = "Suc 0"]) auto
  next
    case False
    then show ?thesis using q frames assms(4)
      by (simp, intro step_ok_ok [of me es r "Suc 0"]) (auto intro: chain_fits)
  qed
  then show ?thesis
    unfolding inc_close_block_def inc_pop_frame_def assms(3) unfold_step
    by (simp add: look_token(1) t q_def split: if_split_asm)
qed

lemma st_BLOCK_MAP_END_ok:
  assumes "entry me es p" and "pa_state p = ST_BLOCK_MAP_END"
  shows "step_ok me es (st_BLOCK_MAP_END p)"
proof -
  obtain s where p: "on me es s 0 p" "at ST_BLOCK_MAP_LOOP s p" "pa_have_token p" using assms by (auto simp: entry_def fits_def)
  then obtain f fs r where "pa_frames p = f # fs" "chain (fr_return_state f) fs = Some r" "s = S_KEY # r"
    using chain_Cons [OF p(2)] by (auto split: if_split_asm)
  then show ?thesis unfolding st_BLOCK_MAP_END_def using p(1,3) by (intro close_block_ok [where a = S_KEY and r = r]) simp_all
qed

lemma st_BLOCK_SEQ_END_ok:
  assumes "entry me es p" and "pa_state p = ST_BLOCK_SEQ_END"
  shows "step_ok me es (st_BLOCK_SEQ_END p)"
proof -
  obtain s where p: "on me es s 0 p" "at ST_BLOCK_SEQ_LOOP s p" "pa_have_token p" using assms by (auto simp: entry_def fits_def)
  then obtain f fs r where "pa_frames p = f # fs" "chain (fr_return_state f) fs = Some r" "s = S_SEQ # r"
    using chain_Cons [OF p(2)] by (auto split: if_split_asm)
  then show ?thesis unfolding st_BLOCK_SEQ_END_def using p(1,3) by (intro close_block_ok [where a = S_SEQ and r = r]) simp_all
qed

lemma st_BLOCK_SEQ_LOOP_ok:
  assumes "entry me es p" and "pa_state p = ST_BLOCK_SEQ_LOOP"
  shows "step_ok me es (st_BLOCK_SEQ_LOOP p)"
proof -
  obtain s where p: "on me es s 0 p" "at ST_BLOCK_SEQ_LOOP s p" using assms by (auto simp: entry_def fits_def)
  have "step_ok me es (ok (q\<lparr>pa_state := st\<rparr>))"
    if "on me es s 0 q" "kept p q" "pa_have_token q" "st = ST_BLOCK_SEQ_ENTRY \<or> st = ST_BLOCK_SEQ_END" for q st
    using that p(2) by (intro next_state [OF that(1)]) (auto simp: fits_def kept_def)
  then show ?thesis unfolding st_BLOCK_SEQ_LOOP_def unfold_step
    by (intro step_ok_look [OF p(1)] step_ok_if) (simp_all add: cut_done)
qed

lemma st_BLOCK_SEQ_ENTRY_ok:
  assumes "entry me es p" and "pa_state p = ST_BLOCK_SEQ_ENTRY"
  shows "step_ok me es (st_BLOCK_SEQ_ENTRY p)"
proof -
  obtain s where p: "on me es s 0 p" "at ST_BLOCK_SEQ_LOOP s p" "pa_have_token p" using assms by (auto simp: entry_def fits_def)
  then obtain r where s: "s = S_SEQ # r" using seq_entry by blast
  have c: "on me es s 0 (p\<lparr>pa_have_token := False\<rparr>)" using p(1) by simp
  show ?thesis unfolding st_BLOCK_SEQ_ENTRY_def look_token(1) [OF p(3)] unfold_step
    by (rule step_ok_look [OF c]; intro step_ok_if)
      (use p(2) s in \<open>auto simp: cut_done emit_cut kept_def intro!: empty_here [where t = "S_SEQ # r" and s = s] node_here [where t = "S_SEQ # r" and s = s]\<close>)
qed

section \<open>Properties and scalars\<close>

lemma attach_props_whole: "attach_props p e = (e', q) \<Longrightarrow> whole q = whole p \<and> evt_type e' = evt_type e"
  by (auto simp: attach_props_def whole_def view_def Let_def split: if_split_asm)

text \<open>The errors among a status and a parser: none, one of the parser's own, or a failed scan.\<close>

definition fails_well :: "oyl_parser \<Rightarrow> oyl_status \<Rightarrow> oyl_parser \<Rightarrow> bool" where
  "fails_well p st q \<longleftrightarrow> view q = view p \<and>
     (pa_scan_error q = pa_scan_error p \<or> st \<noteq> OYL_OK \<and> pa_scan_error q \<noteq> OYL_OK \<and> pa_scan_error_out q = length (pa_out_buf p))"

lemma view_simps [simp]:
  "view (p\<lparr>pa_pending_anchor := a\<rparr>) = view p" "view (p\<lparr>pa_pending_tag := a\<rparr>) = view p" "view (p\<lparr>pa_has_anchor := b\<rparr>) = view p"
  "view (p\<lparr>pa_has_tag := b\<rparr>) = view p" "view (p\<lparr>pa_have_token := b\<rparr>) = view p" "view (p\<lparr>pa_mem := m\<rparr>) = view p"
  "view (p\<lparr>pa_error_msg := msg, pa_error_mark := k\<rparr>) = view p" "view (note_first_prop p) = view p"
  by (simp_all add: view_def note_first_prop_def)

lemma note_first_prop_scan [simp]: "pa_scan_error (note_first_prop p) = pa_scan_error p"
  by (simp add: note_first_prop_def)

lemma expand_tag_view: "expand_tag p t = (u, q) \<Longrightarrow> view q = view p \<and> pa_scan_error q = pa_scan_error p"
  by (auto simp: expand_tag_def decoded_tag_def Let_def split: if_split_asm option.splits prod.splits)

lemma take_prop_view: "take_prop p = (st, again, q) \<Longrightarrow> view q = view p \<and> pa_scan_error q = pa_scan_error p"
  by (auto simp: take_prop_def Let_def PARSE_ERROR_def consume_token_def dest!: expand_tag_view split: if_split_asm prod.splits)

lemma consume_props_view: "consume_props p = Some (st, q) \<Longrightarrow> fails_well p st q \<and> (st = OYL_OK \<longrightarrow> pa_have_token q)"
proof (induction p rule: consume_props.induct)
  case (1 p)
  obtain st1 p1 where 2: "peek_token p = Some (st1, p1)" using 1(2) by (cases "peek_token p") (auto simp: consume_props.simps [of p])
  obtain st2 again p2 where 3: "take_prop p1 = (st2, again, p2)" by (cases "take_prop p1") auto
  note peek = peek_same [OF 2] and take = take_prop_view [OF 3]
  consider (err) "st1 \<noteq> OYL_OK" | (err2) "st1 = OYL_OK" "st2 \<noteq> OYL_OK" | (again) "st1 = OYL_OK" "st2 = OYL_OK" again
    | (stop) "st1 = OYL_OK" "st2 = OYL_OK" "\<not> again" by blast
  then show ?case
  proof cases
    case again
    then have "consume_props p2 = Some (st, q)" using 1(2) 2 3 by (simp add: consume_props.simps [of p])
    from 1(1) [OF 2 refl _ 3 [symmetric] refl _ _ this] again peek take viewD(1) [of p2 p] show ?thesis
      by (auto simp: fails_well_def)
  next
    case stop
    then show ?thesis using 1(2) 2 3 peek take take_prop_again(1) [OF 3]
      by (auto simp: consume_props.simps [of p] PARSE_ERROR_def fails_well_def split: if_split_asm)
  qed (use 1(2) 2 3 peek take in \<open>auto simp: consume_props.simps [of p] fails_well_def\<close>)
qed

lemma step_ok_props:
  assumes "on me es s n p"
    and "\<And>q. on me es s n q \<Longrightarrow> kept p q \<Longrightarrow> pa_have_token q \<Longrightarrow> step_ok me es (k q)"
  shows "step_ok me es (then_ok (consume_props p) k)"
proof (cases "consume_props p")
  case (Some r)
  obtain st q where r: "consume_props p = Some (st, q)" using Some by (cases r) auto
  have v: "view q = view p" and f: "fails_well p st q" using consume_props_view [OF r] by (simp_all add: fails_well_def)
  show ?thesis
  proof (cases "st = OYL_OK")
    case True
    with f consume_props_view [OF r] have "step_ok me es (k q)"
      using view_on [OF v _ assms(1)] by (intro assms(2)) (auto simp: fails_well_def)
    with True show ?thesis by (simp add: then_ok_def r)
  next
    case False
    have "step_ok me es (Some (st, q))"
    proof (cases "pa_scan_error q = pa_scan_error p")
      case True
      with False assms(1) show ?thesis by (simp add: step_ok_def stepped_def on_def)
    next
      case False
      with f show ?thesis by (intro step_ok_cut cut_of_on [OF assms(1) v]) (auto simp: fails_well_def)
    qed
    with False show ?thesis by (simp add: then_ok_def r)
  qed
qed (simp add: then_ok_def step_ok_def)

lemma emit_scalar_simps [simp]:
  "pa_frames (inc_emit_scalar_token p) = pa_frames p" "pa_node_return (inc_emit_scalar_token p) = pa_node_return p"
  "pa_current (inc_emit_scalar_token p) = pa_current p" "pa_state (inc_emit_scalar_token p) = pa_state p"
  by (simp_all add: inc_emit_scalar_token_def consume_token_def attach_props_def Let_def)

lemma emit_scalar:
  "\<exists>q e. inc_emit_scalar_token p = (if inc_limit p then inc_emit p e else consume_token (inc_emit q e)) \<and>
    whole q = whole p \<and> evt_type e = OYL_EVT_SCALAR"
proof -
  obtain e q where e: "attach_props p (scalar_event p) = (e, q)" by fastforce
  note w = attach_props_whole [OF e]
  then have "inc_limit q = inc_limit p" "pa_out_buf q = pa_out_buf p"
    by (simp_all add: whole_def view_def inc_limit_def)
  then show ?thesis
  proof (cases "length (pa_out_buf p) < 8")
    case True
    then show ?thesis using e w \<open>inc_limit q = inc_limit p\<close> \<open>pa_out_buf q = pa_out_buf p\<close>
      by (intro exI [of _ q] exI [of _ e]) (auto simp: inc_emit_scalar_token_def inc_emit_def)
  next
    case False
    then show ?thesis using w
      by (intro exI [of _ p] exI [of _ e]) (auto simp: inc_emit_scalar_token_def inc_emit_def)
  qed
qed

lemma emit_scalar_on:
  assumes "on me es s n p" and "filled s = Some t" and "n < 8"
  shows "on me es t (Suc n) (inc_emit_scalar_token p)"
proof -
  obtain q e where q: "inc_emit_scalar_token p = (if inc_limit p then inc_emit p e else consume_token (inc_emit q e))"
    "whole q = whole p" "evt_type e = OYL_EVT_SCALAR" using emit_scalar by blast
  then have "on me es s n q" using wholeD(1) assms(1) by blast
  then show ?thesis using q assms emit_on [of me es s n _ e t] by (simp add: consume_token_def)
qed

lemma emit_scalar_cut:
  assumes "cut_ok me es p"
  shows "cut_ok me es (inc_emit_scalar_token p)"
proof -
  obtain q e where q: "inc_emit_scalar_token p = (if inc_limit p then inc_emit p e else consume_token (inc_emit q e))"
    "whole q = whole p" using emit_scalar by blast
  then have "cut_ok me es q" using wholeD(5) assms by blast
  then show ?thesis using q assms by (simp add: consume_token_def emit_cut)
qed

section \<open>Flow collections\<close>

lemma part_flow [simp]:
  "part ST_FLOW_MAP_VALUE t = (if t = CTX_FLOW_MAP then Some [S_VALUE] else None)"
  "part ST_FLOW_MAP_SEP t = (if t = CTX_FLOW_MAP then Some [S_KEY] else None)"
  "part ST_FLOW_SEQ_SEP t = (if t = CTX_FLOW_SEQ then Some [S_SEQ] else None)"
  "part ST_FLOW_SEQ_IMPLICIT_END t = (if t = CTX_FLOW_SEQ then Some [S_KEY, S_SEQ] else None)"
  "part ST_FLOW_SEQ_EXPLICIT_VALUE t = (if t = CTX_FLOW_SEQ then Some [S_VALUE, S_SEQ] else None)"
  "part ST_FLOW_SEQ_EXPLICIT_END t = (if t = CTX_FLOW_SEQ then Some [S_KEY, S_SEQ] else None)"
  by (simp_all add: part_def)

text \<open>In a flow mapping and in a flow sequence, with \<open>r\<close> around them.\<close>

definition in_map :: "slot list \<Rightarrow> oyl_parser \<Rightarrow> bool" where
  "in_map r p \<longleftrightarrow> (\<exists>f fs. pa_frames p = f # fs \<and> fr_type f = CTX_FLOW_MAP \<and> chain (fr_return_state f) fs = Some r)"

definition in_seq :: "slot list \<Rightarrow> oyl_parser \<Rightarrow> bool" where
  "in_seq r p \<longleftrightarrow> (\<exists>f fs. pa_frames p = f # fs \<and> fr_type f = CTX_FLOW_SEQ \<and> chain (fr_return_state f) fs = Some r)"

lemma in_map_chain [simp]:
  "in_map r p \<Longrightarrow> chain ST_FLOW_MAP_VALUE (pa_frames p) = Some (S_VALUE # r)"
  "in_map r p \<Longrightarrow> chain ST_FLOW_MAP_SEP (pa_frames p) = Some (S_KEY # r)"
  by (auto simp: in_map_def)

lemma in_seq_chain [simp]:
  "in_seq r p \<Longrightarrow> chain ST_FLOW_SEQ_SEP (pa_frames p) = Some (S_SEQ # r)"
  "in_seq r p \<Longrightarrow> chain ST_FLOW_SEQ_IMPLICIT_END (pa_frames p) = Some (S_KEY # S_SEQ # r)"
  "in_seq r p \<Longrightarrow> chain ST_FLOW_SEQ_EXPLICIT_VALUE (pa_frames p) = Some (S_VALUE # S_SEQ # r)"
  "in_seq r p \<Longrightarrow> chain ST_FLOW_SEQ_EXPLICIT_END (pa_frames p) = Some (S_KEY # S_SEQ # r)"
  by (auto simp: in_seq_def)

lemma chain_in_map:
  "chain ST_FLOW_MAP_VALUE (pa_frames p) = Some s \<longleftrightarrow> (\<exists>r. s = S_VALUE # r \<and> in_map r p)"
  "chain ST_FLOW_MAP_SEP (pa_frames p) = Some s \<longleftrightarrow> (\<exists>r. s = S_KEY # r \<and> in_map r p)"
  by (cases "pa_frames p"; auto simp: in_map_def split: option.splits if_splits)+

lemma chain_in_seq:
  "chain ST_FLOW_SEQ_SEP (pa_frames p) = Some s \<longleftrightarrow> (\<exists>r. s = S_SEQ # r \<and> in_seq r p)"
  "chain ST_FLOW_SEQ_IMPLICIT_END (pa_frames p) = Some s \<longleftrightarrow> (\<exists>r. s = S_KEY # S_SEQ # r \<and> in_seq r p)"
  "chain ST_FLOW_SEQ_EXPLICIT_VALUE (pa_frames p) = Some s \<longleftrightarrow> (\<exists>r. s = S_VALUE # S_SEQ # r \<and> in_seq r p)"
  "chain ST_FLOW_SEQ_EXPLICIT_END (pa_frames p) = Some s \<longleftrightarrow> (\<exists>r. s = S_KEY # S_SEQ # r \<and> in_seq r p)"
  by (cases "pa_frames p"; auto simp: in_seq_def split: option.splits if_splits)+

lemma in_simps [simp]:
  "in_map r (p\<lparr>pa_state := st\<rparr>) = in_map r p" "in_map r (p\<lparr>pa_node_return := st\<rparr>) = in_map r p"
  "in_map r (p\<lparr>pa_have_token := b\<rparr>) = in_map r p" "in_map r (inc_emit p e) = in_map r p"
  "in_map r (inc_emit_scalar_token p) = in_map r p"
  "in_seq r (p\<lparr>pa_state := st\<rparr>) = in_seq r p" "in_seq r (p\<lparr>pa_node_return := st\<rparr>) = in_seq r p"
  "in_seq r (p\<lparr>pa_have_token := b\<rparr>) = in_seq r p" "in_seq r (inc_emit p e) = in_seq r p"
  "in_seq r (inc_emit_scalar_token p) = in_seq r p" "in_seq r (p\<lparr>pa_have_saved_node := b\<rparr>) = in_seq r p"
  "in_seq r (p\<lparr>pa_saved_node := e\<rparr>) = in_seq r p"
  by (simp_all add: in_map_def in_seq_def)

lemma in_kept: "kept p q \<Longrightarrow> in_map r q = in_map r p" "kept p q \<Longrightarrow> in_seq r q = in_seq r p"
  by (simp_all add: kept_def in_map_def in_seq_def)

text \<open>The separator after an entry.\<close>

lemma flow_sep_seq_ok:
  assumes "on me es (S_SEQ # r) n p" and "in_seq r p"
  shows "step_ok me es (inc_flow_sep p True)"
  unfolding inc_flow_sep_def unfold_step
  by (rule step_ok_peeked [OF assms(1)]; intro step_ok_if)
    (auto simp: fits_def cur_type_def in_kept assms(2) intro!: step_ok_ok [where s = "S_SEQ # r" and n = n])

lemma flow_sep_map_ok:
  assumes "on me es (S_KEY # r) n p" and "in_map r p"
  shows "step_ok me es (inc_flow_sep p False)"
  unfolding inc_flow_sep_def unfold_step
  by (rule step_ok_peeked [OF assms(1)]; intro step_ok_if)
    (auto simp: fits_def cur_type_def in_kept assms(2) intro!: step_ok_ok [where s = "S_KEY # r" and n = n])

lemma flow_sep_cut: "cut_ok me es p \<Longrightarrow> after (es @ pa_out_buf p) \<noteq> None \<Longrightarrow> step_ok me es (inc_flow_sep p b)"
  unfolding inc_flow_sep_def unfold_step
  by (rule cut_peeked) (simp_all add: cut_done)

text \<open>An empty scalar or a node, in a flow collection.\<close>

lemma flow_node_here:
  assumes "on me es s n q" and "chain ret (pa_frames q) = Some t" and "filled s = Some t" and "pa_have_token q"
  shows "step_ok me es (ok (q\<lparr>pa_node_return := ret, pa_state := ST_FLOW_NODE\<rparr>))"
  using assms by (intro node_state [OF assms(1)]) (simp add: fits_def waits_def)

lemma empty_or_node_ok:
  assumes "on me es s n p" and "n < 8" and "chain ret (pa_frames p) = Some t" and "filled s = Some t"
  shows "step_ok me es (empty_or_node tts ret p)"
  unfolding empty_or_node_def unfold_step
  by (rule step_ok_look [OF assms(1)]; intro step_ok_if)
    (use assms(2-4) in \<open>auto simp: cut_done emit_cut kept_def intro!: empty_here [where t = t] flow_node_here [where t = t]\<close>)

lemma flow_map_value_ok:
  assumes "on me es (S_VALUE # r) n p" and "n < 8" and "in_map r p"
  shows "step_ok me es (inc_flow_map_value p)"
proof -
  have scalar: "step_ok me es (inc_flow_sep (inc_emit_scalar_token q) False)" if "on me es (S_VALUE # r) n q" "kept p q" for q
    using that assms(2,3) by (intro flow_sep_map_ok [where n = "Suc n"] emit_scalar_on [OF that(1)]) (simp_all add: in_kept)
  show ?thesis unfolding inc_flow_map_value_def unfold_step
    by (rule step_ok_peeked [OF assms(1)]; intro step_ok_if)
      (use assms(2,3) in \<open>auto simp: scalar in_kept intro!: empty_here [where t = "S_KEY # r" and s = "S_VALUE # r"]
        flow_node_here [where t = "S_KEY # r" and s = "S_VALUE # r"]\<close>)
qed

text \<open>After a failed scan, with the stack still known.\<close>

definition soft :: "int \<Rightarrow> oyl_event list \<Rightarrow> slot list \<Rightarrow> nat \<Rightarrow> oyl_parser \<Rightarrow> bool" where
  "soft me es s n p \<longleftrightarrow> cut_ok me es p \<and> on me es s n (p\<lparr>pa_scan_error := OYL_OK\<rparr>)"

lemma soft_after: "soft me es s n p \<Longrightarrow> cut_ok me es p \<and> after (es @ pa_out_buf p) \<noteq> None"
  using on_accepted [of me es s n "p\<lparr>pa_scan_error := OYL_OK\<rparr>"] by (simp add: soft_def)

lemma inc_emit_scan: "inc_emit (p\<lparr>pa_scan_error := OYL_OK\<rparr>) e = (inc_emit p e)\<lparr>pa_scan_error := OYL_OK\<rparr>"
  by (simp add: inc_emit_def inc_limit_def hit_limit_def stop_with_def)

lemma soft_emit: "soft me es s n p \<Longrightarrow> accept s (evt_type e) = Some t \<Longrightarrow> n < 8 \<Longrightarrow> soft me es t (Suc n) (inc_emit p e)"
  using emit_on [of me es s n "p\<lparr>pa_scan_error := OYL_OK\<rparr>" e t] by (simp add: soft_def emit_cut inc_emit_scan)

lemma soft_emit_scalar: "soft me es s n p \<Longrightarrow> filled s = Some t \<Longrightarrow> n < 8 \<Longrightarrow> soft me es t (Suc n) (inc_emit_scalar_token p)"
proof -
  have "inc_emit_scalar_token (p\<lparr>pa_scan_error := OYL_OK\<rparr>) = (inc_emit_scalar_token p)\<lparr>pa_scan_error := OYL_OK\<rparr>"
    by (simp add: inc_emit_scalar_token_def inc_limit_def hit_limit_def stop_with_def consume_token_def attach_props_def
        scalar_event_def event_at_def cur_start_def cur_end_def Let_def)
  then show "soft me es s n p \<Longrightarrow> filled s = Some t \<Longrightarrow> n < 8 \<Longrightarrow> soft me es t (Suc n) (inc_emit_scalar_token p)"
    using emit_scalar_on [of me es s n "p\<lparr>pa_scan_error := OYL_OK\<rparr>" t] by (simp add: soft_def emit_scalar_cut)
qed

lemma soft_consume [simp]: "soft me es s n (p\<lparr>pa_have_token := b\<rparr>) = soft me es s n p"
  by (simp add: soft_def on_def within_limit_def inc_limit_def)

lemma soft_failed:
  assumes "on me es s n p" and "peek_token p = Some (st, q)" and "st \<noteq> OYL_OK"
  shows "soft me es s n q"
proof -
  note peek = peek_same [OF assms(2)]
  have "cut_ok me es q" using cut_of_on [OF assms(1) peek(1)] peek(4) [OF assms(3)] by blast
  moreover have "view (q\<lparr>pa_scan_error := OYL_OK\<rparr>) = view p" using peek(1) by (simp add: view_def)
  then have "on me es s n (q\<lparr>pa_scan_error := OYL_OK\<rparr>) = on me es s n p" by (rule on_view) (use assms(1) in \<open>simp add: on_def\<close>)
  ultimately show ?thesis using assms(1) by (simp add: soft_def)
qed

lemma step_ok_look_soft:
  assumes "on me es s n p"
    and "\<And>q. on me es s n q \<Longrightarrow> kept p q \<Longrightarrow> pa_have_token q \<Longrightarrow> step_ok me es (k q)"
    and "\<And>q. soft me es s n q \<Longrightarrow> kept p q \<Longrightarrow> pa_current q = pa_current p \<Longrightarrow> step_ok me es (k q)"
  shows "step_ok me es (look p k)"
proof (cases "peek_token p")
  case (Some r)
  obtain st q where r: "peek_token p = Some (st, q)" using Some by (cases r) auto
  note peek = peek_same [OF r]
  have "step_ok me es (k q)"
  proof (cases "st = OYL_OK")
    case True
    with peek assms(1) show ?thesis by (intro assms(2)) (simp_all add: on_view [OF peek(1)] kept_view [OF peek(1)])
  next
    case False
    with peek soft_failed [OF assms(1) r] kept_view show ?thesis by (intro assms(3)) auto
  qed
  then show ?thesis by (simp add: look_def r)
qed (simp add: look_def step_ok_def)

lemma soft_peeked:
  assumes "soft me es s n p" and "\<And>q. soft me es s n q \<Longrightarrow> kept p q \<Longrightarrow> step_ok me es (k q)"
  shows "step_ok me es (peeked p k)"
proof (cases "peek_token p")
  case (Some r)
  obtain st q where r: "peek_token p = Some (st, q)" using Some by (cases r) auto
  note peek = peek_same [OF r]
  note v = viewD [OF peek(1)]
  have cut: "cut_ok me es q"
    using soft_after [OF assms(1)] peek(3,4) v by (cases "st = OYL_OK") (simp_all add: cut_ok_def within_limit_def)
  show ?thesis
  proof (cases "st = OYL_OK")
    case True
    have "view (q\<lparr>pa_scan_error := OYL_OK\<rparr>) = view (p\<lparr>pa_scan_error := OYL_OK\<rparr>)" using peek(1) by (simp add: view_def)
    from on_view [OF this] have "on me es s n (q\<lparr>pa_scan_error := OYL_OK\<rparr>)" using assms(1) by (simp add: soft_def)
    then show ?thesis using True cut assms(2) kept_view [OF peek(1)] by (simp add: peeked_def then_ok_def r soft_def)
  next
    case False
    with cut show ?thesis by (simp add: peeked_def then_ok_def r step_ok_cut)
  qed
qed (simp add: peeked_def then_ok_def step_ok_def)

lemma flow_map_value_soft:
  assumes "soft me es (S_VALUE # r) n p" and "n < 8"
  shows "step_ok me es (inc_flow_map_value p)"
proof -
  have scalar: "step_ok me es (inc_flow_sep (inc_emit_scalar_token q) False)" if "soft me es (S_VALUE # r) n q" for q
    using soft_after [OF soft_emit_scalar [OF that _ assms(2)]] by (intro flow_sep_cut) simp_all
  have cut: "cut_ok me es q" if "soft me es (S_VALUE # r) n q" for q using soft_after [OF that] by blast
  show ?thesis unfolding inc_flow_map_value_def unfold_step
    by (rule soft_peeked [OF assms(1)]; intro step_ok_if) (auto simp: scalar cut_done emit_cut cut)
qed

lemma st_FLOW_MAP_VALUE_ok:
  assumes "entry me es p" and "pa_state p = ST_FLOW_MAP_VALUE"
  shows "step_ok me es (st_FLOW_MAP_VALUE p)"
proof -
  obtain r where p: "on me es (S_VALUE # r) 0 p" "in_map r p" using assms by (auto simp: entry_def fits_def chain_in_map)
  have value_node: "step_ok me es (inc_flow_map_value (q\<lparr>pa_have_token := False\<rparr>))" if "on me es (S_VALUE # r) 0 q" "kept p q" for q
    using that p(2) by (intro flow_map_value_ok [where r = r and n = 0]) (simp_all add: in_kept)
  have value_soft: "step_ok me es (inc_flow_map_value (q\<lparr>pa_have_token := False\<rparr>))" if "soft me es (S_VALUE # r) 0 q" for q
    using that by (intro flow_map_value_soft [where r = r and n = 0]) simp_all
  have empty: "step_ok me es (ok ((inc_emit q (event_here OYL_EVT_SCALAR q))\<lparr>pa_state := ST_FLOW_MAP_SEP\<rparr>))"
    if "on me es (S_VALUE # r) 0 q" "kept p q" for q
    using that p(2) by (intro empty_here [OF that(1), where t = "S_KEY # r"]) (simp_all add: in_kept)
  have cut: "cut_ok me es q" if "soft me es (S_VALUE # r) 0 q" for q using soft_after [OF that] by blast
  show ?thesis unfolding st_FLOW_MAP_VALUE_def unfold_step
    by (rule step_ok_look_soft [OF p(1)]; intro step_ok_if) (simp_all add: value_node value_soft empty cut cut_done emit_cut)
qed

lemma st_FLOW_MAP_SEP_ok:
  assumes "entry me es p" and "pa_state p = ST_FLOW_MAP_SEP"
  shows "step_ok me es (st_FLOW_MAP_SEP p)"
proof -
  obtain r where p: "on me es (S_KEY # r) 0 p" "in_map r p" using assms by (auto simp: entry_def fits_def chain_in_map)
  show ?thesis unfolding st_FLOW_MAP_SEP_def unfold_step
    by (rule step_ok_look [OF p(1)]; intro step_ok_if; (rule step_ok_failed, assumption)?)
      (auto simp: in_kept p(2) cut_done fits_def cur_type_def intro!: step_ok_ok [where s = "S_KEY # r" and n = 0])
qed

lemma st_FLOW_MAP_LOOP_ok:
  assumes "entry me es p" and "pa_state p = ST_FLOW_MAP_LOOP"
  shows "step_ok me es (st_FLOW_MAP_LOOP p)"
proof -
  obtain r where p: "on me es (S_KEY # r) 0 p" "in_map r p" "\<not> pa_oom p"
    and token: "pa_have_token p \<or> cur_type p = OYL_TOK_FLOW_ENTRY \<or> cur_type p = OYL_TOK_FLOW_MAP_START"
    using assms by (auto simp: entry_def fits_def chain_in_map)
  have scalar: "step_ok me es (peeked ((inc_emit_scalar_token q)\<lparr>pa_state := ST_FLOW_MAP_VALUE\<rparr>) (\<lambda>p.
      if cur_type p \<noteq> OYL_TOK_BLOCK_MAP_VALUE then ok p else inc_flow_map_value (p\<lparr>pa_have_token := False\<rparr>)))"
    if "on me es (S_KEY # r) 0 q" "kept p q" for q
  proof -
    have q: "on me es (S_VALUE # r) (Suc 0) ((inc_emit_scalar_token q)\<lparr>pa_state := ST_FLOW_MAP_VALUE\<rparr>)"
      using emit_scalar_on [OF that(1)] by simp
    have plain: "step_ok me es (ok q')" if "on me es (S_VALUE # r) (Suc 0) q'" "kept ((inc_emit_scalar_token q)\<lparr>pa_state := ST_FLOW_MAP_VALUE\<rparr>) q'" for q'
      using that \<open>kept p q\<close> p(2) in_kept(1) [OF that(2)] in_kept(1) [OF \<open>kept p q\<close>]
      by (intro step_ok_ok [where s = "S_VALUE # r" and n = "Suc 0"]) (auto simp: fits_def kept_def)
    have "step_ok me es (inc_flow_map_value (q'\<lparr>pa_have_token := False\<rparr>))"
      if "on me es (S_VALUE # r) (Suc 0) q'" "kept ((inc_emit_scalar_token q)\<lparr>pa_state := ST_FLOW_MAP_VALUE\<rparr>) q'" for q'
      using that p(2) in_kept(1) [OF that(2)] in_kept(1) [OF \<open>kept p q\<close>]
      by (intro flow_map_value_ok [where r = r and n = "Suc 0"]) simp_all
    with plain show ?thesis by (intro step_ok_peeked [OF q] step_ok_if) simp_all
  qed
  have open_key: "step_ok me es (empty_or_node tts ST_FLOW_MAP_VALUE (q\<lparr>pa_have_token := False\<rparr>))" if "on me es (S_KEY # r) 0 q" "kept p q" for q tts
    using that p(2) by (intro empty_or_node_ok [where s = "S_KEY # r" and n = 0 and t = "S_VALUE # r"]) (simp_all add: in_kept)
  have node: "step_ok me es (ok (q\<lparr>pa_node_return := ST_FLOW_MAP_VALUE, pa_state := ST_FLOW_NODE\<rparr>))"
    if "on me es (S_KEY # r) 0 q" "kept p q" "pa_have_token q" for q
    using that p(2) by (intro flow_node_here [OF that(1), where t = "S_VALUE # r"]) (simp_all add: in_kept)
  have closing: "step_ok me es (ok (q\<lparr>pa_state := ST_FLOW_MAP_END\<rparr>))" if "on me es (S_KEY # r) 0 q" "kept p q" for q
    using that p(2) by (intro next_state [OF that(1)]) (simp add: fits_def in_kept)
  have stale: "cur_type q = OYL_TOK_FLOW_ENTRY \<or> cur_type q = OYL_TOK_FLOW_MAP_START" if "pa_current q = pa_current p" "\<not> pa_have_token p" for q
    using token that by (simp add: cur_type_def)
  show ?thesis unfolding st_FLOW_MAP_LOOP_def unfold_step
    apply (rule step_ok_unless [OF p(3)])
    apply (rule step_ok_look [OF p(1)]; intro step_ok_if; (rule step_ok_failed, assumption)?)
    apply (simp_all add: scalar open_key node closing cut_done)
    using stale apply fastforce+
    done
qed

text \<open>The closing bracket: the frame's state is next, with its separator if it is a flow collection's.\<close>

lemma close_flow_ok:
  assumes "on me es (a # r) 0 p" and "pa_frames p = f # fs" and "chain (fr_return_state f) fs = Some r"
    and "accept (a # r) t = Some r"
  shows "step_ok me es (inc_close_flow t p)"
proof -
  define q where "q = (inc_emit (p\<lparr>pa_have_token := False\<rparr>) (event_at t (cur_start p) (cur_end p)))\<lparr>pa_frames := fs, pa_state := fr_return_state f\<rparr>"
  have q: "on me es r (Suc 0) q" unfolding q_def using assms(1,4) by (simp, intro emit_on) auto
  have frames: "pa_frames q = fs" "pa_state q = fr_return_state f" by (simp_all add: q_def)
  have "step_ok me es (inc_flow_sep q True)" if seq: "fr_return_state f = ST_FLOW_SEQ_SEP"
  proof -
    have "chain ST_FLOW_SEQ_SEP (pa_frames q) = Some r" using assms(3) seq frames by simp
    then obtain r' where "r = S_SEQ # r'" "in_seq r' q" unfolding chain_in_seq by (elim exE conjE)
    with q show ?thesis by (intro flow_sep_seq_ok [where n = "Suc 0"]) simp_all
  qed
  moreover have "step_ok me es (inc_flow_sep q False)" if map: "fr_return_state f = ST_FLOW_MAP_SEP"
  proof -
    have "chain ST_FLOW_MAP_SEP (pa_frames q) = Some r" using assms(3) map frames by simp
    then obtain r' where "r = S_KEY # r'" "in_map r' q" unfolding chain_in_map by (elim exE conjE)
    with q show ?thesis by (intro flow_sep_map_ok [where n = "Suc 0"]) simp_all
  qed
  moreover have "step_ok me es (ok q)"
    using q frames assms(3) by (intro step_ok_ok [of me es r "Suc 0"]) (auto intro: chain_fits)
  ultimately show ?thesis
    unfolding inc_close_flow_def inc_pop_frame_def unfold_step by (simp add: assms(2) q_def)
qed

lemma st_FLOW_MAP_END_ok:
  assumes "entry me es p" and "pa_state p = ST_FLOW_MAP_END"
  shows "step_ok me es (st_FLOW_MAP_END p)"
proof -
  obtain r where p: "on me es (S_KEY # r) 0 p" "in_map r p" using assms by (auto simp: entry_def fits_def chain_in_map)
  then obtain f fs where "pa_frames p = f # fs" "chain (fr_return_state f) fs = Some r" by (auto simp: in_map_def)
  then show ?thesis unfolding st_FLOW_MAP_END_def using p(1) by (intro close_flow_ok [where a = S_KEY and r = r]) simp_all
qed

lemma st_FLOW_SEQ_END_ok:
  assumes "entry me es p" and "pa_state p = ST_FLOW_SEQ_END"
  shows "step_ok me es (st_FLOW_SEQ_END p)"
proof -
  obtain r where p: "on me es (S_SEQ # r) 0 p" "in_seq r p" using assms by (auto simp: entry_def fits_def chain_in_seq)
  then obtain f fs where "pa_frames p = f # fs" "chain (fr_return_state f) fs = Some r" by (auto simp: in_seq_def)
  then show ?thesis unfolding st_FLOW_SEQ_END_def using p(1) by (intro close_flow_ok [where a = S_SEQ and r = r]) simp_all
qed

subsection \<open>Flow sequences\<close>

lemma in_seq_entry:
  assumes "entry me es p" and "\<And>s. fits s p \<Longrightarrow> at ST_FLOW_SEQ_SEP s p"
  obtains r where "on me es (S_SEQ # r) 0 p" "in_seq r p"
  using assms by (auto simp: entry_def chain_in_seq)

lemma st_FLOW_SEQ_SEP_ok:
  assumes "entry me es p" and "pa_state p = ST_FLOW_SEQ_SEP"
  shows "step_ok me es (st_FLOW_SEQ_SEP p)"
proof -
  obtain r where p: "on me es (S_SEQ # r) 0 p" "in_seq r p" using assms by (auto simp: fits_def elim: in_seq_entry)
  have "step_ok me es (ok (q\<lparr>pa_have_token := False, pa_state := ST_FLOW_SEQ_LOOP\<rparr>))"
    if "on me es (S_SEQ # r) 0 q" "kept p q" "cur_type q = OYL_TOK_FLOW_ENTRY" for q
    using that p(2) by (intro step_ok_ok [where s = "S_SEQ # r" and n = 0]) (simp_all add: fits_def in_kept cur_type_def)
  moreover have "step_ok me es (ok (q\<lparr>pa_state := ST_FLOW_SEQ_LOOP\<rparr>))"
    if "on me es (S_SEQ # r) 0 q" "kept p q" "pa_have_token q" for q
    using that p(2) by (intro step_ok_ok [where s = "S_SEQ # r" and n = 0]) (simp_all add: fits_def in_kept)
  ultimately show ?thesis unfolding st_FLOW_SEQ_SEP_def unfold_step
    by (intro step_ok_look [OF p(1)] step_ok_if) (simp_all add: cut_done step_ok_failed)
qed

lemma st_FLOW_SEQ_IMPLICIT_END_ok:
  assumes "entry me es p" and "pa_state p = ST_FLOW_SEQ_IMPLICIT_END"
  shows "step_ok me es (st_FLOW_SEQ_IMPLICIT_END p)"
proof -
  obtain r where p: "on me es (S_KEY # S_SEQ # r) 0 p" "in_seq r p" using assms by (auto simp: entry_def fits_def chain_in_seq)
  have "step_ok me es (ok ((inc_emit q (event_here OYL_EVT_MAPPING_END q))\<lparr>pa_state := ST_FLOW_SEQ_SEP\<rparr>))"
    if "on me es (S_KEY # S_SEQ # r) 0 q" "kept p q" for q
    using that p(2) by (intro emit_state [OF that(1), where t = "S_SEQ # r"]) (simp_all add: event_here_def fits_def in_kept)
  then show ?thesis unfolding st_FLOW_SEQ_IMPLICIT_END_def unfold_step
    by (intro step_ok_look [OF p(1)]) (simp_all add: cut_done emit_cut)
qed

lemma st_FLOW_SEQ_EXPLICIT_END_ok:
  assumes "entry me es p" and "pa_state p = ST_FLOW_SEQ_EXPLICIT_END"
  shows "step_ok me es (st_FLOW_SEQ_EXPLICIT_END p)"
proof -
  obtain r where p: "on me es (S_KEY # S_SEQ # r) 0 p" "in_seq r p" using assms by (auto simp: entry_def fits_def chain_in_seq)
  have "step_ok me es (ok ((inc_emit q (event_here OYL_EVT_MAPPING_END q))\<lparr>pa_state := ST_FLOW_SEQ_SEP\<rparr>))"
    if "on me es (S_KEY # S_SEQ # r) 0 q" "kept p q" for q
    using that p(2) by (intro emit_state [OF that(1), where t = "S_SEQ # r"]) (simp_all add: event_here_def fits_def in_kept)
  then show ?thesis unfolding st_FLOW_SEQ_EXPLICIT_END_def unfold_step
    by (intro step_ok_look [OF p(1)]) (simp_all add: cut_done emit_cut)
qed

lemma flow_start_type [simp]: "evt_type (flow_start t p) = t"
  by (simp add: flow_start_def)

lemma st_FLOW_SEQ_EXPLICIT_KEY_ok:
  assumes "entry me es p" and "pa_state p = ST_FLOW_SEQ_EXPLICIT_KEY"
  shows "step_ok me es (st_FLOW_SEQ_EXPLICIT_KEY p)"
proof -
  obtain r where p: "on me es (S_SEQ # r) 0 p" "in_seq r p" using assms by (auto simp: fits_def elim: in_seq_entry)
  have "on me es (S_KEY # S_SEQ # r) (Suc 0) (inc_emit p (flow_start OYL_EVT_MAPPING_START p))"
    by (intro emit_on [OF p(1)]) simp_all
  then show ?thesis unfolding st_FLOW_SEQ_EXPLICIT_KEY_def unfold_step
    using p(2) by (intro empty_or_node_ok [where s = "S_KEY # S_SEQ # r" and t = "S_VALUE # S_SEQ # r" and n = "Suc 0"]) simp_all
qed

lemma empty_or_node_cut: "cut_ok me es p \<Longrightarrow> after (es @ pa_out_buf p) \<noteq> None \<Longrightarrow> step_ok me es (empty_or_node tts ret p)"
  unfolding empty_or_node_def unfold_step by (rule cut_look) (simp_all add: cut_done emit_cut)

lemma st_FLOW_SEQ_EXPLICIT_VALUE_ok:
  assumes "entry me es p" and "pa_state p = ST_FLOW_SEQ_EXPLICIT_VALUE"
  shows "step_ok me es (st_FLOW_SEQ_EXPLICIT_VALUE p)"
proof -
  obtain r where p: "on me es (S_VALUE # S_SEQ # r) 0 p" "in_seq r p" using assms by (auto simp: entry_def fits_def chain_in_seq)
  have "step_ok me es (empty_or_node tts ST_FLOW_SEQ_EXPLICIT_END (q\<lparr>pa_have_token := False\<rparr>))"
    if "on me es (S_VALUE # S_SEQ # r) 0 q" "kept p q" for q tts
    using that p(2) by (intro empty_or_node_ok [where s = "S_VALUE # S_SEQ # r" and t = "S_KEY # S_SEQ # r" and n = 0]) (simp_all add: in_kept)
  moreover have "step_ok me es (ok ((inc_emit q (event_here OYL_EVT_SCALAR q))\<lparr>pa_state := ST_FLOW_SEQ_EXPLICIT_END\<rparr>))"
    if "on me es (S_VALUE # S_SEQ # r) 0 q" "kept p q" for q
    using that p(2) by (intro empty_here [OF that(1), where t = "S_KEY # S_SEQ # r"]) (simp_all add: in_kept)
  ultimately show ?thesis unfolding st_FLOW_SEQ_EXPLICIT_VALUE_def unfold_step
    by (intro step_ok_look [OF p(1)] step_ok_if) (simp_all add: cut_done emit_cut empty_or_node_cut)
qed

lemma st_FLOW_SEQ_ENTRY_KEY_ok:
  assumes "entry me es p" and "pa_state p = ST_FLOW_SEQ_ENTRY_KEY"
  shows "step_ok me es (st_FLOW_SEQ_ENTRY_KEY p)"
proof -
  obtain r where p: "on me es (S_SEQ # r) 0 p" "in_seq r p" using assms by (auto simp: fits_def elim: in_seq_entry)
  have saved: "saved_ok p" using assms by (auto simp: entry_def fits_def)
  have "on me es (S_VALUE # S_SEQ # r) (Suc (Suc 0)) (inc_emit (inc_emit p ((event_at OYL_EVT_MAPPING_START b b)\<lparr>evt_flow := True\<rparr>)) (pa_saved_node p))" for b
    using saved by (intro emit_on2 [OF p(1), where t = "S_KEY # S_SEQ # r"]) (auto simp: saved_ok_def)
  then show ?thesis unfolding st_FLOW_SEQ_ENTRY_KEY_def unfold_step
    using p(2) by (intro empty_or_node_ok [where s = "S_VALUE # S_SEQ # r" and t = "S_KEY # S_SEQ # r" and n = "Suc (Suc 0)"]) simp_all
qed

lemma node_event_types [simp]: "evt_type (if b then scalar_event p else alias_event q) = (if b then OYL_EVT_SCALAR else OYL_EVT_ALIAS)"
  by simp

lemma flow_seq_entry_ok:
  assumes "on me es (S_SEQ # r) 0 p" and "in_seq r p" and "pa_have_token p"
  shows "step_ok me es (st_FLOW_SEQ_ENTRY p)"
proof -
  obtain e a where e: "attach_props p (if cur_type p = OYL_TOK_SCALAR then scalar_event p else alias_event p) = (e, a)" by fastforce
  note w = attach_props_whole [OF e]
  have a: "on me es (S_SEQ # r) 0 (a\<lparr>pa_have_token := False\<rparr>)" "in_seq r a"
    using wholeD(1,2) [of a p] w assms(1,2) by (simp_all add: in_kept)
  have t: "evt_type e = OYL_EVT_SCALAR \<or> evt_type e = OYL_EVT_ALIAS" using w by auto
  have key: "step_ok me es (ok (q\<lparr>pa_saved_node := e, pa_have_saved_node := True, pa_state := ST_FLOW_SEQ_ENTRY_KEY\<rparr>))"
    if "on me es (S_SEQ # r) 0 q" "in_seq r q" for q
    using that t by (intro step_ok_ok [where s = "S_SEQ # r" and n = 0]) (auto simp: fits_def saved_ok_def)
  have entry: "step_ok me es (inc_flow_sep (inc_emit q e) True)" if "on me es (S_SEQ # r) 0 q" "in_seq r q" for q
    using that t by (intro flow_sep_seq_ok [where r = r and n = "Suc 0"] emit_on [OF that(1)]) auto
  have cut: "step_ok me es (inc_flow_sep (inc_emit q e) True) \<and> cut_ok me es q" if "soft me es (S_SEQ # r) 0 q" for q
  proof -
    have "soft me es (S_SEQ # r) (Suc 0) (inc_emit q e)" using t by (intro soft_emit [OF that]) auto
    from soft_after [OF this] soft_after [OF that] show ?thesis by (intro conjI flow_sep_cut) simp_all
  qed
  have seq: "in_seq r q" if "kept (a\<lparr>pa_have_token := False\<rparr>) q" for q using a(2) in_kept(2) [OF that] by simp
  show ?thesis unfolding st_FLOW_SEQ_ENTRY_def look_token(1) [OF assms(3)] e unfold_step
    by (simp only: prod.case) (rule step_ok_look_soft [OF a(1)]; intro step_ok_if; simp add: key entry cut cut_done seq)
qed

lemma empty_key_pair_ok:
  assumes "on me es (S_SEQ # r) 0 p" and "in_seq r p"
  shows "step_ok me es (inc_empty_key_pair p)"
proof -
  obtain key a where e: "attach_props p (event_here OYL_EVT_SCALAR p) = (key, a)" by fastforce
  note w = attach_props_whole [OF e]
  have a: "on me es (S_SEQ # r) 0 a" "in_seq r a"
    using wholeD(1,2) [of a p] w assms(1,2) by (simp_all add: in_kept)
  have "on me es (S_VALUE # S_SEQ # r) (Suc (Suc 0)) (inc_emit (inc_emit a ((event_at OYL_EVT_MAPPING_START b b)\<lparr>evt_flow := True\<rparr>)) key)" for b
    using w by (intro emit_on2 [OF a(1), where t = "S_KEY # S_SEQ # r"]) (simp_all add: event_here_def)
  then show ?thesis unfolding inc_empty_key_pair_def e unfold_step prod.case
    using a(2) by (intro empty_or_node_ok [where s = "S_VALUE # S_SEQ # r" and t = "S_KEY # S_SEQ # r" and n = "Suc (Suc 0)"]) simp_all
qed

lemma emit_with_props_on:
  assumes "on me es s n p" and "accept s (evt_type e) = Some t" and "n < 8"
  shows "on me es t (Suc n) (inc_emit_with_props p e) \<and> pa_frames (inc_emit_with_props p e) = pa_frames p \<and>
    pa_node_return (inc_emit_with_props p e) = pa_node_return p"
proof -
  obtain f a where f: "attach_props p e = (f, a)" by fastforce
  note w = attach_props_whole [OF f]
  then have "on me es s n a" "kept p a" using wholeD(1,2) [of a p] assms(1) by simp_all
  then show ?thesis using w assms(2,3) emit_on [of me es s n a f t] by (simp add: inc_emit_with_props_def f kept_def)
qed

lemma entry_props_ok:
  assumes "on me es (S_SEQ # r) 0 p" and "in_seq r p" and "pa_state p = ST_FLOW_SEQ_LOOP"
  shows "step_ok me es (inc_entry_props p)"
proof -
  have again: "step_ok me es (ok q)" if "on me es (S_SEQ # r) 0 q" "kept p q" "pa_have_token q" for q
    using that assms(2,3) in_kept(2) [OF that(2)] by (intro step_ok_ok [where s = "S_SEQ # r" and n = 0]) (auto simp: fits_def kept_def)
  have empty: "step_ok me es (inc_flow_sep (inc_emit_with_props q (event_here OYL_EVT_SCALAR q)) True)"
    if "on me es (S_SEQ # r) 0 q" "kept p q" for q
    using emit_with_props_on [OF that(1), of "event_here OYL_EVT_SCALAR q" "S_SEQ # r"] that(2) assms(2) in_kept(2) [OF that(2)]
    by (intro flow_sep_seq_ok [where r = r and n = "Suc 0"]) (simp_all add: event_here_def in_seq_def)
  have kept_trans: "kept p q" if "kept p a" "kept a q" for a q using that by (simp add: kept_def)
  show ?thesis unfolding inc_entry_props_def
  proof (rule step_ok_props [OF assms(1)])
    fix a
    assume a: "on me es (S_SEQ # r) 0 a" "kept p a" "pa_have_token a"
    show "step_ok me es (peeked a (\<lambda>p. if cur_type p = OYL_TOK_FLOW_ENTRY \<or> cur_type p = OYL_TOK_FLOW_SEQ_END
        then inc_flow_sep (inc_emit_with_props p (event_here OYL_EVT_SCALAR p)) True
        else if cur_type p = OYL_TOK_TAG \<or> cur_type p = OYL_TOK_ANCHOR
        then fail_with p (''expected '' @ in_quotes '','' @ '' or '' @ in_quotes '']'' @ '' in flow sequence'')
        else ok p))"
      unfolding look_token(2) [OF a(3)] using a by (simp add: empty again step_ok_failed)
  qed
qed

lemma st_FLOW_SEQ_LOOP_ok:
  assumes "entry me es p" and "pa_state p = ST_FLOW_SEQ_LOOP"
  shows "step_ok me es (st_FLOW_SEQ_LOOP p)"
proof -
  obtain r where p: "on me es (S_SEQ # r) 0 p" "in_seq r p" using assms by (auto simp: fits_def elim: in_seq_entry)
  have oom: "\<not> pa_oom p" and token: "pa_have_token p \<or> cur_type p = OYL_TOK_FLOW_ENTRY \<or> cur_type p = OYL_TOK_FLOW_SEQ_START"
    using assms by (auto simp: entry_def fits_def)
  have states: "step_ok me es (ok (q\<lparr>pa_state := st\<rparr>))"
    if "on me es (S_SEQ # r) 0 q" "kept p q" "st = ST_FLOW_SEQ_END \<or> st = ST_FLOW_SEQ_EXPLICIT_KEY" for q st
    using that p(2) in_kept(2) [OF that(2)] by (intro next_state [OF that(1)]) (auto simp: fits_def)
  have entry: "step_ok me es (st_FLOW_SEQ_ENTRY (q\<lparr>pa_state := ST_FLOW_SEQ_ENTRY\<rparr>))"
    if "on me es (S_SEQ # r) 0 q" "kept p q" "pa_have_token q" for q
    using that p(2) in_kept(2) [OF that(2)] by (intro flow_seq_entry_ok [where r = r]) simp_all
  have nested: "step_ok me es (case flow_is_block_key q i of
      (b, p) \<Rightarrow> if b then ok (p\<lparr>pa_state := ST_EAGER_DRAIN\<rparr>) else ok (p\<lparr>pa_node_return := ST_FLOW_SEQ_SEP, pa_state := ST_FLOW_NODE\<rparr>))"
    if "on me es (S_SEQ # r) 0 q" "kept p q" "pa_have_token q" for q i
  proof -
    obtain b a where b: "flow_is_block_key q i = (b, a)" by fastforce
    note w = wholeD [OF flow_is_block_key_whole [OF b]]
    have a: "on me es (S_SEQ # r) 0 a" "in_seq r a" "pa_have_token a"
      using w(1-3) that p(2) in_kept(2) [OF that(2)] in_kept(2) [OF w(2)] by simp_all
    have "step_ok me es (ok (a\<lparr>pa_state := ST_EAGER_DRAIN\<rparr>))" using a(1) by (intro next_state) (simp_all add: fits_def)
    moreover have "step_ok me es (ok (a\<lparr>pa_node_return := ST_FLOW_SEQ_SEP, pa_state := ST_FLOW_NODE\<rparr>))"
      using a by (intro flow_node_here [OF a(1), where t = "S_SEQ # r"]) simp_all
    ultimately show ?thesis by (simp add: b)
  qed
  have nested_cut: "step_ok me es (case flow_is_block_key q i of
      (b, p) \<Rightarrow> if b then ok (p\<lparr>pa_state := ST_EAGER_DRAIN\<rparr>) else ok (p\<lparr>pa_node_return := ST_FLOW_SEQ_SEP, pa_state := ST_FLOW_NODE\<rparr>))"
    if "cut_ok me es q" for q i
  proof -
    obtain b a where b: "flow_is_block_key q i = (b, a)" by fastforce
    have "cut_ok me es a" using wholeD(5) [OF flow_is_block_key_whole [OF b]] that by blast
    then show ?thesis by (simp add: b cut_done)
  qed
  have pair: "step_ok me es (inc_empty_key_pair q)" if "on me es (S_SEQ # r) 0 q" "kept p q" for q
    using that p(2) in_kept(2) [OF that(2)] by (intro empty_key_pair_ok [where r = r]) simp_all
  have props: "step_ok me es (inc_entry_props q)" if "on me es (S_SEQ # r) 0 q" "kept p q" for q
    using that p(2) in_kept(2) [OF that(2)] assms(2) by (intro entry_props_ok [where r = r]) (simp_all add: kept_def)
  have stale_token: "cur_type q = OYL_TOK_FLOW_ENTRY \<or> cur_type q = OYL_TOK_FLOW_SEQ_START" if "pa_current q = pa_current p" "\<not> pa_have_token p" for q
    using token that by (simp add: cur_type_def)
  show ?thesis unfolding st_FLOW_SEQ_LOOP_def unfold_step
  proof (rule step_ok_unless [OF oom], rule step_ok_look [OF p(1)], goal_cases here stale)
    case (here q)
    then show ?case by (simp add: states entry nested pair props step_ok_failed)
  next
    case (stale q)
    then show ?case using stale_token [OF stale(3,4)] by (elim disjE) (simp_all add: nested_cut cut_done)
  qed
qed

subsection \<open>Flow nodes\<close>

lemma open_flow_ok:
  assumes "on me es s 0 p" and "waits s p"
    and "t = OYL_EVT_SEQUENCE_START \<and> ct = CTX_FLOW_SEQ \<and> st = ST_FLOW_SEQ_LOOP \<and> cur_type p = OYL_TOK_FLOW_SEQ_START \<or>
      t = OYL_EVT_MAPPING_START \<and> ct = CTX_FLOW_MAP \<and> st = ST_FLOW_MAP_LOOP \<and> cur_type p = OYL_TOK_FLOW_MAP_START"
  shows "step_ok me es (inc_open_flow t ct st p)"
proof -
  obtain e a where e: "attach_props p (flow_start t p) = (e, a)" by fastforce
  note w = attach_props_whole [OF e]
  have a: "on me es s 0 a" "waits s a" "cur_type a = cur_type p"
    using wholeD(1,2,4) [of a p] w assms(1,2) waits_kept by (simp_all add: cur_type_def)
  obtain u where u: "chain (pa_node_return a) (pa_frames a) = Some u" "filled s = Some u" using waitsE [OF a(2)] .
  let ?top = "if ct = CTX_FLOW_SEQ then S_SEQ else S_KEY"
  have "on me es (?top # u) (Suc 0) (inc_emit (a\<lparr>pa_have_token := False\<rparr>) e)"
    using a(1) u(2) w assms(3) by (intro emit_on [where s = s]) auto
  then show ?thesis unfolding inc_open_flow_def e unfold_step prod.case
    using u(1) a(3) assms(3) by (intro push_done) (auto simp: fits_def cur_type_def)
qed

lemma flow_node_content_ok:
  assumes "on me es s 0 p" and "waits s p"
  shows "step_ok me es (flow_node_content p)"
proof -
  obtain u where u: "chain (pa_node_return p) (pa_frames p) = Some u" "filled s = Some u" using waitsE [OF assms(2)] .
  have "step_ok me es (node_done (inc_emit_scalar_token p))"
    using u by (intro node_done_ok [where s = u and n = "Suc 0"] emit_scalar_on [OF assms(1)]) simp_all
  moreover have "step_ok me es (node_done (inc_emit (a\<lparr>pa_have_token := False\<rparr>) e))" if "attach_props p (alias_event p) = (e, a)" for e a
  proof -
    note w = attach_props_whole [OF that]
    then have "on me es s 0 (a\<lparr>pa_have_token := False\<rparr>)" "waits s (a\<lparr>pa_have_token := False\<rparr>)"
      using wholeD(1,2) [of a p] assms waits_kept by (simp_all add: waits_def kept_def)
    then show ?thesis using w by (intro node_emitted [where s = s and n = 0]) simp_all
  qed
  moreover have "step_ok me es (node_done (inc_emit_with_props p (event_here OYL_EVT_SCALAR p)))"
    using emit_with_props_on [OF assms(1), of "event_here OYL_EVT_SCALAR p" u] u
    by (intro node_done_ok [where s = u and n = "Suc 0"]) (simp_all add: event_here_def)
  ultimately show ?thesis
    unfolding flow_node_content_def unfold_step
    by (intro step_ok_if) (auto intro: open_flow_ok [OF assms] split: prod.split)
qed

lemma st_FLOW_NODE_ok:
  assumes "entry me es p" and "pa_state p = ST_FLOW_NODE"
  shows "step_ok me es (st_FLOW_NODE p)"
proof -
  obtain s where p: "on me es s 0 p" "waits s p" "pa_have_token p" using assms by (auto simp: entry_def fits_def)
  have "step_ok me es (look q flow_node_content)" if "on me es s 0 q" "kept p q" "pa_have_token q" for q
    using that p(2) waits_kept by (simp add: look_token flow_node_content_ok)
  then have "step_ok me es (then_ok (consume_props p) (\<lambda>p. look p flow_node_content))"
    by (intro step_ok_props [OF p(1)]) simp_all
  then show ?thesis unfolding st_FLOW_NODE_def look_token(1) [OF p(3)] using flow_node_content_ok [OF p(1,2)] by simp
qed

section \<open>The machine\<close>

lemmas state_steps = st_STREAM_START_ok st_STREAM_DOC_LOOP_ok st_STREAM_END_ok st_DOC_DIRECTIVES_ok st_DOC_START_EXPLICIT_ok
  st_DOC_START_IMPLICIT_ok st_DOC_CONTENT_ok st_BLOCK_NODE_ok st_BLOCK_NODE_SCALAR_ok st_BLOCK_NODE_SCALAR_KEY_ok
  st_BLOCK_NODE_ALIAS_ok st_BLOCK_NODE_ALIAS_KEY_ok st_BLOCK_NODE_SEQ_ok st_BLOCK_NODE_EXPLICIT_KEY_ok
  st_BLOCK_NODE_BARE_VALUE_ok st_BLOCK_NODE_EMPTY_ok st_BLOCK_MAP_LOOP_ok st_BLOCK_MAP_EXPLICIT_KEY_ok
  st_BLOCK_MAP_SIMPLE_KEY_ok st_BLOCK_MAP_POST_KEY_ok st_BLOCK_MAP_VALUE_ok st_BLOCK_MAP_END_ok st_BLOCK_SEQ_LOOP_ok
  st_BLOCK_SEQ_ENTRY_ok st_BLOCK_SEQ_END_ok st_FLOW_NODE_ok st_FLOW_MAP_LOOP_ok st_FLOW_MAP_VALUE_ok st_FLOW_MAP_SEP_ok
  st_FLOW_MAP_END_ok st_FLOW_SEQ_LOOP_ok st_FLOW_SEQ_ENTRY_KEY_ok st_FLOW_SEQ_IMPLICIT_END_ok st_FLOW_SEQ_EXPLICIT_KEY_ok
  st_FLOW_SEQ_EXPLICIT_VALUE_ok st_FLOW_SEQ_EXPLICIT_END_ok st_FLOW_SEQ_SEP_ok st_FLOW_SEQ_END_ok

text \<open>Every step leads from a parser whose stack fits its state to such a parser, unless it fails.\<close>

lemma parser_step_ok:
  assumes "entry me es p" and "pa_state p \<noteq> ST_DONE"
  shows "step_ok me es (parser_step p)"
proof -
  obtain s where p: "on me es s 0 p" "fits s p" "\<not> pa_oom p" using assms(1) by (auto simp: entry_def)
  have "step_ok me es (inc_end_document p)" if "pa_state p = ST_DOC_END_EXPLICIT"
  proof -
    have "chain ST_DOC_END_EXPLICIT (pa_frames p) = Some s" using p(2) that by (simp add: fits_def)
    then have "pa_frames p = [] \<and> s = [S_ROOT, S_STREAM]" by (cases "pa_frames p") (auto simp: part_def)
    then show ?thesis using p(1) by (intro inc_end_document_ok [where n = 0]) simp_all
  qed
  moreover have "step_ok me es (ok p)" using p by (intro step_ok_ok)
  ultimately show ?thesis
    using p(2,3) assms unfolding parser_step_def parser_step_flow_def
    by (cases "pa_state p") (simp_all add: unless_oom_def state_steps fits_def)
qed

end
