(* ===== verification/OylIncDelivery.thy ===== *)
theory OylIncDelivery
  imports OylIncStream
begin

text \<open>
  What the incremental parser delivers: the acceptor follows the calls of \<open>oyl_parse_next\<close>, through the
  buffer, failed scans, limits and failed allocations.
\<close>

section \<open>Between two calls\<close>

definition pending :: "oyl_parser \<Rightarrow> oyl_event list" where
  "pending p = drop (pa_out_cursor p) (pa_out_buf p)"

definition running :: "int \<Rightarrow> oyl_event list \<Rightarrow> oyl_parser \<Rightarrow> bool" where
  "running me es p \<longleftrightarrow> pa_events_delivered p = int (length es) \<and>
     pa_max_events p = me \<and> (me > 0 \<longrightarrow> int (length (es @ pending p)) \<le> me) \<and>
     after (es @ pending p) \<noteq> None \<and>
     (pa_scan_error p = OYL_OK \<longrightarrow> \<not> pa_oom p \<longrightarrow> (\<exists>s. after (es @ pending p) = Some s \<and> fits s p))"

lemma fits_delivered [simp]:
  "fits s (p\<lparr>pa_out_cursor := n\<rparr>) = fits s p" "fits s (p\<lparr>pa_out_buf := b\<rparr>) = fits s p"
  "fits s (p\<lparr>pa_events_delivered := d\<rparr>) = fits s p" "fits s (p\<lparr>pa_delivered_sig := g\<rparr>) = fits s p"
  by (simp_all add: fits_def between_documents_def waits_def saved_ok_def cur_type_def split: parser_state.split)

lemma drained_simps [simp]:
  "pending (drained p) = pending p" "pa_events_delivered (drained p) = pa_events_delivered p"
  "pa_max_events (drained p) = pa_max_events p" "pa_scan_error (drained p) = pa_scan_error p"
  "pa_oom (drained p) = pa_oom p" "fits s (drained p) = fits s p" "pa_incremental (drained p) = pa_incremental p"
  by (simp_all add: drained_def pending_def)

text \<open>An event is taken from the buffer.\<close>

lemma inc_delivered_simps [simp]:
  "pending (inc_delivered p e) = pending p" "pa_events_delivered (inc_delivered p e) = pa_events_delivered p + 1"
  "pa_max_events (inc_delivered p e) = pa_max_events p" "pa_scan_error (inc_delivered p e) = pa_scan_error p"
  "pa_oom (inc_delivered p e) = pa_oom p" "fits s (inc_delivered p e) = fits s p"
  by (simp_all add: inc_delivered_def pending_def)

lemma deliver_running:
  assumes "running me es p" and "pa_out_cursor p < length (pa_out_buf p)" and "e = pa_out_buf p ! pa_out_cursor p"
  shows "running me (es @ [e]) (inc_delivered (drained (p\<lparr>pa_out_cursor := pa_out_cursor p + 1\<rparr>)) e)"
proof -
  let ?q = "p\<lparr>pa_out_cursor := pa_out_cursor p + 1\<rparr>"
  have "pending p = e # pending ?q" using assms(2,3) by (simp add: pending_def Cons_nth_drop_Suc)
  then show ?thesis using assms(1) by (simp add: running_def)
qed

lemma deliver_first_running:
  assumes "running me es p" and "pa_out_cursor p = 0" and "pa_out_buf p \<noteq> []" and "deliver_first p = Some (Inr e, q)"
  shows "running me (es @ [e]) q"
proof -
  have "e = pa_out_buf p ! 0" "q = inc_delivered (drained (p\<lparr>pa_out_cursor := 1\<rparr>)) e"
    using assms(4) by (auto simp: deliver_first_def Let_def)
  with deliver_running [OF assms(1), of e] assms(2,3) show ?thesis by simp
qed

text \<open>Before a step the buffer is empty.\<close>

lemma running_entry:
  assumes "running me es p" and "pa_out_buf p = []" and "pa_scan_error p = OYL_OK" and "\<not> pa_oom p" and "pa_out_cursor p = 0"
  shows "entry me es p"
proof -
  obtain s where "after es = Some s" "fits s p" using assms by (auto simp: running_def pending_def)
  then show ?thesis using assms by (auto simp: entry_def on_def within_limit_def running_def pending_def)
qed

section \<open>The loop\<close>

text \<open>After a step, with what a failed scan leaves.\<close>

lemma step_running:
  assumes "stepped me es st q"
  shows "pa_scan_error q \<noteq> OYL_OK \<Longrightarrow> running me es (q\<lparr>pa_out_buf := take (pa_scan_error_out q) (pa_out_buf q)\<rparr>) \<and> pa_out_cursor q = 0"
    and "pa_scan_error q = OYL_OK \<Longrightarrow> st = OYL_OK \<Longrightarrow> running me es q \<and> pa_out_cursor q = 0"
  using assms by (auto simp: stepped_def cut_ok_def running_def pending_def within_limit_def)

lemma fall_back_mode: "fall_back p = (b, q) \<Longrightarrow> \<not> pa_incremental q"
  by (auto simp: fall_back_def new_scanner_def Let_def split: option.splits prod.splits if_split_asm)

lemma inc_loop_running:
  assumes "running me es p" and "pa_out_cursor p = 0" and "pa_out_buf p = [] \<Longrightarrow> pa_scan_error p = OYL_OK \<and> pa_state p \<noteq> ST_DONE"
    and "inc_loop n k p = Some (Inr e, q)" and "pa_incremental q" and "evt_type e \<noteq> OYL_EVT_NONE"
  shows "running me (es @ [e]) q"
  using assms
proof (induction n k p rule: inc_loop.induct)
  case (1 n k p)
  show ?case
  proof (cases "pa_out_buf p = []")
    case False
    then show ?thesis using 1(2,3,5) deliver_first_running by (simp add: inc_loop.simps [of n k p])
  next
    case empty: True
    then obtain k' st r where k: "k = Suc k'" and r: "parser_step p = Some (st, r)"
      using 1(5) by (auto simp: inc_loop.simps [of n k p] split: nat.splits option.splits)
    have p: "pa_scan_error p = OYL_OK" "pa_state p \<noteq> ST_DONE" using 1(4) empty by simp_all
    have loop: "(if pa_scan_error r \<noteq> OYL_OK then
           let r = r\<lparr>pa_out_buf := take (pa_scan_error_out r) (pa_out_buf r)\<rparr>
           in if pa_out_buf r \<noteq> [] then deliver_first r else Some (Inl (pa_scan_error r), r)
         else if st \<noteq> OYL_OK then Some (Inl st, r)
         else if pa_oom r then
           if pa_out_buf r \<noteq> [] then deliver_first r else Some (Inl (OOM_STATUS r), r)
         else if pa_state r = ST_EAGER_DRAIN then
           (case fall_back r of
              (False, r) \<Rightarrow> Some (Inl OYL_ERR_MEMORY, r)
            | (True, r) \<Rightarrow> eager_next_event n (Suc k') r)
         else if pa_state r = ST_DONE \<and> pa_out_buf r = [] then Some (Inr no_event, r)
         else inc_loop n k' r) = Some (Inr e, q)"
      using 1(5) empty k r by (simp add: inc_loop.simps [of n "Suc k'" p])
    show ?thesis
    proof (cases "pa_oom p")
      case True
      then have "st \<noteq> OYL_OK" "r = p" using r by (auto simp: parser_step_def unless_oom_def oom_status_not_ok)
      then show ?thesis using loop p by simp
    next
      case False
      have step: "stepped me es st r"
        using parser_step_ok [OF running_entry [OF 1(2) empty p(1) False 1(3)] p(2)] r by (simp add: step_ok_def)
      consider (scan) "pa_scan_error r \<noteq> OYL_OK" | (failed) "pa_scan_error r = OYL_OK" "st \<noteq> OYL_OK"
        | (on) "pa_scan_error r = OYL_OK" "st = OYL_OK" by blast
      then show ?thesis
      proof cases
        case scan
        note r1 = step_running(1) [OF step scan]
        from scan loop have "take (pa_scan_error_out r) (pa_out_buf r) \<noteq> []"
          "deliver_first (r\<lparr>pa_out_buf := take (pa_scan_error_out r) (pa_out_buf r)\<rparr>) = Some (Inr e, q)"
          by (auto simp: Let_def split: if_split_asm)
        with deliver_first_running [OF conjunct1 [OF r1], of e q] r1 show ?thesis by simp
      next
        case failed
        then show ?thesis using loop by simp
      next
        case on
        note r1 = step_running(2) [OF step on]
        have eager: False if "eager_next_event n (Suc k') f = Some (Inr e, q)" "fall_back r = (b, f)" for f b
          using eager_next_mode [OF that(1)] fall_back_mode [OF that(2)] 1(6) by simp
        consider (out) "pa_oom r" "pa_out_buf r \<noteq> []" "deliver_first r = Some (Inr e, q)"
          | (again) "\<not> pa_oom r" "pa_state r \<noteq> ST_EAGER_DRAIN" "\<not> (pa_state r = ST_DONE \<and> pa_out_buf r = [])"
              "inc_loop n k' r = Some (Inr e, q)"
          using loop on eager 1(7) by (auto simp: no_event_def plain_event_def split: if_split_asm prod.splits bool.splits)
        then show ?thesis
        proof cases
          case out
          with deliver_first_running r1 show ?thesis by blast
        next
          case again
          from 1(1) [OF _ k r refl _ _ _ _ _ conjunct1 [OF r1] conjunct2 [OF r1] _ again(4) 1(6,7)] empty on again
          show ?thesis by auto
        qed
      qed
    qed
  qed
qed

section \<open>The calls\<close>

lemma next_running:
  assumes "running me es p" and "pa_incremental p" and "next_event n k p = Some (Inr e, q)" and "pa_incremental q"
    and "evt_type e \<noteq> OYL_EVT_NONE"
  shows "running me (es @ [e]) q"
proof (cases "pa_out_cursor p < length (pa_out_buf p)")
  case True
  then have "e = pa_out_buf p ! pa_out_cursor p" "q = inc_delivered (drained (p\<lparr>pa_out_cursor := pa_out_cursor p + 1\<rparr>)) e"
    using assms(2,3) by (auto simp: next_event_def Let_def)
  with deliver_running [OF assms(1) True] show ?thesis by blast
next
  case False
  then have "pending p = []" by (simp add: pending_def)
  then have "running me es (p\<lparr>pa_out_buf := [], pa_out_cursor := 0\<rparr>)" using assms(1) by (simp add: running_def) (simp add: pending_def)
  moreover have "pa_state p \<noteq> ST_DONE" "pa_scan_error p = OYL_OK" "inc_loop n k (p\<lparr>pa_out_buf := [], pa_out_cursor := 0\<rparr>) = Some (Inr e, q)"
    using False assms(2,3,5) by (auto simp: next_event_def no_event_def plain_event_def split: if_split_asm)
  ultimately show ?thesis using inc_loop_running [of me es _ n k e q] assms(4,5) by simp
qed

lemma delivers_running:
  assumes "delivers n k p es q" and "running me [] p" and "pa_incremental q"
  shows "running me es q"
  using assms
proof induction
  case (delivers_event es q e r)
  from delivers_event.hyps(2) have call: "next_event n k q = Some (Inr e, r)"
    by (auto simp: oyl_parse_next_def split: option.splits sum.splits)
  have "pa_incremental q"
  proof (rule ccontr)
    assume mode: "\<not> pa_incremental q"
    with call have "eager_next_event n k q = Some (Inr e, r)" by (simp add: next_event_def)
    from eager_next_mode [OF this] mode delivers_event.prems(2) show False by simp
  qed
  with delivers_event call show ?case by (intro next_running [of me es q n k e r]) simp_all
qed

abbreviation limited :: "oyl_parser \<Rightarrow> int \<Rightarrow> int \<Rightarrow> oyl_parser" where
  "limited p me md \<equiv> oyl_parser_set_max_depth (oyl_parser_set_max_events p me) md"

lemma new_running: "oyl_parser_new m sm sse42 input = Some p \<Longrightarrow> running me [] (limited p me md)"
  by (auto simp: oyl_parser_new_def running_def pending_def fits_def oyl_parser_set_max_depth_def
      oyl_parser_set_max_events_def Let_def split: if_split_asm option.splits prod.splits)

section \<open>The stream of the incremental parser\<close>

text \<open>
  C4: The incremental parser never delivers a wrong event: as long as it has not fallen back, the events
  delivered so far are accepted as the start of a stream, with every start and end at its place, the
  keys and values of a mapping in turn, and one root in a document, and there are not more of them than the event
  limit allows, whatever the input, the failed scans and the failures of allocations.
\<close>

theorem incremental_stream_accepted:
  assumes "oyl_parser_new m sm sse42 input = Some p"
    and "delivers n k (oyl_parser_set_max_depth (oyl_parser_set_max_events p me) md) es q" and "pa_incremental q"
  shows "after es \<noteq> None \<and> (me > 0 \<longrightarrow> int (length es) \<le> me)"
proof -
  have "running me es q" by (rule delivers_running [OF assms(2) new_running [OF assms(1)] assms(3)])
  then show ?thesis using accepts_prefix [of es "pending q"] by (auto simp: running_def)
qed

text \<open>
  C5: When the incremental parser has delivered the end of the stream, the stream is well formed: a
  stream start, documents and the stream end, and every document is a start, the events of one complete
  tree of nodes, and an end.
\<close>

theorem incremental_stream_well_formed:
  assumes "oyl_parser_new m sm sse42 input = Some p"
    and "delivers n k (oyl_parser_set_max_depth (oyl_parser_set_max_events p me) md) (fs @ [e]) q" and "pa_incremental q"
    and "evt_type e = OYL_EVT_STREAM_END"
  shows "\<exists>b docs. evt_type b = OYL_EVT_STREAM_START \<and> list_all tree_document docs \<and> fs = b # concat docs"
proof -
  have "running me (fs @ [e]) q" by (rule delivers_running [OF assms(2) new_running [OF assms(1)] assms(3)])
  then show ?thesis using accepts_prefix [of "fs @ [e]" "pending q"] after_stream_end [OF _ assms(4)] by (auto simp: running_def)
qed

text \<open>The text is \<open>- a\<close>.\<close>

definition sample_incremental :: oyl_parser where
  "sample_incremental = oyl_parser_set_max_depth (oyl_parser_set_max_events
     (the (oyl_parser_new [] [] False [DASH, SP, LC_A])) 100) 10"

lemma sample_inc_calls:
  "map_option (\<lambda>(es, q). (map evt_type es, pa_incremental q)) (calls 0 8 sample_incremental 7) =
    Some ([OYL_EVT_STREAM_START, OYL_EVT_DOC_START, OYL_EVT_SEQUENCE_START, OYL_EVT_SCALAR, OYL_EVT_SEQUENCE_END,
      OYL_EVT_DOC_END, OYL_EVT_STREAM_END], True)"
  by code_simp

lemma sample_inc_run:
  obtains p es q where "oyl_parser_new [] [] False [DASH, SP, LC_A] = Some p"
    and "delivers 0 8 (oyl_parser_set_max_depth (oyl_parser_set_max_events p 100) 10) es q" and "pa_incremental q"
    and "map evt_type es = [OYL_EVT_STREAM_START, OYL_EVT_DOC_START, OYL_EVT_SEQUENCE_START, OYL_EVT_SCALAR,
      OYL_EVT_SEQUENCE_END, OYL_EVT_DOC_END, OYL_EVT_STREAM_END]"
proof -
  obtain es q where calls: "calls 0 8 sample_incremental 7 = Some (es, q)"
    using sample_inc_calls by (cases "calls 0 8 sample_incremental 7") auto
  obtain p where p: "oyl_parser_new [] [] False [DASH, SP, LC_A] = Some p"
    by (simp add: oyl_parser_new_def oyl_scanner_new_def Let_def)
  from calls_delivers [OF calls] have "delivers 0 8 (oyl_parser_set_max_depth (oyl_parser_set_max_events p 100) 10) es q"
    by (simp add: sample_incremental_def p)
  then show thesis using that [OF p] calls sample_inc_calls by simp
qed

theorem incremental_stream_accepted_witness:
  "\<exists>es q. delivers 0 8 sample_incremental es q \<and> length es = 7 \<and> after es \<noteq> None \<and> int (length es) \<le> 100"
proof -
  obtain p es q where run: "oyl_parser_new [] [] False [DASH, SP, LC_A] = Some p"
    "delivers 0 8 (oyl_parser_set_max_depth (oyl_parser_set_max_events p 100) 10) es q" "pa_incremental q"
    and types: "map evt_type es = [OYL_EVT_STREAM_START, OYL_EVT_DOC_START, OYL_EVT_SEQUENCE_START, OYL_EVT_SCALAR,
      OYL_EVT_SEQUENCE_END, OYL_EVT_DOC_END, OYL_EVT_STREAM_END]" by (rule sample_inc_run)
  have "delivers 0 8 sample_incremental es q" using run(1,2) by (simp add: sample_incremental_def)
  moreover have "length es = 7" using arg_cong [OF types, of length] by simp
  ultimately show ?thesis using incremental_stream_accepted [OF run] by (intro exI [of _ es] exI [of _ q]) simp
qed

theorem incremental_stream_well_formed_witness:
  "\<exists>fs e q. delivers 0 8 sample_incremental (fs @ [e]) q \<and> length fs = 6 \<and>
    (\<exists>b docs. evt_type b = OYL_EVT_STREAM_START \<and> list_all tree_document docs \<and> fs = b # concat docs)"
proof -
  obtain p es q where run: "oyl_parser_new [] [] False [DASH, SP, LC_A] = Some p"
    "delivers 0 8 (oyl_parser_set_max_depth (oyl_parser_set_max_events p 100) 10) es q" "pa_incremental q"
    and types: "map evt_type es = [OYL_EVT_STREAM_START, OYL_EVT_DOC_START, OYL_EVT_SEQUENCE_START, OYL_EVT_SCALAR,
      OYL_EVT_SEQUENCE_END, OYL_EVT_DOC_END, OYL_EVT_STREAM_END]" by (rule sample_inc_run)
  from types obtain fs e where es: "es = fs @ [e]" "evt_type e = OYL_EVT_STREAM_END" "length fs = 6"
    using map_eq_append_conv [of evt_type es "[OYL_EVT_STREAM_START, OYL_EVT_DOC_START, OYL_EVT_SEQUENCE_START,
      OYL_EVT_SCALAR, OYL_EVT_SEQUENCE_END, OYL_EVT_DOC_END]" "[OYL_EVT_STREAM_END]"] by auto
  have "delivers 0 8 sample_incremental (fs @ [e]) q" using run(1,2) es(1) by (simp add: sample_incremental_def)
  with es(3) incremental_stream_well_formed [OF run(1) run(2) [unfolded es(1)] run(3) es(2)] show ?thesis
    by blast
qed

end
