(* ===== verification/OylGrammarEnds.thy ===== *)
theory OylGrammarEnds
  imports OylEagerMode
begin

text \<open>
  The eager parser returns from every call: the grammar's functions call each other at most a few times
  before a token is consumed, and a round of a loop consumes one that takes input.
\<close>

section \<open>What is left to read\<close>

definition toks :: "oyl_parser \<Rightarrow> oyl_scanner \<times> bool \<times> oyl_token" where
  "toks p = (pa_scanner p, pa_have_token p, pa_current p)"

lemma toksD:
  assumes "toks q = toks p"
  shows "pa_scanner q = pa_scanner p" "pa_have_token q = pa_have_token p" "cur_type q = cur_type p"
  using assms by (simp_all add: toks_def cur_type_def)

text \<open>
  Twice the bytes that the scanner has left, and one for a token at hand that took input. A scalar counts
  nothing: the scanner may return empty ones without end.
\<close>

definition tokens_left :: "oyl_parser \<Rightarrow> nat" where
  "tokens_left p = 2 * (length (sc_buf (pa_scanner p)) - sc_pos (pa_scanner p)) +
     (if pa_have_token p \<and> token_counts (cur_type p) then 1 else 0)"

definition left :: "nat \<Rightarrow> oyl_parser \<Rightarrow> bool" where
  "left m p \<longleftrightarrow> scanner_ok (pa_scanner p) \<and> tokens_left p \<le> m"

lemma left_toks: "toks q = toks p \<Longrightarrow> left m q = left m p"
  using toksD [of q p] by (simp add: left_def tokens_left_def)

lemma left_same: "left m p \<Longrightarrow> toks q = toks p \<Longrightarrow> left m q"
  using left_toks [of q p] by simp

lemma left_mono: "left m p \<Longrightarrow> m \<le> n \<Longrightarrow> left n p"
  by (simp add: left_def)

lemma peek_left:
  assumes "left m p"
  shows "\<exists>st q. peek_token p = Some (st, q) \<and> left m q \<and> (pa_have_token p \<longrightarrow> q = p \<and> st = OYL_OK) \<and>
    (st = OYL_OK \<longrightarrow> pa_have_token q)"
proof (cases "pa_have_token p")
  case True
  with assms show ?thesis by (simp add: peek_token_def)
next
  case False
  have ok: "scanner_ok (pa_scanner p)" using assms by (simp add: left_def)
  then obtain r s where rs: "oyl_scan_token (pa_scanner p) = Some (r, s)" "scanner_inv s"
    using scan_token_ok [of "pa_scanner p"] by (auto simp: scanner_ok_def)
  note keeps = token_keeps [OF ok rs(1)]
  have pos: "sc_pos s \<le> length (sc_buf s)" using rs(2) by (simp add: scanner_inv_def cursor_ok_def)
  show ?thesis
  proof (cases r)
    case (Inr tok)
    then have peek: "peek_token p = Some (OYL_OK, p\<lparr>pa_scanner := s, pa_current := tok, pa_have_token := True\<rparr>)"
      using False rs by (simp add: peek_token_def)
    have "tokens_left (p\<lparr>pa_scanner := s, pa_current := tok, pa_have_token := True\<rparr>) \<le> tokens_left p"
      using False keeps(2,3) keeps(4) [OF Inr] pos by (cases "token_counts (tok_type tok)") (simp_all add: tokens_left_def cur_type_def)
    with peek False keeps(1) assms show ?thesis by (auto simp: left_def)
  next
    case (Inl st)
    then have st: "st \<noteq> OYL_OK" using keeps(5) by blast
    obtain q where q: "peek_token p = Some (st, q)" "pa_scanner q = s" "\<not> pa_have_token q"
      using False rs Inl by (cases "peek_token p") (auto simp: peek_token_def Let_def split: option.splits)
    then have "tokens_left q \<le> tokens_left p" using False keeps(2,3) by (simp add: tokens_left_def)
    with q st False keeps(1) assms show ?thesis by (auto simp: left_def)
  qed
qed

text \<open>Consuming the token at hand.\<close>

lemma consume_left [simp]: "left m p \<Longrightarrow> left m (consume_token p)"
  by (auto simp: left_def tokens_left_def consume_token_def)

lemma consume_counted:
  assumes "left m p" and "pa_have_token p" and "token_counts (cur_type p)"
  shows "0 < m" and "left (m - 1) (consume_token p)"
  using assms by (auto simp: left_def tokens_left_def consume_token_def)

section \<open>Results\<close>

text \<open>There is a result, and \<open>Q\<close> holds on success.\<close>

definition ends :: "(oyl_parser \<Rightarrow> bool) \<Rightarrow> parse_result \<Rightarrow> bool" where
  "ends Q r \<longleftrightarrow> (\<exists>st q. r = Some (st, q) \<and> (st = OYL_OK \<longrightarrow> Q q))"

named_theorems ends_rules

lemma ends_then [ends_rules]: "ends (\<lambda>q. ends Q (k q)) r \<Longrightarrow> ends Q (then_ok r k)"
  by (auto simp: ends_def then_ok_def)

lemma ends_mono: "ends P r \<Longrightarrow> (\<And>q. P q \<Longrightarrow> Q q) \<Longrightarrow> ends Q r"
  by (auto simp: ends_def)

lemma ends_ok [ends_rules]: "Q p \<Longrightarrow> ends Q (ok p)"
  by (simp add: ends_def ok_def)

lemma ends_fail [ends_rules]: "ends Q (fail_with p msg)"
  by (simp add: ends_def fail_with_def PARSE_ERROR_def)

lemma ends_if [ends_rules]: "(b \<Longrightarrow> ends Q x) \<Longrightarrow> (\<not> b \<Longrightarrow> ends Q y) \<Longrightarrow> ends Q (if b then x else y)"
  by simp

lemma ends_unless [ends_rules]: "ends Q (k p) \<Longrightarrow> ends Q (unless_oom p k)"
  by (simp add: unless_oom_def ends_def oom_status_not_ok)

lemma ends_guard [ends_rules]: "ends Q (k p) \<Longrightarrow> ends Q (loop_guard p k)"
  by (simp add: loop_guard_def unless_oom_def ends_def oom_status_not_ok)

lemma ends_peeked:
  assumes "left m p" and "\<And>q. left m q \<Longrightarrow> pa_have_token q \<Longrightarrow> (pa_have_token p \<Longrightarrow> q = p) \<Longrightarrow> ends Q (k q)"
  shows "ends Q (peeked p k)"
proof -
  obtain st q where "peek_token p = Some (st, q)" "left m q" "pa_have_token p \<longrightarrow> q = p \<and> st = OYL_OK"
    "st = OYL_OK \<longrightarrow> pa_have_token q" using peek_left [OF assms(1)] by blast
  with assms(2) [of q] show ?thesis by (cases "st = OYL_OK") (auto simp: peeked_def then_ok_def ends_def)
qed

section \<open>Operations that leave the tokens\<close>

lemma toks_simps [simp]:
  "toks (p\<lparr>pa_events := es\<rparr>) = toks p" "toks (p\<lparr>pa_tag_directives := ds\<rparr>) = toks p" "toks (p\<lparr>pa_doc_open := b\<rparr>) = toks p"
  "toks (p\<lparr>pa_props_start := k\<rparr>) = toks p" "toks (p\<lparr>pa_doc_start_line := n\<rparr>) = toks p" "toks (p\<lparr>pa_stream_started := b\<rparr>) = toks p"
  "toks (p\<lparr>pa_stream_ended := b\<rparr>) = toks p" "toks (put_props np p) = toks p" "toks (pa_pop_ctx p) = toks p"
  by (simp_all add: toks_def put_props_def pa_pop_ctx_def)

lemma hit_limit_tokens [simp]:
  "pa_scanner (hit_limit p m) = pa_scanner p" "pa_have_token (hit_limit p m) = pa_have_token p"
  "pa_current (hit_limit p m) = pa_current p"
  by (simp_all add: hit_limit_def stop_with_def Let_def)

lemma enqueue_toks: "enqueue p e = (b, q) \<Longrightarrow> toks q = toks p"
  by (auto simp: enqueue_def Let_def toks_def split: if_split_asm prod.splits)

lemma push_ctx_toks: "pa_push_ctx p t i = (b, q) \<Longrightarrow> toks q = toks p"
  by (auto simp: pa_push_ctx_def stop_with_def Let_def toks_def split: if_split_asm prod.splits)

lemma attach_props_toks: "attach_props p e = (f, q) \<Longrightarrow> toks q = toks p"
  by (auto simp: attach_props_def Let_def toks_def split: if_split_asm prod.splits)

lemma insert_event_toks: "insert_event p i e = (b, q) \<Longrightarrow> toks q = toks p"
  by (auto simp: insert_event_def Let_def toks_def dest!: enqueue_toks split: if_split_asm prod.splits)

lemma sent_toks [simp]:
  "toks (send p e) = toks p" "toks (enter p t d) = toks p" "toks (snd (attach_props p e)) = toks p"
  using enqueue_toks [of p e] push_ctx_toks [of p t d] attach_props_toks [of p e]
  by (simp_all add: send_def enter_def prod_eq_iff)

lemma more_toks [simp]:
  "toks (open_collection p e t d) = toks p" "toks (send_with_props p e) = toks p" "toks (emit_empty p) = toks p"
  "toks (ensure_doc p b k) = toks p"
  by (auto simp: open_collection_def send_with_props_def emit_empty_send ensure_doc_def Let_def
      dest!: attach_props_toks enqueue_toks split: prod.split)

lemma left_simps [simp]:
  assumes "left m p"
  shows "left m (send p e)" "left m (enter p t d)" "left m (put_props np p)" "left m (pa_pop_ctx p)"
    "left m (open_collection p e t d)" "left m (send_with_props p e)" "left m (emit_empty p)" "left m (ensure_doc p b k)"
    "left m (p\<lparr>pa_events := es\<rparr>)" "left m (p\<lparr>pa_tag_directives := ds\<rparr>)" "left m (p\<lparr>pa_doc_open := c\<rparr>)"
    "left m (p\<lparr>pa_props_start := s\<rparr>)" "left m (p\<lparr>pa_doc_start_line := n\<rparr>)" "left m (p\<lparr>pa_stream_started := c\<rparr>)"
    "left m (p\<lparr>pa_stream_ended := c\<rparr>)"
  by (rule left_same [OF assms], simp)+

lemma ends_attach [ends_rules]:
  assumes "left m p" and "\<And>f q. toks q = toks p \<Longrightarrow> left m q \<Longrightarrow> ends Q (k f q)"
  shows "ends Q (case attach_props p e of (f, q) \<Rightarrow> k f q)"
proof (cases "attach_props p e")
  case (Pair f q)
  from assms(2) [OF attach_props_toks [OF Pair] left_same [OF assms(1) attach_props_toks [OF Pair]]] Pair show ?thesis by simp
qed

lemma ends_inserted [ends_rules]:
  assumes "left m p" and "\<And>q. toks q = toks p \<Longrightarrow> left m q \<Longrightarrow> ends Q (k q)"
  shows "ends Q (inserted p n e k)"
proof (cases "insert_event p n e")
  case (Pair b q)
  from assms(2) [OF insert_event_toks [OF Pair] left_same [OF assms(1) insert_event_toks [OF Pair]]] Pair show ?thesis
    by (simp add: inserted_def ends_def oom_status_not_ok)
qed

lemma ends_moved [ends_rules]:
  assumes "left m p" and "\<And>f q. toks q = toks p \<Longrightarrow> left m q \<Longrightarrow> ends Q (k f q)"
  shows "ends Q (case if b then move_props_to_key_map p n e s a t else (e, p) of (f, q) \<Rightarrow> k f q)"
  using assms(2) [of p e] assms(2) [of "snd (move_props_to_key_map p n e s a t)"] assms(1)
  by (simp add: move_props_to_key_map_def Let_def)

section \<open>Properties\<close>

lemma expand_tag_toks: "expand_tag p t = (u, q) \<Longrightarrow> toks q = toks p"
  by (auto simp: expand_tag_def decoded_tag_def Let_def toks_def split: if_split_asm option.splits prod.splits)

lemma take_prop_toks:
  "take_prop p = (st, again, q) \<Longrightarrow> pa_current q = pa_current p \<and> (pa_have_token q \<longrightarrow> pa_have_token p)"
  by (auto simp: take_prop_def Let_def PARSE_ERROR_def note_first_prop_def consume_token_def toks_def
      dest!: expand_tag_toks split: if_split_asm prod.splits)

lemma take_prop_tokens_left: "left m p \<Longrightarrow> take_prop p = (st, again, q) \<Longrightarrow> left m q"
  using take_prop_toks [of p st again q] take_prop_scanner [of p st again q]
  by (auto simp: left_def tokens_left_def cur_type_def)

lemma consume_props_left: "left m p \<Longrightarrow> ends (left m) (consume_props p)"
proof (induction p rule: consume_props.induct)
  case (1 p)
  obtain st1 p1 where 2: "peek_token p = Some (st1, p1)" "left m p1" using peek_left [OF 1(2)] by blast
  obtain st2 again p2 where 3: "take_prop p1 = (st2, again, p2)" by (cases "take_prop p1") auto
  then have p2: "left m p2" using take_prop_tokens_left 2(2) by blast
  show ?case
  proof (cases "st1 = OYL_OK \<and> st2 = OYL_OK \<and> again")
    case True
    then have "ends (left m) (consume_props p2)" using 1(1) [OF 2(1) refl _ 3 [symmetric] refl _ _ p2] by simp
    with True 2 3 show ?thesis by (simp add: consume_props.simps [of p])
  next
    case False
    with 2 3 p2 show ?thesis by (auto simp: consume_props.simps [of p] ends_def PARSE_ERROR_def)
  qed
qed

lemma ends_props:
  assumes "left m p" and "\<And>q. left m q \<Longrightarrow> ends Q (k q)"
  shows "ends Q (then_ok (consume_props p) k)"
  by (rule ends_then, rule ends_mono [OF consume_props_left [OF assms(1)]], rule assms(2))

section \<open>Calls\<close>

text \<open>How many calls may follow each other before a token is consumed.\<close>

fun rank :: "grammar \<Rightarrow> oyl_parser \<Rightarrow> nat" where
  "rank FLOW_SEQUENCE p = (if pa_have_token p \<and> cur_type p = OYL_TOK_FLOW_SEQ_END then 0 else 2)"
| "rank FLOW_MAPPING p = (if pa_have_token p \<and> cur_type p = OYL_TOK_FLOW_MAP_END then 0 else 2)"
| "rank FLOW_NODE p = 1"
| "rank (MAP_VALUE i) p = 1"
| "rank (BLOCK_MAPPING i) p = 2"
| "rank (BLOCK_SEQUENCE i) p = 1"
| "rank BLOCK_NODE p = 3"

lemma rank_le: "rank g p \<le> 3"
  by (cases g) simp_all

text \<open>A call at a colon consumes it.\<close>

definition at_colon :: "oyl_parser \<Rightarrow> bool" where
  "at_colon p \<longleftrightarrow> pa_have_token p \<and> cur_type p = OYL_TOK_BLOCK_MAP_VALUE"

definition spare :: "grammar \<Rightarrow> oyl_parser \<Rightarrow> nat" where
  "spare g p = (case g of MAP_VALUE i \<Rightarrow> if at_colon p then 1 else 0 | _ \<Rightarrow> 0)"

text \<open>With fuel \<open>n\<close> a call returns.\<close>

definition fed :: "nat \<Rightarrow> parse_rec \<Rightarrow> bool" where
  "fed n rec \<longleftrightarrow> (\<forall>g p m. left m p \<longrightarrow> 4 * m + rank g p < n \<longrightarrow> ends (left (m - spare g p)) (rec g p))"

lemma fedD: "fed n rec \<Longrightarrow> left m p \<Longrightarrow> 4 * m + rank g p < n \<Longrightarrow> ends (left (m - spare g p)) (rec g p)"
  by (simp add: fed_def)

lemma fed_call:
  assumes "fed n rec" and "left m p" and "4 * m + rank g p < n" and "m \<le> l"
  shows "ends (left l) (rec g p)"
  using ends_mono [OF fedD [OF assms(1-3)]] left_mono assms(4) by (metis diff_le_self le_trans)

text \<open>A call, then more.\<close>

lemma fed_then:
  assumes "ends (left m) r" and "\<And>q. left m q \<Longrightarrow> ends Q (k q)"
  shows "ends Q (then_ok r k)"
  by (rule ends_then, rule ends_mono [OF assms(1)], rule assms(2))

text \<open>After a token was consumed there is fuel for every call.\<close>

lemma fed_at: "fed n rec \<Longrightarrow> 4 * l + 4 \<le> n \<Longrightarrow> left l p \<Longrightarrow> ends (left l) (rec g p)"
  using fed_call [of n rec l p g l] rank_le [of g p] by simp

lemma counted_simps [simp]:
  "token_counts OYL_TOK_FLOW_ENTRY" "token_counts OYL_TOK_BLOCK_MAP_VALUE" "token_counts OYL_TOK_BLOCK_MAP_KEY"
  "token_counts OYL_TOK_BLOCK_SEQ_ENTRY" "token_counts OYL_TOK_FLOW_SEQ_START" "token_counts OYL_TOK_FLOW_MAP_START"
  "token_counts OYL_TOK_ALIAS" "token_counts OYL_TOK_DOC_START" "token_counts OYL_TOK_DOC_END" "token_counts OYL_TOK_DIRECTIVE"
  by (simp_all add: token_counts_def)

lemma ends_le: "ends (left l) r \<Longrightarrow> l \<le> m \<Longrightarrow> ends (left m) r"
  using ends_mono left_mono by blast

text \<open>A round that starts with such a token.\<close>

lemma ends_consumed:
  assumes "left m p" and "pa_have_token p" and "token_counts (cur_type p)" and "4 * m \<le> n"
    and "\<And>l. left l (consume_token p) \<Longrightarrow> l < m \<Longrightarrow> 4 * l + 4 \<le> n \<Longrightarrow> ends (left l) (k (consume_token p))"
  shows "ends (left m) (k (consume_token p))"
proof -
  note c = consume_counted [OF assms(1-3)]
  have "ends (left (m - 1)) (k (consume_token p))" using c assms(4) by (intro assms(5)) auto
  then show ?thesis by (rule ends_le) simp
qed

section \<open>Flow collections\<close>

lemma close_flow_ends: "left m p \<Longrightarrow> ends (left m) (close_flow t p)"
  by (simp add: close_flow_def Let_def ends_ok)

lemma flow_value_ends:
  "fed n rec \<Longrightarrow> left l p \<Longrightarrow> 4 * l + 4 \<le> n \<Longrightarrow> ends (left l) (flow_value_or_empty c rec p)"
  "fed n rec \<Longrightarrow> left l p \<Longrightarrow> 4 * l + 4 \<le> n \<Longrightarrow> ends (left l) (flow_key_or_empty c rec p)"
  unfolding flow_value_or_empty_def flow_key_or_empty_def
  by (rule ends_peeked [where m = l], assumption, rule ends_if, simp add: ends_ok, simp add: fed_at)+

lemma flow_pair_value_ends:
  assumes "fed n rec" and "left m p" and "4 * m \<le> n"
  shows "ends (left m) (flow_pair_value c rec p)"
  unfolding flow_pair_value_def
proof (rule ends_peeked [OF assms(2)], rule ends_if)
  fix q assume q: "left m q" "pa_have_token q" "cur_type q = OYL_TOK_BLOCK_MAP_VALUE"
  show "ends (left m) (flow_value_or_empty c rec (consume_token q))"
    by (rule ends_consumed [OF q(1,2) _ assms(3), where k = "flow_value_or_empty c rec"])
      (simp_all add: q(3) flow_value_ends(1) [OF assms(1)])
qed (simp add: ends_ok)

lemma end_flow_pair_ends: "left m p \<Longrightarrow> ends (left m) (end_flow_pair p)"
  unfolding end_flow_pair_def by (rule ends_peeked [where m = m], assumption, simp add: ends_ok)

lemma flow_separator_ends:
  assumes "fed n rec" and "left m p" and "4 * m < n" and "\<And>q. pa_have_token q \<Longrightarrow> cur_type q = close \<Longrightarrow> rank loop q = 0"
  shows "ends (left m) (flow_separator loop close msg rec p)"
  unfolding flow_separator_def
proof (rule ends_peeked [OF assms(2)], intro ends_if ends_fail)
  fix q assume q: "left m q" "pa_have_token q"
  show "ends (left m) (rec loop (consume_token q))" if "cur_type q = OYL_TOK_FLOW_ENTRY"
    by (rule ends_consumed [OF q, where k = "rec loop" and n = n])
      (use assms(3) in \<open>simp_all add: that fed_at [OF assms(1)]\<close>)
  show "ends (left m) (rec loop q)" if "cur_type q = close"
    using fed_call [OF assms(1) q(1), of loop m] assms(3) assms(4) [OF q(2) that] by simp
qed

lemma separators_end:
  "fed n rec \<Longrightarrow> left m p \<Longrightarrow> 4 * m < n \<Longrightarrow> ends (left m) (flow_sequence_separator rec p)"
  "fed n rec \<Longrightarrow> left m p \<Longrightarrow> 4 * m < n \<Longrightarrow> ends (left m) (flow_mapping_separator rec p)"
  unfolding flow_sequence_separator_def flow_mapping_separator_def by (rule flow_separator_ends; simp)+

lemma flow_implicit_pair_ends:
  assumes "fed n rec" and "left m p" and "4 * m < n" and "pa_have_token p" and "cur_type p = OYL_TOK_BLOCK_MAP_VALUE"
  shows "ends (left m) (flow_implicit_pair rec i p)"
proof -
  have rest: "ends (left m) (then_ok (flow_value_or_empty OYL_TOK_FLOW_SEQ_END rec (consume_token q)) end_flow_pair)"
    if "left m q" "toks q = toks p" for q
  proof -
    have val: "ends (left l) (then_ok (flow_value_or_empty OYL_TOK_FLOW_SEQ_END rec r) end_flow_pair)" if "left l r" "4 * l + 4 \<le> n" for l r
      using that by (intro fed_then [where m = l] flow_value_ends(1) [OF assms(1)] end_flow_pair_ends)
    show ?thesis by (rule ends_consumed [where k = "\<lambda>p. then_ok (flow_value_or_empty OYL_TOK_FLOW_SEQ_END rec p) end_flow_pair" and n = n])
      (use toksD [OF that(2)] that(1) assms(3-5) in \<open>simp_all add: val\<close>)
  qed
  show ?thesis unfolding flow_implicit_pair_def Let_def
    by (intro ends_if ends_inserted [OF assms(2)] rest) (simp_all add: assms(2))
qed

lemma flow_explicit_pair_ends:
  assumes "fed n rec" and "left m p" and "4 * m \<le> n" and "pa_have_token p" and "cur_type p = OYL_TOK_BLOCK_MAP_KEY"
  shows "ends (left m) (flow_explicit_pair rec p)"
proof -
  define q where "q = send p (flow_start OYL_EVT_MAPPING_START p)"
  have "toks q = toks p" by (simp add: q_def)
  note q = toksD [OF this] left_same [OF assms(2) this]
  have pair: "ends (left l) (then_ok (flow_key_or_empty OYL_TOK_FLOW_SEQ_END rec r)
      (\<lambda>p. then_ok (flow_pair_value OYL_TOK_FLOW_SEQ_END rec p) end_flow_pair))" if "left l r" "4 * l + 4 \<le> n" for l r
    using that by (intro fed_then [where m = l] flow_value_ends(2) [OF assms(1)] flow_pair_value_ends [OF assms(1)] end_flow_pair_ends) simp_all
  show ?thesis unfolding flow_explicit_pair_def Let_def q_def [symmetric]
    by (rule ends_consumed [where n = n and k = "\<lambda>q. then_ok (flow_key_or_empty OYL_TOK_FLOW_SEQ_END rec q)
          (\<lambda>p. then_ok (flow_pair_value OYL_TOK_FLOW_SEQ_END rec p) end_flow_pair)"])
      (use q assms(3-5) in \<open>simp_all add: pair\<close>)
qed

lemma flow_sequence_ends:
  assumes "fed n rec" and "left m p" and "4 * m + rank FLOW_SEQUENCE p \<le> n"
  shows "ends (left m) (parse_flow_sequence rec p)"
  unfolding parse_flow_sequence_def Let_def
proof (rule ends_guard, rule ends_peeked [OF assms(2)], intro ends_if ends_fail)
  fix q assume q: "left m q" "pa_have_token q" "pa_have_token p \<Longrightarrow> q = p"
  show "ends (left m) (close_flow OYL_EVT_SEQUENCE_END q)" using q close_flow_ends by blast
  assume open_seq: "cur_type q \<noteq> OYL_TOK_FLOW_SEQ_END"
  then have n: "4 * m + 2 \<le> n" using q(3) assms(3) by (auto split: if_split_asm)
  note sep = separators_end(1) [OF assms(1)]
  show "ends (left m) (then_ok (flow_explicit_pair rec q) (flow_sequence_separator rec))"
    if "cur_type q = OYL_TOK_BLOCK_MAP_KEY"
    using n by (intro fed_then [where m = m] flow_explicit_pair_ends [OF assms(1) q(1) _ q(2) that] sep) simp_all
  have node: "ends (left m) (rec FLOW_NODE q)" using fed_call [OF assms(1) q(1), of FLOW_NODE m] n by simp
  have "ends (left m) (then_ok (flow_implicit_pair rec i r) (flow_sequence_separator rec))"
    if "left m r" "pa_have_token r" "cur_type r = OYL_TOK_BLOCK_MAP_VALUE" for r i
    using n by (intro fed_then [where m = m] flow_implicit_pair_ends [OF assms(1) that(1) _ that(2,3)] sep) simp_all
  then show "ends (left m) (then_ok (rec FLOW_NODE q) (\<lambda>p. peeked p (\<lambda>p.
       if cur_type p = OYL_TOK_BLOCK_MAP_VALUE
       then then_ok (flow_implicit_pair rec (length (pa_events q)) p) (flow_sequence_separator rec)
       else flow_sequence_separator rec p)))"
    using n by (intro fed_then [OF node] ends_peeked [where m = m] ends_if sep) simp_all
qed

lemma flow_mapping_ends:
  assumes "fed n rec" and "left m p" and "4 * m + rank FLOW_MAPPING p \<le> n"
  shows "ends (left m) (parse_flow_mapping rec p)"
  unfolding parse_flow_mapping_def Let_def
proof (rule ends_guard, rule ends_peeked [OF assms(2)], intro ends_if ends_fail)
  fix q assume q: "left m q" "pa_have_token q" "pa_have_token p \<Longrightarrow> q = p"
  show "ends (left m) (close_flow OYL_EVT_MAPPING_END q)" using q close_flow_ends by blast
  assume open_map: "cur_type q \<noteq> OYL_TOK_FLOW_MAP_END"
  then have n: "4 * m + 2 \<le> n" using q(3) assms(3) by (auto split: if_split_asm)
  have "ends (left m) (flow_key_or_empty OYL_TOK_FLOW_MAP_END rec (consume_token q))" if "cur_type q = OYL_TOK_BLOCK_MAP_KEY"
    by (rule ends_consumed [OF q(1,2), where k = "flow_key_or_empty OYL_TOK_FLOW_MAP_END rec" and n = n])
      (use n in \<open>simp_all add: that flow_value_ends(2) [OF assms(1)]\<close>)
  moreover have "ends (left m) (rec FLOW_NODE q)" using fed_call [OF assms(1) q(1), of FLOW_NODE m] n by simp
  ultimately have key: "ends (left m) (if cur_type q = OYL_TOK_BLOCK_MAP_KEY
      then flow_key_or_empty OYL_TOK_FLOW_MAP_END rec (consume_token q) else rec FLOW_NODE q)" by simp
  show "ends (left m) (then_ok (if cur_type q = OYL_TOK_BLOCK_MAP_KEY
      then flow_key_or_empty OYL_TOK_FLOW_MAP_END rec (consume_token q) else rec FLOW_NODE q)
      (\<lambda>p. then_ok (flow_pair_value OYL_TOK_FLOW_MAP_END rec p) (flow_mapping_separator rec)))"
    using n by (intro fed_then [OF key] fed_then [where m = m] flow_pair_value_ends [OF assms(1)] separators_end(2) [OF assms(1)]) simp_all
qed

lemma flow_node_ends:
  assumes "fed n rec" and "left m p" and "4 * m \<le> n"
  shows "ends (left m) (parse_flow_node rec p)"
proof -
  have content: "ends (left m) (if cur_type q = OYL_TOK_ALIAS then ok (consume_token (send_with_props q (alias_event q)))
      else if cur_type q = OYL_TOK_FLOW_SEQ_START then
        rec FLOW_SEQUENCE (open_collection (consume_token q) (flow_start OYL_EVT_SEQUENCE_START q) CTX_FLOW_SEQ (tok_col q))
      else if cur_type q = OYL_TOK_FLOW_MAP_START then
        rec FLOW_MAPPING (open_collection (consume_token q) (flow_start OYL_EVT_MAPPING_START q) CTX_FLOW_MAP (tok_col q))
      else if cur_type q = OYL_TOK_SCALAR then
        case attach_props q (scalar_event q) of (evt, p) \<Rightarrow> peeked (consume_token p) (\<lambda>p. ok (send p evt))
      else ok (emit_empty q))" (is "ends _ (?content q)") if q: "left m q" "pa_have_token q" for q
  proof -
    have opened: "ends (left m) (rec g (open_collection (consume_token q) e c (tok_col q)))" if "token_counts (cur_type q)" for g e c
      by (rule ends_consumed [OF q that assms(3), where k = "\<lambda>p. rec g (open_collection p e c (tok_col q))"])
        (simp add: fed_at [OF assms(1)])
    have "ends (left m) (peeked (consume_token r) (\<lambda>p. ok (send p evt)))" if "left m r" for r evt
      using that by (intro ends_peeked [where m = m] ends_ok) simp_all
    then show ?thesis using q(1) by (intro ends_if ends_ok ends_attach [OF q(1)] opened) simp_all
  qed
  show ?thesis unfolding parse_flow_node_def Let_def
    by (intro ends_unless ends_props [OF assms(2)] ends_peeked [where m = m]) (simp_all add: content)
qed

section \<open>Block collections\<close>

lemma ends_peeked_at:
  assumes "left m p" and "\<And>q. left m q \<Longrightarrow> pa_have_token q \<Longrightarrow> ends Q (k q)"
  shows "ends Q (peeked p k)"
  using assms by (intro ends_peeked [OF assms(1)])

lemma map_value_ends:
  assumes "fed n rec" and "left m p" and "4 * m \<le> n"
  shows "ends (left (m - (if at_colon p then 1 else 0))) (parse_block_map_value rec p i)"
proof -
  have val: "ends (left l) (peeked r (\<lambda>p.
        if cur_type p = OYL_TOK_STREAM_END \<or> cur_type p = OYL_TOK_DOC_START \<or> cur_type p = OYL_TOK_DOC_END then ok (emit_empty p)
        else if tok_col p < i \<or> tok_col p = i \<and> cur_type p \<noteq> OYL_TOK_BLOCK_SEQ_ENTRY then ok (emit_empty p)
        else rec BLOCK_NODE p))" if "left l r" "4 * l + 4 \<le> n" for l r
    using that by (intro ends_peeked_at [OF that(1)] ends_if ends_ok fed_at [OF assms(1)]) simp_all
  show ?thesis unfolding parse_block_map_value_def Let_def
  proof (rule ends_unless, rule ends_peeked [OF assms(2)], rule ends_if)
    fix q assume q: "left m q" "pa_have_token q" "pa_have_token p \<Longrightarrow> q = p"
    show "ends (left (m - (if at_colon p then 1 else 0))) (ok (emit_empty q))" if "cur_type q \<noteq> OYL_TOK_BLOCK_MAP_VALUE"
      using q that by (auto simp: at_colon_def intro: ends_ok)
    show "ends (left (m - (if at_colon p then 1 else 0))) (peeked (consume_token q) (\<lambda>p.
        if cur_type p = OYL_TOK_STREAM_END \<or> cur_type p = OYL_TOK_DOC_START \<or> cur_type p = OYL_TOK_DOC_END then ok (emit_empty p)
        else if tok_col p < i \<or> tok_col p = i \<and> cur_type p \<noteq> OYL_TOK_BLOCK_SEQ_ENTRY then ok (emit_empty p)
        else rec BLOCK_NODE p))" if "\<not> cur_type q \<noteq> OYL_TOK_BLOCK_MAP_VALUE"
    proof -
      have "0 < m" "left (m - 1) (consume_token q)" using consume_counted [OF q(1,2)] that by simp_all
      then show ?thesis using assms(3) by (intro ends_le [OF val [of "m - 1"]]) auto
    qed
  qed
qed

text \<open>A colon and its value, then the next round.\<close>

lemma map_entry_ends:
  assumes "fed n rec" and "left m p" and "4 * m + 1 < n" and "at_colon p"
  shows "ends (left m) (map_entry rec i p)"
proof -
  have "0 < m" using consume_counted(1) [OF assms(2)] assms(4) by (simp add: at_colon_def)
  moreover have "ends (left (m - 1)) (rec (MAP_VALUE i) p)"
    using fedD [OF assms(1,2), of "MAP_VALUE i"] assms(3,4) by (simp add: spare_def)
  moreover have "ends (left m) (rec (BLOCK_MAPPING i) q)" if "left (m - 1) q" for q
    using calculation(1) assms(3) by (intro ends_le [OF fed_at [OF assms(1) _ that]]) auto
  ultimately show ?thesis unfolding map_entry_def by (intro fed_then)
qed

lemma map_entry_later:
  assumes "fed n rec" and "left l p" and "4 * l + 4 \<le> n"
  shows "ends (left l) (map_entry rec i p)"
  unfolding map_entry_def using assms(3) by (intro fed_then [where m = l] fed_at [OF assms(1)] assms(2)) simp_all

lemma toks_colon: "toks q = toks p \<Longrightarrow> at_colon q = at_colon p"
  using toksD [of q p] by (simp add: at_colon_def)

lemma colon_simps [simp]:
  "at_colon (send p e) = at_colon p" "at_colon (enter p t d) = at_colon p" "at_colon (emit_empty p) = at_colon p"
  "at_colon (open_collection p e t d) = at_colon p" "at_colon (send_with_props p e) = at_colon p"
  by (rule toks_colon, simp)+

lemma explicit_entry_ends:
  assumes "fed n rec" and "left l p" and "4 * l + 4 \<le> n" and "\<And>q. left l q \<Longrightarrow> ends (left l) (k q)"
  shows "ends (left l) (then_ok (explicit_key rec i p) k)"
proof -
  have "ends (left l) (then_ok (consume_props q) (\<lambda>p. peeked p (\<lambda>p.
      if cur_type p = OYL_TOK_BLOCK_MAP_VALUE \<and> tok_col p = i then ok (emit_empty p) else rec BLOCK_NODE p)))" if "left l q" for q
    using assms(3) by (intro ends_props [OF that] ends_peeked_at [where m = l] ends_if ends_ok fed_at [OF assms(1)]) simp_all
  then have "ends (left l) (explicit_key rec i p)" unfolding explicit_key_def
    using assms(3) by (intro ends_peeked_at [OF assms(2)] ends_if ends_ok fed_at [OF assms(1)]) simp_all
  then show ?thesis using assms(4) by (rule fed_then)
qed

lemma explicit_ends:
  assumes "fed n rec" and "left m p" and "4 * m \<le> n" and "pa_have_token p" and "cur_type p = OYL_TOK_BLOCK_MAP_KEY"
  shows "ends (left m) (explicit_entry rec i p)"
proof -
  have "ends (left l) (peeked q (\<lambda>p.
      if cur_type p = OYL_TOK_BLOCK_MAP_VALUE \<and> tok_col p > i
      then fail_with p (''explicit mapping value must be at the mapping'' @ [CHR 0x27] @ ''s indentation'')
      else if cur_type p = OYL_TOK_BLOCK_MAP_VALUE \<and> tok_col p < i then rec (BLOCK_MAPPING i) (emit_empty p)
      else map_entry rec i p))" if "left l q" "4 * l + 4 \<le> n" for q l
    using that(2) by (intro ends_peeked_at [OF that(1)] ends_if ends_fail fed_at [OF assms(1)] map_entry_later [OF assms(1)]) simp_all
  note rest = explicit_entry_ends [OF assms(1) _ _ this]
  show ?thesis unfolding explicit_entry_def
    by (rule ends_consumed [OF assms(2,4) _ assms(3), where k = "\<lambda>p. then_ok (explicit_key rec i p) (\<lambda>p. peeked p (\<lambda>p.
      if cur_type p = OYL_TOK_BLOCK_MAP_VALUE \<and> tok_col p > i
      then fail_with p (''explicit mapping value must be at the mapping'' @ [CHR 0x27] @ ''s indentation'')
      else if cur_type p = OYL_TOK_BLOCK_MAP_VALUE \<and> tok_col p < i then rec (BLOCK_MAPPING i) (emit_empty p)
      else map_entry rec i p))"])
      (simp add: assms(5), rule rest)
qed

lemma simple_key_ends:
  assumes "fed n rec" and "left m p" and "4 * m + 1 < n"
  shows "ends (left m) (simple_key rec i e p)"
proof -
  have "ends (left m) (map_entry rec i (send q f))" if "left m q" "pa_have_token q" "cur_type q = OYL_TOK_BLOCK_MAP_VALUE" for q f
    using that assms(3) by (intro map_entry_ends [OF assms(1)]) (simp_all, simp add: at_colon_def)
  then have "ends (left m) (peeked (consume_token q) (\<lambda>p.
      if cur_type p = OYL_TOK_BLOCK_MAP_VALUE then map_entry rec i (send p f) else fail_with p expected_colon))" if "left m q" for q f
    by (intro ends_peeked_at [OF consume_left [OF that]] ends_if ends_fail)
  then show ?thesis unfolding simple_key_def Let_def by (intro ends_attach [OF assms(2)])
qed

lemma flow_key_ends:
  assumes "fed n rec" and "left m p" and "4 * m + 1 < n"
  shows "ends (left m) (flow_key rec i p)"
proof -
  have "ends (left m) (rec FLOW_NODE p)" using fed_call [OF assms(1,2), of FLOW_NODE m] assms(3) by simp
  then show ?thesis unfolding flow_key_def
    using assms(3) by (intro fed_then [where m = m] ends_peeked_at [where m = m] ends_if ends_fail map_entry_ends [OF assms(1)])
      (simp_all add: at_colon_def)
qed

lemma implicit_entry_ends:
  assumes "fed n rec" and "left m p" and "4 * m + 1 < n"
  shows "ends (left m) (implicit_entry rec i p)"
proof -
  have empty: "ends (left m) (map_entry rec i (emit_empty q))" if "left m q" "pa_have_token q" "cur_type q = OYL_TOK_BLOCK_MAP_VALUE" for q
    using that assms(3) by (intro map_entry_ends [OF assms(1)]) (simp_all, simp add: at_colon_def)
  show ?thesis unfolding implicit_entry_def Let_def
    by (intro ends_props [OF assms(2)] ends_peeked_at [where m = m] ends_if ends_fail ends_ok simple_key_ends [OF assms(1) _ assms(3)]
        flow_key_ends [OF assms(1) _ assms(3)] empty) simp_all
qed

lemma block_mapping_ends:
  assumes "fed n rec" and "left m p" and "4 * m + 1 < n"
  shows "ends (left m) (parse_block_mapping rec p i)"
proof -
  have empty: "ends (left m) (map_entry rec i (emit_empty q))" if "left m q" "pa_have_token q" "cur_type q = OYL_TOK_BLOCK_MAP_VALUE" for q
    using that assms(3) by (intro map_entry_ends [OF assms(1)]) (simp_all, simp add: at_colon_def)
  show ?thesis unfolding parse_block_mapping_def Let_def
    using assms(3) by (intro ends_guard ends_peeked_at [OF assms(2)] ends_if ends_ok explicit_ends [OF assms(1)]
        implicit_entry_ends [OF assms(1)] empty) simp_all
qed

lemma block_sequence_ends:
  assumes "fed n rec" and "left m p" and "4 * m \<le> n"
  shows "ends (left m) (parse_block_sequence rec p i)"
proof -
  have item: "ends (left l) (peeked q (\<lambda>p.
      if tok_col p \<le> i then rec (BLOCK_SEQUENCE i) (emit_empty p)
      else if cur_type p = OYL_TOK_STREAM_END \<or> cur_type p = OYL_TOK_DOC_START \<or> cur_type p = OYL_TOK_DOC_END then ok (emit_empty p)
      else then_ok (rec BLOCK_NODE p) (rec (BLOCK_SEQUENCE i))))" if "left l q" "4 * l + 4 \<le> n" for l q
    using that(2) by (intro ends_peeked_at [OF that(1)] ends_if ends_ok fed_then [where m = l] fed_at [OF assms(1)]) simp_all
  show ?thesis unfolding parse_block_sequence_def Let_def
  proof (rule ends_guard, rule ends_peeked_at [OF assms(2)], rule ends_if)
    fix q assume q: "left m q" "pa_have_token q"
    then show "ends (left m) (ok q)" by (simp add: ends_ok)
    assume "\<not> (cur_type q \<noteq> OYL_TOK_BLOCK_SEQ_ENTRY \<or> tok_col q \<noteq> i)"
    then have "cur_type q = OYL_TOK_BLOCK_SEQ_ENTRY" by simp
    then show "ends (left m) (peeked (consume_token q) (\<lambda>p.
      if tok_col p \<le> i then rec (BLOCK_SEQUENCE i) (emit_empty p)
      else if cur_type p = OYL_TOK_STREAM_END \<or> cur_type p = OYL_TOK_DOC_START \<or> cur_type p = OYL_TOK_DOC_END then ok (emit_empty p)
      else then_ok (rec BLOCK_NODE p) (rec (BLOCK_SEQUENCE i))))"
      using consume_counted [OF q] assms(3) by (intro ends_le [OF item [of "m - 1"]]) auto
  qed
qed

section \<open>Block nodes\<close>

lemma close_block_ends: "left m p \<Longrightarrow> ends (left m) (close_block t p)"
  by (simp add: close_block_def ends_ok)

lemma rest_ends:
  "fed n rec \<Longrightarrow> left m p \<Longrightarrow> 4 * m + 1 < n \<Longrightarrow> at_colon p \<Longrightarrow> ends (left m) (rest_of_mapping rec i p)"
  "fed n rec \<Longrightarrow> left m p \<Longrightarrow> 4 * m + 4 \<le> n \<Longrightarrow> ends (left m) (rest_of_mapping rec i p)"
  unfolding rest_of_mapping_def
  by (rule fed_then [OF map_entry_ends close_block_ends], assumption+)
    (rule fed_then [OF map_entry_later close_block_ends], assumption+)

lemma key_colon: "pa_have_token p \<Longrightarrow> key_colon_follows p line \<Longrightarrow> at_colon p"
  by (simp add: key_colon_follows_def at_colon_def)

lemma collection_ends:
  assumes "fed n rec" and "left m p" and "4 * m + rank g p < n"
  shows "ends (left m) (then_ok (rec g p) (close_block t))"
  using fed_call [OF assms order_refl] close_block_ends by (rule fed_then)

lemma double_scalar_ends:
  assumes "fed n rec" and "left m p" and "4 * m + 1 < n"
  shows "ends (left m) (double_scalar rec inner c l p)"
  unfolding double_scalar_def Let_def
  by (intro ends_peeked_at [OF consume_left [OF assms(2)]] ends_if ends_fail ends_ok rest_ends(1) [OF assms(1) _ assms(3)])
    (simp_all add: key_colon)

lemma double_sequence_ends:
  assumes "fed n rec" and "left m p" and "4 * m + 1 < n"
  shows "ends (left m) (double_sequence rec inner p)"
  unfolding double_sequence_def Let_def using assms(2,3) by (intro collection_ends [OF assms(1)]) simp_all

lemma double_empty_key_ends:
  assumes "fed n rec" and "left m p" and "4 * m + 1 < n" and "at_colon p"
  shows "ends (left m) (double_empty_key rec inner c p)"
  unfolding double_empty_key_def Let_def using assms(2,4) by (intro rest_ends(1) [OF assms(1) _ assms(3)]) simp_all

lemma double_flow_ends:
  assumes "fed n rec" and "left m p" and "4 * m \<le> n" and "pa_have_token p" and "token_counts (cur_type p)"
  shows "ends (left m) (double_flow rec inner outer s c l p)"
proof -
  define q where "q = put_props no_props p"
  have "toks q = toks p" by (simp add: q_def)
  note q = left_same [OF assms(2) this] toksD [OF this]
  have after: "ends (left l) (peeked r (\<lambda>p.
      if cur_type p \<noteq> OYL_TOK_BLOCK_MAP_VALUE then
        if props_conflict inner outer then fail_with p two_props_msg
        else ok (put_props no_props (p\<lparr>pa_events := (pa_events p)[i := with_props outer (pa_events p ! i)]\<rparr>))
      else inserted p i e (\<lambda>p. rest_of_mapping rec k (enter p CTX_BLOCK_MAP k))))" if "left l r" "4 * l + 4 \<le> n" for l r i e k
    using that(2) by (intro ends_peeked_at [OF that(1)] ends_if ends_fail ends_ok ends_inserted [where m = l] rest_ends(2) [OF assms(1)])
      simp_all
  have "0 < m" "left (m - 1) (consume_token q)" using consume_counted [of m q] q assms(4,5) by simp_all
  then show ?thesis unfolding double_flow_def Let_def q_def [symmetric] using assms(3)
    by - (rule ends_le [where l = "m - 1"], rule fed_then [where m = "m - 1"], rule fed_at [OF assms(1)], simp_all add: after)
qed

lemma double_props_ends:
  assumes "fed n rec" and "left m p" and "4 * m + 1 < n"
  shows "ends (left m) (double_props rec p)"
  unfolding double_props_def Let_def using assms(3)
  by - (rule ends_props [where m = m], simp add: assms(2), rule ends_peeked_at [where m = m], simp,
    intro ends_if ends_ok double_scalar_ends [OF assms(1)] double_sequence_ends [OF assms(1)] double_empty_key_ends [OF assms(1)]
      double_flow_ends [OF assms(1)], auto simp: at_colon_def)

lemma block_alias_ends:
  assumes "fed n rec" and "left m p" and "4 * m + 1 < n"
  shows "ends (left m) (block_alias rec p)"
  unfolding block_alias_def Let_def
  by (intro ends_peeked_at [OF consume_left [OF assms(2)]] ends_if ends_fail ends_ok rest_ends(1) [OF assms(1) _ assms(3)])
    (simp_all add: key_colon)

lemma block_flow_ends:
  assumes "fed n rec" and "left m p" and "4 * m \<le> n" and "pa_have_token p" and "token_counts (cur_type p)"
  shows "ends (left m) (block_flow rec p)"
proof -
  define l where "l = m - 1"
  have c: "l \<le> m" "left l (consume_token p)" and n: "4 * l + 4 \<le> n"
    using consume_counted [of m p] assms(2-5) by (auto simp: l_def)
  have call: "ends (left l) (rec g (open_collection (consume_token p) e t d))" for g e t d
    using c(2) by (intro fed_at [OF assms(1) n]) simp
  show ?thesis unfolding block_flow_def Let_def
    by (rule ends_le [OF fed_then [OF call] c(1)],
      intro ends_peeked_at [where m = l] ends_if ends_ok ends_moved [where m = l] ends_inserted [where m = l]
        rest_ends(2) [OF assms(1) _ n]) simp_all
qed

lemma block_sequence_node_ends:
  assumes "fed n rec" and "left m p" and "4 * m + 1 < n"
  shows "ends (left m) (block_sequence_node rec p)"
  unfolding block_sequence_node_def Let_def using assms(2,3) by (intro collection_ends [OF assms(1)]) simp_all

lemma scalar_key_ends:
  assumes "fed n rec" and "left m p" and "4 * m + 1 < n" and "at_colon p"
  shows "ends (left m) (scalar_key_mapping rec e c p)"
  unfolding scalar_key_mapping_def Let_def using assms(2,4) by (intro rest_ends(1) [OF assms(1) _ assms(3)]) simp_all

lemma block_scalar_ends:
  assumes "fed n rec" and "left m p" and "4 * m + 1 < n"
  shows "ends (left m) (block_scalar rec p)"
  unfolding block_scalar_def Let_def
  by (intro ends_if ends_ok ends_peeked_at [OF consume_left [OF assms(2)]] scalar_key_ends [OF assms(1) _ assms(3)])
    (use assms(2) in \<open>auto intro: key_colon\<close>)

lemma block_explicit_key_ends:
  assumes "fed n rec" and "left m p" and "4 * m + 2 < n"
  shows "ends (left m) (block_explicit_key rec p)"
  unfolding block_explicit_key_def Let_def using assms(2,3) by (intro collection_ends [OF assms(1)]) simp_all

lemma block_bare_value_ends:
  assumes "fed n rec" and "left m p" and "4 * m + 2 < n" and "at_colon p"
  shows "ends (left m) (block_bare_value rec p)"
  unfolding block_bare_value_def Let_def using assms(2-4)
  by (intro ends_if rest_ends(1) [OF assms(1)] collection_ends [OF assms(1)]) simp_all

lemma block_node_ends:
  assumes "fed n rec" and "left m p" and "4 * m + 2 < n"
  shows "ends (left m) (parse_block_node rec p)"
proof -
  have n: "4 * m + 1 < n" "4 * m \<le> n" using assms(3) by simp_all
  have content: "ends (left m) (block_content rec q)" if "left m q" "pa_have_token q" for q
    unfolding block_content_def Let_def
    by (intro ends_if ends_ok block_alias_ends [OF assms(1) _ n(1)] block_flow_ends [OF assms(1) _ n(2)]
        block_sequence_node_ends [OF assms(1) _ n(1)] block_scalar_ends [OF assms(1) _ n(1)] block_explicit_key_ends [OF assms(1) _ assms(3)]
        block_bare_value_ends [OF assms(1) _ assms(3)])
      (use that in \<open>auto simp: at_colon_def\<close>)
  show ?thesis unfolding parse_block_node_def Let_def
    by (intro ends_unless ends_props [OF assms(2)] ends_peeked_at [where m = m] ends_if ends_fail ends_ok
        double_props_ends [OF assms(1) _ n(1)] content) simp_all
qed

section \<open>The grammar\<close>

text \<open>Four calls for each unit of what is left are enough.\<close>

lemma parse_call_fed: "fed n (parse_call n)"
proof (induction n)
  case 0
  show ?case by (simp add: fed_def)
next
  case (Suc n)
  have "ends (left (m - spare g p)) (parse_call (Suc n) g p)" if "left m p" "4 * m + rank g p < Suc n" for g p m
  proof (cases g)
    case (MAP_VALUE i)
    then show ?thesis using map_value_ends [OF Suc that(1), of i] that(2) by (simp add: spare_def)
  qed (use that(2) in \<open>simp_all add: spare_def flow_sequence_ends [OF Suc that(1)] flow_mapping_ends [OF Suc that(1)]
      flow_node_ends [OF Suc that(1)] block_mapping_ends [OF Suc that(1)] block_sequence_ends [OF Suc that(1)] block_node_ends [OF Suc that(1)]\<close>)
  then show ?case by (simp add: fed_def)
qed

section \<open>Documents\<close>

lemma root_fed: "left m p \<Longrightarrow> 4 * m + 3 < n \<Longrightarrow> ends (left m) (parse_call n BLOCK_NODE p)"
  using fed_call [OF parse_call_fed, of m p BLOCK_NODE n m] by simp

lemma expect_end_left: "left m p \<Longrightarrow> ends (\<lambda>q. left m q \<and> at_edge q) (expect_document_end p)"
proof -
  assume "left m p"
  then obtain st q where "peek_token p = Some (st, q)" "left m q" "st = OYL_OK \<longrightarrow> pa_have_token q" using peek_left by blast
  then show ?thesis by (auto simp: expect_document_end_def ends_def at_edge_def PARSE_ERROR_def)
qed

lemma document_root_ends:
  "left m p \<Longrightarrow> 4 * m + 3 < n \<Longrightarrow> ends (\<lambda>q. left m q \<and> at_edge q) (document_root (parse_call n) p)"
  unfolding document_root_def by (rule fed_then [where m = m]) (simp_all add: root_fed expect_end_left)

lemma unroll_ctxs_toks: "toks (unroll_ctxs cs p k) = toks p"
proof (induction cs p k rule: unroll_ctxs.induct)
  case (2 c cs p k)
  then show ?case using sent_toks(1) by (simp add: Let_def send_def)
qed simp

lemma end_document_toks [simp]: "toks (end_document b e p) = toks p"
  by (simp add: end_document_def unroll_all_def unroll_ctxs_toks Let_def)

text \<open>What a document leaves: less, or the token after a document where there was none before.\<close>

definition chunked :: "nat \<Rightarrow> oyl_parser \<Rightarrow> oyl_parser \<Rightarrow> bool" where
  "chunked m p q \<longleftrightarrow> 0 < m \<and> left (m - 1) q \<or> \<not> at_edge p \<and> left m q \<and> at_edge q"

lemma explicit_document_ends:
  assumes "left m p" and "4 * m + 3 < n" and "pa_have_token p" and "cur_type p = OYL_TOK_DOC_START"
  shows "ends (\<lambda>q. 0 < m \<and> left (m - 1) q) (explicit_document (parse_call n) p)"
proof -
  define q where "q = (end_document True (cur_start p) p)\<lparr>pa_doc_start_line := mk_line (cur_start (end_document True (cur_start p) p))\<rparr>"
  have "toks q = toks p" by (simp add: q_def)
  note q = left_same [OF assms(1) this] toksD [OF this]
  have c: "0 < m" "left (m - 1) (consume_token q)" using consume_counted [OF q(1)] q assms(3,4) by simp_all
  have l: "4 * (m - 1) + 3 < n" using assms(2) by simp
  show ?thesis unfolding explicit_document_def Let_def q_def [symmetric]
    by (rule ends_peeked_at [where m = "m - 1"])
      (use c l in \<open>auto intro!: ends_if ends_fail ends_ok ends_mono [OF document_root_ends]\<close>)
qed

lemma implicit_document_ends:
  assumes "left m p" and "4 * m + 3 < n"
  shows "ends (\<lambda>q. left m q \<and> at_edge q) (implicit_document (parse_call n) p)"
  unfolding implicit_document_def Let_def by (rule document_root_ends) (use assms in auto)

lemma document_body_ends:
  assumes "left m p" and "4 * m + 3 < n" and "pa_have_token p"
  shows "ends (left m) (document_body (parse_call n) d p)"
    and "cur_type p \<noteq> OYL_TOK_STREAM_END \<Longrightarrow> cur_type p \<noteq> OYL_TOK_NONE \<Longrightarrow> ends (chunked m p) (document_body (parse_call n) d p)"
proof -
  have closed: "ends (\<lambda>q. 0 < m \<and> left (m - 1) q) (ok (consume_token (end_document False (cur_end p) p)))"
    if "cur_type p = OYL_TOK_DOC_END"
    using consume_counted [OF left_same [OF assms(1) end_document_toks [of False "cur_end p"]]]
      toksD [OF end_document_toks [of False "cur_end p" p]] assms(3) that by (simp add: ends_ok)
  note explicit = explicit_document_ends [OF assms] and implicit = implicit_document_ends [OF assms(1,2)]
  have less: "left (m - 1) q \<Longrightarrow> left m q" for q using left_mono by fastforce
  show "ends (left m) (document_body (parse_call n) d p)" unfolding document_body_def
    by (intro ends_if ends_fail ends_mono [OF explicit] ends_mono [OF closed] ends_mono [OF implicit]) (auto simp: less ends_ok assms(1))
  assume "cur_type p \<noteq> OYL_TOK_STREAM_END" "cur_type p \<noteq> OYL_TOK_NONE"
  then show "ends (chunked m p) (document_body (parse_call n) d p)" unfolding document_body_def
    by (intro ends_if ends_fail ends_mono [OF explicit] ends_mono [OF closed] ends_mono [OF implicit])
      (auto simp: chunked_def at_edge_def)
qed

lemma parse_directive_toks: "parse_directive p y = (st, y', q) \<Longrightarrow> toks q = toks p"
  by (auto simp: parse_directive_def yaml_directive_def apply_tag_directive_def PARSE_ERROR_def toks_def Let_def
      split: if_split_asm option.splits prod.splits)

lemma directives_end:
  assumes "left m p" and "m \<le> n" and "pa_have_token p"
    and "cur_type p \<noteq> OYL_TOK_DIRECTIVE \<Longrightarrow> ends Q (k d p)"
    and "\<And>d q. 0 < m \<Longrightarrow> left (m - 1) q \<Longrightarrow> pa_have_token q \<Longrightarrow> cur_type q \<noteq> OYL_TOK_DIRECTIVE \<Longrightarrow> ends Q (k d q)"
  shows "ends Q (doc_directives n d y p k)"
  using assms
proof (induction n arbitrary: m d y p)
  case 0
  then have "cur_type p \<noteq> OYL_TOK_DIRECTIVE" using consume_counted(1) [OF 0(1,3)] by auto
  with 0 show ?case by (simp add: doc_directives.simps [of 0])
next
  case (Suc n)
  show ?case
  proof (cases "cur_type p = OYL_TOK_DIRECTIVE \<and> \<not> pa_doc_open p")
    case False
    with Suc.prems ends_fail show ?thesis by (auto simp: doc_directives.simps [of "Suc n"])
  next
    case True
    obtain st y' r where r: "parse_directive p y = (st, y', r)" by (cases "parse_directive p y") auto
    note t = toksD [OF parse_directive_toks [OF r]] left_same [OF Suc.prems(1) parse_directive_toks [OF r]]
    have c: "0 < m" "left (m - 1) (consume_token r)" using consume_counted [OF t(4)] t Suc.prems(3) True by simp_all
    have "ends Q (doc_directives n True y' q k)" if q: "left (m - 1) q" "pa_have_token q" for q
    proof (rule Suc.IH [OF q(1) _ q(2)])
      show "m - 1 \<le> n" using Suc.prems(2) by simp
      show "ends Q (k True q)" if "cur_type q \<noteq> OYL_TOK_DIRECTIVE" using Suc.prems(5) c(1) q that by blast
      show "ends Q (k d u)" if "0 < m - 1" "left (m - 1 - 1) u" "pa_have_token u" "cur_type u \<noteq> OYL_TOK_DIRECTIVE" for d u
        using Suc.prems(5) [OF c(1) _ that(3,4)] left_mono [OF that(2), of "m - 1"] by simp
    qed
    then have "ends Q (peeked (consume_token r) (\<lambda>p. doc_directives n True y' p k))"
      by (intro ends_peeked_at [OF c(2)])
    with True r show ?thesis by (simp add: doc_directives.simps [of "Suc n"] ends_def)
  qed
qed

lemma parse_document_ends:
  assumes "left m p" and "4 * m + 3 < n" and "pa_have_token p" and "cur_type p \<noteq> OYL_TOK_STREAM_END" and "cur_type p \<noteq> OYL_TOK_NONE"
  shows "ends (chunked m p) (parse_document n p)"
proof -
  have body: "ends (chunked m p) (doc_directives n False False q (document_body (parse_call n)))" if q: "toks q = toks p" for q
  proof (rule directives_end [OF left_same [OF assms(1) q]])
    note t = toksD [OF q]
    have "chunked m q = chunked m p" using t by (simp add: chunked_def at_edge_def fun_eq_iff)
    then show "ends (chunked m p) (document_body (parse_call n) False q)"
      using document_body_ends(2) [OF left_same [OF assms(1) q] assms(2)] t assms(3-5) by metis
    show "ends (chunked m p) (document_body (parse_call n) d r)" if "0 < m" "left (m - 1) r" "pa_have_token r" for d r
      using that assms(2) by (intro ends_mono [OF document_body_ends(1) [where m = "m - 1"]]) (auto simp: chunked_def)
  qed (use assms(2,3) toksD [OF q] in simp_all)
  show ?thesis unfolding parse_document_def Let_def
    by (rule ends_unless, rule ends_peeked [OF assms(1)]) (use assms(3) body in auto)
qed

section \<open>The stream\<close>

definition weight :: "oyl_parser \<Rightarrow> nat" where
  "weight p = 2 * tokens_left p + (if at_edge p then 0 else 1)"

lemma chunked_weight: "chunked (tokens_left p) p q \<Longrightarrow> weight q < weight p"
  by (auto simp: chunked_def weight_def left_def split: if_split_asm)

lemma chunked_left: "chunked m p q \<Longrightarrow> left m q"
  using left_mono [of "m - 1" q m] by (auto simp: chunked_def)

lemma stream_ends:
  assumes "left (tokens_left p) p" and "4 * tokens_left p + 3 < n" and "pa_have_token p \<Longrightarrow> pa_stream_started p"
  shows "ends (\<lambda>q. left (tokens_left p) q \<and> (pa_stream_ended q \<or> weight q < weight p)) (parse_stream n p)"
    (is "ends ?done _")
proof -
  have status: "ends Q (status_of q)" if "Q q" for Q q
    using that by (simp add: status_of_def ends_def oom_status_not_ok)
  have ended: "ends ?done (end_stream q)" if "left (tokens_left p) q" for q
    unfolding end_stream_def Let_def
    by (rule status) (use left_same [OF that end_document_toks] in simp)
  have document: "ends ?done (then_ok (parse_document n q) (\<lambda>r.
      if pa_have_token r \<and> mk_offset (cur_start r) = mk_offset (cur_start q) \<and> cur_type r = cur_type q
      then fail_with r msg else status_of r))"
    if q: "left (tokens_left p) q" "pa_have_token q" "pa_have_token p \<Longrightarrow> q = p"
      "cur_type q \<noteq> OYL_TOK_STREAM_END" "cur_type q \<noteq> OYL_TOK_NONE" for q msg
  proof -
    have "?done r" if "chunked (tokens_left p) q r" for r
    proof (cases "pa_have_token p")
      case True
      with q(3) that show ?thesis using chunked_weight [of p r] chunked_left by simp
    next
      case False
      then have "weight p = 2 * tokens_left p + 1" by (simp add: weight_def at_edge_def)
      moreover have "weight r \<le> 2 * tokens_left p" using that by (auto simp: chunked_def weight_def left_def)
      ultimately show ?thesis using that chunked_left by simp
    qed
    then show ?thesis
      by (intro ends_then ends_mono [OF parse_document_ends [OF q(1) assms(2) q(2,4,5)]] ends_if ends_fail status)
  qed
  have "ends (\<lambda>q. left (tokens_left p) q \<and> (pa_have_token p \<longrightarrow> q = p)) (start_stream p)"
    unfolding start_stream_def Let_def
    by (intro ends_if ends_peeked_at [OF assms(1)] ends_ok)
      (use assms(3) in \<open>auto simp: assms(1)\<close>)
  then show ?thesis unfolding parse_stream_def Let_def
    by (intro ends_then, elim ends_mono)
      (rule ends_peeked [where m = "tokens_left p"], simp, intro ends_if ended document, auto)
qed

section \<open>Every call returns\<close>

lemma next_chunk_same [simp]: "pa_have_token (next_chunk p) = pa_have_token p" "toks (next_chunk p) = toks p" "pa_stream_started (next_chunk p) = pa_stream_started p"
  "tokens_left (next_chunk p) = tokens_left p" "weight (next_chunk p) = weight p" "left m (next_chunk p) = left m p"
  by (simp_all add: next_chunk_def toks_def tokens_left_def weight_def at_edge_def left_def cur_type_def)

text \<open>The invariant between two calls, with fuel \<open>k\<close> for the chunks to come.\<close>

definition advancing :: "nat \<Rightarrow> nat \<Rightarrow> oyl_parser \<Rightarrow> bool" where
  "advancing m k p \<longleftrightarrow> left m p \<and> (pa_have_token p \<longrightarrow> pa_stream_started p) \<and> (pa_stream_ended p \<or> weight p < k)"

lemma chunk_ends:
  assumes "delivering es p" and "length (pa_events p) \<le> pa_evt_cursor p" and "\<not> pa_stream_ended p"
    and "advancing m (Suc k) p" and "4 * m + 3 < n"
  shows "\<exists>st q. eager_chunk n p = Some (st, q) \<and> (st = OYL_OK \<longrightarrow> advancing m k q)"
proof -
  have left: "left (tokens_left p) p" "tokens_left p \<le> m" using assms(4) by (simp_all add: advancing_def left_def)
  then have "ends (\<lambda>q. left (tokens_left p) q \<and> (pa_stream_ended q \<or> weight q < weight p)) (parse_stream n (next_chunk p))"
    using stream_ends [of "next_chunk p" n] assms(4,5) by (simp add: advancing_def)
  then obtain st r where r: "parse_stream n (next_chunk p) = Some (st, r)"
    "st = OYL_OK \<longrightarrow> left (tokens_left p) r \<and> (pa_stream_ended r \<or> weight r < weight p)" by (auto simp: ends_def)
  have mode: "\<not> pa_merge_enabled p" "\<not> pa_resolve_enabled p" "pa_skip_n p = 0" using delivering_mode [OF assms(1)] by simp_all
  show ?thesis
  proof (cases "st = OYL_OK")
    case False
    then show ?thesis using r(1) by (simp add: eager_chunk_def then_ok_def)
  next
    case True
    have depth: "eager_chunk n p = Some (check_eager_depth r) \<or> eager_chunk n p = Some (OYL_OK, r)"
      if "\<not> pa_merge_enabled r" "\<not> pa_resolve_enabled r" "pa_skip_n r = 0"
      using that True r(1) by (auto simp: eager_chunk_def then_ok_def ok_def check_eager_depth_def)
    obtain fs where fs: "es = fs @ pa_events p" and oom: "\<not> pa_oom p"
      and stage: "settled fs (rewound p) \<or> at_stage Unstarted fs (rewound p) \<or> at_stage Ended fs (rewound p)"
      using assms(1,2) by (auto simp: delivering_def)
    have "\<not> at_stage Ended fs (rewound p)" using oom assms(3) by (auto simp: stands_def core_sel rewound_def)
    then have "settled es (next_chunk p) \<or> at_stage Unstarted es (next_chunk p)"
      using fs stage by (auto simp: settled_def stands_def core_sel next_chunk_def rewound_def at_edge_def cur_type_def)
    then have finished: "chunk_done es r" using stream_ok [of es "next_chunk p" n] r(1) True by (simp add: on_ok_def)
    from this have started: "pa_stream_started r" by (auto simp: chunk_done_def settled_def stands_def core_sel)
    have "left m r" using r(2) True left_mono left(2) by blast
    with r(2) True started assms(3,4) have adv: "advancing m k r" by (auto simp: advancing_def)
    show ?thesis using depth chunk_done_mode [OF finished] adv by (auto simp: check_eager_depth_def split: if_split_asm)
  qed
qed

lemma eager_next_ends:
  assumes "delivering es p" and "advancing m k p" and "4 * m + 3 < n"
  shows "\<exists>r q. eager_next_event n k p = Some (r, q) \<and> (\<forall>e. r = Inr e \<longrightarrow> advancing m k q)"
  using assms
proof (induction k arbitrary: es p)
  case (0 es p)
  have "pa_stream_ended p" using 0(2) by (simp add: advancing_def)
  show ?case
  proof (cases "pa_evt_cursor p < length (pa_events p)")
    case True
    then have "eager_next_event n 0 p = Some (Inr (pa_events p ! pa_evt_cursor p), p\<lparr>pa_evt_cursor := pa_evt_cursor p + 1\<rparr>)"
      by (simp add: eager_next_event.simps [of n 0 p] dequeue_def)
    with 0(2) show ?thesis
      by (simp add: advancing_def left_def tokens_left_def weight_def at_edge_def cur_type_def)
  next
    case False
    with 0(2) \<open>pa_stream_ended p\<close> show ?thesis by (simp add: eager_next_event.simps [of n 0 p] dequeue_def)
  qed
next
  case (Suc k es p)
  show ?case
  proof (cases "pa_evt_cursor p < length (pa_events p)")
    case True
    then have "eager_next_event n (Suc k) p = Some (Inr (pa_events p ! pa_evt_cursor p), p\<lparr>pa_evt_cursor := pa_evt_cursor p + 1\<rparr>)"
      by (simp add: eager_next_event.simps [of n "Suc k" p] dequeue_def)
    with Suc.prems(2) show ?thesis
      by (simp add: advancing_def left_def tokens_left_def weight_def at_edge_def cur_type_def)
  next
    case drained: False
    show ?thesis
    proof (cases "pa_stream_ended p")
      case True
      with drained Suc.prems(2) show ?thesis by (simp add: eager_next_event.simps [of n "Suc k" p] dequeue_def)
    next
      case False
      obtain st r where r: "eager_chunk n p = Some (st, r)" "st = OYL_OK \<longrightarrow> advancing m k r"
        using chunk_ends [OF Suc.prems(1) _ False Suc.prems(2,3)] drained by auto
      show ?thesis
      proof (cases "st = OYL_OK")
        case bad: False
        with r drained False show ?thesis by (simp add: eager_next_event.simps [of n "Suc k" p] dequeue_def)
      next
        case True
        then have "delivering es r" using chunk_delivers [OF Suc.prems(1) _ False] drained r(1) by simp
        from Suc.IH [OF this _ Suc.prems(3)] r(2) True obtain u q where
          "eager_next_event n k r = Some (u, q)" "\<forall>e. u = Inr e \<longrightarrow> advancing m k q" by blast
        moreover have "advancing m k q \<Longrightarrow> advancing m (Suc k) q" for q by (auto simp: advancing_def)
        ultimately show ?thesis using r(1) True drained False
          by (simp add: eager_next_event.simps [of n "Suc k" p] dequeue_def)
      qed
    qed
  qed
qed

lemma delivers_advancing:
  assumes "delivers n k p es q" and "delivering [] p" and "advancing m k p" and "4 * m + 3 < n"
  shows "advancing m k q"
  using assms
proof induction
  case (delivers_event es q e r)
  then have q: "advancing m k q" by blast
  have "delivering es q" by (rule delivers_delivering [OF delivers_event.hyps(1) delivers_event.prems(1)])
  note mode = delivering_mode [OF this]
  have "eager_next_event n k q = Some (Inr e, r)"
    using delivers_event.hyps(2) mode by (auto simp: oyl_parse_next_def next_event_def split: option.splits sum.splits)
  then show ?case using eager_next_ends [OF \<open>delivering es q\<close> q delivers_event.prems(3)] by auto
qed

lemma new_advancing:
  assumes "oyl_parser_new m sm sse42 input = Some p"
    and "q = oyl_parser_set_max_depth (oyl_parser_set_max_events (oyl_parser_set_schema p (Some sch)) me) md"
    and "4 * length input + 1 < k"
  shows "advancing (2 * length input) k q \<and> delivering [] q"
proof -
  obtain s where s: "oyl_scanner_new sm sse42 input = Some s" "pa_scanner q = s" "\<not> pa_have_token q"
    using assms(1,2)
    by (auto simp: oyl_parser_new_def oyl_parser_set_max_depth_def oyl_parser_set_max_events_def oyl_parser_set_schema_def Let_def
        split: if_split_asm option.splits prod.splits)
  have "scanner_ok s" "length (sc_buf s) = length input"
    using scanner_new_inv [OF s(1)] s(1) by (auto simp: scanner_ok_def oyl_scanner_new_def Let_def split: if_split_asm prod.splits)
  then have "advancing (2 * length input) k q"
    using s(2,3) assms(3) diff_le_self [of "length input" "sc_pos s"] by (auto simp: advancing_def left_def tokens_left_def weight_def at_edge_def)
  moreover have "delivering [] q"
    using assms(1,2)
    by (auto simp: oyl_parser_new_def delivering_def stands_def core_def rewound_def shape.simps oyl_parser_set_max_depth_def
        oyl_parser_set_max_events_def oyl_parser_set_schema_def Let_def split: if_split_asm option.splits prod.splits)
  ultimately show ?thesis by blast
qed



end
